(* ===== verification/Prelude.thy ===== *)
theory Prelude
  imports
    Main
    "HOL-Library.Word"
    "HOL-Library.Multiset"
    "HOL-Library.AList"
    "HOL-Library.Char_ord"
    "HOL-Library.List_Lexorder"
begin

text \<open>
  Shared vocabulary of the development: the names of the Go types that every
  component uses, Go's \<open>map\<close> as a duplicate-free association list, the newest-holder
  scan that the snapshot route is specified by, and the generic list lemmas that carry
  the component proofs.

  A Go \<open>map[K]V\<close> is modelled by \<open>('k, 'v) gomap\<close>, an association list: \<open>map_of\<close>
  reads it, \<open>AList.update\<close> and \<open>AList.delete\<close> write it, \<open>length\<close> is \<open>len(m)\<close>. Go
  leaves the iteration order of a map unspecified; the list's order is one such order,
  and \<open>gomap_ok\<close> (no key twice) is an invariant of every map built here.
\<close>

type_synonym ExternalID = string
type_synonym SegmentID = string
type_synonym byte = "8 word"
type_synonym ('k, 'v) gomap = "('k \<times> 'v) list"

named_theorems route_simps "lookups in a snapshot's two-level route"
named_theorems live_simps "reads of a live-document bitset after a write"
named_theorems store_simps "reads of the engine's store after a write"

section \<open>Go maps\<close>

definition gomap_ok :: "('k, 'v) gomap \<Rightarrow> bool" where
  "gomap_ok m \<longleftrightarrow> distinct (map fst m)"

definition gm_keys :: "('k, 'v) gomap \<Rightarrow> 'k set" where
  "gm_keys m = fst ` set m"

lemma gomap_ok_Nil [simp]: "gomap_ok []"
  by (simp add: gomap_ok_def)

lemma gomap_ok_update [simp]: "gomap_ok m \<Longrightarrow> gomap_ok (AList.update k v m)"
  by (simp add: gomap_ok_def distinct_update)

lemma gomap_ok_delete [simp]: "gomap_ok m \<Longrightarrow> gomap_ok (AList.delete k m)"
  by (simp add: gomap_ok_def distinct_delete)

lemma gomap_ok_length: "gomap_ok m \<Longrightarrow> length m = card (gm_keys m)"
  by (metis distinct_card gomap_ok_def gm_keys_def length_map list.set_map)

lemma gm_keys_iff: "k \<in> gm_keys m \<longleftrightarrow> map_of m k \<noteq> None"
  by (simp add: gm_keys_def map_of_eq_None_iff)

lemma finite_gm_keys [simp]: "finite (gm_keys m)"
  by (simp add: gm_keys_def)

lemma gm_keys_update [simp]: "gm_keys (AList.update k v m) = insert k (gm_keys m)"
  by (auto simp: gm_keys_iff update_conv' split: if_splits)

section \<open>The newest element satisfying a predicate\<close>

text \<open>
  \<open>newest P xs\<close> is the last element of \<open>xs\<close> satisfying \<open>P\<close>: what a loop from the
  highest index down returns, and what a map filled in order ends up holding.
\<close>

definition newest :: "('a \<Rightarrow> bool) \<Rightarrow> 'a list \<Rightarrow> 'a option" where
  "newest P xs = find P (rev xs)"

lemma newest_Nil [simp]: "newest P [] = None"
  by (simp add: newest_def)

lemma newest_snoc [simp]: "newest P (xs @ [x]) = (if P x then Some x else newest P xs)"
  by (simp add: newest_def)

lemma newest_append:
  "newest P (xs @ ys) = (case newest P ys of Some y \<Rightarrow> Some y | None \<Rightarrow> newest P xs)"
  by (induction ys rule: rev_induct) (auto simp flip: append_assoc)

lemma newest_Cons:
  "newest P (x # xs) = (case newest P xs of Some y \<Rightarrow> Some y | None \<Rightarrow> if P x then Some x else None)"
  using newest_append[of P "[x]" xs] newest_snoc[of P "[]" x] by (cases "newest P xs") auto

lemma newest_None_iff: "newest P xs = None \<longleftrightarrow> (\<forall>x \<in> set xs. \<not> P x)"
  by (auto simp: newest_def find_None_iff)

lemma newest_SomeD: "newest P xs = Some x \<Longrightarrow> x \<in> set xs \<and> P x"
  by (induction xs rule: rev_induct) (auto split: if_splits)

lemma newest_ex: "x \<in> set xs \<Longrightarrow> P x \<Longrightarrow> \<exists>y. newest P xs = Some y"
  by (metis newest_None_iff not_None_eq)

lemma newest_cong: "(\<And>x. x \<in> set xs \<Longrightarrow> P x = Q x) \<Longrightarrow> newest P xs = newest Q xs"
  by (induction xs rule: rev_induct) auto

lemma newest_nth:
  "newest P xs = Some x \<longleftrightarrow>
     (\<exists>i < length xs. xs ! i = x \<and> P x \<and> (\<forall>j. i < j \<and> j < length xs \<longrightarrow> \<not> P (xs ! j)))"
proof (induction xs rule: rev_induct)
  case (snoc y xs)
  show ?case
  proof (cases "P y")
    case True
    have "i = length xs"
      if "i < length (xs @ [y])" "\<forall>j. i < j \<and> j < length (xs @ [y]) \<longrightarrow> \<not> P ((xs @ [y]) ! j)" for i
      using that True by (metis length_append_singleton less_Suc_eq nth_append_length)
    then have "(xs @ [y]) ! i = y"
      if "i < length (xs @ [y])" "\<forall>j. i < j \<and> j < length (xs @ [y]) \<longrightarrow> \<not> P ((xs @ [y]) ! j)" for i
      using that by (metis nth_append_length)
    moreover have "newest P (xs @ [y]) = Some x \<longleftrightarrow> x = y" using True by auto
    ultimately show ?thesis using True by (auto intro!: exI[of _ "length xs"])
  next
    case False
    have "(\<exists>i < length (xs @ [y]). (xs @ [y]) ! i = x \<and> P x \<and> (\<forall>j. i < j \<and> j < length (xs @ [y]) \<longrightarrow> \<not> P ((xs @ [y]) ! j))) \<longleftrightarrow>
        (\<exists>i < length xs. xs ! i = x \<and> P x \<and> (\<forall>j. i < j \<and> j < length xs \<longrightarrow> \<not> P (xs ! j)))"
      using False by (auto simp: nth_append less_Suc_eq)
    then show ?thesis using snoc False by simp
  qed
qed simp

text \<open>Dropping elements that the predicate rejects does not change the answer.\<close>

lemma newest_filter:
  "(\<And>x. x \<in> set xs \<Longrightarrow> P x \<Longrightarrow> Q x) \<Longrightarrow> newest P (filter Q xs) = newest P xs"
  by (induction xs rule: rev_induct) auto

lemma newest_filter_Some:
  "newest P xs = Some x \<Longrightarrow> Q x \<Longrightarrow> newest P (filter Q xs) = Some x"
  by (induction xs rule: rev_induct) (auto split: if_splits)

lemma newest_map: "newest P (map f xs) = map_option f (newest (P \<circ> f) xs)"
  by (induction xs rule: rev_induct) auto

section \<open>Counting\<close>

lemma length_filter_card:
  "distinct xs \<Longrightarrow> length (filter P xs) = card {x \<in> set xs. P x}"
  by (metis distinct_card distinct_filter set_filter)

section \<open>Strings and bytes\<close>

text \<open>A Go string is a byte sequence: the conversions \<open>[]byte(s)\<close> and \<open>string(bs)\<close>.\<close>

definition bytes_of :: "string \<Rightarrow> byte list" where
  "bytes_of s = map (\<lambda>c. word_of_nat (of_char c)) s"

definition string_of :: "byte list \<Rightarrow> string" where
  "string_of bs = map (\<lambda>b. char_of (unat b)) bs"

lemma length_bytes_of [simp]: "length (bytes_of s) = length s"
  by (simp add: bytes_of_def)

lemma string_of_bytes_of [simp]: "string_of (bytes_of s) = s"
proof -
  have "char_of (unat (word_of_nat (of_char c) :: byte)) = c" for c
    by (simp add: unat_of_nat take_bit_nat_def)
  then show ?thesis by (simp add: string_of_def bytes_of_def o_def map_idI)
qed

section \<open>Invariants of a step relation\<close>

text \<open>
  What a state machine owes so that a property holds in every state it reaches: it holds
  initially and every step keeps it. \<open>guarantee\<close> is what a client may read off a state the
  invariant holds in.
\<close>

locale transition_system =
  fixes start :: "'st \<Rightarrow> bool" and step :: "'st \<Rightarrow> 'st \<Rightarrow> bool" and inv :: "'st \<Rightarrow> bool" and guarantee :: "'st \<Rightarrow> bool"
  assumes inv_start: "start s \<Longrightarrow> inv s"
    and inv_step: "step s t \<Longrightarrow> inv s \<Longrightarrow> inv t"
    and inv_guarantee: "inv s \<Longrightarrow> guarantee s"
begin

lemma reach_inv: "step\<^sup>*\<^sup>* s t \<Longrightarrow> start s \<Longrightarrow> inv t"
  by (induction rule: rtranclp_induct) (auto intro: inv_start inv_step)

lemma reach_guarantee: "step\<^sup>*\<^sup>* s t \<Longrightarrow> start s \<Longrightarrow> guarantee t"
  by (rule inv_guarantee) (rule reach_inv)

end

end
