(* ===== verification/TopK.thy ===== *)
theory TopK
  imports Prelude
begin

text \<open>
  \<open>internal/searchengine/topk.go\<close>: the bounded min-heap \<open>HitHeap\<close> and the
  cross-segment top-k merge \<open>mergeTopK\<close>. Scores are compared and never computed with
  here, so the score type is any linear order: the model covers every \<open>float64\<close> but
  NaN. The heap is a list indexed as the Go slice is; \<open>siftUp\<close> and \<open>siftDown\<close> return
  the permuted slice. \<open>sort.Slice\<close> is unstable, but two hits that its comparison does
  not separate are equal, so an insertion sort by the same comparison gives the one
  possible result.

  Shown: the heap order and the multiset are kept by both sifts, \<open>Offer\<close> maintains
  "the best k so far", and \<open>mergeTopK\<close> returns the k best hits of the union in the
  documented order. The tie rule that \<open>Offer\<close>'s comment promises does not hold, and a
  concrete run shows it.
\<close>

record 'sc Hit =
  hit_ID :: ExternalID
  hit_Score :: 'sc

type_synonym 'sc HitHeap = "'sc Hit list"

definition heap_less :: "'sc::linorder HitHeap \<Rightarrow> nat \<Rightarrow> nat \<Rightarrow> bool" where
  "heap_less h i j \<longleftrightarrow> hit_Score (h ! i) < hit_Score (h ! j)"

definition heap_swap :: "'a list \<Rightarrow> nat \<Rightarrow> nat \<Rightarrow> 'a list" where
  "heap_swap h i j = h[i := h ! j, j := h ! i]"

function siftUp :: "'sc::linorder HitHeap \<Rightarrow> nat \<Rightarrow> 'sc HitHeap" where
  "siftUp h i =
     (if i > 0 then
        (let parent = (i - 1) div 2
         in if \<not> heap_less h i parent then h
            else siftUp (heap_swap h i parent) parent)
      else h)"
  by pat_completeness auto
termination
  by (relation "measure snd") auto

function siftDown :: "'sc::linorder HitHeap \<Rightarrow> nat \<Rightarrow> 'sc HitHeap" where
  "siftDown h i =
     (let n = length h; left = 2 * i + 1
      in if left \<ge> n then h
         else (let right = left + 1;
                   smallest = (if right < n \<and> heap_less h right left then right else left)
               in if \<not> heap_less h smallest i then h
                  else siftDown (heap_swap h i smallest) smallest))"
  by pat_completeness auto
termination
  by (relation "measure (\<lambda>(h, i). length h - i)") (auto simp: Let_def heap_swap_def)

declare siftUp.simps [simp del] siftDown.simps [simp del]

definition Offer :: "'sc::linorder HitHeap \<Rightarrow> 'sc Hit \<Rightarrow> int \<Rightarrow> 'sc HitHeap" where
  "Offer h hit k =
     (if k \<le> 0 then h
      else if int (length h) < k then siftUp (h @ [hit]) (length h)
      else if hit_Score hit > hit_Score (h ! 0) then siftDown (h[0 := hit]) 0
      else h)"

text \<open>The comparison \<open>mergeTopK\<close> passes to \<open>sort.Slice\<close>, and the sort by it.\<close>

definition hit_before :: "'sc::linorder Hit \<Rightarrow> 'sc Hit \<Rightarrow> bool" where
  "hit_before a b \<longleftrightarrow>
     (if hit_Score a \<noteq> hit_Score b then hit_Score a > hit_Score b else hit_ID a < hit_ID b)"

fun insert_hit :: "'sc::linorder Hit \<Rightarrow> 'sc Hit list \<Rightarrow> 'sc Hit list" where
  "insert_hit x [] = [x]"
| "insert_hit x (y # ys) = (if hit_before y x then y # insert_hit x ys else x # y # ys)"

fun sort_hits :: "'sc::linorder Hit list \<Rightarrow> 'sc Hit list" where
  "sort_hits [] = []"
| "sort_hits (x # xs) = insert_hit x (sort_hits xs)"

fun offer_all :: "'sc::linorder HitHeap \<Rightarrow> 'sc Hit list \<Rightarrow> int \<Rightarrow> 'sc HitHeap" where
  "offer_all h [] k = h"
| "offer_all h (x # xs) k = offer_all (Offer h x k) xs k"

fun offer_segments :: "'sc::linorder HitHeap \<Rightarrow> 'sc Hit list list \<Rightarrow> int \<Rightarrow> 'sc HitHeap" where
  "offer_segments h [] k = h"
| "offer_segments h (hits # rest) k = offer_segments (offer_all h hits k) rest k"

definition mergeTopK :: "'sc::linorder Hit list list \<Rightarrow> int \<Rightarrow> 'sc Hit list" where
  "mergeTopK perSegment k =
     (if k \<le> 0 then [] else sort_hits (offer_segments [] perSegment k))"

section \<open>The sifts permute and restore the heap order\<close>

definition heap_ok :: "'sc::linorder HitHeap \<Rightarrow> bool" where
  "heap_ok h \<longleftrightarrow>
     (\<forall>j < length h. 0 < j \<longrightarrow> hit_Score (h ! ((j - 1) div 2)) \<le> hit_Score (h ! j))"

lemma length_heap_swap [simp]: "length (heap_swap h i j) = length h"
  by (simp add: heap_swap_def)

lemma mset_heap_swap [simp]:
  "i < length h \<Longrightarrow> j < length h \<Longrightarrow> mset (heap_swap h i j) = mset h"
  by (simp add: heap_swap_def mset_swap)

lemma nth_heap_swap:
  "i < length h \<Longrightarrow> j < length h \<Longrightarrow> k < length h \<Longrightarrow>
   heap_swap h i j ! k = (if k = j then h ! i else if k = i then h ! j else h ! k)"
  by (simp add: heap_swap_def nth_list_update)

lemma mset_siftUp: "i < length h \<Longrightarrow> mset (siftUp h i) = mset h"
proof (induction h i rule: siftUp.induct)
  case (1 h i)
  then show ?case
    by (subst siftUp.simps) (auto simp: Let_def)
qed

lemma mset_siftDown: "i < length h \<Longrightarrow> mset (siftDown h i) = mset h"
proof (induction h i rule: siftDown.induct)
  case (1 h i)
  then show ?case
    by (subst siftDown.simps) (auto simp: Let_def)
qed

text \<open>
  While a sift runs, the order holds everywhere but at the moving index, and the
  index's children are still above its parent.
\<close>

definition up_hole :: "'sc::linorder HitHeap \<Rightarrow> nat \<Rightarrow> bool" where
  "up_hole h i \<longleftrightarrow>
     (\<forall>j < length h. 0 < j \<longrightarrow> j \<noteq> i \<longrightarrow> hit_Score (h ! ((j - 1) div 2)) \<le> hit_Score (h ! j)) \<and>
     (\<forall>j < length h. 0 < j \<longrightarrow> (j - 1) div 2 = i \<longrightarrow> 0 < i \<longrightarrow>
        hit_Score (h ! ((i - 1) div 2)) \<le> hit_Score (h ! j))"

definition down_hole :: "'sc::linorder HitHeap \<Rightarrow> nat \<Rightarrow> bool" where
  "down_hole h i \<longleftrightarrow>
     (\<forall>j < length h. 0 < j \<longrightarrow> (j - 1) div 2 \<noteq> i \<longrightarrow>
        hit_Score (h ! ((j - 1) div 2)) \<le> hit_Score (h ! j)) \<and>
     (\<forall>j < length h. 0 < j \<longrightarrow> (j - 1) div 2 = i \<longrightarrow> 0 < i \<longrightarrow>
        hit_Score (h ! ((i - 1) div 2)) \<le> hit_Score (h ! j))"

lemma parent_less: "0 < j \<Longrightarrow> (j - 1) div 2 < (j::nat)"
  by linarith

lemma up_hole_swap:
  assumes hole: "up_hole h i" and i: "0 < i" "i < length h"
    and less: "heap_less h i ((i - 1) div 2)"
  shows "up_hole (heap_swap h i ((i - 1) div 2)) ((i - 1) div 2)"
proof -
  let ?p = "(i - 1) div 2" and ?s = "\<lambda>j. hit_Score (h ! j)"
  let ?g = "heap_swap h i ?p"
  have p: "?p < i" "?p < length h" using i parent_less by auto
  have nth: "hit_Score (?g ! j) = (if j = ?p then ?s i else if j = i then ?s ?p else ?s j)"
    if "j < length h" for j using that i p by (simp add: nth_heap_swap)
  have lt: "?s i < ?s ?p" using less by (simp add: heap_less_def)
  have ord: "?s ((j - 1) div 2) \<le> ?s j" if "j < length h" "0 < j" "j \<noteq> i" for j
    using hole that by (simp add: up_hole_def)
  have kid: "?s ?p \<le> ?s j" if "j < length h" "0 < j" "(j - 1) div 2 = i" for j
    using hole that i by (simp add: up_hole_def)
  have 1: "hit_Score (?g ! ((j - 1) div 2)) \<le> hit_Score (?g ! j)"
    if j: "j < length h" "0 < j" "j \<noteq> ?p" for j
  proof -
    define q where "q = (j - 1) div 2"
    have q: "q < length h" using j by (simp add: q_def)
    consider "j = i" | "j \<noteq> i" "q = i" | "j \<noteq> i" "q = ?p" | "j \<noteq> i" "q \<noteq> i" "q \<noteq> ?p" by blast
    then have "hit_Score (?g ! q) \<le> hit_Score (?g ! j)"
    proof cases
      case 1 then show ?thesis using nth[OF j(1)] nth[OF q] lt p by (simp add: q_def)
    next
      case 2 then show ?thesis using nth[OF j(1)] nth[OF q] kid[OF j(1,2)] j p by (simp add: q_def)
    next
      case 3 then show ?thesis
        using nth[OF j(1)] nth[OF q] ord[OF j(1,2)] lt j by (simp add: q_def)
    next
      case 4 then show ?thesis using nth[OF j(1)] nth[OF q] ord[OF j(1,2)] j by (simp add: q_def)
    qed
    then show ?thesis by (simp add: q_def)
  qed
  have 2: "hit_Score (?g ! ((?p - 1) div 2)) \<le> hit_Score (?g ! j)"
    if j: "j < length h" "0 < j" "(j - 1) div 2 = ?p" "0 < ?p" for j
  proof -
    define q where "q = (?p - 1) div 2"
    have q: "q < ?p" using j(4) parent_less[of ?p] by (simp add: q_def)
    have ql: "q < length h" using q p by simp
    have up: "?s q \<le> ?s ?p" using ord[OF p(2) j(4)] p by (simp add: q_def)
    have gq: "hit_Score (?g ! q) = ?s q" using nth[OF ql] q p by simp
    have jp: "j \<noteq> ?p" using j parent_less[of j] by auto
    have "?s q \<le> hit_Score (?g ! j)"
    proof (cases "j = i")
      case True then show ?thesis using nth[OF j(1)] up p by simp
    next
      case False then show ?thesis
        using nth[OF j(1)] ord[OF j(1,2)] up jp j(3) by simp
    qed
    then show ?thesis using gq by (simp add: q_def)
  qed
  show ?thesis unfolding up_hole_def using 1 2 by simp
qed

lemma siftUp_heap: "i < length h \<Longrightarrow> up_hole h i \<Longrightarrow> heap_ok (siftUp h i)"
proof (induction h i rule: siftUp.induct)
  case (1 h i)
  show ?case
  proof (cases "0 < i \<and> heap_less h i ((i - 1) div 2)")
    case True
    then have "(i - 1) div 2 < length h" using "1.prems"(1) by auto
    moreover have "up_hole (heap_swap h i ((i - 1) div 2)) ((i - 1) div 2)"
      using up_hole_swap "1.prems" True by blast
    ultimately show ?thesis
      using "1.IH" True by (subst siftUp.simps) (simp add: Let_def)
  next
    case False
    have "heap_ok h"
      unfolding heap_ok_def
    proof (intro allI impI)
      fix j assume j: "j < length h" "0 < j"
      show "hit_Score (h ! ((j - 1) div 2)) \<le> hit_Score (h ! j)"
        using "1.prems" j False by (cases "j = i") (auto simp: up_hole_def heap_less_def)
    qed
    then show ?thesis using False by (subst siftUp.simps) (auto simp: Let_def)
  qed
qed

lemma down_hole_swap:
  assumes hole: "down_hole h i" and c: "c < length h" "(c - 1) div 2 = i" "0 < c"
    and least: "\<And>j. j < length h \<Longrightarrow> 0 < j \<Longrightarrow> (j - 1) div 2 = i \<Longrightarrow> hit_Score (h ! c) \<le> hit_Score (h ! j)"
    and less: "heap_less h c i"
  shows "down_hole (heap_swap h i c) c"
proof -
  let ?s = "\<lambda>j. hit_Score (h ! j)" and ?g = "heap_swap h i c"
  have i: "i < c" "i < length h" using c parent_less[of c] by auto
  have nth: "hit_Score (?g ! j) = (if j = c then ?s i else if j = i then ?s c else ?s j)"
    if "j < length h" for j using that i c by (simp add: nth_heap_swap)
  have lt: "?s c < ?s i" using less by (simp add: heap_less_def)
  have ord: "?s ((j - 1) div 2) \<le> ?s j" if "j < length h" "0 < j" "(j - 1) div 2 \<noteq> i" for j
    using hole that by (simp add: down_hole_def)
  have 1: "hit_Score (?g ! ((j - 1) div 2)) \<le> hit_Score (?g ! j)"
    if j: "j < length h" "0 < j" "(j - 1) div 2 \<noteq> c" for j
  proof -
    define q where "q = (j - 1) div 2"
    have q: "q < length h" using j by (simp add: q_def)
    consider "q = i" "j = c" | "q = i" "j \<noteq> c" "j \<noteq> i" | "q \<noteq> i" "j = i" | "q \<noteq> i" "j \<noteq> i" "j \<noteq> c"
      using c parent_less[OF j(2)] by (cases "j = c"; cases "j = i") (auto simp: q_def)
    then have "hit_Score (?g ! q) \<le> hit_Score (?g ! j)"
    proof cases
      case 1 then show ?thesis using nth[OF j(1)] nth[OF q] lt i by simp
    next
      case 2 then show ?thesis using nth[OF j(1)] nth[OF q] least[OF j(1,2)] i by (simp add: q_def)
    next
      case 3
      have "?s q \<le> ?s c"
        using hole c j 3 by (simp add: down_hole_def q_def)
      then show ?thesis using 3 nth[OF j(1)] nth[OF q] i j by (simp add: q_def)
    next
      case 4 then show ?thesis using nth[OF j(1)] nth[OF q] ord[OF j(1,2)] j i by (simp add: q_def)
    qed
    then show ?thesis by (simp add: q_def)
  qed
  have 2: "hit_Score (?g ! ((c - 1) div 2)) \<le> hit_Score (?g ! j)"
    if j: "j < length h" "0 < j" "(j - 1) div 2 = c" for j
  proof -
    have "j \<noteq> c" "j \<noteq> i" using j parent_less[of j] i by auto
    moreover have "?s c \<le> ?s j" using ord[OF j(1,2)] j i by simp
    ultimately show ?thesis using nth[OF j(1)] nth[OF i(2)] c i by simp
  qed
  show ?thesis unfolding down_hole_def using 1 2 by simp
qed

lemma two_children: "0 < j \<Longrightarrow> ((j - 1) div 2 = i) = (j = 2 * i + 1 \<or> j = 2 * i + 2)" for j :: nat
  by linarith

lemma siftDown_heap: "down_hole h i \<Longrightarrow> heap_ok (siftDown h i)"
proof (induction h i rule: siftDown.induct)
  case (1 h i)
  define c where "c = (if 2 * i + 1 + 1 < length h \<and> heap_less h (2 * i + 1 + 1) (2 * i + 1)
    then 2 * i + 1 + 1 else 2 * i + 1)"
  have unf: "siftDown h i = (if length h \<le> 2 * i + 1 \<or> \<not> heap_less h c i then h
      else siftDown (heap_swap h i c) c)"
    by (subst siftDown.simps) (simp add: Let_def c_def)
  have least: "hit_Score (h ! c) \<le> hit_Score (h ! j)"
    if "j < length h" "0 < j" "(j - 1) div 2 = i" for j
  proof -
    have "j = 2 * i + 1 \<or> j = 2 * i + 2" using that two_children by blast
    then show ?thesis using that(1) by (auto simp: c_def heap_less_def)
  qed
  show ?case
  proof (cases "length h \<le> 2 * i + 1 \<or> \<not> heap_less h c i")
    case True
    have "heap_ok h"
      unfolding heap_ok_def
    proof (intro allI impI)
      fix j assume j: "j < length h" "0 < j"
      show "hit_Score (h ! ((j - 1) div 2)) \<le> hit_Score (h ! j)"
      proof (cases "(j - 1) div 2 = i")
        case kid: True
        then have "j = 2 * i + 1 \<or> j = 2 * i + 2" using j two_children by blast
        then have "\<not> length h \<le> 2 * i + 1" using j by linarith
        then have "hit_Score (h ! i) \<le> hit_Score (h ! c)" using True by (simp add: heap_less_def)
        then show ?thesis using least[OF j kid] kid by simp
      next
        case False then show ?thesis using "1.prems" j by (simp add: down_hole_def)
      qed
    qed
    then show ?thesis using True unf by simp
  next
    case False
    have c: "c < length h" "(c - 1) div 2 = i" "0 < c"
      using False by (auto simp: c_def split: if_splits)
    have "down_hole (heap_swap h i c) c"
      using down_hole_swap[OF "1.prems" c least] False by blast
    then have "heap_ok (siftDown (heap_swap h i c) c)"
      using "1.IH" False by (simp add: c_def)
    then show ?thesis using False unf by simp
  qed
qed

lemma heap_root_least:
  assumes "heap_ok h" "j < length h"
  shows "hit_Score (h ! 0) \<le> hit_Score (h ! j)"
  using assms(2)
proof (induction j rule: less_induct)
  case (less j)
  show ?case
  proof (cases "j = 0")
    case False
    then have "hit_Score (h ! ((j - 1) div 2)) \<le> hit_Score (h ! j)"
      using assms(1) less.prems by (simp add: heap_ok_def)
    moreover have "hit_Score (h ! 0) \<le> hit_Score (h ! ((j - 1) div 2))"
      using less.IH[of "(j - 1) div 2"] less.prems False parent_less[of j] by simp
    ultimately show ?thesis by simp
  qed simp
qed

section \<open>The best k so far\<close>

text \<open>
  \<open>best_of k U H\<close>: \<open>H\<close> holds k of the hits of \<open>U\<close> (all of them when there are fewer),
  and no hit left out beats one that was kept.
\<close>

definition best_of :: "nat \<Rightarrow> 'sc::linorder Hit multiset \<Rightarrow> 'sc Hit multiset \<Rightarrow> bool" where
  "best_of k U H \<longleftrightarrow> H \<subseteq># U \<and> size H = min k (size U) \<and>
     (\<forall>x \<in># U - H. \<forall>y \<in># H. hit_Score x \<le> hit_Score y)"

lemma best_of_empty: "best_of k {#} {#}"
  by (simp add: best_of_def)

lemma best_of_take:
  assumes "best_of k U H" "size H < k"
  shows "best_of k (add_mset x U) (add_mset x H)"
proof -
  have "size H = size U" using assms by (auto simp: best_of_def min_def split: if_splits)
  then have "H = U" using assms(1) by (metis best_of_def mset_subset_size subset_mset.le_neq_trans nat_less_le)
  then show ?thesis using assms by (auto simp: best_of_def)
qed

lemma best_of_reject:
  assumes "best_of k U H" "size H = k" "\<forall>y \<in># H. hit_Score x \<le> hit_Score y"
  shows "best_of k (add_mset x U) H"
  using assms by (auto simp: best_of_def add_mset_diff_bothsides subset_mset.le_iff_add min_def
      split: if_splits)

lemma best_of_replace:
  assumes "best_of k U H" "size H = k" "m \<in># H" "\<forall>y \<in># H. hit_Score m \<le> hit_Score y"
    "hit_Score m < hit_Score x"
  shows "best_of k (add_mset x U) (add_mset x (H - {#m#}))"
proof -
  obtain H0 where H: "H = add_mset m H0" using assms(3) by (metis insert_DiffM)
  obtain R where U: "U = H + R" using assms(1) by (metis best_of_def subset_mset.le_iff_add)
  have R: "\<forall>a \<in># R. \<forall>y \<in># H. hit_Score a \<le> hit_Score y"
    using assms(1) by (simp add: best_of_def U)
  have "\<forall>a \<in># add_mset m R. \<forall>y \<in># add_mset x H0. hit_Score a \<le> hit_Score y"
    using R H assms(4,5) by fastforce
  then show ?thesis using assms(1,2) by (auto simp: best_of_def U H)
qed

lemma mset_list_update_0: "xs \<noteq> [] \<Longrightarrow> mset (xs[0 := x]) = add_mset x (mset xs - {#xs ! 0#})"
  by (cases xs) auto

lemma append_up_hole:
  assumes "heap_ok h" shows "up_hole (h @ [x]) (length h)"
  unfolding up_hole_def
proof (intro conjI allI impI)
  fix j assume "j < length (h @ [x])" "0 < j" "j \<noteq> length h"
  then show "hit_Score ((h @ [x]) ! ((j - 1) div 2)) \<le> hit_Score ((h @ [x]) ! j)"
    using assms parent_less[of j] by (simp add: heap_ok_def nth_append)
next
  fix j assume "j < length (h @ [x])" "0 < j" "(j - 1) div 2 = length h"
  then show "hit_Score ((h @ [x]) ! ((length h - 1) div 2)) \<le> hit_Score ((h @ [x]) ! j)"
    using parent_less[of j] by simp
qed

lemma root_down_hole:
  assumes "heap_ok h" shows "down_hole (h[0 := x]) 0"
  unfolding down_hole_def
proof (intro conjI allI impI)
  fix j assume "j < length (h[0 := x])" "0 < j" "(j - 1) div 2 \<noteq> 0"
  then show "hit_Score (h[0 := x] ! ((j - 1) div 2)) \<le> hit_Score (h[0 := x] ! j)"
    using assms by (simp add: heap_ok_def)
qed simp

lemma Offer_best:
  assumes "0 < k" "heap_ok h" "best_of (nat k) U (mset h)"
  shows "heap_ok (Offer h x k)" "best_of (nat k) (add_mset x U) (mset (Offer h x k))"
proof -
  have len: "length h \<le> nat k" using assms(3) by (simp add: best_of_def flip: size_mset)
  consider (push) "int (length h) < k"
    | (beat) "int (length h) = k" "hit_Score x > hit_Score (h ! 0)"
    | (keep) "int (length h) = k" "\<not> hit_Score x > hit_Score (h ! 0)"
    using len assms(1) by linarith
  then have "heap_ok (Offer h x k) \<and> best_of (nat k) (add_mset x U) (mset (Offer h x k))"
  proof cases
    case push
    then show ?thesis using assms best_of_take[OF assms(3), of x]
      by (simp add: Offer_def siftUp_heap append_up_hole mset_siftUp)
  next
    case beat
    have ne: "h \<noteq> []" using beat assms(1) by auto
    have low: "\<forall>y \<in># mset h. hit_Score (h ! 0) \<le> hit_Score y"
      using heap_root_least[OF assms(2)] by (metis in_set_conv_nth set_mset_mset)
    have "mset (siftDown (h[0 := x]) 0) = add_mset x (mset h - {#h ! 0#})"
      using ne by (simp add: mset_siftDown mset_list_update_0)
    then show ?thesis
      using beat assms ne low best_of_replace[OF assms(3), of "h ! 0" x]
      by (simp add: Offer_def siftDown_heap root_down_hole)
  next
    case keep
    have "\<forall>y \<in># mset h. hit_Score x \<le> hit_Score y"
      using heap_root_least[OF assms(2)] keep by (fastforce simp: in_set_conv_nth)
    then show ?thesis using keep assms best_of_reject[OF assms(3), of x]
      by (simp add: Offer_def)
  qed
  then show "heap_ok (Offer h x k)" "best_of (nat k) (add_mset x U) (mset (Offer h x k))"
    by auto
qed

lemma offer_all_best:
  assumes "0 < k" "heap_ok h" "best_of (nat k) U (mset h)"
  shows "heap_ok (offer_all h xs k) \<and> best_of (nat k) (mset xs + U) (mset (offer_all h xs k))"
  using assms(2,3)
proof (induction xs arbitrary: h U)
  case (Cons x xs)
  from Cons.IH[OF Offer_best[OF assms(1) Cons.prems, of x]] show ?case by simp
qed simp

lemma offer_segments_best:
  assumes "0 < k" "heap_ok h" "best_of (nat k) U (mset h)"
  shows "heap_ok (offer_segments h segs k) \<and>
    best_of (nat k) (mset (concat segs) + U) (mset (offer_segments h segs k))"
  using assms(2,3)
proof (induction segs arbitrary: h U)
  case (Cons hits segs)
  from offer_all_best[OF assms(1) Cons.prems, of hits]
  have "heap_ok (offer_all h hits k)" "best_of (nat k) (mset hits + U) (mset (offer_all h hits k))"
    by auto
  from Cons.IH[OF this] show ?case by (simp add: ac_simps)
qed simp

section \<open>The final sort\<close>

abbreviation hits_sorted :: "'sc::linorder Hit list \<Rightarrow> bool" where
  "hits_sorted \<equiv> sorted_wrt (\<lambda>a b. \<not> hit_before b a)"

lemma mset_insert_hit [simp]: "mset (insert_hit x xs) = add_mset x (mset xs)"
  by (induction xs) auto

lemma mset_sort_hits [simp]: "mset (sort_hits xs) = mset xs"
  by (induction xs) auto

lemma set_sort_hits [simp]: "set (sort_hits xs) = set xs"
  by (metis mset_sort_hits set_mset_mset)

lemma length_sort_hits [simp]: "length (sort_hits xs) = length xs"
  by (metis mset_sort_hits size_mset)

lemma hit_before_asym: "hit_before a b \<Longrightarrow> \<not> hit_before b a"
  by (auto simp: hit_before_def split: if_splits)

lemma not_before_trans: "\<not> hit_before b a \<Longrightarrow> \<not> hit_before c b \<Longrightarrow> \<not> hit_before c a"
  by (auto simp: hit_before_def split: if_splits)

lemma set_insert_hit [simp]: "set (insert_hit x xs) = insert x (set xs)"
  by (metis mset_insert_hit set_mset_add_mset_insert set_mset_mset)

lemma sorted_insert_hit: "hits_sorted xs \<Longrightarrow> hits_sorted (insert_hit x xs)"
proof (induction xs)
  case (Cons y ys)
  show ?case
  proof (cases "hit_before y x")
    case True
    then show ?thesis using Cons hit_before_asym by auto
  next
    case False
    then have "\<not> hit_before z x" if "z \<in> set ys" for z
      using not_before_trans[OF False] Cons.prems that by auto
    then show ?thesis using False Cons.prems by auto
  qed
qed simp

lemma sorted_sort_hits: "hits_sorted (sort_hits xs)"
  by (induction xs) (auto simp: sorted_insert_hit)

lemma hit_eqI: "hit_ID a = hit_ID b \<Longrightarrow> hit_Score a = hit_Score b \<Longrightarrow> a = (b :: 'sc Hit)"
  by simp

lemma not_before_antisym: "\<not> hit_before a b \<Longrightarrow> \<not> hit_before b a \<Longrightarrow> a = (b :: 'sc::linorder Hit)"
  by (rule hit_eqI) (auto simp: hit_before_def split: if_splits)

text \<open>A sorted list is determined by its hits, so the sort is the one \<open>sort.Slice\<close> performs.\<close>

lemma hits_sorted_unique:
  "hits_sorted xs \<Longrightarrow> hits_sorted ys \<Longrightarrow> mset xs = mset ys \<Longrightarrow> xs = (ys :: 'sc::linorder Hit list)"
proof (induction xs arbitrary: ys)
  case (Cons x xs)
  then obtain y ys' where ys: "ys = y # ys'" by (cases ys) auto
  have "x = y"
  proof (rule ccontr)
    assume "x \<noteq> y"
    then have "x \<in> set ys'" "y \<in> set xs"
      using Cons.prems(3) ys by (metis insert_iff list.set(2) mset_eq_setD)+
    then show False using Cons.prems(1,2) ys \<open>x \<noteq> y\<close> not_before_antisym[of x y] by auto
  qed
  then show ?case using Cons ys by simp
qed simp

section \<open>What the merge returns\<close>

lemma mergeTopK_best_of: "best_of (nat k) (mset (concat segs)) (mset (mergeTopK segs k))"
proof (cases "0 < k")
  case True
  have "heap_ok []" by (simp add: heap_ok_def)
  from offer_segments_best[OF True this, of "{#}" segs] show ?thesis
    using True by (simp add: mergeTopK_def best_of_empty)
qed (simp add: mergeTopK_def best_of_def)

lemma mergeTopK_sorted: "hits_sorted (mergeTopK segs k)"
  by (simp add: mergeTopK_def sorted_sort_hits)

text \<open>
  C17: \<open>mergeTopK\<close> returns the k best hits of the union of the per-segment lists (all of
  them when there are fewer than k), sorted by score descending and by id ascending
  among equal scores, for every k including the non-positive ones.
\<close>

theorem mergeTopK_correct:
  "best_of (nat k) (mset (concat perSegment)) (mset (mergeTopK perSegment k)) \<and>
   hits_sorted (mergeTopK perSegment k)"
  by (simp add: mergeTopK_best_of mergeTopK_sorted)

lemma best_of_unique:
  assumes "best_of k U H" "best_of k U K" "\<And>a b. a \<in># U \<Longrightarrow> b \<in># U \<Longrightarrow> hit_Score a = hit_Score b \<Longrightarrow> a = b"
    and "\<And>a. count U a \<le> 1"
  shows "H = K"
proof (rule ccontr)
  assume "H \<noteq> K"
  have sz: "size H = size K" and sub: "H \<subseteq># U" "K \<subseteq># U" using assms(1,2) by (auto simp: best_of_def)
  have "\<not> H \<subseteq># K" "\<not> K \<subseteq># H" using \<open>H \<noteq> K\<close> sz
    by (metis mset_subset_size nat_neq_iff subset_mset.le_neq_trans)+
  then obtain a b where a: "count H a > count K a" and b: "count K b > count H b"
    by (meson not_le subseteq_mset_def)
  have "count U a \<le> 1" "count U b \<le> 1" using assms(4) by auto
  moreover have "count H a \<le> count U a" "count K b \<le> count U b"
    using sub by (auto simp: subseteq_mset_def)
  ultimately have in_mset: "a \<in># H" "a \<in># U - K" "b \<in># K" "b \<in># U - H"
    using a b by (auto simp: in_diff_count simp flip: count_greater_zero_iff)
  then have "hit_Score a \<le> hit_Score b" "hit_Score b \<le> hit_Score a"
    using assms(1,2) by (auto simp: best_of_def)
  moreover have "a \<in># U" "b \<in># U" using in_mset by (auto dest: in_diffD)
  ultimately have "a = b" using assms(3)[of a b] by auto
  then show False using a b by simp
qed

lemma take_sorted_best:
  "hits_sorted xs \<Longrightarrow> best_of n (mset xs) (mset (take n xs))"
proof -
  assume s: "hits_sorted xs"
  have "mset xs = mset (take n xs) + mset (drop n xs)"
    by (metis append_take_drop_id mset_append)
  moreover have "hit_Score x \<le> hit_Score y" if "x \<in> set (drop n xs)" "y \<in> set (take n xs)" for x y
  proof -
    have "sorted_wrt (\<lambda>a b. \<not> hit_before b a) (take n xs @ drop n xs)" using s by simp
    then have "\<not> hit_before x y" using that unfolding sorted_wrt_append by blast
    then show ?thesis by (auto simp: hit_before_def split: if_splits)
  qed
  ultimately show ?thesis by (auto simp: best_of_def)
qed

text \<open>
  when no two hits of the union share a score, the bounded heap computes exactly
  the reference selection, "sort the whole union, then cut at k".
\<close>

lemma mergeTopK_eq_sort_cut:
  assumes "distinct (map hit_Score (concat perSegment))"
  shows "mergeTopK perSegment k = take (nat k) (sort_hits (concat perSegment))"
proof -
  let ?U = "concat perSegment"
  have inj: "\<And>a b. a \<in># mset ?U \<Longrightarrow> b \<in># mset ?U \<Longrightarrow> hit_Score a = hit_Score b \<Longrightarrow> a = b"
    using assms by (auto simp: distinct_map inj_on_def)
  have one: "\<And>a. count (mset ?U) a \<le> 1"
    by (metis assms distinct_count_atmost_1 distinct_map le_numeral_extra(3,4) zero_le_one)
  have "best_of (nat k) (mset ?U) (mset (take (nat k) (sort_hits ?U)))"
    using take_sorted_best[OF sorted_sort_hits] by (metis mset_sort_hits)
  then have "mset (mergeTopK perSegment k) = mset (take (nat k) (sort_hits ?U))"
    using best_of_unique[OF mergeTopK_best_of _ inj one] by blast
  moreover have "hits_sorted (take (nat k) (sort_hits ?U))"
    by (metis append_take_drop_id sorted_sort_hits sorted_wrt_append)
  ultimately show ?thesis using hits_sorted_unique[OF mergeTopK_sorted] by blast
qed

lemma mergeTopK_eq_sort_cut_witness:
  "mergeTopK [[\<lparr>hit_ID = ''a'', hit_Score = (3::int)\<rparr>], [\<lparr>hit_ID = ''b'', hit_Score = 5\<rparr>, \<lparr>hit_ID = ''c'', hit_Score = 4\<rparr>]] 2
   = [\<lparr>hit_ID = ''b'', hit_Score = 5\<rparr>, \<lparr>hit_ID = ''c'', hit_Score = 4\<rparr>]"
  using mergeTopK_eq_sort_cut[of "[[\<lparr>hit_ID = ''a'', hit_Score = (3::int)\<rparr>],
    [\<lparr>hit_ID = ''b'', hit_Score = 5\<rparr>, \<lparr>hit_ID = ''c'', hit_Score = 4\<rparr>]]" 2]
  by (simp add: hit_before_def)

section \<open>Ties at the cut\<close>

text \<open>
  \<open>Offer\<close>'s comment says that a tie is broken by arrival order and that offering in
  ascending id order therefore selects what "sort by score, then by id, then cut"
  selects. It does not: a newcomer that beats the minimum evicts the heap's root, and
  among tied minima the root is the one that arrived first. Offering \<open>a\<close> and \<open>b\<close> with
  equal scores and then a better \<open>c\<close> keeps \<open>b\<close> and \<open>c\<close>.
\<close>

lemma Offer_ascending_ids_not_sort_cut:
  "\<exists>(hits :: int Hit list) k. sorted (map hit_ID hits) \<and>
     sort_hits (offer_all [] hits k) \<noteq> take (nat k) (sort_hits hits)"
proof -
  let ?a = "\<lparr>hit_ID = ''a'', hit_Score = 1 :: int\<rparr>" and ?b = "\<lparr>hit_ID = ''b'', hit_Score = 1 :: int\<rparr>"
    and ?c = "\<lparr>hit_ID = ''c'', hit_Score = 2 :: int\<rparr>"
  have "sort_hits (offer_all [] [?a, ?b, ?c] 2) = [?c, ?b]"
    by (simp add: Offer_def siftUp.simps siftDown.simps heap_less_def heap_swap_def hit_before_def)
  moreover have "take (nat 2) (sort_hits [?a, ?b, ?c]) = [?c, ?a]"
    by (simp add: hit_before_def)
  ultimately have "sorted (map hit_ID [?a, ?b, ?c]) \<and>
      sort_hits (offer_all [] [?a, ?b, ?c] 2) \<noteq> take (nat 2) (sort_hits [?a, ?b, ?c])"
    by simp
  then show ?thesis by blast
qed

end
