(* ===== verification/LiveDocs.thy ===== *)
theory LiveDocs
  imports Prelude
begin

unbundle bit_operations_syntax

text \<open>
  \<open>internal/searchengine/livedocs.go\<close>: the bitset of live ordinals that each segment
  carries. The words are 64-bit words; an ordinal is a Go \<open>int\<close>, so the range guards
  are written on \<open>int\<close>. \<open>Kill\<close> and \<open>Revive\<close> retry a compare-and-swap until it lands;
  one call is one atomic step, which is the state after the swap that lands.

  The padding above ordinal \<open>n\<close> in the last word is set and stays set: \<open>LiveCount\<close>
  subtracts it, and \<open>live_ok\<close> says why that is right. The locale \<open>live_set_interface\<close>
  is the contract the engine relies on (a set of live ordinals, closed under kill and
  revive); the bitset is interpreted as one.
\<close>

record liveDocs =
  ld_words :: "64 word list"
  ld_n :: nat

definition newLiveDocs :: "nat \<Rightarrow> liveDocs" where
  "newLiveDocs n = \<lparr>ld_words = replicate ((n + 63) div 64) (NOT 0), ld_n = n\<rparr>"

definition live_mask :: "int \<Rightarrow> 64 word" where
  "live_mask i = push_bit (nat i mod 64) 1"

definition Live :: "liveDocs \<Rightarrow> int \<Rightarrow> bool" where
  "Live l i =
     (if i < 0 \<or> i \<ge> int (ld_n l) then False
      else (ld_words l ! (nat i div 64)) AND live_mask i \<noteq> 0)"

definition Kill :: "liveDocs \<Rightarrow> int \<Rightarrow> liveDocs" where
  "Kill l i =
     (if i < 0 \<or> i \<ge> int (ld_n l) then l
      else let w = nat i div 64; mask = live_mask i; old = ld_words l ! w
           in if old AND mask = 0 then l
              else l\<lparr>ld_words := (ld_words l)[w := old AND NOT mask]\<rparr>)"

definition Revive :: "liveDocs \<Rightarrow> int \<Rightarrow> liveDocs" where
  "Revive l i =
     (if i < 0 \<or> i \<ge> int (ld_n l) then l
      else let w = nat i div 64; mask = live_mask i; old = ld_words l ! w
           in if old AND mask \<noteq> 0 then l
              else l\<lparr>ld_words := (ld_words l)[w := old OR mask]\<rparr>)"

definition OnesCount64 :: "64 word \<Rightarrow> nat" where
  "OnesCount64 w = length (filter (bit w) [0..<64])"

definition LiveCount :: "liveDocs \<Rightarrow> int" where
  "LiveCount l =
     (let live = int (sum_list (map OnesCount64 (ld_words l)));
          pad = int (length (ld_words l)) * 64 - int (ld_n l)
      in if pad > 0 then live - pad else live)"

definition DeadCount :: "liveDocs \<Rightarrow> int" where
  "DeadCount l = int (ld_n l) - LiveCount l"

text \<open>\<open>idSet\<close> is the member map of a segment, external id to ordinal.\<close>

type_synonym idSet = "(ExternalID, int) gomap"

fun kill_members :: "liveDocs \<Rightarrow> ExternalID list \<Rightarrow> idSet \<Rightarrow> liveDocs" where
  "kill_members ld [] members = ld"
| "kill_members ld (eid # ids) members =
     (case map_of members eid of
        Some ord \<Rightarrow> kill_members (Kill ld ord) ids members
      | None \<Rightarrow> kill_members ld ids members)"

definition newLiveDocsFromTombstones :: "nat \<Rightarrow> ExternalID list \<Rightarrow> idSet \<Rightarrow> liveDocs" where
  "newLiveDocsFromTombstones n tombstones members = kill_members (newLiveDocs n) tombstones members"

definition distinctDeadCount :: "idSet \<Rightarrow> liveDocs \<Rightarrow> nat" where
  "distinctDeadCount members live = length (filter (\<lambda>(eid, ord). \<not> Live live ord) members)"

section \<open>The bitset as a set of ordinals\<close>

definition live_ords :: "liveDocs \<Rightarrow> int set" where
  "live_ords l = {i. Live l i}"

text \<open>The layout invariant: enough words, and every padding bit set.\<close>

definition live_ok :: "liveDocs \<Rightarrow> bool" where
  "live_ok l \<longleftrightarrow> length (ld_words l) = (ld_n l + 63) div 64 \<and>
     (\<forall>j < 64 * length (ld_words l). ld_n l \<le> j \<longrightarrow> bit (ld_words l ! (j div 64)) (j mod 64))"

lemma bit_live_mask: "bit (live_mask i) b \<longleftrightarrow> b = nat i mod 64"
  by (auto simp: live_mask_def bit_exp_iff possible_bit_def)

lemma and_live_mask: "w AND live_mask i \<noteq> 0 \<longleftrightarrow> bit w (nat i mod 64)"
proof
  assume "w AND live_mask i \<noteq> 0"
  then obtain b where "bit (w AND live_mask i) b" by (metis bit_eq_iff bit_0_eq bot_apply bot_bool_def)
  then show "bit w (nat i mod 64)" by (auto simp: bit_and_iff bit_live_mask)
next
  assume "bit w (nat i mod 64)"
  then have "bit (w AND live_mask i) (nat i mod 64)" by (simp add: bit_and_iff bit_live_mask)
  then show "w AND live_mask i \<noteq> 0" by (metis bit_0_eq bot_apply bot_bool_def)
qed

lemma Live_iff:
  "Live l i \<longleftrightarrow> 0 \<le> i \<and> i < int (ld_n l) \<and> bit (ld_words l ! (nat i div 64)) (nat i mod 64)"
  by (auto simp: Live_def and_live_mask)

lemma live_index:
  assumes "live_ok l" "0 \<le> i" "i < int (ld_n l)"
  shows "nat i div 64 < length (ld_words l)"
  using assms by (simp add: live_ok_def)

lemma Kill_n [simp]: "ld_n (Kill l i) = ld_n l"
  by (simp add: Kill_def Let_def)

lemma Revive_n [simp]: "ld_n (Revive l i) = ld_n l"
  by (simp add: Revive_def Let_def)

lemma newLiveDocs_n [simp]: "ld_n (newLiveDocs n) = n"
  by (simp add: newLiveDocs_def)

lemma length_Kill [simp]: "length (ld_words (Kill l i)) = length (ld_words l)"
  by (simp add: Kill_def Let_def)

lemma length_Revive [simp]: "length (ld_words (Revive l i)) = length (ld_words l)"
  by (simp add: Revive_def Let_def)

lemma bit_not_mask: "bit (w AND NOT (live_mask i)) b \<longleftrightarrow> bit w b \<and> b \<noteq> nat i mod 64"
  for w :: "64 word"
  using bit_imp_le_length[of w b] by (auto simp: bit_and_iff bit_not_iff bit_live_mask possible_bit_def)

lemma bit_or_mask: "bit (w OR live_mask i) b \<longleftrightarrow> bit w b \<or> b = nat i mod 64"
  by (auto simp: bit_or_iff bit_live_mask)

lemma ordinal_split: "(a::nat) div 64 = b div 64 \<Longrightarrow> a mod 64 = b mod 64 \<Longrightarrow> a = b"
  by (metis div_mult_mod_eq)

text \<open>The bit an ordinal addresses after a kill or a revive, in or out of the padding.\<close>

lemma Kill_bit:
  assumes "live_ok l" "j < 64 * length (ld_words l)"
  shows "bit (ld_words (Kill l i) ! (j div 64)) (j mod 64) \<longleftrightarrow>
    bit (ld_words l ! (j div 64)) (j mod 64) \<and> \<not> (int j = i \<and> i < int (ld_n l))"
proof (cases "i < 0 \<or> i \<ge> int (ld_n l)")
  case False
  let ?w = "nat i div 64"
  have w: "?w < length (ld_words l)" using live_index assms(1) False by simp
  have kb: "ld_words (Kill l i) ! (j div 64) =
      (if j div 64 = ?w \<and> ld_words l ! ?w AND live_mask i \<noteq> 0
       then ld_words l ! ?w AND NOT (live_mask i) else ld_words l ! (j div 64))"
    using False w by (auto simp: Kill_def Let_def nth_list_update)
  show ?thesis
  proof (cases "j div 64 = ?w")
    case same: True
    have ij: "int j = i \<longleftrightarrow> j mod 64 = nat i mod 64"
      using False ordinal_split[OF same] by auto
    show ?thesis unfolding kb ij unfolding same using and_live_mask False
      by (auto simp: bit_not_mask)
  next
    case other: False
    then have "int j \<noteq> i" by auto
    then show ?thesis unfolding kb using other by simp
  qed
qed (auto simp: Kill_def)

lemma Revive_bit:
  assumes "live_ok l" "j < 64 * length (ld_words l)"
  shows "bit (ld_words (Revive l i) ! (j div 64)) (j mod 64) \<longleftrightarrow>
    bit (ld_words l ! (j div 64)) (j mod 64) \<or> (int j = i \<and> i < int (ld_n l))"
proof (cases "i < 0 \<or> i \<ge> int (ld_n l)")
  case False
  let ?w = "nat i div 64"
  have w: "?w < length (ld_words l)" using live_index assms(1) False by simp
  have kb: "ld_words (Revive l i) ! (j div 64) =
      (if j div 64 = ?w \<and> ld_words l ! ?w AND live_mask i = 0
       then ld_words l ! ?w OR live_mask i else ld_words l ! (j div 64))"
    using False w by (auto simp: Revive_def Let_def nth_list_update)
  show ?thesis
  proof (cases "j div 64 = ?w")
    case same: True
    have ij: "int j = i \<longleftrightarrow> j mod 64 = nat i mod 64"
      using False ordinal_split[OF same] by auto
    show ?thesis unfolding kb ij unfolding same using and_live_mask False
      by (auto simp: bit_or_mask)
  next
    case other: False
    then have "int j \<noteq> i" by auto
    then show ?thesis unfolding kb using other by simp
  qed
qed (auto simp: Revive_def)

lemma live_ok_new [simp]: "live_ok (newLiveDocs n)"
  by (auto simp: live_ok_def newLiveDocs_def bit_not_iff less_mult_imp_div_less mult.commute)

lemma live_ok_Kill [simp]: "live_ok l \<Longrightarrow> live_ok (Kill l i)"
  by (auto simp: live_ok_def[of "Kill l i"] Kill_bit) (auto simp: live_ok_def)

lemma live_ok_Revive [simp]: "live_ok l \<Longrightarrow> live_ok (Revive l i)"
  by (auto simp: live_ok_def[of "Revive l i"] Revive_bit) (auto simp: live_ok_def)

lemma in_words:
  assumes "live_ok l" "0 \<le> i" "i < int (ld_n l)"
  shows "nat i < 64 * length (ld_words l)"
  using assms by (simp add: live_ok_def)

lemma Live_Kill [live_simps]: "live_ok l \<Longrightarrow> Live (Kill l i) j \<longleftrightarrow> Live l j \<and> j \<noteq> i"
  by (auto simp: Live_iff Kill_bit in_words)

lemma Live_Revive [live_simps]:
  "live_ok l \<Longrightarrow> Live (Revive l i) j \<longleftrightarrow> Live l j \<or> (j = i \<and> 0 \<le> i \<and> i < int (ld_n l))"
  by (auto simp: Live_iff Revive_bit in_words)

lemma Live_new [live_simps]: "Live (newLiveDocs n) i \<longleftrightarrow> 0 \<le> i \<and> i < int n"
proof (cases "0 \<le> i \<and> i < int n")
  case True
  then have "nat i div 64 < (n + 63) div 64" by linarith
  then show ?thesis using True by (simp add: Live_iff newLiveDocs_def bit_not_iff)
qed (auto simp: Live_iff)

lemma Live_range: "Live l i \<Longrightarrow> 0 \<le> i \<and> i < int (ld_n l)"
  by (simp add: Live_iff)

section \<open>The contract the engine relies on\<close>

locale live_set_interface =
  fixes ok :: "'l \<Rightarrow> bool"
    and live :: "'l \<Rightarrow> int \<Rightarrow> bool"
    and kill :: "'l \<Rightarrow> int \<Rightarrow> 'l"
    and revive :: "'l \<Rightarrow> int \<Rightarrow> 'l"
    and size_of :: "'l \<Rightarrow> nat"
  assumes live_range: "live l i \<Longrightarrow> 0 \<le> i \<and> i < int (size_of l)"
    and ok_kill: "ok l \<Longrightarrow> ok (kill l i)"
    and ok_revive: "ok l \<Longrightarrow> ok (revive l i)"
    and size_kill: "size_of (kill l i) = size_of l"
    and size_revive: "size_of (revive l i) = size_of l"
    and live_kill: "ok l \<Longrightarrow> live (kill l i) j \<longleftrightarrow> live l j \<and> j \<noteq> i"
    and live_revive: "ok l \<Longrightarrow>
      live (revive l i) j \<longleftrightarrow> live l j \<or> (j = i \<and> 0 \<le> i \<and> i < int (size_of l))"
begin

definition alive :: "'l \<Rightarrow> int set" where
  "alive l = {i. live l i}"

lemma alive_range: "alive l \<subseteq> {0..<int (size_of l)}"
  using live_range by (auto simp: alive_def)

lemma finite_alive [simp]: "finite (alive l)"
  using alive_range finite_subset by blast

lemma alive_kill: "ok l \<Longrightarrow> alive (kill l i) = alive l - {i}"
  by (auto simp: alive_def live_kill)

lemma alive_revive: "ok l \<Longrightarrow> 0 \<le> i \<Longrightarrow> i < int (size_of l) \<Longrightarrow> alive (revive l i) = insert i (alive l)"
  by (auto simp: alive_def live_revive)

lemma card_alive_kill: "ok l \<Longrightarrow> live l i \<Longrightarrow> card (alive l) = Suc (card (alive (kill l i)))"
  by (simp add: alive_kill) (metis (mono_tags) alive_def card.remove finite_alive mem_Collect_eq)

lemma kills_alive: "ok l \<Longrightarrow> ok (foldl kill l ords) \<and> alive (foldl kill l ords) = alive l - set ords"
  by (induction ords arbitrary: l) (auto simp: alive_kill ok_kill)

lemma kill_revive_restores:
  "ok l \<Longrightarrow> live l i \<Longrightarrow> alive (revive (kill l i) i) = alive l"
  using live_range by (auto simp: alive_def live_kill live_revive ok_kill size_kill)

end

interpretation bitset: live_set_interface live_ok Live Kill Revive ld_n
  by unfold_locales (auto simp: Live_Kill Live_Revive Live_range)

lemma bitset_alive: "bitset.alive l = live_ords l"
  by (simp add: bitset.alive_def live_ords_def)

lemma finite_live_ords [simp]: "finite (live_ords l)"
  by (metis bitset.finite_alive bitset_alive)

section \<open>Counting\<close>

definition set_bits_of :: "64 word list \<Rightarrow> nat set" where
  "set_bits_of ws = {j. j < 64 * length ws \<and> bit (ws ! (j div 64)) (j mod 64)}"

lemma set_bits_of_snoc:
  "set_bits_of (ws @ [w]) =
   set_bits_of ws \<union> (\<lambda>b. 64 * length ws + b) ` {b. b < 64 \<and> bit w b}"
proof (intro set_eqI iffI)
  fix j assume j: "j \<in> set_bits_of (ws @ [w])"
  show "j \<in> set_bits_of ws \<union> (\<lambda>b. 64 * length ws + b) ` {b. b < 64 \<and> bit w b}"
  proof (cases "j < 64 * length ws")
    case True
    then have "j div 64 < length ws" by (simp add: less_mult_imp_div_less mult.commute)
    then show ?thesis using j True by (simp add: set_bits_of_def nth_append)
  next
    case False
    define b where "b = j - 64 * length ws"
    have b: "j = 64 * length ws + b" "b < 64" using False j by (auto simp: b_def set_bits_of_def)
    then show ?thesis using j by (auto simp: set_bits_of_def nth_append)
  qed
qed (auto simp: set_bits_of_def nth_append less_mult_imp_div_less mult.commute)

lemma finite_set_bits_of [simp]: "finite (set_bits_of ws)"
  by (rule finite_subset[of _ "{..<64 * length ws}"]) (auto simp: set_bits_of_def)

lemma sum_OnesCount64: "sum_list (map OnesCount64 ws) = card (set_bits_of ws)"
proof (induction ws rule: rev_induct)
  case (snoc w ws)
  let ?hi = "(\<lambda>b. 64 * length ws + b) ` {b. b < 64 \<and> bit w b}"
  have "set_bits_of ws \<inter> ?hi = {}" by (auto simp: set_bits_of_def)
  then have "card (set_bits_of (ws @ [w])) = card (set_bits_of ws) + card ?hi"
    by (simp add: set_bits_of_snoc card_Un_disjoint)
  also have "card ?hi = card {b. b < 64 \<and> bit w b}" by (simp add: card_image inj_on_def)
  also have "\<dots> = OnesCount64 w"
    by (simp add: OnesCount64_def length_filter_card)
  finally show ?case using snoc by simp
qed (simp add: set_bits_of_def)

lemma live_ords_bits:
  assumes "live_ok l"
  shows "set_bits_of (ld_words l) = nat ` live_ords l \<union> {ld_n l..<64 * length (ld_words l)}"
proof (intro set_eqI iffI)
  fix j assume j: "j \<in> set_bits_of (ld_words l)"
  show "j \<in> nat ` live_ords l \<union> {ld_n l..<64 * length (ld_words l)}"
  proof (cases "j < ld_n l")
    case True
    then have "int j \<in> live_ords l" using j by (simp add: live_ords_def Live_iff set_bits_of_def)
    then show ?thesis by force
  qed (use j in \<open>auto simp: set_bits_of_def\<close>)
next
  fix j assume "j \<in> nat ` live_ords l \<union> {ld_n l..<64 * length (ld_words l)}"
  then show "j \<in> set_bits_of (ld_words l)"
  proof
    assume "j \<in> nat ` live_ords l"
    then show ?thesis
      using in_words[OF assms] by (auto simp: set_bits_of_def live_ords_def Live_iff)
  qed (use assms in \<open>auto simp: set_bits_of_def live_ok_def\<close>)
qed

lemma LiveCount_card:
  assumes "live_ok l" shows "LiveCount l = int (card (live_ords l))"
proof -
  let ?m = "length (ld_words l)"
  have le: "ld_n l \<le> 64 * ?m" using assms by (simp add: live_ok_def)
  have "inj_on nat (live_ords l)" by (auto simp: inj_on_def live_ords_def Live_iff)
  moreover have "nat ` live_ords l \<inter> {ld_n l..<64 * ?m} = {}"
    by (auto simp: live_ords_def Live_iff)
  ultimately have "card (set_bits_of (ld_words l)) = card (live_ords l) + (64 * ?m - ld_n l)"
    by (simp add: live_ords_bits[OF assms] card_Un_disjoint card_image)
  then show ?thesis using le by (simp add: LiveCount_def Let_def sum_OnesCount64)
qed

lemma DeadCount_card:
  assumes "live_ok l"
  shows "DeadCount l = int (card {i. 0 \<le> i \<and> i < int (ld_n l) \<and> \<not> Live l i})"
proof -
  let ?dead = "{i. 0 \<le> i \<and> i < int (ld_n l) \<and> \<not> Live l i}"
  have "{0..<int (ld_n l)} = live_ords l \<union> ?dead" "live_ords l \<inter> ?dead = {}"
    using Live_range by (auto simp: live_ords_def)
  moreover have "finite ?dead" by (rule finite_subset[of _ "{0..<int (ld_n l)}"]) auto
  ultimately have "int (ld_n l) = int (card (live_ords l)) + int (card ?dead)"
    by (metis card_Un_disjoint card_atLeastZeroLessThan_int finite_live_ords nat_int of_nat_add)
  then show ?thesis by (simp add: DeadCount_def LiveCount_card[OF assms])
qed

text \<open>
  C32: \<open>LiveCount\<close> and \<open>DeadCount\<close> are exact. Summing the population counts of the words
  and subtracting the padding gives the number of ordinals that \<open>Live\<close> reports live,
  and killing a live ordinal moves exactly one of them from the first to the second.
\<close>

theorem LiveCount_exact:
  assumes "live_ok l"
  shows "LiveCount l = int (card {i. Live l i}) \<and>
    DeadCount l = int (card {i. 0 \<le> i \<and> i < int (ld_n l) \<and> \<not> Live l i}) \<and>
    LiveCount (Kill l i) = LiveCount l - (if Live l i then 1 else 0) \<and>
    DeadCount (Kill l i) = DeadCount l + (if Live l i then 1 else 0)"
proof -
  have "live_ords (Kill l i) = live_ords l - {i}"
    using bitset.alive_kill[OF assms] by (simp add: bitset_alive)
  then have "card (live_ords (Kill l i)) = card (live_ords l) - (if i \<in> live_ords l then 1 else 0)"
    by (simp add: card_Diff_singleton_if)
  moreover have "i \<in> live_ords l \<Longrightarrow> 0 < card (live_ords l)"
    by (auto simp: card_gt_0_iff)
  ultimately have "int (card (live_ords (Kill l i))) = int (card (live_ords l)) - (if Live l i then 1 else 0)"
    by (cases "i \<in> live_ords l") (auto simp: live_ords_def)
  then have c: "LiveCount (Kill l i) = LiveCount l - (if Live l i then 1 else 0)"
    using assms by (simp add: LiveCount_card)
  moreover have "LiveCount l = int (card {i. Live l i})"
    using LiveCount_card[OF assms] by (simp add: live_ords_def)
  moreover have "DeadCount (Kill l i) = DeadCount l + (if Live l i then 1 else 0)"
    using c by (simp add: DeadCount_def)
  ultimately show ?thesis using DeadCount_card[OF assms] by blast
qed

lemma LiveCount_exact_witness:
  "LiveCount (Kill (newLiveDocs 70) 65) = LiveCount (newLiveDocs 70) - 1 \<and>
   LiveCount (newLiveDocs 70) = int (card {i. Live (newLiveDocs 70) i})"
  using LiveCount_exact[OF live_ok_new, of 70 65] by (simp add: Live_new)

section \<open>Seeding from tombstones\<close>

lemma kill_members_live:
  assumes "live_ok l"
  shows "live_ok (kill_members l ids m)" "ld_n (kill_members l ids m) = ld_n l"
    "Live (kill_members l ids m) i \<longleftrightarrow> Live l i \<and> (\<forall>x \<in> set ids. map_of m x \<noteq> Some i)"
  using assms
  by (induction ids arbitrary: l) (auto simp: Live_Kill split: option.splits)

lemma live_ok_tombstones [simp]: "live_ok (newLiveDocsFromTombstones n ts m)"
  by (simp add: newLiveDocsFromTombstones_def kill_members_live)

lemma tombstones_n [simp]: "ld_n (newLiveDocsFromTombstones n ts m) = n"
  by (simp add: newLiveDocsFromTombstones_def kill_members_live)

text \<open>
  a bitset seeded at import is live exactly at the ordinals of its range that no
  tombstoned member owns; sizing by the ordinal count (not by the number of distinct
  members) is what keeps the ordinals past the member count live.
\<close>

lemma tombstones_seed_exact:
  "Live (newLiveDocsFromTombstones n tombstones members) i \<longleftrightarrow>
     0 \<le> i \<and> i < int n \<and> i \<notin> (the \<circ> map_of members) ` (set tombstones \<inter> gm_keys members)"
proof -
  have "(\<forall>x \<in> set tombstones. map_of members x \<noteq> Some i) \<longleftrightarrow>
      i \<notin> (the \<circ> map_of members) ` (set tombstones \<inter> gm_keys members)"
    by (force simp: gm_keys_iff image_iff)
  then show ?thesis
    by (auto simp: newLiveDocsFromTombstones_def kill_members_live Live_new)
qed

text \<open>
  The two dead counts agree while every dead ordinal is a member's and the members have
  distinct ordinals, which is how the engine uses a bitset.
\<close>

definition members_ok :: "idSet \<Rightarrow> nat \<Rightarrow> bool" where
  "members_ok m n \<longleftrightarrow> gomap_ok m \<and> distinct (map snd m) \<and> (\<forall>(x, i) \<in> set m. 0 \<le> i \<and> i < int n)"

lemma distinctDeadCount_le:
  assumes "live_ok l" "members_ok m (ld_n l)"
  shows "int (distinctDeadCount m l) \<le> DeadCount l"
proof -
  let ?d = "filter (\<lambda>(x, ord). \<not> Live l ord) m"
  have "distinct (map snd m)" using assms(2) by (simp add: members_ok_def)
  then have "distinct (map snd ?d)" by (rule distinct_map_filter)
  then have "length ?d = card (snd ` set ?d)" by (metis distinct_card length_map list.set_map)
  also have "\<dots> \<le> card {i. 0 \<le> i \<and> i < int (ld_n l) \<and> \<not> Live l i}"
  proof (rule card_mono)
    show "finite {i. 0 \<le> i \<and> i < int (ld_n l) \<and> \<not> Live l i}"
      by (rule finite_subset[of _ "{0..<int (ld_n l)}"]) auto
    show "snd ` set ?d \<subseteq> {i. 0 \<le> i \<and> i < int (ld_n l) \<and> \<not> Live l i}"
      using assms(2) by (auto simp: members_ok_def)
  qed
  finally show ?thesis by (simp add: distinctDeadCount_def DeadCount_card[OF assms(1)])
qed

end
