(* ===== verification/Supersession.thy ===== *)
theory Supersession
  imports Prelude
begin

text \<open>
  \<open>internal/searchengine/supersession.go\<close>: the envelope that precedes a segment's
  payload in a stored blob and records what the segment replaced. A blob is a byte
  list; a Go string is its bytes, as \<open>string\<close> is here. Reads that Go would panic on
  (an index past the slice) are the value \<open>SupPanic\<close>, so that "never reads out of
  range" is a statement about the decoder.

  Shown: encode then decode gives the record back (up to the order and the duplicates
  the encoder removes) and leaves the payload untouched, bytes without an envelope pass
  through, the payload stays 8-byte aligned, the bytes depend on the two id sets only,
  and on arbitrary bytes the decoder neither panics nor moves the payload.
\<close>

record supersessionRecord =
  Superseded :: "SegmentID list"
  Cohort :: "SegmentID list"

definition record_empty :: "supersessionRecord \<Rightarrow> bool" where
  "record_empty r \<longleftrightarrow> length (Superseded r) = 0"

datatype sup_error =
    EnvelopeShort nat nat
  | PayloadOffset nat nat
  | IdsPastEnd nat
  | IdOverrun nat nat
  | SupPanic

section \<open>Bytes\<close>

text \<open>\<open>binary.LittleEndian\<close>: the k low bytes of a value, and the value of k bytes.\<close>

fun put_le :: "nat \<Rightarrow> nat \<Rightarrow> byte list" where
  "put_le 0 v = []"
| "put_le (Suc k) v = word_of_nat v # put_le k (v div 256)"

fun get_le :: "byte list \<Rightarrow> nat" where
  "get_le [] = 0"
| "get_le (b # bs) = unat b + 256 * get_le bs"

section \<open>The envelope\<close>

definition supMagicLen :: nat where "supMagicLen = 8"
definition supHeaderLen :: nat where "supHeaderLen = supMagicLen + 12"
definition supPayloadAlign :: nat where "supPayloadAlign = 8"

definition supMagic :: "byte list" where
  "supMagic = 0 # bytes_of ''SEGSUP'' @ [1]"

definition sortedUnique :: "SegmentID list \<Rightarrow> SegmentID list" where
  "sortedUnique ids = remdups_adj (sort ids)"

definition sup_body :: "SegmentID list \<Rightarrow> SegmentID list \<Rightarrow> nat" where
  "sup_body superseded cohort =
     supHeaderLen + sum_list (map (\<lambda>x. 2 + length x) superseded)
                  + sum_list (map (\<lambda>x. 2 + length x) cohort)"

definition sup_align :: "nat \<Rightarrow> nat" where
  "sup_align body = (body + supPayloadAlign - 1) div supPayloadAlign * supPayloadAlign"

definition encode_id :: "SegmentID \<Rightarrow> byte list" where
  "encode_id x = put_le 2 (length x) @ bytes_of x"

definition encodeSupersessionPrefix :: "supersessionRecord \<Rightarrow> byte list" where
  "encodeSupersessionPrefix rec =
     (if record_empty rec then []
      else let superseded = sortedUnique (Superseded rec);
               cohort = sortedUnique (Cohort rec);
               body = sup_body superseded cohort;
               payloadOff = sup_align body
           in supMagic @ put_le 4 payloadOff @ put_le 4 (length superseded) @ put_le 4 (length cohort)
              @ concat (map encode_id superseded) @ concat (map encode_id cohort)
              @ replicate (payloadOff - body) 0)"

definition u_at :: "nat \<Rightarrow> byte list \<Rightarrow> nat \<Rightarrow> sup_error + nat" where
  "u_at k blob at = (if at + k \<le> length blob then Inr (get_le (take k (drop at blob))) else Inl SupPanic)"

definition supersessionPayloadOff :: "byte list \<Rightarrow> sup_error + nat" where
  "supersessionPayloadOff blob =
     (if length blob < supMagicLen \<or> take supMagicLen blob \<noteq> supMagic then Inr 0
      else if length blob < supHeaderLen then Inl (EnvelopeShort (length blob) supHeaderLen)
      else case u_at 4 blob supMagicLen of
             Inl e \<Rightarrow> Inl e
           | Inr off \<Rightarrow>
               if off < supHeaderLen \<or> off > length blob then Inl (PayloadOffset off (length blob))
               else Inr off)"

definition splitStoredBlob :: "byte list \<Rightarrow> sup_error + (byte list \<times> byte list)" where
  "splitStoredBlob blob =
     (case supersessionPayloadOff blob of
        Inl e \<Rightarrow> Inl e
      | Inr off \<Rightarrow> if off = 0 then Inr ([], blob) else Inr (take off blob, drop off blob))"

fun readIDs :: "byte list \<Rightarrow> nat \<Rightarrow> nat \<Rightarrow> nat \<Rightarrow> sup_error + (SegmentID list \<times> nat)" where
  "readIDs blob cur end 0 = Inr ([], cur)"
| "readIDs blob cur end (Suc cnt) =
     (if cur + 2 > end then Inl (IdsPastEnd end)
      else case u_at 2 blob cur of
             Inl e \<Rightarrow> Inl e
           | Inr n \<Rightarrow>
               if cur + 2 + n > end then Inl (IdOverrun n (cur + 2))
               else if cur + 2 + n > length blob then Inl SupPanic
               else case readIDs blob (cur + 2 + n) end cnt of
                      Inl e \<Rightarrow> Inl e
                    | Inr (ids, cur') \<Rightarrow> Inr (string_of (take n (drop (cur + 2) blob)) # ids, cur'))"

definition decodeSupersession :: "byte list \<Rightarrow> sup_error + (supersessionRecord \<times> byte list)" where
  "decodeSupersession blob =
     (case supersessionPayloadOff blob of
        Inl e \<Rightarrow> Inl e
      | Inr payloadOff \<Rightarrow>
          if payloadOff = 0 then Inr (\<lparr>Superseded = [], Cohort = []\<rparr>, blob)
          else case u_at 4 blob (supMagicLen + 4) of
                 Inl e \<Rightarrow> Inl e
               | Inr supersededCount \<Rightarrow>
          (case u_at 4 blob (supMagicLen + 8) of
             Inl e \<Rightarrow> Inl e
           | Inr cohortCount \<Rightarrow>
          (case readIDs blob supHeaderLen payloadOff supersededCount of
             Inl e \<Rightarrow> Inl e
           | Inr (superseded, cur) \<Rightarrow>
          (case readIDs blob cur payloadOff cohortCount of
             Inl e \<Rightarrow> Inl e
           | Inr (cohort, _) \<Rightarrow>
               Inr (\<lparr>Superseded = superseded, Cohort = cohort\<rparr>, drop payloadOff blob)))))"

definition decodeSupersessionEnvelope :: "byte list \<Rightarrow> sup_error + supersessionRecord" where
  "decodeSupersessionEnvelope envelope =
     (case decodeSupersession envelope of Inl e \<Rightarrow> Inl e | Inr (rec, _) \<Rightarrow> Inr rec)"

definition SupersededBy :: "byte list \<Rightarrow> sup_error + (SegmentID list \<times> SegmentID list)" where
  "SupersededBy blob =
     (case decodeSupersession blob of Inl e \<Rightarrow> Inl e | Inr (rec, _) \<Rightarrow> Inr (Superseded rec, Cohort rec))"

definition SegmentPayload :: "byte list \<Rightarrow> sup_error + byte list" where
  "SegmentPayload blob =
     (case splitStoredBlob blob of Inl e \<Rightarrow> Inl e | Inr (_, payload) \<Rightarrow> Inr payload)"

definition sortedSegmentIDs :: "SegmentID list \<Rightarrow> SegmentID list" where
  "sortedSegmentIDs S = sort (remdups S)"

section \<open>Byte lemmas\<close>

lemma length_put_le [simp]: "length (put_le k v) = k"
  by (induction k arbitrary: v) auto

lemma get_le_put_le: "get_le (put_le k v) = v mod 256 ^ k"
proof (induction k arbitrary: v)
  case (Suc k)
  have "unat (word_of_nat v :: byte) = v mod 256" by (simp add: unat_of_nat take_bit_nat_def)
  then show ?case by (simp add: Suc mod_mult2_eq mult.commute)
qed simp

lemma get_le_put_le_id: "v < 256 ^ k \<Longrightarrow> get_le (put_le k v) = v"
  by (simp add: get_le_put_le)

lemma length_supMagic [simp]: "length supMagic = supMagicLen"
  by (simp add: supMagic_def supMagicLen_def)

lemma length_encode_id [simp]: "length (encode_id x) = 2 + length x"
  by (simp add: encode_id_def)

lemma u_at_append:
  "length a = at \<Longrightarrow> length b = k \<Longrightarrow> u_at k (a @ b @ c) at = Inr (get_le b)"
  by (simp add: u_at_def)

lemma length_concat_ids:
  "length (concat (map encode_id xs)) = sum_list (map (\<lambda>x. 2 + length x) xs)"
  by (induction xs) auto

section \<open>Decoding what was encoded\<close>

lemma readIDs_encoded:
  assumes "\<forall>x \<in> set xs. length x < 65536" "length pre = cur"
    and "cur + sum_list (map (\<lambda>x. 2 + length x) xs) \<le> end"
    and "end \<le> length (pre @ concat (map encode_id xs) @ post)"
  shows "readIDs (pre @ concat (map encode_id xs) @ post) cur end (length xs)
    = Inr (xs, cur + sum_list (map (\<lambda>x. 2 + length x) xs))"
  using assms
proof (induction xs arbitrary: pre cur)
  case (Cons x xs)
  let ?blob = "pre @ concat (map encode_id (x # xs)) @ post"
  have blob: "?blob = pre @ put_le 2 (length x) @ bytes_of x @ concat (map encode_id xs) @ post"
    by (simp add: encode_id_def)
  have blob': "?blob = (pre @ encode_id x) @ concat (map encode_id xs) @ post" by simp
  have n: "u_at 2 ?blob cur = Inr (length x)"
    unfolding blob using Cons.prems by (subst u_at_append) (auto simp: get_le_put_le)
  have idx: "take (length x) (drop (cur + 2) ?blob) = bytes_of x"
    unfolding blob using Cons.prems(2) by (simp add: drop_Cons')
  have "readIDs ?blob (cur + 2 + length x) end (length xs)
      = Inr (xs, cur + 2 + length x + sum_list (map (\<lambda>x. 2 + length x) xs))"
    unfolding blob' using Cons.prems by (intro Cons.IH) (auto simp: add.assoc)
  then show ?case using Cons.prems n idx by (simp add: add.assoc)
qed simp

text \<open>What fits the envelope's fixed-width fields.\<close>

definition record_fits :: "supersessionRecord \<Rightarrow> bool" where
  "record_fits rec \<longleftrightarrow>
     (\<forall>x \<in> set (Superseded rec) \<union> set (Cohort rec). length x < 65536) \<and>
     sup_align (sup_body (sortedUnique (Superseded rec)) (sortedUnique (Cohort rec))) < 2 ^ 32"

lemma set_sortedUnique [simp]: "set (sortedUnique xs) = set xs"
  by (simp add: sortedUnique_def)

lemma sup_align_ge: "body \<le> sup_align body"
  unfolding sup_align_def supPayloadAlign_def by linarith

lemma sup_align_mod: "sup_align body mod 8 = 0"
  by (simp add: sup_align_def supPayloadAlign_def)

lemma length_le_body:
  "length a + length b \<le> sup_body a b"
proof -
  have "length xs \<le> sum_list (map (\<lambda>x. 2 + length x) xs)" for xs :: "SegmentID list"
    by (induction xs) auto
  from this[of a] this[of b] show ?thesis by (simp add: sup_body_def)
qed

lemma length_encode:
  "\<not> record_empty rec \<Longrightarrow> length (encodeSupersessionPrefix rec) =
     sup_align (sup_body (sortedUnique (Superseded rec)) (sortedUnique (Cohort rec)))"
  using sup_align_ge[of "sup_body (sortedUnique (Superseded rec)) (sortedUnique (Cohort rec))"]
  by (simp add: encodeSupersessionPrefix_def Let_def length_concat_ids sup_body_def supHeaderLen_def)

lemma decode_encode:
  assumes "\<not> record_empty rec" "record_fits rec"
  shows "decodeSupersession (encodeSupersessionPrefix rec @ payload) =
    Inr (\<lparr>Superseded = sortedUnique (Superseded rec), Cohort = sortedUnique (Cohort rec)\<rparr>, payload)"
proof -
  let ?S = "sortedUnique (Superseded rec)" and ?C = "sortedUnique (Cohort rec)"
  define body where "body = sup_body ?S ?C"
  define off where "off = sup_align body"
  define env where "env = encodeSupersessionPrefix rec"
  define hdr where "hdr = supMagic @ put_le 4 off @ put_le 4 (length ?S) @ put_le 4 (length ?C)"
  define ss where "ss = concat (map encode_id ?S)"
  define cs where "cs = concat (map encode_id ?C)"
  define pad :: "byte list" where "pad = replicate (off - body) 0"
  have env: "env = hdr @ ss @ cs @ pad" using assms(1)
    by (simp add: env_def encodeSupersessionPrefix_def Let_def hdr_def ss_def cs_def pad_def off_def body_def)
  have off: "off < 256 ^ 4" using assms(2) by (simp add: record_fits_def off_def body_def)
  have bo: "body \<le> off" by (simp add: off_def sup_align_ge)
  have cnt: "length ?S < 256 ^ 4" "length ?C < 256 ^ 4"
    using length_le_body[of ?S ?C] bo off by (auto simp: body_def)
  have lens: "length hdr = 20" "length env = off" "20 \<le> off"
    using assms(1) bo length_encode[of rec]
    by (auto simp: hdr_def supMagicLen_def env_def off_def body_def sup_body_def supHeaderLen_def)
  have fits: "\<forall>x \<in> set ?S. length x < 65536" "\<forall>x \<in> set ?C. length x < 65536"
    using assms(2) by (auto simp: record_fits_def)
  have po: "u_at 4 (env @ payload) 8 = Inr off"
    using u_at_append[of supMagic 8 "put_le 4 off" 4] off
    by (simp add: env hdr_def supMagicLen_def get_le_put_le)
  have sc: "u_at 4 (env @ payload) 12 = Inr (length ?S)"
    using u_at_append[of "supMagic @ put_le 4 off" 12 "put_le 4 (length ?S)" 4] cnt
    by (simp add: env hdr_def supMagicLen_def get_le_put_le)
  have cc: "u_at 4 (env @ payload) 16 = Inr (length ?C)"
    using u_at_append[of "supMagic @ put_le 4 off @ put_le 4 (length ?S)" 16 "put_le 4 (length ?C)" 4] cnt
    by (simp add: env hdr_def supMagicLen_def get_le_put_le)
  have sum: "20 + sum_list (map (\<lambda>x. 2 + length x) ?S) + sum_list (map (\<lambda>x. 2 + length x) ?C) = body"
    by (simp add: body_def sup_body_def supHeaderLen_def supMagicLen_def)
  have rs: "readIDs (env @ payload) 20 off (length ?S) = Inr (?S, 20 + sum_list (map (\<lambda>x. 2 + length x) ?S))"
    using readIDs_encoded[OF fits(1), of hdr 20 off "cs @ pad @ payload"] lens sum bo
    by (simp add: env ss_def)
  have rc: "readIDs (env @ payload) (20 + sum_list (map (\<lambda>x. 2 + length x) ?S)) off (length ?C) = Inr (?C, body)"
    using readIDs_encoded[OF fits(2), of "hdr @ ss" _ off "pad @ payload"] lens sum bo
    by (simp add: env cs_def ss_def length_concat_ids)
  have "take 8 (env @ payload) = supMagic" by (simp add: env hdr_def supMagicLen_def)
  then have "supersessionPayloadOff (env @ payload) = Inr off"
    using po lens by (simp add: supersessionPayloadOff_def supMagicLen_def supHeaderLen_def)
  then show ?thesis
    using sc cc rs rc lens
    by (simp add: decodeSupersession_def supMagicLen_def supHeaderLen_def env_def)
qed

section \<open>Arbitrary bytes\<close>

lemma u_at_no_panic: "at + k \<le> length blob \<Longrightarrow> u_at k blob at \<noteq> Inl SupPanic"
  by (simp add: u_at_def)

lemma u_at_take: "at + k \<le> n \<Longrightarrow> n \<le> length blob \<Longrightarrow> u_at k (take n blob) at = u_at k blob at"
  by (simp add: u_at_def drop_take min_absorb1)

lemma readIDs_no_panic: "end \<le> length blob \<Longrightarrow> readIDs blob cur end n \<noteq> Inl SupPanic"
proof (induction n arbitrary: cur)
  case (Suc n)
  have ih: "readIDs blob c end n \<noteq> Inl SupPanic" for c using Suc by blast
  show ?case
  proof (cases "cur + 2 > end")
    case False
    define m where "m = get_le (take 2 (drop cur blob))"
    have u: "u_at 2 blob cur = Inr m" using False Suc.prems by (simp add: u_at_def m_def)
    show ?thesis
    proof (cases "cur + 2 + m > end")
      case nf: False
      then have "\<not> cur + 2 + m > length blob" using Suc.prems by linarith
      then show ?thesis using False nf u ih[of "cur + 2 + m"]
        by (cases "readIDs blob (cur + 2 + m) end n") (auto simp: split_beta)
    qed (use False u in simp)
  qed simp
qed simp

lemma readIDs_take: "end \<le> length blob \<Longrightarrow> readIDs (take end blob) cur end n = readIDs blob cur end n"
proof (induction n arbitrary: cur)
  case (Suc n)
  have "take m (drop (cur + 2) (take end blob)) = take m (drop (cur + 2) blob)" if "cur + 2 + m \<le> end" for m
    using that by (simp add: drop_take min_def)
  then show ?case using Suc by (auto simp: u_at_take split: sum.splits)
qed simp

lemma payloadOff_cases:
  "supersessionPayloadOff blob = Inr off \<Longrightarrow> off = 0 \<or> (20 \<le> off \<and> off \<le> length blob)"
  by (auto simp: supersessionPayloadOff_def supHeaderLen_def supMagicLen_def split: if_splits sum.splits)

lemma payloadOff_no_panic: "supersessionPayloadOff blob \<noteq> Inl SupPanic"
  by (auto simp: supersessionPayloadOff_def supHeaderLen_def supMagicLen_def u_at_def)

lemma payloadOff_take:
  assumes "supersessionPayloadOff blob = Inr off" "off \<noteq> 0"
  shows "supersessionPayloadOff (take off blob) = Inr off"
proof -
  have off: "20 \<le> off" "off \<le> length blob" using payloadOff_cases[OF assms(1)] assms(2) by auto
  then have "u_at 4 (take off blob) 8 = u_at 4 blob 8" by (simp add: u_at_take)
  then show ?thesis using assms off
    by (auto simp: supersessionPayloadOff_def supMagicLen_def supHeaderLen_def min_def split: if_splits sum.splits)
qed

lemma decode_no_panic: "decodeSupersession blob \<noteq> Inl SupPanic"
proof (cases "supersessionPayloadOff blob")
  case (Inl e) then show ?thesis using payloadOff_no_panic[of blob] by (simp add: decodeSupersession_def)
next
  case (Inr off)
  show ?thesis
  proof (cases "off = 0")
    case False
    then have off: "20 \<le> off" "off \<le> length blob" using payloadOff_cases[OF Inr] by auto
    then show ?thesis
      using False Inr u_at_no_panic[of 12 4 blob] u_at_no_panic[of 16 4 blob] readIDs_no_panic[OF off(2)]
      by (auto simp: decodeSupersession_def supMagicLen_def split: sum.splits prod.splits)
  qed (simp add: decodeSupersession_def Inr)
qed

lemma decode_split:
  assumes "decodeSupersession blob = Inr (rec, payload)"
  shows "\<exists>env. splitStoredBlob blob = Inr (env, payload) \<and> blob = env @ payload \<and>
    decodeSupersessionEnvelope env = Inr rec"
proof -
  obtain off where off: "supersessionPayloadOff blob = Inr off"
    using assms by (auto simp: decodeSupersession_def split: sum.splits)
  show ?thesis
  proof (cases "off = 0")
    case True
    then show ?thesis using assms off
      by (auto simp: decodeSupersession_def splitStoredBlob_def decodeSupersessionEnvelope_def
          supersessionPayloadOff_def supMagicLen_def)
  next
    case False
    then have b: "20 \<le> off" "off \<le> length blob" using payloadOff_cases[OF off] by auto
    have "decodeSupersession (take off blob) = Inr (rec, [])"
      using assms off False b payloadOff_take[OF off False]
      by (auto simp: decodeSupersession_def u_at_take readIDs_take supMagicLen_def
          split: sum.splits prod.splits)
    then show ?thesis using assms off False b
      by (auto simp: splitStoredBlob_def decodeSupersessionEnvelope_def decodeSupersession_def
          split: sum.splits prod.splits)
  qed
qed

section \<open>Properties\<close>

text \<open>
  C16: a stored blob (envelope, then payload) decodes to the record that was written, in
  the encoder's sorted duplicate-free order, and to the payload, byte for byte; the
  split gives the same payload and an envelope that alone decodes to the same record.
\<close>

theorem supersession_roundtrip:
  assumes "\<not> record_empty rec" "record_fits rec"
  shows "decodeSupersession (encodeSupersessionPrefix rec @ payload) =
      Inr (\<lparr>Superseded = sortedUnique (Superseded rec), Cohort = sortedUnique (Cohort rec)\<rparr>, payload) \<and>
    splitStoredBlob (encodeSupersessionPrefix rec @ payload) = Inr (encodeSupersessionPrefix rec, payload) \<and>
    decodeSupersessionEnvelope (encodeSupersessionPrefix rec) =
      Inr \<lparr>Superseded = sortedUnique (Superseded rec), Cohort = sortedUnique (Cohort rec)\<rparr>"
proof -
  have dec: "decodeSupersession (encodeSupersessionPrefix rec @ payload) =
      Inr (\<lparr>Superseded = sortedUnique (Superseded rec), Cohort = sortedUnique (Cohort rec)\<rparr>, payload)"
    by (rule decode_encode[OF assms])
  then show ?thesis using decode_split[OF dec] by auto
qed

lemma supersession_roundtrip_witness:
  "decodeSupersession (encodeSupersessionPrefix \<lparr>Superseded = [''b'', ''aa'', ''b''], Cohort = [''c'']\<rparr> @ [2, 7]) =
     Inr (\<lparr>Superseded = [''aa'', ''b''], Cohort = [''c'']\<rparr>, [2, 7])"
  using supersession_roundtrip[of "\<lparr>Superseded = [''b'', ''aa'', ''b''], Cohort = [''c'']\<rparr>" "[2, 7]"]
  by (simp add: record_empty_def record_fits_def sortedUnique_def sup_align_def sup_body_def
      supPayloadAlign_def supHeaderLen_def supMagicLen_def)

text \<open>
  C31: on any bytes at all the decoder never reads past the slice it was given; it
  either refuses them or returns the payload the split returns, and then the envelope
  the split cuts off decodes, alone, to the same record.
\<close>

theorem decodeSupersession_safe:
  "decodeSupersession blob \<noteq> Inl SupPanic \<and>
   (case decodeSupersession blob of
      Inl e \<Rightarrow> True
    | Inr (rec, payload) \<Rightarrow>
        \<exists>env. splitStoredBlob blob = Inr (env, payload) \<and> blob = env @ payload \<and>
              decodeSupersessionEnvelope env = Inr rec)"
  using decode_no_panic[of blob] decode_split[of blob] by (auto split: sum.splits)

lemma distinct_remdups_adj_sorted: "sorted xs \<Longrightarrow> distinct (remdups_adj (xs :: 'a :: linorder list))"
  by (induction xs rule: remdups_adj.induct) auto

text \<open>
  the envelope is a function of the two id sets (the order and the repetitions a
  caller collected them in do not reach the bytes), its length is a multiple of 8, so
  the payload keeps its alignment, and a record that supersedes nothing writes nothing.
\<close>

lemma encodeSupersessionPrefix_canonical:
  assumes "set (Superseded r1) = set (Superseded r2)" "set (Cohort r1) = set (Cohort r2)"
  shows "encodeSupersessionPrefix r1 = encodeSupersessionPrefix r2 \<and>
    length (encodeSupersessionPrefix r1) mod 8 = 0 \<and>
    (encodeSupersessionPrefix r1 = [] \<longleftrightarrow> Superseded r1 = [])"
proof -
  have srt: "sorted (sortedUnique xs) \<and> distinct (sortedUnique xs)" for xs
    by (simp add: sortedUnique_def distinct_remdups_adj_sorted)
  have "sortedUnique (Superseded r1) = sortedUnique (Superseded r2)"
    "sortedUnique (Cohort r1) = sortedUnique (Cohort r2)"
    using srt assms by (auto intro!: sorted_distinct_set_unique)
  moreover have "record_empty r1 \<longleftrightarrow> record_empty r2"
    using assms(1) by (auto simp: record_empty_def)
  ultimately have "encodeSupersessionPrefix r1 = encodeSupersessionPrefix r2"
    by (simp add: encodeSupersessionPrefix_def)
  moreover have "length (encodeSupersessionPrefix r1) mod 8 = 0"
    by (cases "record_empty r1") (simp add: encodeSupersessionPrefix_def, simp add: length_encode sup_align_mod)
  moreover have "encodeSupersessionPrefix r1 = [] \<longleftrightarrow> Superseded r1 = []"
    by (auto simp: encodeSupersessionPrefix_def record_empty_def Let_def supMagic_def)
  ultimately show ?thesis by blast
qed

lemma encodeSupersessionPrefix_canonical_witness:
  "encodeSupersessionPrefix \<lparr>Superseded = [''b'', ''a'', ''b''], Cohort = [''c'']\<rparr> =
   encodeSupersessionPrefix \<lparr>Superseded = [''a'', ''b''], Cohort = [''c'', ''c'']\<rparr>"
  using encodeSupersessionPrefix_canonical[of "\<lparr>Superseded = [''b'', ''a'', ''b''], Cohort = [''c'']\<rparr>"
      "\<lparr>Superseded = [''a'', ''b''], Cohort = [''c'', ''c'']\<rparr>"]
  by (simp add: insert_commute)

text \<open>
  Bytes that do not start with the marker's leading zero (every format's own
  version byte is non-zero) pass through the decoder and the split unchanged.
\<close>

lemma no_envelope_passthrough:
  assumes "blob \<noteq> []" "hd blob \<noteq> 0"
  shows "decodeSupersession blob = Inr (\<lparr>Superseded = [], Cohort = []\<rparr>, blob) \<and>
    splitStoredBlob blob = Inr ([], blob) \<and> SegmentPayload blob = Inr blob"
proof -
  have "take supMagicLen blob \<noteq> supMagic"
    using assms by (cases blob) (auto simp: supMagic_def supMagicLen_def)
  then have "supersessionPayloadOff blob = Inr 0" by (simp add: supersessionPayloadOff_def)
  then show ?thesis
    by (simp add: decodeSupersession_def splitStoredBlob_def SegmentPayload_def)
qed

lemma no_envelope_passthrough_witness: "SegmentPayload [2, 0, 9] = Inr [2, 0, 9]"
  using no_envelope_passthrough[of "[2, 0, 9]"] by simp

end
