(* ===== verification/Sha256.thy ===== *)
theory Sha256
  imports Prelude
begin

text \<open>
  SHA-256 (FIPS 180-4) as the Go standard library's \<^verbatim>\<open>crypto/sha256\<close> computes it.
  The engine uses the digest in two places: \<^verbatim>\<open>BucketOf\<close> reads its first eight bytes,
  and a segment's id is the hexadecimal digest of its stored bytes.  The function is
  written out so that both are concrete, executable definitions; its constants are the
  standard's, in decimal.
\<close>

unbundle bit_operations_syntax

type_synonym word32 = "32 word"

definition sha_K :: "word32 list" where
  "sha_K =
    [1116352408, 1899447441, 3049323471, 3921009573, 961987163, 1508970993,
     2453635748, 2870763221, 3624381080, 310598401, 607225278, 1426881987,
     1925078388, 2162078206, 2614888103, 3248222580, 3835390401, 4022224774,
     264347078, 604807628, 770255983, 1249150122, 1555081692, 1996064986,
     2554220882, 2821834349, 2952996808, 3210313671, 3336571891, 3584528711,
     113926993, 338241895, 666307205, 773529912, 1294757372, 1396182291,
     1695183700, 1986661051, 2177026350, 2456956037, 2730485921, 2820302411,
     3259730800, 3345764771, 3516065817, 3600352804, 4094571909, 275423344,
     430227734, 506948616, 659060556, 883997877, 958139571, 1322822218,
     1537002063, 1747873779, 1955562222, 2024104815, 2227730452, 2361852424,
     2428436474, 2756734187, 3204031479, 3329325298]"

definition sha_H0 :: "word32 list" where
  "sha_H0 =
    [1779033703, 3144134277, 1013904242, 2773480762, 1359893119, 2600822924,
     528734635, 1541459225]"

definition rotr32 :: "nat \<Rightarrow> word32 \<Rightarrow> word32" where
  "rotr32 n x = (drop_bit n x) OR (push_bit (32 - n) x)"

definition sha_pad :: "byte list \<Rightarrow> byte list" where
  "sha_pad msg =
     (let l = length msg;
          z = (64 - (l + 9) mod 64) mod 64
      in msg @ [0x80] @ replicate z 0 @
         map (\<lambda>i. word_of_int (int (8 * l) div 256 ^ (7 - i))) [0..<8])"

definition be_int :: "byte list \<Rightarrow> int" where
  "be_int bs = foldl (\<lambda>a b. a * 256 + uint b) 0 bs"

fun words_of :: "byte list \<Rightarrow> word32 list" where
  "words_of (a # b # c # d # r) = word_of_int (be_int [a, b, c, d]) # words_of r"
| "words_of _ = []"

definition sha_next :: "word32 list \<Rightarrow> word32" where
  "sha_next r =
     (let x = r ! 14; y = r ! 1;
          s1 = rotr32 17 x XOR rotr32 19 x XOR drop_bit 10 x;
          s0 = rotr32 7 y XOR rotr32 18 y XOR drop_bit 3 y
      in s1 + r ! 9 + s0 + r ! 0)"

text \<open>The message schedule, kept as a window of the last 16 words.\<close>

fun sha_rounds :: "word32 list \<Rightarrow> word32 list \<Rightarrow> word32 list \<Rightarrow> word32 list" where
  "sha_rounds [] w st = st"
| "sha_rounds (k # ks) w [a, b, c, d, e, f, g, h] =
     (let t1 = h + (rotr32 6 e XOR rotr32 11 e XOR rotr32 25 e) +
               ((e AND f) XOR ((NOT e) AND g)) + k + hd w;
          t2 = (rotr32 2 a XOR rotr32 13 a XOR rotr32 22 a) +
               ((a AND b) XOR (a AND c) XOR (b AND c))
      in sha_rounds ks (tl w @ [sha_next w]) [t1 + t2, a, b, c, d + t1, e, f, g])"
| "sha_rounds (k # ks) w st = st"

definition sha_block :: "word32 list \<Rightarrow> byte list \<Rightarrow> word32 list" where
  "sha_block h blk = map2 (+) h (sha_rounds sha_K (words_of blk) h)"

function sha_blocks :: "word32 list \<Rightarrow> byte list \<Rightarrow> word32 list" where
  "sha_blocks h bs = (if bs = [] then h else sha_blocks (sha_block h (take 64 bs)) (drop 64 bs))"
  by pat_completeness auto
termination by (relation "measure (\<lambda>(_, bs). length bs)") auto

declare sha_blocks.simps [simp del]

definition be_bytes32 :: "word32 \<Rightarrow> byte list" where
  "be_bytes32 w = map (\<lambda>i. word_of_int (uint w div 256 ^ (3 - i))) [0..<4]"

definition sha256 :: "byte list \<Rightarrow> byte list" where
  "sha256 msg = concat (map be_bytes32 (sha_blocks sha_H0 (sha_pad msg)))"

section \<open>The digest's length\<close>

lemma length_sha_rounds: "length st = 8 \<Longrightarrow> length (sha_rounds ks w st) = 8"
  by (induction ks w st rule: sha_rounds.induct) (auto simp: Let_def)

lemma length_sha_blocks: "length h = 8 \<Longrightarrow> length (sha_blocks h bs) = 8"
  by (induction h bs rule: sha_blocks.induct)
    (subst sha_blocks.simps, auto simp: sha_block_def length_sha_rounds)

lemma length_sha256 [simp]: "length (sha256 msg) = 32"
proof -
  have "length (sha_blocks sha_H0 (sha_pad msg)) = 8"
    by (rule length_sha_blocks) (simp add: sha_H0_def)
  moreover have "length (concat (map be_bytes32 xs)) = 4 * length xs" for xs
    by (induction xs) (auto simp: be_bytes32_def)
  ultimately show ?thesis by (simp add: sha256_def)
qed

end
