(* ===== verification/Format.thy ===== *)
theory Format
  imports TopK LiveDocs Supersession Sha256
begin

text \<open>
  \<open>internal/searchengine/segment.go\<close>, \<open>document.go\<close> and the error values of
  \<open>corruption.go\<close> and \<open>merge_validate.go\<close>: the documents the engine indexes, the
  format interface it drives, and what a call into a format can end in.

  A format is not this package's code, so it is a record of functions that every
  operation of the engine takes as an argument; \<open>'p\<close> is the format's segment type,
  \<open>'q\<close> its query type, \<open>'s\<close> its statistics and
  \<open>'sc\<close> the score of its hits. A call into a format returns an
  \<open>outcome\<close>: a value, a returned error, a corruption raised as a panic
  (\<open>RaiseCorrupt\<close>) or any other panic, so that what the engine's containment catches
  and what it lets through are different values.
\<close>

record Document =
  doc_ID :: ExternalID
  doc_Fields :: "(string, string) gomap"
  doc_Vector :: "byte list"
  doc_Dtype :: string

datatype engine_error =
    ErrText string
  | Corrupt SegmentID string bool
  | MergeOutputInvalid "SegmentID list" string nat engine_error
  | DuplicateNodes nat nat
  | EnvelopeError sup_error
  | Wrap string engine_error
  | CtxDone

datatype 'a outcome =
    Ret 'a
  | Fail engine_error
  | Raised SegmentID string
  | Panic string

type_synonym BuildReport = "(string, int) gomap"

record ('q, 's, 'p, 'sc) SegmentFormat =
  f_Name :: string
  f_Build :: "Document list \<Rightarrow> BuildReport \<times> 'p outcome"
  f_Decode :: "byte list \<Rightarrow> 'p outcome"
  f_MergeTo :: "'p list \<Rightarrow> (ExternalID \<Rightarrow> bool) list \<Rightarrow> byte list outcome"
  f_ValidateSegment :: "SegmentID \<Rightarrow> byte list \<Rightarrow> unit outcome"
  f_AggregateStats :: "'p list \<Rightarrow> 's"
  f_AppendStats :: "'s \<Rightarrow> 'p \<Rightarrow> 's"
  s_Search :: "'p \<Rightarrow> 'q \<Rightarrow> 's \<Rightarrow> int \<Rightarrow> (ExternalID \<Rightarrow> bool) \<Rightarrow> 'sc Hit list outcome"
  s_IDs :: "'p \<Rightarrow> ExternalID list outcome"
  s_Encode :: "'p \<Rightarrow> byte list outcome"
  s_HeapBytes :: "'p \<Rightarrow> int"
  s_VectorByID :: "'p \<Rightarrow> (ExternalID \<Rightarrow> byte list option outcome) option"

text \<open>\<open>AppendStats\<close> owes what \<open>AggregateStats\<close> would fold over the longer list: the
  agreement the interface's documentation demands of every format.\<close>

definition stats_agree :: "('q, 's, 'p, 'sc) SegmentFormat \<Rightarrow> bool" where
  "stats_agree f \<longleftrightarrow>
     (\<forall>segs seg. f_AppendStats f (f_AggregateStats f segs) seg = f_AggregateStats f (segs @ [seg]))"

record SegmentMeta =
  mt_ID :: SegmentID
  mt_Format :: string
  mt_Generation :: "64 word"
  mt_DocCount :: int
  mt_DeadCount :: int

record SegmentBlob =
  b_ID :: SegmentID
  b_Format :: string
  b_Generation :: "64 word"
  b_DocCount :: int
  b_Bytes :: "byte list"
  b_Envelope :: "byte list"
  b_Mapped :: bool
  b_Borrowed :: bool

text \<open>
  \<open>b_Mapped\<close> is \<open>Release != nil\<close> and \<open>b_Borrowed\<close> is \<open>keepAlive != nil\<close>: who frees the
  memory behind a blob is a property of the collector, but which of the two a blob
  carries decides how its heap is accounted.
\<close>

record MergeResult =
  mr_Removed :: "SegmentID list"
  mr_Merged :: SegmentBlob

definition PinsMapping :: "SegmentBlob \<Rightarrow> bool" where
  "PinsMapping b \<longleftrightarrow> b_Borrowed b"

section \<open>Corruption\<close>

definition RaiseCorrupt :: "string \<Rightarrow> 'a outcome" where
  "RaiseCorrupt detail = Raised [] detail"

definition RaiseCorruptIn :: "SegmentID \<Rightarrow> string \<Rightarrow> 'a outcome" where
  "RaiseCorruptIn sid detail = Raised sid detail"

text \<open>
  \<open>handleCorrupt\<close>: a raise that names no segment is stamped with the boundary's own id, one
  that names a segment keeps it, and any other panic goes on unwinding. \<open>catchCorrupt\<close> and
  \<open>CatchCorrupt\<close> are this around \<open>recover()\<close>. The flag of \<open>Corrupt\<close> is the error's
  \<open>reported\<close> latch, clear until the engine has reported it.
\<close>

fun catchCorrupt :: "SegmentID \<Rightarrow> 'a outcome \<Rightarrow> 'a outcome" where
  "catchCorrupt sid (Raised rid detail) = Fail (Corrupt (if rid = [] then sid else rid) detail False)"
| "catchCorrupt sid r = r"

text \<open>\<open>errors.AsType\<close>: the first error of the wanted type down the \<open>Unwrap\<close> chain.\<close>

fun as_corrupt :: "engine_error \<Rightarrow> (SegmentID \<times> string \<times> bool) option" where
  "as_corrupt (Corrupt sid d r) = Some (sid, d, r)"
| "as_corrupt (MergeOutputInvalid c n b e) = as_corrupt e"
| "as_corrupt (Wrap s e) = as_corrupt e"
| "as_corrupt _ = None"

fun as_refused :: "engine_error \<Rightarrow> bool" where
  "as_refused (MergeOutputInvalid c n b e) = True"
| "as_refused (Wrap s e) = as_refused e"
| "as_refused _ = False"

fun CorruptSegmentError_Error :: "SegmentID \<Rightarrow> string \<Rightarrow> string" where
  "CorruptSegmentError_Error sid detail =
     (if sid = [] then ''searchengine: corrupt segment: '' @ detail
      else ''searchengine: corrupt segment '' @ sid @ '': '' @ detail)"

section \<open>Content addresses\<close>

definition hex_digit :: "nat \<Rightarrow> char" where
  "hex_digit n = ''0123456789abcdef'' ! n"

definition hex_byte :: "byte \<Rightarrow> string" where
  "hex_byte b = [hex_digit (unat b div 16), hex_digit (unat b mod 16)]"

definition contentHash :: "byte list \<Rightarrow> SegmentID" where
  "contentHash blob = concat (map hex_byte (sha256 blob))"

lemma length_contentHash [simp]: "length (contentHash b) = 64"
proof -
  have "length (concat (map hex_byte xs)) = 2 * length xs" for xs
    by (induction xs) (auto simp: hex_byte_def)
  then show ?thesis by (simp add: contentHash_def)
qed

lemma contentHash_neq [simp]:
  "length s \<noteq> 64 \<Longrightarrow> contentHash b \<noteq> s" "length s \<noteq> 64 \<Longrightarrow> s \<noteq> contentHash b"
  by auto

section \<open>Outcomes\<close>

definition bind_out :: "'a outcome \<Rightarrow> ('a \<Rightarrow> 'b outcome) \<Rightarrow> 'b outcome" where
  "bind_out m k = (case m of Ret a \<Rightarrow> k a | Fail e \<Rightarrow> Fail e | Raised s d \<Rightarrow> Raised s d | Panic p \<Rightarrow> Panic p)"

lemma bind_out_simps [simp]:
  "bind_out (Ret a) k = k a" "bind_out (Fail e) k = Fail e"
  "bind_out (Raised s d) k = Raised s d" "bind_out (Panic p) k = Panic p"
  by (simp_all add: bind_out_def)

lemma bind_out_Ret_iff: "bind_out m k = Ret b \<longleftrightarrow> (\<exists>a. m = Ret a \<and> k a = Ret b)"
  by (cases m) auto

lemma catchCorrupt_Ret_iff [simp]: "catchCorrupt sid r = Ret a \<longleftrightarrow> r = Ret a"
  by (cases r) auto

lemma catchCorrupt_never_raises [simp]: "catchCorrupt sid r \<noteq> Raised s d"
  by (cases r) auto

section \<open>A format that meets the contracts\<close>

text \<open>
  The smallest format there is: a segment is its list of ids, stored with a count and
  length prefixes. It is the instance at which the hypotheses about formats hold. Its merge
  refuses ids too long or too many for the prefixes.
\<close>

definition ids_encode :: "ExternalID list \<Rightarrow> byte list" where
  "ids_encode ids = put_le 4 (length ids) @ concat (map encode_id ids)"

definition ids_decode :: "byte list \<Rightarrow> ExternalID list outcome" where
  "ids_decode b =
     (case u_at 4 b 0 of
        Inl e \<Rightarrow> Fail (EnvelopeError e)
      | Inr n \<Rightarrow> (case readIDs b 4 (length b) n of
                   Inl e \<Rightarrow> Fail (EnvelopeError e)
                 | Inr (ids, _) \<Rightarrow> Ret ids))"

definition ids_format :: "(ExternalID, nat, ExternalID list, int) SegmentFormat" where
  "ids_format =
     \<lparr>f_Name = ''ids'',
      f_Build = \<lambda>docs. ([], Ret (map doc_ID docs)),
      f_Decode = ids_decode,
      f_MergeTo = \<lambda>segs acc.
        (let ids = remdups (concat (map2 (\<lambda>s a. filter a s) segs acc)); b = ids_encode ids
         in if ids_decode b = Ret ids then Ret b else Fail (ErrText ''ids'')),
      f_ValidateSegment = \<lambda>_ b. (case ids_decode b of Ret _ \<Rightarrow> Ret () | _ \<Rightarrow> Raised [] ''ids''),
      f_AggregateStats = \<lambda>segs. sum_list (map length segs),
      f_AppendStats = \<lambda>n s. n + length s,
      s_Search = \<lambda>p q st k acc. Ret (take (nat k) (map (\<lambda>x. \<lparr>hit_ID = x, hit_Score = 1\<rparr>) (filter (\<lambda>x. x = q \<and> acc x) p))),
      s_IDs = Ret,
      s_Encode = \<lambda>p. Ret (ids_encode p),
      s_HeapBytes = \<lambda>p. 16 * int (length p),
      s_VectorByID = \<lambda>p. Some (\<lambda>x. Ret (if x \<in> set p then Some (bytes_of x) else None))\<rparr>"

lemma ids_stats_agree [simp]: "stats_agree ids_format"
  by (simp add: stats_agree_def ids_format_def)

end
