(* ===== verification/SegmentSet.thy ===== *)
theory SegmentSet
  imports Format
begin

text \<open>
  \<open>internal/searchengine/segmentset.go\<close>: the immutable snapshot, its two-level route and
  the derivations that add entries. A pointer to an entry is the entry's value (entries
  are immutable once published); its one mutable part, the \<open>liveDocs\<close>, is the address
  \<open>live\<close> of a bitset in the engine's store, so that entries of several snapshots share
  it the way the Go pointers do. \<open>pin\<close> is about the collector and is not modelled.

  The route is specified by \<open>newest\<close>: the last entry of the snapshot holding an id. The
  invariant \<open>set_ok\<close> says what the base map, the drop set and the stale index owe, and
  every derivation of this theory keeps it.
\<close>

record 'p segmentEntry =
  payload :: 'p
  live :: nat
  members :: idSet
  meta :: SegmentMeta
  sup_record :: supersessionRecord
  heapPayload :: int

abbreviation seg_ID :: "'p segmentEntry \<Rightarrow> SegmentID" where
  "seg_ID e \<equiv> mt_ID (meta e)"

definition held :: "ExternalID \<Rightarrow> 'p segmentEntry \<Rightarrow> bool" where
  "held docid e \<longleftrightarrow> map_of (members e) docid \<noteq> None"

definition routeTailLimit :: nat where "routeTailLimit = 1024"

record ('s, 'p) segmentSet =
  entries :: "'p segmentEntry list"
  base :: "(ExternalID, SegmentID) gomap"
  baseN :: nat
  dropped :: "SegmentID list"
  staleIndex :: "(ExternalID, 'p segmentEntry) gomap"
  distinctN :: int
  stats :: 's

definition flatRoute :: "'p segmentEntry list \<Rightarrow> (ExternalID, SegmentID) gomap" where
  "flatRoute es =
     foldl (\<lambda>route e. foldl (\<lambda>route (docid, _). AList.update docid (seg_ID e) route) route (members e))
       [] es"

definition aggregateStatsOver :: "('q, 's, 'p, 'sc) SegmentFormat \<Rightarrow> 'p segmentEntry list \<Rightarrow> 's" where
  "aggregateStatsOver f es = f_AggregateStats f (map payload es)"

definition newSegmentSet :: "('q, 's, 'p, 'sc) SegmentFormat \<Rightarrow> 'p segmentEntry list \<Rightarrow> ('s, 'p) segmentSet" where
  "newSegmentSet f es =
     (let route = flatRoute es
      in \<lparr>entries = es, base = route, baseN = length es, dropped = [], staleIndex = [],
          distinctN = int (length route), stats = aggregateStatsOver f es\<rparr>)"

text \<open>\<open>for i := len(entries) - 1; i >= baseN; i--\<close>, with \<open>Suc i\<close> for the index \<open>i\<close>.\<close>

fun tail_scan :: "'p segmentEntry list \<Rightarrow> nat \<Rightarrow> ExternalID \<Rightarrow> nat \<Rightarrow> 'p segmentEntry option" where
  "tail_scan es lo docid 0 = None"
| "tail_scan es lo docid (Suc i) =
     (if i < lo then None
      else if held docid (es ! i) then Some (es ! i)
      else tail_scan es lo docid i)"

definition tailHolderOf :: "('s, 'p) segmentSet \<Rightarrow> ExternalID \<Rightarrow> 'p segmentEntry option" where
  "tailHolderOf s docid = tail_scan (entries s) (baseN s) docid (length (entries s))"

definition routeOf :: "('s, 'p) segmentSet \<Rightarrow> ExternalID \<Rightarrow> SegmentID option" where
  "routeOf s docid =
     (case tailHolderOf s docid of
        Some entry \<Rightarrow> Some (seg_ID entry)
      | None \<Rightarrow>
          (case map_of (base s) docid of
             None \<Rightarrow> None
           | Some sid \<Rightarrow>
               if sid \<notin> set (dropped s) then Some sid
               else map_option seg_ID (map_of (staleIndex s) docid)))"

fun entry_scan :: "'p segmentEntry list \<Rightarrow> SegmentID \<Rightarrow> 'p segmentEntry option" where
  "entry_scan [] sid = None"
| "entry_scan (e # es) sid = (if seg_ID e = sid then Some e else entry_scan es sid)"

definition entryByID :: "('s, 'p) segmentSet \<Rightarrow> SegmentID \<Rightarrow> 'p segmentEntry option" where
  "entryByID s sid = entry_scan (entries s) sid"

definition entryOf :: "('s, 'p) segmentSet \<Rightarrow> ExternalID \<Rightarrow> 'p segmentEntry option" where
  "entryOf s docid =
     (case tailHolderOf s docid of
        Some entry \<Rightarrow> Some entry
      | None \<Rightarrow>
          (case map_of (base s) docid of
             None \<Rightarrow> None
           | Some sid \<Rightarrow>
               if sid \<in> set (dropped s) then map_of (staleIndex s) docid
               else entryByID s sid))"

text \<open>
  \<open>rangeRoute\<close> calls \<open>fn\<close> once per id; the model returns the list of the calls. The state
  of the tail walk is the set of ids seen and the calls made so far.
\<close>

fun range_members :: "SegmentID \<Rightarrow> ExternalID list \<Rightarrow> ExternalID list \<times> (ExternalID \<times> SegmentID) list
    \<Rightarrow> ExternalID list \<times> (ExternalID \<times> SegmentID) list" where
  "range_members sid [] st = st"
| "range_members sid (docid # ids) (seen, out) =
     (if docid \<in> set seen then range_members sid ids (seen, out)
      else range_members sid ids (docid # seen, out @ [(docid, sid)]))"

fun range_tail :: "'p segmentEntry list \<Rightarrow> nat \<Rightarrow> nat \<Rightarrow> ExternalID list \<times> (ExternalID \<times> SegmentID) list
    \<Rightarrow> ExternalID list \<times> (ExternalID \<times> SegmentID) list" where
  "range_tail es lo 0 st = st"
| "range_tail es lo (Suc i) st =
     (if i < lo then st
      else range_tail es lo i (range_members (seg_ID (es ! i)) (map fst (members (es ! i))) st))"

fun range_base :: "('s, 'p) segmentSet \<Rightarrow> ExternalID list \<Rightarrow> (ExternalID, SegmentID) gomap
    \<Rightarrow> (ExternalID \<times> SegmentID) list" where
  "range_base s seen [] = []"
| "range_base s seen ((docid, sid) # rest) =
     (if docid \<in> set seen then range_base s seen rest
      else if sid \<in> set (dropped s)
      then (case map_of (staleIndex s) docid of
              Some holder \<Rightarrow> (docid, seg_ID holder) # range_base s seen rest
            | None \<Rightarrow> range_base s seen rest)
      else (docid, sid) # range_base s seen rest)"

definition rangeRoute :: "('s, 'p) segmentSet \<Rightarrow> (ExternalID \<times> SegmentID) list" where
  "rangeRoute s =
     (let (seen, out) = range_tail (entries s) (baseN s) (length (entries s)) ([], [])
      in out @ range_base s seen (base s))"

definition withAppended :: "('q, 's, 'p, 'sc) SegmentFormat \<Rightarrow> ('s, 'p) segmentSet \<Rightarrow> 'p segmentEntry
    \<Rightarrow> ('s, 'p) segmentSet" where
  "withAppended f s entry =
     (let es = entries s @ [entry]
      in if length es - baseN s > routeTailLimit then newSegmentSet f es
         else \<lparr>entries = es, base = base s, baseN = baseN s, dropped = dropped s,
               staleIndex = staleIndex s,
               distinctN = foldl (\<lambda>d (docid, _). if routeOf s docid = None then d + 1 else d)
                             (distinctN s) (members entry),
               stats = f_AppendStats f (stats s) (payload entry)\<rparr>)"

definition withReplacedPayloads :: "('q, 's, 'p, 'sc) SegmentFormat \<Rightarrow> ('s, 'p) segmentSet
    \<Rightarrow> (nat, 'p segmentEntry) gomap \<Rightarrow> ('s, 'p) segmentSet" where
  "withReplacedPayloads f s replacements =
     (let es = foldl (\<lambda>es (idx, entry). es[idx := entry]) (entries s) replacements
      in \<lparr>entries = es, base = base s, baseN = baseN s, dropped = dropped s,
          staleIndex = staleIndex s, distinctN = distinctN s, stats = aggregateStatsOver f es\<rparr>)"

definition withReplacedGroup :: "('q, 's, 'p, 'sc) SegmentFormat \<Rightarrow> ('s, 'p) segmentSet \<Rightarrow> SegmentID list
    \<Rightarrow> 'p segmentEntry list \<Rightarrow> ('s, 'p) segmentSet" where
  "withReplacedGroup f s removeIDs added =
     newSegmentSet f (filter (\<lambda>e. seg_ID e \<notin> set removeIDs) (entries s) @ added)"

section \<open>What the route owes\<close>

text \<open>Two entries that stand for the same segment: a remap changes the payload alone.\<close>

definition same_seg :: "'p segmentEntry \<Rightarrow> 'p segmentEntry \<Rightarrow> bool" where
  "same_seg a b \<longleftrightarrow> meta a = meta b \<and> members a = members b \<and> live a = live b"

definition resident_ids :: "'p segmentEntry list \<Rightarrow> ExternalID set" where
  "resident_ids es = (\<Union>e \<in> set es. gm_keys (members e))"

definition route_ok :: "('s, 'p) segmentSet \<Rightarrow> ExternalID \<Rightarrow> bool" where
  "route_ok s docid \<longleftrightarrow>
     (let flat = newest (held docid) (take (baseN s) (entries s))
      in case map_of (base s) docid of
           None \<Rightarrow> flat = None
         | Some sid \<Rightarrow>
             if sid \<notin> set (dropped s) then map_option seg_ID flat = Some sid
             else newest (held docid) (drop (baseN s) (entries s)) = None \<longrightarrow>
                  rel_option same_seg (map_of (staleIndex s) docid) flat)"

definition entries_ok :: "'p segmentEntry list \<Rightarrow> bool" where
  "entries_ok es \<longleftrightarrow> (\<forall>e \<in> set es. gomap_ok (members e))"

definition set_ok :: "('s, 'p) segmentSet \<Rightarrow> bool" where
  "set_ok s \<longleftrightarrow> baseN s \<le> length (entries s) \<and> gomap_ok (base s) \<and> gomap_ok (staleIndex s) \<and>
     entries_ok (entries s) \<and> (\<forall>docid. route_ok s docid) \<and>
     distinctN s = int (card (resident_ids (entries s)))"

text \<open>The specification: what a flat rebuild over the entries answers.\<close>

definition flat_answer :: "'p segmentEntry list \<Rightarrow> ExternalID \<Rightarrow> SegmentID option" where
  "flat_answer es docid = map_option seg_ID (newest (held docid) es)"

section \<open>Reading the route\<close>

lemma held_iff: "held docid e \<longleftrightarrow> docid \<in> gm_keys (members e)"
  by (simp add: held_def gm_keys_iff)

lemma same_seg_refl [simp]: "same_seg e e"
  by (simp add: same_seg_def)

lemma same_seg_trans: "same_seg a b \<Longrightarrow> same_seg b c \<Longrightarrow> same_seg a c"
  by (simp add: same_seg_def)

lemma same_seg_ID: "same_seg a b \<Longrightarrow> seg_ID a = seg_ID b"
  by (simp add: same_seg_def)

lemma same_seg_held: "same_seg a b \<Longrightarrow> held docid a = held docid b"
  by (simp add: same_seg_def held_def)

lemma tail_scan_newest:
  "n \<le> length es \<Longrightarrow> tail_scan es lo docid n = newest (held docid) (drop lo (take n es))"
proof (induction n)
  case (Suc n)
  then have "take (Suc n) es = take n es @ [es ! n]" by (simp add: take_Suc_conv_app_nth)
  then show ?case using Suc by (cases "n < lo") simp_all
qed simp

lemma tailHolderOf_newest:
  "tailHolderOf s docid = newest (held docid) (drop (baseN s) (entries s))"
  by (simp add: tailHolderOf_def tail_scan_newest)

lemma map_of_update_members:
  "map_of (foldl (\<lambda>route (docid, _). AList.update docid sid route) route ms) x =
   (if map_of ms x \<noteq> None then Some sid else map_of route x)"
  by (induction ms arbitrary: route) (auto simp: update_conv' split: if_splits)

lemma map_of_flatRoute: "map_of (flatRoute es) docid = flat_answer es docid"
  unfolding flat_answer_def
  by (induction es rule: rev_induct) (auto simp: flatRoute_def map_of_update_members held_def)

lemma gomap_ok_update_members:
  "gomap_ok route \<Longrightarrow> gomap_ok (foldl (\<lambda>route (docid, _). AList.update docid sid route) route ms)"
  by (induction ms arbitrary: route) auto

lemma gomap_ok_flatRoute [simp]: "gomap_ok (flatRoute es)"
  by (induction es rule: rev_induct) (simp_all add: flatRoute_def gomap_ok_update_members)

lemma flat_answer_None_iff: "flat_answer es docid = None \<longleftrightarrow> docid \<notin> resident_ids es"
  by (auto simp: flat_answer_def newest_None_iff resident_ids_def held_iff)

lemma gm_keys_flatRoute: "gm_keys (flatRoute es) = resident_ids es"
  using flat_answer_None_iff[of es] by (auto simp: gm_keys_iff map_of_flatRoute)

lemma finite_resident_ids [simp]: "finite (resident_ids es)"
  by (simp add: resident_ids_def)

lemma resident_ids_append [simp]: "resident_ids (xs @ ys) = resident_ids xs \<union> resident_ids ys"
  by (auto simp: resident_ids_def)

lemma resident_ids_Nil [simp]: "resident_ids [] = {}"
  by (simp add: resident_ids_def)

lemma resident_ids_Cons [simp]: "resident_ids (e # es) = gm_keys (members e) \<union> resident_ids es"
  by (simp add: resident_ids_def)

lemma entries_ok_append [simp]: "entries_ok (xs @ ys) \<longleftrightarrow> entries_ok xs \<and> entries_ok ys"
  by (auto simp: entries_ok_def)

lemma entries_ok_filter: "entries_ok es \<Longrightarrow> entries_ok (filter P es)"
  by (auto simp: entries_ok_def)

lemma newest_split:
  "newest P xs = (case newest P (drop n xs) of Some y \<Rightarrow> Some y | None \<Rightarrow> newest P (take n xs))"
  by (metis append_take_drop_id newest_append)

text \<open>The stale index answers, up to a remap, what the flattened entries answer.\<close>

lemma routeOf_flat [route_simps]:
  assumes "set_ok s"
  shows "routeOf s docid = flat_answer (entries s) docid"
proof -
  have ok: "route_ok s docid" using assms by (simp add: set_ok_def)
  have "map_option seg_ID x = map_option seg_ID y" if "rel_option same_seg x y" for x y :: "'b segmentEntry option"
    using that by (auto simp: option_rel_Some1 option_rel_Some2 same_seg_ID elim!: option.rel_cases)
  then show ?thesis using ok
    by (auto simp: routeOf_def tailHolderOf_newest flat_answer_def route_ok_def Let_def
        newest_split[of _ "entries s" "baseN s"] split: option.splits if_splits)
qed

lemma routeOf_None_iff [route_simps]: "set_ok s \<Longrightarrow> routeOf s docid = None \<longleftrightarrow> docid \<notin> resident_ids (entries s)"
  by (simp add: routeOf_flat flat_answer_None_iff)

lemma entry_scan_unique:
  "distinct (map seg_ID es) \<Longrightarrow> e \<in> set es \<Longrightarrow> entry_scan es (seg_ID e) = Some e"
  by (induction es) force+

lemma entry_scan_Some: "entry_scan es sid = Some e \<Longrightarrow> e \<in> set es \<and> seg_ID e = sid"
  by (induction es) (auto split: if_splits)

lemma entry_scan_None: "entry_scan es sid = None \<longleftrightarrow> sid \<notin> seg_ID ` set es"
  by (induction es) auto

lemma rel_option_same_refl [simp]: "rel_option same_seg x x"
  by (cases x) auto

lemma entryOf_flat [route_simps]:
  assumes "set_ok s" "distinct (map seg_ID (entries s))"
  shows "rel_option same_seg (entryOf s docid) (newest (held docid) (entries s))"
proof (cases "newest (held docid) (drop (baseN s) (entries s))")
  case (Some e)
  then show ?thesis by (simp add: entryOf_def tailHolderOf_newest newest_split[of _ "entries s" "baseN s"])
next
  case None
  let ?flat = "newest (held docid) (take (baseN s) (entries s))"
  have eq: "newest (held docid) (entries s) = ?flat"
    using None by (simp add: newest_split[of _ "entries s" "baseN s"])
  have ok: "route_ok s docid" using assms by (simp add: set_ok_def)
  have "entry_scan (entries s) (seg_ID e) = Some e" if "?flat = Some e" for e
    by (rule entry_scan_unique[OF assms(2)]) (use newest_SomeD[OF that] in \<open>auto dest: in_set_takeD\<close>)
  then show ?thesis using ok None
    by (auto simp: entryOf_def tailHolderOf_newest route_ok_def Let_def eq entryByID_def
        split: option.splits if_splits)
qed

section \<open>Ranging the route\<close>

lemma range_members_spec:
  assumes "range_members sid ids (seen, out) = (seen', out')" "set seen = fst ` set out" "distinct (map fst out)"
  shows "set seen' = set seen \<union> set ids \<and> set seen' = fst ` set out' \<and> distinct (map fst out') \<and>
    set out' = set out \<union> {(x, sid) | x. x \<in> set ids \<and> x \<notin> set seen}"
  using assms
  by (induction sid ids "(seen, out)" arbitrary: seen out rule: range_members.induct)
    (force split: if_splits)+

lemma range_tail_spec:
  assumes "range_tail es lo n (seen, out) = (seen', out')" "n \<le> length es"
    "set seen = fst ` set out" "distinct (map fst out)"
  shows "set seen' = fst ` set out' \<and> distinct (map fst out') \<and>
    set out' = set out \<union> {(x, sid). x \<notin> set seen \<and> flat_answer (drop lo (take n es)) x = Some sid}"
  using assms
proof (induction n arbitrary: seen out)
  case (Suc n)
  show ?case
  proof (cases "n < lo")
    case False
    obtain seen1 out1 where m: "range_members (seg_ID (es ! n)) (map fst (members (es ! n))) (seen, out) = (seen1, out1)"
      by fastforce
    note r1 = range_members_spec[OF m Suc.prems(3,4)]
    have "range_tail es lo n (seen1, out1) = (seen', out')" using Suc.prems(1) False m by simp
    then have r2: "set seen' = fst ` set out' \<and> distinct (map fst out') \<and>
      set out' = set out1 \<union> {(x, sid). x \<notin> set seen1 \<and> flat_answer (drop lo (take n es)) x = Some sid}"
      by (rule Suc.IH) (use Suc.prems(2) in simp, use r1 in blast, use r1 in blast)
    define K where "K = fst ` set (members (es ! n))"
    have "take (Suc n) es = take n es @ [es ! n]" using Suc.prems(2) by (simp add: take_Suc_conv_app_nth)
    then have step: "flat_answer (drop lo (take (Suc n) es)) x =
        (if x \<in> K then Some (seg_ID (es ! n)) else flat_answer (drop lo (take n es)) x)" for x
      using False Suc.prems(2) by (simp add: flat_answer_def held_iff gm_keys_def K_def)
    have M: "set seen1 = set seen \<union> K"
      and O: "set out1 = set out \<union> {(x, seg_ID (es ! n)) | x. x \<in> K \<and> x \<notin> set seen}"
      and P: "set out' = set out1 \<union> {(x, sid). x \<notin> set seen1 \<and> flat_answer (drop lo (take n es)) x = Some sid}"
      using r1 r2 by (simp_all add: K_def)
    have "set out' = set out \<union> {(x, sid). x \<notin> set seen \<and> flat_answer (drop lo (take (Suc n) es)) x = Some sid}"
      unfolding P O M by (auto simp: step split: if_splits)
    then show ?thesis using conjunct1[OF r2] conjunct1[OF conjunct2[OF r2]] by (intro conjI)
  qed (use Suc in \<open>auto simp: flat_answer_def\<close>)
qed (auto simp: flat_answer_def)

lemma range_base_spec:
  assumes "gomap_ok b"
  shows "distinct (map fst (range_base s seen b)) \<and> fst ` set (range_base s seen b) \<subseteq> gm_keys b - set seen \<and>
    set (range_base s seen b) = {(x, sid). x \<notin> set seen \<and>
      (case map_of b x of None \<Rightarrow> False
       | Some t \<Rightarrow> Some sid = (if t \<in> set (dropped s) then map_option seg_ID (map_of (staleIndex s) x) else Some t))}"
  using assms
proof (induction b)
  case (Cons m rest)
  obtain docid sid where m: "m = (docid, sid)" by fastforce
  have rest: "gomap_ok rest" "docid \<notin> gm_keys rest"
    using Cons.prems by (auto simp: m gomap_ok_def gm_keys_def)
  have k: "gm_keys ((docid, sid) # rest) = insert docid (gm_keys rest)" by (simp add: gm_keys_def)
  have ih: "distinct (map fst (range_base s seen rest))" "fst ` set (range_base s seen rest) \<subseteq> gm_keys rest - set seen"
    using Cons.IH[OF rest(1)] by blast+
  have "distinct (map fst (range_base s seen (m # rest)))"
    using ih rest(2) by (auto simp: m split: option.splits)
  moreover have "fst ` set (range_base s seen (m # rest)) \<subseteq> gm_keys (m # rest) - set seen"
    using ih(2) by (auto simp: m k split: option.splits)
  moreover have none: "map_of rest docid = None" using rest(2) by (simp add: gm_keys_iff)
  have "set (range_base s seen (m # rest)) = {(x, sid). x \<notin> set seen \<and>
      (case map_of (m # rest) x of None \<Rightarrow> False
       | Some t \<Rightarrow> Some sid = (if t \<in> set (dropped s) then map_option seg_ID (map_of (staleIndex s) x) else Some t))}"
  proof (cases "docid \<in> set seen")
    case False
    show ?thesis
      using conjunct2[OF conjunct2[OF Cons.IH[OF rest(1)]]] none False
      by (simp add: m split: option.split) (auto split: option.splits if_splits)
  qed (use conjunct2[OF conjunct2[OF Cons.IH[OF rest(1)]]] in \<open>auto simp: m split: if_splits\<close>)
  ultimately show ?case by blast
qed simp

lemma rangeRoute_spec:
  assumes "set_ok s"
  shows "distinct (map fst (rangeRoute s))"
    and "set (rangeRoute s) = {(x, sid). routeOf s x = Some sid}"
proof -
  obtain seen out where t: "range_tail (entries s) (baseN s) (length (entries s)) ([], []) = (seen, out)"
    by fastforce
  have tail: "set seen = fst ` set out" "distinct (map fst out)"
      "set out = {(x, sid). flat_answer (drop (baseN s) (entries s)) x = Some sid}"
    using range_tail_spec[OF t] by simp_all
  have b: "gomap_ok (base s)" using assms by (simp add: set_ok_def)
  have r: "rangeRoute s = out @ range_base s seen (base s)" by (simp add: rangeRoute_def t)
  have seen: "x \<in> set seen \<longleftrightarrow> newest (held x) (drop (baseN s) (entries s)) \<noteq> None" for x
    using tail by (force simp: flat_answer_def)
  note rb = range_base_spec[OF b, of s seen]
  have "fst ` set (range_base s seen (base s)) \<subseteq> gm_keys (base s) - set seen" using rb by blast
  then have "set (map fst out) \<inter> set (map fst (range_base s seen (base s))) = {}"
    using tail(1) by auto
  then show "distinct (map fst (rangeRoute s))"
    using rb tail(2) by (simp add: r)
  show "set (rangeRoute s) = {(x, sid). routeOf s x = Some sid}"
    using conjunct2[OF conjunct2[OF rb]] tail(3) seen
    by (auto simp: r routeOf_def tailHolderOf_newest flat_answer_def split: option.splits if_splits)
qed

section \<open>Every derivation keeps the invariant\<close>

lemma set_ok_new [simp, intro]: "entries_ok es \<Longrightarrow> set_ok (newSegmentSet f es)"
  by (auto simp: set_ok_def newSegmentSet_def Let_def route_ok_def map_of_flatRoute flat_answer_def
      gomap_ok_length gm_keys_flatRoute split: option.splits)

lemma entries_new [simp]: "entries (newSegmentSet f es) = es"
  by (simp add: newSegmentSet_def Let_def)

lemma count_new:
  "gomap_ok ms \<Longrightarrow> foldl (\<lambda>d (docid, _). if P docid then d + 1 else d) n ms =
     n + int (card {x \<in> gm_keys ms. P x})"
proof (induction ms arbitrary: n)
  case (Cons m ms)
  obtain x v where m: "m = (x, v)" by fastforce
  have ok: "gomap_ok ms" "x \<notin> gm_keys ms" using Cons.prems m by (auto simp: gomap_ok_def gm_keys_def)
  have k: "gm_keys (m # ms) = insert x (gm_keys ms)" by (simp add: m gm_keys_def)
  have "{y \<in> gm_keys (m # ms). P y} =
      (if P x then insert x {y \<in> gm_keys ms. P y} else {y \<in> gm_keys ms. P y})"
    by (auto simp: k)
  then show ?case using Cons.IH[OF ok(1)] ok(2) by (simp add: m)
qed (simp add: gm_keys_def)

lemma entries_withAppended [simp]: "entries (withAppended f s e) = entries s @ [e]"
  by (simp add: withAppended_def Let_def)

lemma set_ok_withAppended:
  assumes "set_ok s" "gomap_ok (members e)"
  shows "set_ok (withAppended f s e)"
proof (cases "Suc (length (entries s)) - baseN s > routeTailLimit")
  case True
  then show ?thesis using assms set_ok_new[of "entries s @ [e]" f]
    by (simp add: withAppended_def Let_def set_ok_def[of s] entries_ok_def)
next
  case False
  let ?t = "withAppended f s e"
  have le: "baseN s \<le> length (entries s)" using assms by (simp add: set_ok_def)
  have parts: "base ?t = base s" "baseN ?t = baseN s" "dropped ?t = dropped s" "staleIndex ?t = staleIndex s"
    using False by (simp_all add: withAppended_def Let_def)
  have "route_ok ?t x" for x
  proof -
    have "route_ok s x" using assms by (simp add: set_ok_def)
    then show ?thesis using le
      by (auto simp: route_ok_def parts Let_def split: option.splits if_splits)
  qed
  moreover have "distinctN ?t = distinctN s + int (card {x \<in> gm_keys (members e). routeOf s x = None})"
    using False assms(2) by (simp add: withAppended_def Let_def count_new)
  moreover have "{x \<in> gm_keys (members e). routeOf s x = None} = gm_keys (members e) - resident_ids (entries s)"
    using assms by (auto simp: routeOf_None_iff)
  moreover have "card (resident_ids (entries s) \<union> gm_keys (members e)) =
      card (resident_ids (entries s)) + card (gm_keys (members e) - resident_ids (entries s))"
    by (simp add: card_Un_disjoint[symmetric])
  ultimately show ?thesis using assms le by (simp add: set_ok_def parts entries_ok_def)
qed

lemma entries_withReplacedGroup [simp]:
  "entries (withReplacedGroup f s R added) = filter (\<lambda>e. seg_ID e \<notin> set R) (entries s) @ added"
  by (simp add: withReplacedGroup_def)

lemma set_ok_withReplacedGroup:
  "set_ok s \<Longrightarrow> entries_ok added \<Longrightarrow> set_ok (withReplacedGroup f s R added)"
  by (simp add: withReplacedGroup_def set_ok_new set_ok_def[of s] entries_ok_filter)

text \<open>A remap: every replacement stands for the segment it replaces.\<close>

definition remap_ok :: "'p segmentEntry list \<Rightarrow> (nat, 'p segmentEntry) gomap \<Rightarrow> bool" where
  "remap_ok es repl \<longleftrightarrow> (\<forall>(idx, e) \<in> set repl. idx < length es \<and> same_seg e (es ! idx))"

lemma remap_entries:
  assumes "remap_ok es repl" "list_all2 same_seg cur es"
  shows "list_all2 same_seg (foldl (\<lambda>es (idx, entry). es[idx := entry]) cur repl) es"
  using assms
proof (induction repl arbitrary: cur)
  case (Cons r repl)
  obtain idx e where r: "r = (idx, e)" by fastforce
  have e: "idx < length es" "same_seg e (es ! idx)" using Cons.prems by (auto simp: r remap_ok_def)
  have "list_all2 same_seg (cur[idx := e]) es"
    using e Cons.prems(2) by (auto simp: list_all2_conv_all_nth nth_list_update)
  then show ?case using Cons by (simp add: r remap_ok_def)
qed simp

lemma newest_same_seg:
  "list_all2 same_seg xs ys \<Longrightarrow> rel_option same_seg (newest (held x) xs) (newest (held x) ys)"
proof (induction xs arbitrary: ys rule: rev_induct)
  case (snoc e xs)
  then obtain e' ys' where "ys = ys' @ [e']" "list_all2 same_seg xs ys'" "same_seg e e'"
    by (auto simp: list_all2_append1 list_all2_Cons1)
  then show ?case using snoc.IH by (auto simp: same_seg_held)
qed simp

lemma resident_same_seg: "list_all2 same_seg xs ys \<Longrightarrow> resident_ids xs = resident_ids ys"
  by (induction rule: list_all2_induct) (auto simp: same_seg_def)

lemma entries_ok_same_seg: "list_all2 same_seg xs ys \<Longrightarrow> entries_ok ys \<Longrightarrow> entries_ok xs"
  by (induction rule: list_all2_induct) (auto simp: same_seg_def entries_ok_def)

lemma rel_option_same_sym: "rel_option same_seg a b \<Longrightarrow> rel_option same_seg b a"
  by (auto simp: same_seg_def elim!: option.rel_cases)

lemma rel_option_same_trans: "rel_option same_seg a b \<Longrightarrow> rel_option same_seg b c \<Longrightarrow> rel_option same_seg a c"
  by (auto simp: same_seg_def elim!: option.rel_cases)

lemma same_seg_map_ID: "rel_option same_seg a b \<Longrightarrow> map_option seg_ID a = map_option seg_ID b"
  by (auto simp: same_seg_def elim!: option.rel_cases)

lemma same_seg_None: "rel_option same_seg a b \<Longrightarrow> a = None \<longleftrightarrow> b = None"
  by (auto elim!: option.rel_cases)

lemma same_seg_map:
  "list_all2 same_seg xs ys \<Longrightarrow>
   map (\<lambda>e. (meta e, members e, live e)) xs = map (\<lambda>e. (meta e, members e, live e)) ys"
  by (induction rule: list_all2_induct) (auto simp: same_seg_def)

lemma remap_list_all2:
  "remap_ok (entries s) repl \<Longrightarrow> list_all2 same_seg (entries (withReplacedPayloads f s repl)) (entries s)"
  using remap_entries[of "entries s" repl "entries s"]
  by (simp add: withReplacedPayloads_def Let_def list_all2_refl)

lemma set_ok_withReplacedPayloads:
  assumes "set_ok s" "remap_ok (entries s) repl"
  shows "set_ok (withReplacedPayloads f s repl)"
proof -
  let ?t = "withReplacedPayloads f s repl"
  note all2 = remap_list_all2[OF assms(2), of f]
  have parts: "base ?t = base s" "baseN ?t = baseN s" "dropped ?t = dropped s"
    "staleIndex ?t = staleIndex s" "distinctN ?t = distinctN s"
    by (simp_all add: withReplacedPayloads_def Let_def)
  have "route_ok ?t x" for x
  proof -
    have r: "route_ok s x" using assms by (simp add: set_ok_def)
    have flat: "rel_option same_seg (newest (held x) (take (baseN s) (entries ?t))) (newest (held x) (take (baseN s) (entries s)))"
      by (intro newest_same_seg list_all2_takeI all2)
    have tail: "newest (held x) (drop (baseN s) (entries ?t)) = None \<longleftrightarrow> newest (held x) (drop (baseN s) (entries s)) = None"
      by (intro same_seg_None newest_same_seg list_all2_dropI all2)
    show ?thesis
      using r tail same_seg_None[OF flat] same_seg_map_ID[OF flat] rel_option_same_trans[OF _ rel_option_same_sym[OF flat]]
      by (simp add: route_ok_def parts Let_def split: option.splits if_splits)
  qed
  then show ?thesis
    using assms(1) all2 resident_same_seg[OF all2] entries_ok_same_seg[OF all2] list_all2_lengthD[OF all2]
    by (simp add: set_ok_def parts)
qed

section \<open>The statistics a snapshot carries\<close>

definition stats_ok :: "('q, 's, 'p, 'sc) SegmentFormat \<Rightarrow> ('s, 'p) segmentSet \<Rightarrow> bool" where
  "stats_ok f s \<longleftrightarrow> stats s = aggregateStatsOver f (entries s)"

lemma stats_ok_new [simp]: "stats_ok f (newSegmentSet f es)"
  by (simp add: stats_ok_def newSegmentSet_def Let_def)

lemma stats_ok_withAppended: "stats_agree f \<Longrightarrow> stats_ok f s \<Longrightarrow> stats_ok f (withAppended f s e)"
  by (simp add: stats_ok_def stats_agree_def withAppended_def Let_def aggregateStatsOver_def newSegmentSet_def)

lemma stats_ok_withReplacedPayloads [simp]: "stats_ok f (withReplacedPayloads f s repl)"
  by (simp add: stats_ok_def withReplacedPayloads_def Let_def)

lemma stats_ok_withReplacedGroup [simp]: "stats_ok f (withReplacedGroup f s R added)"
  by (simp add: withReplacedGroup_def)

section \<open>The interface readers rely on\<close>

text \<open>
  What a client of a snapshot may assume: a lookup answers the newest holder, ranging
  visits every resident id once with that answer, and the count is the number of ids.
\<close>

locale snapshot_route =
  fixes ok :: "'t \<Rightarrow> bool"
    and ents :: "'t \<Rightarrow> 'p segmentEntry list"
    and lookup :: "'t \<Rightarrow> ExternalID \<Rightarrow> SegmentID option"
    and range :: "'t \<Rightarrow> (ExternalID \<times> SegmentID) list"
    and size_of :: "'t \<Rightarrow> int"
  assumes lookup_newest: "ok s \<Longrightarrow> lookup s x = map_option seg_ID (newest (held x) (ents s))"
    and range_distinct: "ok s \<Longrightarrow> distinct (map fst (range s))"
    and range_lookup: "ok s \<Longrightarrow> (x, sid) \<in> set (range s) \<longleftrightarrow> lookup s x = Some sid"
    and size_card: "ok s \<Longrightarrow> size_of s = int (card (resident_ids (ents s)))"
begin

lemma lookup_Some:
  assumes "ok s" "lookup s x = Some sid"
  shows "\<exists>e \<in> set (ents s). seg_ID e = sid \<and> held x e \<and> newest (held x) (ents s) = Some e"
proof -
  obtain e where "newest (held x) (ents s) = Some e" "seg_ID e = sid"
    using assms by (auto simp: lookup_newest)
  then show ?thesis using newest_SomeD[of "held x" "ents s" e] by blast
qed

lemma range_ids:
  assumes "ok s" shows "fst ` set (range s) = resident_ids (ents s)"
proof -
  have "x \<in> fst ` set (range s) \<longleftrightarrow> (\<exists>sid. (x, sid) \<in> set (range s))" for x by force
  then have "x \<in> fst ` set (range s) \<longleftrightarrow> newest (held x) (ents s) \<noteq> None" for x
    using assms by (simp add: range_lookup lookup_newest)
  then show ?thesis by (auto simp: newest_None_iff resident_ids_def held_iff)
qed

lemma size_range:
  assumes "ok s"
  shows "size_of s = int (length (range s))"
proof -
  have "card (set (map fst (range s))) = length (map fst (range s))"
    using range_distinct[OF assms] by (rule distinct_card)
  then show ?thesis using range_ids[OF assms] size_card[OF assms] by simp
qed

end

interpretation route: snapshot_route set_ok entries routeOf rangeRoute distinctN
proof
  show "routeOf s x = map_option seg_ID (newest (held x) (entries s))" if "set_ok s" for s :: "('a, 'b) segmentSet" and x
    using that by (simp add: routeOf_flat flat_answer_def)
qed (auto simp: rangeRoute_spec set_ok_def)

section \<open>Properties\<close>

text \<open>The entry that stands for a list of ids under the reference format, at a bitset address.\<close>

definition ids_entry :: "SegmentID \<Rightarrow> nat \<Rightarrow> ExternalID list \<Rightarrow> ExternalID list segmentEntry" where
  "ids_entry sid addr ids =
     \<lparr>payload = ids, live = addr, members = zip ids (map int [0..<length ids]),
      meta = \<lparr>mt_ID = sid, mt_Format = ''ids'', mt_Generation = 0,
              mt_DocCount = int (length ids), mt_DeadCount = 0\<rparr>,
      sup_record = \<lparr>Superseded = [], Cohort = []\<rparr>, heapPayload = 0\<rparr>"

lemma ids_entry_simps [simp]:
  "seg_ID (ids_entry sid a ids) = sid" "live (ids_entry sid a ids) = a" "payload (ids_entry sid a ids) = ids"
  "heapPayload (ids_entry sid a ids) = 0" "mt_DocCount (meta (ids_entry sid a ids)) = int (length ids)"
  by (simp_all add: ids_entry_def)

lemma ids_entry_ok [simp]: "distinct ids \<Longrightarrow> gomap_ok (members (ids_entry sid a ids))"
  by (simp add: ids_entry_def gomap_ok_def)

lemma gm_keys_ids_entry [simp]: "gm_keys (members (ids_entry sid a ids)) = set ids"
  by (simp add: ids_entry_def gm_keys_def flip: set_map)

lemma held_ids_entry [simp]: "held x (ids_entry sid a ids) \<longleftrightarrow> x \<in> set ids"
  by (simp add: held_iff)



text \<open>
  publishing by append is copy-on-write and newest-append-wins. The derived snapshot
  is well-formed, the appended segment answers for every id it holds, every other lookup is
  the receiver's, the distinct count grows by the ids that were not resident, and the
  statistics are those of the longer list, whether the append flattened the route or not.
\<close>

lemma withAppended_newest_wins:
  assumes "set_ok s" "gomap_ok (members e)" "stats_agree f" "stats_ok f s"
  shows "set_ok (withAppended f s e) \<and> stats_ok f (withAppended f s e) \<and>
    entries (withAppended f s e) = entries s @ [e] \<and>
    routeOf (withAppended f s e) x = (if held x e then Some (seg_ID e) else routeOf s x) \<and>
    distinctN (withAppended f s e) =
      distinctN s + int (card (gm_keys (members e) - resident_ids (entries s)))"
proof -
  have ok: "set_ok (withAppended f s e)" using assms by (simp add: set_ok_withAppended)
  have "card (resident_ids (entries s) \<union> gm_keys (members e)) =
      card (resident_ids (entries s)) + card (gm_keys (members e) - resident_ids (entries s))"
    by (simp add: card_Un_disjoint[symmetric])
  then have "distinctN (withAppended f s e) =
      distinctN s + int (card (gm_keys (members e) - resident_ids (entries s)))"
    using ok assms(1) by (simp add: set_ok_def)
  then show ?thesis
    using ok assms by (simp add: stats_ok_withAppended routeOf_flat flat_answer_def)
qed

lemma withAppended_newest_wins_witness:
  "routeOf (withAppended ids_format (newSegmentSet ids_format [ids_entry ''A'' 0 [''x'']]) (ids_entry ''B'' 1 [''x''])) ''x'' = Some ''B''"
  using withAppended_newest_wins[of "newSegmentSet ids_format [ids_entry ''A'' 0 [''x'']]" "ids_entry ''B'' 1 [''x'']" ids_format "''x''"]
  by (simp add: set_ok_new entries_ok_def)

text \<open>
  A remap is unobservable. Replacing the payloads of resident segments keeps the
  snapshot well-formed, answers every lookup and every residency count as before, and
  re-folds the statistics over the new payloads.
\<close>

lemma withReplacedPayloads_unobservable:
  assumes "set_ok s" "remap_ok (entries s) repl"
  shows "set_ok (withReplacedPayloads f s repl) \<and> stats_ok f (withReplacedPayloads f s repl) \<and>
    routeOf (withReplacedPayloads f s repl) x = routeOf s x \<and>
    distinctN (withReplacedPayloads f s repl) = distinctN s \<and>
    map (\<lambda>e. (meta e, members e, live e)) (entries (withReplacedPayloads f s repl)) =
    map (\<lambda>e. (meta e, members e, live e)) (entries s)"
proof -
  note all2 = remap_list_all2[OF assms(2), of f]
  have ok: "set_ok (withReplacedPayloads f s repl)" using assms by (rule set_ok_withReplacedPayloads)
  have "rel_option same_seg (newest (held x) (entries (withReplacedPayloads f s repl))) (newest (held x) (entries s))"
    by (rule newest_same_seg) (rule all2)
  then have "flat_answer (entries (withReplacedPayloads f s repl)) x = flat_answer (entries s) x"
    by (simp add: flat_answer_def same_seg_map_ID)
  moreover have "distinctN (withReplacedPayloads f s repl) = distinctN s"
    by (simp add: withReplacedPayloads_def Let_def)
  ultimately show ?thesis
    using ok assms(1) all2 same_seg_map[OF all2] by (simp add: routeOf_flat)
qed

lemma withReplacedPayloads_unobservable_witness:
  "routeOf (withReplacedPayloads ids_format (newSegmentSet ids_format [ids_entry ''A'' 0 [''x'']])
      [(0, (ids_entry ''A'' 0 [''x''])\<lparr>payload := [], heapPayload := 7\<rparr>)]) ''x'' =
   routeOf (newSegmentSet ids_format [ids_entry ''A'' 0 [''x'']]) ''x''"
  using withReplacedPayloads_unobservable[of "newSegmentSet ids_format [ids_entry ''A'' 0 [''x'']]"
      "[(0, (ids_entry ''A'' 0 [''x''])\<lparr>payload := [], heapPayload := 7\<rparr>)]" ids_format "''x''"]
  by (simp add: set_ok_new entries_ok_def remap_ok_def same_seg_def)

text \<open>
  a group swap removes and adds in one snapshot: the new snapshot is well-formed, its
  entries are the survivors followed by the outputs, no removed segment is listed unless an
  output carries its id, and a lookup answers an output before any survivor.
\<close>

lemma withReplacedGroup_one_swap:
  assumes "set_ok s" "entries_ok added"
  shows "set_ok (withReplacedGroup f s R added) \<and> stats_ok f (withReplacedGroup f s R added) \<and>
    (\<forall>sid. sid \<in> seg_ID ` set (entries (withReplacedGroup f s R added)) \<longleftrightarrow>
       sid \<in> seg_ID ` set added \<or> (sid \<in> seg_ID ` set (entries s) \<and> sid \<notin> set R)) \<and>
    routeOf (withReplacedGroup f s R added) x =
      (case newest (held x) added of Some e \<Rightarrow> Some (seg_ID e)
       | None \<Rightarrow> flat_answer (filter (\<lambda>e. seg_ID e \<notin> set R) (entries s)) x)"
  using set_ok_withReplacedGroup[OF assms]
  by (auto simp: routeOf_flat flat_answer_def newest_append split: option.splits)

lemma withReplacedGroup_one_swap_witness:
  "routeOf (withReplacedGroup ids_format (newSegmentSet ids_format [ids_entry ''A'' 0 [''x'', ''y'']]) [''A'']
      [ids_entry ''B'' 1 [''x''], ids_entry ''C'' 2 [''y'']]) ''y'' = Some ''C''"
  using withReplacedGroup_one_swap[of "newSegmentSet ids_format [ids_entry ''A'' 0 [''x'', ''y'']]"
      "[ids_entry ''B'' 1 [''x''], ids_entry ''C'' 2 [''y'']]" ids_format "[''A'']" "''y''"]
  by (simp add: set_ok_new entries_ok_def newest_def)

end
