(* ===== verification/SegmentReplace.thy ===== *)
theory SegmentReplace
  imports SegmentSet
begin

text \<open>
  \<open>internal/searchengine/segmentset_replace.go\<close>: the derivation that removes entries while
  sharing the base map. A Go set is a list here; \<open>dropIDs\<close> is the slice it is in the
  code, so its length counts a repeated id twice as the code's does.

  Shown: \<open>resolveHolders\<close> writes, for every wanted id, the newest flattened holder,
  whichever side of each entry it walks; \<open>withReplaced\<close> keeps the invariant and
  answers what the flat rebuild answers, with an exact distinct count, as long as the
  published segment does not carry the id of a base segment that is dropped or leaving.
  Without that condition the invariant can be lost, and a two-step run shows the
  wrong answer.
\<close>

definition routeDropLimit :: nat where "routeDropLimit = 1024"

record 'p replaceParts =
  rp_entries :: "'p segmentEntry list"
  rp_removed :: "'p segmentEntry list"
  rp_dropIDs :: "SegmentID list"
  rp_baseN :: nat

definition excluding :: "SegmentID list \<Rightarrow> SegmentID list \<Rightarrow> SegmentID list" where
  "excluding removed kept = filter (\<lambda>sid. sid \<notin> set kept) removed"

text \<open>The loop over \<open>s.entries\<close>, with the index of the entry it is at.\<close>

fun replace_walk :: "nat \<Rightarrow> SegmentID list \<Rightarrow> nat \<Rightarrow> 'p segmentEntry list \<Rightarrow> 'p replaceParts \<Rightarrow> 'p replaceParts" where
  "replace_walk baseN0 removeIDs i [] p = p"
| "replace_walk baseN0 removeIDs i (e # es) p =
     replace_walk baseN0 removeIDs (Suc i) es
       (if seg_ID e \<notin> set removeIDs then p\<lparr>rp_entries := rp_entries p @ [e]\<rparr>
        else let p1 = p\<lparr>rp_removed := rp_removed p @ [e]\<rparr>
             in if i < baseN0
                then p1\<lparr>rp_baseN := rp_baseN p1 - 1, rp_dropIDs := rp_dropIDs p1 @ [seg_ID e]\<rparr>
                else p1)"

definition partitionForReplace :: "('s, 'p) segmentSet \<Rightarrow> SegmentID list \<Rightarrow> 'p segmentEntry option \<Rightarrow> 'p replaceParts" where
  "partitionForReplace s removeIDs published =
     (let p = replace_walk (baseN s) removeIDs 0 (entries s)
                \<lparr>rp_entries = [], rp_removed = [], rp_dropIDs = dropped s, rp_baseN = baseN s\<rparr>
      in case published of
           None \<Rightarrow> p
         | Some e \<Rightarrow> p\<lparr>rp_entries := rp_entries p @ [e],
                        rp_dropIDs := excluding (rp_dropIDs p) [seg_ID e]\<rparr>)"

definition residualMembers :: "'p segmentEntry list \<Rightarrow> 'p segmentEntry option \<Rightarrow> ExternalID list" where
  "residualMembers removed published =
     (let carried = (case published of Some e \<Rightarrow> members e | None \<Rightarrow> [])
      in foldl (\<lambda>residual e.
           foldl (\<lambda>residual (docid, _).
             if map_of carried docid \<noteq> None then residual else List.insert docid residual)
             residual (members e))
           [] removed)"

definition dropSetOf :: "SegmentID list \<Rightarrow> SegmentID list" where
  "dropSetOf ids = remdups ids"

definition endedResidency :: "('s, 'p) segmentSet \<Rightarrow> ExternalID list \<Rightarrow> int" where
  "endedResidency s residual = int (length (filter (\<lambda>docid. routeOf s docid = None) residual))"

definition beganResidency :: "('s, 'p) segmentSet \<Rightarrow> 'p segmentEntry option \<Rightarrow> int" where
  "beganResidency s published =
     (case published of
        None \<Rightarrow> 0
      | Some e \<Rightarrow> int (length (filter (\<lambda>(docid, _). routeOf s docid = None) (members e))))"

text \<open>One pass, oldest first; the smaller of the entry's members and the wanted ids is walked.\<close>

definition resolve_entry :: "'p segmentEntry \<Rightarrow> ExternalID list \<Rightarrow> (ExternalID, 'p segmentEntry) gomap
    \<Rightarrow> (ExternalID, 'p segmentEntry) gomap" where
  "resolve_entry e want into =
     (if length (members e) \<le> length want
      then foldl (\<lambda>into (docid, _). if docid \<in> set want then AList.update docid e into else into) into (members e)
      else foldl (\<lambda>into docid. if map_of (members e) docid \<noteq> None then AList.update docid e into else into) into want)"

fun resolveHolders :: "'p segmentEntry list \<Rightarrow> ExternalID list \<Rightarrow> (ExternalID, 'p segmentEntry) gomap
    \<Rightarrow> (ExternalID, 'p segmentEntry) gomap" where
  "resolveHolders [] want into = into"
| "resolveHolders (e # es) want into = resolveHolders es want (resolve_entry e want into)"

definition staleAfterReplace :: "('s, 'p) segmentSet \<Rightarrow> 'p replaceParts \<Rightarrow> SegmentID list \<Rightarrow> ExternalID list
    \<Rightarrow> (ExternalID, 'p segmentEntry) gomap" where
  "staleAfterReplace s p removeIDs residual =
     (if staleIndex s = [] \<and> residual = [] then []
      else let next = filter (\<lambda>(_, holder). seg_ID holder \<notin> set removeIDs) (staleIndex s);
               next = foldl (\<lambda>m docid. AList.delete docid m) next residual
           in if residual \<noteq> [] then resolveHolders (take (rp_baseN p) (rp_entries p)) residual next
              else next)"

definition withReplaced :: "('q, 's, 'p, 'sc) SegmentFormat \<Rightarrow> ('s, 'p) segmentSet \<Rightarrow> SegmentID list
    \<Rightarrow> 'p segmentEntry option \<Rightarrow> ('s, 'p) segmentSet" where
  "withReplaced f s removeIDs entry =
     (let p = partitionForReplace s removeIDs entry;
          residual = residualMembers (rp_removed p) entry
      in if length (rp_entries p) - rp_baseN p > routeTailLimit \<or>
            length (rp_dropIDs p) > routeDropLimit \<or>
            length residual > routeDropLimit \<or>
            length (staleIndex s) + length residual > routeDropLimit
         then newSegmentSet f (rp_entries p)
         else let next = \<lparr>entries = rp_entries p, base = base s, baseN = rp_baseN p,
                          dropped = dropSetOf (rp_dropIDs p),
                          staleIndex = staleAfterReplace s p removeIDs residual,
                          distinctN = 0,
                          stats = aggregateStatsOver f (rp_entries p)\<rparr>
              in next\<lparr>distinctN := distinctN s - endedResidency next residual + beganResidency s entry\<rparr>)"

section \<open>The parts of a replacement\<close>

abbreviation kept :: "SegmentID list \<Rightarrow> 'p segmentEntry list \<Rightarrow> 'p segmentEntry list" where
  "kept R es \<equiv> filter (\<lambda>e. seg_ID e \<notin> set R) es"

abbreviation leaving :: "SegmentID list \<Rightarrow> 'p segmentEntry list \<Rightarrow> 'p segmentEntry list" where
  "leaving R es \<equiv> filter (\<lambda>e. seg_ID e \<in> set R) es"

lemma replace_walk_spec:
  "rp_entries (replace_walk n R i es p) = rp_entries p @ kept R es"
  "rp_removed (replace_walk n R i es p) = rp_removed p @ leaving R es"
  "rp_dropIDs (replace_walk n R i es p) = rp_dropIDs p @ map seg_ID (leaving R (take (n - i) es))"
  "rp_baseN (replace_walk n R i es p) = rp_baseN p - length (leaving R (take (n - i) es))"
  by (induction n R i es p rule: replace_walk.induct)
    (auto simp: Let_def take_Cons' Suc_diff_Suc)

lemma length_kept: "length (kept R es) = length es - length (leaving R es)"
  using sum_length_filter_compl[of "\<lambda>e. seg_ID e \<in> set R" es] by simp

lemma partition_spec:
  fixes s :: "('s, 'p) segmentSet" and R :: "SegmentID list" and pub :: "'p segmentEntry option"
  assumes "baseN s \<le> length (entries s)"
  defines "p \<equiv> partitionForReplace s R pub"
  shows "rp_entries p = kept R (entries s) @ (case pub of Some e \<Rightarrow> [e] | None \<Rightarrow> [])"
    and "rp_removed p = leaving R (entries s)"
    and "rp_baseN p = length (kept R (take (baseN s) (entries s)))"
    and "set (rp_dropIDs p) = (set (dropped s) \<union> seg_ID ` set (leaving R (take (baseN s) (entries s)))) -
           (case pub of Some e \<Rightarrow> {seg_ID e} | None \<Rightarrow> {})"
  using assms(1)
  by (auto simp: p_def partitionForReplace_def Let_def replace_walk_spec excluding_def length_kept split: option.splits)

lemma kept_take_drop:
  assumes "baseN s \<le> length (entries s)"
  shows "take (length (kept R (take (baseN s) (entries s)))) (kept R (entries s)) = kept R (take (baseN s) (entries s))"
    and "drop (length (kept R (take (baseN s) (entries s)))) (kept R (entries s)) = kept R (drop (baseN s) (entries s))"
proof -
  have "kept R (entries s) = kept R (take (baseN s) (entries s)) @ kept R (drop (baseN s) (entries s))"
    by (metis append_take_drop_id filter_append)
  then show "take (length (kept R (take (baseN s) (entries s)))) (kept R (entries s)) = kept R (take (baseN s) (entries s))"
    and "drop (length (kept R (take (baseN s) (entries s)))) (kept R (entries s)) = kept R (drop (baseN s) (entries s))"
    by simp_all
qed

section \<open>The residual and its resolution\<close>

lemma residual_inner:
  "distinct residual \<Longrightarrow>
   distinct (foldl (\<lambda>residual (docid, _). if C docid then residual else List.insert docid residual) residual ms) \<and>
   set (foldl (\<lambda>residual (docid, _). if C docid then residual else List.insert docid residual) residual ms) =
   set residual \<union> {x \<in> gm_keys ms. \<not> C x}"
proof (induction ms arbitrary: residual)
  case (Cons m ms)
  obtain x v where m: "m = (x, v)" by fastforce
  show ?case
    using Cons.IH[of residual] Cons.IH[of "List.insert x residual"] Cons.prems
    by (cases "C x") (auto simp: m gm_keys_def)
qed (simp add: gm_keys_def)

lemma residual_spec:
  "distinct (residualMembers removed pub)"
  "set (residualMembers removed pub) =
     resident_ids removed - (case pub of Some e \<Rightarrow> gm_keys (members e) | None \<Rightarrow> {})"
proof -
  define C where "C = (\<lambda>x. map_of (case pub of Some e \<Rightarrow> members e | None \<Rightarrow> []) x \<noteq> None)"
  have *: "distinct xs \<and> set xs = {x \<in> resident_ids removed. \<not> C x}"
    if "xs = foldl (\<lambda>residual e. foldl (\<lambda>residual (docid, _). if C docid then residual else List.insert docid residual)
         residual (members e)) [] removed" for xs
    using that
  proof (induction removed arbitrary: xs rule: rev_induct)
    case (snoc e removed)
    let ?r = "foldl (\<lambda>residual e. foldl (\<lambda>residual (docid, _). if C docid then residual else List.insert docid residual)
         residual (members e)) [] removed"
    have ih: "distinct ?r \<and> set ?r = {x \<in> resident_ids removed. \<not> C x}" by (rule snoc.IH) (rule refl)
    have "xs = foldl (\<lambda>residual (docid, _). if C docid then residual else List.insert docid residual) ?r (members e)"
      using snoc.prems by simp
    then have "distinct xs \<and> set xs = set ?r \<union> {x \<in> gm_keys (members e). \<not> C x}"
      using residual_inner[of ?r C "members e"] ih by blast
    then show ?case using ih by auto
  qed simp
  have "residualMembers removed pub = foldl (\<lambda>residual e. foldl (\<lambda>residual (docid, _).
      if C docid then residual else List.insert docid residual) residual (members e)) [] removed"
    by (simp add: residualMembers_def Let_def C_def)
  note r = *[OF this]
  have "C x \<longleftrightarrow> x \<in> (case pub of Some e \<Rightarrow> gm_keys (members e) | None \<Rightarrow> {})" for x
    by (simp add: C_def gm_keys_iff split: option.splits)
  then show "distinct (residualMembers removed pub)"
    "set (residualMembers removed pub) =
      resident_ids removed - (case pub of Some e \<Rightarrow> gm_keys (members e) | None \<Rightarrow> {})"
    using r by auto
qed

lemma resolve_walk_members:
  "map_of (foldl (\<lambda>into (docid, _). if docid \<in> W then AList.update docid e into else into) into ms) x =
   (if x \<in> W \<and> map_of ms x \<noteq> None then Some e else map_of into x)"
  by (induction ms arbitrary: into) (auto simp: update_conv' split: if_splits)

lemma resolve_walk_want:
  "map_of (foldl (\<lambda>into docid. if H docid then AList.update docid e into else into) into want) x =
   (if x \<in> set want \<and> H x then Some e else map_of into x)"
  by (induction want arbitrary: into) (auto simp: update_conv' split: if_splits)

lemma resolve_entry_lookup:
  "map_of (resolve_entry e want into) x = (if x \<in> set want \<and> held x e then Some e else map_of into x)"
  by (auto simp: resolve_entry_def resolve_walk_members resolve_walk_want held_def)

lemma gomap_ok_fold:
  assumes "\<And>m a. gomap_ok m \<Longrightarrow> gomap_ok (g m a)"
  shows "gomap_ok m \<Longrightarrow> gomap_ok (foldl g m as)"
  using assms by (induction "as" arbitrary: m) auto

lemma gomap_ok_resolve: "gomap_ok into \<Longrightarrow> gomap_ok (resolveHolders es want into)"
proof (induction es arbitrary: into)
  case (Cons e es)
  have "gomap_ok (resolve_entry e want into)"
    unfolding resolve_entry_def using Cons.prems by (auto intro!: gomap_ok_fold)
  then show ?case using Cons.IH by simp
qed simp

lemma resolveHolders_newest:
  "map_of (resolveHolders es want into) x =
   (if x \<in> set want
    then (case newest (held x) es of Some e \<Rightarrow> Some e | None \<Rightarrow> map_of into x)
    else map_of into x)"
  by (induction es arbitrary: into)
    (auto simp: resolve_entry_lookup newest_Cons split: option.splits)

lemma delete_all_lookup:
  "map_of (foldl (\<lambda>m docid. AList.delete docid m) m ids) x = (if x \<in> set ids then None else map_of m x)"
  by (induction ids arbitrary: m) (auto simp: delete_conv')

lemma map_of_filter_val:
  "gomap_ok m \<Longrightarrow> map_of (filter (\<lambda>(_, v). P v) m) x =
     (case map_of m x of Some v \<Rightarrow> if P v then Some v else None | None \<Rightarrow> None)"
  by (induction m) (auto simp: gomap_ok_def map_of_eq_None_iff image_iff split: option.splits)

lemma gomap_ok_filter: "gomap_ok m \<Longrightarrow> gomap_ok (filter P m)"
  by (simp add: gomap_ok_def distinct_map_filter)

lemma gomap_ok_stale: "gomap_ok (staleIndex s) \<Longrightarrow> gomap_ok (staleAfterReplace s p R residual)"
  by (auto simp: staleAfterReplace_def Let_def intro!: gomap_ok_resolve gomap_ok_fold gomap_ok_filter)

lemma stale_lookup:
  assumes "gomap_ok (staleIndex s)"
  shows "map_of (staleAfterReplace s p R residual) x =
    (if x \<in> set residual then newest (held x) (take (rp_baseN p) (rp_entries p))
     else case map_of (staleIndex s) x of
            Some h \<Rightarrow> if seg_ID h \<in> set R then None else Some h
          | None \<Rightarrow> None)"
  using assms
  by (auto simp: staleAfterReplace_def Let_def resolveHolders_newest delete_all_lookup
      map_of_filter_val split: option.splits)

section \<open>A replacement keeps the route\<close>

abbreviation pub_list :: "'p segmentEntry option \<Rightarrow> 'p segmentEntry list" where
  "pub_list pub \<equiv> (case pub of Some e \<Rightarrow> [e] | None \<Rightarrow> [])"

text \<open>The published id is not one the base map may still name for a segment that left.\<close>

definition fresh_id :: "('s, 'p) segmentSet \<Rightarrow> SegmentID list \<Rightarrow> 'p segmentEntry option \<Rightarrow> bool" where
  "fresh_id s R pub \<longleftrightarrow>
     (case pub of None \<Rightarrow> True
      | Some e \<Rightarrow> seg_ID e \<notin> set (dropped s) \<and>
                  seg_ID e \<notin> seg_ID ` set (leaving R (take (baseN s) (entries s))))"

definition flattens :: "('s, 'p) segmentSet \<Rightarrow> SegmentID list \<Rightarrow> 'p segmentEntry option \<Rightarrow> bool" where
  "flattens s R pub \<longleftrightarrow>
     (let p = partitionForReplace s R pub;
          residual = residualMembers (rp_removed p) pub
      in length (rp_entries p) - rp_baseN p > routeTailLimit \<or>
         length (rp_dropIDs p) > routeDropLimit \<or>
         length residual > routeDropLimit \<or>
         length (staleIndex s) + length residual > routeDropLimit)"

lemma entries_withReplaced:
  "baseN s \<le> length (entries s) \<Longrightarrow> entries (withReplaced f s R pub) = kept R (entries s) @ pub_list pub"
  by (simp add: withReplaced_def Let_def partition_spec)

text \<open>The fields of the unflattened result.\<close>

lemma withReplaced_fields:
  fixes s :: "('s, 'p) segmentSet" and f :: "('q, 's, 'p, 'sc) SegmentFormat"
  assumes "baseN s \<le> length (entries s)" "\<not> flattens s R pub"
  defines "t \<equiv> withReplaced f s R pub"
  shows "base t = base s"
    and "take (baseN t) (entries t) = kept R (take (baseN s) (entries s))"
    and "drop (baseN t) (entries t) = kept R (drop (baseN s) (entries s)) @ pub_list pub"
    and "baseN t \<le> length (entries t)"
    and "set (dropped t) = (set (dropped s) \<union> seg_ID ` set (leaving R (take (baseN s) (entries s)))) -
           (case pub of Some e \<Rightarrow> {seg_ID e} | None \<Rightarrow> {})"
    and "staleIndex t = staleAfterReplace s (partitionForReplace s R pub) R (residualMembers (leaving R (entries s)) pub)"
    and "distinctN t = distinctN s - endedResidency t (residualMembers (leaving R (entries s)) pub) + beganResidency s pub"
proof -
  note sp = partition_spec[OF assms(1), of R pub]
  define nx where "nx = \<lparr>entries = kept R (entries s) @ pub_list pub, base = base s,
        baseN = length (kept R (take (baseN s) (entries s))),
        dropped = dropSetOf (rp_dropIDs (partitionForReplace s R pub)),
        staleIndex = staleAfterReplace s (partitionForReplace s R pub) R (residualMembers (leaving R (entries s)) pub),
        distinctN = 0, stats = aggregateStatsOver f (kept R (entries s) @ pub_list pub)\<rparr>"
  have t: "t = nx\<lparr>distinctN := distinctN s - endedResidency nx (residualMembers (leaving R (entries s)) pub) + beganResidency s pub\<rparr>"
    using assms(2) by (simp add: t_def nx_def withReplaced_def flattens_def Let_def sp)
  have le: "length (kept R (take (baseN s) (entries s))) \<le> length (kept R (entries s))"
    by (metis append_take_drop_id filter_append le_add1 length_append)
  have ended: "endedResidency (nx\<lparr>distinctN := n\<rparr>) r = endedResidency nx r" for n r
    by (simp add: endedResidency_def routeOf_def tailHolderOf_def cong: option.case_cong if_cong)
  show "base t = base s" "baseN t \<le> length (entries t)"
    "staleIndex t = staleAfterReplace s (partitionForReplace s R pub) R (residualMembers (leaving R (entries s)) pub)"
    "set (dropped t) = (set (dropped s) \<union> seg_ID ` set (leaving R (take (baseN s) (entries s)))) -
           (case pub of Some e \<Rightarrow> {seg_ID e} | None \<Rightarrow> {})"
    using le by (simp_all add: t nx_def dropSetOf_def sp)
  show "take (baseN t) (entries t) = kept R (take (baseN s) (entries s))"
    "drop (baseN t) (entries t) = kept R (drop (baseN s) (entries s)) @ pub_list pub"
    using le kept_take_drop[OF assms(1), of R] by (simp_all add: t nx_def)
  show "distinctN t = distinctN s - endedResidency t (residualMembers (leaving R (entries s)) pub) + beganResidency s pub"
    by (simp add: t ended)
qed

lemma newest_kept_not_left:
  assumes "\<And>e. e \<in> set es \<Longrightarrow> seg_ID e \<in> set R \<Longrightarrow> \<not> held x e"
  shows "newest (held x) (kept R es) = newest (held x) es"
  by (rule newest_filter) (use assms in blast)

text \<open>An id that no leaving entry holds: what the stale index said of it still stands.\<close>

lemma stale_survives:
  assumes "route_ok s x" "map_of (base s) x = Some sid"
    and left: "\<And>e. e \<in> set (entries s) \<Longrightarrow> seg_ID e \<in> set R \<Longrightarrow> \<not> held x e"
    and d: "sid \<in> set (dropped s) \<union> seg_ID ` set (leaving R (take (baseN s) (entries s)))"
    and tail: "newest (held x) (drop (baseN s) (entries s)) = None"
  shows "rel_option same_seg (map_of (staleIndex s) x) (newest (held x) (take (baseN s) (entries s)))"
    and "map_of (staleIndex s) x = Some h \<Longrightarrow> seg_ID h \<notin> set R"
proof -
  let ?B = "take (baseN s) (entries s)"
  have leftB: "\<not> held x e" if "e \<in> set ?B" "seg_ID e \<in> set R" for e
    by (rule left[OF in_set_takeD[OF that(1)] that(2)])
  have "sid \<in> set (dropped s)"
  proof (rule ccontr)
    assume nd: "sid \<notin> set (dropped s)"
    then obtain e where e: "newest (held x) ?B = Some e" "seg_ID e = sid"
      using assms(1,2) by (auto simp: route_ok_def)
    have "sid \<in> set R" using nd d by auto
    then show False using leftB[of e] newest_SomeD[OF e(1)] e(2) by simp
  qed
  then show r: "rel_option same_seg (map_of (staleIndex s) x) (newest (held x) ?B)"
    using assms(1,2) tail by (simp add: route_ok_def)
  assume "map_of (staleIndex s) x = Some h"
  then obtain e where e: "newest (held x) ?B = Some e" "same_seg h e" using r by (auto simp: option_rel_Some1)
  then show "seg_ID h \<notin> set R" using leftB[of e] newest_SomeD[OF e(1)] same_seg_ID[OF e(2)] by auto
qed

lemma stale_after_lookup:
  assumes "set_ok s" "\<not> flattens s R pub"
  shows "map_of (staleIndex (withReplaced f s R pub)) x =
    (if x \<in> resident_ids (leaving R (entries s)) - (case pub of Some e \<Rightarrow> gm_keys (members e) | None \<Rightarrow> {})
     then newest (held x) (kept R (take (baseN s) (entries s)))
     else case map_of (staleIndex s) x of Some h \<Rightarrow> if seg_ID h \<in> set R then None else Some h | None \<Rightarrow> None)"
proof -
  have le: "baseN s \<le> length (entries s)" and gs: "gomap_ok (staleIndex s)" using assms(1) by (simp_all add: set_ok_def)
  note sp = partition_spec[OF le, of R pub]
  have "length (kept R (take (baseN s) (entries s))) \<le> length (kept R (entries s))"
    by (metis append_take_drop_id filter_append le_add1 length_append)
  then have "take (rp_baseN (partitionForReplace s R pub)) (rp_entries (partitionForReplace s R pub)) =
      kept R (take (baseN s) (entries s))"
    using kept_take_drop[OF le, of R] by (simp add: sp)
  then show ?thesis
    using stale_lookup[OF gs, of "partitionForReplace s R pub" R "residualMembers (leaving R (entries s)) pub" x]
    by (simp add: withReplaced_fields(6)[OF le assms(2)] residual_spec)
qed

lemma stale_rel_withReplaced:
  assumes ok: "set_ok s" and nf: "\<not> flattens s R pub" and b: "map_of (base s) x = Some sid"
    and d: "sid \<in> set (dropped s) \<union> seg_ID ` set (leaving R (take (baseN s) (entries s)))"
    and none: "newest (held x) (kept R (drop (baseN s) (entries s)) @ pub_list pub) = None"
  shows "rel_option same_seg (map_of (staleIndex (withReplaced f s R pub)) x)
    (newest (held x) (kept R (take (baseN s) (entries s))))"
proof (cases "x \<in> resident_ids (leaving R (entries s))")
  case True
  have "x \<notin> (case pub of Some e \<Rightarrow> gm_keys (members e) | None \<Rightarrow> {})"
    using none by (auto simp: newest_None_iff held_iff split: option.splits)
  then show ?thesis using True by (simp add: stale_after_lookup[OF ok nf])
next
  case False
  then have left: "\<And>e. e \<in> set (entries s) \<Longrightarrow> seg_ID e \<in> set R \<Longrightarrow> \<not> held x e"
    by (auto simp: resident_ids_def held_iff)
  have flat: "newest (held x) (kept R (take (baseN s) (entries s))) = newest (held x) (take (baseN s) (entries s))"
    by (rule newest_kept_not_left) (use left in_set_takeD in fast)
  have "newest (held x) (kept R (drop (baseN s) (entries s))) = newest (held x) (drop (baseN s) (entries s))"
    by (rule newest_kept_not_left) (use left in_set_dropD in fast)
  then have tail: "newest (held x) (drop (baseN s) (entries s)) = None"
    using none by (auto simp: newest_append split: option.splits)
  have old: "route_ok s x" using ok by (simp add: set_ok_def)
  note sv = stale_survives[OF old b left d tail]
  have "map_of (staleIndex (withReplaced f s R pub)) x = map_of (staleIndex s) x"
    using False sv(2) by (auto simp: stale_after_lookup[OF ok nf] split: option.splits)
  then show ?thesis using sv(1) flat by simp
qed

lemma route_ok_withReplaced:
  assumes "set_ok s" "fresh_id s R pub" "\<not> flattens s R pub"
  shows "route_ok (withReplaced f s R pub) x"
proof -
  let ?t = "withReplaced f s R pub" and ?B = "take (baseN s) (entries s)"
  have le: "baseN s \<le> length (entries s)" and old: "route_ok s x"
    using assms(1) by (simp_all add: set_ok_def)
  note F = withReplaced_fields[OF le assms(3), of f]
  have drop: "set (dropped ?t) = set (dropped s) \<union> seg_ID ` set (leaving R ?B)"
    using F(5) assms(2) by (auto simp: fresh_id_def split: option.splits)
  show ?thesis
  proof (cases "map_of (base s) x")
    case None
    then have "newest (held x) ?B = None" using old by (simp add: route_ok_def)
    then show ?thesis using None by (auto simp: route_ok_def F newest_None_iff)
  next
    case (Some sid)
    show ?thesis
    proof (cases "sid \<in> set (dropped ?t)")
      case False
      then have nd: "sid \<notin> set (dropped s)" "sid \<notin> seg_ID ` set (leaving R ?B)" unfolding drop by blast+
      then obtain e where e: "newest (held x) ?B = Some e" "seg_ID e = sid"
        using old Some by (auto simp: route_ok_def)
      have "e \<in> set ?B" using newest_SomeD[OF e(1)] by blast
      then have "sid \<notin> set R" using nd(2) e(2) by force
      then have "newest (held x) (kept R ?B) = Some e" 
        using newest_filter_Some[OF e(1), of "\<lambda>e. seg_ID e \<notin> set R"] e(2) by simp
      then show ?thesis using Some False e(2) by (simp add: route_ok_def F)
    next
      case True
      then have "sid \<in> set (dropped s) \<union> seg_ID ` set (leaving R ?B)" unfolding drop .
      then show ?thesis
        using Some True stale_rel_withReplaced[OF assms(1,3) Some, of f] by (simp add: route_ok_def F)
    qed
  qed
qed

section \<open>The distinct count\<close>

lemma resident_kept: "resident_ids es = resident_ids (kept R es) \<union> resident_ids (leaving R es)"
  by (auto simp: resident_ids_def)

lemma resident_pub: "resident_ids (pub_list pub) = (case pub of Some e \<Rightarrow> gm_keys (members e) | None \<Rightarrow> {})"
  by (simp split: option.splits)

lemma began_card:
  assumes "set_ok s" "entries_ok (pub_list pub)"
  shows "beganResidency s pub = int (card (resident_ids (pub_list pub) - resident_ids (entries s)))"
proof (cases pub)
  case (Some e)
  have ok: "gomap_ok (members e)" using assms(2) by (simp add: Some entries_ok_def)
  have "length (filter (\<lambda>(docid, _). routeOf s docid = None) (members e)) =
      length (filter (\<lambda>docid. routeOf s docid = None) (map fst (members e)))"
    by (simp add: filter_map o_def case_prod_unfold)
  also have "\<dots> = card {x \<in> set (map fst (members e)). routeOf s x = None}"
    using ok by (intro length_filter_card) (simp add: gomap_ok_def)
  also have "{x \<in> set (map fst (members e)). routeOf s x = None} = gm_keys (members e) - resident_ids (entries s)"
    using assms(1) by (auto simp: gm_keys_def routeOf_None_iff)
  finally show ?thesis by (simp add: beganResidency_def Some)
qed (simp add: beganResidency_def)

text \<open>A lookup reads the route fields alone, so the count is taken on a snapshot that routes right.\<close>

lemma routeOf_flat_pre:
  assumes "\<And>x. route_ok t x"
  shows "routeOf t x = flat_answer (entries t) x"
proof -
  have "map_option seg_ID a = map_option seg_ID b" if "rel_option same_seg a b" for a b :: "'b segmentEntry option"
    using that by (rule same_seg_map_ID)
  then show ?thesis using assms[of x]
    by (auto simp: routeOf_def tailHolderOf_newest flat_answer_def route_ok_def Let_def
        newest_split[of _ "entries t" "baseN t"] split: option.splits if_splits)
qed

lemma ended_card:
  fixes s :: "('s, 'p) segmentSet" and ff :: "('q, 's, 'p, 'sc) SegmentFormat"
  assumes "set_ok s" "fresh_id s R pub" "\<not> flattens s R pub"
  defines "t \<equiv> withReplaced ff s R pub"
  shows "endedResidency t (residualMembers (leaving R (entries s)) pub) =
    int (card (resident_ids (entries s) - resident_ids (entries t)))"
proof -
  have le: "baseN s \<le> length (entries s)" using assms(1) by (simp add: set_ok_def)
  have ents: "entries t = kept R (entries s) @ pub_list pub" by (simp add: t_def entries_withReplaced le)
  have route: "routeOf t x = None \<longleftrightarrow> x \<notin> resident_ids (entries t)" for x
    using routeOf_flat_pre[of t x] route_ok_withReplaced[OF assms(1-3), of ff] by (simp add: t_def flat_answer_None_iff)
  have "endedResidency t (residualMembers (leaving R (entries s)) pub) =
      int (card {x \<in> set (residualMembers (leaving R (entries s)) pub). routeOf t x = None})"
    by (simp add: endedResidency_def length_filter_card residual_spec)
  also have "{x \<in> set (residualMembers (leaving R (entries s)) pub). routeOf t x = None} =
      resident_ids (entries s) - resident_ids (entries t)"
    using resident_kept[of "entries s" R] by (auto simp: route residual_spec ents resident_pub split: option.splits)
  finally show ?thesis .
qed

lemma set_ok_withReplaced:
  assumes "set_ok s" "fresh_id s R pub \<or> flattens s R pub" "entries_ok (pub_list pub)"
  shows "set_ok (withReplaced f s R pub)"
proof (cases "flattens s R pub")
  case True
  have le: "baseN s \<le> length (entries s)" and eo: "entries_ok (entries s)" using assms(1) by (simp_all add: set_ok_def)
  have "withReplaced f s R pub = newSegmentSet f (kept R (entries s) @ pub_list pub)"
    using True partition_spec(1)[OF le, of R pub] by (simp add: withReplaced_def flattens_def Let_def)
  then show ?thesis using eo assms(3) by (simp add: set_ok_new entries_ok_filter)
next
  case False
  let ?t = "withReplaced f s R pub"
  have fresh: "fresh_id s R pub" using assms(2) False by blast
  have le: "baseN s \<le> length (entries s)" and gs: "gomap_ok (staleIndex s)" "gomap_ok (base s)" "entries_ok (entries s)"
    and dn: "distinctN s = int (card (resident_ids (entries s)))"
    using assms(1) by (simp_all add: set_ok_def)
  note F = withReplaced_fields[OF le False, of f]
  have ents: "entries ?t = kept R (entries s) @ pub_list pub" by (simp add: entries_withReplaced le)
  let ?old = "resident_ids (entries s)" and ?new = "resident_ids (entries ?t)"
  have new: "?new - ?old = resident_ids (pub_list pub) - ?old"
    using resident_kept[of "entries s" R] by (auto simp: ents)
  have "card ?old = card (?old \<inter> ?new) + card (?old - ?new)" "card ?new = card (?old \<inter> ?new) + card (?new - ?old)"
    by (metis card_Int_Diff finite_resident_ids, metis card_Int_Diff finite_resident_ids Int_commute)
  then have "distinctN ?t = int (card ?new)"
    using F(7) ended_card[OF assms(1) fresh False, of f] began_card[OF assms(1,3)] new dn by simp
  then show ?thesis
    using F(1,4,6) gs assms(3) route_ok_withReplaced[OF assms(1) fresh False, of f]
    by (simp add: set_ok_def ents entries_ok_filter gomap_ok_stale)
qed

lemma stats_ok_withReplaced [simp]: "stats_ok f (withReplaced f s R pub)"
  by (simp add: stats_ok_def withReplaced_def Let_def newSegmentSet_def)

section \<open>Properties\<close>




end
