(* ===== verification/Bucket.thy ===== *)
theory Bucket
  imports Sha256
begin

text \<open>
  \<open>internal/searchengine/bucket.go\<close>: the assignment of a document id to a bucket and
  the bucket count of a corpus. Go's \<open>int\<close> is 64 bits wide; the model reads it as an
  \<open>int\<close> and keeps the \<open>uint64\<close> modulo of the hash at its width.

  Shown: a bucket number is within the count, doubling the count splits a bucket in two
  and never moves an id anywhere else, and the count is the least power of two that
  gives every bucket at most \<open>DefaultMinSegmentDocs\<close> documents, within its clamp.
\<close>

definition DefaultMinSegmentDocs :: int where "DefaultMinSegmentDocs = 1024"
definition maxBucketCount :: int where "maxBucketCount = 1024"

definition BucketOf :: "ExternalID \<Rightarrow> int \<Rightarrow> int" where
  "BucketOf docid bucketCount =
     (if bucketCount \<le> 1 then 0
      else let sum = sha256 (bytes_of docid)
           in uint ((word_of_int (be_int (take 8 sum)) :: 64 word) mod word_of_int bucketCount))"

function grow_count :: "int \<Rightarrow> int \<Rightarrow> int" where
  "grow_count needed c =
     (if c < needed \<and> c < maxBucketCount \<and> 0 < c then grow_count needed (2 * c) else c)"
  by pat_completeness auto
termination
  by (relation "measure (\<lambda>(_, c). nat (maxBucketCount - c))") (auto simp: maxBucketCount_def)

declare grow_count.simps [simp del]

text \<open>The conjunct \<open>0 < c\<close> holds at every step of the loop, which starts at 1; it makes
  the recursion well-founded for the arguments the loop never has.\<close>

definition BucketCountFor :: "int \<Rightarrow> int" where
  "BucketCountFor corpusDocs =
     (if corpusDocs \<le> 0 then 1
      else let needed = corpusDocs div DefaultMinSegmentDocs +
                        (if corpusDocs mod DefaultMinSegmentDocs \<noteq> 0 then 1 else 0)
           in grow_count needed 1)"

section \<open>Lemmas\<close>

lemma BucketOf_mod:
  assumes "1 < n" "n < 2 ^ 63"
  shows "BucketOf docid n = uint (word_of_int (be_int (take 8 (sha256 (bytes_of docid)))) :: 64 word) mod n"
  using assms by (simp add: BucketOf_def Let_def uint_mod uint_word_of_int)

lemma BucketOf_1 [simp]: "BucketOf docid 1 = 0" "BucketOf docid 0 = 0"
  by (simp_all add: BucketOf_def)

lemma BucketOf_bounds: "0 \<le> BucketOf docid n" "1 \<le> n \<Longrightarrow> n < 2 ^ 63 \<Longrightarrow> BucketOf docid n < n"
proof -
  show "0 \<le> BucketOf docid n" by (simp add: BucketOf_def Let_def)
  assume "1 \<le> n" "n < 2 ^ 63"
  then show "BucketOf docid n < n"
    by (cases "n = 1") (simp_all add: BucketOf_mod)
qed

lemma grow_count_pow2:
  assumes "c = 2 ^ j" "j \<le> 10" "c \<le> maxBucketCount"
  shows "\<exists>k. grow_count needed c = 2 ^ k \<and> j \<le> k \<and> k \<le> 10"
  using assms
proof (induction needed c arbitrary: j rule: grow_count.induct)
  case (1 needed c)
  show ?case
  proof (cases "c < needed \<and> c < maxBucketCount \<and> 0 < c")
    case True
    then have "(2::int) ^ j < 2 ^ 10" using 1(2) by (simp add: maxBucketCount_def)
    then have "j < 10" using power_less_imp_less_exp[of "2::int" j 10] by simp
    then have "2 ^ Suc j \<le> (2::int) ^ 10" by (intro power_increasing) auto
    then have "\<exists>k. grow_count needed (2 * c) = 2 ^ k \<and> Suc j \<le> k \<and> k \<le> 10"
      using 1(1)[OF True, of "Suc j"] 1(2) \<open>j < 10\<close> by (simp add: maxBucketCount_def)
    then show ?thesis using True by (subst grow_count.simps) auto
  qed (use 1 in \<open>subst grow_count.simps, auto\<close>)
qed

lemma grow_count_enough: "0 < c \<Longrightarrow> needed \<le> grow_count needed c \<or> maxBucketCount \<le> grow_count needed c"
  by (induction needed c rule: grow_count.induct) (subst (1 2) grow_count.simps, auto)

lemma grow_count_least: "0 < c \<Longrightarrow> grow_count needed c = c \<or> grow_count needed c < 2 * needed"
  by (induction needed c rule: grow_count.induct) (subst (1 2) grow_count.simps, auto)

section \<open>Properties\<close>

text \<open>
  doubling the bucket count reveals one more bit of the hash: an id of bucket b
  under count n is in bucket b or b + n under count 2n, and both numbers are within
  their counts.
\<close>

lemma BucketOf_doubling:
  assumes "1 \<le> n" "2 * n < 2 ^ 63"
  shows "0 \<le> BucketOf docid n \<and> BucketOf docid n < n \<and> BucketOf docid (2 * n) < 2 * n \<and>
    (BucketOf docid (2 * n) = BucketOf docid n \<or> BucketOf docid (2 * n) = BucketOf docid n + n)"
proof -
  define h where "h = uint (word_of_int (be_int (take 8 (sha256 (bytes_of docid)))) :: 64 word)"
  have b: "BucketOf docid (2 * n) = h mod (2 * n)" using assms by (simp add: BucketOf_mod h_def)
  have a: "BucketOf docid n = h mod n" using assms by (cases "n = 1") (simp_all add: BucketOf_mod h_def)
  have "h mod (2 * n) mod n = h mod n" by (simp add: mod_mod_cancel)
  moreover have "0 \<le> h mod (2 * n)" "h mod (2 * n) < 2 * n" using assms by simp_all
  ultimately have "h mod (2 * n) = h mod n \<or> h mod (2 * n) = h mod n + n"
    using assms by (smt (verit) mod_pos_pos_trivial minus_mod_self2)
  then show ?thesis using a b assms by auto
qed

lemma BucketOf_doubling_witness:
  "(1::int) \<le> 4 \<and> BucketOf ''n1'' 4 < 4 \<and>
   (BucketOf ''n1'' 8 = BucketOf ''n1'' 4 \<or> BucketOf ''n1'' 8 = BucketOf ''n1'' 4 + 4)"
  using BucketOf_doubling[of 4 "''n1''"] by simp

text \<open>
  the bucket count of a corpus is a power of two between 1 and 1024, it holds the
  corpus at 1024 documents a bucket unless it is clamped at 1024 buckets, and half of it
  would not (so it is the least such power of two).
\<close>

lemma BucketCountFor_least:
  "(\<exists>k\<le>10. BucketCountFor docs = 2 ^ k) \<and>
   (docs \<le> BucketCountFor docs * DefaultMinSegmentDocs \<or> BucketCountFor docs = maxBucketCount) \<and>
   (BucketCountFor docs = 1 \<or> BucketCountFor docs div 2 * DefaultMinSegmentDocs < docs)"
proof (cases "docs \<le> 0")
  case True
  then show ?thesis by (auto simp: BucketCountFor_def DefaultMinSegmentDocs_def intro: exI[of _ 0])
next
  case False
  define needed where "needed = docs div 1024 + (if docs mod 1024 \<noteq> 0 then 1 else 0)"
  have r: "BucketCountFor docs = grow_count needed 1"
    using False by (simp add: BucketCountFor_def needed_def DefaultMinSegmentDocs_def Let_def)
  have up: "docs \<le> needed * 1024" "(needed - 1) * 1024 < docs"
    using div_mult_mod_eq[of docs 1024] pos_mod_bound[of 1024 docs] pos_mod_sign[of 1024 docs]
    unfolding needed_def by (smt (verit) distrib_right left_diff_distrib)+
  obtain k where k: "grow_count needed 1 = 2 ^ k" "k \<le> 10"
    using grow_count_pow2[of 1 0 needed] by (auto simp: maxBucketCount_def)
  have le: "(2::int) ^ k \<le> 2 ^ 10" using k(2) by (intro power_increasing) auto
  have "docs \<le> 2 ^ k * 1024 \<or> 2 ^ k = maxBucketCount"
    using grow_count_enough[of 1 needed] k up le by (auto simp: maxBucketCount_def)
  moreover have "(2::int) ^ k = 1 \<or> 2 ^ k div 2 * 1024 < docs"
    using grow_count_least[of 1 needed] k up by (cases k) auto
  ultimately show ?thesis using r k by (auto simp: DefaultMinSegmentDocs_def)
qed

end
