(* ===== verification/Engine.thy ===== *)
theory Engine
  imports Complex_Main SegmentReplace Bucket
begin

text \<open>
  \<open>internal/searchengine/engine.go\<close> and \<open>options.go\<close>: the engine's state, the construction of
  an entry, and the operations that seal, publish and delete.

  The state is a record. \<open>e_store\<close> is the heap of live-document bitsets, indexed by the
  \<open>live\<close> address of an entry: a kill through any snapshot that shares the entry is seen by
  all of them, as in the code. A compare-and-swap loop is one step of the model, the attempt
  that wins; operations that read the set, work, and publish later against another set are
  split into those two steps (theory Swap). A hook that an owner installed is a list of the
  calls it received; logging and mutexes are left out.
\<close>

section \<open>Options\<close>

text \<open>
  The ratio is a \<open>float64\<close>; it is compared with a quotient of counts only, and is modelled
  by a rational. \<open>o_MapBlob\<close> maps the bytes of the finished scratch file to the bytes the
  engine decodes and whether they came with a release. The \<open>o_IO\<close> fields are what the
  scratch file's system calls answer: an error or nothing.
\<close>

record merge_io =
  io_open :: "engine_error option"
  io_truncate :: "engine_error option"
  io_close :: "engine_error option"
  io_remove :: "engine_error option"

record Options =
  o_MinSegmentDocs :: int
  o_DeletesPctAllowed :: rat
  o_SegmentCountTarget :: int
  o_OnMerge :: bool
  o_OnCorruptSegment :: bool
  o_OnBuildDegrade :: bool
  o_MapBlob :: "(byte list \<Rightarrow> (byte list \<times> bool) outcome) option"
  o_IO :: merge_io

definition defaultMinSegmentDocs :: int where "defaultMinSegmentDocs = 1024"
definition defaultDeletesPctAllowed :: rat where "defaultDeletesPctAllowed = 33 / 100"
definition defaultSegmentCountTarget :: int where "defaultSegmentCountTarget = 16"
definition MergeDisabledCountTarget :: int where "MergeDisabledCountTarget = 2 ^ 30"
definition MergeDisabledDeadRatio :: rat where "MergeDisabledDeadRatio = 2"

definition readBlobFromFile :: "byte list \<Rightarrow> (byte list \<times> bool) outcome" where
  "readBlobFromFile data = Ret (data, False)"

definition withDefaults :: "Options \<Rightarrow> Options" where
  "withDefaults opts =
     (let opts = (if o_MinSegmentDocs opts \<le> 0 then opts\<lparr>o_MinSegmentDocs := defaultMinSegmentDocs\<rparr> else opts);
          opts = (if o_DeletesPctAllowed opts \<le> 0 then opts\<lparr>o_DeletesPctAllowed := defaultDeletesPctAllowed\<rparr> else opts);
          opts = (if o_SegmentCountTarget opts \<le> 0 then opts\<lparr>o_SegmentCountTarget := defaultSegmentCountTarget\<rparr> else opts)
      in case o_MapBlob opts of None \<Rightarrow> opts\<lparr>o_MapBlob := Some readBlobFromFile\<rparr> | Some _ \<Rightarrow> opts)"

section \<open>State\<close>

record ('s, 'p) SegmentedIndex =
  e_set :: "('s, 'p) segmentSet"
  e_active :: "Document list"
  e_store :: "liveDocs list"
  e_stopped :: bool
  e_mergeSignal :: bool
  e_mergeCnt :: "64 word"
  e_settleCnt :: "64 word"
  e_mergeScanCnt :: int
  e_degrades :: "BuildReport list"
  e_corrupts :: "(SegmentID \<times> string) list"
  e_merges :: "MergeResult list"

definition New :: "('q, 's, 'p, 'sc) SegmentFormat \<Rightarrow> ('s, 'p) SegmentedIndex" where
  "New f =
     \<lparr>e_set = newSegmentSet f [], e_active = [], e_store = [], e_stopped = False, e_mergeSignal = False,
      e_mergeCnt = 0, e_settleCnt = 0, e_mergeScanCnt = 0, e_degrades = [], e_corrupts = [], e_merges = []\<rparr>"

definition signalMerge :: "('s, 'p) SegmentedIndex \<Rightarrow> ('s, 'p) SegmentedIndex" where
  "signalMerge e = e\<lparr>e_mergeSignal := True\<rparr>"

definition kill_at :: "liveDocs list \<Rightarrow> nat \<Rightarrow> int \<Rightarrow> liveDocs list" where
  "kill_at store a i = store[a := Kill (store ! a) i]"

definition revive_at :: "liveDocs list \<Rightarrow> nat \<Rightarrow> int \<Rightarrow> liveDocs list" where
  "revive_at store a i = store[a := Revive (store ! a) i]"

section \<open>Sealing\<close>

definition reportDegrade :: "Options \<Rightarrow> BuildReport \<Rightarrow> ('s, 'p) SegmentedIndex \<Rightarrow> ('s, 'p) SegmentedIndex" where
  "reportDegrade opts rep e =
     (if rep = [] \<or> \<not> o_OnBuildDegrade opts then e else e\<lparr>e_degrades := e_degrades e @ [rep]\<rparr>)"

definition index_map :: "'k list \<Rightarrow> ('k, int) gomap" where
  "index_map ks = foldl (\<lambda>m (i, k). AList.update k (int i) m) [] (List.enumerate 0 ks)"

definition dedupeDocsByID :: "Document list \<Rightarrow> Document list" where
  "dedupeDocsByID docs =
     (let lastAt = index_map (map doc_ID docs)
      in if length lastAt = length docs then docs
         else map snd (filter (\<lambda>(i, d). map_of lastAt (doc_ID d) = Some (int i)) (List.enumerate 0 docs)))"

datatype payloadProvenance = payloadBuilt | payloadMapped

definition newEntry :: "('q, 's, 'p, 'sc) SegmentFormat \<Rightarrow> liveDocs list \<Rightarrow> 'p \<Rightarrow> ExternalID list
    \<Rightarrow> payloadProvenance \<Rightarrow> ('p segmentEntry \<times> liveDocs list) outcome" where
  "newEntry f store seg tombstones prov =
     bind_out (s_Encode f seg) (\<lambda>blob.
     bind_out (s_IDs f seg) (\<lambda>ids.
       let ms = index_map ids
       in if length ids \<noteq> length ms then Fail (DuplicateNodes (length ids) (length ms))
          else let ld = (if tombstones = [] then newLiveDocs (length ids)
                         else newLiveDocsFromTombstones (length ids) tombstones ms)
               in Ret (\<lparr>payload = seg, live = length store, members = ms,
                        meta = \<lparr>mt_ID = contentHash blob, mt_Format = f_Name f, mt_Generation = 0,
                                mt_DocCount = int (length ms), mt_DeadCount = int (distinctDeadCount ms ld)\<rparr>,
                        sup_record = \<lparr>Superseded = [], Cohort = []\<rparr>,
                        heapPayload = (if prov = payloadBuilt then int (length blob) else 0)\<rparr>,
                       store @ [ld])))"

definition publishAppend :: "('q, 's, 'p, 'sc) SegmentFormat \<Rightarrow> 'p segmentEntry \<Rightarrow> ('s, 'p) SegmentedIndex
    \<Rightarrow> ('s, 'p) SegmentedIndex \<times> bool" where
  "publishAppend f entry e =
     (case entryByID (e_set e) (seg_ID entry) of
        Some _ \<Rightarrow> (e, False)
      | None \<Rightarrow> (e\<lparr>e_set := withAppended f (e_set e) entry\<rparr>, True))"

text \<open>A build that failed, with the error it failed with, in any result type.\<close>

fun failed :: "'a outcome \<Rightarrow> 'b outcome" where
  "failed (Ret a) = Panic ''unreachable''"
| "failed (Fail err) = Fail err"
| "failed (Raised sid d) = Raised sid d"
| "failed (Panic msg) = Panic msg"

definition build_entry :: "('q, 's, 'p, 'sc) SegmentFormat \<Rightarrow> Options \<Rightarrow> Document list \<Rightarrow> ('s, 'p) SegmentedIndex
    \<Rightarrow> ('s, 'p) SegmentedIndex \<times> 'p segmentEntry outcome" where
  "build_entry f opts docs e =
     (let (rep, r) = f_Build f docs;
          e = reportDegrade opts rep e
      in case bind_out r (\<lambda>seg. newEntry f (e_store e) seg [] payloadBuilt) of
           Ret (entry, store) \<Rightarrow> (e\<lparr>e_store := store\<rparr>, Ret entry)
         | r \<Rightarrow> (e, failed r))"

definition seal :: "('q, 's, 'p, 'sc) SegmentFormat \<Rightarrow> Options \<Rightarrow> Document list \<Rightarrow> ('s, 'p) SegmentedIndex
    \<Rightarrow> ('s, 'p) SegmentedIndex \<times> (SegmentID \<times> bool) outcome" where
  "seal f opts docs e =
     (case build_entry f opts (dedupeDocsByID docs) e of
        (e, Ret entry) \<Rightarrow>
          (let (e, created) = publishAppend f entry e
           in (signalMerge e, Ret (seg_ID entry, created)))
      | (e, r) \<Rightarrow> (e, failed r))"

definition Flush :: "('q, 's, 'p, 'sc) SegmentFormat \<Rightarrow> Options \<Rightarrow> ('s, 'p) SegmentedIndex
    \<Rightarrow> ('s, 'p) SegmentedIndex \<times> unit outcome" where
  "Flush f opts e =
     (if e_active e = [] then (e, Ret ())
      else let drained = e_active e;
               (e, r) = seal f opts drained (e\<lparr>e_active := []\<rparr>)
           in (e, bind_out r (\<lambda>_. Ret ())))"

definition Add :: "('q, 's, 'p, 'sc) SegmentFormat \<Rightarrow> Options \<Rightarrow> Document list \<Rightarrow> ('s, 'p) SegmentedIndex
    \<Rightarrow> ('s, 'p) SegmentedIndex \<times> unit outcome" where
  "Add f opts docs e =
     (if docs = [] then (e, Ret ())
      else let active = e_active e @ docs
           in if int (length active) < o_MinSegmentDocs opts then (e\<lparr>e_active := active\<rparr>, Ret ())
              else let (e, r) = seal f opts active (e\<lparr>e_active := []\<rparr>)
                   in (e, bind_out r (\<lambda>_. Ret ())))"

section \<open>Deleting\<close>

fun remove_first :: "ExternalID \<Rightarrow> Document list \<Rightarrow> Document list" where
  "remove_first x [] = []"
| "remove_first x (d # ds) = (if doc_ID d = x then ds else d # remove_first x ds)"

definition Delete :: "ExternalID \<Rightarrow> ('s, 'p) SegmentedIndex \<Rightarrow> ('s, 'p) SegmentedIndex" where
  "Delete x e =
     (case entryOf (e_set e) x of
        Some entry \<Rightarrow>
          (case map_of (members entry) x of
             Some ord \<Rightarrow> signalMerge (e\<lparr>e_store := kill_at (e_store e) (live entry) ord\<rparr>)
           | None \<Rightarrow> e)
      | None \<Rightarrow> e\<lparr>e_active := remove_first x (e_active e)\<rparr>)"

section \<open>The searchability predicate\<close>

definition residentMemberIn :: "liveDocs list \<Rightarrow> 'p segmentEntry option \<Rightarrow> ExternalID \<Rightarrow> bool" where
  "residentMemberIn store entry x =
     (case entry of
        None \<Rightarrow> False
      | Some en \<Rightarrow>
          (case map_of (members en) x of
             None \<Rightarrow> False
           | Some ord \<Rightarrow> Live (store ! live en) ord))"

section \<open>The engine's invariant\<close>

definition entry_live_ok :: "liveDocs list \<Rightarrow> 'p segmentEntry \<Rightarrow> bool" where
  "entry_live_ok store en \<longleftrightarrow>
     live en < length store \<and> live_ok (store ! live en) \<and> members_ok (members en) (ld_n (store ! live en))"

definition engine_ok :: "('q, 's, 'p, 'sc) SegmentFormat \<Rightarrow> ('s, 'p) SegmentedIndex \<Rightarrow> bool" where
  "engine_ok f e \<longleftrightarrow> set_ok (e_set e) \<and> stats_ok f (e_set e) \<and>
     distinct (map seg_ID (entries (e_set e))) \<and> distinct (map live (entries (e_set e))) \<and>
     (\<forall>en \<in> set (entries (e_set e)). entry_live_ok (e_store e) en)"

abbreviation live_in :: "liveDocs list \<Rightarrow> 'p segmentEntry \<Rightarrow> ExternalID \<Rightarrow> bool" where
  "live_in store en x \<equiv> residentMemberIn store (Some en) x"

lemma engine_okD:
  assumes "engine_ok f e"
  shows "set_ok (e_set e)" "stats_ok f (e_set e)" "distinct (map seg_ID (entries (e_set e)))"
    "distinct (map live (entries (e_set e)))" "en \<in> set (entries (e_set e)) \<Longrightarrow> entry_live_ok (e_store e) en"
  using assms by (auto simp: engine_ok_def)

lemma engine_ok_entries: "engine_ok f e \<Longrightarrow> entries_ok (entries (e_set e))"
  by (simp add: engine_ok_def set_ok_def)

lemma engine_ok_New: "engine_ok f (New f)"
  by (simp add: engine_ok_def New_def entries_ok_def set_ok_new)

text \<open>The fields a step leaves alone do not matter.\<close>

lemma engine_ok_cong:
  "e_set a = e_set b \<Longrightarrow> e_store a = e_store b \<Longrightarrow> engine_ok f a = engine_ok f b"
  by (simp add: engine_ok_def)

lemma signalMerge_sel [simp]:
  "e_set (signalMerge e) = e_set e" "e_store (signalMerge e) = e_store e" "e_active (signalMerge e) = e_active e"
  by (simp_all add: signalMerge_def)

lemma reportDegrade_sel [simp]:
  "e_set (reportDegrade opts rep e) = e_set e" "e_store (reportDegrade opts rep e) = e_store e"
  "e_active (reportDegrade opts rep e) = e_active e" "e_stopped (reportDegrade opts rep e) = e_stopped e"
  "e_mergeCnt (reportDegrade opts rep e) = e_mergeCnt e" "e_merges (reportDegrade opts rep e) = e_merges e"
  "e_corrupts (reportDegrade opts rep e) = e_corrupts e" "e_settleCnt (reportDegrade opts rep e) = e_settleCnt e"
  by (simp_all add: reportDegrade_def)

subsection \<open>Index maps\<close>

lemma index_map_snoc: "index_map (ks @ [k]) = AList.update k (int (length ks)) (index_map ks)"
  by (simp add: index_map_def enumerate_append_eq)

lemma index_map_Nil [simp]: "index_map [] = []"
  by (simp add: index_map_def)

lemma gm_keys_index_map [simp]: "gm_keys (index_map ks) = set ks"
  by (induction ks rule: rev_induct) (auto simp: index_map_snoc gm_keys_def[of "[]"])

lemma gomap_ok_index_map [simp]: "gomap_ok (index_map ks)"
  by (induction ks rule: rev_induct) (auto simp: index_map_snoc)

lemma length_index_map: "length (index_map ks) = card (set ks)"
  by (simp add: gomap_ok_length)

lemma index_map_nth:
  "map_of (index_map ks) k = Some i \<longleftrightarrow>
     0 \<le> i \<and> nat i < length ks \<and> ks ! nat i = k \<and> (\<forall>j. nat i < j \<and> j < length ks \<longrightarrow> ks ! j \<noteq> k)"
proof (induction ks rule: rev_induct)
  case (snoc x ks)
  show ?case
  proof (cases "k = x")
    case True
    have "map_of (index_map (ks @ [x])) k = Some (int (length ks))"
      by (simp add: index_map_snoc update_conv' True)
    then show ?thesis using True
      by (auto simp: nth_append)
  next
    case False
    have "map_of (index_map (ks @ [x])) k = map_of (index_map ks) k"
      by (simp add: index_map_snoc update_conv' False)
    then show ?thesis using False snoc by (auto simp: nth_append less_Suc_eq)
  qed
qed simp

lemma index_map_members_ok [simp]: "members_ok (index_map ks) (length ks)"
proof -
  have mem: "(x, i) \<in> set (index_map ks) \<longleftrightarrow> map_of (index_map ks) x = Some i" for x i
    using gomap_ok_index_map[of ks] by (simp add: gomap_ok_def)
  have "inj_on snd (set (index_map ks))"
    by (auto simp: inj_on_def mem index_map_nth)
  then have "distinct (map snd (index_map ks))"
    using gomap_ok_index_map[of ks] by (simp add: distinct_map gomap_ok_def)
  then show ?thesis by (auto simp: members_ok_def mem index_map_nth)
qed

lemma index_map_length_eq: "length (index_map ks) = length ks \<longleftrightarrow> distinct ks"
  by (metis length_index_map card_distinct distinct_card)

subsection \<open>Deduplication\<close>

lemma dedupe_alt:
  "dedupeDocsByID docs =
     map ((!) docs) (filter (\<lambda>i. \<forall>j. i < j \<and> j < length docs \<longrightarrow> doc_ID (docs ! j) \<noteq> doc_ID (docs ! i)) [0..<length docs])"
proof -
  let ?last = "\<lambda>i. \<forall>j. i < j \<and> j < length docs \<longrightarrow> doc_ID (docs ! j) \<noteq> doc_ID (docs ! i)"
  have en: "List.enumerate 0 docs = map (\<lambda>i. (i, docs ! i)) [0..<length docs]"
    by (rule nth_equalityI) (simp_all add: nth_enumerate_eq)
  have last: "map_of (index_map (map doc_ID docs)) (doc_ID (docs ! i)) = Some (int i) \<longleftrightarrow> ?last i"
    if "i < length docs" for i
    using that by (auto simp: index_map_nth)
  have body: "map snd (filter (\<lambda>(i, d). map_of (index_map (map doc_ID docs)) (doc_ID d) = Some (int i)) (List.enumerate 0 docs)) =
      map ((!) docs) (filter ?last [0..<length docs])"
    unfolding en filter_map map_map o_def by (auto intro!: arg_cong[where f = "map _"] filter_cong simp: last)
  show ?thesis
  proof (cases "distinct (map doc_ID docs)")
    case True
    then have "filter ?last [0..<length docs] = [0..<length docs]"
      by (auto simp: filter_id_conv distinct_conv_nth)
    then show ?thesis using True
      by (simp add: dedupeDocsByID_def Let_def index_map_length_eq[of "map doc_ID docs", simplified] map_nth)
  qed (use body index_map_length_eq[of "map doc_ID docs"] in \<open>simp add: dedupeDocsByID_def Let_def\<close>)
qed

lemma dedupe_ids: "distinct (map doc_ID (dedupeDocsByID docs))"
proof -
  have "inj_on (\<lambda>i. doc_ID (docs ! i)) {i. i < length docs \<and> (\<forall>j. i < j \<and> j < length docs \<longrightarrow> doc_ID (docs ! j) \<noteq> doc_ID (docs ! i))}"
    by (rule inj_onI) (metis (mono_tags, lifting) linorder_neqE_nat mem_Collect_eq)
  then show ?thesis
    by (simp add: dedupe_alt distinct_map o_def inj_on_def)
qed

lemma dedupe_mem:
  "d \<in> set (dedupeDocsByID docs) \<longleftrightarrow> newest (\<lambda>d'. doc_ID d' = doc_ID d) docs = Some d"
  by (auto simp: dedupe_alt newest_nth)

subsection \<open>Entries and the store\<close>

lemma entry_live_ok_append: "entry_live_ok store en \<Longrightarrow> entry_live_ok (store @ lds) en"
  by (simp add: entry_live_ok_def nth_append)

lemma live_in_append: "live en < length store \<Longrightarrow> live_in (store @ lds) en x = live_in store en x"
  by (simp add: residentMemberIn_def nth_append split: option.split)

lemma live_in_held: "live_in store en x \<Longrightarrow> held x en"
  by (simp add: residentMemberIn_def held_def split: option.splits)

lemma newEntry_spec:
  assumes "newEntry f store seg ts prov = Ret (en, store')"
  obtains blob ids ld where "s_Encode f seg = Ret blob" "s_IDs f seg = Ret ids" "distinct ids"
    "store' = store @ [ld]" "live_ok ld" "ld_n ld = length ids" "ts = [] \<Longrightarrow> ld = newLiveDocs (length ids)"
    "live en = length store" "members en = index_map ids" "seg_ID en = contentHash blob" "payload en = seg"
    "mt_DocCount (meta en) = int (length ids)" "record_empty (sup_record en)"
    "heapPayload en = (if prov = payloadBuilt then int (length blob) else 0)"
proof -
  obtain blob where b: "s_Encode f seg = Ret blob" using assms by (auto simp: newEntry_def bind_out_Ret_iff)
  obtain ids where i: "s_IDs f seg = Ret ids" using assms b by (auto simp: newEntry_def bind_out_Ret_iff)
  have d: "distinct ids" using assms b i index_map_length_eq[of ids] by (auto simp: newEntry_def Let_def split: if_splits)
  then have "length (index_map ids) = length ids" by (simp add: index_map_length_eq)
  then show ?thesis
    using assms b i d by (intro that[of blob ids "last store'"]) (auto simp: newEntry_def Let_def record_empty_def)
qed

lemma newEntry_live:
  assumes "newEntry f store seg ts prov = Ret (en, store')"
  shows "entry_live_ok store' en" "gomap_ok (members en)" "\<exists>ld. store' = store @ [ld]" "live en = length store"
    "ts = [] \<Longrightarrow> live_in store' en x \<longleftrightarrow> held x en"
proof -
  obtain blob ids ld where n: "store' = store @ [ld]" "live_ok ld" "ld_n ld = length ids" "live en = length store"
    "members en = index_map ids" "ts = [] \<Longrightarrow> ld = newLiveDocs (length ids)"
    using assms by (rule newEntry_spec) blast
  show "entry_live_ok store' en" "gomap_ok (members en)" "\<exists>ld. store' = store @ [ld]" "live en = length store"
    using n by (simp_all add: entry_live_ok_def)
  have mem: "map_of (index_map ids) x = Some i \<Longrightarrow> 0 \<le> i \<and> i < int (length ids)" for i
    by (auto simp: index_map_nth)
  show "live_in store' en x \<longleftrightarrow> held x en" if "ts = []"
    using n that mem by (auto simp: residentMemberIn_def held_def Live_new split: option.splits)
qed

lemma build_entry_frame:
  assumes "build_entry f opts docs e = (e', r)"
  shows "e_set e' = e_set e" "e_active e' = e_active e" "e_merges e' = e_merges e" "e_corrupts e' = e_corrupts e"
    "e_stopped e' = e_stopped e" "e_mergeCnt e' = e_mergeCnt e" "e_settleCnt e' = e_settleCnt e"
  using assms by (auto simp: build_entry_def Let_def split: prod.splits outcome.splits)

lemma build_entry_Ret:
  assumes "build_entry f opts docs e = (e', Ret en)"
  shows "\<exists>ld. e_store e' = e_store e @ [ld]" "live en = length (e_store e)" "entry_live_ok (e_store e') en"
    "gomap_ok (members en)" "live_in (e_store e') en x \<longleftrightarrow> held x en"
    "\<exists>seg ids. snd (f_Build f docs) = Ret seg \<and> s_IDs f seg = Ret ids \<and> payload en = seg \<and>
       gm_keys (members en) = set ids"
proof -
  obtain rep r where b: "f_Build f docs = (rep, r)" by fastforce
  obtain seg where seg: "r = Ret seg"
    and n: "newEntry f (e_store e) seg [] payloadBuilt = Ret (en, e_store e')"
    using assms by (cases r) (auto simp: build_entry_def b Let_def split: outcome.splits)
  show "\<exists>ld. e_store e' = e_store e @ [ld]" "live en = length (e_store e)" "entry_live_ok (e_store e') en"
    "gomap_ok (members en)" "live_in (e_store e') en x \<longleftrightarrow> held x en"
    using newEntry_live[OF n] by simp_all
  show "\<exists>seg ids. snd (f_Build f docs) = Ret seg \<and> s_IDs f seg = Ret ids \<and> payload en = seg \<and>
       gm_keys (members en) = set ids"
    using n by (rule newEntry_spec) (auto simp: b seg)
qed

lemma build_entry_not_Ret:
  assumes "build_entry f opts docs e = (e', r)" "\<And>en. r \<noteq> Ret en"
  shows "e_store e' = e_store e"
  using assms by (auto simp: build_entry_def Let_def split: prod.splits outcome.splits)

lemma engine_ok_store:
  "engine_ok f e \<Longrightarrow> e_set e' = e_set e \<Longrightarrow> e_store e' = e_store e @ lds \<Longrightarrow> engine_ok f e'"
  by (simp add: engine_ok_def entry_live_ok_append)

lemma entry_addr: "engine_ok f e \<Longrightarrow> en \<in> set (entries (e_set e)) \<Longrightarrow> live en < length (e_store e)"
  by (simp add: engine_ok_def entry_live_ok_def)

lemma publishAppend_ok:
  assumes "engine_ok f e" "stats_agree f" "entry_live_ok (e_store e) en" "gomap_ok (members en)"
    "live en \<notin> live ` set (entries (e_set e))" "publishAppend f en e = (e', created)"
  shows "engine_ok f e'" "e_store e' = e_store e"
    "entries (e_set e') = (if created then entries (e_set e) @ [en] else entries (e_set e))"
    "created \<longleftrightarrow> seg_ID en \<notin> seg_ID ` set (entries (e_set e))" "\<not> created \<Longrightarrow> e' = e"
  using assms
  by (auto simp: publishAppend_def engine_ok_def entryByID_def entry_scan_None set_ok_withAppended
      stats_ok_withAppended split: option.splits dest!: entry_scan_Some intro: rev_image_eqI)

lemma seal_frame:
  assumes "seal f opts docs e = (e', r)"
  shows "e_active e' = e_active e" "e_corrupts e' = e_corrupts e" "e_merges e' = e_merges e"
  using assms
  by (auto simp: seal_def Let_def publishAppend_def signalMerge_def dest: build_entry_frame
      split: prod.splits outcome.splits option.splits)

lemma live_not_fresh: "engine_ok f e \<Longrightarrow> length (e_store e) \<notin> live ` set (entries (e_set e))"
  using entry_addr[of f e] by force

lemma seal_Ret:
  assumes "engine_ok f e" "stats_agree f" "seal f opts docs e = (e', Ret (sid, created))"
  obtains en e1 where "build_entry f opts (dedupeDocsByID docs) e = (e1, Ret en)" "seg_ID en = sid"
    "engine_ok f e'" "e_store e' = e_store e1"
    "entries (e_set e') = (if created then entries (e_set e) @ [en] else entries (e_set e))"
    "created \<longleftrightarrow> sid \<notin> seg_ID ` set (entries (e_set e))" "\<not> created \<Longrightarrow> e_set e' = e_set e"
    "created \<Longrightarrow> e_set e' = withAppended f (e_set e) en"
proof -
  obtain e1 r where b: "build_entry f opts (dedupeDocsByID docs) e = (e1, r)" by fastforce
  obtain en where r: "r = Ret en" using assms(3) b by (cases r) (auto simp: seal_def)
  note fr = build_entry_frame[OF b] and B = build_entry_Ret[OF b[unfolded r]]
  obtain e2 where p: "publishAppend f en e1 = (e2, created)" and e': "e' = signalMerge e2" and sid: "seg_ID en = sid"
    using assms(3) b r by (auto simp: seal_def Let_def split: prod.splits)
  have ok1: "engine_ok f e1" using B(1) engine_ok_store[OF assms(1) fr(1)] by blast
  have fresh: "live en \<notin> live ` set (entries (e_set e1))" using B(2) live_not_fresh[OF assms(1)] fr(1) by simp
  note P = publishAppend_ok[OF ok1 assms(2) B(3,4) fresh p]
  have "engine_ok f e'" using P(1) by (simp add: e' engine_ok_cong[of "signalMerge e2" e2])
  moreover have "created \<Longrightarrow> e_set e' = withAppended f (e_set e) en"
    using p fr(1) by (auto simp: e' publishAppend_def split: option.splits)
  ultimately show ?thesis using that[OF b[unfolded r] sid] P fr(1) sid by (simp add: e')
qed

lemma seal_error:
  assumes "seal f opts docs e = (e', r)" "\<And>a. r \<noteq> Ret a"
  shows "e_set e' = e_set e" "e_store e' = e_store e"
proof -
  obtain e1 r1 where b: "build_entry f opts (dedupeDocsByID docs) e = (e1, r1)" by fastforce
  have "e' = e1" "\<And>en. r1 \<noteq> Ret en"
    using assms b by (auto simp: seal_def Let_def split: outcome.splits prod.splits)
  then show "e_set e' = e_set e" "e_store e' = e_store e"
    using build_entry_frame[OF b] build_entry_not_Ret[OF b] by auto
qed

lemma seal_ok:
  assumes "engine_ok f e" "stats_agree f" "seal f opts docs e = (e', r)"
  shows "engine_ok f e'"
proof (cases r)
  case (Ret a)
  then obtain sid created where "a = (sid, created)" by fastforce
  then show ?thesis using seal_Ret[OF assms(1,2)] assms(3) Ret by metis
qed (use seal_error[OF assms(3)] engine_ok_cong[of e' e f] assms(1) in auto)

section \<open>Killing a document\<close>

lemma entry_live_ok_kill: "entry_live_ok store en \<Longrightarrow> entry_live_ok (kill_at store a i) en"
  by (cases "a < length store") (auto simp: entry_live_ok_def kill_at_def nth_list_update)

lemma entry_live_ok_revive: "entry_live_ok store en \<Longrightarrow> entry_live_ok (revive_at store a i) en"
  by (cases "a < length store") (auto simp: entry_live_ok_def revive_at_def nth_list_update)

lemma engine_ok_kill:
  "engine_ok f e \<Longrightarrow> e_set e' = e_set e \<Longrightarrow> e_store e' = kill_at (e_store e) a i \<Longrightarrow> engine_ok f e'"
  by (simp add: engine_ok_def entry_live_ok_kill)

lemma engine_ok_revive:
  "engine_ok f e \<Longrightarrow> e_set e' = e_set e \<Longrightarrow> e_store e' = revive_at (e_store e) a i \<Longrightarrow> engine_ok f e'"
  by (simp add: engine_ok_def entry_live_ok_revive)

lemma same_ord_same_id:
  assumes "members_ok m n" "map_of m x = Some i" "map_of m y = Some i"
  shows "x = y"
proof -
  have "(x, i) \<in> set m" "(y, i) \<in> set m" using assms(2,3) by (auto dest: map_of_SomeD)
  moreover have "inj_on snd (set m)" using assms(1) by (simp add: members_ok_def distinct_map)
  ultimately show ?thesis using inj_onD[of snd "set m" "(x, i)" "(y, i)"] by simp
qed

text \<open>A kill through an entry's address is seen at that entry and at no other.\<close>

lemma live_in_kill:
  assumes ok: "entry_live_ok store en" and a: "live tgt < length store"
    and same: "live en = live tgt \<Longrightarrow> members en = members tgt" and ord: "map_of (members tgt) x = Some i"
  shows "live_in (kill_at store (live tgt) i) en y \<longleftrightarrow> live_in store en y \<and> \<not> (live en = live tgt \<and> y = x)"
proof (cases "live en = live tgt")
  case True
  note m = same[OF True]
  have lo: "live_ok (store ! live en)" and mo: "members_ok (members en) (ld_n (store ! live en))"
    using ok by (simp_all add: entry_live_ok_def)
  have "j = i \<longleftrightarrow> y = x" if "map_of (members en) y = Some j" for j
    using that ord m same_ord_same_id[OF mo] by auto
  then show ?thesis using True a lo
    by (auto simp: residentMemberIn_def kill_at_def Live_Kill split: option.splits)
qed (simp add: residentMemberIn_def kill_at_def split: option.split)

lemma live_in_revive:
  assumes ok: "entry_live_ok store en" and a: "live tgt < length store"
    and same: "live en = live tgt \<Longrightarrow> members en = members tgt" and ord: "map_of (members tgt) x = Some i"
  shows "live_in (revive_at store (live tgt) i) en y \<longleftrightarrow> live_in store en y \<or> (live en = live tgt \<and> y = x)"
proof (cases "live en = live tgt")
  case True
  note m = same[OF True]
  have lo: "live_ok (store ! live en)" and mo: "members_ok (members en) (ld_n (store ! live en))"
    using ok by (simp_all add: entry_live_ok_def)
  have eq: "j = i \<longleftrightarrow> y = x" if "map_of (members en) y = Some j" for j
    using that ord m same_ord_same_id[OF mo] by auto
  have rng: "0 \<le> i \<and> i < int (ld_n (store ! live en))"
    using mo ord m by (auto simp: members_ok_def dest: map_of_SomeD)
  have "\<exists>j. map_of (members en) x = Some j" using ord m by simp
  then show ?thesis using True a lo eq rng
    by (auto simp: residentMemberIn_def revive_at_def Live_Revive split: option.splits)
qed (simp add: residentMemberIn_def revive_at_def split: option.split)

lemma entries_same_live:
  assumes "engine_ok f e" "a \<in> set (entries (e_set e))" "b \<in> set (entries (e_set e))" "live a = live b"
  shows "a = b"
  using assms by (auto simp: engine_ok_def distinct_map inj_on_def)

text \<open>The routed entry, as the answer or as an entry that stands for the same segment.\<close>

lemma entryOf_resident:
  assumes "engine_ok f e" "entryOf (e_set e) x = Some en"
  obtains en' where "newest (held x) (entries (e_set e)) = Some en'" "en' \<in> set (entries (e_set e))"
    "held x en'" "live en = live en'" "members en = members en'" "seg_ID en = seg_ID en'"
proof -
  have "rel_option same_seg (Some en) (newest (held x) (entries (e_set e)))"
    using entryOf_flat[of "e_set e" x] assms by (simp add: engine_ok_def)
  then obtain en' where "newest (held x) (entries (e_set e)) = Some en'" "same_seg en en'"
    by (auto simp: option_rel_Some1)
  then show ?thesis using that newest_SomeD[of "held x" "entries (e_set e)" en'] by (auto simp: same_seg_def)
qed

lemma entryOf_None_iff:
  "engine_ok f e \<Longrightarrow> entryOf (e_set e) x = None \<longleftrightarrow> newest (held x) (entries (e_set e)) = None"
  using entryOf_flat[of "e_set e" x] same_seg_None by (auto simp: engine_ok_def)

lemma live_in_kill_routed:
  assumes "engine_ok f e" "entryOf (e_set e) x = Some tgt" "map_of (members tgt) x = Some i"
    "en \<in> set (entries (e_set e))"
  shows "live_in (kill_at (e_store e) (live tgt) i) en y \<longleftrightarrow>
    live_in (e_store e) en y \<and> \<not> (newest (held x) (entries (e_set e)) = Some en \<and> y = x)"
proof -
  obtain t where t: "newest (held x) (entries (e_set e)) = Some t" "t \<in> set (entries (e_set e))"
    "live tgt = live t" "members tgt = members t" using assms(1,2) by (rule entryOf_resident)
  have eq: "live en = live t \<longleftrightarrow> en = t" using entries_same_live[OF assms(1,4) t(2)] by auto
  have "live_in (kill_at (e_store e) (live tgt) i) en y \<longleftrightarrow> live_in (e_store e) en y \<and> \<not> (live en = live tgt \<and> y = x)"
    by (rule live_in_kill) (use assms t eq entry_addr[OF assms(1) t(2)] in \<open>auto simp: engine_ok_def\<close>)
  then show ?thesis using t eq by auto
qed

lemma Delete_frame [simp]: "e_set (Delete x e) = e_set e" "e_merges (Delete x e) = e_merges e"
  by (auto simp: Delete_def signalMerge_def split: option.splits)

lemma Delete_store:
  "e_store (Delete x e) = (case entryOf (e_set e) x of None \<Rightarrow> e_store e
     | Some entry \<Rightarrow> (case map_of (members entry) x of None \<Rightarrow> e_store e
         | Some i \<Rightarrow> kill_at (e_store e) (live entry) i))"
  by (simp add: Delete_def split: option.split)

lemma Delete_ok:
  assumes "engine_ok f e" shows "engine_ok f (Delete x e)"
proof (cases "e_store (Delete x e) = e_store e")
  case True
  then show ?thesis using assms engine_ok_cong[of "Delete x e" e f] by simp
next
  case False
  then obtain a i where "e_store (Delete x e) = kill_at (e_store e) a i"
    by (auto simp: Delete_store split: option.splits)
  then show ?thesis by (rule engine_ok_kill[OF assms Delete_frame(1)])
qed

lemma Delete_live:
  assumes "engine_ok f e" "en \<in> set (entries (e_set e))"
  shows "live_in (e_store (Delete x e)) en y \<longleftrightarrow>
    live_in (e_store e) en y \<and> \<not> (newest (held x) (entries (e_set e)) = Some en \<and> y = x)"
proof (cases "entryOf (e_set e) x")
  case None
  then show ?thesis using entryOf_None_iff[OF assms(1), of x] by (simp add: Delete_store)
next
  case (Some tgt)
  obtain t where "t \<in> set (entries (e_set e))" "held x t" "members tgt = members t"
    using assms(1) Some by (rule entryOf_resident)
  then obtain i where i: "map_of (members tgt) x = Some i" by (auto simp: held_def)
  then show ?thesis using live_in_kill_routed[OF assms(1) Some i assms(2)] Some by (simp add: Delete_store)
qed

section \<open>Engines over the reference format\<close>

text \<open>An engine whose resident segments are the given lists of ids, all live.\<close>

definition ids_engine :: "(SegmentID \<times> ExternalID list) list \<Rightarrow> (nat, ExternalID list) SegmentedIndex" where
  "ids_engine segs =
     (New ids_format)\<lparr>e_set := newSegmentSet ids_format
        (map (\<lambda>(i, sid, ids). ids_entry sid i ids) (List.enumerate 0 segs)),
      e_store := map (\<lambda>(sid, ids). newLiveDocs (length ids)) segs\<rparr>"

lemma members_ok_ids_entry: "distinct ids \<Longrightarrow> members_ok (members (ids_entry sid a ids)) (length ids)"
  by (auto simp: ids_entry_def members_ok_def gomap_ok_def distinct_map inj_on_def set_zip)

lemma ids_engine_ok:
  assumes "distinct (map fst segs)" "\<forall>(sid, ids) \<in> set segs. distinct ids"
  shows "engine_ok ids_format (ids_engine segs)"
proof -
  let ?es = "map (\<lambda>(i, sid, ids). ids_entry sid i ids) (List.enumerate 0 segs)"
  have sids: "map seg_ID ?es = map fst segs"
    by (rule nth_equalityI) (simp_all add: nth_enumerate_eq split_beta)
  have lives: "map live ?es = [0..<length segs]"
    by (rule nth_equalityI) (simp_all add: nth_enumerate_eq split_beta)
  have ent: "entry_live_ok (map (\<lambda>(sid, ids). newLiveDocs (length ids)) segs) en \<and> gomap_ok (members en)"
    if mem: "en \<in> set ?es" for en
  proof -
    obtain i where i: "i < length segs" "en = ids_entry (fst (segs ! i)) i (snd (segs ! i))"
      using mem by (auto simp: in_set_conv_nth nth_enumerate_eq split_beta)
    have "distinct (snd (segs ! i))" using assms(2) i(1) by (auto simp: split_beta)
    then show ?thesis using i by (simp add: entry_live_ok_def split_beta members_ok_ids_entry)
  qed
  then have "entries_ok ?es" by (simp add: entries_ok_def)
  then show ?thesis using ent assms(1) sids lives
    by (simp add: engine_ok_def ids_engine_def set_ok_new)
qed

lemma ids_engine_entries [simp]:
  "entries (e_set (ids_engine segs)) = map (\<lambda>(i, sid, ids). ids_entry sid i ids) (List.enumerate 0 segs)"
  by (simp add: ids_engine_def)

section \<open>Properties\<close>

text \<open>
  a build batch is normalised last-wins. The deduplicated batch has one document per id,
  it holds a document exactly when that document is the last of its id in the batch (so no
  id is lost), the survivors keep their order, and a batch with no repeated id is
  returned as it is.
\<close>

lemma dedupeDocsByID_last_wins:
  "distinct (map doc_ID (dedupeDocsByID docs)) \<and>
   (\<forall>d. d \<in> set (dedupeDocsByID docs) \<longleftrightarrow> newest (\<lambda>d'. doc_ID d' = doc_ID d) docs = Some d) \<and>
   doc_ID ` set (dedupeDocsByID docs) = doc_ID ` set docs \<and>
   (\<exists>is. sorted is \<and> distinct is \<and> dedupeDocsByID docs = map ((!) docs) is) \<and>
   (distinct (map doc_ID docs) \<longrightarrow> dedupeDocsByID docs = docs)"
proof -
  have "doc_ID d \<in> doc_ID ` set (dedupeDocsByID docs)" if d: "d \<in> set docs" for d
  proof -
    obtain d' where n: "newest (\<lambda>d'. doc_ID d' = doc_ID d) docs = Some d'"
      using newest_ex[OF d, of "\<lambda>d'. doc_ID d' = doc_ID d"] by auto
    then have "doc_ID d' = doc_ID d" using newest_SomeD[OF n] by blast
    then show ?thesis using n by (auto simp: dedupe_mem intro!: rev_image_eqI[of d'])
  qed
  moreover have "d \<in> set docs" if "d \<in> set (dedupeDocsByID docs)" for d
    using that newest_SomeD[of _ docs d] by (simp add: dedupe_mem)
  moreover have "dedupeDocsByID docs = docs" if "distinct (map doc_ID docs)"
    using that index_map_length_eq[of "map doc_ID docs"] by (simp add: dedupeDocsByID_def Let_def)
  moreover have "\<exists>is. sorted is \<and> distinct is \<and> dedupeDocsByID docs = map ((!) docs) is"
  proof (intro exI conjI)
    show "dedupeDocsByID docs = map ((!) docs) (filter (\<lambda>i. \<forall>j. i < j \<and> j < length docs \<longrightarrow>
        doc_ID (docs ! j) \<noteq> doc_ID (docs ! i)) [0..<length docs])" by (rule dedupe_alt)
  qed (simp_all add: sorted_wrt_filter)
  ultimately show ?thesis
    by (intro conjI allI dedupe_ids dedupe_mem impI) blast+
qed

lemma dedupeDocsByID_last_wins_witness:
  "dedupeDocsByID [\<lparr>doc_ID = ''a'', doc_Fields = [], doc_Vector = [], doc_Dtype = []\<rparr>] =
     [\<lparr>doc_ID = ''a'', doc_Fields = [], doc_Vector = [], doc_Dtype = []\<rparr>]"
  using dedupeDocsByID_last_wins[of "[\<lparr>doc_ID = ''a'', doc_Fields = [], doc_Vector = [], doc_Dtype = []\<rparr>]"] by simp

text \<open>
  a seal publishes one all-live segment or nothing. From a well-formed engine, a seal that
  returns a segment id leaves a well-formed engine in which that segment is resident; when
  it reports the segment as created, the segment was appended to the set, was not resident
  before, holds every member live and answers for every id it holds; otherwise the published
  set is the one before. No document's liveness in a segment that was resident changes, and a
  seal that fails publishes nothing.
\<close>

lemma seal_publishes_all_live:
  assumes "engine_ok f e" "stats_agree f" "seal f opts docs e = (e', r)"
  shows "engine_ok f e' \<and>
    (\<forall>en \<in> set (entries (e_set e)). \<forall>x. live_in (e_store e') en x = live_in (e_store e) en x) \<and>
    (case r of
       Ret (sid, True) \<Rightarrow> sid \<notin> seg_ID ` set (entries (e_set e)) \<and>
         (\<exists>en. entries (e_set e') = entries (e_set e) @ [en] \<and> seg_ID en = sid \<and>
            (\<forall>x. held x en \<longrightarrow> live_in (e_store e') en x \<and> routeOf (e_set e') x = Some sid))
     | Ret (sid, False) \<Rightarrow> e_set e' = e_set e \<and> sid \<in> seg_ID ` set (entries (e_set e))
     | _ \<Rightarrow> e_set e' = e_set e)"
proof (cases "\<exists>sid created. r = Ret (sid, created)")
  case True
  then obtain sid created where r: "r = Ret (sid, created)" by blast
  obtain en e1 where b: "build_entry f opts (dedupeDocsByID docs) e = (e1, Ret en)" "seg_ID en = sid"
    and ok: "engine_ok f e'" and st: "e_store e' = e_store e1"
    and ents: "entries (e_set e') = (if created then entries (e_set e) @ [en] else entries (e_set e))"
    and cr: "created \<longleftrightarrow> sid \<notin> seg_ID ` set (entries (e_set e))" "\<not> created \<Longrightarrow> e_set e' = e_set e"
    using assms(1,2) assms(3)[unfolded r] by (rule seal_Ret) blast
  obtain ld where ld: "e_store e' = e_store e @ [ld]" using build_entry_Ret(1)[OF b(1)] st by auto
  have frame: "live_in (e_store e') en0 x = live_in (e_store e) en0 x" if "en0 \<in> set (entries (e_set e))" for en0 x
    using entry_addr[OF assms(1) that] by (simp add: ld live_in_append)
  have all: "live_in (e_store e') en x \<longleftrightarrow> held x en" for x using build_entry_Ret(5)[OF b(1)] st by simp
  have rt: "routeOf (e_set e') x = Some sid" if "held x en" created for x
    using that ents b(2) engine_okD(1)[OF ok] by (simp add: routeOf_flat flat_answer_def)
  show ?thesis using ok frame all rt cr ents b(2) r by (cases created) auto
next
  case False
  then have nr: "\<And>a. r \<noteq> Ret a" by force
  note er = seal_error[OF assms(3) nr]
  show ?thesis using er nr seal_ok[OF assms] by (cases r) auto
qed

lemma seal_publishes_all_live_witness:
  "\<exists>sid e'. seal ids_format (withDefaults \<lparr>o_MinSegmentDocs = 0, o_DeletesPctAllowed = 0, o_SegmentCountTarget = 0,
       o_OnMerge = False, o_OnCorruptSegment = False, o_OnBuildDegrade = False, o_MapBlob = None,
       o_IO = \<lparr>io_open = None, io_truncate = None, io_close = None, io_remove = None\<rparr>\<rparr>)
     [\<lparr>doc_ID = ''a'', doc_Fields = [], doc_Vector = [], doc_Dtype = []\<rparr>] (New ids_format) = (e', Ret (sid, True)) \<and>
     engine_ok ids_format e' \<and> routeOf (e_set e') ''a'' = Some sid"
proof -
  let ?o = "withDefaults \<lparr>o_MinSegmentDocs = 0, o_DeletesPctAllowed = 0, o_SegmentCountTarget = 0,
       o_OnMerge = False, o_OnCorruptSegment = False, o_OnBuildDegrade = False, o_MapBlob = None,
       o_IO = \<lparr>io_open = None, io_truncate = None, io_close = None, io_remove = None\<rparr>\<rparr>"
  let ?d = "[\<lparr>doc_ID = ''a'', doc_Fields = [], doc_Vector = [], doc_Dtype = []\<rparr>]"
  obtain e' r where s: "seal ids_format ?o ?d (New ids_format) = (e', r)" by fastforce
  have im: "index_map [x] = [(x, 0)]" for x :: string by (simp add: index_map_def)
  have "r = Ret (contentHash (ids_encode [''a'']), True) \<and>
      members (last (entries (e_set e'))) = [(''a'', 0)] \<and> length (entries (e_set e')) = 1"
    using s by (auto simp: seal_def build_entry_def dedupeDocsByID_def ids_format_def im Let_def newEntry_def
        reportDegrade_def New_def publishAppend_def entryByID_def newSegmentSet_def withAppended_def
        routeTailLimit_def signalMerge_def split: prod.splits)
  then show ?thesis
    using s seal_publishes_all_live[OF engine_ok_New ids_stats_agree s]
    by (cases "entries (e_set e')") (auto simp: held_def New_def)
qed

text \<open>The claim of the engine's write paths: a searchable copy of an id is the routed one.\<close>

definition one_copy :: "('s, 'p) SegmentedIndex \<Rightarrow> bool" where
  "one_copy e \<longleftrightarrow> (\<forall>en \<in> set (entries (e_set e)). \<forall>x. live_in (e_store e) en x \<longrightarrow>
     newest (held x) (entries (e_set e)) = Some en)"

text \<open>
  a delete clears exactly the routed copy. The published set is untouched, every other
  (segment, id) pair keeps its liveness, and an id that no segment holds is taken out of the
  unsealed buffer instead. When each id has no searchable copy but the routed one, a deleted id
  is searchable nowhere, and that stays so for the other ids.
\<close>

lemma Delete_clears_routed_copy:
  assumes "engine_ok f e"
  shows "engine_ok f (Delete x e) \<and> e_set (Delete x e) = e_set e \<and>
    (\<forall>en \<in> set (entries (e_set e)). \<forall>y. live_in (e_store (Delete x e)) en y \<longleftrightarrow>
       live_in (e_store e) en y \<and> \<not> (newest (held x) (entries (e_set e)) = Some en \<and> y = x)) \<and>
    e_active (Delete x e) = (if x \<in> resident_ids (entries (e_set e)) then e_active e else remove_first x (e_active e)) \<and>
    (one_copy e \<longrightarrow> one_copy (Delete x e) \<and> (\<forall>en \<in> set (entries (e_set e)). \<not> live_in (e_store (Delete x e)) en x))"
proof -
  have act: "e_active (Delete x e) = (if x \<in> resident_ids (entries (e_set e)) then e_active e else remove_first x (e_active e))"
    using entryOf_None_iff[OF assms, of x]
    by (auto simp: Delete_def newest_None_iff resident_ids_def held_iff split: option.splits)
  have "one_copy (Delete x e) \<and> (\<forall>en \<in> set (entries (e_set e)). \<not> live_in (e_store (Delete x e)) en x)" if "one_copy e"
    using that by (auto simp: one_copy_def Delete_live[OF assms])
  then show ?thesis using assms act by (simp add: Delete_ok Delete_live[OF assms])
qed

lemma Delete_clears_routed_copy_witness:
  "\<not> live_in (e_store (Delete ''x'' (ids_engine [(''A'', [''x'', ''y''])]))) (ids_entry ''A'' 0 [''x'', ''y'']) ''x'' \<and>
   live_in (e_store (Delete ''x'' (ids_engine [(''A'', [''x'', ''y''])]))) (ids_entry ''A'' 0 [''x'', ''y'']) ''y''"
proof -
  let ?e = "ids_engine [(''A'', [''x'', ''y''])]"
  have "engine_ok ids_format ?e" by (rule ids_engine_ok) auto
  note d = Delete_clears_routed_copy[OF this, of "''x''"]
  have "live_in (e_store ?e) (ids_entry ''A'' 0 [''x'', ''y'']) ''y''"
    by (simp add: residentMemberIn_def ids_engine_def ids_entry_def Live_new numeral_2_eq_2)
  then show ?thesis using d by (simp add: newest_Cons)
qed

end
