(* ===== verification/Reads.thy ===== *)
theory Reads
  imports Engine
begin

text \<open>
  \<open>internal/searchengine/engine_search.go\<close>, \<open>engine_resident_aggregates.go\<close>,
  \<open>vectorbyid.go\<close> and \<open>corruption.go\<close>: what the engine reads out of a snapshot, and what
  happens to a segment whose bytes are found to be damaged while it is read.
\<close>

section \<open>Corruption\<close>

definition WithdrawSegment :: "('q, 's, 'p, 'sc) SegmentFormat \<Rightarrow> SegmentID \<Rightarrow> ('s, 'p) SegmentedIndex
    \<Rightarrow> ('s, 'p) SegmentedIndex \<times> bool" where
  "WithdrawSegment f sid e =
     (case entryByID (e_set e) sid of
        None \<Rightarrow> (e, False)
      | Some _ \<Rightarrow>
          (e\<lparr>e_set := newSegmentSet f (filter (\<lambda>entry. seg_ID entry \<noteq> sid) (entries (e_set e)))\<rparr>, True))"

text \<open>The third argument of the corruption is its latch: a second report is a no-op.\<close>

definition reportCorrupt :: "('q, 's, 'p, 'sc) SegmentFormat \<Rightarrow> Options \<Rightarrow> SegmentID \<times> string \<times> bool
    \<Rightarrow> ('s, 'p) SegmentedIndex \<Rightarrow> ('s, 'p) SegmentedIndex" where
  "reportCorrupt f opts ce e =
     (case ce of (sid, detail, reported) \<Rightarrow>
        if reported then e
        else let e = (if sid \<noteq> [] then fst (WithdrawSegment f sid e) else e)
             in if o_OnCorruptSegment opts then e\<lparr>e_corrupts := e_corrupts e @ [(sid, detail)]\<rparr> else e)"

definition reportCorruptFrom :: "('q, 's, 'p, 'sc) SegmentFormat \<Rightarrow> Options \<Rightarrow> engine_error
    \<Rightarrow> ('s, 'p) SegmentedIndex \<Rightarrow> ('s, 'p) SegmentedIndex \<times> bool" where
  "reportCorruptFrom f opts err e =
     (if as_refused err then (e, False)
      else case as_corrupt err of
             None \<Rightarrow> (e, False)
           | Some ce \<Rightarrow> (reportCorrupt f opts ce e, True))"

text \<open>\<open>containCorrupt\<close>: what \<open>fn\<close> raised becomes a reported error; what it returned is returned.\<close>

definition containCorrupt :: "('q, 's, 'p, 'sc) SegmentFormat \<Rightarrow> Options \<Rightarrow> SegmentID \<Rightarrow> 'a outcome
    \<Rightarrow> ('s, 'p) SegmentedIndex \<Rightarrow> ('s, 'p) SegmentedIndex \<times> 'a outcome" where
  "containCorrupt f opts sid r e =
     (case r of
        Raised rid detail \<Rightarrow>
          (case catchCorrupt sid r of
             Fail (Corrupt cid d reported) \<Rightarrow>
               (reportCorrupt f opts (cid, d, reported) e, Fail (Corrupt cid d True))
           | r' \<Rightarrow> (e, r'))
      | _ \<Rightarrow> (e, r))"

section \<open>Searching\<close>

definition accept_live :: "liveDocs list \<Rightarrow> 'p segmentEntry \<Rightarrow> (ExternalID \<Rightarrow> bool) option \<Rightarrow> ExternalID \<Rightarrow> bool" where
  "accept_live store entry accepts x =
     (case map_of (members entry) x of
        None \<Rightarrow> False
      | Some ord \<Rightarrow>
          if \<not> Live (store ! live entry) ord then False
          else (case accepts of None \<Rightarrow> True | Some ac \<Rightarrow> ac x))"

text \<open>
  The fan-out: one goroutine per entry of the loaded snapshot, each behind its own
  corruption boundary. The model runs them in the entries' order; the per-segment results
  are independent of it, and a withdrawal changes the published set, not the snapshot
  being read.
\<close>

fun search_entries :: "('q, 's, 'p, 'sc) SegmentFormat \<Rightarrow> Options \<Rightarrow> 's \<Rightarrow> 'q \<Rightarrow> int \<Rightarrow> (ExternalID \<Rightarrow> bool) option
    \<Rightarrow> 'p segmentEntry list \<Rightarrow> ('s, 'p) SegmentedIndex \<Rightarrow> ('s, 'p) SegmentedIndex \<times> 'sc Hit list list outcome" where
  "search_entries f opts st q k accepts [] e = (e, Ret [])"
| "search_entries f opts st q k accepts (entry # es) e =
     (let (e, r) = containCorrupt f opts (seg_ID entry)
                     (s_Search f (payload entry) q st k (accept_live (e_store e) entry accepts)) e
      in case r of
           Panic msg \<Rightarrow> (e, Panic msg)
         | _ \<Rightarrow>
             let hits = (case r of Ret hits \<Rightarrow> hits | _ \<Rightarrow> []);
                 (e, rest) = search_entries f opts st q k accepts es e
             in (e, bind_out rest (\<lambda>hs. Ret (hits # hs))))"

definition SearchAccepting :: "('q, 's, 'p, 'sc::linorder) SegmentFormat \<Rightarrow> Options \<Rightarrow> 'q \<Rightarrow> int
    \<Rightarrow> (ExternalID \<Rightarrow> bool) option \<Rightarrow> ('s, 'p) SegmentedIndex \<Rightarrow> ('s, 'p) SegmentedIndex \<times> 'sc Hit list outcome" where
  "SearchAccepting f opts q k accepts e =
     (if entries (e_set e) = [] \<or> k \<le> 0 then (e, Ret [])
      else let (e', r) = search_entries f opts (stats (e_set e)) q k accepts (entries (e_set e)) e
           in (e', bind_out r (\<lambda>results. Ret (mergeTopK results k))))"

definition Search :: "('q, 's, 'p, 'sc::linorder) SegmentFormat \<Rightarrow> Options \<Rightarrow> 'q \<Rightarrow> int
    \<Rightarrow> ('s, 'p) SegmentedIndex \<Rightarrow> ('s, 'p) SegmentedIndex \<times> 'sc Hit list outcome" where
  "Search f opts q k e = SearchAccepting f opts q k None e"

section \<open>Resident aggregates\<close>

definition ResidentDocCount :: "('s, 'p) SegmentedIndex \<Rightarrow> int" where
  "ResidentDocCount e = foldl (\<lambda>total entry. total + mt_DocCount (meta entry)) 0 (entries (e_set e))"

definition DistinctResidentDocCount :: "('s, 'p) SegmentedIndex \<Rightarrow> int" where
  "DistinctResidentDocCount e = distinctN (e_set e)"

definition ResidentSegmentCount :: "('s, 'p) SegmentedIndex \<Rightarrow> nat" where
  "ResidentSegmentCount e = length (entries (e_set e))"

definition entryIndex :: "('s, 'p) segmentSet \<Rightarrow> (SegmentID, 'p segmentEntry) gomap" where
  "entryIndex s = foldl (\<lambda>idx e. AList.update (seg_ID e) e idx) [] (entries s)"

definition LiveResidentCount :: "('s, 'p) SegmentedIndex \<Rightarrow> nat" where
  "LiveResidentCount e =
     (let idx = entryIndex (e_set e)
      in length (filter (\<lambda>(x, sid). residentMemberIn (e_store e) (map_of idx sid) x) (rangeRoute (e_set e))))"

definition UncoveredFrom :: "ExternalID list \<Rightarrow> ('s, 'p) SegmentedIndex \<Rightarrow> ExternalID list" where
  "UncoveredFrom ids e =
     (let idx = entryIndex (e_set e)
      in filter (\<lambda>x. case routeOf (e_set e) x of
                       None \<Rightarrow> True
                     | Some sid \<Rightarrow> \<not> residentMemberIn (e_store e) (map_of idx sid) x) ids)"

definition VectorByID :: "('q, 's, 'p, 'sc) SegmentFormat \<Rightarrow> Options \<Rightarrow> ExternalID \<Rightarrow> ('s, 'p) SegmentedIndex
    \<Rightarrow> ('s, 'p) SegmentedIndex \<times> byte list option outcome" where
  "VectorByID f opts x e =
     (case entryOf (e_set e) x of
        None \<Rightarrow> (e, Ret None)
      | Some entry \<Rightarrow>
          if \<not> residentMemberIn (e_store e) (Some entry) x then (e, Ret None)
          else (case s_VectorByID f (payload entry) of
                  None \<Rightarrow> (e, Ret None)
                | Some vb \<Rightarrow>
                    (case containCorrupt f opts (seg_ID entry) (vb x) e of
                       (e, Fail _) \<Rightarrow> (e, Ret None)
                     | (e, r) \<Rightarrow> (e, r))))"

section \<open>Withdrawing a segment\<close>

lemma engine_ok_filter:
  assumes "engine_ok f e" "e_set e' = newSegmentSet f (filter P (entries (e_set e)))" "e_store e' = e_store e"
  shows "engine_ok f e'"
  using assms engine_ok_entries[OF assms(1)]
  by (auto simp: engine_ok_def set_ok_new entries_ok_filter distinct_map_filter)

lemma WithdrawSegment_frame [simp]:
  "e_store (fst (WithdrawSegment f sid e)) = e_store e" "e_active (fst (WithdrawSegment f sid e)) = e_active e"
  "e_merges (fst (WithdrawSegment f sid e)) = e_merges e" "e_corrupts (fst (WithdrawSegment f sid e)) = e_corrupts e"
  "e_stopped (fst (WithdrawSegment f sid e)) = e_stopped e" "e_mergeCnt (fst (WithdrawSegment f sid e)) = e_mergeCnt e"
  by (simp_all add: WithdrawSegment_def split: option.splits)

lemma WithdrawSegment_entries:
  "entries (e_set (fst (WithdrawSegment f sid e))) = filter (\<lambda>en. seg_ID en \<noteq> sid) (entries (e_set e))"
  by (auto simp: WithdrawSegment_def entryByID_def entry_scan_None intro!: filter_True[symmetric] split: option.splits)

lemma WithdrawSegment_ok:
  assumes "engine_ok f e" shows "engine_ok f (fst (WithdrawSegment f sid e))"
proof (cases "entryByID (e_set e) sid")
  case (Some en)
  then show ?thesis
    by (intro engine_ok_filter[OF assms, of _ "\<lambda>en. seg_ID en \<noteq> sid"]) (simp_all add: WithdrawSegment_def)
qed (use assms in \<open>simp add: WithdrawSegment_def\<close>)

lemma reportCorrupt_frame [simp]:
  "e_store (reportCorrupt f opts ce e) = e_store e" "e_active (reportCorrupt f opts ce e) = e_active e"
  "e_merges (reportCorrupt f opts ce e) = e_merges e" "e_stopped (reportCorrupt f opts ce e) = e_stopped e"
  "e_mergeCnt (reportCorrupt f opts ce e) = e_mergeCnt e"
  by (cases ce, simp add: reportCorrupt_def Let_def)+

lemma reportCorrupt_entries:
  "entries (e_set (reportCorrupt f opts (sid, d, r) e)) =
     (if r \<or> sid = [] then entries (e_set e) else filter (\<lambda>en. seg_ID en \<noteq> sid) (entries (e_set e)))"
  by (simp add: reportCorrupt_def Let_def WithdrawSegment_entries)

lemma reportCorrupt_ok:
  assumes "engine_ok f e" shows "engine_ok f (reportCorrupt f opts ce e)"
proof -
  obtain sid d r where ce: "ce = (sid, d, r)" by (cases ce)
  let ?w = "if sid \<noteq> [] then fst (WithdrawSegment f sid e) else e"
  have w: "engine_ok f ?w" using assms by (simp add: WithdrawSegment_ok)
  show ?thesis
    using assms w engine_ok_cong[of "reportCorrupt f opts ce e" ?w f]
    by (cases r) (simp_all add: ce reportCorrupt_def Let_def)
qed

lemma reportCorruptFrom_ok: "engine_ok f e \<Longrightarrow> engine_ok f (fst (reportCorruptFrom f opts err e))"
  by (simp add: reportCorruptFrom_def reportCorrupt_ok split: option.splits)

lemma reportCorruptFrom_store [simp]:
  "e_store (fst (reportCorruptFrom f opts err e)) = e_store e" "e_merges (fst (reportCorruptFrom f opts err e)) = e_merges e"
  by (simp_all add: reportCorruptFrom_def split: option.splits)

text \<open>The segment a raise under the boundary of \<open>sid\<close> is attributed to.\<close>

fun blamed :: "SegmentID \<Rightarrow> 'a outcome \<Rightarrow> SegmentID option" where
  "blamed sid (Raised rid d) = (if rid = [] then (if sid = [] then None else Some sid) else Some rid)"
| "blamed sid _ = None"

lemma containCorrupt_spec:
  "e_store (fst (containCorrupt f opts sid r e)) = e_store e"
  "e_merges (fst (containCorrupt f opts sid r e)) = e_merges e"
  "entries (e_set (fst (containCorrupt f opts sid r e))) = filter (\<lambda>en. Some (seg_ID en) \<noteq> blamed sid r) (entries (e_set e))"
  "snd (containCorrupt f opts sid r e) = (case r of Raised rid d \<Rightarrow> Fail (Corrupt (if rid = [] then sid else rid) d True) | _ \<Rightarrow> r)"
  "engine_ok f e \<Longrightarrow> engine_ok f (fst (containCorrupt f opts sid r e))"
  by (cases r; simp add: containCorrupt_def reportCorrupt_entries reportCorrupt_ok)+

section \<open>Searching\<close>

definition contribution :: "('q, 's, 'p, 'sc) SegmentFormat \<Rightarrow> liveDocs list \<Rightarrow> 's \<Rightarrow> 'q \<Rightarrow> int
    \<Rightarrow> (ExternalID \<Rightarrow> bool) option \<Rightarrow> 'p segmentEntry \<Rightarrow> 'sc Hit list" where
  "contribution f store st q k accepts en =
     (case s_Search f (payload en) q st k (accept_live store en accepts) of Ret hits \<Rightarrow> hits | _ \<Rightarrow> [])"

definition no_panic :: "('q, 's, 'p, 'sc) SegmentFormat \<Rightarrow> bool" where
  "no_panic f \<longleftrightarrow> (\<forall>p q st k acc msg. s_Search f p q st k acc \<noteq> Panic msg)"

text \<open>The segment's contract: a search excludes every id the predicate rejects.\<close>

definition search_honest :: "('q, 's, 'p, 'sc) SegmentFormat \<Rightarrow> bool" where
  "search_honest f \<longleftrightarrow> (\<forall>p q st k acc hits. s_Search f p q st k acc = Ret hits \<longrightarrow> (\<forall>h \<in> set hits. acc (hit_ID h)))"

lemma contribution_accepted:
  assumes "search_honest f" "h \<in> set (contribution f store st q k accepts en)"
  shows "accept_live store en accepts (hit_ID h)"
proof (cases "s_Search f (payload en) q st k (accept_live store en accepts)")
  case (Ret hits)
  then have "h \<in> set hits" using assms(2) by (simp add: contribution_def)
  then show ?thesis using assms(1) Ret unfolding search_honest_def by blast
qed (use assms(2) in \<open>simp_all add: contribution_def\<close>)

lemma search_entries_spec:
  assumes "no_panic f" "engine_ok f e" "search_entries f opts st q k accepts es e = (e', r)"
  shows "r = Ret (map (contribution f (e_store e) st q k accepts) es) \<and> e_store e' = e_store e \<and> engine_ok f e' \<and>
    entries (e_set e') = filter (\<lambda>en. \<forall>x \<in> set es. Some (seg_ID en) \<noteq>
       blamed (seg_ID x) (s_Search f (payload x) q st k (accept_live (e_store e) x accepts))) (entries (e_set e))"
  using assms(2,3)
proof (induction es arbitrary: e e' r)
  case (Cons x es)
  let ?s = "s_Search f (payload x) q st k (accept_live (e_store e) x accepts)"
  let ?c = "containCorrupt f opts (seg_ID x) ?s e"
  note C = containCorrupt_spec[where f = f and opts = opts and sid = "seg_ID x" and r = ?s and e = e]
  obtain e1 r1 where c: "?c = (e1, r1)" by fastforce
  have np: "\<And>msg. ?s \<noteq> Panic msg" using assms(1) by (simp add: no_panic_def)
  have r1: "r1 = (case ?s of Raised rid d \<Rightarrow> Fail (Corrupt (if rid = [] then seg_ID x else rid) d True) | _ \<Rightarrow> ?s)"
    using C(4) c by simp
  have hits: "(case r1 of Ret hits \<Rightarrow> hits | _ \<Rightarrow> []) = contribution f (e_store e) st q k accepts x"
    by (simp add: r1 contribution_def split: outcome.splits)
  have st1: "e_store e1 = e_store e" and ok1: "engine_ok f e1"
    and en1: "entries (e_set e1) = filter (\<lambda>en. Some (seg_ID en) \<noteq> blamed (seg_ID x) ?s) (entries (e_set e))"
    using C c Cons.prems(1) by simp_all
  obtain e2 r2 where rest: "search_entries f opts st q k accepts es e1 = (e2, r2)" by fastforce
  have np1: "\<And>msg. r1 \<noteq> Panic msg" using np by (auto simp: r1 split: outcome.splits)
  have "e' = e2 \<and> r = bind_out r2 (\<lambda>hs. Ret ((case r1 of Ret hits \<Rightarrow> hits | _ \<Rightarrow> []) # hs))"
    using Cons.prems(2) np1 by (cases r1) (auto simp: c rest)
  then show ?case using Cons.IH[OF ok1 rest] hits st1 en1 by auto
qed simp

lemma set_mergeTopK: "set (mergeTopK perSegment k) \<subseteq> set (concat perSegment)"
proof -
  have "mset (mergeTopK perSegment k) \<subseteq># mset (concat perSegment)"
    using mergeTopK_best_of[of k perSegment] by (simp add: best_of_def)
  then show ?thesis by (metis set_mset_mono set_mset_mset)
qed

text \<open>A segment that contributes no hit may as well not be asked.\<close>

lemma mergeTopK_skip_empty:
  assumes "\<And>x. x \<in> set xs \<Longrightarrow> \<not> P x \<Longrightarrow> c x = []"
  shows "mergeTopK (map c xs) k = mergeTopK (map c (filter P xs)) k"
proof -
  have "offer_segments h (map c xs) k = offer_segments h (map c (filter P xs)) k" for h
    using assms by (induction xs arbitrary: h) auto
  then show ?thesis by (simp add: mergeTopK_def)
qed

lemma accept_live_iff:
  "accept_live store en accepts x \<longleftrightarrow> live_in store en x \<and> (case accepts of None \<Rightarrow> True | Some ac \<Rightarrow> ac x)"
  by (auto simp: accept_live_def residentMemberIn_def split: option.splits)

section \<open>Aggregates\<close>

lemma index_fold_newest:
  "map_of (foldl (\<lambda>idx e. AList.update (seg_ID e) e idx) [] es) sid = newest (\<lambda>en. seg_ID en = sid) es"
  by (induction es rule: rev_induct) (auto simp: update_conv')

lemma entryIndex_newest: "map_of (entryIndex s) sid = newest (\<lambda>en. seg_ID en = sid) (entries s)"
  by (simp add: entryIndex_def index_fold_newest)

lemma entryIndex_unique:
  assumes "distinct (map seg_ID (entries s))" "en \<in> set (entries s)"
  shows "map_of (entryIndex s) (seg_ID en) = Some en"
proof -
  obtain en' where n: "newest (\<lambda>x. seg_ID x = seg_ID en) (entries s) = Some en'"
    using newest_ex[OF assms(2), of "\<lambda>x. seg_ID x = seg_ID en"] by auto
  then have "en' \<in> set (entries s)" "seg_ID en' = seg_ID en" using newest_SomeD[OF n] by auto
  then have "en' = en" using assms by (auto simp: distinct_map inj_on_def)
  then show ?thesis using n by (simp add: entryIndex_newest)
qed

text \<open>An id is covered when its routed copy is live: the one searchability predicate.\<close>

definition covered :: "('s, 'p) SegmentedIndex \<Rightarrow> ExternalID \<Rightarrow> bool" where
  "covered e x \<longleftrightarrow> (case newest (held x) (entries (e_set e)) of None \<Rightarrow> False | Some en \<Rightarrow> live_in (e_store e) en x)"

lemma index_covered:
  assumes "engine_ok f e" "routeOf (e_set e) x = Some sid"
  shows "residentMemberIn (e_store e) (map_of (entryIndex (e_set e)) sid) x \<longleftrightarrow> covered e x"
proof -
  obtain en where en: "en \<in> set (entries (e_set e))" "seg_ID en = sid" "newest (held x) (entries (e_set e)) = Some en"
    using route.lookup_Some[OF engine_okD(1)[OF assms(1)] assms(2)] by blast
  then have "map_of (entryIndex (e_set e)) sid = Some en"
    using entryIndex_unique[OF engine_okD(3)[OF assms(1)] en(1)] by simp
  then show ?thesis by (simp add: covered_def en(3))
qed

lemma covered_routed: "engine_ok f e \<Longrightarrow> covered e x \<Longrightarrow> \<exists>sid. routeOf (e_set e) x = Some sid"
  by (auto simp: covered_def engine_ok_def routeOf_flat flat_answer_def split: option.splits)

lemma LiveResidentCount_card:
  assumes "engine_ok f e"
  shows "LiveResidentCount e = card {x. covered e x}"
proof -
  have ok: "set_ok (e_set e)" using assms by (simp add: engine_ok_def)
  let ?P = "\<lambda>(x, sid). residentMemberIn (e_store e) (map_of (entryIndex (e_set e)) sid) x"
  have d: "distinct (map fst (rangeRoute (e_set e)))" by (rule rangeRoute_spec(1)[OF ok])
  then have inj: "inj_on fst (set (filter ?P (rangeRoute (e_set e))))"
    by (auto simp: distinct_map inj_on_def)
  have "length (filter ?P (rangeRoute (e_set e))) = card (set (filter ?P (rangeRoute (e_set e))))"
    using d by (intro distinct_card[symmetric] distinct_filter) (simp add: distinct_map)
  also have "\<dots> = card (fst ` set (filter ?P (rangeRoute (e_set e))))" using inj by (simp add: card_image)
  also have "fst ` set (filter ?P (rangeRoute (e_set e))) = {x. covered e x}"
    using index_covered[OF assms] covered_routed[OF assms] rangeRoute_spec(2)[OF ok] by force
  finally show ?thesis by (simp add: LiveResidentCount_def Let_def)
qed

lemma UncoveredFrom_filter:
  assumes "engine_ok f e"
  shows "UncoveredFrom ids e = filter (\<lambda>x. \<not> covered e x) ids"
proof -
  have "(case routeOf (e_set e) x of None \<Rightarrow> True
      | Some sid \<Rightarrow> \<not> residentMemberIn (e_store e) (map_of (entryIndex (e_set e)) sid) x) \<longleftrightarrow> \<not> covered e x" for x
    using index_covered[OF assms] covered_routed[OF assms, of x] by (auto split: option.splits)
  then show ?thesis by (simp add: UncoveredFrom_def Let_def)
qed

lemma entryOf_covered:
  assumes "engine_ok f e"
  shows "(case entryOf (e_set e) x of None \<Rightarrow> False | Some en \<Rightarrow> live_in (e_store e) en x) \<longleftrightarrow> covered e x"
proof (cases "entryOf (e_set e) x")
  case None
  then show ?thesis using entryOf_None_iff[OF assms, of x] by (simp add: covered_def)
next
  case (Some en)
  obtain t where "newest (held x) (entries (e_set e)) = Some t" "t \<in> set (entries (e_set e))"
    "live en = live t" "members en = members t"
    using assms Some by (rule entryOf_resident)
  then show ?thesis by (simp add: Some covered_def residentMemberIn_def split: option.split)
qed

section \<open>Properties\<close>

text \<open>
  C8: a search answers from live documents only. Under a format whose segments honour the
  predicate they are given and do not panic, a search over a well-formed engine returns; every
  hit is a document that is live in some resident segment and passes the caller's predicate,
  there are at most k of them, and they are the merged top k of the per-segment results.
\<close>

theorem search_returns_live_accepted:
  assumes "engine_ok f e" "no_panic f" "search_honest f"
  shows "\<exists>e' hits. SearchAccepting f opts q k accepts e = (e', Ret hits) \<and> engine_ok f e' \<and>
    e_store e' = e_store e \<and> int (length hits) \<le> max 0 k \<and>
    hits = (if k \<le> 0 then [] else
      mergeTopK (map (contribution f (e_store e) (stats (e_set e)) q k accepts) (entries (e_set e))) k) \<and>
    (\<forall>h \<in> set hits. \<exists>en \<in> set (entries (e_set e)). live_in (e_store e) en (hit_ID h) \<and>
       (case accepts of None \<Rightarrow> True | Some ac \<Rightarrow> ac (hit_ID h)))"
proof (cases "entries (e_set e) = [] \<or> k \<le> 0")
  case True
  then show ?thesis using assms(1) by (auto simp: SearchAccepting_def mergeTopK_def)
next
  case False
  let ?c = "contribution f (e_store e) (stats (e_set e)) q k accepts"
  obtain e' r where s: "search_entries f opts (stats (e_set e)) q k accepts (entries (e_set e)) e = (e', r)" by fastforce
  note S = search_entries_spec[OF assms(2,1) s]
  define hits where "hits = mergeTopK (map ?c (entries (e_set e))) k"
  have res: "SearchAccepting f opts q k accepts e = (e', Ret hits)"
    using S s False by (simp add: SearchAccepting_def hits_def)
  have "best_of (nat k) (mset (concat (map ?c (entries (e_set e))))) (mset hits)"
    unfolding hits_def by (rule mergeTopK_best_of)
  then have "int (length hits) \<le> max 0 k" by (simp add: best_of_def)
  moreover have "\<exists>en \<in> set (entries (e_set e)). live_in (e_store e) en (hit_ID h) \<and>
       (case accepts of None \<Rightarrow> True | Some ac \<Rightarrow> ac (hit_ID h))" if h: "h \<in> set hits" for h
  proof -
    obtain en where en: "en \<in> set (entries (e_set e))" "h \<in> set (?c en)"
      using h set_mergeTopK[of "map ?c (entries (e_set e))" k] by (auto simp: hits_def)
    then have "accept_live (e_store e) en accepts (hit_ID h)"
      using contribution_accepted[OF assms(3)] by blast
    then show ?thesis using en(1) by (auto simp: accept_live_iff)
  qed
  ultimately show ?thesis using res S False hits_def by auto
qed

lemma ids_no_panic: "no_panic ids_format"
  by (simp add: no_panic_def ids_format_def)

lemma ids_search_honest: "search_honest ids_format"
  by (auto simp: search_honest_def ids_format_def dest!: in_set_takeD)

lemma search_returns_live_accepted_witness:
  "\<exists>e' hits. SearchAccepting ids_format \<lparr>o_MinSegmentDocs = 1, o_DeletesPctAllowed = 1, o_SegmentCountTarget = 1,
       o_OnMerge = False, o_OnCorruptSegment = False, o_OnBuildDegrade = False, o_MapBlob = None,
       o_IO = \<lparr>io_open = None, io_truncate = None, io_close = None, io_remove = None\<rparr>\<rparr> ''x'' 3 None
     (ids_engine [(''A'', [''x'', ''y''])]) = (e', Ret hits) \<and> map hit_ID hits = [''x'']"
proof -
  let ?e = "ids_engine [(''A'', [''x'', ''y''])]"
  let ?o = "\<lparr>o_MinSegmentDocs = 1, o_DeletesPctAllowed = 1, o_SegmentCountTarget = 1,
       o_OnMerge = False, o_OnCorruptSegment = False, o_OnBuildDegrade = False, o_MapBlob = None,
       o_IO = \<lparr>io_open = None, io_truncate = None, io_close = None, io_remove = None\<rparr>\<rparr>"
  have ok: "engine_ok ids_format ?e" by (rule ids_engine_ok) auto
  have "contribution ids_format (e_store ?e) (stats (e_set ?e)) ''x'' 3 None (ids_entry ''A'' 0 [''x'', ''y'']) =
      [\<lparr>hit_ID = ''x'', hit_Score = 1\<rparr>]"
    by (simp add: contribution_def ids_format_def accept_live_def ids_engine_def ids_entry_def Live_new)
  then show ?thesis
    using search_returns_live_accepted[OF ok ids_no_panic ids_search_honest, of ?o "''x''" 3 None]
    by (auto simp: mergeTopK_def Offer_def siftUp.simps)
qed


text \<open>
  A format whose segment \<open>[''bad'']\<close> is damaged: reading it raises, and every other segment
  is searched as the reference format does.
\<close>

definition damaged_format :: "(ExternalID, nat, ExternalID list, int) SegmentFormat" where
  "damaged_format = ids_format\<lparr>s_Search := \<lambda>p q st k acc.
     if p = [''bad''] then RaiseCorrupt ''posting run'' else s_Search ids_format p q st k acc\<rparr>"


text \<open>
  the counts, the coverage diff and the vector read agree on what is searchable. On a
  well-formed engine \<open>LiveResidentCount\<close> is the number of ids whose routed copy is live,
  \<open>UncoveredFrom\<close> returns exactly the ids that are not such, in order, the distinct count
  bounds the live one, and a by-id vector read declines every id that is not covered.
\<close>

lemma coverage_answers_agree:
  assumes "engine_ok f e"
  shows "LiveResidentCount e = card {x. covered e x} \<and>
    UncoveredFrom ids e = filter (\<lambda>x. \<not> covered e x) ids \<and>
    int (LiveResidentCount e) \<le> DistinctResidentDocCount e \<and>
    (\<not> covered e x \<longrightarrow> VectorByID f opts x e = (e, Ret None))"
proof -
  have dn: "DistinctResidentDocCount e = int (card (resident_ids (entries (e_set e))))"
    using assms by (simp add: DistinctResidentDocCount_def engine_ok_def set_ok_def)
  have "{x. covered e x} \<subseteq> resident_ids (entries (e_set e))"
    by (auto simp: covered_def resident_ids_def held_iff dest!: newest_SomeD split: option.splits)
  then have "card {x. covered e x} \<le> card (resident_ids (entries (e_set e)))" by (simp add: card_mono)
  moreover have "VectorByID f opts x e = (e, Ret None)" if "\<not> covered e x"
    using that entryOf_covered[OF assms, of x] by (auto simp: VectorByID_def split: option.splits)
  ultimately show ?thesis
    using dn LiveResidentCount_card[OF assms] UncoveredFrom_filter[OF assms] by simp
qed

lemma coverage_answers_agree_witness:
  "UncoveredFrom [''x'', ''z''] (ids_engine [(''A'', [''x''])]) = [''z'']"
proof -
  let ?e = "ids_engine [(''A'', [''x''])]"
  have ok: "engine_ok ids_format ?e" by (rule ids_engine_ok) auto
  have "covered ?e ''x''" "\<not> covered ?e ''z''"
    by (simp_all add: covered_def newest_Cons residentMemberIn_def ids_engine_def ids_entry_def Live_new held_def)
  then show ?thesis using coverage_answers_agree[OF ok, of "[''x'', ''z'']"] by simp
qed

text \<open>
  a delete is visible to every search that follows. When each id has no searchable copy but
  the routed one, no search after \<open>Delete x\<close> returns \<open>x\<close>, and \<open>x\<close> is reported uncovered.
\<close>

lemma deleted_id_never_returned:
  assumes "engine_ok f e" "one_copy e" "no_panic f" "search_honest f"
    "SearchAccepting f opts q k accepts (Delete x e) = (e', Ret hits)"
  shows "x \<notin> hit_ID ` set hits \<and> UncoveredFrom [x] (Delete x e) = [x]"
proof -
  have ok: "engine_ok f (Delete x e)" using assms(1) by (rule Delete_ok)
  have dead: "\<not> live_in (e_store (Delete x e)) en x" if "en \<in> set (entries (e_set e))" for en
    using that assms(2) by (auto simp: Delete_live[OF assms(1)] one_copy_def)
  let ?d = "Delete x e" and ?c = "contribution f (e_store (Delete x e)) (stats (e_set e)) q k accepts"
  have "x \<notin> hit_ID ` set hits"
  proof (cases "entries (e_set e) = [] \<or> k \<le> 0")
    case False
    obtain e1 r where s: "search_entries f opts (stats (e_set e)) q k accepts (entries (e_set e)) ?d = (e1, r)" by fastforce
    note S = search_entries_spec[OF assms(3) ok s]
    have "hits = mergeTopK (map ?c (entries (e_set e))) k"
      using assms(5) S s False by (simp add: SearchAccepting_def)
    moreover have "x \<noteq> hit_ID h" if "en \<in> set (entries (e_set e))" "h \<in> set (?c en)" for en h
    proof -
      have "accept_live (e_store ?d) en accepts (hit_ID h)"
        using contribution_accepted[OF assms(4) that(2)] .
      then show ?thesis using dead[OF that(1)] by (auto simp: accept_live_iff)
    qed
    ultimately show ?thesis using set_mergeTopK[of "map ?c (entries (e_set e))" k] by fastforce
  qed (use assms(5) in \<open>auto simp: SearchAccepting_def\<close>)
  moreover have "\<not> covered ?d x"
    using dead by (auto simp: covered_def dest!: newest_SomeD split: option.splits)
  ultimately show ?thesis using UncoveredFrom_filter[OF ok, of "[x]"] by simp
qed

lemma deleted_id_never_returned_witness:
  "\<exists>e' hits. SearchAccepting ids_format \<lparr>o_MinSegmentDocs = 1, o_DeletesPctAllowed = 1, o_SegmentCountTarget = 1,
       o_OnMerge = False, o_OnCorruptSegment = False, o_OnBuildDegrade = False, o_MapBlob = None,
       o_IO = \<lparr>io_open = None, io_truncate = None, io_close = None, io_remove = None\<rparr>\<rparr> ''x'' 3 None
     (Delete ''x'' (ids_engine [(''A'', [''x'', ''y''])])) = (e', Ret hits) \<and> ''x'' \<notin> hit_ID ` set hits"
proof -
  let ?e = "ids_engine [(''A'', [''x'', ''y''])]"
  let ?o = "\<lparr>o_MinSegmentDocs = 1, o_DeletesPctAllowed = 1, o_SegmentCountTarget = 1,
       o_OnMerge = False, o_OnCorruptSegment = False, o_OnBuildDegrade = False, o_MapBlob = None,
       o_IO = \<lparr>io_open = None, io_truncate = None, io_close = None, io_remove = None\<rparr>\<rparr>"
  have ok: "engine_ok ids_format ?e" by (rule ids_engine_ok) auto
  have oc: "one_copy ?e" by (auto simp: one_copy_def newest_Cons dest: live_in_held)
  obtain e' r where s: "search_entries ids_format ?o (stats (e_set ?e)) ''x'' 3 None (entries (e_set ?e)) (Delete ''x'' ?e) = (e', r)"
    by fastforce
  have "\<exists>hits. r = Ret hits" using search_entries_spec[OF ids_no_panic Delete_ok[OF ok] s] by blast
  then obtain hits where h: "SearchAccepting ids_format ?o ''x'' 3 None (Delete ''x'' ?e) = (e', Ret hits)"
    using s by (auto simp: SearchAccepting_def)
  then show ?thesis using deleted_id_never_returned[OF ok oc ids_no_panic ids_search_honest h] by blast
qed

end
