(* ===== verification/Membership.thy ===== *)
theory Membership
  imports Reads
begin

text \<open>
  \<open>internal/searchengine/bucket_membership.go\<close>: which partitions a segment occupies, the
  supersede that keeps one live copy per id, and the containment question a caller asks
  before it drops a segment.

  Shown: the supersede of a batch that creates its segment leaves each id one searchable
  copy, the new one, and touches no other document; spans and constituents are derived from
  membership and agree. Two statements the comments make do not hold: re-adding content
  that an older resident segment already carries leaves a copy no lookup reaches, and a kill
  reaches the routed copy of an id only.
\<close>

fun killSuperseded :: "('s, 'p) segmentSet \<Rightarrow> ExternalID list \<Rightarrow> liveDocs list \<Rightarrow> liveDocs list" where
  "killSuperseded s [] store = store"
| "killSuperseded s (x # xs) store =
     killSuperseded s xs
       (case entryOf s x of
          None \<Rightarrow> store
        | Some entry \<Rightarrow>
            (case map_of (members entry) x of
               Some ord \<Rightarrow> kill_at store (live entry) ord
             | None \<Rightarrow> store))"

definition KillSuperseded :: "ExternalID list \<Rightarrow> ('s, 'p) SegmentedIndex \<Rightarrow> ('s, 'p) SegmentedIndex" where
  "KillSuperseded ids e = e\<lparr>e_store := killSuperseded (e_set e) ids (e_store e)\<rparr>"

record SealResult =
  sr_ID :: SegmentID
  sr_Created :: bool

record 'p victim =
  v_entry :: "'p segmentEntry"
  v_seg :: SegmentID
  v_ord :: int

fun victims_of :: "('s, 'p) segmentSet \<Rightarrow> Document list \<Rightarrow> 'p victim list" where
  "victims_of snap [] = []"
| "victims_of snap (d # ds) =
     (case entryOf snap (doc_ID d) of
        None \<Rightarrow> victims_of snap ds
      | Some entry \<Rightarrow>
          (case map_of (members entry) (doc_ID d) of
             Some ord \<Rightarrow> \<lparr>v_entry = entry, v_seg = seg_ID entry, v_ord = ord\<rparr> # victims_of snap ds
           | None \<Rightarrow> victims_of snap ds))"

fun revive_docs :: "'p segmentEntry \<Rightarrow> Document list \<Rightarrow> liveDocs list \<Rightarrow> liveDocs list" where
  "revive_docs answering [] store = store"
| "revive_docs answering (d # ds) store =
     revive_docs answering ds
       (case map_of (members answering) (doc_ID d) of
          Some ord \<Rightarrow> revive_at store (live answering) ord
        | None \<Rightarrow> store)"

fun kill_victims :: "SegmentID \<Rightarrow> 'p victim list \<Rightarrow> liveDocs list \<Rightarrow> liveDocs list" where
  "kill_victims sealedID [] store = store"
| "kill_victims sealedID (v # vs) store =
     kill_victims sealedID vs
       (if v_seg v = sealedID then store else kill_at store (live (v_entry v)) (v_ord v))"

definition AddSealAndSupersede :: "('q, 's, 'p, 'sc) SegmentFormat \<Rightarrow> Options \<Rightarrow> Document list
    \<Rightarrow> ('s, 'p) SegmentedIndex \<Rightarrow> ('s, 'p) SegmentedIndex \<times> SealResult outcome" where
  "AddSealAndSupersede f opts docs e =
     (if docs = [] then (e, Ret \<lparr>sr_ID = [], sr_Created = False\<rparr>)
      else let victims = victims_of (e_set e) docs;
               drained = e_active e @ docs
           in case seal f opts drained (e\<lparr>e_active := []\<rparr>) of
                (e, Ret (sealedID, created)) \<Rightarrow>
                  (let res = \<lparr>sr_ID = sealedID, sr_Created = created\<rparr>
                   in case entryByID (e_set e) sealedID of
                        None \<Rightarrow> (e, Ret res)
                      | Some answering \<Rightarrow>
                          (e\<lparr>e_store := kill_victims sealedID victims (revive_docs answering docs (e_store e))\<rparr>, Ret res))
              | (e, r) \<Rightarrow> (e, failed r))"

definition LiveMembersOutside :: "SegmentID list \<Rightarrow> ExternalID list \<Rightarrow> ('s, 'p) SegmentedIndex \<Rightarrow> (SegmentID, int) gomap" where
  "LiveMembersOutside ids cov e =
     (let idx = entryIndex (e_set e)
      in foldl (\<lambda>out sid. case map_of idx sid of
            None \<Rightarrow> out
          | Some entry \<Rightarrow>
              (let n = int (length (filter (\<lambda>(x, _). x \<notin> set cov \<and> residentMemberIn (e_store e) (Some entry) x) (members entry)))
               in if n > 0 then AList.update sid n out else out)) [] ids)"

definition SegmentSpans :: "int \<Rightarrow> ('s, 'p) SegmentedIndex \<Rightarrow> (SegmentID, int list) gomap" where
  "SegmentSpans bucketCount e =
     foldl (\<lambda>out entry.
        let buckets = sort (remdups (map (\<lambda>(x, _). BucketOf x bucketCount) (members entry)))
        in if buckets = [] then out else AList.update (seg_ID entry) buckets out) [] (entries (e_set e))"

definition BucketConstituents :: "int \<Rightarrow> int \<Rightarrow> ('s, 'p) SegmentedIndex \<Rightarrow> SegmentID list" where
  "BucketConstituents bucket bucketCount e =
     map seg_ID (filter (\<lambda>entry. list_ex (\<lambda>(x, _). BucketOf x bucketCount = bucket) (members entry)) (entries (e_set e)))"

section \<open>Kills and revives\<close>

lemma live_in_kill_raw:
  assumes "entry_live_ok store en"
  shows "live_in (kill_at store a i) en y \<longleftrightarrow> live_in store en y \<and> \<not> (a = live en \<and> map_of (members en) y = Some i)"
  using assms
  by (cases "a = live en") (auto simp: residentMemberIn_def kill_at_def entry_live_ok_def Live_Kill split: option.splits)

lemma live_in_revive_raw:
  assumes "entry_live_ok store en"
  shows "live_in (revive_at store a i) en y \<longleftrightarrow> live_in store en y \<or> (a = live en \<and> map_of (members en) y = Some i)"
proof (cases "a = live en")
  case True
  have "0 \<le> j \<and> j < int (ld_n (store ! live en))" if "map_of (members en) y = Some j" for j
    using assms that by (auto simp: entry_live_ok_def members_ok_def dest: map_of_SomeD)
  then show ?thesis using assms True
    by (auto simp: residentMemberIn_def revive_at_def entry_live_ok_def Live_Revive split: option.splits)
qed (auto simp: residentMemberIn_def revive_at_def split: option.splits)

lemma revive_docs_spec:
  "entry_live_ok store en \<Longrightarrow> entry_live_ok (revive_docs ans docs store) en \<and>
   (live_in (revive_docs ans docs store) en y \<longleftrightarrow> live_in store en y \<or>
      (\<exists>d \<in> set docs. live ans = live en \<and> (\<exists>i. map_of (members ans) (doc_ID d) = Some i \<and> map_of (members en) y = Some i)))"
  by (induction docs arbitrary: store)
    (auto simp: live_in_revive_raw entry_live_ok_revive split: option.splits)

lemma kill_victims_spec:
  "entry_live_ok store en \<Longrightarrow> entry_live_ok (kill_victims sid vs store) en \<and>
   (live_in (kill_victims sid vs store) en y \<longleftrightarrow> live_in store en y \<and>
      \<not> (\<exists>v \<in> set vs. v_seg v \<noteq> sid \<and> live (v_entry v) = live en \<and> map_of (members en) y = Some (v_ord v)))"
  by (induction vs arbitrary: store) (auto simp: live_in_kill_raw entry_live_ok_kill)

lemma killSuperseded_spec:
  "entry_live_ok store en \<Longrightarrow> entry_live_ok (killSuperseded s xs store) en \<and>
   (live_in (killSuperseded s xs store) en y \<longleftrightarrow> live_in store en y \<and>
      \<not> (\<exists>x \<in> set xs. \<exists>t i. entryOf s x = Some t \<and> map_of (members t) x = Some i \<and> live t = live en \<and>
           map_of (members en) y = Some i))"
  by (induction xs arbitrary: store)
    (auto simp: live_in_kill_raw entry_live_ok_kill split: option.splits)

lemma victims_mem:
  "v \<in> set (victims_of s docs) \<longleftrightarrow> (\<exists>d \<in> set docs. \<exists>en i. entryOf s (doc_ID d) = Some en \<and>
     map_of (members en) (doc_ID d) = Some i \<and> v = \<lparr>v_entry = en, v_seg = seg_ID en, v_ord = i\<rparr>)"
  by (induction docs) (auto split: option.splits)

text \<open>What a kill of one routed ordinal means for the ids of an engine.\<close>

lemma routed_hit:
  assumes "engine_ok f e" "en \<in> set (entries (e_set e))" "entryOf (e_set e) x = Some t"
    "map_of (members t) x = Some i"
  shows "live t = live en \<and> map_of (members en) y = Some i \<longleftrightarrow> newest (held x) (entries (e_set e)) = Some en \<and> y = x"
proof -
  obtain t' where t': "newest (held x) (entries (e_set e)) = Some t'" "t' \<in> set (entries (e_set e))"
    "live t = live t'" "members t = members t'" using assms(1,3) by (rule entryOf_resident)
  have mo: "members_ok (members t') (ld_n (e_store e ! live t'))"
    using engine_okD(5)[OF assms(1) t'(2)] by (simp add: entry_live_ok_def)
  have "live t' = live en \<longleftrightarrow> t' = en" using entries_same_live[OF assms(1) t'(2) assms(2)] by auto
  moreover have "map_of (members t') y = Some i \<longleftrightarrow> y = x" using assms(4) t'(4) same_ord_same_id[OF mo] by auto
  ultimately show ?thesis using t' by auto
qed

lemma entryOf_ord:
  assumes "engine_ok f e" "newest (held x) (entries (e_set e)) = Some en"
  obtains t i where "entryOf (e_set e) x = Some t" "map_of (members t) x = Some i" "seg_ID t = seg_ID en"
proof -
  obtain t where t: "entryOf (e_set e) x = Some t" using entryOf_None_iff[OF assms(1), of x] assms(2) by auto
  obtain t' where "newest (held x) (entries (e_set e)) = Some t'" "held x t'" "members t = members t'" "seg_ID t = seg_ID t'"
    using assms(1) t by (rule entryOf_resident)
  then show ?thesis using that t assms(2) by (auto simp: held_def)
qed

lemma killSuperseded_live:
  assumes "engine_ok f e" "en \<in> set (entries (e_set e))"
  shows "live_in (killSuperseded (e_set e) xs (e_store e)) en y \<longleftrightarrow>
    live_in (e_store e) en y \<and> \<not> (y \<in> set xs \<and> newest (held y) (entries (e_set e)) = Some en)"
proof -
  have "(\<exists>x \<in> set xs. \<exists>t i. entryOf (e_set e) x = Some t \<and> map_of (members t) x = Some i \<and> live t = live en \<and>
           map_of (members en) y = Some i) \<longleftrightarrow> y \<in> set xs \<and> newest (held y) (entries (e_set e)) = Some en"
    (is "?L = ?R")
  proof
    assume ?L
    then obtain x t i where x: "x \<in> set xs" "entryOf (e_set e) x = Some t" "map_of (members t) x = Some i"
      and "live t = live en \<and> map_of (members en) y = Some i" by blast
    then show ?R using routed_hit[OF assms x(2,3), of y] by simp
  next
    assume "y \<in> set xs \<and> newest (held y) (entries (e_set e)) = Some en"
    moreover from this obtain t i where t: "entryOf (e_set e) y = Some t" "map_of (members t) y = Some i"
      using entryOf_ord[OF assms(1)] by blast
    ultimately show "\<exists>x \<in> set xs. \<exists>t i. entryOf (e_set e) x = Some t \<and> map_of (members t) x = Some i \<and> live t = live en \<and>
        map_of (members en) y = Some i"
      using routed_hit[OF assms t, of y] by blast
  qed
  note eq = this
  show ?thesis
    unfolding killSuperseded_spec[OF engine_okD(5)[OF assms], THEN conjunct2] eq by (rule refl)
qed

lemma KillSuperseded_ok: "engine_ok f e \<Longrightarrow> engine_ok f (KillSuperseded ids e)"
  by (auto simp: engine_ok_def KillSuperseded_def killSuperseded_spec)

section \<open>Superseding a batch\<close>

text \<open>A format that indexes every document of a batch it builds.\<close>

definition build_exact :: "('q, 's, 'p, 'sc) SegmentFormat \<Rightarrow> bool" where
  "build_exact f \<longleftrightarrow> (\<forall>docs seg ids. snd (f_Build f docs) = Ret seg \<longrightarrow> s_IDs f seg = Ret ids \<longrightarrow>
     set ids = doc_ID ` set docs)"

lemma ids_build_exact: "build_exact ids_format"
  by (auto simp: build_exact_def ids_format_def)

lemma dedupe_doc_ids: "doc_ID ` set (dedupeDocsByID docs) = doc_ID ` set docs"
proof -
  have "doc_ID d \<in> doc_ID ` set (dedupeDocsByID docs)" if d: "d \<in> set docs" for d
  proof -
    obtain d' where n: "newest (\<lambda>d'. doc_ID d' = doc_ID d) docs = Some d'"
      using newest_ex[OF d, of "\<lambda>d'. doc_ID d' = doc_ID d"] by auto
    then have "doc_ID d' = doc_ID d" using newest_SomeD[OF n] by blast
    then show ?thesis using n by (auto simp: dedupe_mem intro!: rev_image_eqI[of d'])
  qed
  moreover have "d \<in> set docs" if "d \<in> set (dedupeDocsByID docs)" for d
    using that newest_SomeD[of _ docs d] by (simp add: dedupe_mem)
  ultimately show ?thesis by blast
qed

lemma victims_old:
  assumes ok: "engine_ok f e" and new: "sid \<notin> seg_ID ` set (entries (e_set e))" and "v \<in> set (victims_of (e_set e) docs)"
  shows "v_seg v \<noteq> sid \<and> live (v_entry v) < length (e_store e)"
proof -
  obtain d t where "d \<in> set docs" and t: "entryOf (e_set e) (doc_ID d) = Some t" and v: "v_entry v = t" "v_seg v = seg_ID t"
    using assms(3) by (auto simp: victims_mem)
  obtain t' where "t' \<in> set (entries (e_set e))" "live t = live t'" "seg_ID t = seg_ID t'" using ok t by (rule entryOf_resident)
  then show ?thesis using new v entry_addr[OF ok] by auto
qed

text \<open>The victims of a batch are the routed copies of its ids.\<close>

lemma victims_hit:
  assumes ok: "engine_ok f e" and m: "en0 \<in> set (entries (e_set e))" and new: "sid \<notin> seg_ID ` set (entries (e_set e))"
  shows "(\<exists>v \<in> set (victims_of (e_set e) docs). v_seg v \<noteq> sid \<and> live (v_entry v) = live en0 \<and>
      map_of (members en0) y = Some (v_ord v)) \<longleftrightarrow>
    y \<in> doc_ID ` set docs \<and> newest (held y) (entries (e_set e)) = Some en0" (is "?L = ?R")
proof
  assume ?L
  then obtain d t i where "d \<in> set docs" and t: "entryOf (e_set e) (doc_ID d) = Some t" "map_of (members t) (doc_ID d) = Some i"
    and "live t = live en0" "map_of (members en0) y = Some i" by (auto simp: victims_mem)
  then show ?R using routed_hit[OF ok m t, of y] by auto
next
  assume R: ?R
  then obtain d where d: "d \<in> set docs" "y = doc_ID d" by blast
  obtain t i where t: "entryOf (e_set e) y = Some t" "map_of (members t) y = Some i"
    using entryOf_ord[OF ok conjunct2[OF R]] by blast
  have "\<lparr>v_entry = t, v_seg = seg_ID t, v_ord = i\<rparr> \<in> set (victims_of (e_set e) docs)" using d t by (auto simp: victims_mem)
  then show ?L using routed_hit[OF ok m t, of y] R victims_old[OF ok new] by fastforce
qed

lemma supersede_created:
  assumes ok: "engine_ok f e" and sa: "stats_agree f" and "docs \<noteq> []" and act: "e_active e = []"
    and res: "AddSealAndSupersede f opts docs e = (e', Ret \<lparr>sr_ID = sid, sr_Created = True\<rparr>)"
  obtains en e1 where "build_entry f opts (dedupeDocsByID docs) (e\<lparr>e_active := []\<rparr>) = (e1, Ret en)"
    "seg_ID en = sid" "sid \<notin> seg_ID ` set (entries (e_set e))" "entries (e_set e') = entries (e_set e) @ [en]"
    "engine_ok f e'" "\<And>y. live_in (e_store e') en y \<longleftrightarrow> held y en"
    "\<And>en0 y. en0 \<in> set (entries (e_set e)) \<Longrightarrow> live_in (e_store e') en0 y \<longleftrightarrow> live_in (e_store e) en0 y \<and>
       \<not> (y \<in> doc_ID ` set docs \<and> newest (held y) (entries (e_set e)) = Some en0)"
proof -
  let ?e0 = "e\<lparr>e_active := []\<rparr>" and ?vs = "victims_of (e_set e) docs"
  have ok0: "engine_ok f ?e0" using ok engine_ok_cong[of ?e0 e f] by simp
  obtain e2 r where s: "seal f opts docs ?e0 = (e2, r)" by fastforce
  have r: "r = Ret (sid, True)"
    using res s assms(3) act by (cases r) (auto simp: AddSealAndSupersede_def Let_def split: option.splits)
  obtain en e1 where b: "build_entry f opts (dedupeDocsByID docs) ?e0 = (e1, Ret en)" "seg_ID en = sid"
    and ok2: "engine_ok f e2" and st2: "e_store e2 = e_store e1" and ents: "entries (e_set e2) = entries (e_set e) @ [en]"
    and new: "sid \<notin> seg_ID ` set (entries (e_set e))"
    by (rule seal_Ret[OF ok0 sa s[unfolded r]]) auto
  have by_id: "entryByID (e_set e2) sid = Some en"
    using entry_scan_unique[OF engine_okD(3)[OF ok2], of en] b(2) by (simp add: entryByID_def ents)
  have e': "e' = e2\<lparr>e_store := kill_victims sid ?vs (revive_docs en docs (e_store e2))\<rparr>"
    using res s r assms(3) act by_id by (auto simp: AddSealAndSupersede_def Let_def)
  obtain ld where ld: "e_store e2 = e_store e @ [ld]" using build_entry_Ret(1)[OF b(1)] st2 by auto
  have addr: "live en = length (e_store e)" using build_entry_Ret(2)[OF b(1)] by simp
  note vic = victims_old[OF ok new]
  have eok: "entry_live_ok (e_store e2) x" if "x \<in> set (entries (e_set e)) \<or> x = en" for x
    using engine_okD(5)[OF ok2, of x] that by (auto simp: ents)
  have RL: "live_in (revive_docs en docs (e_store e2)) z y \<longleftrightarrow> live_in (e_store e2) z y \<or>
      (\<exists>d \<in> set docs. live en = live z \<and> (\<exists>i. map_of (members en) (doc_ID d) = Some i \<and> map_of (members z) y = Some i))"
    and RK: "entry_live_ok (e_store e') z"
      "live_in (e_store e') z y \<longleftrightarrow> live_in (revive_docs en docs (e_store e2)) z y \<and>
        \<not> (\<exists>v \<in> set ?vs. v_seg v \<noteq> sid \<and> live (v_entry v) = live z \<and> map_of (members z) y = Some (v_ord v))"
    if z: "z \<in> set (entries (e_set e)) \<or> z = en" for z y
    by (simp_all add: e' conjunct2[OF revive_docs_spec[OF eok[OF z]]]
        kill_victims_spec[OF conjunct1[OF revive_docs_spec[OF eok[OF z]]]])
  have 1: "engine_ok f e'" using ok2 RK(1) by (simp add: engine_ok_def ents) (simp add: e' ents)
  have 2: "live_in (e_store e') en y \<longleftrightarrow> held y en" for y
  proof -
    have "live_in (e_store e2) en y \<longleftrightarrow> held y en" using build_entry_Ret(5)[OF b(1)] st2 by simp
    then have "live_in (revive_docs en docs (e_store e2)) en y \<longleftrightarrow> held y en"
      using RL[of en y] by (auto simp: held_def)
    moreover have "\<not> (\<exists>v \<in> set ?vs. v_seg v \<noteq> sid \<and> live (v_entry v) = live en \<and> map_of (members en) y = Some (v_ord v))"
      using vic addr by fastforce
    ultimately show ?thesis using RK(2)[of en y] by simp
  qed
  have 3: "live_in (e_store e') en0 y \<longleftrightarrow> live_in (e_store e) en0 y \<and>
       \<not> (y \<in> doc_ID ` set docs \<and> newest (held y) (entries (e_set e)) = Some en0)" if m: "en0 \<in> set (entries (e_set e))" for en0 y
  proof -
    have ne: "live en \<noteq> live en0" using addr entry_addr[OF ok m] by simp
    have "live_in (e_store e2) en0 y = live_in (e_store e) en0 y" using entry_addr[OF ok m] by (simp add: ld live_in_append)
    then have rv: "live_in (revive_docs en docs (e_store e2)) en0 y = live_in (e_store e) en0 y"
      using RL[of en0 y] m ne by simp
    show ?thesis using RK(2)[of en0 y] m rv victims_hit[OF ok m new, of docs y] by simp
  qed
  show ?thesis by (rule that[OF b new _ 1 2 3]) (auto simp: e' ents)
qed

section \<open>Spans\<close>

lemma sort_remdups_map_Nil [simp]: "sort (remdups (map g xs)) = [] \<longleftrightarrow> xs = []"
  for g :: "'a \<Rightarrow> 'b::linorder"
  by (metis set_sort set_remdups set_map set_empty image_is_empty)

lemma spans_fold:
  assumes "distinct (map seg_ID es)"
  shows "map_of (foldl (\<lambda>out entry.
        let buckets = sort (remdups (map (\<lambda>(x, _). BucketOf x n) (members entry)))
        in if buckets = [] then out else AList.update (seg_ID entry) buckets out) [] es) sid =
    (case newest (\<lambda>en. seg_ID en = sid) es of
       None \<Rightarrow> None
     | Some en \<Rightarrow> if members en = [] then None
                   else Some (sort (remdups (map (\<lambda>(x, _). BucketOf x n) (members en)))))"
  using assms
proof (induction es rule: rev_induct)
  case (snoc en es)
  have "seg_ID en \<notin> seg_ID ` set es" using snoc.prems by simp
  then have "newest (\<lambda>e. seg_ID e = seg_ID en) es = None" unfolding newest_None_iff by (metis image_eqI)
  then show ?case using snoc by (auto simp: Let_def update_conv' split: option.splits)
qed simp

lemma SegmentSpans_of:
  assumes "engine_ok f e" "en \<in> set (entries (e_set e))" "members en \<noteq> []"
  shows "map_of (SegmentSpans n e) (seg_ID en) = Some (sort (remdups (map (\<lambda>(x, _). BucketOf x n) (members en))))"
proof -
  have "newest (\<lambda>x. seg_ID x = seg_ID en) (entries (e_set e)) = Some en"
    using entryIndex_unique[OF engine_okD(3)[OF assms(1)] assms(2)] by (simp add: entryIndex_newest)
  then show ?thesis using spans_fold[OF engine_okD(3)[OF assms(1)], of n "seg_ID en"] assms(3)
    by (simp add: SegmentSpans_def)
qed

section \<open>Properties\<close>


abbreviation plain_doc :: "ExternalID \<Rightarrow> Document" where
  "plain_doc x \<equiv> \<lparr>doc_ID = x, doc_Fields = [], doc_Vector = [], doc_Dtype = []\<rparr>"

abbreviation plain_opts :: Options where
  "plain_opts \<equiv> \<lparr>o_MinSegmentDocs = 1, o_DeletesPctAllowed = 1, o_SegmentCountTarget = 1,
     o_OnMerge = True, o_OnCorruptSegment = True, o_OnBuildDegrade = True, o_MapBlob = None,
     o_IO = \<lparr>io_open = None, io_truncate = None, io_close = None, io_remove = None\<rparr>\<rparr>"

lemma index_map_1: "index_map [x] = [(x, 0)]"
  by (simp add: index_map_def)

lemma seal_one_doc:
  assumes "seal ids_format opts [plain_doc x] e = (e', r)"
  shows "r = Ret (contentHash (ids_encode [x]), contentHash (ids_encode [x]) \<notin> seg_ID ` set (entries (e_set e)))"
  using assms
  by (auto simp: seal_def build_entry_def dedupeDocsByID_def ids_format_def index_map_1 Let_def newEntry_def
      reportDegrade_def publishAppend_def entryByID_def entry_scan_None dest!: entry_scan_Some
      intro: rev_image_eqI split: prod.splits option.splits)


text \<open>
  C38: re-adding content that an older resident segment carries leaves a copy no lookup reaches.
  The engine holds segment \<open>A\<close> = [x] with x superseded there, and the newer segment
  \<open>B\<close> = [x, y] that answers for x. Re-adding [x] mints \<open>A\<close>'s own content hash, so the
  call revives x in \<open>A\<close> and kills it in \<open>B\<close>; the route still answers \<open>B\<close>. Then x is
  reported uncovered although \<open>A\<close> serves it, and deleting x clears the dead copy in \<open>B\<close>
  and leaves x live in \<open>A\<close>.
\<close>

definition flip_engine :: "(nat, ExternalID list) SegmentedIndex" where
  "flip_engine = (let e = ids_engine [(contentHash (ids_encode [''x'']), [''x'']), (''B'', [''x'', ''y''])]
     in e\<lparr>e_store := kill_at (e_store e) 0 0\<rparr>)"

theorem supersede_alias_unreachable_copy:
  "engine_ok ids_format flip_engine \<and> one_copy flip_engine \<and>
   (let (e1, r) = AddSealAndSupersede ids_format plain_opts [plain_doc ''x''] flip_engine;
        A = ids_entry (contentHash (ids_encode [''x''])) 0 [''x'']
    in r = Ret \<lparr>sr_ID = seg_ID A, sr_Created = False\<rparr> \<and> A \<in> set (entries (e_set e1)) \<and>
       live_in (e_store e1) A ''x'' \<and> routeOf (e_set e1) ''x'' = Some ''B'' \<and> \<not> covered e1 ''x'' \<and>
       live_in (e_store (Delete ''x'' e1)) A ''x'')"
proof -
  let ?h = "contentHash (ids_encode [''x''])"
  let ?A = "ids_entry ?h 0 [''x'']" and ?B = "ids_entry ''B'' (Suc 0) [''x'', ''y'']"
  let ?base = "ids_engine [(?h, [''x'']), (''B'', [''x'', ''y''])]" and ?e = flip_engine
  have ok0: "engine_ok ids_format ?base" by (rule ids_engine_ok) auto
  have ok: "engine_ok ids_format ?e"
    using engine_ok_kill[OF ok0, of ?e 0 0] by (simp add: flip_engine_def Let_def)
  have ents: "entries (e_set ?e) = [?A, ?B]" by (simp add: flip_engine_def Let_def)
  have act: "e_active ?e = []" by (simp add: flip_engine_def ids_engine_def New_def Let_def)
  have memA: "members ?A = [(''x'', 0)]" and memB: "members ?B = [(''x'', 0), (''y'', 1)]"
    by (simp_all add: ids_entry_def numeral_2_eq_2)
  have liveA: "\<not> live_in (e_store ?e) ?A y" for y
    by (auto simp: residentMemberIn_def memA flip_engine_def Let_def ids_engine_def kill_at_def Live_Kill split: option.splits)
  have nx: "newest (held y) [?A, ?B] = (if y \<in> {''x'', ''y''} then Some ?B else None)" for y
    by (auto simp: newest_Cons)
  have oc: "one_copy ?e" using liveA by (auto simp: one_copy_def ents nx dest!: live_in_held)
  obtain e2 r2 where s: "seal ids_format plain_opts [plain_doc ''x''] (?e\<lparr>e_active := []\<rparr>) = (e2, r2)" by fastforce
  have r2: "r2 = Ret (?h, False)" using seal_one_doc[OF s] by (simp add: ents)
  have ok1: "engine_ok ids_format (?e\<lparr>e_active := []\<rparr>)" using ok engine_ok_cong[of "?e\<lparr>e_active := []\<rparr>" ?e ids_format] by simp
  obtain ld where set2: "e_set e2 = e_set ?e" and st2: "e_store e2 = e_store ?e @ [ld]"
    by (rule seal_Ret[OF ok1 ids_stats_agree s[unfolded r2]]) (auto dest!: build_entry_Ret(1))
  have by_id: "entryByID (e_set e2) ?h = Some ?A" by (simp add: set2 entryByID_def ents)
  have eB: "entryOf (e_set ?e) ''x'' = Some ?B"
    by (simp add: entryOf_def tailHolderOf_newest flip_engine_def ids_engine_def Let_def newSegmentSet_def
        map_of_flatRoute flat_answer_def newest_Cons entryByID_def)
  let ?st = "kill_at (revive_at (e_store ?e @ [ld]) 0 0) 1 0"
  have e1: "AddSealAndSupersede ids_format plain_opts [plain_doc ''x''] ?e =
      (e2\<lparr>e_store := ?st\<rparr>, Ret \<lparr>sr_ID = ?h, sr_Created = False\<rparr>)"
    using s r2 by_id by (simp add: AddSealAndSupersede_def Let_def act eB memA memB st2)
  have lenA: "entry_live_ok (e_store ?e @ [ld]) ?A" "entry_live_ok (e_store ?e @ [ld]) ?B"
    using engine_okD(5)[OF ok] by (simp_all add: ents entry_live_ok_append)
  have eok: "entry_live_ok ?st ?A" "entry_live_ok ?st ?B"
    using lenA by (simp_all add: entry_live_ok_kill entry_live_ok_revive)
  have lA: "live_in ?st ?A ''x''"
    using lenA(1) by (simp add: live_in_kill_raw[OF entry_live_ok_revive] live_in_revive_raw memA)
  have dB: "\<not> live_in ?st ?B ''x''"
    using lenA(2) by (simp add: live_in_kill_raw[OF entry_live_ok_revive] memB)
  have rt: "routeOf (e_set ?e) ''x'' = Some ''B''"
    using engine_okD(1)[OF ok] by (simp add: routeOf_flat flat_answer_def ents nx)
  have del: "e_store (Delete ''x'' (e2\<lparr>e_store := ?st\<rparr>)) = kill_at ?st 1 0"
    by (simp add: Delete_store set2 eB memB)
  have "live_in (kill_at ?st 1 0) ?A ''x''" using lA eok(1) by (simp add: live_in_kill_raw)
  then show ?thesis
    using ok oc lA dB rt del by (simp add: e1 ents set2 covered_def nx)
qed

end
