(* ===== verification/Merge.thy ===== *)
theory Merge
  imports Membership
begin

text \<open>
  \<open>internal/searchengine/merge.go\<close>, \<open>merge_entry.go\<close>, \<open>merge_validate.go\<close> and the stamping
  half of \<open>supersession.go\<close>: the trigger policy, the consolidation of segments into one entry,
  its validation, and the background merge.

  A background merge reads its constituents' live bits, works, and publishes later against
  whatever snapshot is then published. It is therefore two steps, \<open>doMerge_build\<close> and
  \<open>doMerge_publish\<close>; \<open>doMerge\<close> runs them with nothing in between.
\<close>

section \<open>Stored bytes of an entry\<close>

definition stampSupersession :: "SegmentID list \<Rightarrow> SegmentID list \<Rightarrow> 'p segmentEntry \<Rightarrow> 'p segmentEntry" where
  "stampSupersession superseded cohort entry =
     (if superseded = [] then entry
      else entry\<lparr>sup_record := \<lparr>Superseded = superseded, Cohort = cohort\<rparr>\<rparr>)"

definition blobParts :: "('q, 's, 'p, 'sc) SegmentFormat \<Rightarrow> 'p segmentEntry \<Rightarrow> (byte list \<times> byte list) outcome" where
  "blobParts f entry =
     bind_out (s_Encode f (payload entry)) (\<lambda>pay. Ret (encodeSupersessionPrefix (sup_record entry), pay))"

definition entry_blob :: "('q, 's, 'p, 'sc) SegmentFormat \<Rightarrow> 'p segmentEntry \<Rightarrow> byte list \<Rightarrow> byte list \<Rightarrow> SegmentBlob" where
  "entry_blob f entry envelope pay =
     \<lparr>b_ID = seg_ID entry, b_Format = f_Name f, b_Generation = mt_Generation (meta entry),
      b_DocCount = mt_DocCount (meta entry), b_Bytes = pay, b_Envelope = envelope,
      b_Mapped = False, b_Borrowed = True\<rparr>"

text \<open>An encode error skips the reclaim; a panic inside the encoder goes on unwinding.\<close>

definition fireMergeHook :: "('q, 's, 'p, 'sc) SegmentFormat \<Rightarrow> Options \<Rightarrow> 'p segmentEntry \<Rightarrow> SegmentID list
    \<Rightarrow> ('s, 'p) SegmentedIndex \<Rightarrow> ('s, 'p) SegmentedIndex \<times> unit outcome" where
  "fireMergeHook f opts entry removed e =
     (if \<not> o_OnMerge opts \<or> removed = [] then (e, Ret ())
      else case blobParts f entry of
             Ret (envelope, pay) \<Rightarrow>
               (e\<lparr>e_merges := e_merges e @ [\<lparr>mr_Removed = removed, mr_Merged = entry_blob f entry envelope pay\<rparr>]\<rparr>, Ret ())
           | Fail err \<Rightarrow> (e, Ret ())
           | r \<Rightarrow> (e, failed r))"

section \<open>The trigger policy\<close>

definition deadRatioReachable :: "Options \<Rightarrow> bool" where
  "deadRatioReachable opts \<longleftrightarrow> o_DeletesPctAllowed opts \<le> 1"

definition dirty_entry :: "Options \<Rightarrow> liveDocs list \<Rightarrow> 'p segmentEntry \<Rightarrow> bool" where
  "dirty_entry opts store entry \<longleftrightarrow>
     mt_DocCount (meta entry) \<noteq> 0 \<and>
     of_int (DeadCount (store ! live entry)) / of_int (mt_DocCount (meta entry)) \<ge> o_DeletesPctAllowed opts"

definition pickMergeTargets :: "Options \<Rightarrow> ('s, 'p) segmentSet \<Rightarrow> ('s, 'p) SegmentedIndex
    \<Rightarrow> ('s, 'p) SegmentedIndex \<times> 'p segmentEntry list" where
  "pickMergeTargets opts s e =
     (if entries s = [] then (e, [])
      else if int (length (entries s)) > o_SegmentCountTarget opts then (e, entries s)
      else if \<not> deadRatioReachable opts then (e, [])
      else (e\<lparr>e_mergeScanCnt := e_mergeScanCnt e + int (length (entries s))\<rparr>,
            filter (dirty_entry opts (e_store e)) (entries s)))"

definition MergeEligible :: "Options \<Rightarrow> ('s, 'p) SegmentedIndex \<Rightarrow> ('s, 'p) SegmentedIndex \<times> bool" where
  "MergeEligible opts e = (let (e', chosen) = pickMergeTargets opts (e_set e) e in (e', length chosen > 0))"

section \<open>Validation of a merge output\<close>

definition runFormatValidation :: "('q, 's, 'p, 'sc) SegmentFormat \<Rightarrow> byte list \<Rightarrow> unit outcome" where
  "runFormatValidation f pay = catchCorrupt [] (f_ValidateSegment f [] pay)"

definition refuseMergeOutput :: "('q, 's, 'p, 'sc) SegmentFormat \<Rightarrow> byte list \<Rightarrow> SegmentID list \<Rightarrow> engine_error \<Rightarrow> engine_error" where
  "refuseMergeOutput f pay constituents verr = MergeOutputInvalid constituents (f_Name f) (length pay) verr"

section \<open>Consolidation into an entry\<close>

text \<open>
  The bytes \<open>f_MergeTo\<close> returns are the first \<open>n\<close> bytes of the destination: what the engine's
  truncate leaves of it. The mapping's release is not state of the engine; who owes it on
  which path is the subject of the scratch-file theory.
\<close>

definition map_merged :: "Options \<Rightarrow> byte list \<Rightarrow> byte list outcome" where
  "map_merged opts bytes =
     (case io_truncate (o_IO opts) of Some err \<Rightarrow> Fail (Wrap ''sizing merge scratch'' err)
      | None \<Rightarrow>
     (case io_close (o_IO opts) of Some err \<Rightarrow> Fail (Wrap ''closing merge scratch'' err)
      | None \<Rightarrow>
     (case o_MapBlob opts of None \<Rightarrow> Panic ''nil MapBlob''
      | Some mb \<Rightarrow>
     (case mb bytes of
        Ret (data, _) \<Rightarrow>
          (case io_remove (o_IO opts) of
             Some err \<Rightarrow> Fail (Wrap ''unlinking merge scratch'' err)
           | None \<Rightarrow> Ret data)
      | Fail err \<Rightarrow> Fail (Wrap ''mapping merged segment'' err)
      | r \<Rightarrow> failed r))))"

definition decode_merged :: "('q, 's, 'p, 'sc) SegmentFormat \<Rightarrow> byte list \<Rightarrow> 'p outcome" where
  "decode_merged f data =
     (case f_Decode f data of Fail err \<Rightarrow> Fail (Wrap ''decoding merged segment'' err) | r \<Rightarrow> r)"

definition mergeEntry :: "('q, 's, 'p, 'sc) SegmentFormat \<Rightarrow> Options \<Rightarrow> 'p list \<Rightarrow> (ExternalID \<Rightarrow> bool) list
    \<Rightarrow> SegmentID list \<Rightarrow> ('s, 'p) SegmentedIndex \<Rightarrow> ('s, 'p) SegmentedIndex \<times> 'p segmentEntry outcome" where
  "mergeEntry f opts segs accept constituents e =
     (case io_open (o_IO opts) of
        Some err \<Rightarrow> (e, Fail err)
      | None \<Rightarrow>
          (case containCorrupt f opts [] (f_MergeTo f segs accept) e of
             (e, Ret bytes) \<Rightarrow>
               (case map_merged opts bytes of
                  Ret data \<Rightarrow>
                    (case runFormatValidation f data of
                       Ret _ \<Rightarrow>
                         (case containCorrupt f opts []
                             (bind_out (decode_merged f data) (\<lambda>seg. newEntry f (e_store e) seg [] payloadMapped)) e of
                            (e, Ret (entry, store)) \<Rightarrow> (e\<lparr>e_store := store\<rparr>, Ret entry)
                          | (e, r) \<Rightarrow> (e, failed r))
                     | Fail verr \<Rightarrow> (e, Fail (refuseMergeOutput f data constituents verr))
                     | r \<Rightarrow> (e, failed r))
                | r \<Rightarrow> (e, failed r))
           | (e, r) \<Rightarrow> (e, failed r)))"

section \<open>The background merge\<close>

definition accept_member :: "liveDocs list \<Rightarrow> 'p segmentEntry \<Rightarrow> ExternalID \<Rightarrow> bool" where
  "accept_member store entry x =
     (case map_of (members entry) x of None \<Rightarrow> False | Some ord \<Rightarrow> Live (store ! live entry) ord)"

definition doMerge_build :: "('q, 's, 'p, 'sc) SegmentFormat \<Rightarrow> Options \<Rightarrow> 'p segmentEntry list
    \<Rightarrow> ('s, 'p) SegmentedIndex \<Rightarrow> ('s, 'p) SegmentedIndex \<times> 'p segmentEntry option outcome" where
  "doMerge_build f opts chosen e =
     (if e_stopped e then (e, Ret None)
      else let removed = sortedSegmentIDs (map seg_ID chosen)
           in case mergeEntry f opts (map payload chosen) (map (accept_member (e_store e)) chosen) removed e of
                (e, Ret entry) \<Rightarrow> (e, Ret (Some (stampSupersession removed [seg_ID entry] entry)))
              | (e, Fail err) \<Rightarrow>
                  (if as_refused err then (e, Ret None)
                   else (fst (reportCorruptFrom f opts err e), Ret None))
              | (e, r) \<Rightarrow> (e, failed r))"

text \<open>The settle counter is a deferred increment: it runs on every way out, a panicking hook included.\<close>

definition doMerge_publish :: "('q, 's, 'p, 'sc) SegmentFormat \<Rightarrow> Options \<Rightarrow> 'p segmentEntry list \<Rightarrow> 'p segmentEntry
    \<Rightarrow> ('s, 'p) SegmentedIndex \<Rightarrow> ('s, 'p) SegmentedIndex \<times> unit outcome" where
  "doMerge_publish f opts chosen entry e =
     (if e_stopped e then (e, Ret ())
      else let removed = sortedSegmentIDs (map seg_ID chosen);
               e = e\<lparr>e_set := withReplaced f (e_set e) removed (Some entry), e_mergeCnt := e_mergeCnt e + 1\<rparr>;
               (e, r) = fireMergeHook f opts entry removed e
           in (e\<lparr>e_settleCnt := e_settleCnt e + 1\<rparr>, r))"

definition doMerge :: "('q, 's, 'p, 'sc) SegmentFormat \<Rightarrow> Options \<Rightarrow> 'p segmentEntry list
    \<Rightarrow> ('s, 'p) SegmentedIndex \<Rightarrow> ('s, 'p) SegmentedIndex \<times> unit outcome" where
  "doMerge f opts chosen e =
     (case doMerge_build f opts chosen e of
        (e, Ret None) \<Rightarrow> (e, Ret ())
      | (e, Ret (Some entry)) \<Rightarrow> doMerge_publish f opts chosen entry e
      | (e, r) \<Rightarrow> (e, failed r))"

definition maybeMerge :: "('q, 's, 'p, 'sc) SegmentFormat \<Rightarrow> Options \<Rightarrow> ('s, 'p) SegmentedIndex
    \<Rightarrow> ('s, 'p) SegmentedIndex \<times> unit outcome" where
  "maybeMerge f opts e =
     (let (e, chosen) = pickMergeTargets opts (e_set e) e
      in if length chosen < 1 then (e, Ret ()) else doMerge f opts chosen e)"

text \<open>
  \<open>startMerger\<close>'s select, one wake at a time: stopped, it exits; a write signal is consumed; a tick
  needs none. The flag of the result is whether the goroutine goes on.
\<close>

definition merger_wake :: "('q, 's, 'p, 'sc) SegmentFormat \<Rightarrow> Options \<Rightarrow> ('s, 'p) SegmentedIndex
    \<Rightarrow> ('s, 'p) SegmentedIndex \<times> bool outcome" where
  "merger_wake f opts e =
     (if e_stopped e then (e, Ret False)
      else case maybeMerge f opts (e\<lparr>e_mergeSignal := False\<rparr>) of
             (e, Ret _) \<Rightarrow> (e, Ret True)
           | (e, r) \<Rightarrow> (e, failed r))"

definition Close :: "('s, 'p) SegmentedIndex \<Rightarrow> ('s, 'p) SegmentedIndex" where
  "Close e = e\<lparr>e_stopped := True\<rparr>"

definition MergeCount :: "('s, 'p) SegmentedIndex \<Rightarrow> 64 word" where "MergeCount e = e_mergeCnt e"
definition SettledMergeCount :: "('s, 'p) SegmentedIndex \<Rightarrow> 64 word" where "SettledMergeCount e = e_settleCnt e"
definition mergeScanCount :: "('s, 'p) SegmentedIndex \<Rightarrow> int" where "mergeScanCount e = e_mergeScanCnt e"
definition HasMergeHook :: "Options \<Rightarrow> bool" where "HasMergeHook opts = o_OnMerge opts"

record Metrics =
  m_SegmentCount :: nat
  m_DeadRatio :: rat
  m_MergeCount :: "64 word"

definition Metrics :: "('s, 'p) SegmentedIndex \<Rightarrow> Metrics" where
  "Metrics e =
     (let total = sum_list (map (\<lambda>entry. mt_DocCount (meta entry)) (entries (e_set e)));
          dead = sum_list (map (\<lambda>entry. DeadCount (e_store e ! live entry)) (entries (e_set e)))
      in \<lparr>m_SegmentCount = length (entries (e_set e)),
          m_DeadRatio = (if total > 0 then of_int dead / of_int total else 0),
          m_MergeCount = e_mergeCnt e\<rparr>)"

section \<open>What a consolidation leaves\<close>

lemma withReplaced_entries:
  "engine_ok f e \<Longrightarrow> entries (withReplaced g (e_set e) R pub) = kept R (entries (e_set e)) @ pub_list pub"
  by (rule entries_withReplaced) (simp add: engine_ok_def set_ok_def)

lemma containCorrupt_Ret [simp]: "containCorrupt f opts sid (Ret a) e = (e, Ret a)"
  by (simp add: containCorrupt_def)

lemma containCorrupt_RetD:
  assumes "containCorrupt f opts sid r e = (e', Ret a)" shows "r = Ret a" "e' = e"
  using assms containCorrupt_spec(4)[where f = f and opts = opts and sid = sid and r = r and e = e]
  by (cases r; simp add: containCorrupt_def)+

lemma decode_merged_Ret [simp]: "decode_merged f data = Ret seg \<longleftrightarrow> f_Decode f data = Ret seg"
  by (cases "f_Decode f data") (simp_all add: decode_merged_def)

lemma failed_Ret [simp]: "(\<And>a. r \<noteq> Ret a) \<Longrightarrow> failed r \<noteq> Ret b"
  by (cases r) auto

lemma mergeEntry_Ret:
  assumes "mergeEntry f opts segs acc cs e = (e', Ret en)"
  obtains bytes data seg where "f_MergeTo f segs acc = Ret bytes" "map_merged opts bytes = Ret data"
    "runFormatValidation f data = Ret ()" "f_Decode f data = Ret seg"
    "newEntry f (e_store e) seg [] payloadMapped = Ret (en, e_store e')" "e' = e\<lparr>e_store := e_store e'\<rparr>"
proof -
  obtain e1 r1 where c1: "containCorrupt f opts [] (f_MergeTo f segs acc) e = (e1, r1)" by fastforce
  have "\<exists>bytes. r1 = Ret bytes"
    using assms c1 by (cases r1) (auto simp: mergeEntry_def split: option.splits)
  then obtain bytes where r1: "r1 = Ret bytes" by blast
  note b = containCorrupt_RetD[OF c1[unfolded r1]]
  have m: "mergeEntry f opts segs acc cs e =
      (case map_merged opts bytes of
         Ret data \<Rightarrow> (case runFormatValidation f data of
            Ret _ \<Rightarrow> (case containCorrupt f opts [] (bind_out (decode_merged f data) (\<lambda>seg. newEntry f (e_store e) seg [] payloadMapped)) e of
                 (e, Ret (entry, store)) \<Rightarrow> (e\<lparr>e_store := store\<rparr>, Ret entry)
               | (e, r) \<Rightarrow> (e, failed r))
          | Fail verr \<Rightarrow> (e, Fail (refuseMergeOutput f data cs verr))
          | r \<Rightarrow> (e, failed r))
       | r \<Rightarrow> (e, failed r))"
    using assms b c1 r1 by (auto simp: mergeEntry_def split: option.splits)
  obtain data where d: "map_merged opts bytes = Ret data"
    using assms m by (cases "map_merged opts bytes") auto
  have v: "runFormatValidation f data = Ret ()"
    using assms m d by (cases "runFormatValidation f data") auto
  let ?r = "bind_out (decode_merged f data) (\<lambda>seg. newEntry f (e_store e) seg [] payloadMapped)"
  obtain e2 r2 where c2: "containCorrupt f opts [] ?r e = (e2, r2)" by fastforce
  have "\<exists>entry store. r2 = Ret (entry, store)"
    using assms m d v c2 by (cases r2) auto
  then obtain entry store where r2: "r2 = Ret (entry, store)" by blast
  note c = containCorrupt_RetD[OF c2[unfolded r2]]
  have fin: "en = entry" "e' = e\<lparr>e_store := store\<rparr>" using assms m d v c2 r2 c(2) by auto
  obtain seg where "f_Decode f data = Ret seg" "newEntry f (e_store e) seg [] payloadMapped = Ret (entry, store)"
    using c(1) by (auto simp: bind_out_Ret_iff)
  then show ?thesis using that b(1) d v fin by auto
qed

text \<open>
  What a consolidation that does not publish may have done to the engine: withdraw segments,
  each of them reported to the owner when a hook is installed, and nothing else.
\<close>

definition only_withdraws :: "Options \<Rightarrow> ('s, 'p) SegmentedIndex \<Rightarrow> ('s, 'p) SegmentedIndex \<Rightarrow> bool" where
  "only_withdraws opts e e' \<longleftrightarrow>
     (\<exists>log W. e_corrupts e' = e_corrupts e @ log \<and> (o_OnCorruptSegment opts \<longrightarrow> W = fst ` set log - {[]}) \<and>
        entries (e_set e') = filter (\<lambda>en. seg_ID en \<notin> W) (entries (e_set e))) \<and>
     e_merges e' = e_merges e \<and> e_mergeCnt e' = e_mergeCnt e \<and> e_stopped e' = e_stopped e"

lemma only_withdraws_same:
  assumes "e_set e' = e_set e" "e_corrupts e' = e_corrupts e" "e_merges e' = e_merges e"
    "e_mergeCnt e' = e_mergeCnt e" "e_stopped e' = e_stopped e"
  shows "only_withdraws opts e e'"
  unfolding only_withdraws_def using assms by (intro conjI exI[of _ "[]"] exI[of _ "{}"]) auto

lemma only_withdraws_trans:
  assumes "only_withdraws opts e1 e2" "only_withdraws opts e2 e3"
  shows "only_withdraws opts e1 e3"
proof -
  obtain l W where a: "e_corrupts e2 = e_corrupts e1 @ l" "o_OnCorruptSegment opts \<longrightarrow> W = fst ` set l - {[]}"
    "entries (e_set e2) = filter (\<lambda>en. seg_ID en \<notin> W) (entries (e_set e1))"
    using assms(1) by (auto simp: only_withdraws_def)
  obtain l' W' where b: "e_corrupts e3 = e_corrupts e2 @ l'" "o_OnCorruptSegment opts \<longrightarrow> W' = fst ` set l' - {[]}"
    "entries (e_set e3) = filter (\<lambda>en. seg_ID en \<notin> W') (entries (e_set e2))"
    using assms(2) by (auto simp: only_withdraws_def)
  show ?thesis unfolding only_withdraws_def
  proof (intro conjI exI)
    show "e_corrupts e3 = e_corrupts e1 @ (l @ l')" using a b by simp
    show "o_OnCorruptSegment opts \<longrightarrow> W \<union> W' = fst ` set (l @ l') - {[]}" using a(2) b(2) by auto
    show "entries (e_set e3) = filter (\<lambda>en. seg_ID en \<notin> W \<union> W') (entries (e_set e1))"
      using a(3) b(3) by (auto intro: filter_cong)
  qed (use assms in \<open>auto simp: only_withdraws_def\<close>)
qed

lemma reportCorrupt_withdraws: "only_withdraws opts e (reportCorrupt f opts ce e)"
proof -
  obtain sid d r where ce: "ce = (sid, d, r)" by (cases ce)
  show ?thesis
  proof (cases r)
    case False
    let ?W = "if sid = [] then {} else {sid}"
    have "entries (e_set (reportCorrupt f opts ce e)) = filter (\<lambda>en. seg_ID en \<notin> ?W) (entries (e_set e))"
      using False by (simp add: ce reportCorrupt_entries)
    then show ?thesis unfolding only_withdraws_def
      by (intro conjI exI[of _ "if o_OnCorruptSegment opts then [(sid, d)] else []"] exI[of _ ?W])
        (auto simp: ce reportCorrupt_def False Let_def)
  qed (simp add: ce reportCorrupt_def only_withdraws_same)
qed

lemma reportCorruptFrom_withdraws: "only_withdraws opts e (fst (reportCorruptFrom f opts err e))"
  by (simp add: reportCorruptFrom_def only_withdraws_same reportCorrupt_withdraws split: option.split)

lemma containCorrupt_withdraws: "only_withdraws opts e (fst (containCorrupt f opts sid r e))"
  by (cases r) (simp_all add: containCorrupt_def only_withdraws_same reportCorrupt_withdraws)

lemma mergeEntry_frame:
  assumes "mergeEntry f opts segs acc cs e = (e', r)"
  shows "only_withdraws opts e e'" "engine_ok f e \<Longrightarrow> engine_ok f e'" "\<exists>lds. e_store e' = e_store e @ lds"
    "(\<And>en. r \<noteq> Ret en) \<Longrightarrow> e_store e' = e_store e"
proof -
  have "only_withdraws opts e e' \<and> (engine_ok f e \<longrightarrow> engine_ok f e') \<and> (\<exists>lds. e_store e' = e_store e @ lds) \<and>
    ((\<forall>en. r \<noteq> Ret en) \<longrightarrow> e_store e' = e_store e)"
  proof (cases "\<exists>en. r = Ret en")
    case True
    then obtain en where r: "r = Ret en" by blast
    obtain seg where n: "newEntry f (e_store e) seg [] payloadMapped = Ret (en, e_store e')" "e' = e\<lparr>e_store := e_store e'\<rparr>"
      using assms[unfolded r] by (rule mergeEntry_Ret) blast
    obtain ld where ld: "e_store e' = e_store e @ [ld]" using newEntry_live(3)[OF n(1)] by blast
    have f: "e_set e' = e_set e" "e_corrupts e' = e_corrupts e" "e_merges e' = e_merges e"
      "e_mergeCnt e' = e_mergeCnt e" "e_stopped e' = e_stopped e" by (subst n(2), simp)+
    show ?thesis using engine_ok_store[OF _ f(1) ld] only_withdraws_same[OF f] ld r by auto
  next
    case False
    let ?m = "f_MergeTo f segs acc"
    obtain e1 r1 where c1: "containCorrupt f opts [] ?m e = (e1, r1)" by fastforce
    have 1: "only_withdraws opts e e1" "engine_ok f e \<Longrightarrow> engine_ok f e1" "e_store e1 = e_store e"
      using containCorrupt_withdraws[of opts e f "[]" ?m]
        containCorrupt_spec(1,5)[where f = f and opts = opts and sid = "[]" and r = ?m and e = e] c1 by auto
    have "e' = e \<or> e' = e1 \<or> (\<exists>data. e' = fst (containCorrupt f opts []
        (bind_out (decode_merged f data) (\<lambda>seg. newEntry f (e_store e1) seg [] payloadMapped)) e1))"
      using assms False c1
      by (auto simp: mergeEntry_def split: option.splits outcome.splits prod.splits) (metis fst_conv)+
    then show ?thesis
    proof (elim disjE exE)
      fix data
      assume "e' = fst (containCorrupt f opts []
        (bind_out (decode_merged f data) (\<lambda>seg. newEntry f (e_store e1) seg [] payloadMapped)) e1)" (is "_ = fst (containCorrupt f opts [] ?r e1)")
      then show ?thesis
        using 1 only_withdraws_trans[OF 1(1), of e'] containCorrupt_withdraws[of opts e1 f "[]" ?r]
          containCorrupt_spec(1,5)[where f = f and opts = opts and sid = "[]" and r = ?r and e = e1] by simp
    qed (use 1 in \<open>auto simp: only_withdraws_same\<close>)
  qed
  then show "only_withdraws opts e e'" "engine_ok f e \<Longrightarrow> engine_ok f e'" "\<exists>lds. e_store e' = e_store e @ lds"
    "(\<And>en. r \<noteq> Ret en) \<Longrightarrow> e_store e' = e_store e" by auto
qed

section \<open>The contract of a merge\<close>

text \<open>
  What \<open>SegmentFormat\<close> documents: the output is one segment in which exactly the accepted
  members of the inputs survive. \<open>map_faithful\<close>: a mapping of a file holds the file's bytes.
  \<open>payload_ok\<close>: an entry's member map holds the ids its payload lists.
\<close>

definition accepted :: "('q, 's, 'p, 'sc) SegmentFormat \<Rightarrow> 'p list \<Rightarrow> (ExternalID \<Rightarrow> bool) list \<Rightarrow> ExternalID set" where
  "accepted f segs acc = {x. \<exists>i < length segs. \<exists>ids. s_IDs f (segs ! i) = Ret ids \<and> x \<in> set ids \<and> (acc ! i) x}"

definition merge_exact :: "('q, 's, 'p, 'sc) SegmentFormat \<Rightarrow> bool" where
  "merge_exact f \<longleftrightarrow> (\<forall>segs acc bs. length acc = length segs \<longrightarrow> f_MergeTo f segs acc = Ret bs \<longrightarrow>
     (\<exists>seg ids. f_Decode f bs = Ret seg \<and> s_IDs f seg = Ret ids \<and> set ids = accepted f segs acc))"

definition map_faithful :: "Options \<Rightarrow> bool" where
  "map_faithful opts \<longleftrightarrow> (\<forall>mb bs d rel. o_MapBlob opts = Some mb \<longrightarrow> mb bs = Ret (d, rel) \<longrightarrow> d = bs)"

definition payload_ok :: "('q, 's, 'p, 'sc) SegmentFormat \<Rightarrow> 'p segmentEntry \<Rightarrow> bool" where
  "payload_ok f en \<longleftrightarrow> (\<exists>ids. s_IDs f (payload en) = Ret ids \<and> gm_keys (members en) = set ids)"

definition searchable :: "('s, 'p) SegmentedIndex \<Rightarrow> ExternalID \<Rightarrow> bool" where
  "searchable e x \<longleftrightarrow> (\<exists>en \<in> set (entries (e_set e)). live_in (e_store e) en x)"

lemma accept_member_live [simp]: "accept_member store en x = live_in store en x"
  by (simp add: accept_member_def residentMemberIn_def)

lemma map_merged_faithful: "map_faithful opts \<Longrightarrow> map_merged opts bytes = Ret data \<Longrightarrow> data = bytes"
  by (auto simp: map_merged_def map_faithful_def split: option.splits outcome.splits)

lemma accepted_entries:
  assumes "\<forall>en \<in> set es. payload_ok f en"
  shows "accepted f (map payload es) (map a es) = {x. \<exists>en \<in> set es. held x en \<and> a en x}"
proof -
  have "(\<exists>ids. s_IDs f (payload (es ! i)) = Ret ids \<and> x \<in> set ids \<and> a (es ! i) x) \<longleftrightarrow> held x (es ! i) \<and> a (es ! i) x"
    if i: "i < length es" for i x
  proof -
    obtain ids where "s_IDs f (payload (es ! i)) = Ret ids" "gm_keys (members (es ! i)) = set ids"
      using bspec[OF assms nth_mem[OF i]] by (auto simp: payload_ok_def)
    then show ?thesis by (auto simp: held_iff)
  qed
  then have "x \<in> accepted f (map payload es) (map a es) \<longleftrightarrow> (\<exists>i < length es. held x (es ! i) \<and> a (es ! i) x)" for x
    by (simp add: accepted_def cong: conj_cong)
  moreover have "(\<exists>en \<in> set es. held x en \<and> a en x) \<longleftrightarrow> (\<exists>i < length es. held x (es ! i) \<and> a (es ! i) x)" for x
    by (metis in_set_conv_nth)
  ultimately show ?thesis by auto
qed

lemma mergeEntry_members:
  assumes "merge_exact f" "map_faithful opts" "length acc = length segs" "mergeEntry f opts segs acc cs e = (e', Ret en)"
  shows "held x en \<longleftrightarrow> x \<in> accepted f segs acc" "live_in (e_store e') en x \<longleftrightarrow> held x en"
    "payload_ok f en" "gomap_ok (members en)" "entry_live_ok (e_store e') en" "live en = length (e_store e)"
    "e' = e\<lparr>e_store := e_store e'\<rparr>" "\<exists>ld. e_store e' = e_store e @ [ld]"
    "mt_DocCount (meta en) = int (length (members en))" "ld_n (e_store e' ! live en) = length (members en)"
    "sup_record en = \<lparr>Superseded = [], Cohort = []\<rparr>"
proof -
  obtain bytes data seg where m: "f_MergeTo f segs acc = Ret bytes" "map_merged opts bytes = Ret data" "f_Decode f data = Ret seg"
    and n: "newEntry f (e_store e) seg [] payloadMapped = Ret (en, e_store e')" and e': "e' = e\<lparr>e_store := e_store e'\<rparr>"
    using assms(4) by (rule mergeEntry_Ret) blast
  have db: "data = bytes" using map_merged_faithful[OF assms(2) m(2)] .
  have "\<exists>seg ids. f_Decode f bytes = Ret seg \<and> s_IDs f seg = Ret ids \<and> set ids = accepted f segs acc"
    using assms(1,3) m(1) by (simp add: merge_exact_def)
  then obtain ids where ids: "s_IDs f seg = Ret ids" "set ids = accepted f segs acc"
    using m(3) db by auto
  obtain ids' ld where s: "s_IDs f seg = Ret ids'" "distinct ids'" "members en = index_map ids'" "payload en = seg"
    "e_store e' = e_store e @ [ld]" "ld_n ld = length ids'" "live en = length (e_store e)"
    "mt_DocCount (meta en) = int (length ids')"
    using n by (rule newEntry_spec) blast
  have keys: "gm_keys (members en) = accepted f segs acc" using ids s by simp
  then show "held x en \<longleftrightarrow> x \<in> accepted f segs acc" by (simp add: held_iff)
  show "payload_ok f en" using ids s by (simp add: payload_ok_def)
  show "mt_DocCount (meta en) = int (length (members en))" "ld_n (e_store e' ! live en) = length (members en)"
    using s index_map_length_eq[of ids'] by simp_all
  show "sup_record en = \<lparr>Superseded = [], Cohort = []\<rparr>"
    using n by (auto simp: newEntry_def bind_out_Ret_iff Let_def split: if_splits)
  show "live_in (e_store e') en x \<longleftrightarrow> held x en" "gomap_ok (members en)" "entry_live_ok (e_store e') en"
    "\<exists>ld. e_store e' = e_store e @ [ld]" "live en = length (e_store e)"
    using newEntry_live[OF n] by simp_all
  show "e' = e\<lparr>e_store := e_store e'\<rparr>" by (rule e')
qed

lemma payload_members_stamp [simp]:
  "payload (stampSupersession R C en) = payload en" "members (stampSupersession R C en) = members en"
  "live (stampSupersession R C en) = live en" "meta (stampSupersession R C en) = meta en"
  by (simp_all add: stampSupersession_def)

lemma stamp_derived [simp]:
  "held x (stampSupersession R C en) = held x en" "live_in store (stampSupersession R C en) x = live_in store en x"
  "payload_ok f (stampSupersession R C en) = payload_ok f en"
  "entry_live_ok store (stampSupersession R C en) = entry_live_ok store en"
  by (simp_all add: held_def residentMemberIn_def payload_ok_def entry_live_ok_def split: option.split)

lemma set_sortedSegmentIDs [simp]: "set (sortedSegmentIDs ids) = set ids"
  by (simp add: sortedSegmentIDs_def)

lemma sortedSegmentIDs_Nil [simp]: "sortedSegmentIDs ids = [] \<longleftrightarrow> ids = []"
  by (metis set_empty set_sortedSegmentIDs)

lemma fireMergeHook_frame:
  assumes "fireMergeHook f opts en removed e = (e', r)"
  shows "e_set e' = e_set e" "e_store e' = e_store e" "e_active e' = e_active e" "e_corrupts e' = e_corrupts e"
    "e_stopped e' = e_stopped e" "e_mergeCnt e' = e_mergeCnt e" "e_settleCnt e' = e_settleCnt e"
    "\<exists>ms. e_merges e' = e_merges e @ ms"
  using assms by (auto simp: fireMergeHook_def split: if_splits outcome.splits prod.splits)

lemma doMerge_publish_sel:
  assumes "doMerge_publish f opts chosen en e = (e', r)" "\<not> e_stopped e"
  shows "e_set e' = withReplaced f (e_set e) (sortedSegmentIDs (map seg_ID chosen)) (Some en)" "e_store e' = e_store e"
    "e_mergeCnt e' = e_mergeCnt e + 1"
  using assms by (auto simp: doMerge_publish_def Let_def dest: fireMergeHook_frame split: prod.splits)

text \<open>What a publication by \<open>withReplaced\<close> of an all-live entry leaves searchable.\<close>

lemma searchable_replaced:
  assumes ok: "engine_ok f e" and ents: "entries (e_set e') = kept R (entries (e_set e)) @ [en]"
    and st: "e_store e' = e_store e @ lds" and all: "\<And>x. live_in (e_store e') en x \<longleftrightarrow> P x"
  shows "searchable e' x \<longleftrightarrow>
    (\<exists>en0 \<in> set (entries (e_set e)). seg_ID en0 \<notin> set R \<and> live_in (e_store e) en0 x) \<or> P x"
proof -
  have "live_in (e_store e') en0 x = live_in (e_store e) en0 x" if "en0 \<in> set (entries (e_set e))" for en0
    using entry_addr[OF ok that] by (simp add: st live_in_append)
  then show ?thesis using all by (auto simp: searchable_def ents)
qed

lemma engine_ok_replaced:
  assumes ok: "engine_ok f e" and st: "e_store e' = e_store e @ lds"
    and set': "e_set e' = withReplaced f (e_set e) R (Some en)"
    and en: "entry_live_ok (e_store e') en" "gomap_ok (members en)" "live en \<ge> length (e_store e)"
    and fresh: "fresh_id (e_set e) R (Some en) \<or> flattens (e_set e) R (Some en)"
    and new: "seg_ID en \<notin> seg_ID ` set (kept R (entries (e_set e)))"
  shows "engine_ok f e'"
proof -
  have ents: "entries (e_set e') = kept R (entries (e_set e)) @ [en]"
    by (simp add: set' withReplaced_entries[OF ok])
  have "set_ok (e_set e')"
    unfolding set' by (rule set_ok_withReplaced) (use ok fresh en in \<open>auto simp: engine_ok_def entries_ok_def\<close>)
  moreover have "live en \<notin> live ` set (entries (e_set e))" using entry_addr[OF ok] en(3) by force
  moreover have "stats_ok f (e_set e')" by (simp add: set')
  ultimately show ?thesis using ok en new
    by (auto simp: engine_ok_def ents distinct_map_filter st entry_live_ok_append)
qed

lemma doMerge_build_Some:
  assumes "doMerge_build f opts chosen e = (e', Ret (Some en))"
  obtains en0 where "\<not> e_stopped e"
    "mergeEntry f opts (map payload chosen) (map (accept_member (e_store e)) chosen) (sortedSegmentIDs (map seg_ID chosen)) e
       = (e', Ret en0)"
    "en = stampSupersession (sortedSegmentIDs (map seg_ID chosen)) [seg_ID en0] en0"
  using assms
  by (auto simp: doMerge_build_def Let_def split: if_splits prod.splits outcome.splits intro: that)

lemma chosen_ids:
  assumes "engine_ok f e" "set chosen \<subseteq> set (entries (e_set e))" "en \<in> set (entries (e_set e))"
  shows "seg_ID en \<in> seg_ID ` set chosen \<longleftrightarrow> en \<in> set chosen"
  using assms by (auto simp: engine_ok_def distinct_map dest!: inj_onD[of seg_ID])

section \<open>Properties\<close>

text \<open>
  C5: a background merge conserves the searchable documents. When the format's merge keeps exactly
  the accepted members and nothing interleaves, the published set is the old one without the chosen
  segments and with the output appended; every document of the output is live, an id is
  searchable after the merge exactly when it was before, the output's stored record names
  exactly the segments it replaced with itself as the cohort, and the engine stays well-formed
  when the output's content hash is a new one.
\<close>

theorem doMerge_conserves:
  assumes ok: "engine_ok f e" and pay: "\<forall>en \<in> set (entries (e_set e)). payload_ok f en"
    and fmt: "merge_exact f" "map_faithful opts"
    and sub: "set chosen \<subseteq> set (entries (e_set e))" "chosen \<noteq> []"
    and b: "doMerge_build f opts chosen e = (e1, Ret (Some en))"
    and p: "doMerge_publish f opts chosen en e1 = (e2, r)"
  shows "entries (e_set e2) = filter (\<lambda>x. x \<notin> set chosen) (entries (e_set e)) @ [en] \<and>
    (\<forall>x. live_in (e_store e2) en x \<longleftrightarrow> held x en) \<and>
    (\<forall>x. searchable e2 x \<longleftrightarrow> searchable e x) \<and>
    set (Superseded (sup_record en)) = seg_ID ` set chosen \<and> Cohort (sup_record en) = [seg_ID en] \<and>
    e_mergeCnt e2 = e_mergeCnt e + 1 \<and>
    (seg_ID en \<notin> seg_ID ` set (entries (e_set e)) \<and> seg_ID en \<notin> set (dropped (e_set e)) \<longrightarrow>
       engine_ok f e2 \<and> (\<forall>en \<in> set (entries (e_set e2)). payload_ok f en))"
proof -
  let ?R = "sortedSegmentIDs (map seg_ID chosen)"
  obtain en0 where ns: "\<not> e_stopped e" and m: "mergeEntry f opts (map payload chosen) (map (accept_member (e_store e)) chosen) ?R e = (e1, Ret en0)"
    and en: "en = stampSupersession ?R [seg_ID en0] en0"
    using b by (rule doMerge_build_Some)
  note M = mergeEntry_members[OF fmt _ m, simplified]
  obtain ld where ld: "e_store e1 = e_store e @ [ld]" using M(8) by blast
  have e1: "e_set e1 = e_set e" "e_stopped e1 = e_stopped e" "e_mergeCnt e1 = e_mergeCnt e" by (subst M(7), simp)+
  have e2: "e_set e2 = withReplaced f (e_set e) ?R (Some en)" "e_store e2 = e_store e @ [ld]" "e_mergeCnt e2 = e_mergeCnt e + 1"
    using doMerge_publish_sel[OF p] ns e1 ld by simp_all
  have ents: "entries (e_set e2) = kept ?R (entries (e_set e)) @ [en]" by (simp add: e2 withReplaced_entries[OF ok])
  have kept: "kept ?R (entries (e_set e)) = filter (\<lambda>x. x \<notin> set chosen) (entries (e_set e))"
    using chosen_ids[OF ok sub(1)] by (intro filter_cong) auto
  have acc: "held x en \<longleftrightarrow> (\<exists>c \<in> set chosen. live_in (e_store e) c x)" for x
  proof -
    have "\<forall>c \<in> set chosen. payload_ok f c" using pay sub(1) by blast
    note A = accepted_entries[OF this, of "accept_member (e_store e)"]
    show ?thesis unfolding en stamp_derived M(1) A
      by (auto dest: live_in_held)
  qed
  have all: "live_in (e_store e2) en x \<longleftrightarrow> held x en" for x using M(2)[of x] by (simp add: en e2 ld)
  have "searchable e2 x \<longleftrightarrow> searchable e x" for x
    using searchable_replaced[OF ok ents e2(2) all, of x] sub(1) chosen_ids[OF ok sub(1)]
    by (auto simp: acc searchable_def)
  moreover have "engine_ok f e2 \<and> (\<forall>en \<in> set (entries (e_set e2)). payload_ok f en)"
    if "seg_ID en \<notin> seg_ID ` set (entries (e_set e))" "seg_ID en \<notin> set (dropped (e_set e))"
  proof
    show "engine_ok f e2"
      by (rule engine_ok_replaced[OF ok e2(2,1)])
        (use that M in \<open>auto simp: en e2 ld fresh_id_def dest!: in_set_takeD\<close>)
    show "\<forall>en \<in> set (entries (e_set e2)). payload_ok f en" using pay M(3) by (auto simp: ents en)
  qed
  moreover have "set (Superseded (sup_record en)) = seg_ID ` set chosen" "Cohort (sup_record en) = [seg_ID en]"
    using sub(2) by (simp_all add: en stampSupersession_def)
  ultimately show ?thesis using ents kept all e2(3) by (simp add: pay)
qed

section \<open>Merges over the reference format\<close>

abbreviation merge_opts :: Options where
  "merge_opts \<equiv> withDefaults plain_opts"

definition ids_merged :: "nat \<Rightarrow> ExternalID list \<Rightarrow> ExternalID list segmentEntry" where
  "ids_merged a ids =
     \<lparr>payload = ids, live = a, members = index_map ids,
      meta = \<lparr>mt_ID = contentHash (ids_encode ids), mt_Format = ''ids'', mt_Generation = 0,
              mt_DocCount = int (length ids), mt_DeadCount = 0\<rparr>,
      sup_record = \<lparr>Superseded = [], Cohort = []\<rparr>, heapPayload = 0\<rparr>"

lemma merge_opts_sel [simp]:
  "o_IO merge_opts = \<lparr>io_open = None, io_truncate = None, io_close = None, io_remove = None\<rparr>"
  "o_MapBlob merge_opts = Some readBlobFromFile" "o_OnMerge merge_opts" "o_OnCorruptSegment merge_opts"
  "o_SegmentCountTarget merge_opts = 1" "o_DeletesPctAllowed merge_opts = 1"
  by (simp_all add: withDefaults_def Let_def)

lemma map_faithful_merge_opts [simp]: "map_faithful merge_opts"
  by (simp add: map_faithful_def readBlobFromFile_def)

lemma ids_merge_exact [simp]: "merge_exact ids_format"
proof -
  have eq: "set (concat (map2 (\<lambda>s a. filter a s) segs acc)) = accepted ids_format segs acc"
    if "length acc = length segs" for segs :: "ExternalID list list" and acc
    using that by (auto simp: accepted_def ids_format_def set_zip)
  show ?thesis
    unfolding merge_exact_def
    using eq by (auto simp: ids_format_def Let_def split: if_splits)
qed

lemma distinctDeadCount_new: "members_ok m n \<Longrightarrow> distinctDeadCount m (newLiveDocs n) = 0"
  by (auto simp: distinctDeadCount_def members_ok_def Live_new filter_empty_conv)

lemma newEntry_ids:
  assumes "distinct ids"
  shows "newEntry ids_format store ids [] payloadMapped = Ret (ids_merged (length store) ids, store @ [newLiveDocs (length ids)])"
proof -
  have "length (index_map ids) = length ids" using assms by (simp add: index_map_length_eq)
  then show ?thesis
    by (simp add: newEntry_def ids_format_def ids_merged_def Let_def distinctDeadCount_new)
qed

lemma mergeEntry_ids:
  assumes "remdups (concat (map2 (\<lambda>s a. filter a s) segs acc)) = ids" "ids_decode (ids_encode ids) = Ret ids"
  shows "mergeEntry ids_format merge_opts segs acc cs e =
    (e\<lparr>e_store := e_store e @ [newLiveDocs (length ids)]\<rparr>, Ret (ids_merged (length (e_store e)) ids))"
proof -
  have d: "distinct ids" using assms(1) by auto
  have "f_MergeTo ids_format segs acc = Ret (ids_encode ids)" using assms by (simp add: ids_format_def Let_def)
  moreover have "map_merged merge_opts (ids_encode ids) = Ret (ids_encode ids)"
    by (simp add: map_merged_def readBlobFromFile_def)
  moreover have "runFormatValidation ids_format (ids_encode ids) = Ret ()"
    using assms(2) by (simp add: runFormatValidation_def ids_format_def)
  moreover have "bind_out (decode_merged ids_format (ids_encode ids)) (\<lambda>seg. newEntry ids_format (e_store e) seg [] payloadMapped)
      = Ret (ids_merged (length (e_store e)) ids, e_store e @ [newLiveDocs (length ids)])"
    using assms(2) newEntry_ids[OF d] by (simp add: bind_out_Ret_iff) (simp add: ids_format_def)
  ultimately show ?thesis by (simp add: mergeEntry_def)
qed

lemma payload_ok_ids_entry [simp]: "payload_ok ids_format (ids_entry sid a ids)"
proof -
  have "map fst (zip ids (map int [0..<length ids])) = ids" by simp
  then have "fst ` set (zip ids (map int [0..<length ids])) = set ids" by (metis list.set_map)
  then show ?thesis by (simp add: payload_ok_def ids_format_def ids_entry_def gm_keys_def)
qed

lemma doMerge_build_ids:
  assumes "remdups (concat (map2 (\<lambda>s a. filter a s) (map payload chosen) (map (accept_member (e_store e)) chosen))) = ids"
    "ids_decode (ids_encode ids) = Ret ids" "\<not> e_stopped e"
  shows "doMerge_build ids_format merge_opts chosen e =
    (e\<lparr>e_store := e_store e @ [newLiveDocs (length ids)]\<rparr>,
     Ret (Some (stampSupersession (sortedSegmentIDs (map seg_ID chosen)) [contentHash (ids_encode ids)]
       (ids_merged (length (e_store e)) ids))))"
  using assms(3) by (simp add: doMerge_build_def Let_def mergeEntry_ids[OF assms(1,2)] ids_merged_def[of _ ids])

lemma doMerge_conserves_witness:
  "let e = Delete ''x'' (ids_engine [(''A'', [''x'', ''y'']), (''B'', [''z''])]);
       chosen = entries (e_set e)
   in \<exists>e1 en e2 r. doMerge_build ids_format merge_opts chosen e = (e1, Ret (Some en)) \<and>
        doMerge_publish ids_format merge_opts chosen en e1 = (e2, r) \<and>
        entries (e_set e2) = [en] \<and> engine_ok ids_format e2 \<and>
        searchable e2 ''y'' = searchable e ''y'' \<and> searchable e2 ''x'' = searchable e ''x''"
proof -
  let ?b = "ids_engine [(''A'', [''x'', ''y'']), (''B'', [''z''])]" let ?e = "Delete ''x'' ?b"
  let ?c = "entries (e_set ?e)"
  have ok: "engine_ok ids_format ?e" by (intro Delete_ok ids_engine_ok) auto
  have m: "remdups (concat (map2 (\<lambda>s a. filter a s) (map payload ?c) (map (accept_member (e_store ?e)) ?c))) = [''y'', ''z'']"
    by code_simp
  have d: "ids_decode (ids_encode [''y'', ''z'']) = Ret [''y'', ''z'']" by code_simp
  have s: "\<not> e_stopped ?e" by code_simp
  obtain e1 en where b: "doMerge_build ids_format merge_opts ?c ?e = (e1, Ret (Some en))"
    and id: "seg_ID en = contentHash (ids_encode [''y'', ''z''])"
    using doMerge_build_ids[OF m d s] by (simp add: ids_merged_def)
  obtain e2 r where p: "doMerge_publish ids_format merge_opts ?c en e1 = (e2, r)" by fastforce
  have "\<forall>en \<in> set ?c. payload_ok ids_format en" by simp
  note C = doMerge_conserves[OF ok this ids_merge_exact map_faithful_merge_opts _ _ b p]
  have dr: "dropped (e_set ?e) = []" by (simp add: ids_engine_def newSegmentSet_def Let_def)
  show ?thesis using C b p id dr by (auto simp: Let_def)
qed

text \<open>
  C39: a delete that lands while a merge runs is undone by its publication. The engine holds one
  segment \<open>A\<close> = [x, y]. The merge of \<open>A\<close> reads x as live and writes its output; x is
  deleted, and no segment serves it any more; the merge then publishes its all-live output, and x
  is searchable again, routed to the new segment. Nothing between the read of the live bits
  and the publication looks at them again.
\<close>

theorem merge_undoes_concurrent_delete:
  "let e = ids_engine [(''A'', [''x'', ''y''])]; chosen = entries (e_set e);
       (e1, r1) = doMerge_build ids_format merge_opts chosen e;
       e2 = Delete ''x'' e1
   in engine_ok ids_format e \<and> one_copy e \<and>
      (\<exists>en. r1 = Ret (Some en) \<and> \<not> searchable e2 ''x'' \<and>
         searchable (fst (doMerge_publish ids_format merge_opts chosen en e2)) ''x'')"
proof -
  let ?e = "ids_engine [(''A'', [''x'', ''y''])]" let ?c = "entries (e_set ?e)"
  let ?A = "ids_entry ''A'' 0 [''x'', ''y'']"
  have ok: "engine_ok ids_format ?e" by (rule ids_engine_ok) auto
  have oc: "one_copy ?e" by (auto simp: one_copy_def newest_Cons dest: live_in_held)
  have m: "remdups (concat (map2 (\<lambda>s a. filter a s) (map payload ?c) (map (accept_member (e_store ?e)) ?c))) = [''x'', ''y'']"
    by code_simp
  have d: "ids_decode (ids_encode [''x'', ''y'']) = Ret [''x'', ''y'']" by code_simp
  have s: "\<not> e_stopped ?e" by code_simp
  let ?R = "sortedSegmentIDs [''A'']"
  define en where "en = stampSupersession ?R [contentHash (ids_encode [''x'', ''y''])] (ids_merged 1 [''x'', ''y''])"
  let ?e1 = "?e\<lparr>e_store := [newLiveDocs 2, newLiveDocs 2]\<rparr>"
  have st: "e_store ?e = [newLiveDocs 2]" by (simp add: ids_engine_def numeral_2_eq_2)
  have b: "doMerge_build ids_format merge_opts ?c ?e = (?e1, Ret (Some en))"
    using doMerge_build_ids[OF m d s] by (simp add: en_def st numeral_2_eq_2)
  have eo: "entryOf (e_set ?e) ''x'' = Some ?A" by code_simp
  have mA: "map_of (members ?A) ''x'' = Some 0" by code_simp
  have st2: "e_store (Delete ''x'' ?e1) = kill_at [newLiveDocs 2, newLiveDocs 2] 0 0"
    using eo mA by (simp add: Delete_store)
  have gone: "\<not> searchable (Delete ''x'' ?e1) ''x''"
    using mA by (simp add: searchable_def st2 residentMemberIn_def kill_at_def Live_Kill)
  have mem: "map_of (members en) ''x'' = Some 0" "live en = 1"
    by (simp_all add: en_def ids_merged_def index_map_def)
  let ?e2 = "Delete ''x'' ?e1"
  let ?e3 = "fst (doMerge_publish ids_format merge_opts ?c en ?e2)"
  have stop2: "\<not> e_stopped ?e2" using s by (auto simp: Delete_def signalMerge_def split: option.splits)
  have e3: "entries (e_set ?e3) = kept ?R ?c @ [en]" "e_store ?e3 = e_store ?e2"
    using doMerge_publish_sel(1,2)[OF surjective_pairing stop2, of ids_format merge_opts ?c en]
      withReplaced_entries[OF ok, of ids_format ?R "Some en"] by simp_all
  have "live_in (e_store ?e3) en ''x''"
    unfolding e3(2) st2 by (simp add: residentMemberIn_def mem kill_at_def Live_new)
  then have "searchable ?e3 ''x''" using e3(1) by (auto simp: searchable_def)
  then show ?thesis using ok oc b gone by (simp add: Let_def)
qed

text \<open>
  a merge whose output does not validate changes nothing. When the constituents merge and the
  scratch file maps but the format's validator rejects the bytes, whether it returns the error
  or raises it, the consolidation returns the typed refusal that names the constituents and the
  discarded length, no segment is published, withdrawn or reported, and the whole background
  merge is the identity on the engine.
\<close>

lemma refused_merge_changes_nothing:
  assumes "io_open (o_IO opts) = None" "\<not> e_stopped e"
    and "f_MergeTo f (map payload chosen) (map (accept_member (e_store e)) chosen) = Ret bytes"
    and "map_merged opts bytes = Ret data"
    and "f_ValidateSegment f [] data = Fail verr \<and> err = verr \<or>
         f_ValidateSegment f [] data = Raised rid d \<and> err = Corrupt rid d False"
  shows "mergeEntry f opts (map payload chosen) (map (accept_member (e_store e)) chosen) cs e =
           (e, Fail (MergeOutputInvalid cs (f_Name f) (length data) err)) \<and>
         doMerge f opts chosen e = (e, Ret ())"
proof -
  have v: "runFormatValidation f data = Fail err" using assms(5) by (auto simp: runFormatValidation_def)
  have "mergeEntry f opts (map payload chosen) (map (accept_member (e_store e)) chosen) cs e =
      (e, Fail (MergeOutputInvalid cs (f_Name f) (length data) err))" for cs
    by (simp add: mergeEntry_def assms(1,3,4) v refuseMergeOutput_def)
  then show ?thesis using assms(2) by (simp add: doMerge_def doMerge_build_def Let_def)
qed

definition lying_format :: "(ExternalID, nat, ExternalID list, int) SegmentFormat" where
  "lying_format = ids_format\<lparr>f_ValidateSegment := \<lambda>_ _. RaiseCorruptIn ''A'' ''bad offset''\<rparr>"

lemma refused_merge_changes_nothing_witness:
  "doMerge lying_format merge_opts (entries (e_set (ids_engine [(''A'', [''x''])]))) (ids_engine [(''A'', [''x''])])
     = (ids_engine [(''A'', [''x''])], Ret ())"
proof -
  let ?e = "ids_engine [(''A'', [''x''])]" let ?c = "entries (e_set ?e)"
  have m: "f_MergeTo lying_format (map payload ?c) (map (accept_member (e_store ?e)) ?c) = Ret (ids_encode [''x''])"
    by code_simp
  have "map_merged merge_opts (ids_encode [''x'']) = Ret (ids_encode [''x''])"
    by (simp add: map_merged_def readBlobFromFile_def)
  moreover have "\<not> e_stopped ?e" by code_simp
  ultimately show ?thesis
    using refused_merge_changes_nothing[of merge_opts ?e lying_format ?c _ _ _ "Corrupt ''A'' ''bad offset'' False", OF _ _ m]
    by (simp add: lying_format_def RaiseCorruptIn_def)
qed

section \<open>The trigger policy\<close>

text \<open>A segment's count is of its members, and only members' ordinals are ever cleared.\<close>

definition entry_counts_ok :: "liveDocs list \<Rightarrow> 'p segmentEntry \<Rightarrow> bool" where
  "entry_counts_ok store en \<longleftrightarrow> mt_DocCount (meta en) = int (length (members en)) \<and>
     (\<forall>i. 0 \<le> i \<and> i < int (ld_n (store ! live en)) \<and> \<not> Live (store ! live en) i \<longrightarrow> i \<in> snd ` set (members en))"

definition counts_ok :: "('s, 'p) SegmentedIndex \<Rightarrow> bool" where
  "counts_ok e \<longleftrightarrow> (\<forall>en \<in> set (entries (e_set e)). entry_counts_ok (e_store e) en)"

lemma DeadCount_le_DocCount:
  assumes "live_ok (store ! live en)" "entry_counts_ok store en"
  shows "DeadCount (store ! live en) \<le> mt_DocCount (meta en)"
proof -
  let ?D = "{i. 0 \<le> i \<and> i < int (ld_n (store ! live en)) \<and> \<not> Live (store ! live en) i}"
  have "?D \<subseteq> snd ` set (members en)" using assms(2) unfolding entry_counts_ok_def by blast
  then have "card ?D \<le> card (snd ` set (members en))" by (intro card_mono) auto
  also have "\<dots> \<le> length (members en)" by (metis card_length length_map list.set_map)
  finally show ?thesis using assms(2) by (simp add: DeadCount_card[OF assms(1)] entry_counts_ok_def)
qed

lemma dead_ratio_le_1:
  assumes "engine_ok f e" "counts_ok e" "en \<in> set (entries (e_set e))" "1 < o_DeletesPctAllowed opts"
  shows "\<not> dirty_entry opts (e_store e) en"
proof -
  have c: "entry_counts_ok (e_store e) en" using assms(2,3) by (simp add: counts_ok_def)
  have "live_ok (e_store e ! live en)" using engine_okD(5)[OF assms(1,3)] by (simp add: entry_live_ok_def)
  note le = DeadCount_le_DocCount[OF this c]
  have "0 \<le> mt_DocCount (meta en)" using c by (simp add: entry_counts_ok_def)
  then have "(of_int (DeadCount (e_store e ! live en)) :: rat) / of_int (mt_DocCount (meta en)) \<le> 1"
    if "mt_DocCount (meta en) \<noteq> 0" using that le by (simp add: divide_le_eq_1)
  then show ?thesis using assms(4) by (auto simp: dirty_entry_def)
qed

text \<open>
  skipping the dead-ratio walk is unobservable. On a well-formed engine whose document counts
  are those of its members, the trigger selects what the full policy selects (all segments above
  the count target, otherwise those whose dead ratio reaches the threshold), although a threshold
  above one makes it return without looking at a segment; in that case the scan counter does
  not move. \<open>MergeEligible\<close> answers whether the next wake starts a merge: when it answers no,
  the wake changes nothing but that counter.
\<close>

lemma pickMergeTargets_policy:
  assumes "engine_ok f e" "counts_ok e"
  shows "snd (pickMergeTargets opts (e_set e) e) =
      (if int (length (entries (e_set e))) > o_SegmentCountTarget opts then entries (e_set e)
       else filter (dirty_entry opts (e_store e)) (entries (e_set e))) \<and>
    (o_DeletesPctAllowed opts > 1 \<longrightarrow> fst (pickMergeTargets opts (e_set e) e) = e) \<and>
    (\<not> snd (MergeEligible opts e) \<longrightarrow>
       maybeMerge f opts e = (e\<lparr>e_mergeScanCnt := e_mergeScanCnt (fst (maybeMerge f opts e))\<rparr>, Ret ()))"
proof -
  have "filter (dirty_entry opts (e_store e)) (entries (e_set e)) = []" if "1 < o_DeletesPctAllowed opts"
    using dead_ratio_le_1[OF assms _ that] by (auto simp: filter_empty_conv)
  then have "snd (pickMergeTargets opts (e_set e) e) =
      (if int (length (entries (e_set e))) > o_SegmentCountTarget opts then entries (e_set e)
       else filter (dirty_entry opts (e_store e)) (entries (e_set e)))"
    by (auto simp: pickMergeTargets_def deadRatioReachable_def not_le)
  moreover have "fst (pickMergeTargets opts (e_set e) e) = e" if "o_DeletesPctAllowed opts > 1"
    using that by (simp add: pickMergeTargets_def deadRatioReachable_def)
  moreover have "maybeMerge f opts e = (e\<lparr>e_mergeScanCnt := e_mergeScanCnt (fst (maybeMerge f opts e))\<rparr>, Ret ())"
    if "\<not> snd (MergeEligible opts e)"
    using that by (auto simp: maybeMerge_def MergeEligible_def pickMergeTargets_def Let_def split: if_splits prod.splits)
  ultimately show ?thesis by blast
qed

lemma pickMergeTargets_policy_witness:
  "snd (pickMergeTargets (merge_opts\<lparr>o_DeletesPctAllowed := MergeDisabledDeadRatio, o_SegmentCountTarget := 16\<rparr>)
     (e_set (ids_engine [(''A'', [''x''])])) (ids_engine [(''A'', [''x''])])) =
   filter (dirty_entry (merge_opts\<lparr>o_DeletesPctAllowed := MergeDisabledDeadRatio, o_SegmentCountTarget := 16\<rparr>)
     (e_store (ids_engine [(''A'', [''x''])]))) (entries (e_set (ids_engine [(''A'', [''x''])])))"
proof -
  let ?e = "ids_engine [(''A'', [''x''])]"
  have ok: "engine_ok ids_format ?e" by (rule ids_engine_ok) auto
  have "counts_ok ?e"
    by (auto simp: counts_ok_def entry_counts_ok_def ids_engine_def Live_new) (auto simp: ids_entry_def)
  from pickMergeTargets_policy[OF ok this, of "merge_opts\<lparr>o_DeletesPctAllowed := MergeDisabledDeadRatio, o_SegmentCountTarget := 16\<rparr>"]
  show ?thesis by simp
qed

end
