(* ===== verification/Swap.thy ===== *)
theory Swap
  imports Merge
begin

text \<open>
  \<open>internal/searchengine/bucket_swap.go\<close> and \<open>bucket_swap_group.go\<close>: the consolidation of one
  bucket, and of a group of buckets that share constituents, each published by one swap.

  As for a background merge, what is computed against the snapshot taken at the call
  (\<open>..._build\<close>) and the swap against the snapshot of the moment (\<open>..._publish\<close>) are two steps;
  the operation runs them in sequence. The context of a group call is a function: \<open>ctx 0\<close> is what
  \<open>ctx.Err()\<close> answers at the call, \<open>ctx (Suc i)\<close> at the harvest of the i-th partition, and
  the next index before the swap. The harvests run on a pool and share nothing but the
  format, the store of bitsets and the report hooks; the model runs them in work order.
\<close>

section \<open>One bucket\<close>

definition acceptLiveMembers :: "liveDocs list \<Rightarrow> 'p segmentEntry \<Rightarrow> int \<Rightarrow> int \<Rightarrow> ExternalID \<Rightarrow> bool" where
  "acceptLiveMembers store entry bucket bucketCount x =
     (case map_of (members entry) x of
        None \<Rightarrow> False
      | Some ord \<Rightarrow> Live (store ! live entry) ord \<and> BucketOf x bucketCount = bucket)"

definition resolve_ids :: "('s, 'p) segmentSet \<Rightarrow> SegmentID list \<Rightarrow> 'p segmentEntry list" where
  "resolve_ids s constituents = List.map_filter (entryByID s) constituents"

definition fresh_entry :: "('q, 's, 'p, 'sc) SegmentFormat \<Rightarrow> Options \<Rightarrow> Document list \<Rightarrow> ('s, 'p) SegmentedIndex
    \<Rightarrow> ('s, 'p) SegmentedIndex \<times> 'p segmentEntry option outcome" where
  "fresh_entry f opts docs e =
     (if docs = [] then (e, Ret None)
      else case build_entry f opts (dedupeDocsByID docs) e of
             (e, Ret entry) \<Rightarrow> (e, Ret (Some entry))
           | (e, r) \<Rightarrow> (e, failed r))"

definition merge_bucket :: "('q, 's, 'p, 'sc) SegmentFormat \<Rightarrow> Options \<Rightarrow> 'p segmentEntry list \<Rightarrow> 'p segmentEntry option
    \<Rightarrow> int \<Rightarrow> int \<Rightarrow> ('s, 'p) SegmentedIndex \<Rightarrow> ('s, 'p) SegmentedIndex \<times> 'p segmentEntry outcome" where
  "merge_bucket f opts resolved fresh bucket bucketCount e =
     (let ins = resolved @ pub_list fresh
      in mergeEntry f opts (map payload ins) (map (\<lambda>en. acceptLiveMembers (e_store e) en bucket bucketCount) ins)
           (map seg_ID resolved) e)"

record 'p bucket_plan =
  bp_entry :: "'p segmentEntry"
  bp_remove :: "SegmentID list"
  bp_reclaim :: "SegmentID list"

definition ReplaceBucket_build :: "('q, 's, 'p, 'sc) SegmentFormat \<Rightarrow> Options \<Rightarrow> int \<Rightarrow> int \<Rightarrow> SegmentID list
    \<Rightarrow> ExternalID list \<Rightarrow> Document list \<Rightarrow> ('s, 'p) SegmentedIndex
    \<Rightarrow> ('s, 'p) SegmentedIndex \<times> 'p bucket_plan option outcome" where
  "ReplaceBucket_build f opts bucket bucketCount constituents superseded docs e =
     (let resolved = resolve_ids (e_set e) constituents;
          e = e\<lparr>e_store := killSuperseded (e_set e) superseded (e_store e)\<rparr>
      in case fresh_entry f opts docs e of
           (e, Ret fresh) \<Rightarrow>
             (if resolved @ pub_list fresh = [] then (e, Ret None)
              else let removed = map seg_ID resolved
                   in case merge_bucket f opts resolved fresh bucket bucketCount e of
                        (e, Ret entry) \<Rightarrow>
                          (let reclaimable = excluding removed [seg_ID entry]
                           in (e, Ret (Some \<lparr>bp_entry = stampSupersession reclaimable [seg_ID entry] entry,
                                             bp_remove = removed @ map seg_ID (pub_list fresh),
                                             bp_reclaim = reclaimable\<rparr>)))
                      | (e, Fail err) \<Rightarrow> (fst (reportCorruptFrom f opts err e), Fail err)
                      | (e, r) \<Rightarrow> (e, failed r))
         | (e, r) \<Rightarrow> (e, failed r))"

definition ReplaceBucket_publish :: "('q, 's, 'p, 'sc) SegmentFormat \<Rightarrow> Options \<Rightarrow> 'p bucket_plan
    \<Rightarrow> ('s, 'p) SegmentedIndex \<Rightarrow> ('s, 'p) SegmentedIndex \<times> SegmentID outcome" where
  "ReplaceBucket_publish f opts plan e =
     (let e = e\<lparr>e_set := withReplaced f (e_set e) (bp_remove plan) (Some (bp_entry plan))\<rparr>;
          (e, r) = fireMergeHook f opts (bp_entry plan) (bp_reclaim plan) e
      in (e, bind_out r (\<lambda>_. Ret (seg_ID (bp_entry plan)))))"

definition ReplaceBucket :: "('q, 's, 'p, 'sc) SegmentFormat \<Rightarrow> Options \<Rightarrow> int \<Rightarrow> int \<Rightarrow> SegmentID list
    \<Rightarrow> ExternalID list \<Rightarrow> Document list \<Rightarrow> ('s, 'p) SegmentedIndex
    \<Rightarrow> ('s, 'p) SegmentedIndex \<times> SegmentID outcome" where
  "ReplaceBucket f opts bucket bucketCount constituents superseded docs e =
     (case ReplaceBucket_build f opts bucket bucketCount constituents superseded docs e of
        (e, Ret None) \<Rightarrow> (e, Ret [])
      | (e, Ret (Some plan)) \<Rightarrow> ReplaceBucket_publish f opts plan e
      | (e, r) \<Rightarrow> (e, failed r))"

section \<open>A group of buckets\<close>

record BucketWork =
  bw_Bucket :: int
  bw_Superseded :: "ExternalID list"
  bw_Docs :: "Document list"

record GroupHarvestStats =
  gs_ResolvedSegments :: nat
  gs_WalkedSegments :: nat
  gs_MaxWalkedSegments :: nat

definition bucketSpans :: "'p segmentEntry list \<Rightarrow> int \<Rightarrow> (SegmentID, int list) gomap" where
  "bucketSpans resolved bucketCount =
     foldl (\<lambda>spans entry. AList.update (seg_ID entry)
         (remdups (map (\<lambda>(x, _). BucketOf x bucketCount) (members entry))) spans) [] resolved"

definition entriesSpanningBucket :: "'p segmentEntry list \<Rightarrow> (SegmentID, int list) gomap \<Rightarrow> int \<Rightarrow> 'p segmentEntry list" where
  "entriesSpanningBucket resolved spans bucket =
     filter (\<lambda>entry. case map_of spans (seg_ID entry) of None \<Rightarrow> False | Some bs \<Rightarrow> bucket \<in> set bs) resolved"

text \<open>A partition that harvested nothing answers no entry; the fresh id is empty when it had no documents.\<close>

definition harvestPartition :: "('q, 's, 'p, 'sc) SegmentFormat \<Rightarrow> Options \<Rightarrow> 'p segmentEntry list \<Rightarrow> BucketWork \<Rightarrow> int
    \<Rightarrow> ('s, 'p) SegmentedIndex \<Rightarrow> ('s, 'p) SegmentedIndex \<times> ('p segmentEntry option \<times> SegmentID) outcome" where
  "harvestPartition f opts spanning w bucketCount e =
     (case fresh_entry f opts (bw_Docs w) e of
        (e, Ret fresh) \<Rightarrow>
          (let freshID = (case fresh of None \<Rightarrow> [] | Some en \<Rightarrow> seg_ID en)
           in if spanning @ pub_list fresh = [] then (e, Ret (None, freshID))
              else case merge_bucket f opts spanning fresh (bw_Bucket w) bucketCount e of
                     (e, Ret entry) \<Rightarrow>
                       (if mt_DocCount (meta entry) = 0 then (e, Ret (None, freshID)) else (e, Ret (Some entry, freshID)))
                   | (e, r) \<Rightarrow> (e, failed r))
      | (e, r) \<Rightarrow> (e, failed r))"

type_synonym 'p harvest = "('p segmentEntry option \<times> SegmentID) outcome \<times> nat"

fun harvestGroup :: "('q, 's, 'p, 'sc) SegmentFormat \<Rightarrow> Options \<Rightarrow> (nat \<Rightarrow> engine_error option) \<Rightarrow> 'p segmentEntry list
    \<Rightarrow> (SegmentID, int list) gomap \<Rightarrow> BucketWork list \<Rightarrow> int \<Rightarrow> ('s, 'p) SegmentedIndex
    \<Rightarrow> ('s, 'p) SegmentedIndex \<times> 'p harvest list" where
  "harvestGroup f opts ctx resolved spans [] bucketCount e = (e, [])"
| "harvestGroup f opts ctx resolved spans (w # ws) bucketCount e =
     (let (e, h) = (case ctx 0 of
                      Some err \<Rightarrow> (e, (Fail err, 0))
                    | None \<Rightarrow>
                        (let share = entriesSpanningBucket resolved spans (bw_Bucket w);
                             (e, r) = harvestPartition f opts share w bucketCount e
                         in (e, (r, length share))));
          (e, hs) = harvestGroup f opts (\<lambda>i. ctx (Suc i)) resolved spans ws bucketCount e
      in (e, h # hs))"

text \<open>
  The serial fold over the harvests: the outputs in work order with the published ids, and the
  fresh ids that join the removal set, or the first error. A harvest that panicked has already
  ended the process.
\<close>

fun crash_of :: "'p harvest list \<Rightarrow> 'p harvest option" where
  "crash_of [] = None"
| "crash_of ((Raised s d, n) # hs) = Some (Raised s d, n)"
| "crash_of ((Panic m, n) # hs) = Some (Panic m, n)"
| "crash_of (h # hs) = crash_of hs"

fun fold_harvests :: "BucketWork list \<Rightarrow> 'p harvest list
    \<Rightarrow> engine_error + ('p segmentEntry list \<times> (int, SegmentID) gomap \<times> SegmentID list)" where
  "fold_harvests (w # ws) ((Fail err, _) # hs) = Inl err"
| "fold_harvests (w # ws) ((Ret (out, freshID), _) # hs) =
     (case fold_harvests ws hs of
        Inl err \<Rightarrow> Inl err
      | Inr (added, pub, fresh) \<Rightarrow>
          (let fresh = (if freshID \<noteq> [] then freshID # fresh else fresh)
           in case out of
                None \<Rightarrow> Inr (added, pub, fresh)
              | Some en \<Rightarrow> Inr (en # added, (if bw_Bucket w \<in> fst ` set pub then pub else (bw_Bucket w, seg_ID en) # pub), fresh)))"
| "fold_harvests _ _ = Inr ([], [], [])"

definition stampGroupSupersession :: "'p segmentEntry list \<Rightarrow> SegmentID list \<Rightarrow> 'p segmentEntry list \<times> SegmentID list" where
  "stampGroupSupersession added removed =
     (let cohort = map seg_ID added;
          survivors = excluding removed cohort
      in (map (stampSupersession survivors cohort) added, survivors))"

record 'p group_plan =
  gp_added :: "'p segmentEntry list"
  gp_published :: "(int, SegmentID) gomap"
  gp_remove :: "SegmentID list"
  gp_survivors :: "SegmentID list"

definition kill_group :: "('s, 'p) segmentSet \<Rightarrow> BucketWork list \<Rightarrow> liveDocs list \<Rightarrow> liveDocs list" where
  "kill_group s work store = foldl (\<lambda>store w. killSuperseded s (bw_Superseded w) store) store work"

definition group_stats :: "nat \<Rightarrow> 'p harvest list \<Rightarrow> GroupHarvestStats" where
  "group_stats n hs =
     \<lparr>gs_ResolvedSegments = n, gs_WalkedSegments = sum_list (map snd hs),
      gs_MaxWalkedSegments = foldl max 0 (map snd hs)\<rparr>"

definition ReplaceBucketGroup_build :: "('q, 's, 'p, 'sc) SegmentFormat \<Rightarrow> Options \<Rightarrow> (nat \<Rightarrow> engine_error option) \<Rightarrow> int
    \<Rightarrow> SegmentID list \<Rightarrow> BucketWork list \<Rightarrow> ('s, 'p) SegmentedIndex
    \<Rightarrow> ('s, 'p) SegmentedIndex \<times> GroupHarvestStats \<times> 'p group_plan outcome" where
  "ReplaceBucketGroup_build f opts ctx bucketCount constituents work e =
     (case ctx 0 of
        Some err \<Rightarrow> (e, group_stats 0 ([] :: 'p harvest list), Fail err)
      | None \<Rightarrow>
          (let s = e_set e;
               resolved = resolve_ids s constituents;
               removed = map seg_ID resolved;
               e = e\<lparr>e_store := kill_group s work (e_store e)\<rparr>;
               (e, hs) = harvestGroup f opts (\<lambda>i. ctx (Suc i)) resolved (bucketSpans resolved bucketCount) work bucketCount e;
               st = group_stats (length resolved) hs
           in case crash_of hs of
                Some (r, _) \<Rightarrow> (e, st, failed r)
              | None \<Rightarrow>
                  (case fold_harvests work hs of
                     Inl err \<Rightarrow> (fst (reportCorruptFrom f opts err e), st, Fail err)
                   | Inr (added, pub, fresh) \<Rightarrow>
                       (case ctx (Suc (length work)) of
                          Some err \<Rightarrow> (e, st, Fail err)
                        | None \<Rightarrow>
                            (let (added, survivors) = stampGroupSupersession added removed
                             in (e, st, Ret \<lparr>gp_added = added, gp_published = pub,
                                              gp_remove = removed @ fresh, gp_survivors = survivors\<rparr>))))))"

fun fire_group :: "('q, 's, 'p, 'sc) SegmentFormat \<Rightarrow> Options \<Rightarrow> 'p segmentEntry list \<Rightarrow> SegmentID list
    \<Rightarrow> ('s, 'p) SegmentedIndex \<Rightarrow> ('s, 'p) SegmentedIndex \<times> unit outcome" where
  "fire_group f opts [] survivors e = (e, Ret ())"
| "fire_group f opts (en # ens) survivors e =
     (case fireMergeHook f opts en survivors e of
        (e, Ret _) \<Rightarrow> fire_group f opts ens [] e
      | (e, r) \<Rightarrow> (e, r))"

definition ReplaceBucketGroup_publish :: "('q, 's, 'p, 'sc) SegmentFormat \<Rightarrow> Options \<Rightarrow> 'p group_plan
    \<Rightarrow> ('s, 'p) SegmentedIndex \<Rightarrow> ('s, 'p) SegmentedIndex \<times> (int, SegmentID) gomap outcome" where
  "ReplaceBucketGroup_publish f opts plan e =
     (if gp_added plan = [] then (e, Ret (gp_published plan))
      else let e = e\<lparr>e_set := withReplacedGroup f (e_set e) (gp_remove plan) (gp_added plan)\<rparr>;
               (e, r) = fire_group f opts (gp_added plan) (gp_survivors plan) e
           in (e, bind_out r (\<lambda>_. Ret (gp_published plan))))"

definition ReplaceBucketGroup :: "('q, 's, 'p, 'sc) SegmentFormat \<Rightarrow> Options \<Rightarrow> (nat \<Rightarrow> engine_error option) \<Rightarrow> int
    \<Rightarrow> SegmentID list \<Rightarrow> BucketWork list \<Rightarrow> ('s, 'p) SegmentedIndex
    \<Rightarrow> ('s, 'p) SegmentedIndex \<times> GroupHarvestStats \<times> (int, SegmentID) gomap outcome" where
  "ReplaceBucketGroup f opts ctx bucketCount constituents work e =
     (case ReplaceBucketGroup_build f opts ctx bucketCount constituents work e of
        (e, st, Ret plan) \<Rightarrow> (let (e, r) = ReplaceBucketGroup_publish f opts plan e in (e, st, r))
      | (e, st, r) \<Rightarrow> (e, st, failed r))"

section \<open>The parts of a swap\<close>

lemma acceptLiveMembers_iff [simp]:
  "acceptLiveMembers store en b n x \<longleftrightarrow> live_in store en x \<and> BucketOf x n = b"
  by (auto simp: acceptLiveMembers_def residentMemberIn_def split: option.splits)

lemma in_set_map_filter [simp]: "y \<in> set (List.map_filter g xs) \<longleftrightarrow> (\<exists>x \<in> set xs. g x = Some y)"
  by (induction xs) (auto simp: map_filter_simps split: option.splits)

lemma resolve_ids_set:
  assumes "distinct (map seg_ID (entries s))"
  shows "set (resolve_ids s cs) = {en \<in> set (entries s). seg_ID en \<in> set cs}"
proof -
  have "entryByID s sid = Some en \<longleftrightarrow> en \<in> set (entries s) \<and> seg_ID en = sid" for sid en
  proof
    assume "entryByID s sid = Some en"
    then show "en \<in> set (entries s) \<and> seg_ID en = sid" by (auto simp: entryByID_def dest: entry_scan_Some)
  next
    assume en: "en \<in> set (entries s) \<and> seg_ID en = sid"
    then obtain en' where en': "entryByID s sid = Some en'"
      by (cases "entryByID s sid") (auto simp: entryByID_def entry_scan_None)
    then have "en' \<in> set (entries s)" "seg_ID en' = sid" by (auto simp: entryByID_def dest: entry_scan_Some)
    then show "entryByID s sid = Some en" using en en' assms by (auto simp: distinct_map dest: inj_onD)
  qed
  then show ?thesis by (auto simp: resolve_ids_def)
qed

lemma build_entry_exact:
  assumes "build_exact f" "build_entry f opts docs e = (e', Ret en)"
  shows "held x en \<longleftrightarrow> x \<in> doc_ID ` set docs" "payload_ok f en"
    "\<exists>blob. s_Encode f (payload en) = Ret blob \<and> seg_ID en = contentHash blob"
proof -
  obtain seg ids where b: "snd (f_Build f docs) = Ret seg" "s_IDs f seg = Ret ids" "payload en = seg" "gm_keys (members en) = set ids"
    using build_entry_Ret(6)[OF assms(2)] by blast
  then have "set ids = doc_ID ` set docs" using assms(1) unfolding build_exact_def by blast
  then show "held x en \<longleftrightarrow> x \<in> doc_ID ` set docs" "payload_ok f en" using b by (simp_all add: held_iff payload_ok_def)
  show "\<exists>blob. s_Encode f (payload en) = Ret blob \<and> seg_ID en = contentHash blob"
    using assms(2) by (auto simp: build_entry_def Let_def bind_out_Ret_iff elim!: newEntry_spec split: prod.splits outcome.splits)
qed

lemma fresh_entry_frame:
  assumes "fresh_entry f opts docs e = (e', r)"
  shows "e_set e' = e_set e" "\<exists>lds. e_store e' = e_store e @ lds" "e_merges e' = e_merges e" "e_corrupts e' = e_corrupts e"
    "e_stopped e' = e_stopped e" "e_mergeCnt e' = e_mergeCnt e" "only_withdraws opts e e'"
proof -
  have f: "e_set e' = e_set e \<and> e_merges e' = e_merges e \<and> e_corrupts e' = e_corrupts e \<and>
      e_stopped e' = e_stopped e \<and> e_mergeCnt e' = e_mergeCnt e \<and> (\<exists>lds. e_store e' = e_store e @ lds)"
  proof (cases "docs = []")
    case False
    then obtain rb where b: "build_entry f opts (dedupeDocsByID docs) e = (e', rb)"
      using assms by (auto simp: fresh_entry_def split: prod.splits outcome.splits)
    then show ?thesis
      using build_entry_frame[OF b] build_entry_Ret(1)[of f opts _ e e'] build_entry_not_Ret[OF b] by (cases rb) auto
  qed (use assms in \<open>simp add: fresh_entry_def\<close>)
  then show "e_set e' = e_set e" "\<exists>lds. e_store e' = e_store e @ lds" "e_merges e' = e_merges e" "e_corrupts e' = e_corrupts e"
    "e_stopped e' = e_stopped e" "e_mergeCnt e' = e_mergeCnt e" by auto
  show "only_withdraws opts e e'" using f by (intro only_withdraws_same) auto
qed

lemma fresh_entry_Ret:
  assumes "build_exact f" "fresh_entry f opts docs e = (e', Ret fresh)"
  shows "fresh = None \<longleftrightarrow> docs = []" "fresh = Some en \<Longrightarrow> held x en \<longleftrightarrow> x \<in> doc_ID ` set docs"
    "fresh = Some en \<Longrightarrow> live_in (e_store e') en x \<longleftrightarrow> held x en" "fresh = Some en \<Longrightarrow> payload_ok f en"
    "fresh = Some en \<Longrightarrow> live en < length (e_store e')"
    "fresh = Some en \<Longrightarrow> \<exists>blob. s_Encode f (payload en) = Ret blob \<and> seg_ID en = contentHash blob"
proof -
  show "fresh = None \<longleftrightarrow> docs = []"
    using assms(2) by (auto simp: fresh_entry_def split: if_splits prod.splits outcome.splits)
  assume f: "fresh = Some en"
  have b: "build_entry f opts (dedupeDocsByID docs) e = (e', Ret en)"
    using assms(2) f by (auto simp: fresh_entry_def split: if_splits prod.splits outcome.splits)
  show "held x en \<longleftrightarrow> x \<in> doc_ID ` set docs" "payload_ok f en"
    using build_entry_exact(1,2)[OF assms(1) b] by (simp_all add: dedupe_doc_ids)
  show "live_in (e_store e') en x \<longleftrightarrow> held x en" "live en < length (e_store e')"
    using build_entry_Ret(3,5)[OF b] by (simp_all add: entry_live_ok_def)
  show "\<exists>blob. s_Encode f (payload en) = Ret blob \<and> seg_ID en = contentHash blob"
    by (rule build_entry_exact(3)[OF assms(1) b])
qed

text \<open>What the merge of a bucket holds, from the liveness at the start of the call.\<close>

lemma merge_bucket_spec:
  assumes fmt: "build_exact f" "merge_exact f" "map_faithful opts"
    and res: "\<forall>c \<in> set resolved. payload_ok f c \<and> live c < length (e_store e)"
    and fe: "fresh_entry f opts docs e = (e1, Ret fresh)"
    and mb: "merge_bucket f opts resolved fresh b n e1 = (e2, Ret en)"
  shows "held x en \<longleftrightarrow> BucketOf x n = b \<and> ((\<exists>c \<in> set resolved. live_in (e_store e) c x) \<or> x \<in> doc_ID ` set docs)"
    "live_in (e_store e2) en x \<longleftrightarrow> held x en" "payload_ok f en" "gomap_ok (members en)" "entry_live_ok (e_store e2) en"
    "length (e_store e) \<le> live en" "e_set e2 = e_set e" "\<exists>lds. e_store e2 = e_store e @ lds"
    "mt_DocCount (meta en) = 0 \<longleftrightarrow> (\<forall>x. \<not> held x en)" "sup_record en = \<lparr>Superseded = [], Cohort = []\<rparr>"
proof -
  let ?ins = "resolved @ pub_list fresh"
  obtain lds where lds: "e_store e1 = e_store e @ lds" using fresh_entry_frame(2)[OF fe] by blast
  note F = fresh_entry_Ret[OF fmt(1) fe]
  have po: "\<forall>c \<in> set ?ins. payload_ok f c" using res F(4) by (auto split: option.splits)
  note M = mergeEntry_members[OF fmt(2,3) _ mb[unfolded merge_bucket_def Let_def], simplified]
  have "held x en \<longleftrightarrow> (\<exists>c \<in> set ?ins. live_in (e_store e1) c x \<and> BucketOf x n = b)"
    using M(1)[of x] accepted_entries[OF po, of "\<lambda>en. acceptLiveMembers (e_store e1) en b n"]
    by (auto dest: live_in_held)
  moreover have "live_in (e_store e1) c x = live_in (e_store e) c x" if "c \<in> set resolved" for c
    using res that by (simp add: lds live_in_append)
  moreover have "(\<exists>c \<in> set (pub_list fresh). live_in (e_store e1) c x) \<longleftrightarrow> x \<in> doc_ID ` set docs"
    using F(1) F(2,3)[of _ x] by (cases fresh) auto
  ultimately show "held x en \<longleftrightarrow> BucketOf x n = b \<and> ((\<exists>c \<in> set resolved. live_in (e_store e) c x) \<or> x \<in> doc_ID ` set docs)"
    by (auto split: option.splits)
  show "live_in (e_store e2) en x \<longleftrightarrow> held x en" "payload_ok f en" "gomap_ok (members en)" "entry_live_ok (e_store e2) en"
    "sup_record en = \<lparr>Superseded = [], Cohort = []\<rparr>"
    using M by simp_all
  show "length (e_store e) \<le> live en" "\<exists>lds. e_store e2 = e_store e @ lds" using M(6,8) lds by auto
  show "e_set e2 = e_set e" by (subst M(7)) (simp add: fresh_entry_frame(1)[OF fe])
  show "mt_DocCount (meta en) = 0 \<longleftrightarrow> (\<forall>x. \<not> held x en)" using M(9) by (auto simp: held_iff gm_keys_def)
qed

lemma merge_bucket_frame:
  assumes "merge_bucket f opts resolved fresh b n e = (e', r)"
  shows "only_withdraws opts e e'" "\<exists>lds. e_store e' = e_store e @ lds" "engine_ok f e \<Longrightarrow> engine_ok f e'"
  using mergeEntry_frame[OF assms[unfolded merge_bucket_def Let_def]] by auto

section \<open>Spans\<close>

definition spans_bucket :: "int \<Rightarrow> int \<Rightarrow> 'p segmentEntry \<Rightarrow> bool" where
  "spans_bucket n b en \<longleftrightarrow> (\<exists>x. held x en \<and> BucketOf x n = b)"

lemma bucketSpans_lookup:
  "map_of (bucketSpans es n) sid =
     map_option (\<lambda>en. remdups (map (\<lambda>(x, _). BucketOf x n) (members en))) (newest (\<lambda>en. seg_ID en = sid) es)"
  by (induction es rule: rev_induct) (auto simp: bucketSpans_def update_conv')

lemma entriesSpanningBucket_filter:
  assumes "\<forall>a \<in> set es. \<forall>b \<in> set es. seg_ID a = seg_ID b \<longrightarrow> a = b"
  shows "entriesSpanningBucket es (bucketSpans es n) b = filter (spans_bucket n b) es"
proof -
  have "(case map_of (bucketSpans es n) (seg_ID en) of None \<Rightarrow> False | Some bs \<Rightarrow> b \<in> set bs) \<longleftrightarrow> spans_bucket n b en"
    if en: "en \<in> set es" for en
  proof -
    obtain en' where n: "newest (\<lambda>x. seg_ID x = seg_ID en) es = Some en'"
      using newest_ex[OF en, of "\<lambda>x. seg_ID x = seg_ID en"] by auto
    then have "en' = en" using newest_SomeD[OF n] assms en by blast
    then have "map_of (bucketSpans es n) (seg_ID en) = Some (remdups (map (\<lambda>(x, _). BucketOf x n) (members en)))"
      using n by (simp add: bucketSpans_lookup)
    then show ?thesis by (force simp: spans_bucket_def held_iff gm_keys_def)
  qed
  then show ?thesis unfolding entriesSpanningBucket_def by (intro filter_cong) auto
qed

text \<open>A format whose merge does not depend on an input none of whose members is accepted.\<close>

definition contributes :: "('q, 's, 'p, 'sc) SegmentFormat \<Rightarrow> 'p \<times> (ExternalID \<Rightarrow> bool) \<Rightarrow> bool" where
  "contributes f pa \<longleftrightarrow> (\<exists>ids. s_IDs f (fst pa) = Ret ids \<and> (\<exists>x \<in> set ids. snd pa x))"

definition merge_ignores_rejected :: "('q, 's, 'p, 'sc) SegmentFormat \<Rightarrow> bool" where
  "merge_ignores_rejected f \<longleftrightarrow> (\<forall>ps. f_MergeTo f (map fst ps) (map snd ps) =
     f_MergeTo f (map fst (filter (contributes f) ps)) (map snd (filter (contributes f) ps)))"

lemma MergeTo_filter_eq:
  assumes "merge_ignores_rejected f" "\<And>p. p \<in> set ps \<Longrightarrow> contributes f p \<Longrightarrow> Q p"
  shows "f_MergeTo f (map fst (filter Q ps)) (map snd (filter Q ps)) = f_MergeTo f (map fst ps) (map snd ps)"
proof -
  have "filter (contributes f) (filter Q ps) = filter (contributes f) ps"
    using assms(2) by (auto intro: filter_cong)
  then show ?thesis using assms(1) unfolding merge_ignores_rejected_def by metis
qed

section \<open>A group's harvests\<close>

text \<open>
  What a harvest of the work \<open>w\<close> owes, \<open>old\<close> being the ids live in a constituent at the
  start of the call: the ids of the bucket that were live or arrive, all live, or no output when
  there are none.
\<close>

definition harvested :: "('q, 's, 'p, 'sc) SegmentFormat \<Rightarrow> int \<Rightarrow> (ExternalID \<Rightarrow> bool) \<Rightarrow> nat \<Rightarrow> liveDocs list
    \<Rightarrow> BucketWork \<Rightarrow> 'p segmentEntry option \<Rightarrow> bool" where
  "harvested f n old k store w out \<longleftrightarrow>
     (case out of
        None \<Rightarrow> \<forall>x. \<not> (BucketOf x n = bw_Bucket w \<and> (old x \<or> x \<in> doc_ID ` set (bw_Docs w)))
      | Some en \<Rightarrow> (\<forall>x. held x en \<longleftrightarrow> BucketOf x n = bw_Bucket w \<and> (old x \<or> x \<in> doc_ID ` set (bw_Docs w))) \<and>
          (\<forall>x. live_in store en x \<longleftrightarrow> held x en) \<and> payload_ok f en \<and> gomap_ok (members en) \<and>
          entry_live_ok store en \<and> k \<le> live en)"

definition fresh_of :: "('q, 's, 'p, 'sc) SegmentFormat \<Rightarrow> BucketWork \<Rightarrow> SegmentID \<Rightarrow> bool" where
  "fresh_of f w fid \<longleftrightarrow> (fid \<noteq> [] \<longrightarrow> (\<exists>seg blob ids. s_Encode f seg = Ret blob \<and> s_IDs f seg = Ret ids \<and>
     set ids = doc_ID ` set (bw_Docs w) \<and> fid = contentHash blob))"

lemma harvested_append: "harvested f n old k store w out \<Longrightarrow> k' \<le> k \<Longrightarrow> harvested f n old k' (store @ lds) w out"
  by (auto simp: harvested_def entry_live_ok_append live_in_append entry_live_ok_def[of store] split: option.splits)

lemma fresh_id_ne: "contentHash b \<noteq> []"
  by (simp add: contentHash_neq)

lemma harvestPartition_spec:
  assumes fmt: "build_exact f" "merge_exact f" "map_faithful opts"
    and res: "\<forall>c \<in> set share. payload_ok f c \<and> live c < length (e_store e)"
    and h: "harvestPartition f opts share w n e = (e', Ret (out, fid))"
  shows "harvested f n (\<lambda>x. \<exists>c \<in> set share. live_in (e_store e) c x) (length (e_store e)) (e_store e') w out" "fresh_of f w fid"
    "e_set e' = e_set e"
proof -
  obtain e1 fresh where fe: "fresh_entry f opts (bw_Docs w) e = (e1, Ret fresh)"
    using h by (auto simp: harvestPartition_def split: prod.splits outcome.splits)
  note F = fresh_entry_Ret[OF fmt(1) fe]
  have fid: "fid = (case fresh of None \<Rightarrow> [] | Some en \<Rightarrow> seg_ID en)"
    using h fe by (auto simp: harvestPartition_def Let_def split: prod.splits outcome.splits if_splits)
  show "fresh_of f w fid"
  proof (cases fresh)
    case (Some en)
    have k: "gm_keys (members en) = doc_ID ` set (bw_Docs w)" using F(2)[OF Some] by (auto simp: held_iff)
    obtain ids where "s_IDs f (payload en) = Ret ids" "gm_keys (members en) = set ids"
      using F(4)[OF Some] by (auto simp: payload_ok_def)
    moreover obtain blob where "s_Encode f (payload en) = Ret blob" "seg_ID en = contentHash blob"
      using F(6)[OF Some] by blast
    ultimately show ?thesis unfolding fresh_of_def fid Some option.case k by metis
  qed (simp add: fresh_of_def fid)
  have "harvested f n (\<lambda>x. \<exists>c \<in> set share. live_in (e_store e) c x) (length (e_store e)) (e_store e') w out \<and> e_set e' = e_set e"
  proof (cases "share @ pub_list fresh = []")
    case True
    have "out = None" "e' = e1" using h fe True by (auto simp: harvestPartition_def)
    moreover have "share = []" "bw_Docs w = []" using True F(1) by (auto split: option.splits)
    ultimately show ?thesis using fresh_entry_frame(1)[OF fe] by (simp add: harvested_def)
  next
    case False
    obtain en where m: "merge_bucket f opts share fresh (bw_Bucket w) n e1 = (e', Ret en)"
      and out: "out = (if mt_DocCount (meta en) = 0 then None else Some en)"
      using h fe False by (auto simp: harvestPartition_def Let_def split: prod.splits outcome.splits if_splits)
    note M = merge_bucket_spec[OF fmt res fe m]
    show ?thesis using M out by (auto simp: harvested_def)
  qed
  then show "harvested f n (\<lambda>x. \<exists>c \<in> set share. live_in (e_store e) c x) (length (e_store e)) (e_store e') w out"
    "e_set e' = e_set e" by auto
qed

lemma harvestPartition_frame:
  assumes "harvestPartition f opts share w n e = (e', r)"
  shows "only_withdraws opts e e'" "\<exists>lds. e_store e' = e_store e @ lds" "engine_ok f e \<Longrightarrow> engine_ok f e'"
proof -
  obtain e1 r1 where fe: "fresh_entry f opts (bw_Docs w) e = (e1, r1)" by fastforce
  note F = fresh_entry_frame[OF fe]
  obtain lds where lds: "e_store e1 = e_store e @ lds" using F(2) by blast
  have "e' = e1 \<or> (\<exists>fresh r. merge_bucket f opts share fresh (bw_Bucket w) n e1 = (e', r))"
    using assms fe by (auto simp: harvestPartition_def Let_def split: outcome.splits if_splits prod.splits)
  then show "only_withdraws opts e e'" "\<exists>lds. e_store e' = e_store e @ lds" "engine_ok f e \<Longrightarrow> engine_ok f e'"
    using F(7) lds engine_ok_store[OF _ F(1) lds] only_withdraws_trans[OF F(7), of e'] merge_bucket_frame[of f opts share _ _ n e1 e']
    by (metis, metis append.assoc, metis)
qed

lemma harvestGroup_frame:
  assumes "harvestGroup f opts ctx resolved spans ws n e = (e', hs)"
  shows "only_withdraws opts e e' \<and> (\<exists>lds. e_store e' = e_store e @ lds) \<and> (engine_ok f e \<longrightarrow> engine_ok f e') \<and> length hs = length ws"
  using assms
proof (induction ws arbitrary: ctx e e' hs)
  case Nil
  then show ?case by (simp add: only_withdraws_same)
next
  case (Cons w ws)
  obtain e1 h hs' where 1: "harvestGroup f opts (\<lambda>i. ctx (Suc i)) resolved spans ws n e1 = (e', hs')" "hs = h # hs'"
    "e1 = e \<or> (\<exists>r. harvestPartition f opts (entriesSpanningBucket resolved spans (bw_Bucket w)) w n e = (e1, r))"
    using Cons.prems by (auto simp: Let_def split: option.splits prod.splits)
  note IH = Cons.IH[OF 1(1)]
  have "only_withdraws opts e e1 \<and> (\<exists>lds. e_store e1 = e_store e @ lds) \<and> (engine_ok f e \<longrightarrow> engine_ok f e1)"
    using 1(3) harvestPartition_frame[of f opts _ w n e e1] only_withdraws_same[of e1 e opts] by auto
  then show ?case using IH only_withdraws_trans[of opts e e1 e'] 1(2) by auto
qed

abbreviation outs :: "'p harvest list \<Rightarrow> 'p segmentEntry list" where
  "outs hs \<equiv> List.map_filter (\<lambda>h. case fst h of Ret (out, _) \<Rightarrow> out | _ \<Rightarrow> None) hs"

abbreviation fresh_ids :: "'p harvest list \<Rightarrow> SegmentID list" where
  "fresh_ids hs \<equiv> List.map_filter (\<lambda>h. case fst h of Ret (_, fid) \<Rightarrow> if fid \<noteq> [] then Some fid else None | _ \<Rightarrow> None) hs"

lemma in_outs: "en \<in> set (outs hs) \<longleftrightarrow> (\<exists>fid m. (Ret (Some en, fid), m) \<in> set hs)"
proof -
  have "(case fst h of Ret (out, _) \<Rightarrow> out | _ \<Rightarrow> None) = Some en \<longleftrightarrow> (\<exists>fid m. h = (Ret (Some en, fid), m))" for h :: "'a harvest"
    by (cases h; cases "fst h") auto
  then show ?thesis by simp blast
qed

lemma in_fresh_ids: "fid \<in> set (fresh_ids hs) \<longleftrightarrow> fid \<noteq> [] \<and> (\<exists>out m. (Ret (out, fid), m) \<in> set hs)"
proof -
  have "(case fst h of Ret (_, fid) \<Rightarrow> if fid \<noteq> [] then Some fid else None | _ \<Rightarrow> None) = Some fid \<longleftrightarrow>
      fid \<noteq> [] \<and> (\<exists>out m. h = (Ret (out, fid), m))" for h :: "'a harvest"
    by (cases h; cases "fst h") (auto split: if_splits)
  then show ?thesis by simp blast
qed

lemma fold_harvests_spec:
  assumes "fold_harvests ws hs = Inr (added, pub, fresh)" "crash_of hs = None" "length hs = length ws"
  shows "(\<forall>h \<in> set hs. \<exists>a m. h = (Ret a, m)) \<and> added = outs hs \<and> fresh = fresh_ids hs \<and>
    (\<forall>b sid. map_of pub b = Some sid \<longrightarrow> (\<exists>en \<in> set added. seg_ID en = sid))"
  using assms
proof (induction ws hs arbitrary: added pub fresh rule: fold_harvests.induct)
  case (2 w ws out fid m hs)
  obtain added' pub' fresh' where r: "fold_harvests ws hs = Inr (added', pub', fresh')"
    using 2(2) by (auto split: sum.splits)
  have IH: "(\<forall>h \<in> set hs. \<exists>a m. h = (Ret a, m)) \<and> added' = outs hs \<and> fresh' = fresh_ids hs \<and>
    (\<forall>b sid. map_of pub' b = Some sid \<longrightarrow> (\<exists>en \<in> set added'. seg_ID en = sid))"
    using 2(1)[OF r] 2(3,4) by auto
  have eqs: "added = (case out of None \<Rightarrow> added' | Some en \<Rightarrow> en # added')" "fresh = (if fid \<noteq> [] then fid # fresh' else fresh')"
    "pub = (case out of None \<Rightarrow> pub' | Some en \<Rightarrow> if bw_Bucket w \<in> fst ` set pub' then pub' else (bw_Bucket w, seg_ID en) # pub')"
    using 2(2) r by (cases out; clarsimp simp: Let_def)+
  show ?case using IH by (auto simp: eqs map_filter_simps split: option.splits if_splits)
qed (auto simp: map_filter_simps)

lemma harvestGroup_spec:
  assumes fmt: "build_exact f" "merge_exact f" "map_faithful opts"
    and uniq: "\<forall>a \<in> set resolved. \<forall>b \<in> set resolved. seg_ID a = seg_ID b \<longrightarrow> a = b"
    and res: "\<forall>c \<in> set resolved. payload_ok f c \<and> live c < length (e_store e)"
    and h: "harvestGroup f opts ctx resolved (bucketSpans resolved n) ws n e = (e', hs)"
    and ret: "\<forall>h \<in> set hs. \<exists>a m. h = (Ret a, m)"
  shows "list_all2 (\<lambda>w h. \<exists>out fid m. h = (Ret (out, fid), m) \<and> fresh_of f w fid \<and>
      harvested f n (\<lambda>x. \<exists>c \<in> set resolved. live_in (e_store e) c x) (length (e_store e)) (e_store e') w out) ws hs \<and>
    distinct (map live (outs hs)) \<and> e_set e' = e_set e"
  using res h ret
proof (induction ws arbitrary: ctx e e' hs)
  case (Cons w ws)
  let ?share = "entriesSpanningBucket resolved (bucketSpans resolved n) (bw_Bucket w)"
  have share: "?share = filter (spans_bucket n (bw_Bucket w)) resolved"
    by (rule entriesSpanningBucket_filter[OF uniq])
  obtain e1 out fid hs' where p: "harvestPartition f opts ?share w n e = (e1, Ret (out, fid))"
    and rest: "harvestGroup f opts (\<lambda>i. ctx (Suc i)) resolved (bucketSpans resolved n) ws n e1 = (e', hs')"
    and hs: "hs = (Ret (out, fid), length ?share) # hs'"
    using Cons.prems(2,3) by (auto simp: Let_def split: option.splits prod.splits)
  have "\<forall>c \<in> set ?share. payload_ok f c \<and> live c < length (e_store e)" using Cons.prems(1) by (simp add: share)
  note P = harvestPartition_spec[OF fmt this p]
  obtain l1 where l1: "e_store e1 = e_store e @ l1" using harvestPartition_frame(2)[OF p] by blast
  obtain l2 where l2: "e_store e' = e_store e1 @ l2" using harvestGroup_frame[OF rest] by blast
  have res1: "\<forall>c \<in> set resolved. payload_ok f c \<and> live c < length (e_store e1)" using Cons.prems(1) by (auto simp: l1)
  have same: "(\<lambda>x. \<exists>c \<in> set resolved. live_in (e_store e1) c x) = (\<lambda>x. \<exists>c \<in> set resolved. live_in (e_store e) c x)"
    using Cons.prems(1) by (auto simp: l1 live_in_append fun_eq_iff)
  have IH: "list_all2 (\<lambda>w h. \<exists>out fid m. h = (Ret (out, fid), m) \<and> fresh_of f w fid \<and>
      harvested f n (\<lambda>x. \<exists>c \<in> set resolved. live_in (e_store e) c x) (length (e_store e1)) (e_store e') w out) ws hs' \<and>
    distinct (map live (outs hs')) \<and> e_set e' = e_set e1"
    using Cons.IH[OF res1 rest] Cons.prems(3) by (simp add: hs same)
  have narrow: "(\<exists>c \<in> set ?share. live_in (e_store e) c x) \<longleftrightarrow> (\<exists>c \<in> set resolved. live_in (e_store e) c x)"
    if "BucketOf x n = bw_Bucket w" for x
    using that by (auto simp: share spans_bucket_def dest: live_in_held)
  have hw: "harvested f n (\<lambda>x. \<exists>c \<in> set resolved. live_in (e_store e) c x) (length (e_store e)) (e_store e1) w out"
    using P(1) narrow unfolding harvested_def by (simp split: option.splits) blast+
  have tl: "length (e_store e1) \<le> live en" if mem: "en \<in> set (outs hs')" for en
  proof -
    obtain fid' m where "(Ret (Some en, fid'), m) \<in> set hs'"
      using mem unfolding in_outs by blast
    then show ?thesis using IH by (auto simp: list_all2_conv_all_nth in_set_conv_nth harvested_def)
  qed
  have hd: "live en < length (e_store e1)" if "out = Some en" for en
    using hw that by (simp add: harvested_def entry_live_ok_def)
  have "list_all2 (\<lambda>w h. \<exists>out fid m. h = (Ret (out, fid), m) \<and> fresh_of f w fid \<and>
      harvested f n (\<lambda>x. \<exists>c \<in> set resolved. live_in (e_store e) c x) (length (e_store e)) (e_store e') w out) ws hs'"
    using conjunct1[OF IH]
  proof (rule list_all2_mono)
    fix w h
    assume "\<exists>out fid m. h = (Ret (out, fid), m) \<and> fresh_of f w fid \<and>
      harvested f n (\<lambda>x. \<exists>c \<in> set resolved. live_in (e_store e) c x) (length (e_store e1)) (e_store e') w out"
    then show "\<exists>out fid m. h = (Ret (out, fid), m) \<and> fresh_of f w fid \<and>
      harvested f n (\<lambda>x. \<exists>c \<in> set resolved. live_in (e_store e) c x) (length (e_store e)) (e_store e') w out"
      using harvested_append[of f n _ "length (e_store e1)" "e_store e'" w _ "length (e_store e)" "[]"] l1 by fastforce
  qed
  moreover have "distinct (map live (outs hs))"
    using IH tl hd by (cases out) (force simp: hs map_filter_simps)+
  ultimately show ?case using IH P(2,3) harvested_append[OF hw, of "length (e_store e)" l2] by (auto simp: hs l2)
qed (simp add: map_filter_simps)

section \<open>The swap\<close>

lemma kill_group_ok:
  "engine_ok f e \<Longrightarrow> engine_ok f (e\<lparr>e_store := kill_group (e_set e) work (e_store e)\<rparr>)"
proof (induction work arbitrary: e)
  case (Cons w work)
  let ?e = "e\<lparr>e_store := killSuperseded (e_set e) (bw_Superseded w) (e_store e)\<rparr>"
  have "engine_ok f ?e" using Cons.prems by (auto simp: engine_ok_def killSuperseded_spec)
  then show ?case using Cons.IH[of ?e] by (simp add: kill_group_def)
qed (simp add: kill_group_def)

lemma fire_group_frame:
  assumes "fire_group f opts ens R e = (e', r)"
  shows "e_set e' = e_set e" "e_store e' = e_store e"
  using assms
  by (induction ens arbitrary: R e) (auto dest: fireMergeHook_frame split: prod.splits outcome.splits)

text \<open>
  The resident segments' ids are content addresses: a segment that encodes to bytes with a
  resident id indexes what the resident segment indexes.
\<close>

definition hash_faithful :: "('q, 's, 'p, 'sc) SegmentFormat \<Rightarrow> ('s, 'p) SegmentedIndex \<Rightarrow> bool" where
  "hash_faithful f e \<longleftrightarrow> (\<forall>en \<in> set (entries (e_set e)). \<forall>seg blob ids.
     s_Encode f seg = Ret blob \<longrightarrow> contentHash blob = seg_ID en \<longrightarrow> s_IDs f seg = Ret ids \<longrightarrow> gm_keys (members en) = set ids)"

lemma ReplaceBucketGroup_build_Ret:
  assumes "ReplaceBucketGroup_build f opts ctx n cs work e = (e', st, Ret plan)"
  obtains hs added pub fresh where
    "harvestGroup f opts (\<lambda>i. ctx (Suc i)) (resolve_ids (e_set e) cs) (bucketSpans (resolve_ids (e_set e) cs) n) work n
       (e\<lparr>e_store := kill_group (e_set e) work (e_store e)\<rparr>) = (e', hs)"
    "crash_of hs = None" "fold_harvests work hs = Inr (added, pub, fresh)"
    "gp_added plan = map (stampSupersession (gp_survivors plan) (map seg_ID added)) added" "gp_published plan = pub"
    "gp_remove plan = map seg_ID (resolve_ids (e_set e) cs) @ fresh"
    "gp_survivors plan = excluding (map seg_ID (resolve_ids (e_set e) cs)) (map seg_ID added)"
  using assms
  by (auto simp: ReplaceBucketGroup_build_def Let_def stampGroupSupersession_def
      split: option.splits prod.splits sum.splits outcome.splits intro!: that)
    (auto elim: failed.elims)

lemma kill_group_live:
  assumes "engine_ok f e" "en \<in> set (entries (e_set e))"
  shows "live_in (kill_group (e_set e) work (e_store e)) en x \<longleftrightarrow> live_in (e_store e) en x \<and>
    \<not> (x \<in> (\<Union>w \<in> set work. set (bw_Superseded w)) \<and> newest (held x) (entries (e_set e)) = Some en)"
  using assms
proof (induction work arbitrary: e)
  case (Cons w work)
  let ?e = "e\<lparr>e_store := killSuperseded (e_set e) (bw_Superseded w) (e_store e)\<rparr>"
  have "engine_ok f ?e" using Cons.prems(1) by (auto simp: engine_ok_def killSuperseded_spec)
  then show ?case
    using Cons.IH[of ?e] Cons.prems killSuperseded_live[OF Cons.prems, of "bw_Superseded w" x] by (auto simp: kill_group_def)
qed (simp add: kill_group_def)

lemma resolved_facts:
  assumes "engine_ok f e" "\<forall>en \<in> set (entries (e_set e)). payload_ok f en"
  shows "\<forall>c \<in> set (resolve_ids (e_set e) cs). payload_ok f c \<and> live c < length (e_store e)"
    "\<forall>a \<in> set (resolve_ids (e_set e) cs). \<forall>b \<in> set (resolve_ids (e_set e) cs). seg_ID a = seg_ID b \<longrightarrow> a = b"
  using resolve_ids_set[OF engine_okD(3)[OF assms(1)], of cs] assms entry_addr[OF assms(1)] engine_okD(3)[OF assms(1)]
  by (auto simp: distinct_map dest: inj_onD)

text \<open>From the harvests to the searchable documents.\<close>

lemma group_searchable:
  assumes ok: "engine_ok f e" "hash_faithful f e" and res: "set resolved \<subseteq> set (entries (e_set e))"
    and L: "list_all2 (\<lambda>w h. \<exists>out fid m. h = (Ret (out, fid), m) \<and> fresh_of f w fid \<and>
      harvested f n (\<lambda>x. \<exists>c \<in> set resolved. live_in (e_store e) c x) (length (e_store e)) store w out) work hs"
    and closed: "\<forall>c \<in> set resolved. \<forall>x. held x c \<longrightarrow> BucketOf x n \<in> bw_Bucket ` set work"
    and placed: "\<forall>w \<in> set work. \<forall>d \<in> set (bw_Docs w). BucketOf (doc_ID d) n = bw_Bucket w"
  defines "docs \<equiv> \<Union>w \<in> set work. doc_ID ` set (bw_Docs w)"
  shows "(\<exists>en \<in> set (outs hs). live_in store en x) \<longleftrightarrow> (\<exists>c \<in> set resolved. live_in (e_store e) c x) \<or> x \<in> docs"
    "en \<in> set (entries (e_set e)) \<Longrightarrow> seg_ID en \<in> set (fresh_ids hs) \<Longrightarrow> held x en \<Longrightarrow> x \<in> docs"
proof -
  let ?old = "\<lambda>x. \<exists>c \<in> set resolved. live_in (e_store e) c x"
  have len: "length work = length hs" using L by (rule list_all2_lengthD)
  have at: "\<exists>out fid m. hs ! i = (Ret (out, fid), m) \<and> fresh_of f (work ! i) fid \<and>
      harvested f n ?old (length (e_store e)) store (work ! i) out" if "i < length work" for i
    using L that by (rule list_all2_nthD)
  show "(\<exists>en \<in> set (outs hs). live_in store en x) \<longleftrightarrow> ?old x \<or> x \<in> docs"
  proof
    assume "\<exists>en \<in> set (outs hs). live_in store en x"
    then obtain en fid m where en: "(Ret (Some en, fid), m) \<in> set hs" "live_in store en x" unfolding Bex_def in_outs by blast
    then obtain i where i: "i < length work" "hs ! i = (Ret (Some en, fid), m)" unfolding in_set_conv_nth len by blast
    have "harvested f n ?old (length (e_store e)) store (work ! i) (Some en)" using at[OF i(1)] i(2) by auto
    then have "?old x \<or> x \<in> doc_ID ` set (bw_Docs (work ! i))" using en(2) by (auto simp: harvested_def)
    then show "?old x \<or> x \<in> docs" using nth_mem[OF i(1)] by (auto simp: docs_def)
  next
    assume x: "?old x \<or> x \<in> docs"
    have "\<exists>w \<in> set work. BucketOf x n = bw_Bucket w \<and> (?old x \<or> x \<in> doc_ID ` set (bw_Docs w))"
      using x
    proof
      assume o: "?old x"
      then obtain c where "c \<in> set resolved" "held x c" using live_in_held by blast
      then have "BucketOf x n \<in> bw_Bucket ` set work" using closed by blast
      then show ?thesis using o by auto
    next
      assume "x \<in> docs" then show ?thesis using placed by (auto simp: docs_def)
    qed
    then obtain i where i: "i < length work" "BucketOf x n = bw_Bucket (work ! i)" "?old x \<or> x \<in> doc_ID ` set (bw_Docs (work ! i))"
      by (metis in_set_conv_nth)
    obtain out fid m where h: "hs ! i = (Ret (out, fid), m)" "harvested f n ?old (length (e_store e)) store (work ! i) out"
      using at[OF i(1)] by blast
    obtain en where en: "out = Some en" using h(2) i(2,3) by (cases out) (auto simp: harvested_def)
    have "en \<in> set (outs hs)" unfolding in_outs using h(1) en nth_mem[of i hs] i(1) len by auto
    moreover have "live_in store en x" using h(2) en i(2,3) by (auto simp: harvested_def)
    ultimately show "\<exists>en \<in> set (outs hs). live_in store en x" by blast
  qed
  assume en: "en \<in> set (entries (e_set e))" "seg_ID en \<in> set (fresh_ids hs)" "held x en"
  obtain out m where "(Ret (out, seg_ID en), m) \<in> set hs" "seg_ID en \<noteq> []" using en(2) unfolding in_fresh_ids by blast
  then obtain i where i: "i < length work" "hs ! i = (Ret (out, seg_ID en), m)" unfolding in_set_conv_nth len by blast
  have "fresh_of f (work ! i) (seg_ID en)" using at[OF i(1)] i(2) by auto
  then obtain seg blob ids where "s_Encode f seg = Ret blob" "s_IDs f seg = Ret ids" "set ids = doc_ID ` set (bw_Docs (work ! i))"
    "contentHash blob = seg_ID en" using \<open>seg_ID en \<noteq> []\<close> by (auto simp: fresh_of_def)
  then have "gm_keys (members en) = doc_ID ` set (bw_Docs (work ! i))"
    using ok(2) en(1) unfolding hash_faithful_def by metis
  then show "x \<in> docs" using en(3) nth_mem[OF i(1)] by (auto simp: held_iff docs_def)
qed

lemma ReplaceBucketGroup_publish_sel:
  assumes "ReplaceBucketGroup_publish f opts plan e = (e', Ret pub)"
  shows "entries (e_set e') =
      (if gp_added plan = [] then entries (e_set e) else kept (gp_remove plan) (entries (e_set e)) @ gp_added plan)"
    "e_store e' = e_store e" "pub = gp_published plan"
proof -
  let ?e = "e\<lparr>e_set := withReplacedGroup f (e_set e) (gp_remove plan) (gp_added plan)\<rparr>"
  obtain e1 r where fg: "fire_group f opts (gp_added plan) (gp_survivors plan) ?e = (e1, r)" by fastforce
  note F = fire_group_frame[OF fg]
  have "if gp_added plan = [] then e' = e \<and> pub = gp_published plan
    else e' = e1 \<and> bind_out r (\<lambda>_. Ret (gp_published plan)) = Ret pub"
    using assms fg by (simp add: ReplaceBucketGroup_publish_def split: if_splits)
  then show "entries (e_set e') =
      (if gp_added plan = [] then entries (e_set e) else kept (gp_remove plan) (entries (e_set e)) @ gp_added plan)"
    "e_store e' = e_store e" "pub = gp_published plan"
    using F by (auto simp: withReplacedGroup_def bind_out_Ret_iff split: if_splits)
qed

text \<open>An exchange: what left is carried by what arrived.\<close>

lemma exchange:
  assumes "S \<longleftrightarrow> (\<exists>en \<in> E. \<not> Q en \<and> P en) \<or> A" "A \<longleftrightarrow> (\<exists>c \<in> C. P c) \<or> D"
    "\<And>en. en \<in> E \<Longrightarrow> Q en \<longleftrightarrow> en \<in> C \<or> F en" "C \<subseteq> E" "\<And>en. en \<in> E \<Longrightarrow> F en \<Longrightarrow> P en \<Longrightarrow> D"
  shows "S \<longleftrightarrow> (\<exists>en \<in> E. P en) \<or> D"
  using assms by blast

lemma exchange_within:
  assumes "S \<longleftrightarrow> (\<exists>en \<in> E. \<not> Q en \<and> P en) \<or> A" "A \<longleftrightarrow> B \<and> (\<exists>c \<in> C. P c) \<or> D"
    "\<And>en. en \<in> E \<Longrightarrow> Q en \<longleftrightarrow> T en \<or> F en" "C = {en \<in> E. T en}" "\<And>en. en \<in> E \<Longrightarrow> F en \<Longrightarrow> P en \<Longrightarrow> D"
  shows "S \<longleftrightarrow> (\<exists>en \<in> E. P en \<and> (T en \<longrightarrow> B)) \<or> D"
  using assms by blast

lemma stamped_live:
  "(\<exists>en \<in> set (map (stampSupersession R C) ens). live_in store en x) \<longleftrightarrow> (\<exists>en \<in> set ens. live_in store en x)"
  by auto

section \<open>Properties\<close>


text \<open>
  C29: a group that fails publishes nothing. Whatever stops it (the context, a build, a merge, a
  refused output, a corruption), when a group call returns an error no output is published and no
  reclaim is announced: the published set is the one before, less the segments whose
  corruption was reported, and the engine stays well-formed.
\<close>

theorem ReplaceBucketGroup_all_or_nothing:
  assumes "engine_ok f e" "ReplaceBucketGroup f opts ctx n cs work e = (e', st, Fail err)"
  shows "engine_ok f e' \<and> e_merges e' = e_merges e \<and>
    (\<exists>log W. e_corrupts e' = e_corrupts e @ log \<and> (o_OnCorruptSegment opts \<longrightarrow> W = fst ` set log - {[]}) \<and>
       entries (e_set e') = filter (\<lambda>en. seg_ID en \<notin> W) (entries (e_set e)))"
proof -
  let ?k = "e\<lparr>e_store := kill_group (e_set e) work (e_store e)\<rparr>"
  obtain r0 where b: "ReplaceBucketGroup_build f opts ctx n cs work e = (e', st, r0)" and nr: "\<And>p. r0 \<noteq> Ret p"
  proof -
    obtain e1 st1 r1 where b1: "ReplaceBucketGroup_build f opts ctx n cs work e = (e1, st1, r1)" by (metis prod_cases3)
    show ?thesis
    proof (cases r1)
      case (Ret plan)
      have "snd (fire_group f opts ens R x) \<noteq> Fail err'" for ens R x err'
        by (induction ens arbitrary: R x) (auto simp: fireMergeHook_def split: prod.splits outcome.splits if_splits)
      then have "snd (ReplaceBucketGroup_publish f opts plan e1) \<noteq> Fail err"
        by (auto simp: ReplaceBucketGroup_publish_def Let_def bind_out_def split: prod.splits outcome.splits) (metis snd_conv)
      then show ?thesis using assms(2) b1 Ret by (auto simp: ReplaceBucketGroup_def split: prod.splits)
    qed (use assms(2) b1 that in \<open>auto simp: ReplaceBucketGroup_def\<close>)
  qed
  have k: "only_withdraws opts e ?k" "engine_ok f ?k" by (simp_all add: only_withdraws_same kill_group_ok assms(1))
  obtain e1 hs where h: "harvestGroup f opts (\<lambda>i. ctx (Suc i)) (resolve_ids (e_set e) cs)
      (bucketSpans (resolve_ids (e_set e) cs) n) work n ?k = (e1, hs)" by fastforce
  have 1: "only_withdraws opts e e1" "engine_ok f e1"
    using harvestGroup_frame[OF h] k only_withdraws_trans[OF k(1)] by auto
  have "e' = e \<or> e' = e1 \<or> (\<exists>er. e' = fst (reportCorruptFrom f opts er e1))"
    using b h nr by (auto simp: ReplaceBucketGroup_build_def Let_def split: option.splits prod.splits sum.splits)
  then have "only_withdraws opts e e' \<and> engine_ok f e'"
    using 1 assms(1) reportCorruptFrom_withdraws[of opts e1 f] reportCorruptFrom_ok[OF 1(2), of opts]
      only_withdraws_trans[OF 1(1)] only_withdraws_same[of e e opts] by auto
  then show ?thesis by (auto simp: only_withdraws_def)
qed

text \<open>
  narrowing a partition to the constituents that span it writes the same bytes. For a format whose
  merge does not depend on an input none of whose members is accepted, merging the spanning share
  of the constituents under the partition's predicate is merging all of them, whatever else
  is merged with them and in whatever liveness.
\<close>

lemma spanning_share_merges_the_same:
  assumes "merge_ignores_rejected f" "\<forall>c \<in> set resolved. payload_ok f c"
    and "\<forall>a \<in> set resolved. \<forall>b \<in> set resolved. seg_ID a = seg_ID b \<longrightarrow> a = b"
  shows "let share = entriesSpanningBucket resolved (bucketSpans resolved n) bucket;
             acc = (\<lambda>en. acceptLiveMembers store en bucket n)
         in f_MergeTo f (map payload (share @ rest)) (map acc (share @ rest)) =
            f_MergeTo f (map payload (resolved @ rest)) (map acc (resolved @ rest))"
proof -
  let ?acc = "\<lambda>en. acceptLiveMembers store en bucket n" and ?S = "spans_bucket n bucket"
  let ?pr = "\<lambda>en. (payload en, ?acc en)"
  have drop: "filter (contributes f) (map ?pr (filter ?S resolved)) = filter (contributes f) (map ?pr resolved)"
    using assms(2)
  proof (induction resolved)
    case (Cons c cs)
    have "\<not> contributes f (?pr c)" if ns: "\<not> ?S c"
    proof -
      obtain ids where "s_IDs f (payload c) = Ret ids" "gm_keys (members c) = set ids"
        using Cons.prems by (auto simp: payload_ok_def)
      then show ?thesis using ns live_in_held[of store c] by (auto simp: contributes_def spans_bucket_def held_iff)
    qed
    then show ?case using Cons by (auto simp del: acceptLiveMembers_iff)
  qed simp
  have "f_MergeTo f (map fst ps) (map snd ps) = f_MergeTo f (map fst qs) (map snd qs)"
    if "filter (contributes f) ps = filter (contributes f) qs" for ps qs
    using assms(1) that unfolding merge_ignores_rejected_def by metis
  from this[of "map ?pr (filter ?S resolved @ rest)" "map ?pr (resolved @ rest)"] drop
  show ?thesis by (simp add: entriesSpanningBucket_filter[OF assms(3)] Let_def o_def del: acceptLiveMembers_iff)
qed

section \<open>Witnesses\<close>

text \<open>One segment, one bucket, one superseded document.\<close>

abbreviation wit_work :: "BucketWork list" where
  "wit_work \<equiv> [\<lparr>bw_Bucket = 0, bw_Superseded = [''x''], bw_Docs = []\<rparr>]"

abbreviation wit_engine :: "(nat, ExternalID list) SegmentedIndex" where
  "wit_engine \<equiv> ids_engine [(''A'', [''x'', ''y''])]"

lemma ids_hash_faithful:
  assumes "\<forall>en \<in> set (entries (e_set e)). length (seg_ID en) \<noteq> 64"
  shows "hash_faithful ids_format e"
proof -
  have "contentHash b \<noteq> seg_ID en" if "en \<in> set (entries (e_set e))" for b en
    using assms that by (metis length_contentHash)
  then show ?thesis by (auto simp: hash_faithful_def)
qed

lemma fireMergeHook_ids [simp]: "snd (fireMergeHook ids_format opts en R e) = Ret ()"
  by (auto simp: fireMergeHook_def blobParts_def ids_format_def)

lemma fire_group_ids [simp]: "snd (fire_group ids_format opts ens R e) = Ret ()"
proof (induction ens arbitrary: R e)
  case (Cons en ens)
  obtain e1 r where h: "fireMergeHook ids_format opts en R e = (e1, r)" by fastforce
  then have "r = Ret ()" using fireMergeHook_ids[of opts en R e] by simp
  then show ?case using h Cons by simp
qed simp

lemma wit_harvest:
  assumes "e = wit_engine\<lparr>e_store := kill_group (e_set wit_engine) wit_work (e_store wit_engine)\<rparr>"
  shows "harvestPartition ids_format merge_opts [ids_entry ''A'' 0 [''x'', ''y'']] (hd wit_work) 1 e =
    (e\<lparr>e_store := e_store e @ [newLiveDocs 1]\<rparr>, Ret (Some (ids_merged 1 [''y'']), []))"
proof -
  have eA: "entryOf (e_set wit_engine) ''x'' = Some (ids_entry ''A'' 0 [''x'', ''y''])" by code_simp
  have st: "e_store e = kill_at [newLiveDocs 2] 0 0"
    by (simp add: assms kill_group_def eA) (simp add: ids_engine_def ids_entry_def numeral_2_eq_2)
  let ?acc = "\<lambda>en. acceptLiveMembers (e_store e) en 0 1"
  have m: "remdups (concat (map2 (\<lambda>s a. filter a s) [payload (ids_entry ''A'' 0 [''x'', ''y''])] [?acc (ids_entry ''A'' 0 [''x'', ''y''])])) = [''y'']"
    by (simp add: st ids_entry_def residentMemberIn_def kill_at_def Live_Kill Live_new numeral_2_eq_2)
  have d: "ids_decode (ids_encode [''y'']) = Ret [''y'']" by code_simp
  have len: "length (e_store e) = 1" by (simp add: st kill_at_def)
  have "merge_bucket ids_format merge_opts [ids_entry ''A'' 0 [''x'', ''y'']] None 0 1 e =
    (e\<lparr>e_store := e_store e @ [newLiveDocs 1]\<rparr>, Ret (ids_merged 1 [''y'']))"
    using mergeEntry_ids[OF m d] by (simp add: merge_bucket_def len del: acceptLiveMembers_iff)
  then show ?thesis by (simp add: harvestPartition_def fresh_entry_def) (simp add: ids_merged_def)
qed

lemma wit_group:
  "\<exists>e' st pub. ReplaceBucketGroup ids_format merge_opts (\<lambda>_. None) 1 [''A''] wit_work wit_engine = (e', st, Ret pub)"
proof -
  let ?e = "wit_engine\<lparr>e_store := kill_group (e_set wit_engine) wit_work (e_store wit_engine)\<rparr>"
  have res: "resolve_ids (e_set wit_engine) [''A''] = [ids_entry ''A'' 0 [''x'', ''y'']]" by code_simp
  have span: "entriesSpanningBucket [ids_entry ''A'' 0 [''x'', ''y'']] (bucketSpans [ids_entry ''A'' 0 [''x'', ''y'']] 1) 0
      = [ids_entry ''A'' 0 [''x'', ''y'']]"
    by (subst entriesSpanningBucket_filter) (auto simp: spans_bucket_def)
  have h: "harvestGroup ids_format merge_opts (\<lambda>_. None) [ids_entry ''A'' 0 [''x'', ''y'']]
      (bucketSpans [ids_entry ''A'' 0 [''x'', ''y'']] 1) wit_work 1 ?e =
      (?e\<lparr>e_store := e_store ?e @ [newLiveDocs 1]\<rparr>, [(Ret (Some (ids_merged 1 [''y'']), []), 1)])"
    using wit_harvest[of ?e] by (simp add: span)
  obtain e1 st plan where "ReplaceBucketGroup_build ids_format merge_opts (\<lambda>_. None) 1 [''A''] wit_work wit_engine = (e1, st, Ret plan)"
    by (simp add: ReplaceBucketGroup_build_def res h Let_def stampGroupSupersession_def del: harvestGroup.simps)
  moreover have "\<exists>pub. snd (ReplaceBucketGroup_publish ids_format merge_opts plan e1) = Ret pub"
    by (simp add: ReplaceBucketGroup_publish_def Let_def split_beta)
  ultimately show ?thesis by (simp add: ReplaceBucketGroup_def split_beta)
qed


lemma ReplaceBucketGroup_all_or_nothing_witness:
  "let e' = fst (ReplaceBucketGroup ids_format merge_opts (\<lambda>_. Some CtxDone) 1 [''A''] wit_work wit_engine)
   in engine_ok ids_format e' \<and> e_merges e' = e_merges wit_engine"
proof -
  have ok: "engine_ok ids_format wit_engine" by (rule ids_engine_ok) auto
  have r: "ReplaceBucketGroup ids_format merge_opts (\<lambda>_. Some CtxDone) 1 [''A''] wit_work wit_engine =
      (wit_engine, group_stats 0 ([] :: ExternalID list harvest list), Fail CtxDone)"
    by (simp add: ReplaceBucketGroup_def ReplaceBucketGroup_build_def)
  show ?thesis using ReplaceBucketGroup_all_or_nothing[OF ok r] by (simp add: r)
qed

lemma ids_merge_ignores: "merge_ignores_rejected ids_format"
proof -
  have c: "contributes ids_format p \<longleftrightarrow> filter (snd p) (fst p) \<noteq> []" for p
    by (auto simp: contributes_def ids_format_def filter_empty_conv)
  have "concat (map2 (\<lambda>s a. filter a s) (map fst ps) (map snd ps)) =
      concat (map2 (\<lambda>s a. filter a s) (map fst (filter (contributes ids_format) ps)) (map snd (filter (contributes ids_format) ps)))" for ps
    by (induction ps) (auto simp: c)
  then show ?thesis by (simp add: merge_ignores_rejected_def ids_format_def[THEN arg_cong[where f = f_MergeTo]])
qed

lemma spanning_share_merges_the_same_witness:
  "let resolved = [ids_entry ''A'' 0 [''x''], ids_entry ''B'' 1 []];
       share = entriesSpanningBucket resolved (bucketSpans resolved 1) 0;
       acc = (\<lambda>en. acceptLiveMembers [newLiveDocs 1, newLiveDocs 0] en 0 1)
   in f_MergeTo ids_format (map payload share) (map acc share) = f_MergeTo ids_format (map payload resolved) (map acc resolved)"
proof -
  let ?res = "[ids_entry ''A'' 0 [''x''], ids_entry ''B'' 1 []]"
  have "\<forall>c \<in> set ?res. payload_ok ids_format c" "\<forall>a \<in> set ?res. \<forall>b \<in> set ?res. seg_ID a = seg_ID b \<longrightarrow> a = b" by simp_all
  from spanning_share_merges_the_same[OF ids_merge_ignores this, of 1 0 "[newLiveDocs 1, newLiveDocs 0]" "[]"]
  show ?thesis by (simp only: append_Nil2 Let_def)
qed

section \<open>One bucket\<close>

lemma ReplaceBucket_build_Some:
  assumes "ReplaceBucket_build f opts b n cs sup0 docs e = (e', Ret (Some plan))"
  obtains e1 fresh en where
    "fresh_entry f opts docs (e\<lparr>e_store := killSuperseded (e_set e) sup0 (e_store e)\<rparr>) = (e1, Ret fresh)"
    "merge_bucket f opts (resolve_ids (e_set e) cs) fresh b n e1 = (e', Ret en)"
    "bp_reclaim plan = excluding (map seg_ID (resolve_ids (e_set e) cs)) [seg_ID en]"
    "bp_entry plan = stampSupersession (bp_reclaim plan) [seg_ID en] en"
    "bp_remove plan = map seg_ID (resolve_ids (e_set e) cs) @ map seg_ID (pub_list fresh)"
proof -
  let ?k = "e\<lparr>e_store := killSuperseded (e_set e) sup0 (e_store e)\<rparr>" let ?res = "resolve_ids (e_set e) cs"
  obtain e1 r1 where fe: "fresh_entry f opts docs ?k = (e1, r1)" by fastforce
  obtain fresh where r1: "r1 = Ret fresh" using assms fe by (cases r1) (auto simp: ReplaceBucket_build_def)
  have ne: "\<not> (?res = [] \<and> pub_list fresh = [])" using assms fe r1 by (auto simp: ReplaceBucket_build_def)
  obtain e2 r2 where mb: "merge_bucket f opts ?res fresh b n e1 = (e2, r2)" by fastforce
  have m: "(case (e2, r2) of (e, Ret entry) \<Rightarrow>
        (let reclaimable = excluding (map seg_ID ?res) [seg_ID entry]
         in (e, Ret (Some \<lparr>bp_entry = stampSupersession reclaimable [seg_ID entry] entry,
                bp_remove = map seg_ID ?res @ map seg_ID (pub_list fresh), bp_reclaim = reclaimable\<rparr>)))
      | (e, Fail err) \<Rightarrow> (fst (reportCorruptFrom f opts err e), Fail err) | (e, r) \<Rightarrow> (e, failed r)) = (e', Ret (Some plan))"
    using assms fe r1 ne mb by (cases r2) (simp_all add: ReplaceBucket_build_def Let_def if_not_P)
  then obtain en where "r2 = Ret en" by (cases r2) auto
  then show ?thesis using that[OF fe[unfolded r1] mb[unfolded \<open>r2 = Ret en\<close>, THEN trans]] m by (auto simp: Let_def)
qed

lemma ReplaceBucket_publish_sel:
  assumes "ReplaceBucket_publish f opts plan e = (e', Ret sid)"
  shows "e_set e' = withReplaced f (e_set e) (bp_remove plan) (Some (bp_entry plan))" "e_store e' = e_store e"
    "sid = seg_ID (bp_entry plan)"
proof -
  let ?e = "e\<lparr>e_set := withReplaced f (e_set e) (bp_remove plan) (Some (bp_entry plan))\<rparr>"
  obtain e1 r where h: "fireMergeHook f opts (bp_entry plan) (bp_reclaim plan) ?e = (e1, r)" by fastforce
  have "e' = e1" "sid = seg_ID (bp_entry plan)"
    using assms h by (auto simp: ReplaceBucket_publish_def bind_out_Ret_iff)
  then show "e_set e' = withReplaced f (e_set e) (bp_remove plan) (Some (bp_entry plan))" "e_store e' = e_store e"
    "sid = seg_ID (bp_entry plan)" using fireMergeHook_frame(1,2)[OF h] by simp_all
qed

text \<open>
  re-emitting one bucket. When the incoming documents belong to the bucket and the resident ids
  are content addresses, a swap that publishes leaves searchable the documents live outside the
  constituents, the constituents' live documents of that bucket, and the incoming documents,
  all after the superseded copies are cleared. The constituents' documents of other
  buckets are not among them: offering a segment that spans further buckets loses those unless
  they are rebuilt too. What the owner is told to reclaim is the constituents without the id
  that was published.
\<close>

lemma ReplaceBucket_swaps:
  assumes ok: "engine_ok f e" "hash_faithful f e" and pay: "\<forall>en \<in> set (entries (e_set e)). payload_ok f en"
    and fmt: "build_exact f" "merge_exact f" "map_faithful opts"
    and placed: "\<forall>d \<in> set docs. BucketOf (doc_ID d) n = b"
    and bld: "ReplaceBucket_build f opts b n cs gone docs e = (e1, Ret (Some plan))"
    and pbl: "ReplaceBucket_publish f opts plan e1 = (e', Ret sid)"
  defines "live0 \<equiv> \<lambda>en x. live_in (e_store e) en x \<and> \<not> (x \<in> set gone \<and> newest (held x) (entries (e_set e)) = Some en)"
  shows "(\<forall>x. searchable e' x \<longleftrightarrow>
      (\<exists>en \<in> set (entries (e_set e)). live0 en x \<and> (seg_ID en \<in> set cs \<longrightarrow> BucketOf x n = b)) \<or> x \<in> doc_ID ` set docs) \<and>
    sid \<in> seg_ID ` set (entries (e_set e')) \<and> sid \<notin> set (bp_reclaim plan)"
proof -
  let ?res = "resolve_ids (e_set e) cs" let ?k = "e\<lparr>e_store := killSuperseded (e_set e) gone (e_store e)\<rparr>"
  let ?R = "bp_remove plan" and ?en = "bp_entry plan"
  obtain e0 fresh en where fe: "fresh_entry f opts docs ?k = (e0, Ret fresh)" and mb: "merge_bucket f opts ?res fresh b n e0 = (e1, Ret en)"
    and plan: "bp_reclaim plan = excluding (map seg_ID ?res) [seg_ID en]" "?en = stampSupersession (bp_reclaim plan) [seg_ID en] en"
      "?R = map seg_ID ?res @ map seg_ID (pub_list fresh)"
    using bld by (rule ReplaceBucket_build_Some)
  have okk: "engine_ok f ?k" using ok(1) by (auto simp: engine_ok_def killSuperseded_spec)
  have payk: "\<forall>en \<in> set (entries (e_set ?k)). payload_ok f en" using pay by simp
  have sk: "e_set ?k = e_set e" by simp
  note R = resolved_facts[OF okk payk, of cs, unfolded sk]
  note M = merge_bucket_spec[OF fmt R(1) fe mb]
  obtain lds where lds: "e_store e1 = e_store ?k @ lds" using M(8) by blast
  have res: "set ?res = {en \<in> set (entries (e_set e)). seg_ID en \<in> set cs}" by (rule resolve_ids_set[OF engine_okD(3)[OF ok(1)]])
  have e': "e_set e' = withReplaced f (e_set ?k) ?R (Some ?en)" "e_store e' = e_store e1" "sid = seg_ID ?en"
    using ReplaceBucket_publish_sel[OF pbl] M(7) by simp_all
  have ents: "entries (e_set e') = kept ?R (entries (e_set ?k)) @ [?en]" by (simp only: e'(1) withReplaced_entries[OF okk]) simp
  have all: "live_in (e_store e') ?en x \<longleftrightarrow> held x en" for x using M(2)[of x] by (simp add: e'(2) plan(2))
  have S: "searchable e' x \<longleftrightarrow> (\<exists>en \<in> set (entries (e_set ?k)). seg_ID en \<notin> set ?R \<and> live_in (e_store ?k) en x) \<or> held x en" for x
    by (rule searchable_replaced[OF okk ents _ all]) (simp add: e'(2) lds)
  have live0: "live_in (e_store ?k) en0 x = live0 en0 x" if "en0 \<in> set (entries (e_set e))" for en0 x
    using killSuperseded_live[OF ok(1) that, of gone x] by (simp add: live0_def)
  have fr: "x \<in> doc_ID ` set docs"
    if a: "en0 \<in> set (entries (e_set e))" "seg_ID en0 \<in> seg_ID ` set (pub_list fresh)" "held x en0" for en0 x
  proof (cases fresh)
    case (Some fen)
    note F = fresh_entry_Ret[OF fmt(1) fe]
    obtain blob ids where "s_Encode f (payload fen) = Ret blob" "contentHash blob = seg_ID en0" "s_IDs f (payload fen) = Ret ids"
      "gm_keys (members fen) = set ids"
      using F(4,6)[OF Some] a(2) Some by (auto simp: payload_ok_def)
    then have "gm_keys (members en0) = gm_keys (members fen)" using ok(2) a(1) unfolding hash_faithful_def by metis
    then show ?thesis using F(2)[OF Some, of x] a(3) by (simp add: held_iff)
  qed (use a in simp)
  have rem: "seg_ID en0 \<in> set ?R \<longleftrightarrow> seg_ID en0 \<in> set cs \<or> seg_ID en0 \<in> seg_ID ` set (pub_list fresh)"
    if "en0 \<in> set (entries (e_set e))" for en0
    using that res chosen_ids[OF ok(1), of ?res en0] by (auto simp: plan(3))
  have "searchable e' x \<longleftrightarrow> (\<exists>en \<in> set (entries (e_set e)). live0 en x \<and> (seg_ID en \<in> set cs \<longrightarrow> BucketOf x n = b)) \<or> x \<in> doc_ID ` set docs" for x
  proof -
    have h: "held x en \<longleftrightarrow> BucketOf x n = b \<and> (\<exists>c \<in> set ?res. live0 c x) \<or> x \<in> doc_ID ` set docs"
      using M(1)[of x] placed live0 res by auto
    have s: "searchable e' x \<longleftrightarrow> (\<exists>en \<in> set (entries (e_set e)). seg_ID en \<notin> set ?R \<and> live0 en x) \<or> held x en"
      using S[of x] live0 by auto
    have o: "x \<in> doc_ID ` set docs" if "en0 \<in> set (entries (e_set e))" "seg_ID en0 \<in> seg_ID ` set (pub_list fresh)" "live0 en0 x" for en0
      using fr[OF that(1,2)] that(3) live_in_held[of _ en0 x] by (auto simp: live0_def)
    show ?thesis using s h rem res o by (rule exchange_within)
  qed
  moreover have "sid \<in> seg_ID ` set (entries (e_set e'))" by (simp add: ents e'(3))
  moreover have "sid \<notin> set (bp_reclaim plan)" by (simp add: e'(3) plan(1,2) excluding_def)
  ultimately show ?thesis by blast
qed

lemma ReplaceBucket_swaps_witness:
  "\<exists>e1 plan e' sid. ReplaceBucket_build ids_format merge_opts 0 1 [''A''] [''x''] [] wit_engine = (e1, Ret (Some plan)) \<and>
     ReplaceBucket_publish ids_format merge_opts plan e1 = (e', Ret sid) \<and> searchable e' ''y'' \<and> \<not> searchable e' ''x'' \<and>
     sid \<notin> set (bp_reclaim plan)"
proof -
  let ?e = "wit_engine\<lparr>e_store := kill_group (e_set wit_engine) wit_work (e_store wit_engine)\<rparr>"
  have kg: "kill_group (e_set wit_engine) wit_work (e_store wit_engine) = killSuperseded (e_set wit_engine) [''x''] (e_store wit_engine)"
    by (simp add: kill_group_def)
  have res: "resolve_ids (e_set wit_engine) [''A''] = [ids_entry ''A'' 0 [''x'', ''y'']]" by code_simp
  have "\<exists>e1. merge_bucket ids_format merge_opts [ids_entry ''A'' 0 [''x'', ''y'']] None 0 1 ?e = (e1, Ret (ids_merged 1 [''y'']))"
    using wit_harvest[of ?e, OF refl]
    by (auto simp: harvestPartition_def fresh_entry_def split: prod.splits outcome.splits if_splits)
  then obtain e1 plan where b: "ReplaceBucket_build ids_format merge_opts 0 1 [''A''] [''x''] [] wit_engine = (e1, Ret (Some plan))"
    by (auto simp: ReplaceBucket_build_def res fresh_entry_def Let_def kg simp del: killSuperseded.simps)
  have "\<exists>e' sid. ReplaceBucket_publish ids_format merge_opts plan e1 = (e', Ret sid)"
    by (simp add: ReplaceBucket_publish_def Let_def split_beta)
  then obtain e' sid where p: "ReplaceBucket_publish ids_format merge_opts plan e1 = (e', Ret sid)" by blast
  have ok: "engine_ok ids_format wit_engine" by (rule ids_engine_ok) auto
  have hf: "hash_faithful ids_format wit_engine" by (rule ids_hash_faithful) simp
  have live: "live_in (e_store wit_engine) (ids_entry ''A'' 0 [''x'', ''y'']) ''y''" by code_simp
  show ?thesis
    using ReplaceBucket_swaps[OF ok hf _ ids_build_exact ids_merge_exact map_faithful_merge_opts _ b p] live b p
    by (auto simp: newest_Cons)
qed

end
