(* ===== verification/Layer.thy ===== *)
theory Layer
  imports Swap
begin

text \<open>
  \<open>internal/searchengine/layer_swap.go\<close> and \<open>layer_release.go\<close>: a complete replacement layer, built
  from documents alone and published in place of everything that was resident when the
  build began.

  The persist hook is an argument: it answers an error, that the blob could not be mapped, or
  the stored copy's mapping. \<open>bl_engine\<close> stands for the engine pointer the handle carries.
\<close>

record 'p BuiltLayer =
  bl_engine :: nat
  bl_entries :: "'p segmentEntry list"
  bl_blobs :: "SegmentBlob list"
  bl_capturedOldIDs :: "SegmentID list"
  bl_unreleased :: "SegmentID list"
  bl_releaseErr :: "engine_error list"

definition Blobs :: "'p BuiltLayer \<Rightarrow> SegmentBlob list" where "Blobs b = bl_blobs b"
definition Len :: "'p BuiltLayer \<Rightarrow> nat" where "Len b = length (bl_entries b)"
definition Unreleased :: "'p BuiltLayer \<Rightarrow> SegmentID list \<times> engine_error list" where
  "Unreleased b = (bl_unreleased b, bl_releaseErr b)"

type_synonym LayerPartitionPersist = "SegmentBlob \<Rightarrow> (SegmentBlob \<times> bool) outcome"

definition releaseBuiltPartition :: "('q, 's, 'p, 'sc) SegmentFormat \<Rightarrow> LayerPartitionPersist \<Rightarrow> 'p segmentEntry \<Rightarrow> SegmentBlob
    \<Rightarrow> 'p BuiltLayer \<Rightarrow> ('p BuiltLayer \<times> 'p segmentEntry \<times> SegmentBlob) outcome" where
  "releaseBuiltPartition f persist entry blob built =
     bind_out (persist blob) (\<lambda>(mapped, ok).
       if \<not> ok then Ret (built\<lparr>bl_unreleased := bl_unreleased built @ [seg_ID entry]\<rparr>, entry, blob)
       else case f_Decode f (b_Bytes mapped) of
              Fail derr \<Rightarrow> Ret (built\<lparr>bl_unreleased := bl_unreleased built @ [seg_ID entry],
                                     bl_releaseErr := bl_releaseErr built @ [Wrap ''decoding the stored copy of partition'' derr]\<rparr>,
                               entry, blob)
            | Ret seg \<Rightarrow>
                (let next = entry\<lparr>payload := seg, heapPayload := 0\<rparr>
                 in Ret (built, next,
                         \<lparr>b_ID = seg_ID next, b_Format = b_Format blob, b_Generation = 0,
                          b_DocCount = mt_DocCount (meta next), b_Bytes = b_Bytes mapped, b_Envelope = b_Envelope mapped,
                          b_Mapped = False, b_Borrowed = True\<rparr>))
            | r \<Rightarrow> failed r)"

fun wrap_fail :: "string \<Rightarrow> 'a outcome \<Rightarrow> 'a outcome" where
  "wrap_fail msg (Fail err) = Fail (Wrap msg err)"
| "wrap_fail msg r = r"

definition layer_entry :: "('q, 's, 'p, 'sc) SegmentFormat \<Rightarrow> Document list \<Rightarrow> liveDocs list
    \<Rightarrow> BuildReport \<times> ('p segmentEntry \<times> liveDocs list) outcome" where
  "layer_entry f docs store =
     (let (rep, r) = f_Build f docs
      in (rep, bind_out (wrap_fail ''building partition of the replacement layer'' r) (\<lambda>seg.
           wrap_fail ''sealing partition of the replacement layer'' (newEntry f store seg [] payloadBuilt))))"

definition buildLayerPartition :: "('q, 's, 'p, 'sc) SegmentFormat \<Rightarrow> Options \<Rightarrow> LayerPartitionPersist option \<Rightarrow> BucketWork
    \<Rightarrow> 'p BuiltLayer \<Rightarrow> ('s, 'p) SegmentedIndex \<Rightarrow> ('s, 'p) SegmentedIndex \<times> 'p BuiltLayer outcome" where
  "buildLayerPartition f opts persist w built e =
     (let docs = dedupeDocsByID (bw_Docs w)
      in if docs = [] then (e, Ret built)
         else let (rep, r) = layer_entry f docs (e_store e);
                  e = reportDegrade opts rep e
              in case r of
                   Ret (entry, store) \<Rightarrow>
                     (let e = e\<lparr>e_store := store\<rparr>
                      in (e, bind_out (wrap_fail ''encoding partition of the replacement layer'' (blobParts f entry)) (\<lambda>(envelope, pay).
                           let blob = (entry_blob f entry envelope pay)\<lparr>b_Generation := 0\<rparr>
                           in bind_out (case persist of
                                          None \<Rightarrow> Ret (built, entry, blob)
                                        | Some hook \<Rightarrow>
                                            wrap_fail ''persisting partition of the replacement layer''
                                              (releaseBuiltPartition f hook entry blob built)) (\<lambda>(built, entry, blob).
                                Ret (built\<lparr>bl_entries := bl_entries built @ [entry], bl_blobs := bl_blobs built @ [blob]\<rparr>)))))
                 | r \<Rightarrow> (e, failed r))"

fun build_partitions :: "('q, 's, 'p, 'sc) SegmentFormat \<Rightarrow> Options \<Rightarrow> LayerPartitionPersist option \<Rightarrow> BucketWork list
    \<Rightarrow> 'p BuiltLayer \<Rightarrow> ('s, 'p) SegmentedIndex \<Rightarrow> ('s, 'p) SegmentedIndex \<times> 'p BuiltLayer outcome" where
  "build_partitions f opts persist [] built e = (e, Ret built)"
| "build_partitions f opts persist (w # ws) built e =
     (case buildLayerPartition f opts persist w built e of
        (e, Ret built) \<Rightarrow> build_partitions f opts persist ws built e
      | (e, r) \<Rightarrow> (e, r))"

definition BuildLayerReleasing :: "('q, 's, 'p, 'sc) SegmentFormat \<Rightarrow> Options \<Rightarrow> nat \<Rightarrow> BucketWork list
    \<Rightarrow> LayerPartitionPersist option \<Rightarrow> ('s, 'p) SegmentedIndex \<Rightarrow> ('s, 'p) SegmentedIndex \<times> 'p BuiltLayer outcome" where
  "BuildLayerReleasing f opts self work persist e =
     build_partitions f opts persist work
       \<lparr>bl_engine = self, bl_entries = [], bl_blobs = [], bl_capturedOldIDs = map seg_ID (entries (e_set e)),
        bl_unreleased = [], bl_releaseErr = []\<rparr> e"

definition BuildLayer :: "('q, 's, 'p, 'sc) SegmentFormat \<Rightarrow> Options \<Rightarrow> nat \<Rightarrow> BucketWork list
    \<Rightarrow> ('s, 'p) SegmentedIndex \<Rightarrow> ('s, 'p) SegmentedIndex \<times> 'p BuiltLayer outcome" where
  "BuildLayer f opts self work e = BuildLayerReleasing f opts self work None e"

definition ReplaceLayer :: "('q, 's, 'p, 'sc) SegmentFormat \<Rightarrow> Options \<Rightarrow> nat \<Rightarrow> 'p BuiltLayer option
    \<Rightarrow> ('s, 'p) SegmentedIndex \<Rightarrow> ('s, 'p) SegmentedIndex \<times> (SegmentID list \<times> SegmentID list) outcome" where
  "ReplaceLayer f opts self built e =
     (case built of
        None \<Rightarrow> (e, Fail (ErrText ''ReplaceLayer needs a built layer, got nil''))
      | Some b \<Rightarrow>
          (if bl_engine b \<noteq> self then (e, Fail (ErrText ''ReplaceLayer refuses a layer built by a DIFFERENT engine''))
           else if bl_entries b = [] then (e, Fail (ErrText ''ReplaceLayer refuses an EMPTY layer''))
           else let published = map seg_ID (bl_entries b);
                    retired = excluding (bl_capturedOldIDs b) published;
                    e = e\<lparr>e_set := withReplacedGroup f (e_set e) (bl_capturedOldIDs b) (bl_entries b)\<rparr>;
                    (e, r) = fire_group f opts (bl_entries b) retired e
                in (e, bind_out r (\<lambda>_. Ret (published, retired)))))"

section \<open>What a build leaves\<close>

lemma wrap_fail_Ret [simp]: "wrap_fail msg r = Ret a \<longleftrightarrow> r = Ret a"
  by (cases r) auto

lemma releaseBuiltPartition_spec:
  assumes "releaseBuiltPartition f hook en blob b = Ret (b', en', blob')"
  shows "bl_entries b' = bl_entries b" "bl_blobs b' = bl_blobs b" "bl_capturedOldIDs b' = bl_capturedOldIDs b" "bl_engine b' = bl_engine b"
    "members en' = members en" "live en' = live en" "meta en' = meta en" "sup_record en' = sup_record en"
    "heapPayload en' = heapPayload en \<or> heapPayload en' = 0" "b_ID blob = seg_ID en \<Longrightarrow> b_ID blob' = seg_ID en'"
  using assms
  by (auto simp: releaseBuiltPartition_def bind_out_Ret_iff Let_def split: if_splits outcome.splits)

lemma buildLayerPartition_Ret:
  assumes be: "build_exact f" and r: "buildLayerPartition f opts persist w b e = (e', Ret b')"
  obtains new where "bl_entries b' = bl_entries b @ new" "length (bl_blobs b') = length (bl_blobs b) + length new"
    "bl_capturedOldIDs b' = bl_capturedOldIDs b" "bl_engine b' = bl_engine b" "e_set e' = e_set e"
    "e_corrupts e' = e_corrupts e" "e_merges e' = e_merges e"
    "\<exists>lds. e_store e' = e_store e @ lds"
    "\<And>x. (\<exists>en \<in> set new. held x en) \<longleftrightarrow> x \<in> doc_ID ` set (bw_Docs w)"
    "\<And>en. en \<in> set new \<Longrightarrow> length (e_store e) \<le> live en \<and> entry_live_ok (e_store e') en \<and> gomap_ok (members en) \<and>
       (\<forall>x. live_in (e_store e') en x \<longleftrightarrow> held x en)" "distinct (map live new)"
proof (cases "dedupeDocsByID (bw_Docs w) = []")
  case True
  then have "doc_ID ` set (bw_Docs w) = {}" using dedupe_doc_ids[of "bw_Docs w"] by simp
  then show ?thesis using that[of "[]"] r True by (simp add: buildLayerPartition_def)
next
  case False
  let ?docs = "dedupeDocsByID (bw_Docs w)"
  obtain rep rs where le: "layer_entry f ?docs (e_store e) = (rep, rs)" by fastforce
  obtain en store where rs: "rs = Ret (en, store)"
    using r False le by (cases rs) (auto simp: buildLayerPartition_def)
  obtain seg where s: "snd (f_Build f ?docs) = Ret seg" "newEntry f (e_store e) seg [] payloadBuilt = Ret (en, store)"
    using le rs by (auto simp: layer_entry_def bind_out_Ret_iff split: prod.splits)
  have b1: "bind_out (wrap_fail ''encoding partition of the replacement layer'' (blobParts f en)) (\<lambda>(envelope, pay).
       let blob = (entry_blob f en envelope pay)\<lparr>b_Generation := 0\<rparr>
       in bind_out (case persist of None \<Rightarrow> Ret (b, en, blob)
          | Some hook \<Rightarrow> wrap_fail ''persisting partition of the replacement layer'' (releaseBuiltPartition f hook en blob b)) (\<lambda>(built, entry, blob).
            Ret (built\<lparr>bl_entries := bl_entries built @ [entry], bl_blobs := bl_blobs built @ [blob]\<rparr>))) = Ret b'"
    and e': "e' = (reportDegrade opts rep e)\<lparr>e_store := store\<rparr>"
    using r False le rs by (auto simp: buildLayerPartition_def)
  obtain blob b2 en2 blob2 where p: "(case persist of None \<Rightarrow> Ret (b, en, blob)
          | Some hook \<Rightarrow> wrap_fail ''persisting partition of the replacement layer'' (releaseBuiltPartition f hook en blob b)) = Ret (b2, en2, blob2)"
    and b': "b' = b2\<lparr>bl_entries := bl_entries b2 @ [en2], bl_blobs := bl_blobs b2 @ [blob2]\<rparr>"
    using b1 by (auto simp: bind_out_Ret_iff Let_def)
  have en2: "members en2 = members en" "live en2 = live en" "bl_entries b2 = bl_entries b" "bl_capturedOldIDs b2 = bl_capturedOldIDs b"
    "bl_engine b2 = bl_engine b" "bl_blobs b2 = bl_blobs b"
    using p releaseBuiltPartition_spec[of f _ en blob b b2 en2 blob2] by (auto split: option.splits)
  note N = newEntry_live[OF s(2)]
  have keys: "gm_keys (members en) = doc_ID ` set (bw_Docs w)"
  proof -
    obtain ids where ids: "s_IDs f seg = Ret ids" "members en = index_map ids" using s(2) by (rule newEntry_spec) blast
    then have "set ids = doc_ID ` set ?docs" using be s(1) unfolding build_exact_def by blast
    then show ?thesis using ids by (simp add: dedupe_doc_ids)
  qed
  have li: "live_in st en2 x = live_in st en x" "held x en2 = held x en" for st x
    by (simp_all add: residentMemberIn_def held_def en2 split: option.split)
  show ?thesis
  proof (rule that[of "[en2]"])
    show "\<exists>lds. e_store e' = e_store e @ lds" using N(3) by (auto simp: e')
  qed (use N keys in \<open>auto simp: b' e' en2 li entry_live_ok_def held_iff[of _ en]\<close>)
qed

lemma build_partitions_Ret:
  assumes be: "build_exact f" and r: "build_partitions f opts persist ws b e = (e', Ret b')"
  shows "\<exists>new. bl_entries b' = bl_entries b @ new \<and> bl_capturedOldIDs b' = bl_capturedOldIDs b \<and> bl_engine b' = bl_engine b \<and>
    e_set e' = e_set e \<and> (\<exists>lds. e_store e' = e_store e @ lds) \<and>
    (\<forall>x. (\<exists>en \<in> set new. held x en) \<longleftrightarrow> x \<in> (\<Union>w \<in> set ws. doc_ID ` set (bw_Docs w))) \<and>
    (\<forall>en \<in> set new. length (e_store e) \<le> live en \<and> entry_live_ok (e_store e') en \<and> gomap_ok (members en) \<and>
       (\<forall>x. live_in (e_store e') en x \<longleftrightarrow> held x en)) \<and> distinct (map live new)"
  using r
proof (induction ws arbitrary: b e)
  case Nil
  then show ?case by (intro exI[of _ "[]"]) auto
next
  case (Cons w ws)
  obtain e1 b1 where p: "buildLayerPartition f opts persist w b e = (e1, Ret b1)"
    and rest: "build_partitions f opts persist ws b1 e1 = (e', Ret b')"
    using Cons.prems by (auto split: prod.splits outcome.splits)
  obtain n1 where n1: "bl_entries b1 = bl_entries b @ n1" "bl_capturedOldIDs b1 = bl_capturedOldIDs b" "bl_engine b1 = bl_engine b"
    "e_set e1 = e_set e" "\<exists>lds. e_store e1 = e_store e @ lds"
    "\<And>x. (\<exists>en \<in> set n1. held x en) \<longleftrightarrow> x \<in> doc_ID ` set (bw_Docs w)"
    "\<And>en. en \<in> set n1 \<Longrightarrow> length (e_store e) \<le> live en \<and> entry_live_ok (e_store e1) en \<and> gomap_ok (members en) \<and>
       (\<forall>x. live_in (e_store e1) en x \<longleftrightarrow> held x en)" "distinct (map live n1)"
    using be p by (rule buildLayerPartition_Ret) blast
  obtain n2 where n2: "bl_entries b' = bl_entries b1 @ n2" "bl_capturedOldIDs b' = bl_capturedOldIDs b1" "bl_engine b' = bl_engine b1"
    "e_set e' = e_set e1" "\<exists>lds. e_store e' = e_store e1 @ lds"
    "\<And>x. (\<exists>en \<in> set n2. held x en) \<longleftrightarrow> x \<in> (\<Union>w \<in> set ws. doc_ID ` set (bw_Docs w))"
    "\<And>en. en \<in> set n2 \<Longrightarrow> length (e_store e1) \<le> live en \<and> entry_live_ok (e_store e') en \<and> gomap_ok (members en) \<and>
       (\<forall>x. live_in (e_store e') en x \<longleftrightarrow> held x en)" "distinct (map live n2)"
    using Cons.IH[OF rest] by blast
  obtain l1 l2 where l: "e_store e1 = e_store e @ l1" "e_store e' = e_store e1 @ l2" using n1(5) n2(5) by blast
  have up: "length (e_store e) \<le> live en \<and> entry_live_ok (e_store e') en \<and> gomap_ok (members en) \<and>
       (\<forall>x. live_in (e_store e') en x \<longleftrightarrow> held x en) \<and> live en < length (e_store e1)" if "en \<in> set n1" for en
    using n1(7)[OF that] by (auto simp: l(2) entry_live_ok_append live_in_append entry_live_ok_def[of "e_store e1"])
  have dj: "live ` set n1 \<inter> live ` set n2 = {}" using up n2(7) by fastforce
  show ?case
  proof (intro exI[of _ "n1 @ n2"] conjI allI ballI)
    show "length (e_store e) \<le> live en" "entry_live_ok (e_store e') en" "gomap_ok (members en)" "live_in (e_store e') en x \<longleftrightarrow> held x en"
      if "en \<in> set (n1 @ n2)" for en x
      using that up n2(7) by (auto simp: l(1) dest: n2(7))
    show "(\<exists>en \<in> set (n1 @ n2). held x en) \<longleftrightarrow> x \<in> (\<Union>w \<in> set (w # ws). doc_ID ` set (bw_Docs w))" for x
      using n1(6)[of x] n2(6)[of x] by (auto simp: bex_Un)
  qed (use n1 n2 l dj in auto)
qed

section \<open>Properties\<close>

text \<open>
  C23: a layer reset replaces what was resident when its build began and nothing else. The build
  leaves the published set alone and its entries hold exactly the documents of the work. Published
  later, against whatever set is then served, the layer removes the captured segments only: a
  segment published during the build stays, in place and with its liveness. The owner is told
  to retire exactly the captured ids that are no longer resident. With nothing published in between,
  the documents of the work are what is searchable. A nil, foreign or empty layer is
  refused and changes nothing.
\<close>

theorem ReplaceLayer_keeps_concurrent_segments:
  assumes ok: "engine_ok f e0" and be: "build_exact f"
    and b: "BuildLayerReleasing f opts self work persist e0 = (e1, Ret b)"
    and r: "ReplaceLayer f opts self (Some b) e = (e', Ret (published, retired))"
  shows "e_set e1 = e_set e0 \<and>
    (\<forall>x. (\<exists>en \<in> set (bl_entries b). held x en) \<longleftrightarrow> x \<in> (\<Union>w \<in> set work. doc_ID ` set (bw_Docs w))) \<and>
    entries (e_set e') = filter (\<lambda>en. seg_ID en \<notin> seg_ID ` set (entries (e_set e0))) (entries (e_set e)) @ bl_entries b \<and>
    e_store e' = e_store e \<and> set published = seg_ID ` set (bl_entries b) \<and>
    (\<forall>sid. sid \<in> set retired \<longleftrightarrow>
       sid \<in> seg_ID ` set (entries (e_set e0)) \<and> sid \<notin> seg_ID ` set (entries (e_set e'))) \<and>
    (e = e1 \<longrightarrow> (\<forall>x. searchable e' x \<longleftrightarrow> x \<in> (\<Union>w \<in> set work. doc_ID ` set (bw_Docs w)))) \<and>
    (\<forall>other. other \<noteq> self \<longrightarrow> fst (ReplaceLayer f opts other (Some b) e) = e) \<and>
    fst (ReplaceLayer f opts self None e) = e \<and>
    fst (ReplaceLayer f opts self (Some (b\<lparr>bl_entries := []\<rparr>)) e) = e"
proof -
  obtain new where new: "bl_entries b = new" "bl_capturedOldIDs b = map seg_ID (entries (e_set e0))" "bl_engine b = self"
    "e_set e1 = e_set e0" "\<And>x. (\<exists>en \<in> set new. held x en) \<longleftrightarrow> x \<in> (\<Union>w \<in> set work. doc_ID ` set (bw_Docs w))"
    "\<And>en x. en \<in> set new \<Longrightarrow> live_in (e_store e1) en x \<longleftrightarrow> held x en"
    using build_partitions_Ret[OF be b[unfolded BuildLayerReleasing_def]] by auto
  let ?e = "e\<lparr>e_set := withReplacedGroup f (e_set e) (bl_capturedOldIDs b) (bl_entries b)\<rparr>"
  obtain e2 r2 where fg: "fire_group f opts (bl_entries b) (excluding (bl_capturedOldIDs b) (map seg_ID (bl_entries b))) ?e = (e2, r2)"
    by fastforce
  have res: "e' = e2" "published = map seg_ID (bl_entries b)" "retired = excluding (bl_capturedOldIDs b) published" "bl_entries b \<noteq> []"
    using r fg new(3) by (auto simp: ReplaceLayer_def bind_out_Ret_iff Let_def split: if_splits)
  note F = fire_group_frame[OF fg]
  have ents: "entries (e_set e') = filter (\<lambda>en. seg_ID en \<notin> seg_ID ` set (entries (e_set e0))) (entries (e_set e)) @ bl_entries b"
    by (simp add: res F withReplacedGroup_def new(2))
  have st: "e_store e' = e_store e" by (simp add: res F)
  have ret: "sid \<in> set retired \<longleftrightarrow> sid \<in> seg_ID ` set (entries (e_set e0)) \<and> sid \<notin> seg_ID ` set (entries (e_set e'))" for sid
    by (auto simp: res(2,3) excluding_def new(2) ents) (metis image_eqI)
  have se: "searchable e' x \<longleftrightarrow> x \<in> (\<Union>w \<in> set work. doc_ID ` set (bw_Docs w))" if "e = e1" for x
  proof -
    have "entries (e_set e') = bl_entries b" unfolding ents that new(4) by simp
    then show ?thesis using new(1,5,6) that by (simp add: searchable_def st)
  qed
  show ?thesis
    using new(1,3,4,5) ents st ret se res(2) by (simp add: ReplaceLayer_def)
qed

lemma ReplaceLayer_keeps_concurrent_segments_witness:
  "\<exists>e1 b e' published retired.
     BuildLayerReleasing ids_format merge_opts 7 [\<lparr>bw_Bucket = 0, bw_Superseded = [], bw_Docs = [plain_doc ''z'']\<rparr>] None
       (ids_engine [(''A'', [''x''])]) = (e1, Ret b) \<and>
     ReplaceLayer ids_format merge_opts 7 (Some b) e1 = (e', Ret (published, retired)) \<and>
     searchable e' ''z'' \<and> \<not> searchable e' ''x''"
proof -
  let ?e = "ids_engine [(''A'', [''x''])]" and ?w = "[\<lparr>bw_Bucket = 0, bw_Superseded = [], bw_Docs = [plain_doc ''z'']\<rparr>]"
  have ok: "engine_ok ids_format ?e" by (rule ids_engine_ok) auto
  obtain e1 r1 where b: "BuildLayerReleasing ids_format merge_opts 7 ?w None ?e = (e1, r1)" by fastforce
  have "\<exists>b. r1 = Ret b \<and> bl_entries b \<noteq> [] \<and> bl_engine b = 7"
    using b by (auto simp: BuildLayerReleasing_def buildLayerPartition_def layer_entry_def dedupeDocsByID_def index_map_1
        ids_format_def newEntry_def blobParts_def Let_def split: prod.splits outcome.splits)
  then obtain layer where l: "r1 = Ret layer" "bl_entries layer \<noteq> []" "bl_engine layer = 7" by blast
  have "\<exists>e' published retired. ReplaceLayer ids_format merge_opts 7 (Some layer) e1 = (e', Ret (published, retired))"
    using l(2,3) by (simp add: ReplaceLayer_def Let_def split_beta)
  then obtain e' published retired where r: "ReplaceLayer ids_format merge_opts 7 (Some layer) e1 = (e', Ret (published, retired))" by blast
  show ?thesis
    using ReplaceLayer_keeps_concurrent_segments[OF ok ids_build_exact b[unfolded l(1)] r] b l(1) r by auto
qed

end
