(* ===== verification/Distribution.thy ===== *)
theory Distribution
  imports Layer
begin

text \<open>
  \<open>internal/searchengine/distribution.go\<close> and \<open>mapping_lifetime.go\<close>: segments leaving as blobs and
  coming back, the refusal of segments a batch's own records supersede, unloading, and the
  republication of a resident payload over its stored bytes.

  The decodes of an import run on a pool; their results are addressed by index and the first
  error in blob order is returned after all of them are done, which is what the model computes.
  The mappings' release functions are not state: an entry's mapping lives as long as the entry.
\<close>

section \<open>Export\<close>

fun export_entries :: "('q, 's, 'p, 'sc) SegmentFormat \<Rightarrow> 'p segmentEntry list \<Rightarrow> SegmentBlob list outcome" where
  "export_entries f [] = Ret []"
| "export_entries f (en # ens) =
     (case blobParts f en of
        Ret (envelope, pay) \<Rightarrow> bind_out (export_entries f ens) (\<lambda>bs. Ret (entry_blob f en envelope pay # bs))
      | Fail _ \<Rightarrow> export_entries f ens
      | r \<Rightarrow> failed r)"

definition Export :: "('q, 's, 'p, 'sc) SegmentFormat \<Rightarrow> ('s, 'p) SegmentedIndex \<Rightarrow> SegmentBlob list outcome" where
  "Export f e = export_entries f (entries (e_set e))"

definition ResidentSegmentIDs :: "('s, 'p) SegmentedIndex \<Rightarrow> SegmentID list" where
  "ResidentSegmentIDs e = map seg_ID (entries (e_set e))"

section \<open>Import\<close>

definition entryFromDecoded :: "('q, 's, 'p, 'sc) SegmentFormat \<Rightarrow> liveDocs list \<Rightarrow> 'p \<Rightarrow> SegmentBlob \<Rightarrow> ExternalID list
    \<Rightarrow> ('p segmentEntry \<times> liveDocs list) outcome" where
  "entryFromDecoded f store seg blob tombstones =
     bind_out (s_IDs f seg) (\<lambda>ids.
       let ms = index_map ids;
           ld = newLiveDocsFromTombstones (length ids) tombstones ms
       in Ret (\<lparr>payload = seg, live = length store, members = ms,
                meta = \<lparr>mt_ID = b_ID blob, mt_Format = b_Format blob, mt_Generation = b_Generation blob,
                        mt_DocCount = int (length ms), mt_DeadCount = int (distinctDeadCount ms ld)\<rparr>,
                sup_record = \<lparr>Superseded = [], Cohort = []\<rparr>,
                heapPayload = (if \<not> b_Mapped blob \<and> \<not> b_Borrowed blob then int (length (b_Bytes blob)) else 0)\<rparr>,
               store @ [ld]))"

definition import_one :: "('q, 's, 'p, 'sc) SegmentFormat \<Rightarrow> Options \<Rightarrow> ExternalID list \<Rightarrow> SegmentBlob
    \<Rightarrow> ('s, 'p) SegmentedIndex \<Rightarrow> ('s, 'p) SegmentedIndex \<times> 'p segmentEntry outcome" where
  "import_one f opts tombstones blob e =
     (case decodeSupersessionEnvelope (b_Envelope blob) of
        Inl err \<Rightarrow> (e, Fail (Wrap ''decode segment'' (EnvelopeError err)))
      | Inr rc \<Rightarrow>
          (case wrap_fail ''decode segment'' (f_Decode f (b_Bytes blob)) of
             Ret seg \<Rightarrow>
               (case containCorrupt f opts (b_ID blob) (entryFromDecoded f (e_store e) seg blob tombstones) e of
                  (e, Ret (entry, store)) \<Rightarrow> (e\<lparr>e_store := store\<rparr>, Ret (entry\<lparr>sup_record := rc\<rparr>))
                | (e, r) \<Rightarrow> (e, failed r))
           | r \<Rightarrow> (e, failed r)))"

fun import_each :: "('q, 's, 'p, 'sc) SegmentFormat \<Rightarrow> Options \<Rightarrow> ExternalID list \<Rightarrow> SegmentBlob list
    \<Rightarrow> ('s, 'p) SegmentedIndex \<Rightarrow> ('s, 'p) SegmentedIndex \<times> 'p segmentEntry outcome list" where
  "import_each f opts tombstones [] e = (e, [])"
| "import_each f opts tombstones (b # bs) e =
     (let (e, r) = import_one f opts tombstones b e;
          (e, rs) = import_each f opts tombstones bs e
      in (e, r # rs))"

fun first_crash :: "'a outcome list \<Rightarrow> 'a outcome option" where
  "first_crash [] = None"
| "first_crash (Raised s d # rs) = Some (Raised s d)"
| "first_crash (Panic m # rs) = Some (Panic m)"
| "first_crash (r # rs) = first_crash rs"

fun all_or_error :: "'a outcome list \<Rightarrow> 'a list outcome" where
  "all_or_error [] = Ret []"
| "all_or_error (r # rs) = bind_out r (\<lambda>a. bind_out (all_or_error rs) (\<lambda>as. Ret (a # as)))"

definition subsetPresent :: "SegmentID list \<Rightarrow> SegmentID list \<Rightarrow> bool" where
  "subsetPresent ids present \<longleftrightarrow> ids \<noteq> [] \<and> list_all (\<lambda>sid. sid \<in> set present) ids"

definition honored :: "'p segmentEntry list \<Rightarrow> 'p segmentEntry \<Rightarrow> bool" where
  "honored es en \<longleftrightarrow> \<not> record_empty (sup_record en) \<and> subsetPresent (Cohort (sup_record en)) (map seg_ID es)"

definition declineSuperseded :: "'p segmentEntry list \<Rightarrow> 'p segmentEntry list" where
  "declineSuperseded es =
     (let superseded = concat (map (\<lambda>en. Superseded (sup_record en)) (filter (honored es) es))
      in filter (\<lambda>en. seg_ID en \<notin> set superseded) es)"

fun import_fresh :: "SegmentID list \<Rightarrow> 'p segmentEntry list \<Rightarrow> 'p segmentEntry list" where
  "import_fresh present [] = []"
| "import_fresh present (en # ens) =
     (if seg_ID en \<in> set present then import_fresh present ens
      else en # import_fresh (seg_ID en # present) ens)"

definition publishImport :: "('q, 's, 'p, 'sc) SegmentFormat \<Rightarrow> 'p segmentEntry list \<Rightarrow> ('s, 'p) SegmentedIndex
    \<Rightarrow> ('s, 'p) SegmentedIndex" where
  "publishImport f es e =
     (let fresh = import_fresh (map seg_ID (entries (e_set e))) es
      in if fresh = [] then e
         else signalMerge (e\<lparr>e_set := newSegmentSet f (entries (e_set e) @ fresh)\<rparr>))"

definition Import :: "('q, 's, 'p, 'sc) SegmentFormat \<Rightarrow> Options \<Rightarrow> SegmentBlob list \<Rightarrow> ExternalID list
    \<Rightarrow> ('s, 'p) SegmentedIndex \<Rightarrow> ('s, 'p) SegmentedIndex \<times> unit outcome" where
  "Import f opts blobs tombstones e =
     (if blobs = [] then (e, Ret ())
      else let (e, rs) = import_each f opts tombstones blobs e
           in case first_crash rs of
                Some r \<Rightarrow> (e, failed r)
              | None \<Rightarrow>
                  (case all_or_error rs of
                     Ret es \<Rightarrow> (publishImport f (declineSuperseded es) e, Ret ())
                   | r \<Rightarrow> (e, failed r)))"

definition Unload :: "('q, 's, 'p, 'sc) SegmentFormat \<Rightarrow> SegmentID list \<Rightarrow> ('s, 'p) SegmentedIndex \<Rightarrow> ('s, 'p) SegmentedIndex" where
  "Unload f ids e =
     (if ids = [] then e
      else e\<lparr>e_set := newSegmentSet f (filter (\<lambda>en. seg_ID en \<notin> set ids) (entries (e_set e)))\<rparr>)"

section \<open>Republication of resident payloads\<close>

datatype RemapOutcome = RemapRepublished | RemapDeclined | RemapFailed

record RemapResult =
  rr_Outcome :: RemapOutcome
  rr_Err :: "engine_error option"

text \<open>The decodes come first: a failure is recorded at once, a success provisionally as a decline.\<close>

fun remap_decode :: "('q, 's, 'p, 'sc) SegmentFormat \<Rightarrow> SegmentBlob list \<Rightarrow> (SegmentID, RemapResult) gomap
    \<Rightarrow> ((SegmentID, RemapResult) gomap \<times> (SegmentID \<times> 'p) list) outcome" where
  "remap_decode f [] ocs = Ret (ocs, [])"
| "remap_decode f (b # bs) ocs =
     (case f_Decode f (b_Bytes b) of
        Fail err \<Rightarrow> remap_decode f bs (AList.update (b_ID b) \<lparr>rr_Outcome = RemapFailed, rr_Err = Some (Wrap ''remap segment'' err)\<rparr> ocs)
      | Ret seg \<Rightarrow>
          bind_out (remap_decode f bs (AList.update (b_ID b) \<lparr>rr_Outcome = RemapDeclined, rr_Err = None\<rparr> ocs))
            (\<lambda>(ocs, pending). Ret (ocs, (b_ID b, seg) # pending))
      | r \<Rightarrow> failed r)"

definition remapped :: "'p segmentEntry \<Rightarrow> 'p \<Rightarrow> 'p segmentEntry" where
  "remapped src seg = src\<lparr>payload := seg, heapPayload := 0\<rparr>"

definition remap_replacements :: "('s, 'p) segmentSet \<Rightarrow> (SegmentID \<times> 'p) list \<Rightarrow> (nat, 'p segmentEntry) gomap" where
  "remap_replacements s pending =
     (let indexByID = index_map (map seg_ID (entries s))
      in foldl (\<lambda>m (sid, seg). case map_of indexByID sid of
            None \<Rightarrow> m
          | Some idx \<Rightarrow> AList.update (nat idx) (remapped (entries s ! nat idx) seg) m) [] pending)"

definition RemapResidentBatch :: "('q, 's, 'p, 'sc) SegmentFormat \<Rightarrow> SegmentBlob list \<Rightarrow> ('s, 'p) SegmentedIndex
    \<Rightarrow> ('s, 'p) SegmentedIndex \<times> (SegmentID, RemapResult) gomap outcome" where
  "RemapResidentBatch f blobs e =
     (if blobs = [] then (e, Ret [])
      else case remap_decode f blobs [] of
             Ret (ocs, pending) \<Rightarrow>
               (let repl = remap_replacements (e_set e) pending
                in if pending = [] \<or> repl = [] then (e, Ret ocs)
                   else (e\<lparr>e_set := withReplacedPayloads f (e_set e) repl\<rparr>,
                         Ret (foldl (\<lambda>m (sid, _). if sid \<in> seg_ID ` set (entries (e_set e))
                                then AList.update sid \<lparr>rr_Outcome = RemapRepublished, rr_Err = None\<rparr> m else m) ocs pending)))
           | r \<Rightarrow> (e, failed r))"

definition RemapResident :: "('q, 's, 'p, 'sc) SegmentFormat \<Rightarrow> SegmentID \<Rightarrow> SegmentBlob \<Rightarrow> ('s, 'p) SegmentedIndex
    \<Rightarrow> ('s, 'p) SegmentedIndex \<times> engine_error option outcome" where
  "RemapResident f sid blob e =
     (case RemapResidentBatch f [blob\<lparr>b_ID := sid\<rparr>] e of
        (e, Ret ocs) \<Rightarrow> (e, Ret (case map_of ocs sid of None \<Rightarrow> None | Some rr \<Rightarrow> rr_Err rr))
      | (e, r) \<Rightarrow> (e, failed r))"

section \<open>Entries that arrive as blobs\<close>

lemma record_derived [simp]:
  "held x (en\<lparr>sup_record := rc\<rparr>) = held x en" "live_in store (en\<lparr>sup_record := rc\<rparr>) x = live_in store en x"
  "payload_ok f (en\<lparr>sup_record := rc\<rparr>) = payload_ok f en" "entry_live_ok store (en\<lparr>sup_record := rc\<rparr>) = entry_live_ok store en"
  "entry_counts_ok store (en\<lparr>sup_record := rc\<rparr>) = entry_counts_ok store en"
  by (simp_all add: held_def residentMemberIn_def payload_ok_def entry_live_ok_def entry_counts_ok_def split: option.split)

lemma entryFromDecoded_Ret:
  assumes "entryFromDecoded f store seg blob ts = Ret (en, store')"
  shows "\<exists>ld. store' = store @ [ld]" "live en = length store" "entry_live_ok store' en" "gomap_ok (members en)"
    "live_in store' en x \<longleftrightarrow> held x en \<and> x \<notin> set ts" "meta en = (meta en)\<lparr>mt_ID := b_ID blob\<rparr>" "seg_ID en = b_ID blob"
    "payload_ok f en" "payload en = seg" "\<And>ids. s_IDs f seg = Ret ids \<Longrightarrow> gm_keys (members en) = set ids"
    "entry_counts_ok store' en"
proof -
  obtain ids where ids: "s_IDs f seg = Ret ids" using assms by (auto simp: entryFromDecoded_def bind_out_Ret_iff)
  let ?m = "index_map ids" let ?ld = "newLiveDocsFromTombstones (length ids) ts ?m"
  have s: "store' = store @ [?ld]" and en: "members en = ?m" "live en = length store" "seg_ID en = b_ID blob" "payload en = seg"
    "mt_DocCount (meta en) = int (length ?m)"
    using assms ids by (auto simp: entryFromDecoded_def Let_def)
  have mo: "members_ok ?m (length ids)" by simp
  have L: "Live ?ld i \<longleftrightarrow> 0 \<le> i \<and> i < int (length ids) \<and> (\<forall>y \<in> set ts. map_of ?m y \<noteq> Some i)" for i
    by (auto simp: newLiveDocsFromTombstones_def kill_members_live Live_new)
  have rng: "0 \<le> i \<and> i < int (length ids)" if "map_of ?m x = Some i" for i
    using mo map_of_SomeD[OF that] by (auto simp: members_ok_def)
  have "Live ?ld i \<longleftrightarrow> x \<notin> set ts" if "map_of ?m x = Some i" for i
  proof -
    have eq: "map_of ?m y = Some i \<longleftrightarrow> y = x" for y using same_ord_same_id[OF mo that, of y] that by metis
    show ?thesis unfolding L eq using rng[OF that] by metis
  qed
  then show "live_in store' en x \<longleftrightarrow> held x en \<and> x \<notin> set ts"
    by (auto simp: residentMemberIn_def en s held_def split: option.splits)
  show "\<exists>ld. store' = store @ [ld]" "live en = length store" "seg_ID en = b_ID blob" "payload en = seg" "gomap_ok (members en)"
    using s en by auto
  show "meta en = (meta en)\<lparr>mt_ID := b_ID blob\<rparr>" using en by simp
  show "entry_live_ok store' en" by (simp add: entry_live_ok_def en s)
  show "payload_ok f en" "\<And>ids. s_IDs f seg = Ret ids \<Longrightarrow> gm_keys (members en) = set ids"
    using ids en by (simp_all add: payload_ok_def)
  have "i \<in> snd ` set ?m" if i: "0 \<le> i" "i < int (length ids)" "\<not> Live ?ld i" for i
  proof -
    obtain y where "map_of ?m y = Some i" using L[of i] i by blast
    then have "(y, i) \<in> set ?m" by (rule map_of_SomeD)
    then show ?thesis by (metis image_eqI snd_conv)
  qed
  then show "entry_counts_ok store' en" by (simp add: entry_counts_ok_def en s)
qed

text \<open>The record of a blob, as an import reads it.\<close>

lemma envelope_roundtrip:
  assumes "record_fits rc \<or> record_empty rc"
  shows "\<exists>rc'. decodeSupersessionEnvelope (encodeSupersessionPrefix rc) = Inr rc' \<and>
    set (Superseded rc') = set (Superseded rc) \<and> (\<not> record_empty rc \<longrightarrow> set (Cohort rc') = set (Cohort rc))"
proof (cases "record_empty rc")
  case True
  have "decodeSupersessionEnvelope [] = Inr \<lparr>Superseded = [], Cohort = []\<rparr>"
    by (simp add: decodeSupersessionEnvelope_def decodeSupersession_def supersessionPayloadOff_def supMagicLen_def supMagic_def)
  then show ?thesis using True by (simp add: encodeSupersessionPrefix_def record_empty_def)
next
  case False
  then show ?thesis using decode_encode[of rc "[]"] assms by (simp add: decodeSupersessionEnvelope_def)
qed

lemma import_one_Ret:
  assumes "import_one f opts ts blob e = (e', Ret en)"
  obtains rc seg en0 where "decodeSupersessionEnvelope (b_Envelope blob) = Inr rc" "f_Decode f (b_Bytes blob) = Ret seg"
    "entryFromDecoded f (e_store e) seg blob ts = Ret (en0, e_store e')" "en = en0\<lparr>sup_record := rc\<rparr>" "e_set e' = e_set e"
    "e_merges e' = e_merges e" "e_stopped e' = e_stopped e" "e_corrupts e' = e_corrupts e" "e_mergeCnt e' = e_mergeCnt e"
proof -
  obtain rc where rc: "decodeSupersessionEnvelope (b_Envelope blob) = Inr rc"
    using assms by (cases "decodeSupersessionEnvelope (b_Envelope blob)") (auto simp: import_one_def)
  obtain seg where seg: "f_Decode f (b_Bytes blob) = Ret seg"
    using assms rc by (cases "f_Decode f (b_Bytes blob)") (auto simp: import_one_def)
  obtain e1 r1 where c: "containCorrupt f opts (b_ID blob) (entryFromDecoded f (e_store e) seg blob ts) e = (e1, r1)" by fastforce
  obtain en0 store where r1: "r1 = Ret (en0, store)" using assms rc seg c by (cases r1) (auto simp: import_one_def)
  note C = containCorrupt_RetD[OF c[unfolded r1]]
  have "e' = e\<lparr>e_store := store\<rparr>" "en = en0\<lparr>sup_record := rc\<rparr>" using assms rc seg c r1 C(2) by (auto simp: import_one_def)
  then show ?thesis using that[OF rc seg] C(1) by simp
qed

definition arrives :: "('q, 's, 'p, 'sc) SegmentFormat \<Rightarrow> ExternalID list \<Rightarrow> nat \<Rightarrow> liveDocs list \<Rightarrow> SegmentBlob \<Rightarrow> 'p segmentEntry \<Rightarrow> bool" where
  "arrives f ts k store blob en \<longleftrightarrow> seg_ID en = b_ID blob \<and> entry_live_ok store en \<and> gomap_ok (members en) \<and> k \<le> live en \<and>
     (\<forall>x. live_in store en x \<longleftrightarrow> held x en \<and> x \<notin> set ts) \<and> payload_ok f en \<and> entry_counts_ok store en \<and>
     decodeSupersessionEnvelope (b_Envelope blob) = Inr (sup_record en) \<and>
     (\<forall>seg ids. f_Decode f (b_Bytes blob) = Ret seg \<longrightarrow> s_IDs f seg = Ret ids \<longrightarrow> gm_keys (members en) = set ids)"

lemma entry_counts_ok_append: "live en < length store \<Longrightarrow> entry_counts_ok (store @ lds) en = entry_counts_ok store en"
  by (simp add: entry_counts_ok_def nth_append)

lemma arrives_append: "arrives f ts k store blob en \<Longrightarrow> k' \<le> k \<Longrightarrow> arrives f ts k' (store @ lds) blob en"
  by (auto simp: arrives_def entry_live_ok_append live_in_append entry_counts_ok_append entry_live_ok_def[of store])

lemma import_each_Ret:
  assumes "import_each f opts ts blobs e = (e', rs)" "all_or_error rs = Ret es"
  shows "list_all2 (arrives f ts (length (e_store e)) (e_store e')) blobs es \<and> distinct (map live es) \<and>
    e_set e' = e_set e \<and> (\<exists>lds. e_store e' = e_store e @ lds)"
  using assms
proof (induction blobs arbitrary: e rs es)
  case (Cons b bs)
  obtain e1 r1 rs' where i: "import_one f opts ts b e = (e1, r1)" "import_each f opts ts bs e1 = (e', rs')" "rs = r1 # rs'"
    using Cons.prems(1) by (auto split: prod.splits)
  obtain en es' where r: "r1 = Ret en" "all_or_error rs' = Ret es'" "es = en # es'"
    using Cons.prems(2) i(3) by (auto simp: bind_out_Ret_iff)
  note IH = Cons.IH[OF i(2) r(2)]
  obtain rc seg en0 where o: "decodeSupersessionEnvelope (b_Envelope b) = Inr rc" "f_Decode f (b_Bytes b) = Ret seg"
    "entryFromDecoded f (e_store e) seg b ts = Ret (en0, e_store e1)" "en = en0\<lparr>sup_record := rc\<rparr>" "e_set e1 = e_set e"
    using i(1)[unfolded r(1)] by (rule import_one_Ret) blast
  note E = entryFromDecoded_Ret[OF o(3)]
  have "arrives f ts (length (e_store e)) (e_store e1) b en"
    using E o by (simp add: arrives_def)
  moreover obtain l1 l2 where l: "e_store e1 = e_store e @ l1" "e_store e' = e_store e1 @ l2" using E(1) IH by auto
  ultimately have hd: "arrives f ts (length (e_store e)) (e_store e') b en"
    using arrives_append[of f ts _ "e_store e1" b en "length (e_store e)" l2] by simp
  have tl: "list_all2 (arrives f ts (length (e_store e)) (e_store e')) bs es'"
    using conjunct1[OF IH] by (rule list_all2_mono) (use arrives_append[of f ts _ "e_store e'" _ _ _ "[]"] l(1) in auto)
  have "live en < length (e_store e1)" using E(1,2) o(4) by auto
  moreover have "length (e_store e1) \<le> live en'" if "en' \<in> set es'" for en'
    using conjunct1[OF IH] that by (auto simp: list_all2_conv_all_nth in_set_conv_nth arrives_def)
  ultimately have "live en \<notin> live ` set es'" by force
  then show ?case using hd tl IH o(5) l by (auto simp: r(3))
qed simp

section \<open>Publishing an import\<close>

lemma import_fresh_sub: "set (import_fresh P es) \<subseteq> set es"
proof (induction es arbitrary: P)
  case (Cons en es)
  then show ?case using Cons[of P] Cons[of "seg_ID en # P"] by auto
qed simp

lemma import_fresh_ids: "seg_ID ` set (import_fresh P es) = seg_ID ` set es - set P"
  by (induction es arbitrary: P) auto

lemma import_fresh_distinct: "distinct (map seg_ID (import_fresh P es))"
proof (induction es arbitrary: P)
  case (Cons en es)
  have "seg_ID en \<notin> seg_ID ` set (import_fresh (seg_ID en # P) es)" unfolding import_fresh_ids by simp
  then show ?case using Cons by simp
qed simp

lemma import_fresh_live: "distinct (map live es) \<Longrightarrow> distinct (map live (import_fresh P es))"
proof (induction es arbitrary: P)
  case (Cons en es)
  have "live en \<notin> live ` set (import_fresh (seg_ID en # P) es)"
    using Cons.prems import_fresh_sub[of "seg_ID en # P" es] by auto
  then show ?case using Cons by simp
qed simp

lemma import_fresh_all:
  "distinct (map seg_ID es) \<Longrightarrow> seg_ID ` set es \<inter> set P = {} \<Longrightarrow> import_fresh P es = es"
  by (induction es arbitrary: P) auto

lemma import_fresh_none: "seg_ID ` set es \<subseteq> set P \<Longrightarrow> import_fresh P es = []"
  by (induction es) auto

lemma publishImport_sel:
  "entries (e_set (publishImport f es e)) = entries (e_set e) @ import_fresh (map seg_ID (entries (e_set e))) es"
  "e_store (publishImport f es e) = e_store e"
  by (auto simp: publishImport_def Let_def)

lemma publishImport_ok:
  assumes ok: "engine_ok f e" and en: "\<forall>en \<in> set es. entry_live_ok (e_store e) en \<and> gomap_ok (members en) \<and> live en \<notin> live ` set (entries (e_set e))"
    and d: "distinct (map live es)"
  shows "engine_ok f (publishImport f es e)"
proof (cases "import_fresh (map seg_ID (entries (e_set e))) es = []")
  case True
  then show ?thesis using ok by (simp add: publishImport_def)
next
  case False
  let ?fr = "import_fresh (map seg_ID (entries (e_set e))) es"
  note F = import_fresh_sub[of "map seg_ID (entries (e_set e))" es] import_fresh_distinct[of "map seg_ID (entries (e_set e))" es]
    import_fresh_ids[of "map seg_ID (entries (e_set e))" es] import_fresh_live[of es "map seg_ID (entries (e_set e))"]
  have s: "e_set (publishImport f es e) = newSegmentSet f (entries (e_set e) @ ?fr)"
    using False by (simp add: publishImport_def Let_def)
  have "entries_ok (entries (e_set e) @ ?fr)"
    using engine_ok_entries[OF ok] en F(1) by (auto simp: entries_ok_def)
  moreover have "live ` set ?fr \<inter> live ` set (entries (e_set e)) = {}" using en F(1) by blast
  moreover have "seg_ID ` set ?fr \<inter> seg_ID ` set (entries (e_set e)) = {}" using F(3) by auto
  ultimately show ?thesis
    using ok en F(1,2) F(4)[OF d] by (auto simp: engine_ok_def s publishImport_sel set_ok_new)
qed

lemma Import_Ret:
  assumes "Import f opts blobs ts e = (e', Ret ())" "blobs \<noteq> []"
  obtains e1 rs es where "import_each f opts ts blobs e = (e1, rs)" "all_or_error rs = Ret es"
    "e' = publishImport f (declineSuperseded es) e1"
  using assms by (auto simp: Import_def split: prod.splits option.splits outcome.splits elim: failed.elims)

lemma declineSuperseded_iff:
  "en \<in> set (declineSuperseded es) \<longleftrightarrow> en \<in> set es \<and> (\<forall>h \<in> set es. honored es h \<longrightarrow> seg_ID en \<notin> set (Superseded (sup_record h)))"
  by (auto simp: declineSuperseded_def)

lemma honored_sets:
  "honored es en \<longleftrightarrow> Superseded (sup_record en) \<noteq> [] \<and> Cohort (sup_record en) \<noteq> [] \<and> set (Cohort (sup_record en)) \<subseteq> seg_ID ` set es"
  by (auto simp: honored_def record_empty_def subsetPresent_def list_all_iff)

lemma import_one_frame:
  assumes "import_one f opts ts b e = (e', r)"
  shows "only_withdraws opts e e'" "\<exists>lds. e_store e' = e_store e @ lds" "engine_ok f e \<Longrightarrow> engine_ok f e'"
proof -
  have "only_withdraws opts e e' \<and> (\<exists>lds. e_store e' = e_store e @ lds) \<and> (engine_ok f e \<longrightarrow> engine_ok f e')"
  proof (cases "\<exists>en. r = Ret en")
    case True
    then obtain en where r: "r = Ret en" by blast
    obtain seg en0 where o: "entryFromDecoded f (e_store e) seg b ts = Ret (en0, e_store e')" and f: "e_set e' = e_set e"
      "e_merges e' = e_merges e" "e_stopped e' = e_stopped e" "e_corrupts e' = e_corrupts e" "e_mergeCnt e' = e_mergeCnt e"
      using assms[unfolded r] by (rule import_one_Ret) blast
    obtain ld where ld: "e_store e' = e_store e @ [ld]" using entryFromDecoded_Ret(1)[OF o] by blast
    show ?thesis using f ld engine_ok_store[OF _ f(1) ld] by (auto intro: only_withdraws_same)
  next
    case False
    have "e' = e \<or> (\<exists>seg. e' = fst (containCorrupt f opts (b_ID b) (entryFromDecoded f (e_store e) seg b ts) e))"
    proof (cases "\<exists>rc seg. decodeSupersessionEnvelope (b_Envelope b) = Inr rc \<and> f_Decode f (b_Bytes b) = Ret seg")
      case True
      then obtain rc seg where d: "decodeSupersessionEnvelope (b_Envelope b) = Inr rc" "f_Decode f (b_Bytes b) = Ret seg" by blast
      obtain e1 r1 where c: "containCorrupt f opts (b_ID b) (entryFromDecoded f (e_store e) seg b ts) e = (e1, r1)" by fastforce
      have "e' = e1" using assms False d c by (cases r1) (auto simp: import_one_def)
      then show ?thesis using c by (metis fst_conv)
    next
      case nd: False
      then show ?thesis
        using assms by (cases "f_Decode f (b_Bytes b)") (auto simp: import_one_def split: sum.splits)
    qed
    then show ?thesis
      by (auto simp: only_withdraws_same containCorrupt_withdraws containCorrupt_spec(1,5))
  qed
  then show "only_withdraws opts e e'" "\<exists>lds. e_store e' = e_store e @ lds" "engine_ok f e \<Longrightarrow> engine_ok f e'" by auto
qed

lemma import_each_frame:
  assumes "import_each f opts ts bs e = (e', rs)"
  shows "only_withdraws opts e e' \<and> (\<exists>lds. e_store e' = e_store e @ lds) \<and> (engine_ok f e \<longrightarrow> engine_ok f e') \<and> length rs = length bs"
  using assms
proof (induction bs arbitrary: e rs)
  case (Cons b bs)
  obtain e1 r1 rs' where i: "import_one f opts ts b e = (e1, r1)" "import_each f opts ts bs e1 = (e', rs')" "rs = r1 # rs'"
    using Cons.prems by (auto split: prod.splits)
  show ?case using import_one_frame[OF i(1)] Cons.IH[OF i(2)] only_withdraws_trans[of opts e e1 e'] i(3) by auto
qed (simp add: only_withdraws_same)

section \<open>Properties\<close>



text \<open>
  C40: two consolidations that restore each other's content are both declined. A merge of segment
  \<open>A\<close> = [x, y] with y deleted publishes \<open>B\<close> = [x], superseding \<open>A\<close>. After y is added again
  in \<open>C\<close>, a merge of \<open>B\<close> and \<open>C\<close> writes [x, y], which is \<open>A\<close>'s content and so \<open>A\<close>'s id,
  superseding \<open>B\<close>. A store that holds both outputs (the second was written, the first not yet
  reclaimed) loads nothing: each names the other, each cohort is present, and both are declined.
\<close>

theorem mutual_supersession_declines_both:
  "let hA = contentHash (ids_encode [''x'', ''y'']); hB = contentHash (ids_encode [''x'']);
       e1 = Delete ''y'' (ids_engine [(hA, [''x'', ''y''])]);
       e2 = ids_engine [(hB, [''x'']), (''C'', [''y''])]
   in engine_ok ids_format e1 \<and> engine_ok ids_format e2 \<and>
      (\<exists>B A. snd (doMerge_build ids_format merge_opts (entries (e_set e1)) e1) = Ret (Some B) \<and> seg_ID B = hB \<and>
        snd (doMerge_build ids_format merge_opts (entries (e_set e2)) e2) = Ret (Some A) \<and> seg_ID A = hA \<and>
        held ''x'' A \<and> held ''y'' A \<and> declineSuperseded [A, B] = [])"
proof -
  let ?hA = "contentHash (ids_encode [''x'', ''y''])" and ?hB = "contentHash (ids_encode [''x''])"
  let ?b = "ids_engine [(?hA, [''x'', ''y''])]" let ?e1 = "Delete ''y'' ?b"
  let ?e2 = "ids_engine [(?hB, [''x'']), (''C'', [''y''])]"
  have ok: "engine_ok ids_format ?e1" "engine_ok ids_format ?e2" by (intro Delete_ok ids_engine_ok, auto)+
  have ents1: "entries (e_set ?e1) = [ids_entry ?hA 0 [''x'', ''y'']]" by simp
  have st1: "e_store ?b = [newLiveDocs 2]" by (simp add: ids_engine_def numeral_2_eq_2)
  have eo: "entryOf (e_set ?b) ''y'' = Some (ids_entry ?hA 0 [''x'', ''y''])"
    by (simp add: entryOf_def tailHolderOf_newest ids_engine_def Let_def newSegmentSet_def map_of_flatRoute flat_answer_def
        newest_Cons entryByID_def)
  have mA: "members (ids_entry ?hA 0 [''x'', ''y'']) = [(''x'', 0), (''y'', 1)]" by (simp add: ids_entry_def numeral_2_eq_2)
  have store1: "e_store ?e1 = kill_at [newLiveDocs 2] 0 1" by (simp add: Delete_store eo mA st1)
  have m1: "remdups (concat (map2 (\<lambda>s a. filter a s) (map payload (entries (e_set ?e1))) (map (accept_member (e_store ?e1)) (entries (e_set ?e1))))) = [''x'']"
    by (simp add: ents1 store1 residentMemberIn_def mA kill_at_def Live_Kill Live_new)
  have store2: "e_store ?e2 = [newLiveDocs 1, newLiveDocs 1]" by (simp add: ids_engine_def)
  have m2: "remdups (concat (map2 (\<lambda>s a. filter a s) (map payload (entries (e_set ?e2))) (map (accept_member (e_store ?e2)) (entries (e_set ?e2))))) = [''x'', ''y'']"
    by (simp add: store2 residentMemberIn_def Live_new ids_entry_def)
  have d: "ids_decode (ids_encode [''x'']) = Ret [''x'']" "ids_decode (ids_encode [''x'', ''y'']) = Ret [''x'', ''y'']" by (code_simp, code_simp)
  have s: "\<not> e_stopped ?e1" "\<not> e_stopped ?e2"
    by (auto simp: Delete_def signalMerge_def ids_engine_def New_def split: option.splits)
  note b1 = doMerge_build_ids[OF m1 d(1) s(1)] and b2 = doMerge_build_ids[OF m2 d(2) s(2)]
  define B where "B = stampSupersession (sortedSegmentIDs [?hA]) [?hB] (ids_merged (length (e_store ?e1)) [''x''])"
  define A where "A = stampSupersession (sortedSegmentIDs [?hB, ''C'']) [?hA] (ids_merged (length (e_store ?e2)) [''x'', ''y''])"
  have idB: "seg_ID B = ?hB" and idA: "seg_ID A = ?hA" by (simp_all add: A_def B_def ids_merged_def)
  have recB: "set (Superseded (sup_record B)) = {?hA}" "Cohort (sup_record B) = [?hB]"
    and recA: "set (Superseded (sup_record A)) = {?hB, ''C''}" "Cohort (sup_record A) = [?hA]"
    by (simp_all add: A_def B_def stampSupersession_def)
  have "honored [A, B] A" "honored [A, B] B"
    using recA recB idA idB unfolding honored_sets by auto
  then have "declineSuperseded [A, B] = []"
    using recA(1) recB(1) idA idB by (simp add: declineSuperseded_def)
  moreover have "held ''x'' A" "held ''y'' A" by (simp_all add: A_def ids_merged_def held_iff)
  moreover have "snd (doMerge_build ids_format merge_opts (entries (e_set ?e1)) ?e1) = Ret (Some B)"
    "snd (doMerge_build ids_format merge_opts (entries (e_set ?e2)) ?e2) = Ret (Some A)"
    unfolding b1 b2 by (simp_all add: A_def B_def)
  ultimately show ?thesis using ok idA idB unfolding Let_def by blast
qed

text \<open>A format whose encoding decodes to a segment with the same ids.\<close>

definition codec_ok :: "('q, 's, 'p, 'sc) SegmentFormat \<Rightarrow> 'p \<Rightarrow> bool" where
  "codec_ok f p \<longleftrightarrow> (\<exists>bs q. s_Encode f p = Ret bs \<and> f_Decode f bs = Ret q \<and> s_IDs f q = s_IDs f p)"

lemma export_entries_all:
  assumes "\<forall>en \<in> set ens. codec_ok f (payload en)"
  shows "\<exists>bs. export_entries f ens = Ret bs \<and> list_all2 (\<lambda>en b. \<exists>pay. s_Encode f (payload en) = Ret pay \<and>
    b = entry_blob f en (encodeSupersessionPrefix (sup_record en)) pay) ens bs"
  using assms
proof (induction ens)
  case (Cons en ens)
  then obtain bs where "export_entries f ens = Ret bs" "list_all2 (\<lambda>en b. \<exists>pay. s_Encode f (payload en) = Ret pay \<and>
    b = entry_blob f en (encodeSupersessionPrefix (sup_record en)) pay) ens bs" by auto
  moreover obtain pay where "s_Encode f (payload en) = Ret pay" using Cons.prems by (auto simp: codec_ok_def)
  ultimately show ?case by (simp add: blobParts_def)
qed simp

lemma list_all2_bex: "list_all2 (\<lambda>a b. P b = P a) xs ys \<Longrightarrow> (\<exists>b \<in> set ys. P b) = (\<exists>a \<in> set xs. P a)"
  by (induction rule: list_all2_induct) simp_all

text \<open>An exported blob decodes.\<close>

lemma import_one_exported:
  assumes "codec_ok f (payload en)" "s_Encode f (payload en) = Ret pay" "payload_ok f en"
    "record_fits (sup_record en) \<or> record_empty (sup_record en)"
  shows "\<exists>e' en'. import_one f opts ts (entry_blob f en (encodeSupersessionPrefix (sup_record en)) pay) e = (e', Ret en')"
proof -
  let ?b = "entry_blob f en (encodeSupersessionPrefix (sup_record en)) pay"
  obtain rc where rc: "decodeSupersessionEnvelope (b_Envelope ?b) = Inr rc"
    using envelope_roundtrip[OF assms(4)] by (auto simp: entry_blob_def)
  obtain q where q: "f_Decode f (b_Bytes ?b) = Ret q" "s_IDs f q = s_IDs f (payload en)"
    using assms(1,2) by (auto simp: codec_ok_def entry_blob_def)
  obtain ids where "s_IDs f q = Ret ids" using assms(3) q(2) by (auto simp: payload_ok_def)
  then show ?thesis using rc q by (simp add: import_one_def entryFromDecoded_def Let_def)
qed

lemma import_each_exported:
  assumes "list_all2 (\<lambda>en b. \<exists>pay. s_Encode f (payload en) = Ret pay \<and>
      b = entry_blob f en (encodeSupersessionPrefix (sup_record en)) pay) ens bs"
    "\<forall>en \<in> set ens. codec_ok f (payload en) \<and> payload_ok f en \<and> (record_fits (sup_record en) \<or> record_empty (sup_record en))"
  shows "\<exists>es. all_or_error (snd (import_each f opts ts bs e)) = Ret es \<and> first_crash (snd (import_each f opts ts bs e)) = None"
  using assms
proof (induction arbitrary: e rule: list_all2_induct)
  case (Cons en ens b bs)
  obtain e1 en1 where "import_one f opts ts b e = (e1, Ret en1)"
    using Cons import_one_exported[of f en _ opts ts e] by auto
  moreover obtain es where "all_or_error (snd (import_each f opts ts bs e1)) = Ret es"
    "first_crash (snd (import_each f opts ts bs e1)) = None"
    using Cons by (meson list.set_intros(2))
  ultimately show ?case by (simp add: split_beta)
qed simp



section \<open>Republishing payloads\<close>

text \<open>The decodes of a batch: what is pending and what is recorded.\<close>

definition recorded :: "('q, 's, 'p, 'sc) SegmentFormat \<Rightarrow> SegmentBlob \<Rightarrow> RemapResult" where
  "recorded f b = (case f_Decode f (b_Bytes b) of
       Fail err \<Rightarrow> \<lparr>rr_Outcome = RemapFailed, rr_Err = Some (Wrap ''remap segment'' err)\<rparr>
     | _ \<Rightarrow> \<lparr>rr_Outcome = RemapDeclined, rr_Err = None\<rparr>)"

definition pending_of :: "('q, 's, 'p, 'sc) SegmentFormat \<Rightarrow> SegmentBlob \<Rightarrow> (SegmentID \<times> 'p) option" where
  "pending_of f b = (case f_Decode f (b_Bytes b) of Ret p \<Rightarrow> Some (b_ID b, p) | _ \<Rightarrow> None)"

definition decodes_or_fails :: "('q, 's, 'p, 'sc) SegmentFormat \<Rightarrow> SegmentBlob \<Rightarrow> bool" where
  "decodes_or_fails f b = (case f_Decode f (b_Bytes b) of Ret _ \<Rightarrow> True | Fail _ \<Rightarrow> True | _ \<Rightarrow> False)"

lemma remap_decode_eq:
  "list_all (decodes_or_fails f) bs \<Longrightarrow> remap_decode f bs ocs =
     Ret (foldl (\<lambda>m b. AList.update (b_ID b) (recorded f b) m) ocs bs, List.map_filter (pending_of f) bs)"
  by (induction bs arbitrary: ocs)
    (auto simp: decodes_or_fails_def recorded_def pending_of_def map_filter_simps split: outcome.splits)

lemma pending_fst: "set (map fst (List.map_filter (pending_of f) bs)) \<subseteq> b_ID ` set bs"
  by (induction bs) (auto simp: map_filter_simps pending_of_def split: outcome.splits)

lemma pending_distinct: "distinct (map b_ID bs) \<Longrightarrow> distinct (map fst (List.map_filter (pending_of f) bs))"
proof (induction bs)
  case (Cons b bs)
  then show ?case using pending_fst[of f bs]
    by (auto simp: map_filter_simps pending_of_def[of f b] split: outcome.splits)
qed (simp add: map_filter_simps)

lemma pending_lookup:
  "distinct (map b_ID bs) \<Longrightarrow> map_of (List.map_filter (pending_of f) bs) sid =
     (case map_of (map (\<lambda>b. (b_ID b, f_Decode f (b_Bytes b))) bs) sid of Some (Ret p) \<Rightarrow> Some p | _ \<Rightarrow> None)"
proof (induction bs)
  case (Cons b bs)
  have "map_of (List.map_filter (pending_of f) bs) (b_ID b) = None"
    using Cons.prems pending_fst[of f bs] by (auto simp: map_of_eq_None_iff)
  moreover have "map_of (map (\<lambda>b. (b_ID b, f_Decode f (b_Bytes b))) bs) (b_ID b) = None"
    using Cons.prems by (auto simp: map_of_eq_None_iff)
  ultimately show ?case using Cons by (cases "f_Decode f (b_Bytes b)") (simp_all add: map_filter_simps pending_of_def[of f b])
qed (simp add: map_filter_simps)

lemma fold_recorded_lookup:
  "distinct (map b_ID bs) \<Longrightarrow> map_of (foldl (\<lambda>m b. AList.update (b_ID b) (g b) m) ocs bs) sid =
     (case map_of (map (\<lambda>b. (b_ID b, g b)) bs) sid of Some r \<Rightarrow> Some r | None \<Rightarrow> map_of ocs sid)"
proof (induction bs arbitrary: ocs)
  case (Cons b bs)
  have "map_of (map (\<lambda>b. (b_ID b, g b)) bs) (b_ID b) = None"
    using Cons.prems by (auto simp: map_of_eq_None_iff)
  then show ?case using Cons by (auto simp: update_conv' split: option.split)
qed simp

text \<open>The replacements are keyed by position: each pending decode of a resident segment, nothing else.\<close>

lemma remap_replacements_spec:
  assumes "distinct (map seg_ID (entries s))" "distinct (map fst pend)"
  shows "gomap_ok (remap_replacements s pend)"
    "map_of (remap_replacements s pend) i =
       (if i < length (entries s)
        then map_option (remapped (entries s ! i)) (map_of pend (seg_ID (entries s ! i))) else None)"
proof -
  let ?im = "index_map (map seg_ID (entries s))"
  have at: "map_of ?im sid = Some idx \<longleftrightarrow> 0 \<le> idx \<and> nat idx < length (entries s) \<and> seg_ID (entries s ! nat idx) = sid" for sid idx
    using assms(1) by (auto simp: index_map_nth distinct_conv_nth)
  have "gomap_ok (foldl (\<lambda>m (sid, seg). case map_of ?im sid of None \<Rightarrow> m
          | Some idx \<Rightarrow> AList.update (nat idx) (remapped (entries s ! nat idx) seg) m) m pend)" if "gomap_ok m" for m
    using that by (induction pend arbitrary: m) (auto split: option.split)
  then show "gomap_ok (remap_replacements s pend)" by (simp add: remap_replacements_def Let_def)
  have "map_of (foldl (\<lambda>m (sid, seg). case map_of ?im sid of None \<Rightarrow> m
          | Some idx \<Rightarrow> AList.update (nat idx) (remapped (entries s ! nat idx) seg) m) m pend) i =
      (case (if i < length (entries s) then map_option (remapped (entries s ! i)) (map_of pend (seg_ID (entries s ! i))) else None) of
         Some en \<Rightarrow> Some en | None \<Rightarrow> map_of m i)" for m
    using assms(2)
  proof (induction pend arbitrary: m)
    case (Cons a pend)
    obtain sid seg where a: "a = (sid, seg)" by fastforce
    have dis: "map_of pend sid = None" using Cons.prems by (simp add: a map_of_eq_None_iff)
    show ?case
    proof (cases "map_of ?im sid")
      case None
      then have "\<not> (i < length (entries s) \<and> seg_ID (entries s ! i) = sid)"
        using at[of sid "int i"] by auto
      then show ?thesis using Cons None by (auto simp: a)
    next
      case (Some idx)
      then have idx: "nat idx < length (entries s)" "seg_ID (entries s ! nat idx) = sid" using at by blast+
      show ?thesis
      proof (cases "i = nat idx")
        case True
        then show ?thesis using Cons Some idx dis by (simp add: a update_conv')
      next
        case False
        then have "i < length (entries s) \<Longrightarrow> seg_ID (entries s ! i) \<noteq> sid"
          using idx assms(1) by (auto simp: distinct_conv_nth)
        then show ?thesis using Cons Some False by (simp add: a update_conv' split: option.split)
      qed
    qed
  qed simp
  from this[of "[]"] show "map_of (remap_replacements s pend) i = (if i < length (entries s)
        then map_option (remapped (entries s ! i)) (map_of pend (seg_ID (entries s ! i))) else None)"
    by (simp add: remap_replacements_def Let_def split: option.split)
qed

lemma fold_update_nth:
  assumes "gomap_ok repl"
  shows "length (foldl (\<lambda>es (idx, entry). es[idx := entry]) es repl) = length es"
    "i < length es \<Longrightarrow> foldl (\<lambda>es (idx, entry). es[idx := entry]) es repl ! i =
       (case map_of repl i of Some en \<Rightarrow> en | None \<Rightarrow> es ! i)"
  using assms
proof (induction repl arbitrary: es)
  case (Cons r repl)
  obtain k v where r: "r = (k, v)" by fastforce
  { case 1 then show ?case using Cons by (simp add: r gomap_ok_def)
  next
    case 2
    have "map_of repl k = None" using 2(2) by (simp add: r gomap_ok_def map_of_eq_None_iff)
    then show ?case using Cons.IH(2)[of "es[k := v]"] 2 by (auto simp: r gomap_ok_def split: option.split) }
qed simp_all

text \<open>The entry a batch leaves in place of a resident one.\<close>

definition remap_outcome :: "('q, 's, 'p, 'sc) SegmentFormat \<Rightarrow> SegmentBlob list \<Rightarrow> 'p segmentEntry \<Rightarrow> 'p segmentEntry" where
  "remap_outcome f blobs en =
     (case map_of (map (\<lambda>b. (b_ID b, f_Decode f (b_Bytes b))) blobs) (seg_ID en) of
        Some (Ret p) \<Rightarrow> en\<lparr>payload := p, heapPayload := 0\<rparr>
      | _ \<Rightarrow> en)"


lemma remap_outcome_same [simp]: "same_seg (remap_outcome f blobs en) en" "sup_record (remap_outcome f blobs en) = sup_record en"
  by (simp_all add: remap_outcome_def same_seg_def split: option.split outcome.split)

lemma withReplacedPayloads_outcome:
  assumes "distinct (map seg_ID (entries s))" "distinct (map b_ID blobs)"
  shows "entries (withReplacedPayloads f s (remap_replacements s (List.map_filter (pending_of f) blobs))) =
    map (remap_outcome f blobs) (entries s)"
proof (rule nth_equalityI)
  note spec = remap_replacements_spec[OF assms(1) pending_distinct[OF assms(2), of f]]
  show "length (entries (withReplacedPayloads f s (remap_replacements s (List.map_filter (pending_of f) blobs)))) =
      length (map (remap_outcome f blobs) (entries s))"
    by (simp add: withReplacedPayloads_def Let_def fold_update_nth(1)[OF spec(1)])
  show "entries (withReplacedPayloads f s (remap_replacements s (List.map_filter (pending_of f) blobs))) ! i =
      map (remap_outcome f blobs) (entries s) ! i"
    if "i < length (entries (withReplacedPayloads f s (remap_replacements s (List.map_filter (pending_of f) blobs))))" for i
    using that by (simp add: withReplacedPayloads_def Let_def fold_update_nth[OF spec(1)] spec(2) pending_lookup[OF assms(2)]
        remap_outcome_def remapped_def split: option.split outcome.split)
qed

lemma remap_replacements_ok:
  assumes "distinct (map seg_ID (entries s))" "distinct (map fst pend)"
  shows "remap_ok (entries s) (remap_replacements s pend)"
proof -
  note spec = remap_replacements_spec[OF assms]
  have look: "map_of (remap_replacements s pend) i = Some en" if "(i, en) \<in> set (remap_replacements s pend)" for i en
    using that spec(1) by (simp add: gomap_ok_def)
  have "i < length (entries s) \<and> same_seg en (entries s ! i)" if a: "(i, en) \<in> set (remap_replacements s pend)" for i en
    using look[OF a] by (auto simp: spec(2) remapped_def same_seg_def split: if_splits)
  then show ?thesis unfolding remap_ok_def by auto
qed

lemma remap_replacements_none:
  fixes s :: "('s, 'p) segmentSet" and f :: "('q, 's, 'p, 'sc) SegmentFormat"
  assumes "distinct (map seg_ID (entries s))" "distinct (map b_ID blobs)" "remap_replacements s (List.map_filter (pending_of f) blobs) = []"
  shows "map (remap_outcome f blobs) (entries s) = entries s"
  using withReplacedPayloads_outcome[OF assms(1,2), of f] assms(3) by (simp add: withReplacedPayloads_def Let_def)

text \<open>What a batch reports for one blob.\<close>

definition remap_report :: "('q, 's, 'p, 'sc) SegmentFormat \<Rightarrow> ('s, 'p) SegmentedIndex \<Rightarrow> SegmentBlob \<Rightarrow> RemapResult" where
  "remap_report f e b = (case f_Decode f (b_Bytes b) of
       Fail err \<Rightarrow> \<lparr>rr_Outcome = RemapFailed, rr_Err = Some (Wrap ''remap segment'' err)\<rparr>
     | _ \<Rightarrow> \<lparr>rr_Outcome = (if b_ID b \<in> seg_ID ` set (entries (e_set e)) then RemapRepublished else RemapDeclined), rr_Err = None\<rparr>)"

lemma fold_republished:
  "map_of (foldl (\<lambda>m (sid, _). if sid \<in> R then AList.update sid r m else m) ocs pend) sid =
     (if sid \<in> R \<and> sid \<in> fst ` set pend then Some r else map_of ocs sid)"
  by (induction pend arbitrary: ocs) (auto simp: update_conv')

lemma reports_lookup:
  assumes "distinct (map b_ID blobs)" "b \<in> set blobs"
  shows "map_of (foldl (\<lambda>m b. AList.update (b_ID b) (g b) m) [] blobs) (b_ID b) = Some (g b)"
proof -
  have "map_of (map (\<lambda>b. (b_ID b, g b)) blobs) (b_ID b) = Some (g b)"
    using assms by (intro map_of_is_SomeI) (auto simp: comp_def)
  then show ?thesis by (simp add: fold_recorded_lookup[OF assms(1)])
qed

lemma pending_mem:
  "(b_ID b \<in> fst ` set (List.map_filter (pending_of f) blobs)) = (\<exists>p. f_Decode f (b_Bytes b) = Ret p)"
  if "distinct (map b_ID blobs)" "b \<in> set blobs"
proof -
  have "map_of (map (\<lambda>b. (b_ID b, f_Decode f (b_Bytes b))) blobs) (b_ID b) = Some (f_Decode f (b_Bytes b))"
    using that by (intro map_of_is_SomeI) (auto simp: comp_def)
  then show ?thesis using pending_lookup[OF that(1), of f "b_ID b"]
    by (cases "f_Decode f (b_Bytes b)") (auto simp: map_of_eq_None_iff dest: map_of_SomeD image_eqI[rotated] intro: rev_image_eqI)
qed


lemma remap_report_eq:
  assumes "distinct (map b_ID blobs)" "b \<in> set blobs" "list_all (decodes_or_fails f) blobs"
  shows "remap_report f e b = (if b_ID b \<in> seg_ID ` set (entries (e_set e)) \<and> b_ID b \<in> fst ` set (List.map_filter (pending_of f) blobs)
     then \<lparr>rr_Outcome = RemapRepublished, rr_Err = None\<rparr> else recorded f b)"
proof -
  have "decodes_or_fails f b" using assms(2,3) by (simp add: list_all_iff)
  then show ?thesis unfolding pending_mem[OF assms(1,2)]
    by (auto simp: remap_report_def recorded_def decodes_or_fails_def split: outcome.splits)
qed

lemma same_route:
  assumes "set_ok t" "set_ok s" "list_all2 same_seg (entries t) (entries s)"
  shows "routeOf t x = routeOf s x"
  using newest_same_seg[OF assms(3), of x] assms(1,2) by (simp add: routeOf_flat flat_answer_def same_seg_map_ID)

lemma remap_engine_ok_aux:
  assumes "list_all2 same_seg es' es"
  shows "map seg_ID es' = map seg_ID es" "map live es' = map live es"
    "(\<forall>en \<in> set es'. entry_live_ok store en) = (\<forall>en \<in> set es. entry_live_ok store en)"
  using assms by (induction rule: list_all2_induct) (auto simp: same_seg_def entry_live_ok_def)

lemma same_live_in: "live_in store (remap_outcome f blobs en) x = live_in store en x"
  by (simp add: remap_outcome_def residentMemberIn_def split: option.split outcome.split)

text \<open>What a batch does, with what it leaves alone of the snapshot.\<close>

lemma RemapResidentBatch_spec:
  assumes ok: "engine_ok f e" and d: "distinct (map b_ID blobs)" and dec: "list_all (decodes_or_fails f) blobs"
  shows "\<exists>e' ocs. RemapResidentBatch f blobs e = (e', Ret ocs) \<and> engine_ok f e' \<and> e_store e' = e_store e \<and>
    base (e_set e') = base (e_set e) \<and> dropped (e_set e') = dropped (e_set e) \<and> staleIndex (e_set e') = staleIndex (e_set e) \<and>
    entries (e_set e') = map (remap_outcome f blobs) (entries (e_set e)) \<and>
    (\<forall>x. routeOf (e_set e') x = routeOf (e_set e) x \<and> searchable e' x = searchable e x) \<and>
    (\<forall>b \<in> set blobs. map_of ocs (b_ID b) = Some (remap_report f e b))"
proof -
  let ?pend = "List.map_filter (pending_of f) blobs" let ?s = "e_set e" let ?repl = "remap_replacements ?s ?pend"
  let ?ocs = "foldl (\<lambda>m b. AList.update (b_ID b) (recorded f b) m) [] blobs"
  note ids = engine_okD(3)[OF ok] and pd = pending_distinct[OF d, of f]
  note out = withReplacedPayloads_outcome[OF ids d, of f] and rok = remap_replacements_ok[OF ids pd]
  have rd: "remap_decode f blobs [] = Ret (?ocs, ?pend)" by (rule remap_decode_eq[OF dec])
  show ?thesis
  proof (cases "?repl = []")
    case True
    have noneres: "seg_ID en \<notin> fst ` set ?pend" if a: "en \<in> set (entries ?s)" for en
    proof -
      obtain i where "i < length (entries ?s)" "entries ?s ! i = en" using a by (auto simp: in_set_conv_nth)
      then show ?thesis using remap_replacements_spec(2)[OF ids pd, of i] True by (auto simp: map_of_eq_None_iff)
    qed
    have "map_of ?ocs (b_ID b) = Some (remap_report f e b)" if "b \<in> set blobs" for b
    proof -
      have "\<not> (b_ID b \<in> seg_ID ` set (entries ?s) \<and> b_ID b \<in> fst ` set ?pend)"
        by (rule notI, elim conjE, erule imageE[where f = seg_ID]) (drule noneres, simp only: simp_thms)
      then show ?thesis unfolding remap_report_eq[OF d that dec] using reports_lookup[OF d that, of "recorded f"]
        by (simp only: if_False simp_thms)
    qed
    moreover have "RemapResidentBatch f blobs e = (e, Ret ?ocs)"
      using rd True by (cases "blobs = []") (simp_all add: RemapResidentBatch_def Let_def)
    ultimately show ?thesis using ok remap_replacements_none[OF ids d True] by auto
  next
    case False
    define e' where "e' = e\<lparr>e_set := withReplacedPayloads f ?s ?repl\<rparr>"
    define ocs where "ocs = foldl (\<lambda>m (sid, _). if sid \<in> seg_ID ` set (entries ?s)
        then AList.update sid \<lparr>rr_Outcome = RemapRepublished, rr_Err = None\<rparr> m else m) ?ocs ?pend"
    have ne: "?pend \<noteq> []" "blobs \<noteq> []" using False by (auto simp: remap_replacements_def map_filter_simps)
    then have run: "RemapResidentBatch f blobs e = (e', Ret ocs)"
      using rd False by (simp add: RemapResidentBatch_def Let_def e'_def ocs_def)
    have ents: "entries (e_set e') = map (remap_outcome f blobs) (entries ?s)" using out by (simp add: e'_def)
    note all2 = remap_list_all2[OF rok, of f]
    have same: "map (\<lambda>en. (meta en, members en, live en)) (entries (e_set e')) =
        map (\<lambda>en. (meta en, members en, live en)) (entries ?s)" using same_seg_map[OF all2] by (simp add: e'_def)
    have ok': "engine_ok f e'" using ok set_ok_withReplacedPayloads[OF engine_okD(1)[OF ok] rok, of f]
      unfolding engine_ok_def by (simp add: e'_def remap_engine_ok_aux[OF all2])
    moreover have "routeOf (e_set e') x = routeOf ?s x" for x
      using same_route[OF engine_okD(1)[OF ok'] engine_okD(1)[OF ok], of x] all2 by (simp add: e'_def)
    moreover have "searchable e' x = searchable e x" for x
      by (simp add: searchable_def ents same_live_in) (simp add: e'_def)
    moreover have "map_of ocs (b_ID b) = Some (remap_report f e b)" if "b \<in> set blobs" for b
      unfolding remap_report_eq[OF d that dec] ocs_def fold_republished using reports_lookup[OF d that, of "recorded f"] by simp
    moreover have "base (e_set e') = base ?s" "dropped (e_set e') = dropped ?s" "staleIndex (e_set e') = staleIndex ?s"
      by (simp_all add: e'_def withReplacedPayloads_def Let_def)
    ultimately show ?thesis using run ents by (auto simp: e'_def)
  qed
qed


text \<open>
  C24: republishing resident payloads changes nothing but the payloads, and says what it did. For a
  batch of blobs with distinct ids, each decoding or failing to, the call returns; every resident
  entry named by a decoded blob has that payload and no heap bytes and keeps its id, members,
  liveness and supersession record, every other entry is untouched, so the invariant, the route
  of every id and what is searchable are as before; each blob is reported republished exactly when
  it decoded and its segment is resident, declined when it decoded and is not, failed with the
  decoder's error otherwise.
\<close>

theorem RemapResidentBatch_keeps_liveness:
  assumes ok: "engine_ok f e" and d: "distinct (map b_ID blobs)" and dec: "list_all (decodes_or_fails f) blobs"
  shows "\<exists>e' ocs. RemapResidentBatch f blobs e = (e', Ret ocs) \<and> engine_ok f e' \<and> e_store e' = e_store e \<and>
    entries (e_set e') = map (remap_outcome f blobs) (entries (e_set e)) \<and>
    (\<forall>x. routeOf (e_set e') x = routeOf (e_set e) x \<and> searchable e' x = searchable e x) \<and>
    (\<forall>b \<in> set blobs. map_of ocs (b_ID b) = Some (remap_report f e b))"
  using RemapResidentBatch_spec[OF assms] by blast

lemma RemapResidentBatch_keeps_liveness_witness:
  "\<exists>blobs e' ocs. RemapResidentBatch ids_format blobs (ids_engine [(''A'', [''x'']), (''B'', [''y''])]) = (e', Ret ocs) \<and>
     searchable e' ''y'' \<and> map_option rr_Outcome (map_of ocs ''A'') = Some RemapRepublished \<and>
     map_option rr_Outcome (map_of ocs ''Z'') = Some RemapDeclined"
proof -
  let ?e = "ids_engine [(''A'', [''x'']), (''B'', [''y''])]"
  let ?b = "\<lambda>sid. \<lparr>b_ID = sid, b_Format = ''ids'', b_Generation = 0, b_DocCount = 1, b_Bytes = ids_encode [''x''], b_Envelope = [],
    b_Mapped = True, b_Borrowed = False\<rparr>"
  have ok: "engine_ok ids_format ?e" by (rule ids_engine_ok) auto
  have x: "ids_decode (ids_encode [''x'']) = Ret [''x'']" by code_simp
  then have d: "list_all (decodes_or_fails ids_format) [?b ''A'', ?b ''Z'']" by (simp add: decodes_or_fails_def ids_format_def)
  have y: "searchable ?e ''y''"
    by (simp add: searchable_def residentMemberIn_def ids_entry_def ids_engine_def Live_new nth_Cons')
  show ?thesis
    using RemapResidentBatch_keeps_liveness[OF ok _ d] y x
    by (auto simp: remap_report_def ids_format_def intro!: exI[of _ "[?b ''A'', ?b ''Z'']"])
qed

end
