(* ===== verification/Runs.thy ===== *)
theory Runs
  imports Distribution
begin

text \<open>
  Runs of the engine: the operations of the other theories interleaved in any order.

  A consolidation reads a snapshot, computes, and swaps later, while writers, readers and other
  consolidations go on; what it has computed and not yet published is part of the state of a run
  (\<open>pending\<close>). Every other operation publishes by one swap or flips bits in place, and is
  one step. Shown: the engine's invariant holds in every state of every run whose swaps
  publish ids that are new to the set they swap into. Where a swap republishes an id, the
  invariant can be lost, which is the subject of \<open>SegmentReplace\<close> and \<open>Membership\<close>.
\<close>

section \<open>What every operation owes\<close>

text \<open>
  The engine stays well-formed; bitsets already in use keep their shape, so that an entry some
  consolidation has built and not yet published stays good; and an entry that becomes resident has a
  bitset of its own.
\<close>

definition keeps :: "('q, 's, 'p, 'sc) SegmentFormat \<Rightarrow> ('s, 'p) SegmentedIndex \<Rightarrow> ('s, 'p) SegmentedIndex \<Rightarrow> bool" where
  "keeps f e e' \<longleftrightarrow> (engine_ok f e \<longrightarrow> engine_ok f e' \<and> length (e_store e) \<le> length (e_store e') \<and>
     (\<forall>en :: 'p segmentEntry. entry_live_ok (e_store e) en \<longrightarrow> entry_live_ok (e_store e') en) \<and>
     (\<forall>en \<in> set (entries (e_set e')). live en \<in> live ` set (entries (e_set e)) \<or> length (e_store e) \<le> live en))"

text \<open>The entries an operation has built: good, with new bitsets, one each.\<close>

definition made :: "('s, 'p) SegmentedIndex \<Rightarrow> ('s, 'p) SegmentedIndex \<Rightarrow> 'p segmentEntry list \<Rightarrow> bool" where
  "made e e' ens \<longleftrightarrow> distinct (map live ens) \<and>
     (\<forall>en \<in> set ens. length (e_store e) \<le> live en \<and> entry_live_ok (e_store e') en \<and> gomap_ok (members en))"

lemma keepsI:
  assumes "engine_ok f e \<Longrightarrow> engine_ok f e'" "length (e_store e) \<le> length (e_store e')"
    "\<And>en :: 'p segmentEntry. entry_live_ok (e_store e) en \<Longrightarrow> entry_live_ok (e_store e') en"
    "\<And>en. en \<in> set (entries (e_set e')) \<Longrightarrow> live en \<in> live ` set (entries (e_set e)) \<or> length (e_store e) \<le> live en"
  shows "keeps f (e :: ('s, 'p) SegmentedIndex) e'"
  using assms unfolding keeps_def by blast

lemma keeps_trans:
  assumes "keeps f e1 e2" "keeps f e2 e3" shows "keeps f e1 e3"
  unfolding keeps_def
proof (intro impI conjI allI ballI)
  assume ok: "engine_ok f e1"
  have 1: "engine_ok f e2" "length (e_store e1) \<le> length (e_store e2)" using assms(1) ok by (auto simp: keeps_def)
  show "engine_ok f e3" "length (e_store e1) \<le> length (e_store e3)" using assms(2) 1 by (auto simp: keeps_def)
  show "entry_live_ok (e_store e3) en" if "entry_live_ok (e_store e1) en" for en :: "'c segmentEntry"
    using assms ok 1 that unfolding keeps_def by blast
  show "live en \<in> live ` set (entries (e_set e1)) \<or> length (e_store e1) \<le> live en" if m: "en \<in> set (entries (e_set e3))" for en
  proof -
    have "live en \<in> live ` set (entries (e_set e2)) \<or> length (e_store e2) \<le> live en"
      using assms(2) 1(1) m unfolding keeps_def by blast
    then show ?thesis
    proof
      assume "live en \<in> live ` set (entries (e_set e2))"
      then obtain en' where "en' \<in> set (entries (e_set e2))" "live en' = live en" by auto
      moreover have "live en' \<in> live ` set (entries (e_set e1)) \<or> length (e_store e1) \<le> live en'"
        using assms(1) ok calculation(1) unfolding keeps_def by blast
      ultimately show ?thesis by simp
    qed (use 1(2) in simp)
  qed
qed

lemma keeps_append:
  assumes "engine_ok f e \<Longrightarrow> engine_ok f e'" "e_store e' = e_store e @ lds" "set (entries (e_set e')) \<subseteq> set (entries (e_set e))"
  shows "keeps f e e'"
  by (rule keepsI) (use assms in \<open>auto simp: entry_live_ok_append\<close>)

lemma keeps_same:
  assumes "e_set e' = e_set e" "e_store e' = e_store e @ lds" shows "keeps f e e'"
  by (rule keeps_append[OF _ assms(2)]) (use engine_ok_store[OF _ assms] assms(1) in auto)

lemma keeps_refl: "e_set e' = e_set e \<Longrightarrow> e_store e' = e_store e \<Longrightarrow> keeps f e e'"
  by (rule keeps_same[of _ _ "[]"]) auto

lemma keeps_bits:
  assumes "e_set e' = e_set e" "length (e_store e') = length (e_store e)"
    "\<And>en :: 'p segmentEntry. entry_live_ok (e_store e) en \<Longrightarrow> entry_live_ok (e_store e') en"
  shows "keeps f (e :: ('s, 'p) SegmentedIndex) e'"
  by (rule keepsI) (use assms in \<open>auto simp: engine_ok_def\<close>)

lemma keeps_withdraws:
  assumes "only_withdraws opts e e'" "\<exists>lds. e_store e' = e_store e @ lds" "engine_ok f e \<Longrightarrow> engine_ok f e'"
  shows "keeps f e e'"
  using assms by (auto simp: only_withdraws_def intro: keeps_append)

lemma keeps_made:
  assumes "keeps f e1 e2" "engine_ok f e1" "made e0 e1 ens" shows "made e0 e2 ens"
  using assms unfolding made_def keeps_def by blast

section \<open>Writers and readers\<close>

lemma keeps_seal:
  assumes "stats_agree f" "seal f opts docs e = (e', r)"
  shows "keeps f e e'"
proof (cases "\<exists>sid created. r = Ret (sid, created)")
  case True
  then obtain sid created where r: "r = Ret (sid, created)" by blast
  show ?thesis
  proof (cases "engine_ok f e")
    case ok: True
    obtain en e1 where s: "build_entry f opts (dedupeDocsByID docs) e = (e1, Ret en)" "engine_ok f e'" "e_store e' = e_store e1"
      "entries (e_set e') = (if created then entries (e_set e) @ [en] else entries (e_set e))"
      using ok assms(1) assms(2)[unfolded r] by (rule seal_Ret) blast
    note B = build_entry_Ret[OF s(1)]
    obtain lds where "e_store e' = e_store e @ lds" using B(1) s(3) by auto
    then show ?thesis using s(2,4) B(2) by (intro keepsI) (auto simp: entry_live_ok_append split: if_splits)
  qed (simp add: keeps_def)
next
  case False
  then have "\<And>a. r \<noteq> Ret a" by auto
  then show ?thesis using seal_error[OF assms(2)] by (intro keeps_refl) auto
qed

lemma keeps_active: "keeps f (e\<lparr>e_active := a\<rparr>) e' \<Longrightarrow> keeps f e e'"
  by (rule keeps_trans[OF keeps_refl]) auto

lemma keeps_Add: "stats_agree f \<Longrightarrow> Add f opts docs e = (e', r) \<Longrightarrow> keeps f e e'"
  by (auto simp: Add_def Let_def split: if_splits prod.splits intro: keeps_refl keeps_active keeps_seal)

lemma keeps_Flush: "stats_agree f \<Longrightarrow> Flush f opts e = (e', r) \<Longrightarrow> keeps f e e'"
  by (auto simp: Flush_def Let_def split: if_splits prod.splits intro: keeps_refl keeps_active keeps_seal)

lemma kill_at_keeps: "length (kill_at store a i) = length store" "length (revive_at store a i) = length store"
  by (simp_all add: kill_at_def revive_at_def)

lemma keeps_Delete: "keeps f e (Delete x e)"
  by (rule keeps_bits) (auto simp: Delete_store kill_at_keeps entry_live_ok_kill split: option.splits)

lemma killSuperseded_length: "length (killSuperseded s xs store) = length store"
  by (induction xs arbitrary: store) (auto simp: kill_at_keeps split: option.splits)

lemma keeps_kills: "keeps f e (e\<lparr>e_store := killSuperseded (e_set e) xs (e_store e)\<rparr>)"
  by (rule keeps_bits) (auto simp: killSuperseded_length killSuperseded_spec)

lemma revive_docs_keeps:
  "length (revive_docs a ds store) = length store \<and> (entry_live_ok store en \<longrightarrow> entry_live_ok (revive_docs a ds store) en)"
  by (induction ds arbitrary: store) (auto simp: kill_at_keeps entry_live_ok_revive split: option.splits)

lemma kill_victims_keeps:
  "length (kill_victims sid vs store) = length store \<and> (entry_live_ok store en \<longrightarrow> entry_live_ok (kill_victims sid vs store) en)"
  by (induction vs arbitrary: store) (auto simp: kill_at_keeps entry_live_ok_kill)

lemma keeps_AddSealAndSupersede:
  fixes e :: "('s, 'p) SegmentedIndex"
  assumes "stats_agree f" "AddSealAndSupersede f opts docs e = (e', r)"
  shows "keeps f e e'"
proof (cases "docs = []")
  case False
  obtain e1 r1 where s: "seal f opts (e_active e @ docs) (e\<lparr>e_active := []\<rparr>) = (e1, r1)" by fastforce
  have 1: "keeps f e e1" by (rule keeps_active[OF keeps_seal[OF assms(1) s]])
  have "keeps f e1 e'"
  proof (cases "e' = e1")
    case ne: False
    then have "\<exists>(a :: 'p segmentEntry) sid. e' = e1\<lparr>e_store := kill_victims sid (victims_of (e_set e) docs) (revive_docs a docs (e_store e1))\<rparr>"
      using assms(2) False s by (auto simp: AddSealAndSupersede_def Let_def split: outcome.splits option.splits) blast
    then obtain a :: "'p segmentEntry" and sid where "e' = e1\<lparr>e_store := kill_victims sid (victims_of (e_set e) docs) (revive_docs a docs (e_store e1))\<rparr>" by blast
    then show ?thesis by (intro keeps_bits) (auto simp: kill_victims_keeps revive_docs_keeps)
  qed (simp add: keeps_refl)
  with 1 show ?thesis by (rule keeps_trans)
qed (use assms in \<open>auto simp: AddSealAndSupersede_def intro: keeps_refl\<close>)

lemma keeps_contain: "keeps f e (fst (containCorrupt f opts sid r e))"
  by (rule keeps_withdraws[OF containCorrupt_withdraws]) (simp_all add: containCorrupt_spec)

lemma keeps_report: "keeps f e (fst (reportCorruptFrom f opts err e))"
proof (rule keeps_withdraws[OF reportCorruptFrom_withdraws])
  have "e_store (reportCorrupt f opts ce e) = e_store e" for ce
    by (cases ce) (auto simp: reportCorrupt_def Let_def WithdrawSegment_def split: option.splits)
  then show "\<exists>lds. e_store (fst (reportCorruptFrom f opts err e)) = e_store e @ lds"
    by (simp add: reportCorruptFrom_def split: option.split)
qed (simp add: reportCorruptFrom_ok)

lemma keeps_search_entries: "search_entries f opts st q k ac es e = (e', r) \<Longrightarrow> keeps f e e'"
proof (induction es arbitrary: e e' r)
  case (Cons en es)
  let ?c = "containCorrupt f opts (seg_ID en) (s_Search f (payload en) q st k (accept_live (e_store e) en ac)) e"
  have "e' = fst ?c \<or> (\<exists>r'. search_entries f opts st q k ac es (fst ?c) = (e', r'))"
    using Cons.prems by (auto simp: Let_def split: prod.splits outcome.splits)
  then show ?case using Cons.IH[of "fst ?c"] keeps_contain[of f e opts] keeps_trans by blast
qed (simp add: keeps_refl)

lemma keeps_SearchAccepting: "SearchAccepting f opts q k ac e = (e', r) \<Longrightarrow> keeps f e e'"
  by (auto simp: SearchAccepting_def Let_def split: if_splits prod.splits intro: keeps_refl keeps_search_entries)

section \<open>Consolidations, computed\<close>

lemma mergeEntry_made:
  assumes "mergeEntry f opts segs acc cs e = (e', Ret en)" shows "made e e' [en]"
proof -
  obtain seg where "newEntry f (e_store e) seg [] payloadMapped = Ret (en, e_store e')"
    using assms by (rule mergeEntry_Ret) blast
  from newEntry_live[OF this] show ?thesis by (simp add: made_def)
qed

lemma keeps_mergeEntry: "mergeEntry f opts segs acc cs e = (e', r) \<Longrightarrow> keeps f e e'"
  using mergeEntry_frame[of f opts segs acc cs e e' r] by (intro keeps_withdraws) auto

lemma made_stamp: "made e e' ens \<Longrightarrow> made e e' (map (stampSupersession R C) ens)"
  by (simp add: made_def comp_def)

lemma made_from: "keeps f e0 e \<Longrightarrow> engine_ok f e0 \<Longrightarrow> made e e' ens \<Longrightarrow> made e0 e' ens"
  by (fastforce simp: made_def keeps_def)

lemma keeps_doMerge_build:
  assumes "doMerge_build f opts chosen e = (e', r)"
  shows "keeps f e e'" "r = Ret (Some en) \<Longrightarrow> made e e' [en]"
proof -
  let ?R = "sortedSegmentIDs (map seg_ID chosen)"
  obtain e1 r1 where m: "mergeEntry f opts (map payload chosen) (map (accept_member (e_store e)) chosen) ?R e = (e1, r1)" by fastforce
  have k: "keeps f e e1" by (rule keeps_mergeEntry[OF m])
  have "e' = e \<or> e' = e1 \<or> (\<exists>err. e' = fst (reportCorruptFrom f opts err e1))"
    using assms m by (cases r1) (auto simp: doMerge_build_def Let_def split: if_splits)
  then show "keeps f e e'" using k keeps_report[of f e1 opts] keeps_trans[OF k] keeps_refl[of e e f] by auto
  assume "r = Ret (Some en)"
  then obtain en0 where "mergeEntry f opts (map payload chosen) (map (accept_member (e_store e)) chosen) ?R e = (e', Ret en0)"
    "en = stampSupersession ?R [seg_ID en0] en0"
    using assms by (auto elim: doMerge_build_Some)
  then show "made e e' [en]" using made_stamp[OF mergeEntry_made, of f opts _ _ _ e e' en0] by auto
qed

lemma keeps_fresh_entry:
  assumes "fresh_entry f opts docs e = (e', r)" shows "keeps f e e'"
  using fresh_entry_frame(1,2)[OF assms] keeps_same[of e' e _ f] by blast

lemma keeps_merge_bucket: "merge_bucket f opts resolved fresh b n e = (e', r) \<Longrightarrow> keeps f e e'"
  by (auto simp: merge_bucket_def Let_def intro: keeps_mergeEntry)

lemma keeps_ReplaceBucket_build:
  assumes "ReplaceBucket_build f opts b n cs xs docs e = (e', r)" "engine_ok f e"
  shows "keeps f e e'" "r = Ret (Some plan) \<Longrightarrow> made e e' [bp_entry plan]"
proof -
  let ?res = "resolve_ids (e_set e) cs" let ?k = "e\<lparr>e_store := killSuperseded (e_set e) xs (e_store e)\<rparr>"
  obtain e1 r1 where fe: "fresh_entry f opts docs ?k = (e1, r1)" by fastforce
  have k: "keeps f e e1" by (rule keeps_trans[OF keeps_kills keeps_fresh_entry[OF fe]])
  have cases: "e' = e1 \<and> (\<forall>pl. r \<noteq> Ret (Some pl)) \<or> (\<exists>fresh e2 r2. merge_bucket f opts ?res fresh b n e1 = (e2, r2) \<and>
      (e' = e2 \<or> (\<exists>err. e' = fst (reportCorruptFrom f opts err e2))) \<and>
      (\<forall>pl. r = Ret (Some pl) \<longrightarrow> e' = e2 \<and> (\<exists>en R C. r2 = Ret en \<and> bp_entry pl = stampSupersession R C en)))"
  proof (cases "\<exists>fresh. r1 = Ret fresh \<and> ?res @ pub_list fresh \<noteq> []")
    case True
    then obtain fresh where fr: "r1 = Ret fresh" "?res @ pub_list fresh \<noteq> []" by blast
    obtain e2 r2 where m: "merge_bucket f opts ?res fresh b n e1 = (e2, r2)" by fastforce
    then show ?thesis using assms(1) fe fr
      by (intro disjI2 exI[of _ fresh] exI[of _ e2] exI[of _ r2]) (cases r2; auto simp: ReplaceBucket_build_def Let_def; blast)
  next
    case False
    then show ?thesis using assms(1) fe by (cases r1) (auto simp: ReplaceBucket_build_def Let_def)
  qed
  then show "keeps f e e'"
  proof (elim disjE exE conjE)
    fix fresh e2 r2 assume m: "merge_bucket f opts ?res fresh b n e1 = (e2, r2)"
    have k2: "keeps f e e2" by (rule keeps_trans[OF k keeps_merge_bucket[OF m]])
    assume "e' = e2" then show ?thesis using k2 by simp
  next
    fix fresh e2 r2 err assume m: "merge_bucket f opts ?res fresh b n e1 = (e2, r2)"
    have k2: "keeps f e e2" by (rule keeps_trans[OF k keeps_merge_bucket[OF m]])
    assume "e' = fst (reportCorruptFrom f opts err e2)" then show ?thesis using keeps_trans[OF k2 keeps_report] by simp
  qed (use k in simp)
  assume ret: "r = Ret (Some plan)"
  obtain fresh en R C where m: "merge_bucket f opts ?res fresh b n e1 = (e', Ret en)" "bp_entry plan = stampSupersession R C en"
    using cases by (elim disjE exE conjE) (use ret in auto)
  have "made e1 e' [en]" by (rule mergeEntry_made) (rule m(1)[unfolded merge_bucket_def Let_def])
  then have "made e1 e' [bp_entry plan]" using made_stamp[of e1 e' "[en]" R C] m(2) by simp
  then show "made e e' [bp_entry plan]" by (rule made_from[OF k assms(2)])
qed

lemma keepsD:
  assumes "keeps f e e'" "engine_ok f e"
  shows "engine_ok f e'" "length (e_store e) \<le> length (e_store e')"
  using assms by (auto simp: keeps_def)

lemma made_append:
  assumes "keeps f e e1" "keeps f e1 e'" "engine_ok f e" "made e e1 xs" "made e1 e' ys"
  shows "made e e' (xs @ ys)"
proof -
  note k = keepsD[OF assms(1,3)]
  have "live ` set xs \<inter> live ` set ys = {}"
    using assms(4,5) by (fastforce simp: made_def entry_live_ok_def)
  moreover have "made e e' xs" using keeps_made[OF assms(2) k(1) assms(4)] .
  moreover have "made e e' ys" using made_from[OF assms(1,3,5)] .
  ultimately show ?thesis by (auto simp: made_def)
qed

lemma keeps_harvestPartition: "harvestPartition f opts share w n e = (e', r) \<Longrightarrow> keeps f e e'"
  using harvestPartition_frame[of f opts share w n e e' r] by (intro keeps_withdraws) auto

lemma harvestPartition_made:
  assumes "harvestPartition f opts share w n e = (e', Ret (out, fid))" "engine_ok f e"
  shows "made e e' (pub_list out)"
proof (cases out)
  case (Some en)
  obtain e1 r1 where fe: "fresh_entry f opts (bw_Docs w) e = (e1, r1)" by fastforce
  obtain fresh where m: "merge_bucket f opts share fresh (bw_Bucket w) n e1 = (e', Ret en)"
    using assms(1) fe Some by (auto simp: harvestPartition_def Let_def split: outcome.splits if_splits prod.splits)
  have "made e1 e' [en]" by (rule mergeEntry_made) (rule m[unfolded merge_bucket_def Let_def])
  then show ?thesis using made_from[OF keeps_fresh_entry[OF fe] assms(2)] Some by simp
qed (simp add: made_def)

lemma keeps_harvestGroup: "harvestGroup f opts ctx resolved spans ws n e = (e', hs) \<Longrightarrow> keeps f e e'"
  using harvestGroup_frame[of f opts ctx resolved spans ws n e e' hs] by (intro keeps_withdraws) auto

lemma outs_Cons: "outs (h # hs) = (case fst h of Ret (out, _) \<Rightarrow> pub_list out | _ \<Rightarrow> []) @ outs hs"
  by (auto simp: map_filter_simps split: outcome.splits option.splits)

lemma harvestGroup_made:
  assumes "harvestGroup f opts ctx resolved spans ws n e = (e', hs)" "engine_ok f e"
  shows "made e e' (outs hs)"
  using assms
proof (induction ws arbitrary: ctx e e' hs)
  case (Cons w ws)
  obtain e1 r m hs' where h: "harvestGroup f opts (\<lambda>i. ctx (Suc i)) resolved spans ws n e1 = (e', hs')" "hs = (r, m) # hs'"
    "e1 = e \<and> (\<exists>err. r = Fail err) \<or> harvestPartition f opts (entriesSpanningBucket resolved spans (bw_Bucket w)) w n e = (e1, r)"
    using Cons.prems(1) by (auto simp: Let_def split: option.splits prod.splits)
  have k: "keeps f e e1" using h(3) keeps_harvestPartition keeps_refl[of e e f] by blast
  have "made e e1 (case r of Ret (out, _) \<Rightarrow> pub_list out | _ \<Rightarrow> [])"
    using h(3) harvestPartition_made[of f opts _ w n e e1] Cons.prems(2) by (cases r) (auto simp: made_def)
  then show ?case unfolding h(2) outs_Cons fst_conv
    by (rule made_append[OF k keeps_harvestGroup[OF h(1)] Cons.prems(2) _ Cons.IH[OF h(1) keepsD(1)[OF k Cons.prems(2)]]])
qed (simp add: made_def map_filter_simps)

lemma keeps_kill_group: "keeps f e (e\<lparr>e_store := kill_group (e_set e) work (e_store e)\<rparr>)"
proof (induction work arbitrary: e)
  case (Cons w work)
  show ?case using keeps_trans[OF keeps_kills[of f e "bw_Superseded w"] Cons[of "e\<lparr>e_store := killSuperseded (e_set e) (bw_Superseded w) (e_store e)\<rparr>"]]
    by (simp add: kill_group_def)
qed (simp add: kill_group_def keeps_refl)

lemma failed_not_Ret: "failed r \<noteq> Ret a"
  by (cases r) auto

lemma keeps_ReplaceBucketGroup_build:
  assumes b: "ReplaceBucketGroup_build f opts ctx n cs work e = (e', st, r)" and ok: "engine_ok f e"
  shows "keeps f e e'" "r = Ret plan \<Longrightarrow> made e e' (gp_added plan)"
proof -
  let ?res = "resolve_ids (e_set e) cs" let ?k = "e\<lparr>e_store := kill_group (e_set e) work (e_store e)\<rparr>"
  obtain e1 hs where h: "harvestGroup f opts (\<lambda>i. ctx (Suc i)) ?res (bucketSpans ?res n) work n ?k = (e1, hs)" by fastforce
  note kk = keeps_kill_group[of f e work]
  have k: "keeps f e e1" by (rule keeps_trans[OF kk keeps_harvestGroup[OF h]])
  have cases: "e' = e \<and> (\<forall>pl. r \<noteq> Ret pl) \<or> (e' = e1 \<or> (\<exists>err. e' = fst (reportCorruptFrom f opts err e1))) \<and>
      (\<forall>pl. r = Ret pl \<longrightarrow> e' = e1 \<and> crash_of hs = None \<and> (\<exists>added pub fresh R. fold_harvests work hs = Inr (added, pub, fresh) \<and>
         gp_added pl = fst (stampGroupSupersession added R)))"
    using b h by (auto simp: ReplaceBucketGroup_build_def Let_def failed_not_Ret split: option.splits prod.splits sum.splits) (metis fst_conv)+
  then show "keeps f e e'"
    using k keeps_trans[OF k keeps_report] keeps_refl[of e e f] by (elim disjE conjE exE) auto
  assume ret: "r = Ret plan"
  obtain added pub fresh R where e': "e' = e1" "crash_of hs = None" and f: "fold_harvests work hs = Inr (added, pub, fresh)"
    "gp_added plan = fst (stampGroupSupersession added R)"
    using cases ret by auto
  have "length hs = length work" using harvestGroup_frame[OF h] by blast
  then have "added = outs hs" using fold_harvests_spec[OF f(1) e'(2)] by blast
  then have "made ?k e1 added" using harvestGroup_made[OF h keepsD(1)[OF kk ok]] by simp
  then have "made e e1 added" by (rule made_from[OF kk ok])
  then show "made e e' (gp_added plan)" using e'(1) f(2) by (simp add: stampGroupSupersession_def Let_def made_stamp)
qed

lemma buildLayerPartition_frame:
  assumes "buildLayerPartition f opts hook w b e = (e', r)"
  shows "e_set e' = e_set e" "\<exists>lds. e_store e' = e_store e @ lds"
proof -
  obtain rep rs where le: "layer_entry f (dedupeDocsByID (bw_Docs w)) (e_store e) = (rep, rs)" by fastforce
  have "e_set e' = e_set e \<and> (\<exists>lds. e_store e' = e_store e @ lds)"
  proof (cases "\<exists>en store. rs = Ret (en, store)")
    case True
    then obtain en store where rs: "rs = Ret (en, store)" by blast
    then obtain seg where "newEntry f (e_store e) seg [] payloadBuilt = Ret (en, store)"
      using le by (auto simp: layer_entry_def bind_out_Ret_iff split: prod.splits)
    then have "\<exists>ld. store = e_store e @ [ld]" by (rule newEntry_live(3))
    then show ?thesis using assms le rs by (auto simp: buildLayerPartition_def Let_def split: if_splits)
  next
    case False
    then show ?thesis using assms le by (cases rs) (auto simp: buildLayerPartition_def Let_def split: if_splits)
  qed
  then show "e_set e' = e_set e" "\<exists>lds. e_store e' = e_store e @ lds" by auto
qed

lemma keeps_build_partitions: "build_partitions f opts hook ws b e = (e', r) \<Longrightarrow> keeps f e e'"
proof (induction ws arbitrary: b e)
  case (Cons w ws)
  obtain e1 r1 where p: "buildLayerPartition f opts hook w b e = (e1, r1)" by fastforce
  have k: "keeps f e e1" using buildLayerPartition_frame[OF p] keeps_same[of e1 e _ f] by blast
  show ?case using Cons.prems Cons.IH[of _ e1] p k keeps_trans[OF k] by (cases r1) auto
qed (simp add: keeps_refl)

lemma build_partitions_made:
  assumes "build_exact f" "BuildLayerReleasing f opts self work hook e = (e', Ret b)"
  shows "made e e' (bl_entries b)"
  using build_partitions_Ret[OF assms(1) assms(2)[unfolded BuildLayerReleasing_def]] by (auto simp: made_def)


section \<open>Imports, evictions and remaps\<close>

lemma keeps_Import:
  assumes "Import f opts blobs ts e = (e', r)"
  shows "keeps f e e'"
proof -
  obtain e1 rs where i: "import_each f opts ts blobs e = (e1, rs)" by fastforce
  have k: "keeps f e e1" using import_each_frame[OF i] by (intro keeps_withdraws) auto
  have "e' = e \<or> e' = e1 \<or> (\<exists>es. all_or_error rs = Ret es \<and> e' = publishImport f (declineSuperseded es) e1)"
    using assms i by (auto simp: Import_def split: if_splits option.splits outcome.splits)
  then show ?thesis
  proof (elim disjE exE conjE)
    fix es assume a: "all_or_error rs = Ret es" and e': "e' = publishImport f (declineSuperseded es) e1"
    note I = import_each_Ret[OF i a]
    have es: "entry_live_ok (e_store e1) en" "gomap_ok (members en)" "length (e_store e) \<le> live en" if "en \<in> set es" for en
      using conjunct1[OF I] that by (auto simp: list_all2_conv_all_nth in_set_conv_nth arrives_def)
    have sub: "set (declineSuperseded es) \<subseteq> set es" "distinct (map live (declineSuperseded es))"
      using I by (auto simp: declineSuperseded_def distinct_map_filter)
    show ?thesis
    proof (cases "engine_ok f e")
      case ok: True
      have ok1: "engine_ok f e1" by (rule keepsD(1)[OF k ok])
      have "live en \<notin> live ` set (entries (e_set e1))" if "en \<in> set es" for en
        using es(3)[OF that] entry_addr[OF ok] I by force
      then have "engine_ok f e'" unfolding e' using es sub by (intro publishImport_ok[OF ok1]) blast+
      moreover obtain lds where "e_store e' = e_store e @ lds" using I by (auto simp: e' publishImport_sel)
      moreover have "live en \<in> live ` set (entries (e_set e)) \<or> length (e_store e) \<le> live en" if "en \<in> set (entries (e_set e'))" for en
        using that es(3) sub(1) import_fresh_sub[of "map seg_ID (entries (e_set e1))" "declineSuperseded es"] I
        by (auto simp: e' publishImport_sel)
      ultimately show ?thesis by (intro keepsI) (auto simp: entry_live_ok_append)
    qed (simp add: keeps_def)
  qed (use k in \<open>auto simp: keeps_refl\<close>)
qed

lemma keeps_filter:
  assumes "e_set e' = newSegmentSet f (filter P (entries (e_set e)))" "e_store e' = e_store e" shows "keeps f e e'"
  by (rule keeps_append[where lds = "[]"]) (use assms engine_ok_filter[OF _ assms] in auto)

lemma keeps_Unload: "keeps f e (Unload f ids e)"
proof (cases "ids = []")
  case False
  show ?thesis by (rule keeps_filter[where P = "\<lambda>en. seg_ID en \<notin> set ids"]) (simp_all add: Unload_def False)
qed (simp add: Unload_def keeps_refl)

lemma keeps_Withdraw: "keeps f e (fst (WithdrawSegment f sid e))"
proof (cases "entryByID (e_set e) sid")
  case (Some en)
  show ?thesis by (rule keeps_filter[where P = "\<lambda>en. seg_ID en \<noteq> sid"]) (simp_all add: WithdrawSegment_def Some)
qed (simp add: WithdrawSegment_def keeps_refl)

text \<open>Every replacement of a remap stands for the entry it replaces, with or without repeated ids.\<close>

lemma remap_replacements_remap_ok:
  fixes s :: "('s, 'p) segmentSet"
  shows "remap_ok (entries s) (remap_replacements s pend)"
proof -
  let ?im = "index_map (map seg_ID (entries s))"
  have at: "nat idx < length (entries s)" if "map_of ?im sid = Some idx" for sid idx
    using that by (simp add: index_map_nth)
  have upd: "set (AList.update k v m) \<subseteq> insert (k, v) (set m)" for k :: nat and v :: "'p segmentEntry" and m
    by (induction m) (auto split: if_splits)
  have "remap_ok (entries s) (foldl (\<lambda>m (sid, seg). case map_of ?im sid of None \<Rightarrow> m
          | Some idx \<Rightarrow> AList.update (nat idx) (remapped (entries s ! nat idx) seg) m) m pend)" if "remap_ok (entries s) m" for m
    using that
  proof (induction pend arbitrary: m)
    case (Cons a pend)
    obtain sid seg where a: "a = (sid, seg)" by fastforce
    have "remap_ok (entries s) (AList.update (nat idx) (remapped (entries s ! nat idx) seg) m)" if "map_of ?im sid = Some idx" for idx
      using Cons.prems at[OF that] upd[of "nat idx" "remapped (entries s ! nat idx) seg" m]
      unfolding remap_ok_def by (auto simp: remapped_def same_seg_def dest!: subsetD[OF upd])
    then show ?case using Cons by (auto simp: a split: option.split)
  qed simp
  from this[of "[]"] show ?thesis by (simp add: remap_replacements_def Let_def) (simp add: remap_ok_def)
qed

lemma keeps_remap: "keeps f e (e\<lparr>e_set := withReplacedPayloads f (e_set e) (remap_replacements (e_set e) pend)\<rparr>)"
proof (cases "engine_ok f e")
  case ok: True
  note all2 = remap_list_all2[OF remap_replacements_remap_ok[of "e_set e" pend], of f]
  have "live ` set (entries (withReplacedPayloads f (e_set e) (remap_replacements (e_set e) pend))) = live ` set (entries (e_set e))"
    using remap_engine_ok_aux(2)[OF all2] by (metis list.set_map)
  moreover have "engine_ok f (e\<lparr>e_set := withReplacedPayloads f (e_set e) (remap_replacements (e_set e) pend)\<rparr>)"
    using ok set_ok_withReplacedPayloads[OF engine_okD(1)[OF ok] remap_replacements_remap_ok, of f pend]
    unfolding engine_ok_def by (simp add: remap_engine_ok_aux[OF all2])
  ultimately show ?thesis by (intro keepsI) auto
qed (simp add: keeps_def)

lemma keeps_RemapResidentBatch: "RemapResidentBatch f blobs e = (e', r) \<Longrightarrow> keeps f e e'"
  by (auto simp: RemapResidentBatch_def Let_def split: if_splits outcome.splits prod.splits intro: keeps_refl keeps_remap)

section \<open>Runs\<close>

text \<open>A consolidation computed and not yet published.\<close>

datatype 'p pending =
    PMerge "'p segmentEntry list" "'p segmentEntry"
  | PBucket "'p bucket_plan"
  | PGroup "'p group_plan"
  | PLayer "'p BuiltLayer"

fun pending_entries :: "'p pending \<Rightarrow> 'p segmentEntry list" where
  "pending_entries (PMerge chosen en) = [en]"
| "pending_entries (PBucket pl) = [bp_entry pl]"
| "pending_entries (PGroup pl) = gp_added pl"
| "pending_entries (PLayer b) = bl_entries b"

fun pending_publish :: "('q, 's, 'p, 'sc) SegmentFormat \<Rightarrow> Options \<Rightarrow> nat \<Rightarrow> 'p pending \<Rightarrow> ('s, 'p) SegmentedIndex
    \<Rightarrow> ('s, 'p) SegmentedIndex" where
  "pending_publish f opts self (PMerge chosen en) e = fst (doMerge_publish f opts chosen en e)"
| "pending_publish f opts self (PBucket pl) e = fst (ReplaceBucket_publish f opts pl e)"
| "pending_publish f opts self (PGroup pl) e = fst (ReplaceBucketGroup_publish f opts pl e)"
| "pending_publish f opts self (PLayer b) e = fst (ReplaceLayer f opts self (Some b) e)"

text \<open>
  The ids a swap publishes are new to the set: none stays resident under the same id, and where the
  route is derived and not rebuilt, no earlier drop names it.
\<close>

definition swap_new :: "('s, 'p) segmentSet \<Rightarrow> SegmentID list \<Rightarrow> 'p segmentEntry \<Rightarrow> bool" where
  "swap_new s R en \<longleftrightarrow> seg_ID en \<notin> seg_ID ` set (kept R (entries s)) \<and> (fresh_id s R (Some en) \<or> flattens s R (Some en))"

definition group_new :: "('s, 'p) segmentSet \<Rightarrow> SegmentID list \<Rightarrow> 'p segmentEntry list \<Rightarrow> bool" where
  "group_new s R ens \<longleftrightarrow> distinct (map seg_ID ens) \<and> seg_ID ` set ens \<inter> seg_ID ` set (kept R (entries s)) = {}"

fun new_ids :: "'p pending \<Rightarrow> ('s, 'p) segmentSet \<Rightarrow> bool" where
  "new_ids (PMerge chosen en) s \<longleftrightarrow> swap_new s (sortedSegmentIDs (map seg_ID chosen)) en"
| "new_ids (PBucket pl) s \<longleftrightarrow> swap_new s (bp_remove pl) (bp_entry pl)"
| "new_ids (PGroup pl) s \<longleftrightarrow> group_new s (gp_remove pl) (gp_added pl)"
| "new_ids (PLayer b) s \<longleftrightarrow> group_new s (bl_capturedOldIDs b) (bl_entries b)"

record ('s, 'p) run =
  r_engine :: "('s, 'p) SegmentedIndex"
  r_pending :: "'p pending list"

inductive run_step :: "('q, 's, 'p, 'sc::linorder) SegmentFormat \<Rightarrow> Options \<Rightarrow> nat \<Rightarrow> ('s, 'p) run \<Rightarrow> ('s, 'p) run \<Rightarrow> bool"
  for f opts self where
  add: "Add f opts docs (r_engine y) = (e, r) \<Longrightarrow> run_step f opts self y (y\<lparr>r_engine := e\<rparr>)"
| flush: "Flush f opts (r_engine y) = (e, r) \<Longrightarrow> run_step f opts self y (y\<lparr>r_engine := e\<rparr>)"
| delete: "run_step f opts self y (y\<lparr>r_engine := Delete x (r_engine y)\<rparr>)"
| supersede: "AddSealAndSupersede f opts docs (r_engine y) = (e, r1) \<Longrightarrow> run_step f opts self y (y\<lparr>r_engine := e\<rparr>)"
| kill: "run_step f opts self y (y\<lparr>r_engine := KillSuperseded xs (r_engine y)\<rparr>)"
| search: "SearchAccepting f opts q k ac (r_engine y) = (e, hits) \<Longrightarrow> run_step f opts self y (y\<lparr>r_engine := e\<rparr>)"
| withdraw: "run_step f opts self y (y\<lparr>r_engine := fst (WithdrawSegment f sid (r_engine y))\<rparr>)"
| import: "Import f opts blobs ts (r_engine y) = (e, r) \<Longrightarrow> run_step f opts self y (y\<lparr>r_engine := e\<rparr>)"
| unload: "run_step f opts self y (y\<lparr>r_engine := Unload f ids (r_engine y)\<rparr>)"
| remap: "RemapResidentBatch f blobs (r_engine y) = (e, ocs) \<Longrightarrow> run_step f opts self y (y\<lparr>r_engine := e\<rparr>)"
| close: "run_step f opts self y (y\<lparr>r_engine := Close (r_engine y)\<rparr>)"
| merge: "doMerge_build f opts chosen (r_engine y) = (e, Ret (Some en)) \<Longrightarrow>
    run_step f opts self y (y\<lparr>r_engine := e, r_pending := PMerge chosen en # r_pending y\<rparr>)"
| merge_none: "doMerge_build f opts chosen (r_engine y) = (e, r2) \<Longrightarrow> run_step f opts self y (y\<lparr>r_engine := e\<rparr>)"
| bucket: "ReplaceBucket_build f opts b n cs xs docs (r_engine y) = (e, Ret (Some pl)) \<Longrightarrow>
    run_step f opts self y (y\<lparr>r_engine := e, r_pending := PBucket pl # r_pending y\<rparr>)"
| bucket_none: "ReplaceBucket_build f opts b n cs xs docs (r_engine y) = (e, r3) \<Longrightarrow> run_step f opts self y (y\<lparr>r_engine := e\<rparr>)"
| group: "ReplaceBucketGroup_build f opts ctx n cs work (r_engine y) = (e, st, Ret gp) \<Longrightarrow>
    run_step f opts self y (y\<lparr>r_engine := e, r_pending := PGroup gp # r_pending y\<rparr>)"
| group_fails: "ReplaceBucketGroup_build f opts ctx n cs work (r_engine y) = (e, st, r4) \<Longrightarrow> run_step f opts self y (y\<lparr>r_engine := e\<rparr>)"
| layer: "BuildLayerReleasing f opts self work hook (r_engine y) = (e, Ret bl) \<Longrightarrow>
    run_step f opts self y (y\<lparr>r_engine := e, r_pending := PLayer bl # r_pending y\<rparr>)"
| layer_fails: "BuildLayerReleasing f opts self work hook (r_engine y) = (e, r5) \<Longrightarrow> run_step f opts self y (y\<lparr>r_engine := e\<rparr>)"
| publish: "\<lbrakk>r_pending y = ps @ p # qs; new_ids p (e_set (r_engine y))\<rbrakk> \<Longrightarrow>
    run_step f opts self y (y\<lparr>r_engine := pending_publish f opts self p (r_engine y), r_pending := ps @ qs\<rparr>)"
| abandon: "r_pending y = ps @ p # qs \<Longrightarrow> run_step f opts self y (y\<lparr>r_pending := ps @ qs\<rparr>)"

section \<open>The invariant of a run\<close>

abbreviation pend_entries :: "'p pending list \<Rightarrow> 'p segmentEntry list" where
  "pend_entries ps \<equiv> concat (map pending_entries ps)"

definition pend_ok :: "liveDocs list \<Rightarrow> 'p segmentEntry list \<Rightarrow> 'p segmentEntry list \<Rightarrow> bool" where
  "pend_ok store E A \<longleftrightarrow> distinct (map live A) \<and> live ` set E \<inter> live ` set A = {} \<and>
     (\<forall>en \<in> set A. entry_live_ok store en \<and> gomap_ok (members en))"

definition run_inv :: "('q, 's, 'p, 'sc) SegmentFormat \<Rightarrow> ('s, 'p) run \<Rightarrow> bool" where
  "run_inv f y \<longleftrightarrow> engine_ok f (r_engine y) \<and>
     pend_ok (e_store (r_engine y)) (entries (e_set (r_engine y))) (pend_entries (r_pending y))"

lemma pend_ok_keeps:
  assumes k: "keeps f e e'" and ok: "engine_ok f e" and A: "pend_ok (e_store e) (entries (e_set e)) A"
  shows "pend_ok (e_store e') (entries (e_set e')) A"
proof -
  have st: "entry_live_ok (e_store e') en" and lv: "live en \<notin> live ` set (entries (e_set e'))" if "en \<in> set A" for en
  proof -
    have lo: "entry_live_ok (e_store e) en" "live en \<notin> live ` set (entries (e_set e))" using A that by (auto simp: pend_ok_def)
    show "entry_live_ok (e_store e') en" using k ok lo(1) unfolding keeps_def by blast
    have "live en < length (e_store e)" using lo(1) by (simp add: entry_live_ok_def)
    moreover have "\<forall>x \<in> set (entries (e_set e')). live x \<in> live ` set (entries (e_set e)) \<or> length (e_store e) \<le> live x"
      using k ok unfolding keeps_def by blast
    ultimately show "live en \<notin> live ` set (entries (e_set e'))" using lo(2) by force
  qed
  have "live ` set (entries (e_set e')) \<inter> live ` set A = {}"
  proof (intro equals0I, elim IntE imageE)
    fix v x y assume v: "v = live x" "x \<in> set (entries (e_set e'))" "v = live y" "y \<in> set A"
    then have "live y \<in> live ` set (entries (e_set e'))" by (metis image_eqI)
    then show False using lv[OF v(4)] by simp
  qed
  then show ?thesis using A st by (simp add: pend_ok_def)
qed

lemma run_inv_keeps: "run_inv f y \<Longrightarrow> keeps f (r_engine y) e \<Longrightarrow> run_inv f (y\<lparr>r_engine := e\<rparr>)"
  using keepsD(1)[of f "r_engine y" e] pend_ok_keeps[of f "r_engine y" e] by (simp add: run_inv_def)

lemma pend_ok_build:
  assumes k: "keeps f e e'" and ok: "engine_ok f e" and A: "pend_ok (e_store e) (entries (e_set e)) A" and m: "made e e' P"
    and sub: "set (entries (e_set e')) \<subseteq> set (entries (e_set e))"
  shows "pend_ok (e_store e') (entries (e_set e')) (P @ A)"
proof -
  have "\<forall>x \<in> set (entries (e_set e')) \<union> set A. live x < length (e_store e)"
    using sub entry_addr[OF ok] A by (auto simp: pend_ok_def entry_live_ok_def)
  moreover have "\<forall>x \<in> set P. length (e_store e) \<le> live x" using m by (simp add: made_def)
  ultimately have "live ` set P \<inter> live ` (set (entries (e_set e')) \<union> set A) = {}"
    by (auto simp: disjoint_iff) (metis UnCI leD)+
  then show ?thesis using pend_ok_keeps[OF k ok A] m by (auto simp: pend_ok_def made_def)
qed

lemma run_inv_build:
  assumes "run_inv f y" "keeps f (r_engine y) e" "made (r_engine y) e (pending_entries p)"
    "set (entries (e_set e)) \<subseteq> set (entries (e_set (r_engine y)))"
  shows "run_inv f (y\<lparr>r_engine := e, r_pending := p # r_pending y\<rparr>)"
  using assms keepsD(1)[OF assms(2)] pend_ok_build[OF assms(2) _ _ assms(3,4)] by (simp add: run_inv_def)

lemma pend_ok_publish:
  assumes "pend_ok store E (A @ P @ B)" "live ` set E' \<subseteq> live ` set E \<union> live ` set P"
  shows "pend_ok store E' (A @ B)"
  using assms unfolding pend_ok_def by (auto 0 3)

lemma engine_ok_swap:
  assumes ok: "engine_ok f e" and st: "e_store e' = e_store e"
    and set': "e_set e' = withReplaced f (e_set e) R (Some en)" and new: "swap_new (e_set e) R en"
    and en: "entry_live_ok (e_store e) en" "gomap_ok (members en)" "live en \<notin> live ` set (entries (e_set e))"
  shows "engine_ok f e' \<and> entries (e_set e') = kept R (entries (e_set e)) @ [en]"
proof -
  have ents: "entries (e_set e') = kept R (entries (e_set e)) @ [en]"
    by (simp add: set' withReplaced_entries[OF ok])
  have "set_ok (e_set e')"
    unfolding set' by (rule set_ok_withReplaced) (use ok new en in \<open>auto simp: engine_ok_def entries_ok_def swap_new_def\<close>)
  moreover have "stats_ok f (e_set e')" by (simp add: set')
  moreover have "live en \<notin> live ` set (kept R (entries (e_set e)))" using en(3) by auto
  ultimately show ?thesis using ok en new by (auto simp: engine_ok_def ents distinct_map_filter st swap_new_def)
qed

lemma engine_ok_group_swap:
  assumes ok: "engine_ok f e" and st: "e_store e' = e_store e"
    and set': "e_set e' = withReplacedGroup f (e_set e) R ens" and new: "group_new (e_set e) R ens"
    and en: "\<forall>en \<in> set ens. entry_live_ok (e_store e) en \<and> gomap_ok (members en)" "distinct (map live (entries (e_set e) @ ens))"
  shows "engine_ok f e' \<and> entries (e_set e') = kept R (entries (e_set e)) @ ens"
proof -
  have ents: "entries (e_set e') = kept R (entries (e_set e)) @ ens" by (simp add: set')
  have eo: "entries_ok ens" using en(1) by (simp add: entries_ok_def)
  have "set_ok (e_set e')" "stats_ok f (e_set e')"
    using set_ok_withReplacedGroup[OF engine_okD(1)[OF ok] eo, of f R] by (simp_all add: set')
  moreover have "live ` set ens \<inter> live ` set (kept R (entries (e_set e))) = {}" using en(2) by fastforce
  ultimately show ?thesis using ok en new by (auto simp: engine_ok_def ents distinct_map_filter st group_new_def)
qed

lemma pending_publish_ok:
  assumes ok: "engine_ok f e" and pe: "pend_ok (e_store e) (entries (e_set e)) (pending_entries p)" and new: "new_ids p (e_set e)"
    and e': "e' = pending_publish f opts self p e"
  shows "engine_ok f e' \<and> e_store e' = e_store e \<and> live ` set (entries (e_set e')) \<subseteq> live ` set (entries (e_set e)) \<union> live ` set (pending_entries p)"
proof -
  have swap: ?thesis if "e_store e' = e_store e" "e_set e' = withReplaced f (e_set e) R (Some en)" "swap_new (e_set e) R en" "pending_entries p = [en]" for R en
    using engine_ok_swap[OF ok that(1-3)] pe that(1,4) by (auto simp: pend_ok_def)
  have group: ?thesis if "e_store e' = e_store e" "e_set e' = withReplacedGroup f (e_set e) R (pending_entries p)" "group_new (e_set e) R (pending_entries p)" for R
    using engine_ok_group_swap[OF ok that] pe that(1) engine_okD(4)[OF ok] by (auto simp: pend_ok_def)
  show ?thesis
  proof (cases p)
    case (PMerge chosen en)
    obtain r where r: "doMerge_publish f opts chosen en e = (e', r)" using e' PMerge by (metis pending_publish.simps(1) prod.collapse)
    show ?thesis
    proof (cases "e_stopped e")
      case True
      then show ?thesis using r ok by (auto simp: doMerge_publish_def)
    next
      case False
      then show ?thesis using doMerge_publish_sel[OF r False] new PMerge by (intro swap) auto
    qed
  next
    case (PBucket pl)
    obtain e1 r where h: "fireMergeHook f opts (bp_entry pl) (bp_reclaim pl) (e\<lparr>e_set := withReplaced f (e_set e) (bp_remove pl) (Some (bp_entry pl))\<rparr>) = (e1, r)"
      by fastforce
    then have "e' = e1" using e' PBucket by (simp add: ReplaceBucket_publish_def)
    then show ?thesis using fireMergeHook_frame(1,2)[OF h] new PBucket by (intro swap[of "bp_remove pl" "bp_entry pl"]) auto
  next
    case (PGroup pl)
    show ?thesis
    proof (cases "gp_added pl = []")
      case False
      obtain e1 r where h: "fire_group f opts (gp_added pl) (gp_survivors pl) (e\<lparr>e_set := withReplacedGroup f (e_set e) (gp_remove pl) (gp_added pl)\<rparr>) = (e1, r)"
        by fastforce
      then have "e' = e1" using e' PGroup False by (simp add: ReplaceBucketGroup_publish_def)
      then show ?thesis using fire_group_frame[OF h] new PGroup by (intro group[of "gp_remove pl"]) auto
    qed (use e' PGroup ok in \<open>simp add: ReplaceBucketGroup_publish_def\<close>)
  next
    case (PLayer b)
    show ?thesis
    proof (cases "bl_engine b = self \<and> bl_entries b \<noteq> []")
      case True
      obtain e1 r where h: "fire_group f opts (bl_entries b) (excluding (bl_capturedOldIDs b) (map seg_ID (bl_entries b)))
          (e\<lparr>e_set := withReplacedGroup f (e_set e) (bl_capturedOldIDs b) (bl_entries b)\<rparr>) = (e1, r)" by fastforce
      then have "e' = e1" using e' PLayer True by (simp add: ReplaceLayer_def Let_def)
      then show ?thesis using fire_group_frame[OF h] new PLayer by (intro group[of "bl_capturedOldIDs b"]) auto
    qed (use e' PLayer ok in \<open>auto simp: ReplaceLayer_def\<close>)
  qed
qed

lemma run_inv_publish:
  assumes inv: "run_inv f y" and p: "r_pending y = ps @ p # qs" and new: "new_ids p (e_set (r_engine y))"
  shows "run_inv f (y\<lparr>r_engine := pending_publish f opts self p (r_engine y), r_pending := ps @ qs\<rparr>)"
proof -
  let ?e = "r_engine y"
  have ok: "engine_ok f ?e" and po: "pend_ok (e_store ?e) (entries (e_set ?e)) (pend_entries ps @ pending_entries p @ pend_entries qs)"
    using inv by (simp_all add: run_inv_def p)
  have "pend_ok (e_store ?e) (entries (e_set ?e)) (pending_entries p)" using po by (auto simp: pend_ok_def)
  note P = pending_publish_ok[OF ok this new refl, of opts self]
  show ?thesis using P pend_ok_publish[OF po, of "entries (e_set (pending_publish f opts self p ?e))"] by (simp add: run_inv_def)
qed

text \<open>A computation that succeeds publishes nothing.\<close>

lemma doMerge_build_sub: "doMerge_build f opts chosen e = (e', Ret (Some en)) \<Longrightarrow> set (entries (e_set e')) \<subseteq> set (entries (e_set e))"
  by (erule doMerge_build_Some) (auto dest!: mergeEntry_frame(1) simp: only_withdraws_def)

lemma ReplaceBucket_build_sub:
  assumes "ReplaceBucket_build f opts b n cs xs docs e = (e', Ret (Some pl))"
  shows "set (entries (e_set e')) \<subseteq> set (entries (e_set e))"
proof -
  obtain e1 r1 where fe: "fresh_entry f opts docs (e\<lparr>e_store := killSuperseded (e_set e) xs (e_store e)\<rparr>) = (e1, r1)" by fastforce
  obtain fresh en where "merge_bucket f opts (resolve_ids (e_set e) cs) fresh b n e1 = (e', Ret en)"
    using assms fe by (auto simp: ReplaceBucket_build_def Let_def failed_not_Ret split: outcome.splits if_splits prod.splits)
  then show ?thesis using merge_bucket_frame(1) fresh_entry_frame(1)[OF fe] by (fastforce simp: only_withdraws_def)
qed

lemma ReplaceBucketGroup_build_sub:
  assumes "ReplaceBucketGroup_build f opts ctx n cs work e = (e', st, Ret pl)"
  shows "set (entries (e_set e')) \<subseteq> set (entries (e_set e))"
proof -
  let ?res = "resolve_ids (e_set e) cs"
  obtain e1 hs where h: "harvestGroup f opts (\<lambda>i. ctx (Suc i)) ?res (bucketSpans ?res n) work n
      (e\<lparr>e_store := kill_group (e_set e) work (e_store e)\<rparr>) = (e1, hs)" by fastforce
  have "e' = e1" using assms h
    by (auto simp: ReplaceBucketGroup_build_def Let_def failed_not_Ret split: option.splits prod.splits sum.splits)
  then show ?thesis using harvestGroup_frame[OF h] by (auto simp: only_withdraws_def)
qed

lemma build_partitions_set: "build_partitions f opts hook ws b e = (e', r) \<Longrightarrow> e_set e' = e_set e"
proof (induction ws arbitrary: b e)
  case (Cons w ws)
  obtain e1 r1 where p: "buildLayerPartition f opts hook w b e = (e1, r1)" by fastforce
  show ?case using Cons.prems Cons.IH[of _ e1] p buildLayerPartition_frame(1)[OF p] by (cases r1) auto
qed simp

lemma run_inv_step:
  assumes "run_step f opts self y z" "stats_agree f" "build_exact f" "run_inv f y"
  shows "run_inv f z"
  using assms
proof (induction rule: run_step.induct)
  case (add docs y e r) then show ?case by (intro run_inv_keeps keeps_Add)
next
  case (flush y e r) then show ?case by (intro run_inv_keeps keeps_Flush)
next
  case (delete y x) then show ?case by (intro run_inv_keeps keeps_Delete)
next
  case (supersede docs y e r) then show ?case by (intro run_inv_keeps keeps_AddSealAndSupersede)
next
  case (kill y xs) then show ?case unfolding KillSuperseded_def by (intro run_inv_keeps keeps_kills)
next
  case (search q k ac y e hits) then show ?case by (intro run_inv_keeps keeps_SearchAccepting)
next
  case (withdraw y sid) then show ?case by (intro run_inv_keeps keeps_Withdraw)
next
  case (import blobs ts y e r) then show ?case by (intro run_inv_keeps keeps_Import)
next
  case (unload y ids) then show ?case by (intro run_inv_keeps keeps_Unload)
next
  case (remap blobs y e ocs) then show ?case by (intro run_inv_keeps keeps_RemapResidentBatch)
next
  case (close y) then show ?case by (intro run_inv_keeps keeps_refl) (simp_all add: Close_def)
next
  case (merge chosen y e en)
  then show ?case using keeps_doMerge_build[OF merge(1)] doMerge_build_sub[OF merge(1)] by (intro run_inv_build) simp_all
next
  case (merge_none chosen y e r2) then show ?case using keeps_doMerge_build(1)[OF merge_none(1)] by (intro run_inv_keeps)
next
  case (bucket b n cs xs docs y e pl)
  have ok: "engine_ok f (r_engine y)" using bucket by (simp add: run_inv_def)
  show ?case using bucket keeps_ReplaceBucket_build[OF bucket(1) ok] ReplaceBucket_build_sub[OF bucket(1)] by (intro run_inv_build) simp_all
next
  case (bucket_none b n cs xs docs y e r3)
  have ok: "engine_ok f (r_engine y)" using bucket_none by (simp add: run_inv_def)
  show ?case using bucket_none keeps_ReplaceBucket_build(1)[OF bucket_none(1) ok] by (intro run_inv_keeps)
next
  case (group ctx n cs work y e st gp)
  have ok: "engine_ok f (r_engine y)" using group by (simp add: run_inv_def)
  show ?case using group keeps_ReplaceBucketGroup_build[OF group(1) ok] ReplaceBucketGroup_build_sub[OF group(1)] by (intro run_inv_build) simp_all
next
  case (group_fails ctx n cs work y e st r4)
  have ok: "engine_ok f (r_engine y)" using group_fails by (simp add: run_inv_def)
  show ?case using group_fails keeps_ReplaceBucketGroup_build(1)[OF group_fails(1) ok] by (intro run_inv_keeps)
next
  case (layer work hook y e bl)
  have "keeps f (r_engine y) e" "e_set e = e_set (r_engine y)"
    using keeps_build_partitions build_partitions_set layer(1) unfolding BuildLayerReleasing_def by blast+
  then show ?case using layer build_partitions_made[OF layer(3,1)] by (intro run_inv_build) simp_all
next
  case (layer_fails work hook y e r5)
  then have "keeps f (r_engine y) e" using keeps_build_partitions unfolding BuildLayerReleasing_def by blast
  then show ?case using layer_fails by (intro run_inv_keeps)
next
  case (publish y ps p qs) then show ?case by (intro run_inv_publish)
next
  case (abandon y ps p qs)
  then have po: "pend_ok (e_store (r_engine y)) (entries (e_set (r_engine y))) (pend_entries ps @ pending_entries p @ pend_entries qs)"
    and ok: "engine_ok f (r_engine y)" by (simp_all add: run_inv_def)
  show ?case using pend_ok_publish[OF po, of "entries (e_set (r_engine y))"] ok by (simp add: run_inv_def)
qed


section \<open>Every run\<close>

definition run_start :: "('q, 's, 'p, 'sc) SegmentFormat \<Rightarrow> ('s, 'p) run \<Rightarrow> bool" where
  "run_start f y \<longleftrightarrow> engine_ok f (r_engine y) \<and> r_pending y = []"

text \<open>What a reader of any state may rely on.\<close>

definition served_ok :: "('q, 's, 'p, 'sc) SegmentFormat \<Rightarrow> ('s, 'p) run \<Rightarrow> bool" where
  "served_ok f y \<longleftrightarrow> engine_ok f (r_engine y) \<and>
     (\<forall>x. routeOf (e_set (r_engine y)) x = map_of (flatRoute (entries (e_set (r_engine y)))) x) \<and>
     distinctN (e_set (r_engine y)) = int (length (flatRoute (entries (e_set (r_engine y)))))"

lemma run_inv_served:
  assumes "run_inv f y" shows "served_ok f y"
proof -
  have ok: "engine_ok f (r_engine y)" using assms by (simp add: run_inv_def)
  have "set_ok (e_set (r_engine y))" by (rule engine_okD(1)[OF ok])
  then show ?thesis using ok
    by (simp add: served_ok_def routeOf_flat map_of_flatRoute gomap_ok_length gm_keys_flatRoute) (simp add: set_ok_def)
qed

interpretation engine_runs: transition_system
  "\<lambda>y. stats_agree f \<and> build_exact f \<and> run_start f y" "run_step f opts self"
  "\<lambda>y. stats_agree f \<and> build_exact f \<and> run_inv f y" "served_ok f" for f opts self
proof
  show "stats_agree f \<and> build_exact f \<and> run_start f s \<Longrightarrow> stats_agree f \<and> build_exact f \<and> run_inv f s" for s
    by (simp add: run_start_def run_inv_def pend_ok_def)
  show "run_step f opts self s t \<Longrightarrow> stats_agree f \<and> build_exact f \<and> run_inv f s \<Longrightarrow> stats_agree f \<and> build_exact f \<and> run_inv f t" for s t
    using run_inv_step by blast
  show "stats_agree f \<and> build_exact f \<and> run_inv f s \<Longrightarrow> served_ok f s" for s using run_inv_served by blast
qed

text \<open>
  C2: every run is served by a well-formed set. Start from any well-formed engine with nothing in
  flight and let adds, flushes, deletes, supersessions, searches that contain corruption,
  withdrawals, imports, evictions, remaps and any number of merges, bucket swaps, group swaps and
  layer builds interleave, each consolidation publishing (or being abandoned) at any later
  moment into the set of that moment. As long as each swap publishes ids that are new to the
  set, in every state segment ids and bitsets are unique, every entry's bitset fits its members,
  the statistics are those of the entries, every lookup answers what a rebuilt route would and the
  maintained count of distinct documents is right.
\<close>

theorem runs_serve_well_formed_sets:
  assumes "stats_agree f" "build_exact f" "engine_ok f e0"
    "(run_step f opts self)\<^sup>*\<^sup>* \<lparr>r_engine = e0, r_pending = []\<rparr> y"
  shows "engine_ok f (r_engine y) \<and>
    (\<forall>x. routeOf (e_set (r_engine y)) x = map_of (flatRoute (entries (e_set (r_engine y)))) x) \<and>
    distinctN (e_set (r_engine y)) = int (length (flatRoute (entries (e_set (r_engine y)))))"
  using engine_runs.reach_guarantee[OF assms(4)] assms(1-3) by (simp add: run_start_def served_ok_def)

lemma runs_serve_well_formed_sets_witness:
  "\<exists>e0 y. (run_step ids_format merge_opts 0)\<^sup>*\<^sup>* \<lparr>r_engine = e0, r_pending = []\<rparr> y \<and>
     length (entries (e_set e0)) = 2 \<and> length (entries (e_set (r_engine y))) = 1 \<and> engine_ok ids_format (r_engine y)"
proof -
  let ?e = "ids_engine [(''A'', [''x'']), (''B'', [''y''])]" let ?c = "entries (e_set ?e)"
  have ok: "engine_ok ids_format ?e" by (rule ids_engine_ok) auto
  have m: "remdups (concat (map2 (\<lambda>s a. filter a s) (map payload ?c) (map (accept_member (e_store ?e)) ?c))) = [''x'', ''y'']"
    by code_simp
  have d: "ids_decode (ids_encode [''x'', ''y'']) = Ret [''x'', ''y'']" by code_simp
  have s: "\<not> e_stopped ?e" by code_simp
  define h where "h = contentHash (ids_encode [''x'', ''y''])"
  define en where "en = stampSupersession (sortedSegmentIDs (map seg_ID ?c)) [h] (ids_merged (length (e_store ?e)) [''x'', ''y''])"
  define e1 where "e1 = ?e\<lparr>e_store := e_store ?e @ [newLiveDocs 2]\<rparr>"
  have b: "doMerge_build ids_format merge_opts ?c ?e = (e1, Ret (Some en))"
    using doMerge_build_ids[OF m d s] by (simp add: en_def e1_def h_def numeral_2_eq_2)
  have id: "seg_ID en \<noteq> ''A''" "seg_ID en \<noteq> ''B''" by (simp_all add: en_def ids_merged_def)
  let ?y0 = "\<lparr>r_engine = ?e, r_pending = []\<rparr>" let ?y1 = "?y0\<lparr>r_engine := e1, r_pending := [PMerge ?c en]\<rparr>"
  let ?y2 = "?y1\<lparr>r_engine := Delete ''x'' e1\<rparr>"
  let ?y3 = "?y2\<lparr>r_engine := pending_publish ids_format merge_opts 0 (PMerge ?c en) (r_engine ?y2), r_pending := []\<rparr>"
  have 1: "run_step ids_format merge_opts 0 ?y0 ?y1"
    using run_step.merge[of ids_format merge_opts ?c ?y0 e1 en 0] b by simp
  have 2: "run_step ids_format merge_opts 0 ?y1 ?y2" using run_step.delete[of ids_format merge_opts 0 ?y1 "''x''"] by simp
  have set2: "e_set (r_engine ?y2) = e_set ?e" by (simp add: e1_def)
  have "dropped (e_set ?e) = []" by code_simp
  then have "swap_new (e_set ?e) (sortedSegmentIDs (map seg_ID ?c)) en"
    using id by (auto simp: swap_new_def fresh_id_def dest!: in_set_takeD)
  then have 3: "run_step ids_format merge_opts 0 ?y2 ?y3"
    using run_step.publish[of ?y2 "[]" "PMerge ?c en" "[]" ids_format merge_opts 0] set2 by simp
  have r: "(run_step ids_format merge_opts 0)\<^sup>*\<^sup>* ?y0 ?y3" using 1 2 3 by (meson converse_rtranclp_into_rtranclp rtranclp.rtrancl_refl)
  have ok3: "engine_ok ids_format (r_engine ?y3)"
    using runs_serve_well_formed_sets[OF ids_stats_agree ids_build_exact ok r] by blast
  have "\<not> e_stopped (Delete ''x'' e1)" using s by (auto simp: Delete_def signalMerge_def e1_def split: option.splits)
  then have "e_set (r_engine ?y3) = withReplaced ids_format (e_set ?e) (sortedSegmentIDs (map seg_ID ?c)) (Some en)"
    using doMerge_publish_sel(1)[OF surjective_pairing, of "Delete ''x'' e1" ids_format merge_opts ?c en] by (simp add: e1_def)
  then have "entries (e_set (r_engine ?y3)) = kept (sortedSegmentIDs (map seg_ID ?c)) ?c @ [en]"
    using withReplaced_entries[OF ok, of ids_format "sortedSegmentIDs (map seg_ID ?c)" "Some en"] by simp
  then have "length (entries (e_set (r_engine ?y3))) = 1" by simp
  then show ?thesis using r ok3 by (intro exI[of _ ?e] exI[of _ ?y3]) simp
qed


end
