(* ===== verification/Residency.thy ===== *)
theory Residency
  imports Distribution
begin

text \<open>
  \<open>internal/searchengine/residency.go\<close>: the heap the resident set is modelled to hold, and the
  segments whose encoded blob is still on the heap.

  The sizes \<open>unsafe.Sizeof\<close> answers are those of a 64-bit target: a string and an interface
  are two words, a slice three. Sums are unbounded integers: a corpus whose modelled heap passes
  2^63 bytes does not fit an address space.
\<close>

definition mapSlotBytes :: int where "mapSlotBytes = 27"
definition mapTableBytes :: int where "mapTableBytes = 120"
definition segmentIDHeaderBytes :: int where "segmentIDHeaderBytes = 16"
definition routeEntryOverheadBytes :: int where "routeEntryOverheadBytes = 77"
definition statsNodeAndSlotBytes :: int where "statsNodeAndSlotBytes = 32"

function grow_groups :: "int \<Rightarrow> int \<Rightarrow> int" where
  "grow_groups groups n = (if 0 < groups \<and> groups * 7 < n then grow_groups (groups * 2) n else groups)"
  by auto
termination by (relation "measure (\<lambda>(groups, n). nat (n - groups))") auto

declare grow_groups.simps [simp del]

definition mapSlotsFor :: "int \<Rightarrow> int \<times> bool" where
  "mapSlotsFor n =
     (if n \<le> 0 then (0, False)
      else let groups = grow_groups 1 n in (groups * 8, groups > 1))"

definition mapHeapBytes :: "int \<Rightarrow> int" where
  "mapHeapBytes n =
     (let (slots, grown) = mapSlotsFor n; total = slots * mapSlotBytes
      in if grown then total + mapTableBytes else total)"

definition membersHeapBytes :: "(ExternalID, int) gomap \<Rightarrow> int" where
  "membersHeapBytes m = sum_list (map (\<lambda>(x, _). int (length x)) m) + mapHeapBytes (int (length m))"

definition recordHeapBytes :: "supersessionRecord \<Rightarrow> int" where
  "recordHeapBytes rec =
     sum_list (map (\<lambda>sid. int (length sid) + segmentIDHeaderBytes) (Superseded rec)) +
     sum_list (map (\<lambda>sid. int (length sid) + segmentIDHeaderBytes) (Cohort rec))"

definition routeHeapBytes :: "('s, 'p) segmentSet \<Rightarrow> int" where
  "routeHeapBytes s = int (length (base s)) * routeEntryOverheadBytes"

definition droppedHeapBytes :: "SegmentID list \<Rightarrow> int" where
  "droppedHeapBytes d = sum_list (map (\<lambda>sid. int (length sid)) d) + mapHeapBytes (int (length d))"

definition staleIndexHeapBytes :: "(ExternalID, 'p segmentEntry) gomap \<Rightarrow> int" where
  "staleIndexHeapBytes stale = sum_list (map (\<lambda>(x, _). int (length x)) stale) + mapHeapBytes (int (length stale))"

definition sizeof_segmentEntry :: int where "sizeof_segmentEntry = 16 + 8 + 8 + (16 + 16 + 8 + 8 + 8) + (24 + 24) + 8 + 16"
definition sizeof_liveDocs :: int where "sizeof_liveDocs = 24 + 8"

definition entryStructuralBytes :: int where
  "entryStructuralBytes = sizeof_segmentEntry + statsNodeAndSlotBytes + sizeof_liveDocs"

definition entryHeapBytes :: "('q, 's, 'p, 'sc) SegmentFormat \<Rightarrow> liveDocs list \<Rightarrow> 'p segmentEntry \<Rightarrow> int" where
  "entryHeapBytes f store en =
     s_HeapBytes f (payload en) + heapPayload en + membersHeapBytes (members en) + recordHeapBytes (sup_record en) +
     entryStructuralBytes + int (length (ld_words (store ! live en))) * 8"

definition ResidentHeapBytes :: "('q, 's, 'p, 'sc) SegmentFormat \<Rightarrow> ('s, 'p) SegmentedIndex \<Rightarrow> int" where
  "ResidentHeapBytes f e =
     sum_list (map (entryHeapBytes f (e_store e)) (entries (e_set e))) +
     routeHeapBytes (e_set e) + droppedHeapBytes (dropped (e_set e)) + staleIndexHeapBytes (staleIndex (e_set e))"

definition HeapBackedResidentIDs :: "('s, 'p) SegmentedIndex \<Rightarrow> SegmentID list" where
  "HeapBackedResidentIDs e = map seg_ID (filter (\<lambda>en. heapPayload en > 0) (entries (e_set e)))"

section \<open>Slots\<close>

lemma grow_groups_spec:
  assumes "0 < g" "\<exists>k. g = 2 ^ k" "g = 1 \<or> (g div 2) * 7 < n"
  shows "n \<le> grow_groups g n * 7 \<and> (\<exists>k. grow_groups g n = 2 ^ k) \<and> (grow_groups g n = 1 \<or> (grow_groups g n div 2) * 7 < n) \<and> g \<le> grow_groups g n"
  using assms
proof (induction g n rule: grow_groups.induct)
  case (1 g n)
  show ?case
  proof (cases "g * 7 < n")
    case True
    obtain k where "g = 2 ^ k" using "1.prems"(2) by blast
    then have "\<exists>k. g * 2 = 2 ^ k" by (intro exI[of _ "Suc k"]) simp
    then have "n \<le> grow_groups (g * 2) n * 7 \<and> (\<exists>k. grow_groups (g * 2) n = 2 ^ k) \<and>
        (grow_groups (g * 2) n = 1 \<or> (grow_groups (g * 2) n div 2) * 7 < n) \<and> g * 2 \<le> grow_groups (g * 2) n"
      using "1.IH" "1.prems"(1) True by auto
    moreover have "grow_groups g n = grow_groups (g * 2) n" using True "1.prems"(1) by (simp add: grow_groups.simps[of g n])
    ultimately show ?thesis using "1.prems"(1) by auto
  next
    case False
    then have "grow_groups g n = g" by (simp add: grow_groups.simps[of g n])
    then show ?thesis using "1.prems" False by simp
  qed
qed

text \<open>
  The slots of a map of n entries are eight per group for the least power of two of groups that
  keeps every group at most seven-eighths full, so between 8/7 and 16/7 slots an entry once the
  map has grown past one group.
\<close>

lemma mapSlotsFor_least:
  assumes "0 < n" "mapSlotsFor n = (slots, grown)"
  shows "\<exists>k. slots = 8 * 2 ^ k \<and> n \<le> 7 * 2 ^ k \<and> (\<forall>j < k. 7 * 2 ^ j < n) \<and> (grown \<longleftrightarrow> 7 < n)"
proof -
  let ?g = "grow_groups 1 n"
  have "\<exists>k. (1::int) = 2 ^ k" by (rule exI[of _ 0]) simp
  then have sp: "n \<le> ?g * 7" "\<exists>k. ?g = 2 ^ k" "?g = 1 \<or> (?g div 2) * 7 < n" using grow_groups_spec[of 1 n] by auto
  then obtain k where k: "?g = 2 ^ k" by blast
  have least: "7 * 2 ^ j < n" if j: "j < k" for j
  proof -
    obtain m where m: "k = Suc m" "j \<le> m" using j by (cases k) auto
    then have "(2::int) ^ j \<le> 2 ^ m" by simp
    moreover have "2 ^ m * 7 < n" using sp(3) k m(1) by (auto dest: arg_cong[where f = even])
    ultimately show ?thesis by linarith
  qed
  have "?g > 1 \<longleftrightarrow> 7 < n" using sp(1) k least[of 0] by (cases k) auto
  then show ?thesis using assms k sp(1) least by (auto simp: mapSlotsFor_def Let_def mult.commute)
qed

section \<open>What a republication releases\<close>

lemma remap_outcome_heap:
  assumes d: "distinct (map seg_ID (entries s))" "distinct (map b_ID blobs)"
    and ids: "b_ID ` set blobs = seg_ID ` {en \<in> set (entries s). heapPayload en > 0}"
    and dec: "\<forall>b \<in> set blobs. \<exists>p. f_Decode f (b_Bytes b) = Ret p \<and>
      (\<forall>en \<in> set (entries s). seg_ID en = b_ID b \<longrightarrow> s_HeapBytes f p = s_HeapBytes f (payload en))"
    and en: "en \<in> set (entries s)"
  shows "heapPayload (remap_outcome f blobs en) \<le> 0"
    "entryHeapBytes f store (remap_outcome f blobs en) = entryHeapBytes f store en - max 0 (heapPayload en)"
proof -
  let ?m = "map_of (map (\<lambda>b. (b_ID b, f_Decode f (b_Bytes b))) blobs)"
  have "heapPayload (remap_outcome f blobs en) \<le> 0 \<and>
    entryHeapBytes f store (remap_outcome f blobs en) = entryHeapBytes f store en - max 0 (heapPayload en)"
  proof (cases "heapPayload en > 0")
    case True
    then have "seg_ID en \<in> b_ID ` set blobs" using ids en by blast
    then obtain b where b: "b \<in> set blobs" "b_ID b = seg_ID en" by (auto simp: image_iff)
    then obtain p where p: "f_Decode f (b_Bytes b) = Ret p" "s_HeapBytes f p = s_HeapBytes f (payload en)"
      using dec en by fastforce
    have "?m (seg_ID en) = Some (Ret p)" using b p(1) d(2) by (intro map_of_is_SomeI) (force simp: comp_def)+
    then have "remap_outcome f blobs en = en\<lparr>payload := p, heapPayload := 0\<rparr>" by (simp add: remap_outcome_def)
    then show ?thesis using True p(2) by (simp add: entryHeapBytes_def)
  next
    case False
    have "seg_ID en \<notin> b_ID ` set blobs"
    proof
      assume "seg_ID en \<in> b_ID ` set blobs"
      then obtain en' where "en' \<in> set (entries s)" "heapPayload en' > 0" "seg_ID en' = seg_ID en" using ids by auto
      then have "en' = en" using d(1) en by (metis distinct_map inj_on_def)
      then show False using False \<open>heapPayload en' > 0\<close> by simp
    qed
    then have "?m (seg_ID en) = None" by (auto simp: map_of_eq_None_iff)
    then have "remap_outcome f blobs en = en" by (simp add: remap_outcome_def)
    then show ?thesis using False by simp
  qed
  then show "heapPayload (remap_outcome f blobs en) \<le> 0"
    "entryHeapBytes f store (remap_outcome f blobs en) = entryHeapBytes f store en - max 0 (heapPayload en)" by blast+
qed

text \<open>
  the work list is honest. When every segment that \<open>HeapBackedResidentIDs\<close> lists is republished
  from a stored copy that decodes to a payload declaring the same heap, no resident segment holds
  its blob on the heap any more, and the modelled heap falls by exactly the blob bytes the listed
  segments retained.
\<close>

lemma remap_of_work_list_releases_heap:
  assumes ok: "engine_ok f e" and d: "distinct (map b_ID blobs)" and ids: "set (map b_ID blobs) = set (HeapBackedResidentIDs e)"
    and dec: "\<forall>b \<in> set blobs. \<exists>p. f_Decode f (b_Bytes b) = Ret p \<and>
      (\<forall>en \<in> set (entries (e_set e)). seg_ID en = b_ID b \<longrightarrow> s_HeapBytes f p = s_HeapBytes f (payload en))"
  shows "\<exists>e' ocs. RemapResidentBatch f blobs e = (e', Ret ocs) \<and> HeapBackedResidentIDs e' = [] \<and>
    ResidentHeapBytes f e' = ResidentHeapBytes f e - (\<Sum>en \<leftarrow> entries (e_set e). max 0 (heapPayload en))"
proof -
  let ?E = "entries (e_set e)"
  have "list_all (decodes_or_fails f) blobs" using dec by (fastforce simp: list_all_iff decodes_or_fails_def)
  then obtain e' ocs where r: "RemapResidentBatch f blobs e = (e', Ret ocs)" "e_store e' = e_store e"
      "base (e_set e') = base (e_set e)" "dropped (e_set e') = dropped (e_set e)" "staleIndex (e_set e') = staleIndex (e_set e)"
      "entries (e_set e') = map (remap_outcome f blobs) ?E"
    using RemapResidentBatch_spec[OF ok d] by blast
  have i: "b_ID ` set blobs = seg_ID ` {en \<in> set ?E. heapPayload en > 0}" using ids by (simp add: HeapBackedResidentIDs_def)
  note heap = remap_outcome_heap[OF engine_okD(3)[OF ok] d i dec]
  have "HeapBackedResidentIDs e' = []" using heap(1) by (force simp: HeapBackedResidentIDs_def r filter_empty_conv)
  moreover have "(\<Sum>en \<leftarrow> map (remap_outcome f blobs) es. entryHeapBytes f (e_store e) en) =
      (\<Sum>en \<leftarrow> es. entryHeapBytes f (e_store e) en) - (\<Sum>en \<leftarrow> es. max 0 (heapPayload en))" if "set es \<subseteq> set ?E" for es
    using that heap(2) by (induction es) auto
  ultimately show ?thesis using r by (auto simp: ResidentHeapBytes_def routeHeapBytes_def)
qed

lemma remap_of_work_list_releases_heap_witness:
  "\<exists>blobs e e' ocs. HeapBackedResidentIDs e = [''A''] \<and> RemapResidentBatch ids_format blobs e = (e', Ret ocs) \<and>
     HeapBackedResidentIDs e' = [] \<and> ResidentHeapBytes ids_format e' = ResidentHeapBytes ids_format e - 5"
proof -
  let ?en = "(ids_entry ''A'' 0 [''x''])\<lparr>heapPayload := 5\<rparr>"
  let ?e = "(New ids_format)\<lparr>e_set := newSegmentSet ids_format [?en], e_store := [newLiveDocs 1]\<rparr>"
  let ?b = "\<lparr>b_ID = ''A'', b_Format = ''ids'', b_Generation = 0, b_DocCount = 1, b_Bytes = ids_encode [''x''], b_Envelope = [],
    b_Mapped = True, b_Borrowed = False\<rparr>"
  have "entry_live_ok [newLiveDocs 1] ?en"
    using engine_okD(5)[OF ids_engine_ok[of "[(''A'', [''x''])]"], of "ids_entry ''A'' 0 [''x'']"]
    by (simp add: entry_live_ok_def ids_engine_def)
  then have ok: "engine_ok ids_format ?e" by (simp add: engine_ok_def set_ok_new entries_ok_def ids_entry_def gomap_ok_def)
  have x: "ids_decode (ids_encode [''x'']) = Ret [''x'']" by code_simp
  have h: "HeapBackedResidentIDs ?e = [''A'']" by (simp add: HeapBackedResidentIDs_def)
  have "\<exists>e' ocs. RemapResidentBatch ids_format [?b] ?e = (e', Ret ocs) \<and> HeapBackedResidentIDs e' = [] \<and>
    ResidentHeapBytes ids_format e' = ResidentHeapBytes ids_format ?e - (\<Sum>en \<leftarrow> entries (e_set ?e). max 0 (heapPayload en))"
    by (rule remap_of_work_list_releases_heap[OF ok]) (simp, simp only: h, simp, simp add: x ids_format_def)
  then obtain e' ocs where "RemapResidentBatch ids_format [?b] ?e = (e', Ret ocs)" "HeapBackedResidentIDs e' = []"
    "ResidentHeapBytes ids_format e' = ResidentHeapBytes ids_format ?e - 5" by auto
  then show ?thesis using h by blast
qed

end
