(* ===== verification/Scratch.thy ===== *)
theory Scratch
  imports Format
begin

text \<open>
  \<open>openMergeScratch\<close>, \<open>forgetMergeScratch\<close> and \<open>sweepStaleScratchLocked\<close> of
  \<open>internal/searchengine/merge_entry.go\<close>, and the life of a scratch file in \<open>mergeEntry\<close>.

  A merge writes its output to a file of \<open>ScratchDir\<close>, maps it and unlinks it. Several merges
  of one engine run at once, each open sweeps the directory first, and a file is protected from
  a sibling's sweep by the engine's claim on its name, \<open>scratchLive\<close>. The directory is its
  regular files with their content and its subdirectories; the answers of the operating system
  are the arguments of an operation (\<open>scratch_os\<close>). A call that holds \<open>scratchMu\<close> is one step:
  meanwhile the other merges touch only files they have claimed, which the sweep skips.

  \<open>os.CreateTemp\<close> makes a file that did not exist. That its random name is not
  one still claimed by a merge that has unlinked its file and not yet returned is a
  premise of the step \<open>opens\<close>.
\<close>

section \<open>The operations\<close>

record scratch =
  sc_files :: "(string, byte list) gomap"
  sc_dirs :: "string list"
  sc_live :: "string list"

record scratch_os =
  os_mkdir :: "engine_error option"
  os_readdir :: "engine_error option"
  os_remove :: "string \<Rightarrow> engine_error option"
  os_create :: "engine_error + string"

fun sweep_each :: "scratch_os \<Rightarrow> string list \<Rightarrow> scratch \<Rightarrow> scratch \<times> engine_error option" where
  "sweep_each os [] s = (s, None)"
| "sweep_each os (nm # nms) s =
     (if nm \<in> set (sc_dirs s) \<or> nm \<in> set (sc_live s) then sweep_each os nms s
      else case os_remove os nm of
             Some err \<Rightarrow> (s, Some (Wrap ''removing stale merge scratch'' err))
           | None \<Rightarrow> sweep_each os nms (s\<lparr>sc_files := AList.delete nm (sc_files s)\<rparr>))"

definition sweepStaleScratchLocked :: "scratch_os \<Rightarrow> scratch \<Rightarrow> scratch \<times> engine_error option" where
  "sweepStaleScratchLocked os s =
     (case os_readdir os of
        Some err \<Rightarrow> (s, Some (Wrap ''reading merge scratch directory'' err))
      | None \<Rightarrow> sweep_each os (sort (map fst (sc_files s) @ sc_dirs s)) s)"

text \<open>An unset \<open>ScratchDir\<close> is the system's temporary directory: never created, never swept.\<close>

definition prepare_dir :: "scratch_os \<Rightarrow> bool \<Rightarrow> scratch \<Rightarrow> scratch \<times> engine_error option" where
  "prepare_dir os dirSet s =
     (if \<not> dirSet then (s, None)
      else case os_mkdir os of
             Some err \<Rightarrow> (s, Some (Wrap ''creating merge scratch directory'' err))
           | None \<Rightarrow> sweepStaleScratchLocked os s)"

definition openMergeScratch :: "scratch_os \<Rightarrow> bool \<Rightarrow> scratch \<Rightarrow> scratch \<times> string outcome" where
  "openMergeScratch os dirSet s =
     (case prepare_dir os dirSet s of
        (s, Some err) \<Rightarrow> (s, Fail err)
      | (s, None) \<Rightarrow>
          (case os_create os of
             Inl err \<Rightarrow> (s, Fail (Wrap ''creating merge scratch'' err))
           | Inr name \<Rightarrow>
               (s\<lparr>sc_files := AList.update name [] (sc_files s), sc_live := List.insert name (sc_live s)\<rparr>, Ret name)))"

definition forgetMergeScratch :: "string \<Rightarrow> scratch \<Rightarrow> scratch" where
  "forgetMergeScratch name s = s\<lparr>sc_live := removeAll name (sc_live s)\<rparr>"

section \<open>What a sweep removes\<close>

lemma sweep_each_frame:
  "sc_dirs (fst (sweep_each os nms s)) = sc_dirs s" "sc_live (fst (sweep_each os nms s)) = sc_live s"
  by (induction nms arbitrary: s) (auto split: option.split)

lemma sweep_each_gomap: "gomap_ok (sc_files s) \<Longrightarrow> gomap_ok (sc_files (fst (sweep_each os nms s)))"
  by (induction nms arbitrary: s) (auto split: option.split)

text \<open>A claimed file is untouched, whether the sweep ends in an error or not.\<close>

lemma sweep_each_claimed:
  "n \<in> set (sc_live s) \<Longrightarrow> map_of (sc_files (fst (sweep_each os nms s))) n = map_of (sc_files s) n"
  by (induction nms arbitrary: s) (auto simp: delete_conv' split: option.split)

lemma sweep_each_removes:
  assumes "snd (sweep_each os nms s) = None" "n \<notin> set (sc_live s)" "n \<notin> set (sc_dirs s)"
  shows "map_of (sc_files (fst (sweep_each os nms s))) n = (if n \<in> set nms then None else map_of (sc_files s) n)"
  using assms by (induction nms arbitrary: s) (auto simp: delete_conv' split: option.splits if_splits)

lemma sweep_frame [simp]:
  "sc_dirs (fst (sweepStaleScratchLocked os s)) = sc_dirs s" "sc_live (fst (sweepStaleScratchLocked os s)) = sc_live s"
  by (simp_all add: sweepStaleScratchLocked_def sweep_each_frame split: option.split)

lemma sweep_removes_stale:
  assumes "snd (sweepStaleScratchLocked os s) = None" "n \<notin> set (sc_dirs s)"
  shows "map_of (sc_files (fst (sweepStaleScratchLocked os s))) n = (if n \<in> set (sc_live s) then map_of (sc_files s) n else None)"
proof (cases "n \<in> set (sc_live s)")
  case True
  then show ?thesis by (simp add: sweepStaleScratchLocked_def sweep_each_claimed split: option.split)
next
  case False
  have "map_of (sc_files s) n = None" if "n \<notin> fst ` set (sc_files s)" using that by (simp add: map_of_eq_None_iff)
  then show ?thesis using assms False
    by (auto simp: sweepStaleScratchLocked_def sweep_each_removes split: option.splits)
qed

lemma prepare_frame [simp]:
  "sc_dirs (fst (prepare_dir os dirSet s)) = sc_dirs s" "sc_live (fst (prepare_dir os dirSet s)) = sc_live s"
  by (simp_all add: prepare_dir_def split: option.split)

lemma prepare_claimed:
  "n \<in> set (sc_live s) \<Longrightarrow> map_of (sc_files (fst (prepare_dir os dirSet s))) n = map_of (sc_files s) n"
  by (simp add: prepare_dir_def sweepStaleScratchLocked_def sweep_each_claimed split: option.split)

lemma openMergeScratch_cases:
  assumes "openMergeScratch os dirSet s = (s', r)"
  obtains (failed) err where "r = Fail err" "s' = fst (prepare_dir os dirSet s)"
    | (opened) name where "r = Ret name" "os_create os = Inr name" "snd (prepare_dir os dirSet s) = None"
        "s' = (fst (prepare_dir os dirSet s))\<lparr>sc_files := AList.update name [] (sc_files (fst (prepare_dir os dirSet s))),
           sc_live := List.insert name (sc_live s)\<rparr>"
proof -
  obtain p r' where p: "prepare_dir os dirSet s = (p, r')" by fastforce
  have "sc_live p = sc_live s" using prepare_frame(2)[of os dirSet s] p by simp
  then show ?thesis using assms that by (auto simp: openMergeScratch_def p split: option.splits sum.splits)
qed

section \<open>Concurrent merges\<close>

text \<open>
  A merge between its open and its return: it writes its file, then the file is unlinked, by the
  deferred cleanup when something failed before the mapping or by \<open>mergeEntry\<close> itself after
  it, and at the return the claim is dropped. A failed unlink leaves the file.
\<close>

datatype merge_phase = Writing string "byte list" | Unlinked string

fun phase_name :: "merge_phase \<Rightarrow> string" where
  "phase_name (Writing name c) = name"
| "phase_name (Unlinked name) = name"

record scratch_sys =
  sy_dir :: scratch
  sy_merges :: "(nat, merge_phase) gomap"

definition scratch_start :: "scratch_sys \<Rightarrow> bool" where
  "scratch_start y \<longleftrightarrow> sy_merges y = [] \<and> sc_live (sy_dir y) = [] \<and> gomap_ok (sc_files (sy_dir y))"

text \<open>
  \<open>crash\<close> is the process ending and its successor starting: no claim survives, the files do.
  \<open>foreign\<close> is a file or directory that some other program puts there.
\<close>

inductive scratch_step :: "bool \<Rightarrow> scratch_sys \<Rightarrow> scratch_sys \<Rightarrow> bool" for dirSet where
  opens: "\<lbrakk>openMergeScratch os dirSet (sy_dir y) = (d, Ret name);
      name \<notin> fst ` set (sc_files (fst (prepare_dir os dirSet (sy_dir y)))); name \<notin> set (sc_dirs (sy_dir y));
      name \<notin> set (sc_live (sy_dir y)); w \<notin> gm_keys (sy_merges y)\<rbrakk>
    \<Longrightarrow> scratch_step dirSet y (y\<lparr>sy_dir := d, sy_merges := AList.update w (Writing name []) (sy_merges y)\<rparr>)"
| open_fails: "openMergeScratch os dirSet (sy_dir y) = (d, Fail err) \<Longrightarrow> scratch_step dirSet y (y\<lparr>sy_dir := d\<rparr>)"
| writes: "\<lbrakk>map_of (sy_merges y) w = Some (Writing name c); map_of (sc_files (sy_dir y)) name = Some old\<rbrakk>
    \<Longrightarrow> scratch_step dirSet y (y\<lparr>sy_dir := (sy_dir y)\<lparr>sc_files := AList.update name bs (sc_files (sy_dir y))\<rparr>,
          sy_merges := AList.update w (Writing name bs) (sy_merges y)\<rparr>)"
| unlinks: "map_of (sy_merges y) w = Some (Writing name c)
    \<Longrightarrow> scratch_step dirSet y (y\<lparr>sy_dir := (sy_dir y)\<lparr>sc_files := AList.delete name (sc_files (sy_dir y))\<rparr>,
          sy_merges := AList.update w (Unlinked name) (sy_merges y)\<rparr>)"
| unlink_fails: "map_of (sy_merges y) w = Some (Writing name c)
    \<Longrightarrow> scratch_step dirSet y (y\<lparr>sy_merges := AList.update w (Unlinked name) (sy_merges y)\<rparr>)"
| returns: "map_of (sy_merges y) w = Some (Unlinked name)
    \<Longrightarrow> scratch_step dirSet y (y\<lparr>sy_dir := forgetMergeScratch name (sy_dir y), sy_merges := AList.delete w (sy_merges y)\<rparr>)"
| crash: "scratch_step dirSet y (y\<lparr>sy_dir := (sy_dir y)\<lparr>sc_live := []\<rparr>, sy_merges := []\<rparr>)"
| foreign: "\<lbrakk>name \<notin> fst ` set (sc_files (sy_dir y)); name \<notin> set (sc_live (sy_dir y))\<rbrakk>
    \<Longrightarrow> scratch_step dirSet y (y\<lparr>sy_dir := (sy_dir y)\<lparr>sc_files := AList.update name bs (sc_files (sy_dir y))\<rparr>\<rparr>)"

text \<open>
  The claims are exactly the names of the merges in flight, no two merges share one, and the file
  of a merge that is writing holds what it wrote.
\<close>

definition claims_ok :: "(nat \<rightharpoonup> merge_phase) \<Rightarrow> string set \<Rightarrow> (string \<rightharpoonup> byte list) \<Rightarrow> bool" where
  "claims_ok M L F \<longleftrightarrow> L = phase_name ` ran M \<and>
     (\<forall>w v p q. M w = Some p \<and> M v = Some q \<and> phase_name p = phase_name q \<longrightarrow> w = v) \<and>
     (\<forall>w name c. M w = Some (Writing name c) \<longrightarrow> F name = Some c)"

definition scratch_inv :: "scratch_sys \<Rightarrow> bool" where
  "scratch_inv y \<longleftrightarrow> claims_ok (map_of (sy_merges y)) (set (sc_live (sy_dir y))) (map_of (sc_files (sy_dir y)))"

definition files_intact :: "scratch_sys \<Rightarrow> bool" where
  "files_intact y \<longleftrightarrow>
     (\<forall>w name c. map_of (sy_merges y) w = Some (Writing name c) \<longrightarrow> map_of (sc_files (sy_dir y)) name = Some c) \<and>
     (sy_merges y = [] \<longrightarrow> sc_live (sy_dir y) = [])"

lemma claims_okI:
  assumes "L = phase_name ` ran M" "\<And>w v p q. M w = Some p \<Longrightarrow> M v = Some q \<Longrightarrow> phase_name p = phase_name q \<Longrightarrow> w = v"
    "\<And>w name c. M w = Some (Writing name c) \<Longrightarrow> F name = Some c"
  shows "claims_ok M L F"
  using assms unfolding claims_ok_def by blast

lemma claims_okD:
  assumes "claims_ok M L F"
  shows "M w = Some p \<Longrightarrow> phase_name p \<in> L" "M w = Some p \<Longrightarrow> M v = Some q \<Longrightarrow> phase_name p = phase_name q \<Longrightarrow> w = v"
    "M w = Some (Writing name c) \<Longrightarrow> F name = Some c" "L = phase_name ` ran M"
  using assms unfolding claims_ok_def by (blast intro: ranI)+

lemma claims_ok_open:
  assumes "claims_ok M L F" "M w = None" "name \<notin> L" "\<And>n. n \<in> L \<Longrightarrow> G n = F n"
  shows "claims_ok (M(w \<mapsto> Writing name [])) (insert name L) (G(name \<mapsto> []))"
proof -
  note I = claims_okD[OF assms(1)]
  have fresh: "phase_name p \<noteq> name" if "M v = Some p" for v p using I(1)[OF that] assms(3) by auto
  have "G n = Some c" "n \<noteq> name" if a: "M v = Some (Writing n c)" for v n c
    using I(1)[OF a] I(3)[OF a] assms(3,4) by auto
  moreover have "insert name L = phase_name ` ran (M(w \<mapsto> Writing name []))" using I(4) assms(2) by simp
  ultimately show ?thesis using I(2) fresh unfolding claims_ok_def by (simp, metis phase_name.simps(1))
qed

text \<open>A step that changes one merge's phase and keeps its name.\<close>

lemma claims_ok_phase:
  assumes "claims_ok M L F" "M w = Some p" "phase_name ph = phase_name p"
    "\<And>n. n \<noteq> phase_name p \<Longrightarrow> G n = F n" "\<And>name bs. ph = Writing name bs \<Longrightarrow> G name = Some bs"
  shows "claims_ok (M(w \<mapsto> ph)) L G"
proof -
  note I = claims_okD[OF assms(1)]
  have other: "n \<noteq> phase_name p" if a: "M v = Some (Writing n b)" "v \<noteq> w" for v n b
    using I(2)[OF a(1) assms(2)] a(2) by auto
  have "phase_name ` ran (M(w \<mapsto> ph)) = phase_name ` ran M"
    using assms(2,3) by (auto simp: ran_def image_iff) (metis option.inject)+
  then have "L = phase_name ` ran (M(w \<mapsto> ph))" using I(4) by simp
  moreover have "v = u" if "(M(w \<mapsto> ph)) v = Some a" "(M(w \<mapsto> ph)) u = Some b" "phase_name a = phase_name b" for v u a b
    using that assms(2,3) I(2) by (metis fun_upd_apply option.inject)
  moreover have "G n = Some c" if "(M(w \<mapsto> ph)) v = Some (Writing n c)" for v n c
    using that I(3)[of v n c] other[of v n c] assms(4)[of n] assms(5)[of n c] by (simp split: if_splits)
  ultimately show ?thesis by (rule claims_okI)
qed

lemma claims_ok_return:
  assumes "claims_ok M L F" "M w = Some p"
  shows "claims_ok (M(w := None)) (L - {phase_name p}) F"
proof -
  note I = claims_okD[OF assms(1)]
  have uniq: "v = w" if "M v = Some q" "phase_name q = phase_name p" for v q using I(2)[OF that(1) assms(2) that(2)] .
  have "L - {phase_name p} = phase_name ` ran (M(w := None))"
  proof (intro equalityI subsetI)
    fix n assume "n \<in> L - {phase_name p}"
    then obtain v q where "M v = Some q" "phase_name q = n" "v \<noteq> w" using I(4) assms(2) by (force simp: ran_def)
    then show "n \<in> phase_name ` ran (M(w := None))" by (auto simp: ran_def)
  next
    fix n assume "n \<in> phase_name ` ran (M(w := None))"
    then obtain v q where v: "M v = Some q" "phase_name q = n" "v \<noteq> w" by (auto simp: ran_def split: if_splits)
    then show "n \<in> L - {phase_name p}" using uniq[OF v(1)] I(1)[OF v(1)] by blast
  qed
  moreover have "v = u" if "(M(w := None)) v = Some a" "(M(w := None)) u = Some b" "phase_name a = phase_name b" for v u a b
    using that I(2)[of v a u b] by (simp split: if_splits)
  moreover have "F n = Some c" if "(M(w := None)) v = Some (Writing n c)" for v n c
    using that I(3)[of v n c] by (simp split: if_splits)
  ultimately show ?thesis by (rule claims_okI)
qed

lemma claims_ok_files:
  assumes "claims_ok M L F" "\<And>n. n \<in> L \<Longrightarrow> G n = F n" shows "claims_ok M L G"
  using assms(2) claims_okD(1)[OF assms(1)] assms(1) unfolding claims_ok_def by (metis phase_name.simps(1))

lemma scratch_inv_step: "scratch_step dirSet y z \<Longrightarrow> scratch_inv y \<Longrightarrow> scratch_inv z"
proof (induction rule: scratch_step.induct)
  case (opens os y d name w)
  then have "map_of (sy_merges y) w = None" by (simp add: gm_keys_iff)
  then show ?case using opens(6) claims_ok_open[OF opens(6)[unfolded scratch_inv_def], of w name "map_of (sc_files (fst (prepare_dir os dirSet (sy_dir y))))"] opens(4)
    by (cases rule: openMergeScratch_cases[OF opens(1)]) (simp_all add: scratch_inv_def update_conv' prepare_claimed)
next
  case (open_fails os y d err)
  from open_fails(1) have "d = fst (prepare_dir os dirSet (sy_dir y))" by (cases rule: openMergeScratch_cases[OF open_fails(1)]) auto
  then show ?case using open_fails(2) by (auto simp: scratch_inv_def prepare_claimed intro: claims_ok_files)
next
  case (writes y w name c old bs)
  then show ?case by (auto simp: scratch_inv_def update_conv' intro: claims_ok_phase)
next
  case (unlinks y w name c)
  then show ?case by (auto simp: scratch_inv_def update_conv' delete_conv' intro: claims_ok_phase)
next
  case (unlink_fails y w name c)
  then show ?case by (auto simp: scratch_inv_def update_conv' intro: claims_ok_phase)
next
  case (returns y w name)
  then show ?case using claims_ok_return[OF returns(2)[unfolded scratch_inv_def] returns(1)]
    by (simp add: scratch_inv_def forgetMergeScratch_def delete_conv')
next
  case (crash y)
  then show ?case by (simp add: scratch_inv_def claims_ok_def)
next
  case (foreign name y bs)
  then show ?case by (auto simp: scratch_inv_def update_conv' intro: claims_ok_files)
qed

interpretation scratch_files: transition_system scratch_start "scratch_step dirSet" scratch_inv files_intact for dirSet
proof
  show "scratch_start s \<Longrightarrow> scratch_inv s" for s by (simp add: scratch_start_def scratch_inv_def claims_ok_def)
  show "scratch_step dirSet s t \<Longrightarrow> scratch_inv s \<Longrightarrow> scratch_inv t" for s t by (rule scratch_inv_step)
  show "scratch_inv s \<Longrightarrow> files_intact s" for s
    by (auto simp: scratch_inv_def files_intact_def claims_ok_def)
qed

text \<open>
  C22: no sweep takes a sibling's output. In every state that concurrent merges of one engine reach,
  through opens that sweep, writes, unlinks that succeed or fail, returns, crashes and
  foreign files, the scratch file of each merge that is writing exists and holds exactly what that
  merge wrote; when no merge is in flight no claim is left; and an open that succeeds in a
  set \<open>ScratchDir\<close> has removed every regular file except those of merges in flight.
\<close>

theorem sweep_spares_sibling_output:
  assumes reach: "(scratch_step dirSet)\<^sup>*\<^sup>* y0 y" and start: "scratch_start y0"
  shows "(\<forall>w name c. map_of (sy_merges y) w = Some (Writing name c) \<longrightarrow> map_of (sc_files (sy_dir y)) name = Some c) \<and>
    (sy_merges y = [] \<longrightarrow> sc_live (sy_dir y) = []) \<and>
    (\<forall>os d name n. openMergeScratch os True (sy_dir y) = (d, Ret name) \<and> n \<notin> set (sc_dirs (sy_dir y)) \<and> n \<noteq> name \<and>
       (\<forall>w ph. map_of (sy_merges y) w = Some ph \<longrightarrow> phase_name ph \<noteq> n) \<longrightarrow> map_of (sc_files d) n = None)"
proof (intro conjI)
  have i: "scratch_inv y" and g: "files_intact y"
    using scratch_files.reach_inv[OF reach start] scratch_files.reach_guarantee[OF reach start] by blast+
  show "\<forall>w name c. map_of (sy_merges y) w = Some (Writing name c) \<longrightarrow> map_of (sc_files (sy_dir y)) name = Some c"
    "sy_merges y = [] \<longrightarrow> sc_live (sy_dir y) = []" using g by (auto simp: files_intact_def)
  show "\<forall>os d name n. openMergeScratch os True (sy_dir y) = (d, Ret name) \<and> n \<notin> set (sc_dirs (sy_dir y)) \<and> n \<noteq> name \<and>
       (\<forall>w ph. map_of (sy_merges y) w = Some ph \<longrightarrow> phase_name ph \<noteq> n) \<longrightarrow> map_of (sc_files d) n = None"
  proof (intro allI impI, elim conjE)
    fix os d name n
    assume o: "openMergeScratch os True (sy_dir y) = (d, Ret name)" and n: "n \<notin> set (sc_dirs (sy_dir y))" "n \<noteq> name"
      and un: "\<forall>w ph. map_of (sy_merges y) w = Some ph \<longrightarrow> phase_name ph \<noteq> n"
    have "n \<notin> set (sc_live (sy_dir y))" using claims_okD(4)[OF i[unfolded scratch_inv_def]] un by (auto simp: ran_def)
    then show "map_of (sc_files d) n = None"
      using o n by (cases rule: openMergeScratch_cases[OF o])
        (auto simp: update_conv' prepare_dir_def sweep_removes_stale split: option.splits)
  qed
qed

lemma sweep_spares_sibling_output_witness:
  "map_of (sc_files (fst (openMergeScratch \<lparr>os_mkdir = None, os_readdir = None, os_remove = \<lambda>_. None, os_create = Inr ''m2''\<rparr> True
      \<lparr>sc_files = [(''m1'', [7])], sc_dirs = [], sc_live = [''m1'']\<rparr>))) ''m1'' = Some [7]"
proof -
  let ?os = "\<lambda>n. \<lparr>os_mkdir = None, os_readdir = None, os_remove = \<lambda>_. None, os_create = Inr n\<rparr>"
  let ?y0 = "\<lparr>sy_dir = \<lparr>sc_files = [(''old'', [1])], sc_dirs = [], sc_live = []\<rparr>, sy_merges = []\<rparr>"
  let ?y1 = "\<lparr>sy_dir = \<lparr>sc_files = [(''m1'', [])], sc_dirs = [], sc_live = [''m1'']\<rparr>, sy_merges = [(0, Writing ''m1'' [])]\<rparr>"
  let ?y2 = "\<lparr>sy_dir = \<lparr>sc_files = [(''m1'', [7])], sc_dirs = [], sc_live = [''m1'']\<rparr>, sy_merges = [(0, Writing ''m1'' [7])]\<rparr>"
  let ?y3 = "\<lparr>sy_dir = \<lparr>sc_files = [(''m1'', [7]), (''m2'', [])], sc_dirs = [], sc_live = [''m2'', ''m1'']\<rparr>,
     sy_merges = [(0, Writing ''m1'' [7]), (1, Writing ''m2'' [])]\<rparr>"
  note defs = openMergeScratch_def prepare_dir_def sweepStaleScratchLocked_def gm_keys_def
  have "scratch_step True ?y0 ?y1" using scratch_step.opens[of "?os ''m1''" True ?y0 _ "''m1''" 0] by (simp add: defs)
  moreover have "scratch_step True ?y1 ?y2" using scratch_step.writes[of ?y1 0 "''m1''" "[]" "[]" True "[7]"] by simp
  moreover have o: "openMergeScratch (?os ''m2'') True (sy_dir ?y2) = (sy_dir ?y3, Ret ''m2'')" by (simp add: defs)
  moreover have "scratch_step True ?y2 ?y3" using scratch_step.opens[OF o, of 1] by (simp add: defs)
  ultimately have "(scratch_step True)\<^sup>*\<^sup>* ?y0 ?y3" by (meson converse_rtranclp_into_rtranclp rtranclp.rtrancl_refl)
  moreover have "scratch_start ?y0" by (simp add: scratch_start_def gomap_ok_def)
  ultimately have "map_of (sc_files (sy_dir ?y3)) ''m1'' = Some [7]"
    using sweep_spares_sibling_output[of True ?y0 ?y3] by simp
  then show ?thesis using o by simp
qed


end
