(* ===== verification/Bm25Tokenizer.thy ===== *)
theory Bm25Tokenizer
  imports Prelude
begin

text \<open>
  \<open>internal/searchengine/formats/bm25/tokenizer.go\<close> and \<open>strings.go\<close>: text to a map of
  lowered tokens with their counts.

  A Go string is its bytes, one \<open>char\<close> each. \<open>utf8.DecodeRuneInString\<close>, \<open>utf8.AppendRune\<close> and
  \<open>strings.ToLower\<close> are written out; the three Unicode tables behind them
  (\<open>unicode.IsLetter\<close>, \<open>unicode.IsDigit\<close>, \<open>unicode.ToLower\<close>) are the record \<open>unicode_tables\<close>, an
  argument of everything that reaches them. A callback of the Go code is a function from the
  token map to the token map.

  Shown: every token of ASCII text is at least two bytes of lower-case word characters; the
  pre-lowered ASCII path computes what the per-word path does; slicing the pre-lowered word is
  lowering the part on ASCII words, and is not on every word of equal lowered length.
\<close>

section \<open>The standard library's UTF-8\<close>

record unicode_tables =
  u_IsLetter :: "nat \<Rightarrow> bool"
  u_IsDigit :: "nat \<Rightarrow> bool"
  u_ToLower :: "nat \<Rightarrow> nat"

abbreviation byte_val :: "char \<Rightarrow> nat" where
  "byte_val c \<equiv> of_char c"

definition RuneError :: nat where
  "RuneError = 65533"

definition cont_byte :: "char \<Rightarrow> bool" where
  "cont_byte c \<longleftrightarrow> 128 \<le> byte_val c \<and> byte_val c < 192"

text \<open>The size a leading byte announces, and the range its second byte must lie in.\<close>

definition lead_byte :: "nat \<Rightarrow> (nat \<times> nat \<times> nat) option" where
  "lead_byte b =
     (if 194 \<le> b \<and> b < 224 then Some (2, 128, 191)
      else if b = 224 then Some (3, 160, 191)
      else if b = 237 then Some (3, 128, 159)
      else if 225 \<le> b \<and> b < 240 then Some (3, 128, 191)
      else if b = 240 then Some (4, 144, 191)
      else if 241 \<le> b \<and> b < 244 then Some (4, 128, 191)
      else if b = 244 then Some (4, 128, 143)
      else None)"

definition DecodeRuneInString :: "string \<Rightarrow> nat \<times> nat" where
  "DecodeRuneInString s =
     (case s of
        [] \<Rightarrow> (RuneError, 0)
      | c # _ \<Rightarrow>
          if byte_val c < 128 then (byte_val c, 1)
          else (case lead_byte (byte_val c) of
                  None \<Rightarrow> (RuneError, 1)
                | Some (sz, lo, hi) \<Rightarrow>
                    if length s < sz \<or> byte_val (s ! 1) < lo \<or> hi < byte_val (s ! 1) then (RuneError, 1)
                    else if sz = 2 then ((byte_val c mod 32) * 64 + byte_val (s ! 1) mod 64, 2)
                    else if \<not> cont_byte (s ! 2) then (RuneError, 1)
                    else if sz = 3 then ((byte_val c mod 16) * 4096 + (byte_val (s ! 1) mod 64) * 64 + byte_val (s ! 2) mod 64, 3)
                    else if \<not> cont_byte (s ! 3) then (RuneError, 1)
                    else ((byte_val c mod 8) * 262144 + (byte_val (s ! 1) mod 64) * 4096 + (byte_val (s ! 2) mod 64) * 64
                            + byte_val (s ! 3) mod 64, 4)))"

definition chr :: "nat \<Rightarrow> char" where
  "chr n = char_of n"

fun AppendRune :: "nat \<Rightarrow> string" where
  "AppendRune r =
     (if r < 128 then [chr r]
      else if r < 2048 then [chr (192 + r div 64), chr (128 + r mod 64)]
      else let r = (if 55296 \<le> r \<and> r < 57344 \<or> 1114111 < r then RuneError else r)
           in if r < 65536 then [chr (224 + r div 4096), chr (128 + r div 64 mod 64), chr (128 + r mod 64)]
              else [chr (240 + r div 262144), chr (128 + r div 4096 mod 64), chr (128 + r div 64 mod 64), chr (128 + r mod 64)])"

lemma lead_byte_size: "lead_byte b = Some (sz, lo, hi) \<Longrightarrow> 2 \<le> sz \<and> sz \<le> 4"
  by (auto simp: lead_byte_def split: if_splits)

lemma DecodeRune_size:
  assumes "s \<noteq> []"
  shows "1 \<le> snd (DecodeRuneInString s) \<and> snd (DecodeRuneInString s) \<le> length s"
proof -
  obtain c t where s: "s = c # t" using assms by (cases s) auto
  show ?thesis
  proof (cases "lead_byte (byte_val c)")
    case (Some x)
    obtain sz lo hi where x: "x = (sz, lo, hi)" by (cases x)
    then have "sz = 2 \<or> sz = 3 \<or> sz = 4" using lead_byte_size[of "byte_val c" sz lo hi] Some by auto
    then have "snd (DecodeRuneInString s) = 1 \<or> snd (DecodeRuneInString s) = sz \<and> sz \<le> length s"
      unfolding s using Some x by (elim disjE) (simp_all add: DecodeRuneInString_def Suc_le_eq)
    then show ?thesis using \<open>sz = 2 \<or> _\<close> s by auto
  qed (simp add: s DecodeRuneInString_def)
qed

lemma DecodeRune_size':
  "(r, n) = DecodeRuneInString s \<Longrightarrow> s \<noteq> [] \<Longrightarrow> 1 \<le> n \<and> n \<le> length s"
  using DecodeRune_size[of s] by (metis snd_conv)

text \<open>\<open>strings.ToLower\<close> of a string with a non-ASCII byte is \<open>strings.Map(unicode.ToLower, s)\<close>.\<close>

function strings_ToLower :: "unicode_tables \<Rightarrow> string \<Rightarrow> string" where
  "strings_ToLower u s =
     (if s = [] then []
      else let (r, n) = DecodeRuneInString s in AppendRune (u_ToLower u r) @ strings_ToLower u (drop n s))"
  by pat_completeness auto
termination
proof (relation "measure (\<lambda>(u, s). length s)", goal_cases)
  case (2 u s x r n)
  then show ?case using DecodeRune_size'[of r n s] by auto
qed simp

declare strings_ToLower.simps [simp del] AppendRune.simps [simp del]

section \<open>Lowering\<close>

definition isASCII :: "string \<Rightarrow> bool" where
  "isASCII s \<longleftrightarrow> list_all (\<lambda>c. byte_val c < 128) s"

definition isUpperASCII :: "char \<Rightarrow> bool" where
  "isUpperASCII b \<longleftrightarrow> CHR ''A'' \<le> b \<and> b \<le> CHR ''Z''"

definition isLowerASCII :: "char \<Rightarrow> bool" where
  "isLowerASCII b \<longleftrightarrow> CHR ''a'' \<le> b \<and> b \<le> CHR ''z''"

definition isDigitASCII :: "char \<Rightarrow> bool" where
  "isDigitASCII b \<longleftrightarrow> CHR ''0'' \<le> b \<and> b \<le> CHR ''9''"

definition lower_byte :: "char \<Rightarrow> char" where
  "lower_byte b = (if isUpperASCII b then chr (byte_val b + 32) else b)"

definition toLowerASCII :: "unicode_tables \<Rightarrow> string \<Rightarrow> string" where
  "toLowerASCII u s =
     (if \<not> isASCII s then strings_ToLower u s
      else if \<not> list_ex isUpperASCII s then s
      else map lower_byte s)"

section \<open>Words\<close>

definition isWordByte :: "char \<Rightarrow> bool" where
  "isWordByte b \<longleftrightarrow> isLowerASCII b \<or> isUpperASCII b \<or> isDigitASCII b \<or> b = CHR ''_''"

text \<open>The byte-level span scanner; \<open>start\<close> is \<open>None\<close> where the code has -1.\<close>

fun scan_bytes :: "string \<Rightarrow> nat \<Rightarrow> nat option \<Rightarrow> (nat \<Rightarrow> nat \<Rightarrow> 'a \<Rightarrow> 'a) \<Rightarrow> 'a \<Rightarrow> 'a" where
  "scan_bytes [] i start fn st = (case start of Some s \<Rightarrow> fn s i st | None \<Rightarrow> st)"
| "scan_bytes (b # bs) i start fn st =
     (if isWordByte b \<and> start = None then scan_bytes bs (i + 1) (Some i) fn st
      else if \<not> isWordByte b \<and> start \<noteq> None then scan_bytes bs (i + 1) None fn (fn (the start) i st)
      else scan_bytes bs (i + 1) start fn st)"

definition substr :: "string \<Rightarrow> nat \<Rightarrow> nat \<Rightarrow> string" where
  "substr s i j = take (j - i) (drop i s)"

definition splitOnDelimitersFuncOffset :: "string \<Rightarrow> (nat \<Rightarrow> nat \<Rightarrow> 'a \<Rightarrow> 'a) \<Rightarrow> 'a \<Rightarrow> 'a" where
  "splitOnDelimitersFuncOffset s fn st = scan_bytes s 0 None fn st"

definition isWordRune :: "unicode_tables \<Rightarrow> nat \<Rightarrow> bool" where
  "isWordRune u r \<longleftrightarrow> u_IsLetter u r \<or> u_IsDigit u r \<or> r = byte_val CHR ''_''"

function scan_runes :: "unicode_tables \<Rightarrow> string \<Rightarrow> nat \<Rightarrow> nat option \<Rightarrow> (nat \<Rightarrow> nat \<Rightarrow> 'a \<Rightarrow> 'a) \<Rightarrow> 'a \<Rightarrow> 'a" where
  "scan_runes u s pos start fn st =
     (if pos < length s then
        (let (r, size) = DecodeRuneInString (drop pos s)
         in if isWordRune u r \<and> start = None then scan_runes u s (pos + size) (Some pos) fn st
            else if \<not> isWordRune u r \<and> start \<noteq> None then scan_runes u s (pos + size) None fn (fn (the start) pos st)
            else scan_runes u s (pos + size) start fn st)
      else (case start of Some p \<Rightarrow> fn p (length s) st | None \<Rightarrow> st))"
  by pat_completeness auto
termination
proof (relation "measure (\<lambda>(u, s, pos, start, fn, st). length s - pos)", goal_cases)
  case (2 u s pos start fn st x r n)
  then show ?case using DecodeRune_size'[of r n "drop pos s"] by auto
next
  case (3 u s pos start fn st x r n)
  then show ?case using DecodeRune_size'[of r n "drop pos s"] by auto
next
  case (4 u s pos start fn st x r n)
  then show ?case using DecodeRune_size'[of r n "drop pos s"] by auto
qed simp

declare scan_runes.simps [simp del]

definition splitOnDelimitersFunc :: "unicode_tables \<Rightarrow> string \<Rightarrow> (string \<Rightarrow> 'a \<Rightarrow> 'a) \<Rightarrow> 'a \<Rightarrow> 'a" where
  "splitOnDelimitersFunc u s fn st =
     (if isASCII s then scan_bytes s 0 None (\<lambda>i j. fn (substr s i j)) st
      else scan_runes u s 0 None (\<lambda>i j. fn (substr s i j)) st)"

section \<open>Tokens\<close>

type_synonym tokens = "(string, int) gomap"

definition incr :: "string \<Rightarrow> tokens \<Rightarrow> tokens" where
  "incr k m = AList.update k (case map_of m k of None \<Rightarrow> 1 | Some n \<Rightarrow> n + 1) m"

definition lowerPart :: "unicode_tables \<Rightarrow> string \<Rightarrow> string \<Rightarrow> nat \<Rightarrow> nat \<Rightarrow> string" where
  "lowerPart u word lower i j =
     (if length word = length lower then substr lower i j else toLowerASCII u (substr word i j))"

definition emitCamelPart :: "unicode_tables \<Rightarrow> string \<Rightarrow> string \<Rightarrow> nat \<Rightarrow> nat \<Rightarrow> tokens \<Rightarrow> tokens" where
  "emitCamelPart u word lower i j tokens =
     (if j - i < 2 then tokens
      else let pl = lowerPart u word lower i j in if pl \<noteq> lower then incr pl tokens else tokens)"

definition camel_split :: "string \<Rightarrow> nat \<Rightarrow> bool" where
  "camel_split word i \<longleftrightarrow>
     isLowerASCII (word ! (i - 1)) \<and> isUpperASCII (word ! i)
   \<or> i + 1 < length word \<and> isUpperASCII (word ! (i - 1)) \<and> isUpperASCII (word ! i) \<and> isLowerASCII (word ! (i + 1))"

function camel_loop :: "unicode_tables \<Rightarrow> string \<Rightarrow> string \<Rightarrow> nat \<Rightarrow> nat \<Rightarrow> tokens \<Rightarrow> tokens" where
  "camel_loop u word lower start i tokens =
     (if i < length word then
        if camel_split word i then camel_loop u word lower i (i + 1) (emitCamelPart u word lower start i tokens)
        else camel_loop u word lower start (i + 1) tokens
      else emitCamelPart u word lower start (length word) tokens)"
  by pat_completeness auto
termination
  by (relation "measure (\<lambda>(u, word, lower, start, i, tokens). length word - i)") auto

declare camel_loop.simps [simp del]

definition tokenizeCamelParts :: "unicode_tables \<Rightarrow> string \<Rightarrow> string \<Rightarrow> tokens \<Rightarrow> tokens" where
  "tokenizeCamelParts u word lower tokens = camel_loop u word lower 0 1 tokens"

text \<open>\<open>strings.SplitSeq(s, "_")\<close>.\<close>

fun split_underscore :: "string \<Rightarrow> string list" where
  "split_underscore [] = [[]]"
| "split_underscore (c # s) =
     (if c = CHR ''_'' then [] # split_underscore s
      else case split_underscore s of p # ps \<Rightarrow> (c # p) # ps | [] \<Rightarrow> [[c]])"

fun snake_loop :: "unicode_tables \<Rightarrow> string \<Rightarrow> string \<Rightarrow> string list \<Rightarrow> nat \<Rightarrow> tokens \<Rightarrow> tokens" where
  "snake_loop u word lower [] off tokens = tokens"
| "snake_loop u word lower (part # parts) off tokens =
     snake_loop u word lower parts (off + (length part + 1))
       (if length part \<ge> 2 then
          let partLower = lowerPart u word lower off (off + length part)
          in tokenizeCamelParts u part partLower (incr partLower tokens)
        else tokens)"

definition tokenizeSnakeCase :: "unicode_tables \<Rightarrow> string \<Rightarrow> string \<Rightarrow> tokens \<Rightarrow> tokens" where
  "tokenizeSnakeCase u word lower tokens = snake_loop u word lower (split_underscore word) 0 tokens"

definition tokenizeWord :: "unicode_tables \<Rightarrow> string \<Rightarrow> string \<Rightarrow> tokens \<Rightarrow> tokens" where
  "tokenizeWord u word lower tokens =
     (if CHR ''_'' \<in> set word then tokenizeSnakeCase u word lower tokens
      else tokenizeCamelParts u word lower tokens)"

text \<open>The two paths of \<open>tokenize\<close>: spans of a text lowered once, and words lowered one by one.\<close>

definition tokenize_spans :: "unicode_tables \<Rightarrow> string \<Rightarrow> tokens" where
  "tokenize_spans u s =
     (let lowerText = toLowerASCII u s
      in splitOnDelimitersFuncOffset s
           (\<lambda>i j tokens. if j - i < 2 then tokens
              else let word = substr s i j; lower = substr lowerText i j
                   in tokenizeWord u word lower (incr lower tokens)) [])"

definition tokenize_words :: "unicode_tables \<Rightarrow> string \<Rightarrow> tokens" where
  "tokenize_words u s =
     splitOnDelimitersFunc u s
       (\<lambda>word tokens. if length word < 2 then tokens
          else let lower = toLowerASCII u word in tokenizeWord u word lower (incr lower tokens)) []"

definition tokenize :: "unicode_tables \<Rightarrow> string \<Rightarrow> tokens" where
  "tokenize u s = (if isASCII s then tokenize_spans u s else tokenize_words u s)"

section \<open>The ASCII path and the per-word path agree\<close>

lemma isASCII_substr: "isASCII s \<Longrightarrow> isASCII (substr s i j)"
  unfolding isASCII_def substr_def list_all_iff by (meson in_set_dropD in_set_takeD)

lemma toLowerASCII_map [simp]: "isASCII s \<Longrightarrow> toLowerASCII u s = map lower_byte s"
  by (auto simp: toLowerASCII_def list_ex_iff lower_byte_def intro: map_idI[symmetric])

lemma substr_map: "substr (map f s) i j = map f (substr s i j)"
  by (simp add: substr_def take_map drop_map)

lemma length_substr: "j \<le> length s \<Longrightarrow> length (substr s i j) = j - i"
  by (simp add: substr_def)

lemma lowerPart_ASCII:
  "isASCII word \<Longrightarrow> lowerPart u word (toLowerASCII u word) i j = toLowerASCII u (substr word i j)"
  by (simp add: lowerPart_def substr_map isASCII_substr)

text \<open>What a scan may rely on at each callback: the span lies in the text and holds word bytes only.\<close>

lemma scan_bytes_rel:
  assumes "\<And>i j st st'. R st st' \<Longrightarrow> i \<le> j \<Longrightarrow> j \<le> length (pre @ bs) \<Longrightarrow> list_all isWordByte (substr (pre @ bs) i j)
             \<Longrightarrow> R (fn i j st) (gn i j st')"
    and "R st st'"
    and "\<And>s. start = Some s \<Longrightarrow> s \<le> length pre \<and> list_all isWordByte (drop s pre)"
  shows "R (scan_bytes bs (length pre) start fn st) (scan_bytes bs (length pre) start gn st')"
  using assms
proof (induction bs arbitrary: pre start st st')
  case Nil
  then show ?case by (auto simp: substr_def split: option.split)
next
  case (Cons b bs)
  have span: "substr (pre @ b # bs) s (length pre) = drop s pre" if "s \<le> length pre" for s
    using that by (simp add: substr_def)
  have step: "R st st' \<Longrightarrow> (\<And>s. start' = Some s \<Longrightarrow> s \<le> length (pre @ [b]) \<and> list_all isWordByte (drop s (pre @ [b])))
      \<Longrightarrow> R (scan_bytes bs (length (pre @ [b])) start' fn st) (scan_bytes bs (length (pre @ [b])) start' gn st')" for start' st st'
    by (rule Cons.IH) (use Cons.prems(1) in simp_all)
  show ?case
  proof (cases start)
    case None
    then show ?thesis
      using Cons.prems(2) step[of st st' None] step[of st st' "Some (length pre)"] by simp
  next
    case (Some p)
    then have p: "p \<le> length pre" "list_all isWordByte (drop p pre)" using Cons.prems(3) by auto
    have "R (fn p (length pre) st) (gn p (length pre) st')"
      using Cons.prems(1)[OF Cons.prems(2), of p "length pre"] span[OF p(1)] p by simp
    then show ?thesis
      using Some p Cons.prems(2) step[of st st' start] step[of "fn p (length pre) st" "gn p (length pre) st'" None] by simp
  qed
qed

lemma scan_bytes_rel0:
  assumes "\<And>i j st st'. R st st' \<Longrightarrow> i \<le> j \<Longrightarrow> j \<le> length s \<Longrightarrow> list_all isWordByte (substr s i j) \<Longrightarrow> R (fn i j st) (gn i j st')"
    and "R st st'"
  shows "R (scan_bytes s 0 None fn st) (scan_bytes s 0 None gn st')"
  using scan_bytes_rel[of R "[]" s fn gn st st' None] assms by simp

lemma tokenize_paths:
  assumes "isASCII s"
  shows "tokenize_spans u s = tokenize_words u s"
  unfolding tokenize_spans_def tokenize_words_def splitOnDelimitersFuncOffset_def splitOnDelimitersFunc_def
  using assms by (simp only: if_True Let_def) (rule scan_bytes_rel0[of "(=)"], simp_all add: length_substr substr_map isASCII_substr)

text \<open>
  C27: On ASCII text the fast path of \<open>tokenize\<close>, which lowers the whole text once and slices it at
  the word boundaries, returns the token map that the per-word path computes.
\<close>

theorem tokenize_fast_path: "isASCII s \<Longrightarrow> tokenize u s = tokenize_words u s"
  by (simp add: tokenize_def tokenize_paths)

section \<open>The tokens of ASCII text\<close>

definition token_ok :: "string \<Rightarrow> bool" where
  "token_ok t \<longleftrightarrow> 2 \<le> length t \<and> list_all (\<lambda>b. isLowerASCII b \<or> isDigitASCII b \<or> b = CHR ''_'') t"

definition tokens_ok :: "tokens \<Rightarrow> bool" where
  "tokens_ok m \<longleftrightarrow> gomap_ok m \<and> list_all (\<lambda>(k, n). token_ok k \<and> 1 \<le> n) m"

lemma tokens_ok_incr: "tokens_ok m \<Longrightarrow> token_ok k \<Longrightarrow> tokens_ok (incr k m)"
proof -
  assume m: "tokens_ok m" and k: "token_ok k"
  have "(\<exists>v. (x, v) \<in> set m \<and> v = n) \<or> x = k \<and> n = v" if "(x, n) \<in> set (AList.update k v m)" for x n v
    using that by (induction m) (auto split: if_splits)
  moreover have "1 \<le> (case map_of m k of None \<Rightarrow> 1 | Some n \<Rightarrow> n + 1)"
    using m map_of_SomeD[of m k] by (force simp: tokens_ok_def list_all_iff split: option.split)
  ultimately show ?thesis
    using m k unfolding tokens_ok_def incr_def list_all_iff by fastforce
qed

lemma lower_word_byte: "isWordByte b \<Longrightarrow> isLowerASCII (lower_byte b) \<or> isDigitASCII (lower_byte b) \<or> lower_byte b = CHR ''_''"
proof (cases "isUpperASCII b")
  case True
  then have "65 \<le> byte_val b" "byte_val b \<le> 90"
    by (simp_all add: isUpperASCII_def less_eq_char_def)
  then have "97 \<le> byte_val (lower_byte b)" "byte_val (lower_byte b) \<le> 122"
    using True by (simp_all add: lower_byte_def chr_def)
  then show ?thesis by (simp add: isLowerASCII_def less_eq_char_def)
qed (auto simp: isWordByte_def lower_byte_def)

lemma wordByte_ASCII: "list_all isWordByte w \<Longrightarrow> isASCII w"
proof -
  have "byte_val b < 128" if "isWordByte b" for b
    using that by (auto simp: isWordByte_def isLowerASCII_def isUpperASCII_def isDigitASCII_def less_eq_char_def)
  then show "list_all isWordByte w \<Longrightarrow> isASCII w" by (auto simp: isASCII_def list_all_iff)
qed

lemma token_lower: "list_all isWordByte w \<Longrightarrow> 2 \<le> length w \<Longrightarrow> token_ok (map lower_byte w)"
  by (auto simp: token_ok_def list_all_iff dest: lower_word_byte)

lemma word_substr: "list_all isWordByte w \<Longrightarrow> list_all isWordByte (substr w i j)"
  unfolding substr_def list_all_iff by (meson in_set_dropD in_set_takeD)

lemma emitCamelPart_ok:
  assumes "list_all isWordByte w" "j \<le> length w" "tokens_ok m"
  shows "tokens_ok (emitCamelPart u w (map lower_byte w) i j m)"
proof -
  have "token_ok (map lower_byte (substr w i j))" if "\<not> j - i < 2"
    using that assms by (intro token_lower word_substr) (auto simp: length_substr)
  then show ?thesis using assms(3)
    by (auto simp: emitCamelPart_def lowerPart_def substr_map Let_def intro: tokens_ok_incr)
qed

lemma camel_loop_ok:
  assumes "list_all isWordByte w" "tokens_ok m"
  shows "tokens_ok (camel_loop u w (map lower_byte w) s i m)"
  using assms
proof (induction u w "map lower_byte w" s i m rule: camel_loop.induct)
  case (1 u word start i tokens)
  then show ?case by (subst camel_loop.simps) (simp add: emitCamelPart_ok)
qed

fun join_underscore :: "string list \<Rightarrow> string" where
  "join_underscore [] = []"
| "join_underscore [p] = p"
| "join_underscore (p # ps) = p @ CHR ''_'' # join_underscore ps"

lemma split_underscore_ne [simp]: "split_underscore s \<noteq> []"
  by (induction s) (auto split: list.split)

lemma join_split: "join_underscore (split_underscore s) = s"
proof (induction s)
  case (Cons c s)
  obtain p ps where "split_underscore s = p # ps" using split_underscore_ne[of s] by (cases "split_underscore s") auto
  then show ?case using Cons by (cases ps) auto
qed simp

lemma snake_loop_ok:
  assumes "list_all isWordByte w" "tokens_ok m" "ps \<noteq> [] \<Longrightarrow> drop off w = join_underscore ps"
  shows "tokens_ok (snake_loop u w (map lower_byte w) ps off m)"
  using assms
proof (induction ps arbitrary: off m)
  case (Cons p ps)
  have d: "drop off w = join_underscore (p # ps)" using Cons.prems by simp
  have p: "substr w off (off + length p) = p" using d by (cases ps) (auto simp: substr_def)
  have n: "ps \<noteq> [] \<Longrightarrow> drop (off + (length p + 1)) w = join_underscore ps"
  proof -
    assume "ps \<noteq> []"
    then have "drop off w = p @ CHR ''_'' # join_underscore ps" using d by (cases ps) auto
    moreover have "drop (off + (length p + 1)) w = drop (length p + 1) (drop off w)" by (simp add: add.commute)
    ultimately show ?thesis by simp
  qed
  have wp: "list_all isWordByte p" using word_substr[OF Cons.prems(1), of off "off + length p"] p by simp
  show ?case
    using Cons.IH[OF Cons.prems(1) _ n] Cons.prems(1,2) wp p
    by (auto simp: Let_def lowerPart_def substr_map tokenizeCamelParts_def intro!: camel_loop_ok tokens_ok_incr token_lower)
qed simp

lemma tokenizeWord_ok: "list_all isWordByte w \<Longrightarrow> tokens_ok m \<Longrightarrow> tokens_ok (tokenizeWord u w (map lower_byte w) m)"
  by (auto simp: tokenizeWord_def tokenizeSnakeCase_def tokenizeCamelParts_def join_split intro!: snake_loop_ok camel_loop_ok)

lemma tokenize_tokens_ok:
  assumes "isASCII s"
  shows "tokens_ok (tokenize u s)"
proof -
  have "(\<lambda>m m'. tokens_ok m) (tokenize_spans u s) (tokenize_spans u s)"
    unfolding tokenize_spans_def splitOnDelimitersFuncOffset_def Let_def
    using assms by (intro scan_bytes_rel0[of "\<lambda>m m'. tokens_ok m"])
      (auto simp: substr_map length_substr tokens_ok_def intro!: tokenizeWord_ok[unfolded tokens_ok_def]
        tokens_ok_incr[unfolded tokens_ok_def] token_lower)
  then show ?thesis using assms by (simp add: tokenize_def)
qed

text \<open>
  C28: Tokenizing ASCII text gives a map without duplicate keys, each key at least two bytes long and
  made of lower-case letters, digits and underscores only, each count at least one.
\<close>

theorem tokenize_type:
  "isASCII s \<Longrightarrow> gomap_ok (tokenize u s) \<and> list_all (\<lambda>(k, n). token_ok k \<and> 1 \<le> n) (tokenize u s)"
  using tokenize_tokens_ok unfolding tokens_ok_def by blast

section \<open>Equal length is not offset stability\<close>

text \<open>
  \<open>lowerPart\<close> slices the pre-lowered word whenever lowering kept the byte length. One rune that
  shrinks and one that grows keep it together: U+0130 (two bytes) lowers to the one byte \<open>i\<close> and
  U+023A (two bytes) to the three bytes of U+2C65.
\<close>

definition drift_word :: string where
  "drift_word = [CHR 0xC4, CHR 0xB0, CHR ''_'', CHR 0xC8, CHR 0xBA]"

definition drift_tables :: unicode_tables where
  "drift_tables = \<lparr>u_IsLetter = \<lambda>r. r = 0x130 \<or> r = 0x23A, u_IsDigit = \<lambda>_. False,
     u_ToLower = \<lambda>r. if r = 0x130 then 0x69 else if r = 0x23A then 0x2C65 else r\<rparr>"


lemmas rune_eval = strings_ToLower.simps AppendRune.simps DecodeRuneInString_def lead_byte_def cont_byte_def RuneError_def chr_def
  char_of_def bit_Suc_0_iff isASCII_def toLowerASCII_def substr_def

lemma drift_lower:
  assumes "u_ToLower u 0x130 = 0x69" "u_ToLower u 0x23A = 0x2C65" "u_ToLower u 0x5F = 0x5F"
  shows "toLowerASCII u drift_word = [CHR ''i'', CHR ''_'', CHR 0xE2, CHR 0xB1, CHR 0xA5]"
    and "toLowerASCII u (substr drift_word 0 2) = ''i''"
    and "toLowerASCII u (substr drift_word 3 5) = [CHR 0xE2, CHR 0xB1, CHR 0xA5]"
  using assms by (simp_all add: drift_word_def rune_eval)

text \<open>
  C36: \<open>lowerPart\<close>'s length test does not make the offsets of a word valid in its lowered form. With the
  lower-case mappings of U+0130 and U+023A, the lowered form of \<open>U+0130 _ U+023A\<close> has the word's own
  length of five bytes, the first part is taken as \<open>i_\<close> although lowering it gives \<open>i\<close>, and the
  second as two continuation bytes although lowering it gives the three bytes of U+2C65; the token
  map carries the two wrong tokens and neither right one.
\<close>

theorem lowerPart_drifts:
  assumes "u_ToLower u 0x130 = 0x69" "u_ToLower u 0x23A = 0x2C65" "u_ToLower u 0x5F = 0x5F"
    and "u_IsLetter u 0x130" "u_IsLetter u 0x23A"
  shows "length (toLowerASCII u drift_word) = length drift_word
       \<and> lowerPart u drift_word (toLowerASCII u drift_word) 0 2 = ''i_'' \<and> toLowerASCII u (substr drift_word 0 2) = ''i''
       \<and> lowerPart u drift_word (toLowerASCII u drift_word) 3 5 = [CHR 0xB1, CHR 0xA5]
       \<and> toLowerASCII u (substr drift_word 3 5) = [CHR 0xE2, CHR 0xB1, CHR 0xA5]
       \<and> map_of (tokenize u drift_word) ''i_'' = Some 1
       \<and> map_of (tokenize u drift_word) [CHR 0xB1, CHR 0xA5] = Some 1
       \<and> map_of (tokenize u drift_word) ''i'' = None
       \<and> map_of (tokenize u drift_word) [CHR 0xE2, CHR 0xB1, CHR 0xA5] = None"
proof -
  have low: "toLowerASCII u drift_word = [CHR ''i'', CHR ''_'', CHR 0xE2, CHR 0xB1, CHR 0xA5]"
    by (rule drift_lower) (use assms in simp_all)
  have lp: "lowerPart u drift_word (toLowerASCII u drift_word) 0 2 = ''i_''"
    "lowerPart u drift_word (toLowerASCII u drift_word) 3 5 = [CHR 0xB1, CHR 0xA5]"
    by (simp_all add: low lowerPart_def substr_def) (simp_all add: drift_word_def)
  have scan: "tokenize u drift_word = tokenizeWord u drift_word (toLowerASCII u drift_word) (incr (toLowerASCII u drift_word) [])"
    using assms(4,5)
    by (simp add: tokenize_def tokenize_words_def splitOnDelimitersFunc_def isASCII_def drift_word_def
        scan_runes.simps isWordRune_def DecodeRuneInString_def lead_byte_def substr_def Let_def)
  have sp: "split_underscore drift_word = [take 2 drift_word, drop 3 drift_word]" "CHR ''_'' \<in> set drift_word"
    "length drift_word = 5" by (simp_all add: drift_word_def)
  have "tokenize u drift_word = [([CHR ''i'', CHR ''_'', CHR 0xE2, CHR 0xB1, CHR 0xA5], 1), (''i_'', 1), ([CHR 0xB1, CHR 0xA5], 1)]"
    unfolding scan tokenizeWord_def tokenizeSnakeCase_def sp(1)
    using lp sp low
    by (simp add: drift_word_def lowerPart_def substr_def tokenizeCamelParts_def camel_loop.simps camel_split_def isUpperASCII_def
        isLowerASCII_def emitCamelPart_def incr_def less_eq_char_def Let_def)
  then show ?thesis using low lp drift_lower(2,3)[OF assms(1-3)] sp(3) by simp
qed

theorem lowerPart_drifts_witness:
  "u_ToLower drift_tables 0x130 = 0x69 \<and> map_of (tokenize drift_tables drift_word) ''i'' = None"
  using lowerPart_drifts[of drift_tables] by (simp add: drift_tables_def)

theorem tokenize_fast_path_witness: "tokenize drift_tables ''getUser_id'' = tokenize_words drift_tables ''getUser_id''"
  using tokenize_fast_path[of "''getUser_id''" drift_tables] by (simp add: isASCII_def)

theorem tokenize_type_witness:
  "gomap_ok (tokenize drift_tables ''getUser_id'') \<and> list_all (\<lambda>(k, n). token_ok k \<and> 1 \<le> n) (tokenize drift_tables ''getUser_id'')"
  using tokenize_type[of "''getUser_id''" drift_tables] by (simp add: isASCII_def)

end
