(* ===== verification/Bm25Build.thy ===== *)
theory Bm25Build
  imports Bm25Tokenizer Format
begin

text \<open>
  \<open>internal/searchengine/formats/bm25/build.go\<close> and \<open>field.go\<close>: documents to the build-time
  accumulator. A \<open>float64\<close> is its IEEE bit pattern, which is what the format stores; nothing here
  computes with one. A worker's panic is an outcome of the per-document function; the workers write
  disjoint slots, so the model runs them one after the other.

  Shown: the parallel pass returns what tokenizing each document alone returns, whatever the number
  of workers, and counts exactly the documents that panicked; the sealed accumulator's posting
  lists, document lengths, totals and document frequencies are the ones the member documents
  determine; a stored term frequency fits 16 bits.
\<close>

type_synonym float64 = "64 word"

record posting =
  p_docID :: "32 word"
  p_tf :: "16 word"

record FieldConfig =
  fc_Name :: string
  fc_Boost :: float64
  fc_B :: float64

definition defaultFieldConfigs :: "FieldConfig list" where
  "defaultFieldConfigs =
     [\<lparr>fc_Name = ''symbol_name'', fc_Boost = 0x4000000000000000, fc_B = 0\<rparr>,
      \<lparr>fc_Name = ''summary'', fc_Boost = 0x4000000000000000, fc_B = 0x3FE8000000000000\<rparr>,
      \<lparr>fc_Name = ''keywords'', fc_Boost = 0x4000000000000000, fc_B = 0\<rparr>,
      \<lparr>fc_Name = ''description'', fc_Boost = 0x3FF0000000000000, fc_B = 0x3FE8000000000000\<rparr>,
      \<lparr>fc_Name = ''content'', fc_Boost = 0x3FF0000000000000, fc_B = 0x3FE8000000000000\<rparr>]"

record fieldData =
  fd_config :: FieldConfig
  fd_postings :: "(string, posting list) gomap"
  fd_docLengths :: "int list"
  fd_totalTokens :: int

record bm25Segment =
  bs_fields :: "fieldData list"
  bs_members :: "ExternalID list"
  bs_docFreq :: "(string, int) gomap"

section \<open>Tokenizing the documents\<close>

definition degradeTokenizePanic :: string where
  "degradeTokenizePanic = ''tokenize_panic''"

definition indexedFields :: "string list" where
  "indexedFields = [''symbol_name'', ''summary'', ''keywords'', ''description'', ''content'']"

text \<open>\<open>dt_fields\<close> is \<open>None\<close> where the code has the nil map.\<close>

record docFieldTokens =
  dt_id :: ExternalID
  dt_fields :: "(string, tokens) gomap option"

definition zero_tokens :: docFieldTokens where
  "zero_tokens = \<lparr>dt_id = [], dt_fields = None\<rparr>"

fun tokenize_fields :: "unicode_tables \<Rightarrow> (string, string) gomap \<Rightarrow> string list \<Rightarrow> (string, tokens) gomap option
    \<Rightarrow> (string, tokens) gomap option" where
  "tokenize_fields u fs [] out = out"
| "tokenize_fields u fs (name # names) out =
     (let txt = (case map_of fs name of None \<Rightarrow> [] | Some s \<Rightarrow> s)
      in if txt = [] then tokenize_fields u fs names out
         else let toks = tokenize u txt
              in if toks = [] then tokenize_fields u fs names out
                 else tokenize_fields u fs names
                        (Some (AList.update name toks (case out of None \<Rightarrow> [] | Some m \<Rightarrow> m))))"

definition tokenizeOne :: "unicode_tables \<Rightarrow> Document \<Rightarrow> docFieldTokens" where
  "tokenizeOne u d = \<lparr>dt_id = doc_ID d, dt_fields = tokenize_fields u (doc_Fields d) indexedFields None\<rparr>"

definition tokenizeDocRecovered :: "(Document \<Rightarrow> docFieldTokens outcome) \<Rightarrow> Document \<Rightarrow> docFieldTokens \<times> bool" where
  "tokenizeDocRecovered one d = (case one d of Ret r \<Rightarrow> (r, True) | _ \<Rightarrow> (zero_tokens, False))"

function worker_loop :: "(Document \<Rightarrow> docFieldTokens outcome) \<Rightarrow> Document list \<Rightarrow> nat \<Rightarrow> nat
    \<Rightarrow> docFieldTokens list \<times> nat \<Rightarrow> docFieldTokens list \<times> nat" where
  "worker_loop one docs i end (results, dropped) =
     (if i < end then
        (let (r, ok) = tokenizeDocRecovered one (docs ! i)
         in worker_loop one docs (i + 1) end (results[i := r], if ok then dropped else dropped + 1))
      else (results, dropped))"
  by pat_completeness auto
termination
  by (relation "measure (\<lambda>(one, docs, i, end, st). end - i)") auto

function spawn_workers :: "(Document \<Rightarrow> docFieldTokens outcome) \<Rightarrow> Document list \<Rightarrow> nat \<Rightarrow> nat \<Rightarrow> nat
    \<Rightarrow> docFieldTokens list \<times> nat list \<Rightarrow> docFieldTokens list \<times> nat list" where
  "spawn_workers one docs workers chunkSize w (results, dropped) =
     (if w < workers then
        (let start = w * chunkSize; end = min (start + chunkSize) (length docs)
         in if start \<ge> end then (results, dropped)
            else let (results, n) = worker_loop one docs start end (results, dropped ! w)
                 in spawn_workers one docs workers chunkSize (w + 1) (results, dropped[w := n]))
      else (results, dropped))"
  by pat_completeness auto
termination
  by (relation "measure (\<lambda>(one, docs, workers, chunk, w, st). workers - w)") auto

declare worker_loop.simps [simp del] spawn_workers.simps [simp del]

definition tokenizeDocsParallelWith :: "Document list \<Rightarrow> int \<Rightarrow> (Document \<Rightarrow> docFieldTokens outcome)
    \<Rightarrow> docFieldTokens list \<times> BuildReport" where
  "tokenizeDocsParallelWith docs workers one =
     (let workers = (if workers < 1 then 1 else nat workers);
          chunkSize = (length docs + workers - 1) div workers;
          (results, dropped) = spawn_workers one docs workers chunkSize 0
             (replicate (length docs) zero_tokens, replicate workers 0);
          total = sum_list dropped
      in if total = 0 then (results, []) else (results, [(degradeTokenizePanic, int total)]))"

definition tokenizeDocsParallel :: "unicode_tables \<Rightarrow> Document list \<Rightarrow> int \<Rightarrow> docFieldTokens list \<times> BuildReport" where
  "tokenizeDocsParallel u docs workers = tokenizeDocsParallelWith docs workers (\<lambda>d. Ret (tokenizeOne u d))"

section \<open>Sealing the accumulator\<close>

definition clampTF :: "int \<Rightarrow> 16 word" where
  "clampTF freq = (if freq > 65535 then 65535 else if freq < 0 then 0 else word_of_int freq)"

definition postings_of :: "fieldData \<Rightarrow> string \<Rightarrow> posting list" where
  "postings_of fd t = (case map_of (fd_postings fd) t of None \<Rightarrow> [] | Some ps \<Rightarrow> ps)"

definition add_posting :: "32 word \<Rightarrow> string \<times> int \<Rightarrow> (string, posting list) gomap \<Rightarrow> (string, posting list) gomap" where
  "add_posting docID = (\<lambda>(term, freq) m.
     AList.update term ((case map_of m term of None \<Rightarrow> [] | Some ps \<Rightarrow> ps) @ [\<lparr>p_docID = docID, p_tf = clampTF freq\<rparr>]) m)"

definition add_tokens :: "nat \<Rightarrow> tokens \<Rightarrow> fieldData \<Rightarrow> fieldData" where
  "add_tokens docID toks fd =
     (let docLen = sum_list (map snd toks)
      in fd\<lparr>fd_postings := fold (add_posting (word_of_nat docID)) toks (fd_postings fd),
            fd_docLengths := (fd_docLengths fd)[docID := docLen],
            fd_totalTokens := fd_totalTokens fd + docLen\<rparr>)"

definition field_named :: "string \<Rightarrow> fieldData \<Rightarrow> bool" where
  "field_named name fd \<longleftrightarrow> fc_Name (fd_config fd) = name"

definition grow_field :: "fieldData \<Rightarrow> fieldData" where
  "grow_field fd = fd\<lparr>fd_docLengths := fd_docLengths fd @ [0]\<rparr>"

definition add_field :: "nat \<Rightarrow> string \<times> tokens \<Rightarrow> fieldData list \<times> string list \<Rightarrow> fieldData list \<times> string list" where
  "add_field docID = (\<lambda>(name, toks) (fields, uniqueTerms).
     if list_ex (field_named name) fields then
       (map (\<lambda>fd. if field_named name fd then add_tokens docID toks fd else fd) fields,
        fold List.insert (map fst toks) uniqueTerms)
     else (fields, uniqueTerms))"

definition add_doc :: "docFieldTokens \<Rightarrow> bm25Segment \<Rightarrow> bm25Segment" where
  "add_doc r s =
     (case dt_fields r of
        None \<Rightarrow> s
      | Some fs \<Rightarrow>
          (let docID = length (bs_members s);
               (fields, uniqueTerms) = fold (add_field docID) fs (map grow_field (bs_fields s), [])
           in \<lparr>bs_fields = fields, bs_members = bs_members s @ [dt_id r],
               bs_docFreq = fold incr uniqueTerms (bs_docFreq s)\<rparr>))"

definition empty_field :: "FieldConfig \<Rightarrow> fieldData" where
  "empty_field cfg = \<lparr>fd_config = cfg, fd_postings = [], fd_docLengths = [], fd_totalTokens = 0\<rparr>"

definition buildSegment :: "docFieldTokens list \<Rightarrow> bm25Segment" where
  "buildSegment results =
     fold add_doc results \<lparr>bs_fields = map empty_field defaultFieldConfigs, bs_members = [], bs_docFreq = []\<rparr>"

section \<open>The parallel pass\<close>

definition recovered :: "(Document \<Rightarrow> docFieldTokens outcome) \<Rightarrow> Document \<Rightarrow> docFieldTokens" where
  "recovered one d = (case one d of Ret r \<Rightarrow> r | _ \<Rightarrow> zero_tokens)"

definition panics :: "(Document \<Rightarrow> docFieldTokens outcome) \<Rightarrow> Document \<Rightarrow> bool" where
  "panics one d \<longleftrightarrow> (\<forall>r. one d \<noteq> Ret r)"

lemma tokenizeDocRecovered_eq: "tokenizeDocRecovered one d = (recovered one d, \<not> panics one d)"
  by (simp add: tokenizeDocRecovered_def recovered_def panics_def split: outcome.split)

lemma worker_loop_eq:
  assumes "i \<le> end" "end \<le> length docs" "length results = length docs"
  shows "worker_loop one docs i end (results, n) =
    (take i results @ map (recovered one) (take (end - i) (drop i docs)) @ drop end results,
     n + length (filter (panics one) (take (end - i) (drop i docs))))"
  using assms
proof (induction one docs i "end" "(results, n)" arbitrary: results n rule: worker_loop.induct)
  case (1 one docs i "end" results n)
  show ?case
  proof (cases "i < end")
    case True
    then have d: "take (end - i) (drop i docs) = docs ! i # take (end - (i + 1)) (drop (i + 1) docs)"
      using 1(3) by (simp add: Cons_nth_drop_Suc[symmetric] take_Cons' Suc_diff_Suc)
    have r: "take (i + 1) (results[i := x]) = take i results @ [x]" for x
      using True 1(3,4) by (simp add: take_Suc_conv_app_nth)
    show ?thesis
      using 1(1)[of "(recovered one (docs ! i), \<not> panics one (docs ! i))" "recovered one (docs ! i)" "\<not> panics one (docs ! i)"] 1(2-) True
      by (subst worker_loop.simps) (simp add: tokenizeDocRecovered_eq d r[simplified])
  qed (use 1(2-) in \<open>simp add: worker_loop.simps\<close>)
qed

lemma spawn_workers_eq:
  assumes "w \<le> workers" "length docs \<le> workers * c" "length results = length docs" "length dropped = workers"
    and "take (w * c) results = map (recovered one) (take (w * c) docs)"
    and "\<And>k. w \<le> k \<Longrightarrow> k < workers \<Longrightarrow> dropped ! k = 0"
  shows "fst (spawn_workers one docs workers c w (results, dropped)) = map (recovered one) docs
       \<and> sum_list (snd (spawn_workers one docs workers c w (results, dropped)))
           = sum_list dropped + length (filter (panics one) (drop (w * c) docs))"
  using assms
proof (induction one docs workers c w "(results, dropped)" arbitrary: results dropped rule: spawn_workers.induct)
  case (1 one docs workers c w results dropped)
  define s e where "s = w * c" and "e = min (s + c) (length docs)"
  show ?case
  proof (cases "w < workers \<and> s < e")
    case True
    define chunk where "chunk = take (e - s) (drop s docs)"
    define results' where "results' = take s results @ map (recovered one) chunk @ drop e results"
    define dropped' where "dropped' = dropped[w := length (filter (panics one) chunk)]"
    have e: "e \<le> length docs" "e - s \<le> c" "s \<le> length docs" using True by (auto simp: e_def)
    have take_docs: "take e docs = take s docs @ chunk" using True take_add[of s "e - s" docs] by (simp add: chunk_def)
    have te: "take (s + c) xs = take e xs" if "length xs = length docs" for xs :: "'x list"
      using that by (simp add: e_def min_def)
    have "length chunk = e - s" using e by (simp add: chunk_def)
    then have l: "length results' = length docs" using e True 1(4) by (simp add: results'_def)
    have "take (s + c) results' = take s results @ map (recovered one) chunk"
      unfolding te[OF l] using e True 1(4) \<open>length chunk = e - s\<close> by (simp add: results'_def)
    then have t: "take ((w + 1) * c) results' = map (recovered one) (take ((w + 1) * c) docs)"
      using te[of docs] take_docs 1(6) by (simp add: s_def add.commute)
    have d: "drop s docs = chunk @ drop e docs" "drop e docs = drop ((w + 1) * c) docs"
      using e True by (auto simp: chunk_def s_def e_def min_def add.commute)
        (metis append_take_drop_id drop_drop le_add_diff_inverse less_imp_le_nat min_def add.commute)+
    have sum: "sum_list dropped' = sum_list dropped + length (filter (panics one) chunk)"
      using True 1(5) 1(7)[of w] by (simp add: dropped'_def sum_list_update)
    have run: "worker_loop one docs s e (results, dropped ! w) = (results', length (filter (panics one) chunk))"
      using worker_loop_eq[of s e docs results one "dropped ! w"] True e 1(4,7) by (simp add: chunk_def results'_def)
    have "spawn_workers one docs workers c w (results, dropped) = spawn_workers one docs workers c (w + 1) (results', dropped')"
      using True run by (subst spawn_workers.simps) (auto simp: s_def e_def Let_def dropped'_def)
    moreover have "fst (spawn_workers one docs workers c (w + 1) (results', dropped')) = map (recovered one) docs
       \<and> sum_list (snd (spawn_workers one docs workers c (w + 1) (results', dropped')))
           = sum_list dropped' + length (filter (panics one) (drop ((w + 1) * c) docs))"
      using 1(1)[OF _ s_def e_def _ run[symmetric], of results' "length (filter (panics one) chunk)"] True l t 1(3,5,7)
      by (simp add: dropped'_def)
    ultimately show ?thesis using sum d by (simp add: s_def)
  next
    case False
    then have "length docs \<le> w * c"
      using 1(2,3) by (auto simp: s_def e_def not_less min_def split: if_splits)
    then show ?thesis using False 1(4,6) by (subst (1 2) spawn_workers.simps) (auto simp: s_def e_def Let_def)
  qed
qed


lemma ceil_chunks: "0 < (w::nat) \<Longrightarrow> n \<le> w * ((n + w - 1) div w)"
  using mult_div_mod_eq[of w "n + w - 1"] mod_less_divisor[of w "n + w - 1"] by linarith

text \<open>
  Whatever the number of workers, the parallel pass returns each document's own tokenization, the
  zero value for exactly the documents whose tokenization panicked, and a census that is empty when
  none did and otherwise counts them under \<open>tokenize_panic\<close>.
\<close>

lemma parallel_exact:
  "tokenizeDocsParallelWith docs workers one =
     (map (recovered one) docs,
      if list_ex (panics one) docs then [(degradeTokenizePanic, int (length (filter (panics one) docs)))] else [])"
proof -
  define w where "w = (if workers < 1 then 1 else nat workers)"
  have w: "0 < w" by (simp add: w_def)
  define out where "out = spawn_workers one docs w ((length docs + w - 1) div w) 0 (replicate (length docs) zero_tokens, replicate w 0)"
  have "fst out = map (recovered one) docs \<and> sum_list (snd out) = length (filter (panics one) docs)"
    unfolding out_def
    using spawn_workers_eq[of 0 w docs "(length docs + w - 1) div w" "replicate (length docs) zero_tokens" "replicate w 0" one]
      ceil_chunks[OF w] by (simp add: sum_list_replicate)
  moreover have "length (filter (panics one) docs) = 0 \<longleftrightarrow> \<not> list_ex (panics one) docs"
    by (auto simp: list_ex_iff filter_empty_conv)
  ultimately show ?thesis
    unfolding tokenizeDocsParallelWith_def w_def[symmetric]
    by (cases out) (simp only: out_def[symmetric] Let_def prod.case fst_conv snd_conv if_False if_True split: if_split, blast)
qed

lemma tokenizeDocsParallel_map: "tokenizeDocsParallel u docs workers = (map (tokenizeOne u) docs, [])"
proof -
  have "\<not> panics (\<lambda>d. Ret (tokenizeOne u d)) d" "recovered (\<lambda>d. Ret (tokenizeOne u d)) d = tokenizeOne u d" for d
    by (simp_all add: panics_def recovered_def)
  then show ?thesis
    using parallel_exact[of docs workers "\<lambda>d. Ret (tokenizeOne u d)"]
    by (simp add: tokenizeDocsParallel_def list_ex_iff)
qed

section \<open>What the accumulator holds\<close>

text \<open>
  The specification: a result contributes when its field map is not nil; \<open>field_tokens\<close> is the token
  map it has for a field. Posting lists, lengths and frequencies are those of the contributing
  results, numbered in order.
\<close>

definition kept_docs :: "docFieldTokens list \<Rightarrow> docFieldTokens list" where
  "kept_docs results = filter (\<lambda>r. dt_fields r \<noteq> None) results"

definition field_tokens :: "string \<Rightarrow> docFieldTokens \<Rightarrow> tokens" where
  "field_tokens name r =
     (case dt_fields r of None \<Rightarrow> [] | Some fs \<Rightarrow> (case map_of fs name of None \<Rightarrow> [] | Some toks \<Rightarrow> toks))"

definition spec_posting :: "string \<Rightarrow> string \<Rightarrow> nat \<Rightarrow> docFieldTokens \<Rightarrow> posting list" where
  "spec_posting name t i r =
     (case map_of (field_tokens name r) t of None \<Rightarrow> [] | Some n \<Rightarrow> [\<lparr>p_docID = word_of_nat i, p_tf = word_of_int (max 0 (min 65535 n))\<rparr>])"

definition spec_postings :: "string \<Rightarrow> string \<Rightarrow> docFieldTokens list \<Rightarrow> posting list" where
  "spec_postings name t rs = concat (map2 (spec_posting name t) [0..<length rs] rs)"

definition doc_has :: "string \<Rightarrow> docFieldTokens \<Rightarrow> bool" where
  "doc_has t r \<longleftrightarrow> list_ex (\<lambda>cfg. map_of (field_tokens (fc_Name cfg) r) t \<noteq> None) defaultFieldConfigs"

definition tokens_wf :: "docFieldTokens \<Rightarrow> bool" where
  "tokens_wf r \<longleftrightarrow> (case dt_fields r of None \<Rightarrow> True | Some fs \<Rightarrow> gomap_ok fs \<and> list_all (\<lambda>(name, toks). gomap_ok toks) fs)"

definition field_spec :: "docFieldTokens list \<Rightarrow> FieldConfig \<Rightarrow> fieldData \<Rightarrow> bool" where
  "field_spec rs cfg fd \<longleftrightarrow>
     fd_config fd = cfg \<and> gomap_ok (fd_postings fd)
   \<and> (\<forall>t. map_of (fd_postings fd) t =
           (if spec_postings (fc_Name cfg) t rs = [] then None else Some (spec_postings (fc_Name cfg) t rs)))
   \<and> fd_docLengths fd = map (\<lambda>r. sum_list (map snd (field_tokens (fc_Name cfg) r))) rs
   \<and> fd_totalTokens fd = sum_list (fd_docLengths fd)"

definition segment_spec :: "docFieldTokens list \<Rightarrow> bm25Segment \<Rightarrow> bool" where
  "segment_spec rs s \<longleftrightarrow>
     list_all2 (field_spec rs) defaultFieldConfigs (bs_fields s) \<and> bs_members s = map dt_id rs
   \<and> gomap_ok (bs_docFreq s)
   \<and> (\<forall>t. map_of (bs_docFreq s) t =
           (let n = length (filter (doc_has t) rs) in if n = 0 then None else Some (int n)))"

lemma clampTF_eq: "word_of_int (max 0 (min 65535 n)) = clampTF n"
  by (simp add: clampTF_def)

lemma spec_posting_clamp:
  "spec_posting name t i r =
     (case map_of (field_tokens name r) t of None \<Rightarrow> [] | Some n \<Rightarrow> [\<lparr>p_docID = word_of_nat i, p_tf = clampTF n\<rparr>])"
  by (simp only: spec_posting_def clampTF_eq)

lemma spec_postings_snoc: "spec_postings name t (rs @ [r]) = spec_postings name t rs @ spec_posting name t (length rs) r"
  by (simp add: spec_postings_def zip_append1 flip: upt_conv_Cons)

lemma map_of_add_posting:
  "map_of (add_posting d (k, n) m) t =
     (if t = k then Some ((case map_of m k of None \<Rightarrow> [] | Some ps \<Rightarrow> ps) @ [\<lparr>p_docID = d, p_tf = clampTF n\<rparr>]) else map_of m t)"
  by (simp add: add_posting_def update_conv')

lemma map_of_add_postings:
  "gomap_ok toks \<Longrightarrow> map_of (fold (add_posting d) toks m) t =
     (case map_of toks t of None \<Rightarrow> map_of m t
      | Some n \<Rightarrow> Some ((case map_of m t of None \<Rightarrow> [] | Some ps \<Rightarrow> ps) @ [\<lparr>p_docID = d, p_tf = clampTF n\<rparr>]))"
proof (induction toks arbitrary: m)
  case (Cons x toks)
  obtain k n where x: "x = (k, n)" by (cases x)
  have "map_of toks k = None" "gomap_ok toks" using Cons.prems by (auto simp: x gomap_ok_def map_of_eq_None_iff)
  then show ?case by (auto simp: x Cons.IH map_of_add_posting split: option.split)
qed simp

lemma gomap_ok_add_postings: "gomap_ok m \<Longrightarrow> gomap_ok (fold (add_posting d) toks m)"
  by (induction toks arbitrary: m) (auto simp: add_posting_def split: prod.split)

lemma map_of_incr: "map_of (incr k m) t = (if t = k then Some (case map_of m k of None \<Rightarrow> 1 | Some n \<Rightarrow> n + 1) else map_of m t)"
  by (simp add: incr_def update_conv')

lemma gomap_ok_incr [simp]: "gomap_ok m \<Longrightarrow> gomap_ok (incr k m)"
  by (simp add: incr_def)

lemma map_of_fold_incr:
  "distinct ts \<Longrightarrow> map_of (fold incr ts m) t =
     (if t \<in> set ts then Some (case map_of m t of None \<Rightarrow> 1 | Some n \<Rightarrow> n + 1) else map_of m t)"
  by (induction ts arbitrary: m) (auto simp: map_of_incr)

lemma gomap_ok_fold_incr: "gomap_ok m \<Longrightarrow> gomap_ok (fold incr ts m)"
  by (induction ts arbitrary: m) auto

lemma add_tokens_config [simp]: "fd_config (add_tokens d toks fd) = fd_config fd"
  by (simp add: add_tokens_def Let_def)

lemma grow_field_config [simp]: "fd_config (grow_field fd) = fd_config fd"
  by (simp add: grow_field_def)

lemma add_field_pair:
  "add_field d (k, toks) (fls, us) =
     (map (\<lambda>fd. if fc_Name (fd_config fd) = k then add_tokens d toks fd else fd) fls,
      if k \<in> (\<lambda>fd. fc_Name (fd_config fd)) ` set fls then fold List.insert (map fst toks) us else us)"
  by (auto simp: add_field_def list_ex_iff field_named_def intro!: map_idI[symmetric])

lemma fold_add_field_fields:
  "gomap_ok fs \<Longrightarrow> fst (fold (add_field d) fs (fls, us)) =
     map (\<lambda>fd. case map_of fs (fc_Name (fd_config fd)) of None \<Rightarrow> fd | Some toks \<Rightarrow> add_tokens d toks fd) fls"
proof (induction fs arbitrary: fls us)
  case (Cons x fs)
  obtain k toks where x: "x = (k, toks)" by (cases x)
  have fs: "map_of fs k = None" "gomap_ok fs" using Cons.prems by (auto simp: x gomap_ok_def map_of_eq_None_iff)
  show ?case
    using fs by (auto simp: x add_field_pair Cons.IH split: option.split)
qed simp

lemma fold_insert_set: "set (fold List.insert ts us) = set us \<union> set ts"
  by (induction ts arbitrary: us) auto

lemma fold_insert_distinct: "distinct us \<Longrightarrow> distinct (fold List.insert ts us)"
  by (induction ts arbitrary: us) auto

lemma add_field_names: "map (\<lambda>fd. fc_Name (fd_config fd)) (fst (add_field d x st)) = map (\<lambda>fd. fc_Name (fd_config fd)) (fst st)"
  by (auto simp: add_field_def split: prod.split)

definition terms_under :: "string set \<Rightarrow> (string, tokens) gomap \<Rightarrow> string set" where
  "terms_under names fs = (\<Union>(name, toks) \<in> set fs. if name \<in> names then fst ` set toks else {})"

lemma fold_add_field_terms:
  "distinct us \<Longrightarrow> distinct (snd (fold (add_field d) fs (fls, us)))
   \<and> set (snd (fold (add_field d) fs (fls, us))) = set us \<union> terms_under ((\<lambda>fd. fc_Name (fd_config fd)) ` set fls) fs"
proof (induction fs arbitrary: fls us)
  case (Cons x fs)
  let ?names = "(\<lambda>fd. fc_Name (fd_config fd)) ` set fls"
  obtain k toks where x: "x = (k, toks)" by (cases x)
  obtain fls' us' where st: "add_field d x (fls, us) = (fls', us')" by (cases "add_field d x (fls, us)")
  have n: "(\<lambda>fd. fc_Name (fd_config fd)) ` set fls' = ?names"
    using add_field_names[of d x "(fls, us)"] st by (metis fst_conv list.set_map)
  have us': "us' = (if k \<in> ?names then fold List.insert (map fst toks) us else us)"
    using st unfolding x add_field_pair by blast
  have u: "distinct us'" "set us' = set us \<union> (if k \<in> ?names then fst ` set toks else {})"
    unfolding us' using Cons.prems by (simp_all add: fold_insert_set fold_insert_distinct)
  show ?case using Cons.IH[OF u(1), of fls'] unfolding n u(2) using st[unfolded x] by (simp add: x terms_under_def Un_assoc)
qed (simp add: terms_under_def)

lemma field_spec_step:
  assumes "field_spec rs cfg fd" "dt_fields r = Some fs" "tokens_wf r"
  shows "field_spec (rs @ [r]) cfg
    (case map_of fs (fc_Name cfg) of None \<Rightarrow> grow_field fd | Some toks \<Rightarrow> add_tokens (length rs) toks (grow_field fd))"
proof (cases "map_of fs (fc_Name cfg)")
  case None
  then have "field_tokens (fc_Name cfg) r = []" using assms(2) by (simp add: field_tokens_def)
  then show ?thesis
    using assms(1) None by (simp add: field_spec_def spec_postings_snoc spec_posting_clamp grow_field_def)
next
  case (Some toks)
  then have ft: "field_tokens (fc_Name cfg) r = toks" using assms(2) by (simp add: field_tokens_def)
  have tk: "gomap_ok toks"
    using assms(2,3) map_of_SomeD[OF Some] by (auto simp: tokens_wf_def list_all_iff)
  have len: "length (fd_docLengths fd) = length rs" using assms(1) by (simp add: field_spec_def)
  have upd: "(fd_docLengths fd @ [0])[length rs := v] = fd_docLengths fd @ [v]" for v
    using len by (simp flip: len)
  show ?thesis
    using assms(1) tk Some upd
    by (auto simp: field_spec_def add_tokens_def grow_field_def Let_def ft spec_postings_snoc spec_posting_clamp
        map_of_add_postings gomap_ok_add_postings split: option.split)
qed

lemma field_spec_config: "list_all2 (field_spec rs) cfgs fls \<Longrightarrow> map fd_config fls = cfgs"
  by (induction rule: list_all2_induct) (auto simp: field_spec_def)

lemma fields_spec_step:
  assumes "list_all2 (field_spec rs) cfgs fls" "dt_fields r = Some fs" "tokens_wf r"
  shows "list_all2 (field_spec (rs @ [r])) cfgs
    (map (\<lambda>fd. case map_of fs (fc_Name (fd_config fd)) of None \<Rightarrow> fd | Some toks \<Rightarrow> add_tokens (length rs) toks fd) (map grow_field fls))"
  using assms(1)
proof (induction rule: list_all2_induct)
  case (Cons cfg cfgs fd fls)
  have "fd_config fd = cfg" using Cons by (simp add: field_spec_def)
  then show ?case using field_spec_step[OF Cons(1) assms(2,3)] Cons by simp
qed simp

lemma unique_terms_doc_has:
  assumes "dt_fields r = Some fs" "tokens_wf r" "map fd_config fls = defaultFieldConfigs"
  shows "set (snd (fold (add_field d) fs (map grow_field fls, []))) = {t. doc_has t r}"
proof -
  have names: "(\<lambda>fd. fc_Name (fd_config fd)) ` set (map grow_field fls) = fc_Name ` set defaultFieldConfigs"
    unfolding assms(3)[symmetric] by (auto simp: image_image)
  have mem: "(name, toks) \<in> set fs \<longleftrightarrow> map_of fs name = Some toks" for name toks
    using assms(1,2) by (auto simp: tokens_wf_def gomap_ok_def)
  have "t \<in> fst ` set toks \<longleftrightarrow> map_of toks t \<noteq> None" for t and toks :: tokens
    by (simp add: map_of_eq_None_iff)
  then have "(\<exists>toks. map_of fs name = Some toks \<and> t \<in> fst ` set toks) \<longleftrightarrow> map_of (field_tokens name r) t \<noteq> None" for name t
    using assms(1) by (cases "map_of fs name") (simp_all add: field_tokens_def)
  moreover have "t \<in> terms_under A fs \<longleftrightarrow> (\<exists>name \<in> A. \<exists>toks. map_of fs name = Some toks \<and> t \<in> fst ` set toks)" for t A
    unfolding terms_under_def mem[symmetric] UN_iff Bex_def split_paired_Ex by (auto split: if_splits)
  ultimately have "t \<in> terms_under (fc_Name ` set defaultFieldConfigs) fs \<longleftrightarrow> doc_has t r" for t
    by (simp add: doc_has_def list_ex_iff)
  then show ?thesis
    using fold_add_field_terms[of "[]" d fs "map grow_field fls"] unfolding names by auto
qed

lemma add_doc_spec:
  assumes "segment_spec rs s" "tokens_wf r"
  shows "segment_spec (rs @ kept_docs [r]) (add_doc r s)"
proof (cases "dt_fields r")
  case (Some fs)
  define out where "out = fold (add_field (length rs)) fs (map grow_field (bs_fields s), [])"
  have fl: "list_all2 (field_spec rs) defaultFieldConfigs (bs_fields s)" using assms by (simp add: segment_spec_def)
  have ok: "gomap_ok fs" using assms(2) Some by (simp add: tokens_wf_def)
  have len: "length (bs_members s) = length rs" using assms by (simp add: segment_spec_def)
  have "list_all2 (field_spec (rs @ [r])) defaultFieldConfigs (fst out)"
    using fields_spec_step[OF fl Some assms(2)] by (simp add: out_def fold_add_field_fields[OF ok])
  moreover have "distinct (snd out)" "set (snd out) = {t. doc_has t r}"
    using fold_add_field_terms[of "[]"] unique_terms_doc_has[OF Some assms(2) field_spec_config[OF fl]]
    by (auto simp: out_def)
  ultimately show ?thesis
    using assms(1) Some len
    by (cases out) (auto simp: segment_spec_def add_doc_def kept_docs_def out_def map_of_fold_incr gomap_ok_fold_incr Let_def)
qed (use assms in \<open>simp add: add_doc_def kept_docs_def\<close>)

lemma kept_docs_snoc: "kept_docs (rs @ [r]) = kept_docs rs @ kept_docs [r]"
  by (simp add: kept_docs_def)

text \<open>
  Sealing tokenized documents gives an accumulator whose members are the documents with a
  non-nil field map in order, and whose posting list of a field and term is, in document order,
  one posting per member whose field holds the term, with the member's number and the clamped
  count; the lengths are the fields' token counts, their sum the field's total, and the document
  frequency of a term the number of members that hold it in any of the five fields.
\<close>

lemma buildSegment_meets_spec: "list_all tokens_wf results \<Longrightarrow> segment_spec (kept_docs results) (buildSegment results)"
proof (induction results rule: rev_induct)
  case Nil
  show ?case
    by (auto simp: segment_spec_def buildSegment_def kept_docs_def defaultFieldConfigs_def field_spec_def empty_field_def spec_postings_def)
next
  case (snoc r rs)
  then show ?case using add_doc_spec[of "kept_docs rs" "buildSegment rs" r] by (simp add: kept_docs_snoc buildSegment_def)
qed

section \<open>Tokenized documents are well formed\<close>

lemma gomap_ok_foldlike:
  assumes "\<And>i j m. P m \<Longrightarrow> P (fn i j m)" "P m"
  shows "P (scan_bytes bs k start fn m)"
  using assms by (induction bs arbitrary: k start m) (auto split: option.split)

lemma gomap_ok_scan_runes:
  assumes "\<And>i j m. P m \<Longrightarrow> P (fn i j m)" "P m"
  shows "P (scan_runes u s pos start fn m)"
  using assms
proof (induction u s pos start fn m rule: scan_runes.induct)
  case (1 u s pos start fn st)
  obtain r n where rn: "DecodeRuneInString (drop pos s) = (r, n)" by (cases "DecodeRuneInString (drop pos s)")
  show ?case
  proof (cases "pos < length s")
    case True
    then have "P (scan_runes u s (pos + n) (Some pos) fn st)" if "isWordRune u r" "start = None"
      by (intro 1(1)[OF True refl]) (use rn that 1(4,5) in auto)
    moreover have "P (scan_runes u s (pos + n) None fn (fn (the start) pos st))" if "\<not> isWordRune u r" "start \<noteq> None"
      by (intro 1(2)[OF True refl]) (use rn that 1(4,5) in auto)
    moreover have "P (scan_runes u s (pos + n) start fn st)" if "\<not> (isWordRune u r \<and> start = None)" "\<not> (\<not> isWordRune u r \<and> start \<noteq> None)"
      by (intro 1(3)[OF True refl]) (use rn that 1(4,5) in auto)
    ultimately show ?thesis using True rn by (subst scan_runes.simps) simp
  qed (use 1(4,5) in \<open>simp add: scan_runes.simps split: option.split\<close>)
qed

lemma gomap_ok_camel: "gomap_ok m \<Longrightarrow> gomap_ok (camel_loop u w l s i m)"
proof (induction u w l s i m rule: camel_loop.induct)
  case (1 u word lower start i tokens)
  have "gomap_ok (emitCamelPart u word lower a b tokens)" for a b
    using 1(3) by (simp add: emitCamelPart_def Let_def)
  then show ?case using 1 by (subst camel_loop.simps) simp
qed

lemma gomap_ok_snake: "gomap_ok m \<Longrightarrow> gomap_ok (snake_loop u w l ps off m)"
  by (induction ps arbitrary: off m) (auto simp: Let_def tokenizeCamelParts_def gomap_ok_camel)

lemma gomap_ok_tokenizeWord: "gomap_ok m \<Longrightarrow> gomap_ok (tokenizeWord u w l m)"
  by (simp add: tokenizeWord_def tokenizeSnakeCase_def tokenizeCamelParts_def gomap_ok_camel gomap_ok_snake)

lemma gomap_ok_tokenize: "gomap_ok (tokenize u s)"
  unfolding tokenize_def tokenize_spans_def tokenize_words_def splitOnDelimitersFunc_def splitOnDelimitersFuncOffset_def Let_def
  by (auto intro!: gomap_ok_foldlike[where P = gomap_ok] gomap_ok_scan_runes[where P = gomap_ok] gomap_ok_tokenizeWord)

definition out_wf :: "(string, tokens) gomap option \<Rightarrow> bool" where
  "out_wf out \<longleftrightarrow> (case out of None \<Rightarrow> True | Some fs \<Rightarrow> gomap_ok fs \<and> list_all (\<lambda>(name, toks). gomap_ok toks) fs)"

lemma out_wf_update:
  "out_wf out \<Longrightarrow> gomap_ok v \<Longrightarrow> out_wf (Some (AList.update k v (case out of None \<Rightarrow> [] | Some m \<Rightarrow> m)))"
proof -
  have up: "list_all (\<lambda>(n, toks). gomap_ok toks) (AList.update k v m)"
    if "list_all (\<lambda>(n, toks). gomap_ok toks) m" "gomap_ok v" for k and v :: tokens and m
    using that by (induction m) auto
  assume "out_wf out" "gomap_ok v"
  then show ?thesis using up by (auto simp: out_wf_def gomap_ok_def[of "[(k, v)]"] split: option.splits)
qed

lemma tokenize_fields_wf: "out_wf out \<Longrightarrow> out_wf (tokenize_fields u fs names out)"
  by (induction names arbitrary: out) (simp_all add: Let_def out_wf_update gomap_ok_tokenize)

lemma tokenizeOne_wf: "tokens_wf (tokenizeOne u d)"
  using tokenize_fields_wf[of None u "doc_Fields d" indexedFields] by (simp add: tokens_wf_def tokenizeOne_def out_wf_def)

definition demo_doc :: Document where
  "demo_doc = \<lparr>doc_ID = ''d1'', doc_Fields = [(''summary'', ''getUser''), (''content'', [])], doc_Vector = [], doc_Dtype = []\<rparr>"

end
