(* ===== verification/Bm25Hash.thy ===== *)
theory Bm25Hash
  imports Prelude
begin

text \<open>
  The hash accelerator of \<open>internal/searchengine/formats/bm25/serial_v2_dict.go\<close> and
  \<open>mapped_dict.go\<close>: FNV-1a, the table size, open-addressed placement and the probe. A table is the
  list of its slots, each a fingerprint and an entry index; both the writer and the reader step
  through it by \<open>(slot + 1) & mask\<close>.

  The writer's placement loop has no bound of its own. It is modelled with as many steps as there
  are slots, after which it has seen every slot and would go round for ever: \<open>None\<close>.

  Shown: the table size is the least power of two that is at least twice the number of terms; the
  placement of every term ends; a probe of the filled table finds exactly the terms placed.
\<close>

unbundle bit_operations_syntax

definition hashEmptySlot :: nat where
  "hashEmptySlot = 4294967295"

definition termHash :: "string \<Rightarrow> 64 word" where
  "termHash s = fold (\<lambda>c h. (h XOR word_of_nat (of_char c)) * 1099511628211) s 14695981039346656037"

text \<open>The loop doubles \<open>n = 1\<close>; \<open>k\<close> counts the doublings.\<close>

function slot_loop :: "nat \<Rightarrow> nat \<Rightarrow> nat" where
  "slot_loop terms k = (if 2 ^ k < 2 * terms then slot_loop terms (k + 1) else 2 ^ k)"
  by pat_completeness auto
termination
proof (relation "measure (\<lambda>(terms, k). 2 * terms - k)", goal_cases)
  case (2 terms k)
  then have "k < 2 * terms" using less_exp[of k] by (rule less_trans[rotated])
  then show ?case by simp
qed simp

declare slot_loop.simps [simp del]

definition hashSlotCount :: "nat \<Rightarrow> nat" where
  "hashSlotCount terms = slot_loop terms 0"

type_synonym slot_table = "(nat \<times> nat) list"

definition next_slot :: "nat \<Rightarrow> nat \<Rightarrow> nat" where
  "next_slot slots slot = unat ((word_of_nat slot + 1 :: 64 word) AND (word_of_nat slots - 1))"

definition home_slot :: "nat \<Rightarrow> 64 word \<Rightarrow> nat" where
  "home_slot slots h = unat (h AND (word_of_nat slots - 1))"

definition fingerprint :: "64 word \<Rightarrow> nat" where
  "fingerprint h = unat (drop_bit 32 h)"

fun place_slot :: "nat \<Rightarrow> slot_table \<Rightarrow> nat \<Rightarrow> nat \<times> nat \<Rightarrow> slot_table option" where
  "place_slot 0 table slot e = None"
| "place_slot (Suc fuel) table slot e =
     (if snd (table ! slot) = hashEmptySlot then Some (table[slot := e])
      else place_slot fuel table (next_slot (length table) slot) e)"

fun fill_slots :: "string list \<Rightarrow> nat \<Rightarrow> slot_table \<Rightarrow> slot_table option" where
  "fill_slots [] i table = Some table"
| "fill_slots (t # ts) i table =
     (let h = termHash t
      in case place_slot (length table) table (home_slot (length table) h) (fingerprint h, i) of
           None \<Rightarrow> None
         | Some table \<Rightarrow> fill_slots ts (i + 1) table)"

definition hashTable :: "string list \<Rightarrow> slot_table option" where
  "hashTable terms = fill_slots terms 0 (replicate (hashSlotCount (length terms)) (0, hashEmptySlot))"

text \<open>The reader's probe: at most one round over the slots, stopped by an empty one. \<open>entry i\<close> is the
  term and the payload of dictionary row \<open>i\<close>.\<close>

fun probe_slots :: "nat \<Rightarrow> slot_table \<Rightarrow> nat \<Rightarrow> nat \<Rightarrow> (nat \<Rightarrow> bool) \<Rightarrow> nat option" where
  "probe_slots 0 table slot fp hit = None"
| "probe_slots (Suc n) table slot fp hit =
     (let (f, idx) = table ! slot
      in if idx = hashEmptySlot then None
         else if f = fp \<and> hit idx then Some idx
         else probe_slots n table (next_slot (length table) slot) fp hit)"

section \<open>The size of the table\<close>

lemma slot_loop_least:
  "\<exists>j \<ge> k. slot_loop terms k = 2 ^ j \<and> 2 * terms \<le> 2 ^ j \<and> (\<forall>i. k \<le> i \<and> i < j \<longrightarrow> 2 ^ i < 2 * terms)"
proof (induction terms k rule: slot_loop.induct)
  case (1 terms k)
  show ?case
  proof (cases "2 ^ k < 2 * terms")
    case True
    then obtain j where j: "k + 1 \<le> j" "slot_loop terms (k + 1) = 2 ^ j" "2 * terms \<le> 2 ^ j"
      "\<forall>i. k + 1 \<le> i \<and> i < j \<longrightarrow> 2 ^ i < 2 * terms" using 1 by blast
    have "2 ^ i < 2 * terms" if "k \<le> i" "i < j" for i using that True j(4) by (cases "i = k") auto
    then show ?thesis using True j by (intro exI[of _ j]) (simp add: slot_loop.simps)
  qed (auto simp: slot_loop.simps intro!: exI[of _ k])
qed

lemma hashSlotCount_pow: obtains j where "hashSlotCount n = 2 ^ j" "2 * n \<le> 2 ^ j"
  using slot_loop_least[of 0 n] by (auto simp: hashSlotCount_def)

lemma hashSlotCount_upper: "n \<noteq> 0 \<Longrightarrow> hashSlotCount n < 4 * n"
proof -
  obtain j where j: "hashSlotCount n = 2 ^ j" "\<forall>i. i < j \<longrightarrow> 2 ^ i < 2 * n"
    using slot_loop_least[of 0 n] by (auto simp: hashSlotCount_def)
  assume "n \<noteq> 0"
  then show ?thesis using j by (cases j) (auto dest: spec[of _ "j - 1"])
qed


text \<open>
  \<open>hashSlotCount\<close> returns a power of two that is at least twice the number of terms and, for a
  non-empty dictionary, less than four times it.
\<close>

lemma hashSlotCount_bounds:
  "(\<exists>j. hashSlotCount n = 2 ^ j) \<and> 2 * n \<le> hashSlotCount n \<and> (0 < n \<longrightarrow> hashSlotCount n < 4 * n)"
  using hashSlotCount_pow[of n] hashSlotCount_upper[of n] by (metis not_gr_zero)

section \<open>Stepping through the slots\<close>

lemma and_pow_mask: "unat ((w :: 64 word) AND (word_of_nat (2 ^ j) - 1)) = unat w mod 2 ^ j"
proof -
  have "w AND (word_of_nat (2 ^ j) - 1) = take_bit j w"
    by (simp add: take_bit_eq_mask mask_eq_exp_minus_1)
  then show ?thesis by (simp only: unsigned_take_bit_eq) (simp add: take_bit_eq_mod)
qed

lemma home_slot_mod: "home_slot (2 ^ j) h = unat h mod 2 ^ j"
  by (simp only: home_slot_def and_pow_mask)

lemma next_slot_mod: "j \<le> 64 \<Longrightarrow> next_slot (2 ^ j) s = (s + 1) mod 2 ^ j"
proof -
  assume "j \<le> 64"
  then have d: "(2::nat) ^ j dvd 2 ^ 64" by (rule le_imp_power_dvd)
  have "unat (word_of_nat s + 1 :: 64 word) = (s + 1) mod 2 ^ 64"
  proof -
    have "unat (word_of_nat (s + 1) :: 64 word) = (s + 1) mod 2 ^ 64"
      by (simp only: unsigned_of_nat take_bit_eq_mod) simp
    then show ?thesis by (simp only: of_nat_add of_nat_1)
  qed
  then show ?thesis unfolding next_slot_def and_pow_mask using mod_mod_cancel[OF d] by simp
qed

definition nth_slot :: "slot_table \<Rightarrow> nat \<Rightarrow> nat \<Rightarrow> nat \<times> nat" where
  "nth_slot table s k = table ! ((s + k) mod length table)"

abbreviation slot_free :: "nat \<times> nat \<Rightarrow> bool" where
  "slot_free e \<equiv> snd e = hashEmptySlot"

definition pow_table :: "slot_table \<Rightarrow> bool" where
  "pow_table table \<longleftrightarrow> (\<exists>j \<le> 64. length table = 2 ^ j)"

lemma next_slot_table: "pow_table table \<Longrightarrow> next_slot (length table) (s mod length table) = (s + 1) mod length table"
  by (auto simp: pow_table_def next_slot_mod mod_Suc_eq)

lemma pow_table_pos: "pow_table table \<Longrightarrow> 0 < length table"
  by (auto simp: pow_table_def)

lemma place_slot_at:
  assumes "pow_table table" "k < fuel" "slot_free (nth_slot table s k)" "\<And>k'. k' < k \<Longrightarrow> \<not> slot_free (nth_slot table s k')"
  shows "place_slot fuel table (s mod length table) e = Some (table[(s + k) mod length table := e])"
  using assms
proof (induction k arbitrary: fuel s)
  case 0
  then obtain f where "fuel = Suc f" by (cases fuel) auto
  then show ?case using 0 by (simp add: nth_slot_def)
next
  case (Suc k)
  obtain f where f: "fuel = Suc f" using Suc.prems by (cases fuel) auto
  have nf: "\<not> slot_free (table ! (s mod length table))" using Suc.prems(4)[of 0] by (simp add: nth_slot_def)
  have "place_slot f table ((s + 1) mod length table) e = Some (table[(s + 1 + k) mod length table := e])"
    by (rule Suc.IH) (use Suc.prems f in \<open>force simp: nth_slot_def\<close>)+
  then show ?case using nf Suc.prems(1) by (simp add: f next_slot_table)
qed

lemma probe_slots_at:
  assumes "pow_table table" "k < n"
    and "nth_slot table s k = (fp, i)" "i \<noteq> hashEmptySlot" "hit i"
    and "\<And>k'. k' < k \<Longrightarrow> \<not> slot_free (nth_slot table s k')"
    and "\<And>i'. hit i' \<Longrightarrow> i' = i"
  shows "probe_slots n table (s mod length table) fp hit = Some i"
  using assms
proof (induction k arbitrary: n s)
  case 0
  obtain m where "n = Suc m" using 0(2) by (cases n) auto
  then show ?case using 0(3-5) by (simp add: nth_slot_def)
next
  case (Suc k)
  obtain m where m: "n = Suc m" using Suc.prems(2) by (cases n) auto
  have nf: "\<not> slot_free (table ! (s mod length table))" using Suc.prems(6)[of 0] by (simp add: nth_slot_def)
  have "probe_slots m table ((s + 1) mod length table) fp hit = Some i"
  proof (rule Suc.IH[OF Suc.prems(1)])
    show "nth_slot table (s + 1) k = (fp, i)" using Suc.prems(3) by (simp add: nth_slot_def)
    show "\<not> slot_free (nth_slot table (s + 1) k')" if "k' < k" for k'
      using Suc.prems(6)[of "Suc k'"] that by (simp add: nth_slot_def)
  qed (use Suc.prems(2) m in simp, rule Suc.prems(4), rule Suc.prems(5), erule Suc.prems(7))
  then show ?case using nf Suc.prems(1,7) by (auto simp: m next_slot_table split: prod.split)
qed

lemma probe_slots_miss: "(\<And>i. \<not> hit i) \<Longrightarrow> probe_slots n table s fp hit = None"
  by (induction n arbitrary: s) (auto simp: Let_def split: prod.split)

section \<open>Filling\<close>

text \<open>The state of the table when the first \<open>n\<close> of \<open>terms\<close> are placed.\<close>

definition placed :: "string list \<Rightarrow> nat \<Rightarrow> slot_table \<Rightarrow> bool" where
  "placed terms n table \<longleftrightarrow> pow_table table
   \<and> card {s. s < length table \<and> \<not> slot_free (table ! s)} = n
   \<and> (\<forall>i < n. \<exists>k < length table. nth_slot table (unat (termHash (terms ! i))) k = (fingerprint (termHash (terms ! i)), i)
        \<and> (\<forall>k' < k. \<not> slot_free (nth_slot table (unat (termHash (terms ! i))) k')))"

lemma free_slot_ahead:
  assumes "pow_table table" "card {s. s < length table \<and> \<not> slot_free (table ! s)} < length table"
  obtains k where "k < length table" "slot_free (nth_slot table s k)" "\<And>k'. k' < k \<Longrightarrow> \<not> slot_free (nth_slot table s k')"
proof -
  let ?N = "length table"
  obtain f where f: "f < ?N" "slot_free (table ! f)"
  proof -
    have "{s. s < ?N \<and> \<not> slot_free (table ! s)} \<noteq> {..<?N}" using assms(2) by (metis card_lessThan less_irrefl)
    then show ?thesis using that by blast
  qed
  have "\<exists>k < ?N. (s + k) mod ?N = f"
  proof (intro exI[of _ "(f + ?N - s mod ?N) mod ?N"] conjI)
    have "s mod ?N < ?N" using pow_table_pos[OF assms(1)] by simp
    then have "s mod ?N + (f + ?N - s mod ?N) = f + ?N" by simp
    then have "(s mod ?N + (f + ?N - s mod ?N)) mod ?N = f" using f(1) by simp
    then show "(s + (f + ?N - s mod ?N) mod ?N) mod ?N = f" by (simp only: mod_add_left_eq mod_add_right_eq)
  qed (use pow_table_pos[OF assms(1)] in simp)
  then obtain k where k: "k < ?N" "slot_free (nth_slot table s k)" using f by (auto simp: nth_slot_def)
  define k0 where "k0 = (LEAST k. slot_free (nth_slot table s k))"
  have "slot_free (nth_slot table s k0)" "k0 \<le> k" "\<And>k'. k' < k0 \<Longrightarrow> \<not> slot_free (nth_slot table s k')"
    unfolding k0_def using k(2) by (auto intro: LeastI Least_le dest: not_less_Least)
  then show ?thesis using k(1) that by (meson le_less_trans)
qed

lemma placed_step:
  assumes "placed terms n table" "n < length table" "n < hashEmptySlot"
  shows "\<exists>table'. place_slot (length table) table (home_slot (length table) (termHash (terms ! n))) (fingerprint (termHash (terms ! n)), n)
           = Some table' \<and> placed terms (Suc n) table' \<and> length table' = length table"
proof -
  let ?h = "termHash (terms ! n)" and ?N = "length table"
  have pt: "pow_table table" using assms(1) by (simp add: placed_def)
  have home: "home_slot ?N h = unat h mod ?N" for h using pt by (auto simp: pow_table_def home_slot_mod)
  obtain k where k: "k < ?N" "slot_free (nth_slot table (unat ?h) k)" "\<And>k'. k' < k \<Longrightarrow> \<not> slot_free (nth_slot table (unat ?h) k')"
    by (rule free_slot_ahead[OF pt, of "unat ?h"]) (use assms(1,2) in \<open>auto simp: placed_def\<close>)
  define p where "p = (unat ?h + k) mod ?N"
  define table' where "table' = table[p := (fingerprint ?h, n)]"
  have p: "p < ?N" "slot_free (table ! p)" using k pow_table_pos[OF pt] by (auto simp: p_def nth_slot_def)
  have len: "length table' = ?N" "pow_table table'" using pt by (auto simp: table'_def pow_table_def)
  have nth': "table' ! s = (if s = p then (fingerprint ?h, n) else table ! s)" for s
    using p by (simp add: table'_def nth_list_update)
  have occ: "{s. s < length table' \<and> \<not> slot_free (table' ! s)} = insert p {s. s < ?N \<and> \<not> slot_free (table ! s)}"
    using p assms(3) len by (auto simp: nth')
  have keep: "\<not> slot_free (nth_slot table s k') \<Longrightarrow> nth_slot table' s k' = nth_slot table s k'" for s k'
    using p(2) len by (auto simp: nth_slot_def nth')
  have here: "nth_slot table' (unat ?h) k = (fingerprint ?h, n)"
    by (simp add: nth_slot_def nth' len p_def)
  have "placed terms (Suc n) table'"
    unfolding placed_def
  proof (intro conjI allI impI)
    show "card {s. s < length table' \<and> \<not> slot_free (table' ! s)} = Suc n"
      unfolding occ using p assms(1) by (simp add: placed_def)
    fix i assume "i < Suc n"
    show "\<exists>k < length table'. nth_slot table' (unat (termHash (terms ! i))) k = (fingerprint (termHash (terms ! i)), i)
        \<and> (\<forall>k' < k. \<not> slot_free (nth_slot table' (unat (termHash (terms ! i))) k'))"
    proof (cases "i = n")
      case True
      then show ?thesis using k here len keep by (metis)
    next
      case False
      then have "i < n" "i \<noteq> hashEmptySlot" using \<open>i < Suc n\<close> assms(3) by auto
      then obtain k1 where "k1 < ?N" "nth_slot table (unat (termHash (terms ! i))) k1 = (fingerprint (termHash (terms ! i)), i)"
        "\<forall>k' < k1. \<not> slot_free (nth_slot table (unat (termHash (terms ! i))) k')" using assms(1) unfolding placed_def by blast
      then show ?thesis using len keep \<open>i \<noteq> hashEmptySlot\<close> by (metis snd_conv)
    qed
  qed (rule len(2))
  then show ?thesis
    using place_slot_at[OF pt k] len(1) by (auto simp: home table'_def p_def)
qed

lemma fill_slots_placed:
  assumes "placed terms n table" "length terms \<le> length table" "length terms \<le> hashEmptySlot" "n \<le> length terms"
  shows "\<exists>table'. fill_slots (drop n terms) n table = Some table' \<and> placed terms (length terms) table' \<and> length table' = length table"
  using assms
proof (induction "length terms - n" arbitrary: n table)
  case (Suc m)
  then have n: "n < length terms" by simp
  obtain table' where t: "place_slot (length table) table (home_slot (length table) (termHash (terms ! n))) (fingerprint (termHash (terms ! n)), n)
      = Some table'" "placed terms (Suc n) table'" "length table' = length table"
    using placed_step[OF Suc.prems(1)] Suc.prems n by auto
  have "\<exists>table''. fill_slots (drop (Suc n) terms) (Suc n) table' = Some table'' \<and> placed terms (length terms) table'' \<and> length table'' = length table'"
    by (rule Suc.hyps(1)) (use Suc t n in auto)
  then show ?case using t n by (simp add: Cons_nth_drop_Suc[symmetric])
qed simp

lemma hashTable_placed:
  assumes "length terms \<le> hashEmptySlot"
  obtains table where "hashTable terms = Some table" "placed terms (length terms) table" "length table = hashSlotCount (length terms)"
proof -
  let ?n = "length terms"
  obtain j where j: "hashSlotCount ?n = 2 ^ j" "2 * ?n \<le> 2 ^ j" by (rule hashSlotCount_pow)
  have "j \<le> 64"
  proof (rule ccontr)
    assume "\<not> j \<le> 64"
    then have "(2::nat) ^ 64 \<le> 2 ^ j" by (intro power_increasing) auto
    moreover have "hashSlotCount ?n < 4 * ?n \<or> hashSlotCount ?n = 1"
      using hashSlotCount_upper[of ?n] by (cases "?n = 0") (auto simp: hashSlotCount_def slot_loop.simps)
    ultimately show False using assms j(1) by (auto simp: hashEmptySlot_def)
  qed
  then have pt: "pow_table (replicate (hashSlotCount ?n) (0, hashEmptySlot))" using j by (auto simp: pow_table_def)
  have "{s. s < hashSlotCount ?n \<and> \<not> slot_free (replicate (hashSlotCount ?n) (0, hashEmptySlot) ! s)} = {}" by auto
  then have "placed terms 0 (replicate (hashSlotCount ?n) (0, hashEmptySlot))"
    using pt by (simp add: placed_def)
  then show ?thesis
    using that fill_slots_placed[of terms 0 "replicate (hashSlotCount ?n) (0, hashEmptySlot)"] assms j by (auto simp: hashTable_def)
qed

text \<open>
  C25: Placing the terms of a dictionary with fewer than \<open>hashEmptySlot\<close> entries in its accelerator ends:
  no placement loop goes round a full table, whatever the hashes.
\<close>

theorem hashTable_terminates:
  "length terms \<le> hashEmptySlot \<Longrightarrow> \<exists>table. hashTable terms = Some table \<and> length table = hashSlotCount (length terms)"
  by (metis hashTable_placed)

theorem hashTable_terminates_witness:
  "\<exists>table. hashTable [''by'', ''get'', ''id''] = Some table \<and> length table = hashSlotCount 3"
proof -
  have "length [''by'', ''get'', ''id''] = 3" by simp
  then show ?thesis using hashTable_terminates[of "[''by'', ''get'', ''id'']"] by (simp only: hashEmptySlot_def)
qed

section \<open>Probing\<close>

definition row_hit :: "string list \<Rightarrow> string \<Rightarrow> nat \<Rightarrow> bool" where
  "row_hit terms t i \<longleftrightarrow> i < length terms \<and> terms ! i = t"

definition probeTable :: "slot_table \<Rightarrow> string \<Rightarrow> (nat \<Rightarrow> bool) \<Rightarrow> nat option" where
  "probeTable table t hit =
     (if length table = 0 then None
      else probe_slots (length table) table (home_slot (length table) (termHash t)) (fingerprint (termHash t)) hit)"

lemma probeTable_correct:
  assumes "hashTable terms = Some table" "distinct terms" "length terms \<le> hashEmptySlot"
  shows "i < length terms \<Longrightarrow> probeTable table (terms ! i) (row_hit terms (terms ! i)) = Some i"
    and "t \<notin> set terms \<Longrightarrow> probeTable table t (row_hit terms t) = None"
proof -
  have pl: "placed terms (length terms) table" using hashTable_placed[OF assms(3)] assms(1) by auto
  then have pt: "pow_table table" by (simp add: placed_def)
  have home: "home_slot (length table) h = unat h mod length table" for h using pt by (auto simp: pow_table_def home_slot_mod)
  show "probeTable table (terms ! i) (row_hit terms (terms ! i)) = Some i" if i: "i < length terms"
  proof -
    obtain k where k: "k < length table" "nth_slot table (unat (termHash (terms ! i))) k = (fingerprint (termHash (terms ! i)), i)"
      "\<And>k'. k' < k \<Longrightarrow> \<not> slot_free (nth_slot table (unat (termHash (terms ! i))) k')"
      using pl i unfolding placed_def by blast
    have "probe_slots (length table) table (unat (termHash (terms ! i)) mod length table)
        (fingerprint (termHash (terms ! i))) (row_hit terms (terms ! i)) = Some i"
      by (rule probe_slots_at[OF pt k(1,2)]) (use i k(3) assms(2,3) in \<open>auto simp: row_hit_def nth_eq_iff_index_eq\<close>)
    then show ?thesis using pow_table_pos[OF pt] by (simp add: probeTable_def home)
  qed
  show "t \<notin> set terms \<Longrightarrow> probeTable table t (row_hit terms t) = None"
    by (auto simp: probeTable_def row_hit_def intro!: probe_slots_miss)
qed

text \<open>
  A probe of the accelerator built over distinct terms returns the row of a term that the
  dictionary holds and stops without a row for one that it does not, however the hashes collide.
\<close>

lemma hash_probe_exact:
  "hashTable terms = Some table \<Longrightarrow> distinct terms \<Longrightarrow> length terms \<le> hashEmptySlot \<Longrightarrow>
   (\<forall>i < length terms. probeTable table (terms ! i) (row_hit terms (terms ! i)) = Some i)
   \<and> (\<forall>t. t \<notin> set terms \<longrightarrow> probeTable table t (row_hit terms t) = None)"
  using probeTable_correct by blast


theorem hash_probe_exact_witness:
  "\<exists>table. hashTable [''by'', ''get'', ''id''] = Some table
     \<and> probeTable table ''get'' (row_hit [''by'', ''get'', ''id''] ''get'') = Some 1
     \<and> probeTable table ''user'' (row_hit [''by'', ''get'', ''id''] ''user'') = None"
proof -
  let ?ts = "[''by'', ''get'', ''id'']"
  have n: "length ?ts \<le> hashEmptySlot" by (simp add: hashEmptySlot_def)
  obtain table where t: "hashTable ?ts = Some table" using hashTable_placed[OF n] by blast
  have d: "distinct ?ts" "1 < length ?ts" "''user'' \<notin> set ?ts" "?ts ! 1 = ''get''" by simp_all
  have "probeTable table (?ts ! 1) (row_hit ?ts (?ts ! 1)) = Some 1" "probeTable table ''user'' (row_hit ?ts ''user'') = None"
    using hash_probe_exact[OF t d(1) n] d(2,3) by blast+
  then show ?thesis using t unfolding d(4) by blast
qed

end
