(* ===== verification/Bm25Serial.thy ===== *)
theory Bm25Serial
  imports Bm25Build Bm25Hash
begin

text \<open>
  \<open>internal/searchengine/formats/bm25/serial_v2.go\<close> and \<open>serial_v2_dict.go\<close>: the plan of an
  offset-addressed blob and the stores that fill it.

  A writer is the list of its stores in the order the code makes them: \<open>Put\<close> is a
  \<open>binary.LittleEndian.PutUint*\<close> or a byte assignment, which panics out of range, \<open>Cpy\<close> a
  \<open>copy(buf[off:], s)\<close>, which panics only when the slice expression does. Offsets are naturals: every
  one is a sum of lengths, and a plan past \<open>2^32 - 1\<close> bytes is refused. The hash accelerator is
  assembled as a value and stored slot by slot; the code assembles it in the buffer.

  Shown: the sections of a plan lie one after the other, so the stores of an encoding never overlap,
  never leave the buffer and all survive in the blob.
\<close>

section \<open>Stores\<close>

datatype bstore = Put (st_off: nat) (st_bytes: "byte list") | Cpy (st_off: nat) (st_bytes: "byte list")

definition put_at :: "nat \<Rightarrow> byte list \<Rightarrow> byte list \<Rightarrow> byte list" where
  "put_at off bs b = take off b @ bs @ drop (off + length bs) b"

definition bounds_panic :: "'a outcome" where
  "bounds_panic = Panic ''slice bounds out of range''"

fun run_store :: "bstore \<Rightarrow> byte list \<Rightarrow> byte list outcome" where
  "run_store (Put off bs) b = (if off + length bs \<le> length b then Ret (put_at off bs b) else bounds_panic)"
| "run_store (Cpy off bs) b = (if off \<le> length b then Ret (put_at off (take (length b - off) bs) b) else bounds_panic)"

fun run_stores :: "bstore list \<Rightarrow> byte list \<Rightarrow> byte list outcome" where
  "run_stores [] b = Ret b"
| "run_stores (w # ws) b = bind_out (run_store w b) (run_stores ws)"

section \<open>Constants\<close>

definition serialVersion :: byte where "serialVersion = 2"
definition dictFlat :: byte where "dictFlat = 0"
definition dictBlocked :: byte where "dictBlocked = 1"
definition dictHash :: byte where "dictHash = 2"
definition defaultDictKind :: byte where "defaultDictKind = dictBlocked"
definition blockedBlockTerms :: nat where "blockedBlockTerms = 32"
definition v2MaxBlobBytes :: nat where "v2MaxBlobBytes = 4294967295"

abbreviation (input) v2HeaderSize :: nat where "v2HeaderSize \<equiv> 32"
abbreviation (input) v2FieldEntrySize :: nat where "v2FieldEntrySize \<equiv> 48"
abbreviation (input) v2FlatEntrySize :: nat where "v2FlatEntrySize \<equiv> 16"
abbreviation (input) v2HashSlotSize :: nat where "v2HashSlotSize \<equiv> 8"
abbreviation (input) v2DocFreqRowSize :: nat where "v2DocFreqRowSize \<equiv> 16"

text \<open>\<open>align(off, a)\<close> for a power of two \<open>a\<close>: \<open>&^ (a-1)\<close> drops the remainder.\<close>

definition align :: "nat \<Rightarrow> nat \<Rightarrow> nat" where
  "align off a = (off + a - 1) div a * a"

section \<open>Plans\<close>

record v2DictPlan =
  d_off :: nat
  d_termsOff :: nat
  d_termOff :: "nat list"
  d_entriesOff :: nat
  d_slotsOff :: nat
  d_slotCount :: nat
  d_blockCount :: nat
  d_blockIdxOff :: nat
  d_blockOff :: "nat list"

record v2FieldPlan =
  fp_nameOff :: nat
  fp_docLengthsOff :: nat
  fp_terms :: "string list"
  fp_postOff :: "nat list"
  fp_dict :: v2DictPlan

record v2Plan =
  vp_kind :: byte
  vp_docCount :: nat
  vp_memberOffsetsOff :: nat
  vp_memberOff :: "nat list"
  vp_fieldTableOff :: nat
  vp_fields :: "v2FieldPlan list"
  vp_dfTerms :: "string list"
  vp_dfTermOff :: "nat list"
  vp_dfDictOff :: nat
  vp_dfEntriesOff :: nat
  vp_size :: nat

text \<open>The planning loops: each item at the next multiple of \<open>a\<close>, and the offset just past the last.\<close>

fun place :: "nat \<Rightarrow> nat \<Rightarrow> nat list \<Rightarrow> nat list \<times> nat" where
  "place a off [] = ([], off)"
| "place a off (n # ns) = (let at = align off a; (offs, end) = place a (at + n) ns in (at # offs, end))"

fun sharedPrefixLen :: "string \<Rightarrow> string \<Rightarrow> nat" where
  "sharedPrefixLen (a # as) (b # bs) = (if a = b then Suc (sharedPrefixLen as bs) else 0)"
| "sharedPrefixLen _ _ = 0"

definition empty_dict :: v2DictPlan where
  "empty_dict = \<lparr>d_off = 0, d_termsOff = 0, d_termOff = [], d_entriesOff = 0, d_slotsOff = 0, d_slotCount = 0,
     d_blockCount = 0, d_blockIdxOff = 0, d_blockOff = []\<rparr>"

definition planFlatDict :: "nat \<Rightarrow> string list \<Rightarrow> v2DictPlan \<times> nat" where
  "planFlatDict off terms =
     (let (termOff, off1) = place 1 off (map length terms);
          dOff = align off1 8;
          entriesOff = dOff + 8
      in (empty_dict\<lparr>d_termsOff := off, d_termOff := termOff, d_off := dOff, d_entriesOff := entriesOff\<rparr>,
          entriesOff + v2FlatEntrySize * length terms))"

definition planHashDict :: "nat \<Rightarrow> string list \<Rightarrow> v2DictPlan \<times> nat" where
  "planHashDict off terms =
     (let (termOff, off1) = place 1 off (map length terms);
          dOff = align off1 8;
          entriesOff = dOff + 16;
          off2 = entriesOff + v2FlatEntrySize * length terms;
          slotCount = hashSlotCount (length terms);
          slotsOff = align off2 8
      in (empty_dict\<lparr>d_termsOff := off, d_termOff := termOff, d_off := dOff, d_entriesOff := entriesOff,
            d_slotCount := slotCount, d_slotsOff := slotsOff\<rparr>,
          slotsOff + v2HashSlotSize * slotCount))"

text \<open>Block \<open>b\<close> of the front-coded dictionary and the bytes its later terms take.\<close>

definition blockCountOf :: "nat \<Rightarrow> nat" where
  "blockCountOf n = (n + blockedBlockTerms - 1) div blockedBlockTerms"

definition block_slice :: "nat \<Rightarrow> 'a list \<Rightarrow> 'a list" where
  "block_slice b xs = take blockedBlockTerms (drop (b * blockedBlockTerms) xs)"

fun coded_size :: "string \<Rightarrow> string list \<Rightarrow> nat" where
  "coded_size prev [] = 0"
| "coded_size prev (t # ts) = 2 + 2 + (length t - sharedPrefixLen prev t) + 8 + coded_size t ts"

definition blockedPayloadSize :: "string list \<Rightarrow> nat \<Rightarrow> nat" where
  "blockedPayloadSize terms b =
     (case block_slice b terms of [] \<Rightarrow> 8 | t # ts \<Rightarrow> 8 + coded_size t ts)"

definition planBlockedDict :: "nat \<Rightarrow> string list \<Rightarrow> v2DictPlan \<times> nat" where
  "planBlockedDict off terms =
     (let blockCount = blockCountOf (length terms);
          firsts = map (\<lambda>b. terms ! (b * blockedBlockTerms)) [0..<blockCount];
          (termOff, off1) = place 1 off (map length firsts);
          dOff = align off1 8;
          firstTermRowsOff = dOff + 16;
          blockIdxOff = align (firstTermRowsOff + 8 * blockCount) 4;
          (blockOff, end) = place 1 (blockIdxOff + 4 * blockCount) (map (blockedPayloadSize terms) [0..<blockCount])
      in (empty_dict\<lparr>d_blockCount := blockCount, d_termsOff := off, d_termOff := termOff, d_off := dOff,
            d_blockIdxOff := blockIdxOff, d_blockOff := blockOff\<rparr>, end))"

definition planDict :: "byte \<Rightarrow> nat \<Rightarrow> string list \<Rightarrow> v2DictPlan \<times> nat" where
  "planDict kind off terms =
     (if kind = dictBlocked then planBlockedDict off terms
      else if kind = dictHash then planHashDict off terms
      else planFlatDict off terms)"

definition sortedKeys :: "(string, 'v) gomap \<Rightarrow> string list" where
  "sortedKeys m = sort (map fst m)"

fun plan_fields :: "byte \<Rightarrow> nat \<Rightarrow> fieldData list \<Rightarrow> nat list \<Rightarrow> nat list \<Rightarrow> v2FieldPlan list \<times> nat" where
  "plan_fields kind off (fd # fds) (nameOff # nameOffs) (lensOff # lensOffs) =
     (let terms = sortedKeys (fd_postings fd);
          (dict, off1) = planDict kind off terms;
          (postOff, off2) = place 4 off1 (map (\<lambda>t. 4 * length (postings_of fd t) + 2 * length (postings_of fd t)) terms);
          (fps, end) = plan_fields kind off2 fds nameOffs lensOffs
      in (\<lparr>fp_nameOff = nameOff, fp_docLengthsOff = lensOff, fp_terms = terms, fp_postOff = postOff, fp_dict = dict\<rparr> # fps, end))"
| "plan_fields kind off _ _ _ = ([], off)"

definition layoutV2 :: "bm25Segment \<Rightarrow> byte \<Rightarrow> v2Plan" where
  "layoutV2 s kind =
     (let docCount = length (bs_members s);
          memberOffsetsOff = align v2HeaderSize 4;
          (memberOff, off1) = place 1 (memberOffsetsOff + 4 * (docCount + 1)) (map length (bs_members s));
          fieldTableOff = align off1 8;
          (nameOff, off2) = place 1 (fieldTableOff + v2FieldEntrySize * length (bs_fields s))
             (map (\<lambda>fd. length (fc_Name (fd_config fd))) (bs_fields s));
          (lensOff, off3) = place 4 off2 (map (\<lambda>_. 4 * docCount) (bs_fields s));
          (fps, off4) = plan_fields kind off3 (bs_fields s) nameOff lensOff;
          dfTerms = sortedKeys (bs_docFreq s);
          dfDictOff = align off4 8;
          dfEntriesOff = align (dfDictOff + 8) 8;
          (dfTermOff, size) = place 1 (dfEntriesOff + v2DocFreqRowSize * length dfTerms) (map length dfTerms)
      in \<lparr>vp_kind = kind, vp_docCount = docCount, vp_memberOffsetsOff = memberOffsetsOff, vp_memberOff = memberOff @ [off1],
          vp_fieldTableOff = fieldTableOff, vp_fields = fps, vp_dfTerms = dfTerms, vp_dfTermOff = dfTermOff,
          vp_dfDictOff = dfDictOff, vp_dfEntriesOff = dfEntriesOff, vp_size = size\<rparr>)"

definition planSegmentV2 :: "bm25Segment \<Rightarrow> byte \<Rightarrow> v2Plan outcome" where
  "planSegmentV2 s kind =
     (let p = layoutV2 s kind
      in if vp_size p > v2MaxBlobBytes then Fail (ErrText ''bm25 encode: segment too large'') else Ret p)"

section \<open>Writers\<close>

abbreviation put16 :: "nat \<Rightarrow> nat \<Rightarrow> bstore" where "put16 off v \<equiv> Put off (put_le 2 v)"
abbreviation put32 :: "nat \<Rightarrow> nat \<Rightarrow> bstore" where "put32 off v \<equiv> Put off (put_le 4 v)"
abbreviation put64 :: "nat \<Rightarrow> nat \<Rightarrow> bstore" where "put64 off v \<equiv> Put off (put_le 8 v)"
abbreviation cpy :: "nat \<Rightarrow> string \<Rightarrow> bstore" where "cpy off s \<equiv> Cpy off (bytes_of s)"

text \<open>A dictionary's input: each term with where its posting run lies and how long it is.\<close>

type_synonym dict_entry = "string \<times> nat \<times> nat"

definition flat_entry_stores :: "nat \<Rightarrow> nat \<Rightarrow> nat \<Rightarrow> dict_entry \<Rightarrow> bstore list" where
  "flat_entry_stores entriesOff i termOff = (\<lambda>(term, postOff, postCount).
     let row = entriesOff + v2FlatEntrySize * i
     in [cpy termOff term, put32 row termOff, put32 (row + 4) (length term), put32 (row + 8) postOff, put32 (row + 12) postCount])"

definition writeFlatEntries :: "v2DictPlan \<Rightarrow> dict_entry list \<Rightarrow> bstore list" where
  "writeFlatEntries d es =
     concat (map (\<lambda>i. flat_entry_stores (d_entriesOff d) i (d_termOff d ! i) (es ! i)) [0..<length es])"

definition writeFlatDict :: "v2DictPlan \<Rightarrow> dict_entry list \<Rightarrow> bstore list" where
  "writeFlatDict d es =
     [put32 (d_off d) (length es), put32 (d_off d + 4) (d_entriesOff d)] @ writeFlatEntries d es"

definition slot_stores :: "nat \<Rightarrow> slot_table \<Rightarrow> bstore list" where
  "slot_stores slotsOff table =
     concat (map (\<lambda>s. [put32 (slotsOff + v2HashSlotSize * s) (fst (table ! s)),
                       put32 (slotsOff + v2HashSlotSize * s + 4) (snd (table ! s))]) [0..<length table])"

definition writeHashDict :: "v2DictPlan \<Rightarrow> dict_entry list \<Rightarrow> bstore list" where
  "writeHashDict d es =
     [put32 (d_off d) (length es), put32 (d_off d + 4) (d_entriesOff d), put32 (d_off d + 8) (d_slotsOff d),
      put32 (d_off d + 12) (d_slotCount d)] @ writeFlatEntries d es
     @ (case hashTable (map fst es) of None \<Rightarrow> [] | Some table \<Rightarrow> slot_stores (d_slotsOff d) table)"

text \<open>\<open>coded_stores\<close> is the loop of \<open>writeBlockedPayload\<close> over the later terms of a block.\<close>

fun coded_stores :: "nat \<Rightarrow> string \<Rightarrow> dict_entry list \<Rightarrow> bstore list" where
  "coded_stores at prev [] = []"
| "coded_stores at prev ((t, postOff, postCount) # es) =
     (let shared = sharedPrefixLen prev t; suffix = drop shared t; at' = at + 4 + length suffix
      in [put16 at shared, put16 (at + 2) (length suffix), cpy (at + 4) suffix, put32 at' postOff, put32 (at' + 4) postCount]
         @ coded_stores (at' + 8) t es)"

definition writeBlockedPayload :: "nat \<Rightarrow> dict_entry list \<Rightarrow> bstore list" where
  "writeBlockedPayload at block =
     (case block of
        [] \<Rightarrow> []
      | (t, postOff, postCount) # es \<Rightarrow> [put32 at postOff, put32 (at + 4) postCount] @ coded_stores (at + 8) t es)"

definition block_stores :: "v2DictPlan \<Rightarrow> dict_entry list \<Rightarrow> nat \<Rightarrow> bstore list" where
  "block_stores d es b =
     (let first = fst (es ! (b * blockedBlockTerms)); row = d_off d + 16 + 8 * b
      in [cpy (d_termOff d ! b) first, put32 row (d_termOff d ! b), put32 (row + 4) (length first),
          put32 (d_blockIdxOff d + 4 * b) (d_blockOff d ! b)]
         @ writeBlockedPayload (d_blockOff d ! b) (block_slice b es))"

definition writeBlockedDict :: "v2DictPlan \<Rightarrow> dict_entry list \<Rightarrow> bstore list" where
  "writeBlockedDict d es =
     [put32 (d_off d) (length es), put32 (d_off d + 4) (d_blockCount d), put32 (d_off d + 8) (d_off d + 16),
      put32 (d_off d + 12) (d_blockIdxOff d)]
     @ concat (map (block_stores d es) [0..<d_blockCount d])"

definition writeDict :: "byte \<Rightarrow> v2DictPlan \<Rightarrow> dict_entry list \<Rightarrow> bstore list" where
  "writeDict kind d es =
     (if kind = dictBlocked then writeBlockedDict d es
      else if kind = dictHash then writeHashDict d es
      else writeFlatDict d es)"

definition posting_stores :: "nat \<Rightarrow> posting list \<Rightarrow> bstore list" where
  "posting_stores at ps =
     concat (map (\<lambda>j. [put32 (at + 4 * j) (unat (p_docID (ps ! j))), put16 (at + 4 * length ps + 2 * j) (unat (p_tf (ps ! j)))])
       [0..<length ps])"

definition u32_of_int :: "int \<Rightarrow> nat" where
  "u32_of_int i = nat (i mod 2 ^ 32)"

definition u64_of_int :: "int \<Rightarrow> nat" where
  "u64_of_int i = nat (i mod 2 ^ 64)"

definition field_entries :: "v2FieldPlan \<Rightarrow> fieldData \<Rightarrow> dict_entry list" where
  "field_entries fp fd = map (\<lambda>i. (fp_terms fp ! i, fp_postOff fp ! i, length (postings_of fd (fp_terms fp ! i)))) [0..<length (fp_terms fp)]"

definition writeFieldV2 :: "v2Plan \<Rightarrow> nat \<Rightarrow> fieldData \<Rightarrow> bstore list" where
  "writeFieldV2 p i fd =
     (let fp = vp_fields p ! i; e = vp_fieldTableOff p + v2FieldEntrySize * i; cfg = fd_config fd
      in [put32 e (fp_nameOff fp), put16 (e + 4) (length (fc_Name cfg)), put64 (e + 8) (unat (fc_Boost cfg)),
          put64 (e + 16) (unat (fc_B cfg)), put64 (e + 24) (u64_of_int (fd_totalTokens fd)), put32 (e + 32) (fp_docLengthsOff fp),
          put32 (e + 36) (d_off (fp_dict fp)), cpy (fp_nameOff fp) (fc_Name cfg)]
         @ map (\<lambda>d. put32 (fp_docLengthsOff fp + 4 * d)
                      (u32_of_int (if d < length (fd_docLengths fd) then fd_docLengths fd ! d else 0))) [0..<vp_docCount p]
         @ writeDict (vp_kind p) (fp_dict fp) (field_entries fp fd)
         @ concat (map (\<lambda>t. posting_stores (fp_postOff fp ! t) (postings_of fd (fp_terms fp ! t))) [0..<length (fp_terms fp)]))"

definition writeDocFreqDict :: "v2Plan \<Rightarrow> (string, int) gomap \<Rightarrow> bstore list" where
  "writeDocFreqDict p docFreq =
     [put32 (vp_dfDictOff p) (length (vp_dfTerms p)), put32 (vp_dfDictOff p + 4) (vp_dfEntriesOff p)]
     @ concat (map (\<lambda>i.
         let row = vp_dfEntriesOff p + v2DocFreqRowSize * i; term = vp_dfTerms p ! i; termOff = vp_dfTermOff p ! i
         in [put32 row termOff, put32 (row + 4) (length term),
             put64 (row + 8) (u64_of_int (case map_of docFreq term of None \<Rightarrow> 0 | Some df \<Rightarrow> df)), cpy termOff term])
         [0..<length (vp_dfTerms p)])"

definition header_stores :: "v2Plan \<Rightarrow> nat \<Rightarrow> bstore list" where
  "header_stores p fieldCount =
     [Put 0 [serialVersion], Put 1 [vp_kind p], put16 2 fieldCount, put32 4 (vp_docCount p), put32 8 (vp_memberOffsetsOff p),
      put32 12 (vp_memberOff p ! 0), put32 16 (vp_fieldTableOff p), put32 20 (vp_dfDictOff p), put32 24 (vp_size p), put32 28 0]"

definition segment_stores :: "v2Plan \<Rightarrow> bm25Segment \<Rightarrow> bstore list" where
  "segment_stores p s =
     header_stores p (length (bs_fields s))
     @ map (\<lambda>i. put32 (vp_memberOffsetsOff p + 4 * i) (vp_memberOff p ! i)) [0..<length (vp_memberOff p)]
     @ map (\<lambda>i. cpy (vp_memberOff p ! i) (bs_members s ! i)) [0..<length (bs_members s)]
     @ concat (map (\<lambda>i. writeFieldV2 p i (bs_fields s ! i)) [0..<length (bs_fields s)])
     @ writeDocFreqDict p (bs_docFreq s)"

definition encodeSegmentV2 :: "bm25Segment \<Rightarrow> byte \<Rightarrow> byte list outcome" where
  "encodeSegmentV2 s kind =
     (if kind > dictHash then Fail (ErrText ''bm25 encode: unknown dictionary kind'')
      else bind_out (planSegmentV2 s kind) (\<lambda>p. run_stores (segment_stores p s) (replicate (vp_size p) 0)))"

section \<open>Stores that do not overlap all survive\<close>

definition st_end :: "bstore \<Rightarrow> nat" where
  "st_end w = st_off w + length (st_bytes w)"

definition holds :: "byte list \<Rightarrow> bstore \<Rightarrow> bool" where
  "holds b w \<longleftrightarrow> st_end w \<le> length b \<and> take (length (st_bytes w)) (drop (st_off w) b) = st_bytes w"

definition disj :: "bstore \<Rightarrow> bstore \<Rightarrow> bool" where
  "disj v w \<longleftrightarrow> st_end v \<le> st_off w \<or> st_end w \<le> st_off v"

fun asc :: "nat \<Rightarrow> bstore list \<Rightarrow> nat \<Rightarrow> bool" where
  "asc lo [] hi \<longleftrightarrow> lo \<le> hi"
| "asc lo (w # ws) hi \<longleftrightarrow> lo \<le> st_off w \<and> asc (st_end w) ws hi"

text \<open>\<open>laid lo ws hi\<close>: in some order the stores fill disjoint ranges upwards from \<open>lo\<close> to \<open>hi\<close>.\<close>

definition laid :: "nat \<Rightarrow> bstore list \<Rightarrow> nat \<Rightarrow> bool" where
  "laid lo ws hi \<longleftrightarrow> (\<exists>ws'. mset ws' = mset ws \<and> asc lo ws' hi)"

lemma asc_append: "asc lo xs m \<Longrightarrow> asc m ys hi \<Longrightarrow> asc lo (xs @ ys) hi"
proof (induction xs arbitrary: lo)
  case Nil
  then show ?case by (cases ys) auto
qed auto

lemma asc_le: "asc lo ws hi \<Longrightarrow> lo \<le> hi"
  by (induction ws arbitrary: lo) (auto simp: st_end_def, meson add_leD1 le_trans)

lemma asc_mono: "asc lo ws hi \<Longrightarrow> lo' \<le> lo \<Longrightarrow> hi \<le> hi' \<Longrightarrow> asc lo' ws hi'"
  by (induction ws arbitrary: lo lo') auto

lemma asc_within: "asc lo ws hi \<Longrightarrow> w \<in> set ws \<Longrightarrow> lo \<le> st_off w \<and> st_end w \<le> hi"
proof (induction ws arbitrary: lo)
  case (Cons v ws)
  have v: "lo \<le> st_off v" "asc (st_end v) ws hi" using Cons.prems(1) by auto
  show ?case
  proof (cases "w = v")
    case True
    then show ?thesis using v asc_le[OF v(2)] by (simp add: st_end_def)
  next
    case False
    then have "st_end v \<le> st_off w \<and> st_end w \<le> hi" using Cons.IH[OF v(2)] Cons.prems(2) by auto
    then show ?thesis using v(1) by (simp add: st_end_def)
  qed
qed simp

lemma asc_disj: "asc lo ws hi \<Longrightarrow> sorted_wrt disj ws"
  by (induction ws arbitrary: lo) (auto simp: disj_def dest: asc_within)

lemma laid_Nil [simp]: "laid lo [] hi \<longleftrightarrow> lo \<le> hi"
  by (simp add: laid_def)

lemma laid_append: "laid lo xs m \<Longrightarrow> laid m ys hi \<Longrightarrow> laid lo (xs @ ys) hi"
  unfolding laid_def by (metis asc_append mset_append)

lemma laid_cong: "mset xs = mset ys \<Longrightarrow> laid lo xs hi \<longleftrightarrow> laid lo ys hi"
  by (simp add: laid_def)

lemma laid_perm: "laid lo xs hi \<Longrightarrow> mset ys = mset xs \<Longrightarrow> laid lo ys hi"
  by (simp add: laid_def)

lemma laid_mono: "laid lo ws hi \<Longrightarrow> lo' \<le> lo \<Longrightarrow> hi \<le> hi' \<Longrightarrow> laid lo' ws hi'"
  unfolding laid_def by (meson asc_mono)

lemma laid_le: "laid lo ws hi \<Longrightarrow> lo \<le> hi"
  unfolding laid_def by (meson asc_le)

lemma laid_within: "laid lo ws hi \<Longrightarrow> w \<in> set ws \<Longrightarrow> lo \<le> st_off w \<and> st_end w \<le> hi"
  unfolding laid_def by (metis asc_within mset_eq_setD)

lemma laid_asc: "asc lo ws hi \<Longrightarrow> laid lo ws hi"
  by (auto simp: laid_def)

lemma sorted_wrt_sym_mset:
  assumes "\<And>x y. P x y \<Longrightarrow> P y x"
  shows "mset xs = mset ys \<Longrightarrow> sorted_wrt P xs \<Longrightarrow> sorted_wrt P ys"
proof (induction xs arbitrary: ys)
  case (Cons x xs)
  obtain as bs where ys: "ys = as @ x # bs" using Cons.prems(1) by (metis list.set_intros(1) mset_eq_setD split_list)
  have m: "mset xs = mset (as @ bs)" using Cons.prems(1) by (simp add: ys)
  then have "sorted_wrt P (as @ bs)" using Cons by simp
  moreover have "\<forall>y \<in> set (as @ bs). P x y" using Cons.prems(2) mset_eq_setD[OF m] by auto
  ultimately show ?case using assms by (auto simp: ys sorted_wrt_append)
qed simp

lemma laid_disj: "laid lo ws hi \<Longrightarrow> sorted_wrt disj ws"
  unfolding laid_def by (metis asc_disj disj_def sorted_wrt_sym_mset)

lemma length_put_at [simp]: "off + length bs \<le> length b \<Longrightarrow> length (put_at off bs b) = length b"
  by (simp add: put_at_def)

lemma run_store_in_bounds:
  "st_end w \<le> length b \<Longrightarrow> run_store w b = Ret (put_at (st_off w) (st_bytes w) b)"
  by (cases w) (auto simp: st_end_def)

lemma holds_put_at: "st_end w \<le> length b \<Longrightarrow> holds (put_at (st_off w) (st_bytes w) b) w"
  by (simp add: holds_def st_end_def put_at_def)

lemma holds_put_disj:
  assumes "holds b v" "disj v w" "st_end w \<le> length b"
  shows "holds (put_at (st_off w) (st_bytes w) b) v"
proof -
  let ?b = "put_at (st_off w) (st_bytes w) b"
  have len: "length ?b = length b" using assms(3) by (simp add: st_end_def)
  have "?b ! (st_off v + i) = b ! (st_off v + i)" if "i < length (st_bytes v)" for i
    using that assms by (auto simp: put_at_def nth_append disj_def st_end_def holds_def)
  then have "take (length (st_bytes v)) (drop (st_off v) ?b) = take (length (st_bytes v)) (drop (st_off v) b)"
    using conjunct1[OF assms(1)[unfolded holds_def]] len by (intro nth_equalityI) (simp_all add: st_end_def)
  then show ?thesis using assms(1) len by (simp add: holds_def)
qed

lemma run_stores_holds:
  assumes "sorted_wrt disj ws" "\<And>w. w \<in> set ws \<Longrightarrow> st_end w \<le> length b"
  shows "\<exists>b'. run_stores ws b = Ret b' \<and> length b' = length b \<and> (\<forall>w \<in> set ws. holds b' w)
     \<and> (\<forall>v. holds b v \<longrightarrow> (\<forall>w \<in> set ws. disj v w) \<longrightarrow> holds b' v)"
  using assms
proof (induction ws arbitrary: b)
  case (Cons w ws)
  let ?b = "put_at (st_off w) (st_bytes w) b"
  have e: "st_end w \<le> length b" using Cons.prems by simp
  have len: "length ?b = length b" using e by (simp add: st_end_def)
  obtain b' where b': "run_stores ws ?b = Ret b'" "length b' = length ?b" "\<forall>w \<in> set ws. holds b' w"
    "\<forall>v. holds ?b v \<longrightarrow> (\<forall>w \<in> set ws. disj v w) \<longrightarrow> holds b' v"
    using Cons.IH[of ?b] Cons.prems len by auto
  show ?case
    using b' e len holds_put_at[OF e] Cons.prems(1) holds_put_disj[of b _ w]
    by (auto simp: run_store_in_bounds)
qed simp

lemma laid_run_stores:
  assumes "laid lo ws hi" "hi \<le> length b"
  obtains b' where "run_stores ws b = Ret b'" "length b' = length b" "\<And>w. w \<in> set ws \<Longrightarrow> holds b' w"
  using run_stores_holds[OF laid_disj[OF assms(1)]] laid_within[OF assms(1)] assms(2) by (meson le_trans)

section \<open>The planning loops lay their items out\<close>

lemma align_ge: "0 < a \<Longrightarrow> off \<le> align off a"
  unfolding align_def using div_mult_mod_eq[of "off + a - 1" a] mod_less_divisor[of a "off + a - 1"] by linarith

lemma align_1 [simp]: "align off 1 = off" "align off (Suc 0) = off"
  by (simp_all add: align_def)

lemma align_dvd [simp]: "a dvd align off a"
  by (simp add: align_def)

lemma align_id: "0 < a \<Longrightarrow> a dvd off \<Longrightarrow> align off a = off"
proof -
  assume "0 < a" "a dvd off"
  then obtain k where "off = a * k" by (auto simp: dvd_def)
  then have "off + a - 1 = (a - 1) + k * a" using \<open>0 < a\<close> by (simp add: mult.commute)
  moreover have "((a - 1) + k * a) div a = k" using \<open>0 < a\<close> by (subst div_mult_self1) auto
  ultimately show ?thesis using \<open>off = a * k\<close> unfolding align_def by (simp only: mult.commute)
qed

lemma place_Cons [simp]:
  "fst (place a off (n # ns)) = align off a # fst (place a (align off a + n) ns)"
  "snd (place a off (n # ns)) = snd (place a (align off a + n) ns)"
  by (simp_all add: Let_def split: prod.split)

declare place.simps(2) [simp del]

lemma place_length [simp]: "length (fst (place a off ns)) = length ns"
  by (induction ns arbitrary: off) auto

lemma place_length': "place a off ns = (offs, end) \<Longrightarrow> length offs = length ns"
  by (metis place_length fst_conv)

lemma place_le: "0 < a \<Longrightarrow> off \<le> snd (place a off ns)"
proof (induction ns arbitrary: off)
  case (Cons n ns)
  have "off \<le> align off a" using Cons.prems by (rule align_ge)
  also have "\<dots> \<le> snd (place a (align off a + n) ns)" using Cons.IH[OF Cons.prems, of "align off a + n"] by simp
  finally show ?case by simp
qed simp

lemma place_bound:
  "0 < a \<Longrightarrow> i < length ns \<Longrightarrow> off \<le> fst (place a off ns) ! i \<and> fst (place a off ns) ! i + ns ! i \<le> snd (place a off ns) \<and> a dvd fst (place a off ns) ! i"
proof (induction ns arbitrary: off i)
  case (Cons n ns)
  have le: "off \<le> align off a" using Cons.prems(1) by (rule align_ge)
  show ?case
  proof (cases i)
    case 0
    then show ?thesis using le place_le[OF Cons.prems(1), of "align off a + n" ns] by simp
  next
    case (Suc k)
    have "align off a + n \<le> fst (place a (align off a + n) ns) ! k" using Cons.IH[OF Cons.prems(1), of k "align off a + n"] Cons.prems(2) Suc by simp
    then show ?thesis using Cons.IH[OF Cons.prems(1), of k "align off a + n"] Cons.prems(2) Suc le by simp
  qed
qed simp

lemma place_laid:
  assumes "0 < a" "\<And>i. i < length ns \<Longrightarrow> laid (fst (place a off ns) ! i) (f i) (fst (place a off ns) ! i + ns ! i)"
  shows "laid off (concat (map f [0..<length ns])) (snd (place a off ns))"
  using assms(2)
proof (induction ns arbitrary: off f)
  case (Cons n ns)
  let ?at = "align off a"
  have "laid (?at + n) (concat (map (\<lambda>i. f (Suc i)) [0..<length ns])) (snd (place a (?at + n) ns))"
    by (rule Cons.IH) (use Cons.prems[of "Suc _"] in simp)
  moreover have "laid off (f 0) (?at + n)"
    using laid_mono[of ?at "f 0" "?at + n" off "?at + n"] Cons.prems[of 0] align_ge[OF assms(1), of off] by simp
  moreover have "concat (map f [0..<length (n # ns)]) = f 0 @ concat (map (\<lambda>i. f (Suc i)) [0..<length ns])"
    by (simp add: upt_conv_Cons map_Suc_upt[symmetric] o_def del: upt_Suc)
  ultimately show ?case by (simp add: laid_append)
qed simp

lemma rows_laid:
  assumes "\<And>i. i < n \<Longrightarrow> laid (base + k * i) (f i) (base + k * i + k)"
  shows "laid base (concat (map f [0..<n])) (base + k * n)"
  using assms
proof (induction n)
  case (Suc n)
  have "laid (base + k * n) (f n) (base + k * Suc n)" using Suc.prems[of n] by (simp add: ac_simps)
  moreover have "laid base (concat (map f [0..<n])) (base + k * n)" using Suc by simp
  ultimately show ?case by (simp add: laid_append)
qed simp

lemma map_rows: "map f xs = concat (map (\<lambda>x. [f x]) xs)"
  by (induction xs) auto

lemma mset_concat_split:
  "mset (concat (map (\<lambda>i. f i @ g i) xs)) = mset (concat (map f xs)) + mset (concat (map g xs))"
  by (induction xs) auto

section \<open>Each writer stays in its planned section\<close>

lemma laid_split:
  assumes "laid lo (concat (map f xs)) m" "laid m (concat (map g xs)) hi"
  shows "laid lo (concat (map (\<lambda>i. f i @ g i) xs)) hi"
  using laid_append[OF assms] by (subst laid_cong[where ys = "concat (map f xs) @ concat (map g xs)"])
    (simp_all add: mset_concat_split)

lemma st_end_simps [simp]: "st_end (Put off bs) = off + length bs" "st_end (Cpy off bs) = off + length bs"
  by (simp_all add: st_end_def)

lemma copies_laid:
  assumes "place 1 off (map (length \<circ> f) [0..<n]) = (offs, end)"
  shows "laid off (concat (map (\<lambda>i. [cpy (offs ! i) (f i)]) [0..<n])) end"
proof -
  have "laid off (concat (map (\<lambda>i. [cpy (offs ! i) (f i)]) [0..<length (map (length \<circ> f) [0..<n])])) (snd (place 1 off (map (length \<circ> f) [0..<n])))"
    by (rule place_laid) (use assms in \<open>auto intro!: laid_asc\<close>)
  then show ?thesis using assms by simp
qed

lemma map_nth_length: "map length xs = map (length \<circ> (!) xs) [0..<length xs]"
  by (intro nth_equalityI) auto

definition flat_row_stores :: "nat \<Rightarrow> nat list \<Rightarrow> dict_entry list \<Rightarrow> nat \<Rightarrow> bstore list" where
  "flat_row_stores entriesOff termOff es i = tl (flat_entry_stores entriesOff i (termOff ! i) (es ! i))"

lemma flat_entry_split:
  "flat_entry_stores entriesOff i (termOff ! i) (es ! i) = [cpy (termOff ! i) (fst (es ! i))] @ flat_row_stores entriesOff termOff es i"
  by (simp add: flat_row_stores_def flat_entry_stores_def Let_def split: prod.split)

lemma flat_rows_laid:
  "laid entriesOff (concat (map (flat_row_stores entriesOff termOff es) [0..<n])) (entriesOff + 16 * n)"
  by (rule rows_laid) (auto simp: flat_row_stores_def flat_entry_stores_def Let_def intro!: laid_asc split: prod.split)

lemma flat_copies_laid:
  assumes "place 1 off (map length (map fst es)) = (offs, end)"
  shows "laid off (concat (map (\<lambda>i. [cpy (offs ! i) (fst (es ! i))]) [0..<length es])) end"
proof -
  have "map length (map fst es) = map (length \<circ> (\<lambda>i. fst (es ! i))) [0..<length es]" by (intro nth_equalityI) auto
  then show ?thesis using copies_laid[of off "\<lambda>i. fst (es ! i)" "length es" offs "end"] assms by simp
qed

lemma writeFlatEntries_split:
  "mset (writeFlatEntries d es) =
     mset (concat (map (\<lambda>i. [cpy (d_termOff d ! i) (fst (es ! i))]) [0..<length es]))
   + mset (concat (map (flat_row_stores (d_entriesOff d) (d_termOff d) es) [0..<length es]))"
  unfolding writeFlatEntries_def flat_entry_split by (rule mset_concat_split)

lemma writeFlatDict_laid:
  assumes "planFlatDict off (map fst es) = (d, end)"
  shows "laid off (writeFlatDict d es) end"
proof -
  obtain termOff off1 where p: "place 1 off (map length (map fst es)) = (termOff, off1)" by fastforce
  have d: "d_termOff d = termOff" "d_off d = align off1 8" "d_entriesOff d = align off1 8 + 8" "end = d_entriesOff d + 16 * length es"
    using assms p by (auto simp: planFlatDict_def Let_def)
  have cps: "laid off (concat (map (\<lambda>i. [cpy (d_termOff d ! i) (fst (es ! i))]) [0..<length es])) off1"
    using flat_copies_laid[OF p] by (simp add: d)
  have hdr: "laid off1 [put32 (d_off d) (length es), put32 (d_off d + 4) (d_entriesOff d)] (d_entriesOff d)"
    using align_ge[of 8 off1] by (intro laid_asc) (simp add: d)
  have "laid off (concat (map (\<lambda>i. [cpy (d_termOff d ! i) (fst (es ! i))]) [0..<length es])
      @ [put32 (d_off d) (length es), put32 (d_off d + 4) (d_entriesOff d)]
      @ concat (map (flat_row_stores (d_entriesOff d) (d_termOff d) es) [0..<length es])) end"
    unfolding d(4) by (intro laid_append[OF cps] laid_append[OF hdr] flat_rows_laid)
  then show ?thesis
    by (rule laid_perm) (simp add: writeFlatDict_def writeFlatEntries_split)
qed

lemma slot_stores_laid: "laid off (slot_stores off table) (off + 8 * length table)"
  unfolding slot_stores_def by (rule rows_laid) (auto intro!: laid_asc)

lemma writeHashDict_laid:
  assumes "planHashDict off (map fst es) = (d, end)" "length es \<le> hashEmptySlot"
  shows "laid off (writeHashDict d es) end"
proof -
  obtain termOff off1 where p: "place 1 off (map length (map fst es)) = (termOff, off1)" by fastforce
  have d: "d_termOff d = termOff" "d_off d = align off1 8" "d_entriesOff d = align off1 8 + 16"
    "d_slotsOff d = align (d_entriesOff d + 16 * length es) 8" "end = d_slotsOff d + 8 * hashSlotCount (length es)"
    using assms p by (auto simp: planHashDict_def Let_def)
  obtain table where t: "hashTable (map fst es) = Some table" "length table = hashSlotCount (length es)"
    using hashTable_placed[of "map fst es"] assms(2) by auto
  let ?hdr = "[put32 (d_off d) (length es), put32 (d_off d + 4) (d_entriesOff d), put32 (d_off d + 8) (d_slotsOff d), put32 (d_off d + 12) (d_slotCount d)]"
  have cps: "laid off (concat (map (\<lambda>i. [cpy (d_termOff d ! i) (fst (es ! i))]) [0..<length es])) off1"
    using flat_copies_laid[OF p] by (simp add: d)
  have hdr: "laid off1 ?hdr (d_entriesOff d)" using align_ge[of 8 off1] by (intro laid_asc) (simp add: d)
  have slots: "laid (d_entriesOff d + 16 * length es) (slot_stores (d_slotsOff d) table) end"
    using laid_mono[OF slot_stores_laid[of "d_slotsOff d" table]] align_ge[of 8 "d_entriesOff d + 16 * length es"] t(2) d(4,5) by simp
  have "laid off (concat (map (\<lambda>i. [cpy (d_termOff d ! i) (fst (es ! i))]) [0..<length es]) @ ?hdr
      @ concat (map (flat_row_stores (d_entriesOff d) (d_termOff d) es) [0..<length es]) @ slot_stores (d_slotsOff d) table) end"
    by (intro laid_append[OF cps] laid_append[OF hdr] laid_append[OF flat_rows_laid] slots)
  then show ?thesis
    by (rule laid_perm) (simp add: writeHashDict_def writeFlatEntries_split t)
qed

lemma coded_stores_asc: "asc at (coded_stores at prev es) (at + coded_size prev (map fst es))"
proof (induction at prev es rule: coded_stores.induct)
  case (2 at prev t po pc es)
  let ?at = "at + 4 + length (drop (sharedPrefixLen prev t) t)"
  have "asc (?at + 8) (coded_stores (?at + 8) t es) (?at + 8 + coded_size t (map fst es))"
    using 2 by (simp add: Let_def)
  then show ?case by (simp add: Let_def ac_simps)
qed simp

lemma payload_laid:
  "laid at (writeBlockedPayload at block) (at + (case map fst block of [] \<Rightarrow> 8 | t # ts \<Rightarrow> 8 + coded_size t ts))"
proof (cases block)
  case (Cons e es)
  obtain t po pc where e: "e = (t, po, pc)" by (cases e)
  have "asc (at + 8) (coded_stores (at + 8) t es) (at + 8 + coded_size t (map fst es))" by (rule coded_stores_asc)
  then show ?thesis by (intro laid_asc) (simp add: Cons e writeBlockedPayload_def add.assoc)
qed (simp add: writeBlockedPayload_def)

lemma block_slice_map: "block_slice b (map f xs) = map f (block_slice b xs)"
  by (simp add: block_slice_def take_map drop_map)

lemma block_start: "b < blockCountOf n \<Longrightarrow> b * blockedBlockTerms < n"
  unfolding blockCountOf_def blockedBlockTerms_def by auto

lemma blockPayload_laid:
  "laid at (writeBlockedPayload at (block_slice b es)) (at + blockedPayloadSize (map fst es) b)"
  using payload_laid[of "at" "block_slice b es"] by (simp add: blockedPayloadSize_def block_slice_map)

lemma writeBlockedDict_laid:
  assumes "planBlockedDict off (map fst es) = (d, end)"
  shows "laid off (writeBlockedDict d es) end"
proof -
  let ?n = "blockCountOf (length es)"
  let ?first = "\<lambda>b. fst (es ! (b * blockedBlockTerms))"
  have firsts: "map (length \<circ> (\<lambda>b. map fst es ! (b * blockedBlockTerms))) [0..<?n] = map (length \<circ> ?first) [0..<?n]"
    using block_start by auto
  obtain termOff off1 where p: "place 1 off (map (length \<circ> ?first) [0..<?n]) = (termOff, off1)" by fastforce
  define rows where "rows = align off1 8 + 16"
  define bidx where "bidx = align (rows + 8 * ?n) 4"
  obtain blockOff end' where q: "place 1 (bidx + 4 * ?n) (map (blockedPayloadSize (map fst es)) [0..<?n]) = (blockOff, end')" by fastforce
  have d: "d_termOff d = termOff" "d_off d = align off1 8" "d_blockIdxOff d = bidx" "d_blockCount d = ?n" "d_blockOff d = blockOff" "end = end'"
    using assms p q by (auto simp: planBlockedDict_def Let_def firsts rows_def[symmetric] bidx_def[symmetric])
  let ?hdr = "[put32 (d_off d) (length es), put32 (d_off d + 4) (d_blockCount d), put32 (d_off d + 8) (d_off d + 16), put32 (d_off d + 12) (d_blockIdxOff d)]"
  let ?cps = "concat (map (\<lambda>b. [cpy (termOff ! b) (?first b)]) [0..<?n])"
  let ?rows = "concat (map (\<lambda>b. [put32 (rows + 8 * b) (termOff ! b), put32 (rows + 8 * b + 4) (length (?first b))]) [0..<?n])"
  let ?idx = "concat (map (\<lambda>b. [put32 (bidx + 4 * b) (blockOff ! b)]) [0..<?n])"
  let ?pays = "concat (map (\<lambda>b. writeBlockedPayload (blockOff ! b) (block_slice b es)) [0..<?n])"
  have "laid off ?cps off1" using copies_laid[OF p] .
  moreover have "laid off1 ?hdr rows" using align_ge[of 8 off1] by (intro laid_asc) (simp add: d rows_def)
  moreover have "laid rows ?rows (rows + 8 * ?n)" by (rule rows_laid) (auto intro!: laid_asc)
  moreover have "laid bidx ?idx (bidx + 4 * ?n)" by (rule rows_laid) (auto intro!: laid_asc)
  then have "laid (rows + 8 * ?n) ?idx (bidx + 4 * ?n)"
    by (rule laid_mono) (simp_all add: bidx_def align_ge)
  moreover have "laid (bidx + 4 * ?n) ?pays end"
    using place_laid[of 1 "map (blockedPayloadSize (map fst es)) [0..<?n]" "bidx + 4 * ?n" "\<lambda>b. writeBlockedPayload (blockOff ! b) (block_slice b es)"]
      blockPayload_laid q d by simp
  ultimately have all: "laid off (?cps @ ?hdr @ ?rows @ ?idx @ ?pays) end" by (meson laid_append)
  have perm: "mset (concat (map (block_stores d es) [0..<?n])) = mset ?cps + mset ?rows + mset ?idx + mset ?pays"
  proof -
    have "block_stores d es = (\<lambda>b. [cpy (termOff ! b) (?first b)] @ [put32 (rows + 8 * b) (termOff ! b), put32 (rows + 8 * b + 4) (length (?first b))]
        @ [put32 (bidx + 4 * b) (blockOff ! b)] @ writeBlockedPayload (blockOff ! b) (block_slice b es))"
      by (rule ext) (simp add: block_stores_def Let_def d rows_def)
    then show ?thesis by (simp only: mset_concat_split add.assoc)
  qed
  show ?thesis using all by (rule laid_perm) (simp add: writeBlockedDict_def d(4) perm)
qed

lemma writeDict_laid:
  assumes "planDict kind off (map fst es) = (d, end)" "length es \<le> hashEmptySlot"
  shows "laid off (writeDict kind d es) end"
  using assms by (auto simp: planDict_def writeDict_def writeBlockedDict_laid writeHashDict_laid writeFlatDict_laid split: if_splits)

lemma posting_stores_laid: "laid at (posting_stores at ps) (at + (4 * length ps + 2 * length ps))"
proof -
  let ?n = "length ps"
  have "laid at (concat (map (\<lambda>j. [put32 (at + 4 * j) (unat (p_docID (ps ! j)))]) [0..<?n])) (at + 4 * ?n)"
    by (rule rows_laid) (auto intro!: laid_asc)
  moreover have "laid (at + 4 * ?n) (concat (map (\<lambda>j. [put16 (at + 4 * ?n + 2 * j) (unat (p_tf (ps ! j)))]) [0..<?n])) (at + 4 * ?n + 2 * ?n)"
    by (rule rows_laid) (auto intro!: laid_asc)
  ultimately have "laid at (concat (map (\<lambda>j. [put32 (at + 4 * j) (unat (p_docID (ps ! j)))] @ [put16 (at + 4 * ?n + 2 * j) (unat (p_tf (ps ! j)))]) [0..<?n]))
      (at + 4 * ?n + 2 * ?n)" by (rule laid_split)
  then show ?thesis by (simp add: posting_stores_def add.assoc)
qed

section \<open>The whole segment\<close>

definition term_stores :: "byte \<Rightarrow> v2FieldPlan \<Rightarrow> fieldData \<Rightarrow> bstore list" where
  "term_stores kind fp fd =
     writeDict kind (fp_dict fp) (field_entries fp fd)
     @ concat (map (\<lambda>t. posting_stores (fp_postOff fp ! t) (postings_of fd (fp_terms fp ! t))) [0..<length (fp_terms fp)])"

definition entry_stores :: "v2Plan \<Rightarrow> nat \<Rightarrow> fieldData \<Rightarrow> bstore list" where
  "entry_stores p i fd =
     (let fp = vp_fields p ! i; e = vp_fieldTableOff p + 48 * i; cfg = fd_config fd
      in [put32 e (fp_nameOff fp), put16 (e + 4) (length (fc_Name cfg)), put64 (e + 8) (unat (fc_Boost cfg)),
          put64 (e + 16) (unat (fc_B cfg)), put64 (e + 24) (u64_of_int (fd_totalTokens fd)), put32 (e + 32) (fp_docLengthsOff fp),
          put32 (e + 36) (d_off (fp_dict fp))])"

definition length_stores :: "v2Plan \<Rightarrow> nat \<Rightarrow> fieldData \<Rightarrow> bstore list" where
  "length_stores p i fd =
     map (\<lambda>d. put32 (fp_docLengthsOff (vp_fields p ! i) + 4 * d)
                (u32_of_int (if d < length (fd_docLengths fd) then fd_docLengths fd ! d else 0))) [0..<vp_docCount p]"

lemma writeFieldV2_split:
  "writeFieldV2 p i fd = entry_stores p i fd @ [cpy (fp_nameOff (vp_fields p ! i)) (fc_Name (fd_config fd))]
     @ length_stores p i fd @ term_stores (vp_kind p) (vp_fields p ! i) fd"
  by (simp add: writeFieldV2_def entry_stores_def length_stores_def term_stores_def Let_def)

lemma term_stores_laid:
  assumes "planDict kind off (fp_terms fp) = (fp_dict fp, off1)"
    and "place 4 off1 (map (\<lambda>t. 4 * length (postings_of fd t) + 2 * length (postings_of fd t)) (fp_terms fp)) = (fp_postOff fp, end)"
    and "length (fp_terms fp) \<le> hashEmptySlot"
  shows "laid off (term_stores kind fp fd) end"
proof -
  have es: "map fst (field_entries fp fd) = fp_terms fp" "length (field_entries fp fd) = length (fp_terms fp)"
    by (simp_all add: field_entries_def comp_def map_nth)
  have "laid off (writeDict kind (fp_dict fp) (field_entries fp fd)) off1"
    using assms(1,3) es by (intro writeDict_laid) simp_all
  moreover have "laid off1 (concat (map (\<lambda>t. posting_stores (fp_postOff fp ! t) (postings_of fd (fp_terms fp ! t))) [0..<length (fp_terms fp)])) end"
    using place_laid[of 4 "map (\<lambda>t. 4 * length (postings_of fd t) + 2 * length (postings_of fd t)) (fp_terms fp)" off1
        "\<lambda>t. posting_stores (fp_postOff fp ! t) (postings_of fd (fp_terms fp ! t))"] posting_stores_laid assms(2) by simp
  ultimately show ?thesis unfolding term_stores_def by (rule laid_append)
qed

text \<open>What the field loop records for each field, and where it leaves the offset.\<close>

definition field_planned :: "byte \<Rightarrow> fieldData \<Rightarrow> v2FieldPlan \<Rightarrow> nat \<Rightarrow> nat \<Rightarrow> bool" where
  "field_planned kind fd fp off end \<longleftrightarrow>
     fp_terms fp = sortedKeys (fd_postings fd) \<and> (\<exists>off1. planDict kind off (fp_terms fp) = (fp_dict fp, off1)
     \<and> place 4 off1 (map (\<lambda>t. 4 * length (postings_of fd t) + 2 * length (postings_of fd t)) (fp_terms fp)) = (fp_postOff fp, end))"

lemma plan_fields_Cons:
  assumes "plan_fields kind off (fd # fds) (n # ns) (l # ls) = (fps, end)"
  obtains fp fps' off2 where "fps = fp # fps'" "fp_nameOff fp = n" "fp_docLengthsOff fp = l" "field_planned kind fd fp off off2"
    "plan_fields kind off2 fds ns ls = (fps', end)"
  using assms by (auto simp: Let_def field_planned_def split: prod.splits)

lemma plan_fields_spec:
  assumes "plan_fields kind off fds ns ls = (fps, end)" "length ns = length fds" "length ls = length fds"
    and "\<And>fd. fd \<in> set fds \<Longrightarrow> length (fd_postings fd) \<le> hashEmptySlot"
  shows "map fp_nameOff fps = ns \<and> map fp_docLengthsOff fps = ls
       \<and> laid off (concat (map2 (term_stores kind) fps fds)) end"
    and "i < length fds \<Longrightarrow> \<exists>lo hi. off \<le> lo \<and> hi \<le> end \<and> field_planned kind (fds ! i) (fps ! i) lo hi"
proof -
  have "map fp_nameOff fps = ns \<and> map fp_docLengthsOff fps = ls
       \<and> laid off (concat (map2 (term_stores kind) fps fds)) end
       \<and> (\<forall>i < length fds. \<exists>lo hi. off \<le> lo \<and> hi \<le> end \<and> field_planned kind (fds ! i) (fps ! i) lo hi)"
    using assms
  proof (induction fds arbitrary: off ns ls fps)
    case (Cons fd fds)
    obtain n ns' l ls' where nl: "ns = n # ns'" "ls = l # ls'" using Cons.prems by (metis length_Suc_conv)
    obtain fp fps' off2 where f: "fps = fp # fps'" "fp_nameOff fp = n" "fp_docLengthsOff fp = l" "field_planned kind fd fp off off2"
      "plan_fields kind off2 fds ns' ls' = (fps', end)"
      using plan_fields_Cons Cons.prems(1) nl by metis
    have "length (fp_terms fp) \<le> hashEmptySlot" using f(4) Cons.prems(4)[of fd] by (simp add: field_planned_def sortedKeys_def)
    then have t: "laid off (term_stores kind fp fd) off2"
      using f(4) term_stores_laid unfolding field_planned_def by blast
    have IH: "map fp_nameOff fps' = ns' \<and> map fp_docLengthsOff fps' = ls' \<and> laid off2 (concat (map2 (term_stores kind) fps' fds)) end
       \<and> (\<forall>i < length fds. \<exists>lo hi. off2 \<le> lo \<and> hi \<le> end \<and> field_planned kind (fds ! i) (fps' ! i) lo hi)"
      by (rule Cons.IH[OF f(5)]) (use Cons.prems nl in auto)
    have "\<exists>lo hi. off \<le> lo \<and> hi \<le> end \<and> field_planned kind ((fd # fds) ! i) (fps ! i) lo hi" if "i < length (fd # fds)" for i
    proof (cases i)
      case 0
      have "off2 \<le> end" using IH laid_le by blast
      then show ?thesis using 0 f by auto
    next
      case (Suc k)
      have "k < length fds" using that Suc by simp
      then obtain lo hi where "off2 \<le> lo" "hi \<le> end" "field_planned kind (fds ! k) (fps' ! k) lo hi"
        using IH by blast
      then show ?thesis using Suc f(1) laid_le[OF t] by (auto intro: le_trans)
    qed
    then show ?case using IH f t nl by (auto intro: laid_append)
  qed simp
  then show "map fp_nameOff fps = ns \<and> map fp_docLengthsOff fps = ls \<and> laid off (concat (map2 (term_stores kind) fps fds)) end"
    and "i < length fds \<Longrightarrow> \<exists>lo hi. off \<le> lo \<and> hi \<le> end \<and> field_planned kind (fds ! i) (fps ! i) lo hi"
    by blast+
qed

lemma map2_nth: "length xs = length ys \<Longrightarrow> map2 f xs ys = map (\<lambda>i. f (xs ! i) (ys ! i)) [0..<length ys]"
  by (intro nth_equalityI) auto

text \<open>The plan, with the offset at which each section ends.\<close>

lemma layoutV2_fields:
  fixes s kind
  defines "p \<equiv> layoutV2 s kind"
  obtains off1 off2 off3 off4 memberOff nameOff lensOff dfTermOff where
    "vp_kind p = kind" "vp_docCount p = length (bs_members s)" "vp_memberOffsetsOff p = 32"
    "place 1 (32 + 4 * (length (bs_members s) + 1)) (map length (bs_members s)) = (memberOff, off1)" "vp_memberOff p = memberOff @ [off1]"
    "vp_fieldTableOff p = align off1 8"
    "place 1 (vp_fieldTableOff p + 48 * length (bs_fields s)) (map (\<lambda>fd. length (fc_Name (fd_config fd))) (bs_fields s)) = (nameOff, off2)"
    "place 4 off2 (map (\<lambda>_. 4 * length (bs_members s)) (bs_fields s)) = (lensOff, off3)"
    "plan_fields kind off3 (bs_fields s) nameOff lensOff = (vp_fields p, off4)"
    "vp_dfTerms p = sortedKeys (bs_docFreq s)" "vp_dfDictOff p = align off4 8" "vp_dfEntriesOff p = align off4 8 + 8"
    "place 1 (vp_dfEntriesOff p + 16 * length (vp_dfTerms p)) (map length (vp_dfTerms p)) = (dfTermOff, vp_size p)" "vp_dfTermOff p = dfTermOff"
proof -
  have a: "align 32 4 = 32" "align (align x 8 + 8) 8 = align x 8 + 8" for x
    by (simp_all add: align_def[of 32 4] align_id)
  obtain memberOff off1 where 1: "place 1 (32 + 4 * (length (bs_members s) + 1)) (map length (bs_members s)) = (memberOff, off1)" by fastforce
  obtain nameOff off2 where 2: "place 1 (align off1 8 + 48 * length (bs_fields s)) (map (\<lambda>fd. length (fc_Name (fd_config fd))) (bs_fields s)) = (nameOff, off2)"
    by fastforce
  obtain lensOff off3 where 3: "place 4 off2 (map (\<lambda>_. 4 * length (bs_members s)) (bs_fields s)) = (lensOff, off3)" by fastforce
  obtain fps off4 where 4: "plan_fields kind off3 (bs_fields s) nameOff lensOff = (fps, off4)" by fastforce
  obtain dfTermOff size where 5: "place 1 (align off4 8 + 8 + 16 * length (sortedKeys (bs_docFreq s))) (map length (sortedKeys (bs_docFreq s))) = (dfTermOff, size)"
    by fastforce
  have p: "p = \<lparr>vp_kind = kind, vp_docCount = length (bs_members s), vp_memberOffsetsOff = 32, vp_memberOff = memberOff @ [off1],
      vp_fieldTableOff = align off1 8, vp_fields = fps, vp_dfTerms = sortedKeys (bs_docFreq s), vp_dfTermOff = dfTermOff,
      vp_dfDictOff = align off4 8, vp_dfEntriesOff = align off4 8 + 8, vp_size = size\<rparr>"
    unfolding p_def layoutV2_def Let_def a 1 prod.case 2 3 4 5 ..
  show thesis by (rule that[of memberOff off1 nameOff off2 lensOff off3 off4 dfTermOff]) (simp_all only: p v2Plan.simps 1 2 3 4 5)
qed


lemma blocks_concat: "concat (map (\<lambda>b. block_slice b xs) [0..<k]) = take (k * blockedBlockTerms) xs"
proof (induction k)
  case (Suc k)
  have "take (Suc k * blockedBlockTerms) xs = take (k * blockedBlockTerms + blockedBlockTerms) xs" by (simp add: add.commute)
  then show ?case using Suc by (simp add: block_slice_def take_add)
qed simp

lemma blocks_cover: "n \<le> blockCountOf n * blockedBlockTerms"
  unfolding blockCountOf_def blockedBlockTerms_def by simp

lemma blocks_sum: "sum_list (map (\<lambda>b. length (block_slice b xs)) [0..<blockCountOf (length xs)]) = length xs"
proof -
  have "length (concat (map (\<lambda>b. block_slice b xs) [0..<blockCountOf (length xs)])) = length xs"
    unfolding blocks_concat using blocks_cover[of "length xs"] by simp
  then show ?thesis by (simp add: length_concat o_def)
qed

lemma place_1_sum: "snd (place 1 off ns) = off + sum_list ns"
  by (induction ns arbitrary: off) auto

lemma blockedPayloadSize_ge: "length (block_slice b terms) \<le> blockedPayloadSize terms b"
proof -
  have "length ts \<le> coded_size t ts" for t ts by (induction ts arbitrary: t) (auto simp: le_SucI trans_le_add2)
  then show ?thesis by (auto simp: blockedPayloadSize_def split: list.split intro: le_SucI trans_le_add2)
qed

lemma planDict_count:
  assumes "planDict kind off terms = (d, end)"
  shows "off + length terms \<le> end"
proof -
  have le: "off \<le> snd (place 1 off ns)" for ns by (rule place_le) simp
  have flat: "off + length terms \<le> end" if "planFlatDict off terms = (d, end)"
    using that le[of "map length terms"] align_ge[of 8 "snd (place 1 off (map length terms))"]
    by (auto simp: planFlatDict_def Let_def split: prod.splits)
  have hash: "off + length terms \<le> end" if "planHashDict off terms = (d, end)"
  proof -
    obtain o1 off1 where 1: "place 1 off (map length terms) = (o1, off1)" by fastforce
    have "end = align (align off1 8 + 16 + 16 * length terms) 8 + 8 * hashSlotCount (length terms)"
      using that 1 by (auto simp: planHashDict_def Let_def)
    then show ?thesis
      using le[of "map length terms"] 1 align_ge[of 8 off1] align_ge[of 8 "align off1 8 + 16 + 16 * length terms"] by simp
  qed
  have blocked: "off + length terms \<le> end" if "planBlockedDict off terms = (d, end)"
  proof -
    let ?n = "blockCountOf (length terms)"
    obtain o1 off1 where 1: "place 1 off (map length (map (\<lambda>b. terms ! (b * blockedBlockTerms)) [0..<?n])) = (o1, off1)" by fastforce
    let ?bi = "align (align off1 8 + 16 + 8 * ?n) 4 + 4 * ?n"
    have e: "end = snd (place 1 ?bi (map (blockedPayloadSize terms) [0..<?n]))"
      using that 1 by (auto simp: planBlockedDict_def Let_def split: prod.splits)
    have "length terms \<le> sum_list (map (blockedPayloadSize terms) [0..<?n])"
      using sum_list_mono[of "[0..<?n]" "\<lambda>b. length (block_slice b terms)" "blockedPayloadSize terms"] blockedPayloadSize_ge blocks_sum[of terms] by simp
    moreover have "off \<le> ?bi"
      using le[of "map length (map (\<lambda>b. terms ! (b * blockedBlockTerms)) [0..<?n])"] 1 align_ge[of 8 off1] align_ge[of 4 "align off1 8 + 16 + 8 * ?n"] by simp
    ultimately show ?thesis unfolding e place_1_sum by simp
  qed
  show ?thesis using assms flat hash blocked by (auto simp: planDict_def split: if_splits)
qed

lemma field_planned_count:
  assumes "field_planned kind fd fp off end"
  shows "off + length (fp_terms fp) \<le> end" "off \<le> end"
proof -
  obtain off1 where "planDict kind off (fp_terms fp) = (fp_dict fp, off1)"
    "place 4 off1 (map (\<lambda>t. 4 * length (postings_of fd t) + 2 * length (postings_of fd t)) (fp_terms fp)) = (fp_postOff fp, end)"
    using assms by (auto simp: field_planned_def)
  then show "off + length (fp_terms fp) \<le> end"
    using planDict_count place_le[of 4 off1] by (metis le_trans snd_conv zero_less_numeral)
  then show "off \<le> end" by simp
qed

lemma plan_fields_count:
  "plan_fields kind off fds ns ls = (fps, end) \<Longrightarrow> length ns = length fds \<Longrightarrow> length ls = length fds
   \<Longrightarrow> off \<le> end \<and> (\<forall>fd \<in> set fds. length (fd_postings fd) \<le> end)"
proof (induction fds arbitrary: off ns ls fps)
  case (Cons fd fds)
  obtain n ns' l ls' where nl: "ns = n # ns'" "ls = l # ls'" using Cons.prems by (metis length_Suc_conv)
  obtain fp fps' off2 where f: "fps = fp # fps'" "field_planned kind fd fp off off2" "plan_fields kind off2 fds ns' ls' = (fps', end)"
    using plan_fields_Cons Cons.prems(1) nl by metis
  have "off + length (fd_postings fd) \<le> off2" using field_planned_count[OF f(2)] f(2) by (simp add: field_planned_def sortedKeys_def)
  then show ?case using Cons.IH[OF f(3)] Cons.prems nl by auto
qed simp

lemma segment_laid:
  assumes "vp_size (layoutV2 s kind) \<le> v2MaxBlobBytes"
  shows "laid 0 (segment_stores (layoutV2 s kind) s) (vp_size (layoutV2 s kind))"
proof -
  define p where "p = layoutV2 s kind"
  let ?nf = "length (bs_fields s)" and ?nm = "length (bs_members s)"
  obtain off1 off2 off3 off4 memberOff nameOff lensOff dfTermOff where l:
    "vp_kind p = kind" "vp_docCount p = ?nm" "vp_memberOffsetsOff p = 32"
    "place 1 (32 + 4 * (?nm + 1)) (map length (bs_members s)) = (memberOff, off1)" "vp_memberOff p = memberOff @ [off1]"
    "vp_fieldTableOff p = align off1 8"
    "place 1 (vp_fieldTableOff p + 48 * ?nf) (map (\<lambda>fd. length (fc_Name (fd_config fd))) (bs_fields s)) = (nameOff, off2)"
    "place 4 off2 (map (\<lambda>_. 4 * ?nm) (bs_fields s)) = (lensOff, off3)"
    "plan_fields kind off3 (bs_fields s) nameOff lensOff = (vp_fields p, off4)"
    "vp_dfTerms p = sortedKeys (bs_docFreq s)" "vp_dfDictOff p = align off4 8" "vp_dfEntriesOff p = align off4 8 + 8"
    "place 1 (vp_dfEntriesOff p + 16 * length (vp_dfTerms p)) (map length (vp_dfTerms p)) = (dfTermOff, vp_size p)" "vp_dfTermOff p = dfTermOff"
    by (rule layoutV2_fields[of s kind, folded p_def])
  have len: "length memberOff = ?nm" "length nameOff = ?nf" "length lensOff = ?nf"
    using place_length'[OF l(4)] place_length'[OF l(7)] place_length'[OF l(8)] by simp_all
  have "off4 \<le> vp_size p"
    using l(13) place_le[of 1 "vp_dfEntriesOff p + 16 * length (vp_dfTerms p)" "map length (vp_dfTerms p)"] align_ge[of 8 off4] l(12) by simp
  then have cnt: "length (fd_postings fd) \<le> hashEmptySlot" if "fd \<in> set (bs_fields s)" for fd
    using plan_fields_count[OF l(9)] len that assms by (auto simp: p_def v2MaxBlobBytes_def hashEmptySlot_def dest!: bspec)
  have fps: "map fp_nameOff (vp_fields p) = nameOff" "map fp_docLengthsOff (vp_fields p) = lensOff"
    and terms: "laid off3 (concat (map2 (term_stores kind) (vp_fields p) (bs_fields s))) off4"
    using plan_fields_spec(1)[OF l(9)] len cnt by auto
  have nf: "length (vp_fields p) = ?nf" using fps(1) len(2) by (metis length_map)
  have fp_nth: "fp_nameOff (vp_fields p ! i) = nameOff ! i" "fp_docLengthsOff (vp_fields p ! i) = lensOff ! i" if "i < ?nf" for i
    using fps nf that by (metis nth_map)+
  have hdr: "laid 0 (header_stores p ?nf) 32" by (intro laid_asc) (simp add: header_stores_def)
  have mo: "laid 32 (map (\<lambda>i. put32 (vp_memberOffsetsOff p + 4 * i) (vp_memberOff p ! i)) [0..<length (vp_memberOff p)]) (32 + 4 * (?nm + 1))"
    using rows_laid[of "?nm + 1" 32 4 "\<lambda>i. [put32 (vp_memberOffsetsOff p + 4 * i) (vp_memberOff p ! i)]"]
    by (subst map_rows) (simp add: l len laid_asc)
  have mc: "laid (32 + 4 * (?nm + 1)) (map (\<lambda>i. cpy (vp_memberOff p ! i) (bs_members s ! i)) [0..<?nm]) off1"
  proof -
    have "map (\<lambda>i. cpy (vp_memberOff p ! i) (bs_members s ! i)) [0..<?nm] = map (\<lambda>i. cpy (memberOff ! i) (bs_members s ! i)) [0..<?nm]"
      using len l by (simp add: nth_append)
    moreover have "laid (32 + 4 * (?nm + 1)) (map (\<lambda>i. cpy (memberOff ! i) (bs_members s ! i)) [0..<?nm]) off1"
      using copies_laid[of "32 + 4 * (?nm + 1)" "(!) (bs_members s)" ?nm memberOff off1] l(4) by (simp add: map_nth_length[symmetric] map_rows[symmetric])
    ultimately show ?thesis by (simp only:)
  qed
  have en: "laid off1 (concat (map (\<lambda>i. entry_stores p i (bs_fields s ! i)) [0..<?nf])) (vp_fieldTableOff p + 48 * ?nf)"
    using laid_mono[OF rows_laid[of ?nf "vp_fieldTableOff p" 48 "\<lambda>i. entry_stores p i (bs_fields s ! i)"], of off1] align_ge[of 8 off1]
    by (simp add: entry_stores_def Let_def l(6) laid_asc)
  have nm: "laid (vp_fieldTableOff p + 48 * ?nf)
      (concat (map (\<lambda>i. [cpy (fp_nameOff (vp_fields p ! i)) (fc_Name (fd_config (bs_fields s ! i)))]) [0..<?nf])) off2"
  proof -
    have names: "map (\<lambda>i. [cpy (fp_nameOff (vp_fields p ! i)) (fc_Name (fd_config (bs_fields s ! i)))]) [0..<?nf]
        = map (\<lambda>i. [cpy (nameOff ! i) (fc_Name (fd_config (bs_fields s ! i)))]) [0..<?nf]" by (auto simp: fp_nth)
    have "map (\<lambda>fd. length (fc_Name (fd_config fd))) (bs_fields s) = map (length \<circ> (\<lambda>i. fc_Name (fd_config (bs_fields s ! i)))) [0..<?nf]"
      by (intro nth_equalityI) auto
    then show ?thesis
      unfolding names using l(7) by (intro copies_laid) (simp only:)
  qed
  have ln: "laid off2 (concat (map (\<lambda>i. length_stores p i (bs_fields s ! i)) [0..<?nf])) off3"
  proof -
    have "laid (lensOff ! i) (length_stores p i (bs_fields s ! i)) (lensOff ! i + 4 * ?nm)" if "i < ?nf" for i
      using rows_laid[of ?nm "lensOff ! i" 4 "\<lambda>d. [put32 (lensOff ! i + 4 * d)
          (u32_of_int (if d < length (fd_docLengths (bs_fields s ! i)) then fd_docLengths (bs_fields s ! i) ! d else 0))]"]
      unfolding length_stores_def by (subst map_rows) (simp add: fp_nth[OF that] l(2) laid_asc)
    then show ?thesis
      using place_laid[of 4 "map (\<lambda>_. 4 * ?nm) (bs_fields s)" off2 "\<lambda>i. length_stores p i (bs_fields s ! i)"] l(8) by simp
  qed
  have tm: "laid off3 (concat (map (\<lambda>i. term_stores kind (vp_fields p ! i) (bs_fields s ! i)) [0..<?nf])) off4"
    using terms map2_nth[OF nf, of "term_stores kind"] by simp
  let ?dt = "length (vp_dfTerms p)"
  have df: "laid off4 (writeDocFreqDict p (bs_docFreq s)) (vp_size p)"
  proof -
    let ?rows = "\<lambda>i. [put32 (vp_dfEntriesOff p + 16 * i) (vp_dfTermOff p ! i), put32 (vp_dfEntriesOff p + 16 * i + 4) (length (vp_dfTerms p ! i)),
      put64 (vp_dfEntriesOff p + 16 * i + 8) (u64_of_int (case map_of (bs_docFreq s) (vp_dfTerms p ! i) of None \<Rightarrow> 0 | Some df \<Rightarrow> df))]"
    have "laid (vp_dfEntriesOff p) (concat (map ?rows [0..<?dt])) (vp_dfEntriesOff p + 16 * ?dt)"
      by (rule rows_laid) (auto intro!: laid_asc)
    moreover have "laid (vp_dfEntriesOff p + 16 * ?dt) (concat (map (\<lambda>i. [cpy (dfTermOff ! i) (vp_dfTerms p ! i)]) [0..<?dt])) (vp_size p)"
      using copies_laid[of _ "(!) (vp_dfTerms p)" ?dt] l(13) by (simp add: map_nth_length[symmetric])
    ultimately have "laid (vp_dfEntriesOff p) (concat (map (\<lambda>i. ?rows i @ [cpy (dfTermOff ! i) (vp_dfTerms p ! i)]) [0..<?dt])) (vp_size p)"
      by (rule laid_split)
    moreover have "laid off4 [put32 (vp_dfDictOff p) ?dt, put32 (vp_dfDictOff p + 4) (vp_dfEntriesOff p)] (vp_dfEntriesOff p)"
      using align_ge[of 8 off4] by (intro laid_asc) (simp add: l)
    ultimately show ?thesis unfolding writeDocFreqDict_def Let_def l(14) by (intro laid_append[of off4]) (simp_all add: l(14))
  qed
  have fields: "laid off1 (concat (map (\<lambda>i. writeFieldV2 p i (bs_fields s ! i)) [0..<?nf])) off4"
    using laid_append[OF en laid_append[OF nm laid_append[OF ln tm]]]
    by (rule laid_perm) (simp only: writeFieldV2_split l(1) mset_concat_split mset_append)
  show ?thesis
    unfolding p_def[symmetric] segment_stores_def
    by (intro laid_append[OF hdr] laid_append[OF mo] laid_append[OF mc] laid_append[OF fields] df)
qed


lemma encode_unfold:
  "encodeSegmentV2 s kind =
     (if kind > dictHash then Fail (ErrText ''bm25 encode: unknown dictionary kind'')
      else if vp_size (layoutV2 s kind) > v2MaxBlobBytes then Fail (ErrText ''bm25 encode: segment too large'')
      else run_stores (segment_stores (layoutV2 s kind) s) (replicate (vp_size (layoutV2 s kind)) 0))"
  by (simp add: encodeSegmentV2_def planSegmentV2_def Let_def)

lemma encode_Ret:
  assumes "encodeSegmentV2 s kind = Ret b"
  shows "kind \<le> dictHash" "vp_size (layoutV2 s kind) \<le> v2MaxBlobBytes" "length b = vp_size (layoutV2 s kind)"
    and "w \<in> set (segment_stores (layoutV2 s kind) s) \<Longrightarrow> holds b w"
proof -
  show k: "kind \<le> dictHash" using assms by (auto simp: encodeSegmentV2_def split: if_splits)
  show sz: "vp_size (layoutV2 s kind) \<le> v2MaxBlobBytes"
    using assms by (auto simp: encode_unfold split: if_splits)
  obtain b' where "run_stores (segment_stores (layoutV2 s kind) s) (replicate (vp_size (layoutV2 s kind)) 0) = Ret b'"
    "length b' = vp_size (layoutV2 s kind)" "\<And>w. w \<in> set (segment_stores (layoutV2 s kind) s) \<Longrightarrow> holds b' w"
    using laid_run_stores[OF segment_laid[OF sz], of "replicate (vp_size (layoutV2 s kind)) 0"] by auto
  moreover from this have "b' = b" using assms k sz by (simp add: encode_unfold split: if_splits)
  ultimately show "length b = vp_size (layoutV2 s kind)"
    and "w \<in> set (segment_stores (layoutV2 s kind) s) \<Longrightarrow> holds b w" by auto
qed

lemma encode_total:
  assumes "\<not> kind > dictHash" "\<not> vp_size (layoutV2 s kind) > v2MaxBlobBytes"
  shows "\<exists>b. encodeSegmentV2 s kind = Ret b"
  using assms laid_run_stores[OF segment_laid[of s kind], of "replicate (vp_size (layoutV2 s kind)) 0"]
  unfolding encode_unfold by (metis length_replicate linorder_not_le order_refl)

text \<open>
  C20: Encoding ends in one of three ways: an unknown dictionary kind is refused, a layout past what 32-bit
  offsets address is refused, and otherwise the blob has exactly the planned size and every value the
  encoder stored can be read back at its offset; no store leaves the buffer or overwrites another.
\<close>

theorem encodeSegmentV2_exact:
  "if kind > dictHash then encodeSegmentV2 s kind = Fail (ErrText ''bm25 encode: unknown dictionary kind'')
   else if vp_size (layoutV2 s kind) > v2MaxBlobBytes then encodeSegmentV2 s kind = Fail (ErrText ''bm25 encode: segment too large'')
   else \<exists>b. encodeSegmentV2 s kind = Ret b \<and> length b = vp_size (layoutV2 s kind) \<and> list_all (holds b) (segment_stores (layoutV2 s kind) s)"
proof (cases "kind > dictHash \<or> vp_size (layoutV2 s kind) > v2MaxBlobBytes")
  case False
  then obtain b where b: "encodeSegmentV2 s kind = Ret b" using encode_total by blast
  then have "length b = vp_size (layoutV2 s kind)" "list_all (holds b) (segment_stores (layoutV2 s kind) s)"
    using encode_Ret[OF b] by (auto simp: list_all_iff)
  then show ?thesis using False b by auto
qed (auto simp: encode_unfold)

end
