(* ===== verification/Bm25Mapped.thy ===== *)
theory Bm25Mapped
  imports Bm25Serial
begin

text \<open>
  \<open>internal/searchengine/formats/bm25/mapped.go\<close>, \<open>mapped_dict.go\<close>, \<open>validate.go\<close> and the iterator of
  \<open>merge_cursor.go\<close>: a segment read in place out of its bytes.

  Every read says what it does out of range: \<open>rd\<close> is an index into the blob and panics like one, a
  refused span raises the typed corruption, an unsafe view is taken after the checks the code makes.
  The numbers a message carries are dropped. A field's \<open>segmentID\<close> is the content address of the blob
  it reads. \<open>fieldByName\<close> is not modelled: nothing but tests reads it.

  Shown: on arbitrary bytes, opening never panics, and validating ends in success, a returned error or
  the contained corruption, with one exception that a theorem pins down; the dictionary iterator ends.
\<close>

section \<open>Reads\<close>

definition rd :: "nat \<Rightarrow> byte list \<Rightarrow> nat \<Rightarrow> nat outcome" where
  "rd k b off = (if off + k \<le> length b then Ret (get_le (take k (drop off b))) else bounds_panic)"

abbreviation rd16 :: "byte list \<Rightarrow> nat \<Rightarrow> nat outcome" where "rd16 \<equiv> rd 2"
abbreviation rd32 :: "byte list \<Rightarrow> nat \<Rightarrow> nat outcome" where "rd32 \<equiv> rd 4"
abbreviation rd64 :: "byte list \<Rightarrow> nat \<Rightarrow> nat outcome" where "rd64 \<equiv> rd 8"

definition words_at :: "nat \<Rightarrow> byte list \<Rightarrow> nat \<Rightarrow> nat \<Rightarrow> nat list outcome" where
  "words_at k b off n =
     (if n = 0 then Ret []
      else if off < length b then Ret (map (\<lambda>i. get_le (take k (drop (off + k * i) b))) [0..<n])
      else bounds_panic)"

definition u32sAt :: "byte list \<Rightarrow> nat \<Rightarrow> nat \<Rightarrow> nat list outcome" where
  "u32sAt = words_at 4"

definition u16sAt :: "byte list \<Rightarrow> nat \<Rightarrow> nat \<Rightarrow> nat list outcome" where
  "u16sAt = words_at 2"

definition termView :: "SegmentID \<Rightarrow> byte list \<Rightarrow> nat \<Rightarrow> nat \<Rightarrow> string \<Rightarrow> string outcome" where
  "termView sid b termOff termLen what =
     (if termLen = 0 then Ret []
      else if termOff + termLen > length b then RaiseCorruptIn sid what
      else Ret (string_of (take termLen (drop termOff b))))"

definition checkSection :: "string \<Rightarrow> nat \<Rightarrow> nat \<Rightarrow> nat \<Rightarrow> nat \<Rightarrow> unit outcome" where
  "checkSection name blobLen off sz alignTo =
     (if off mod alignTo \<noteq> 0 then Fail (ErrText (name @ '' misaligned''))
      else if off + sz > blobLen then Fail (ErrText (name @ '' out of bounds''))
      else Ret ())"

definition int64_of :: "nat \<Rightarrow> int" where
  "int64_of n = (if n < 2 ^ 63 then int n else int n - 2 ^ 64)"

section \<open>Opening\<close>

record mappedField =
  mf_config :: FieldConfig
  mf_totalTokens :: int
  mf_blob :: "byte list"
  mf_lengths :: "nat list"
  mf_termCount :: nat
  mf_entriesOff :: nat
  mf_slotsOff :: nat
  mf_slotCount :: nat
  mf_blockCount :: nat
  mf_firstTermsOff :: nat
  mf_blockIdxOff :: nat
  mf_kind :: byte

record mappedSegment =
  ms_blob :: "byte list"
  ms_kind :: byte
  ms_docCount :: nat
  ms_memberOffsets :: "nat list"
  ms_fields :: "mappedField list"

definition selfSegmentID :: "mappedSegment \<Rightarrow> SegmentID" where
  "selfSegmentID s = contentHash (ms_blob s)"

definition segmentID :: "mappedField \<Rightarrow> SegmentID" where
  "segmentID mf = contentHash (mf_blob mf)"

definition openDict :: "mappedField \<Rightarrow> nat \<Rightarrow> mappedField outcome" where
  "openDict mf off =
     (let b = mf_blob mf; header = (if mf_kind mf \<noteq> dictFlat then 16 else 8)
      in bind_out (checkSection ''dictionary'' (length b) off header 8) (\<lambda>_.
         bind_out (rd32 b off) (\<lambda>termCount.
         if mf_kind mf = dictBlocked then
           bind_out (rd32 b (off + 4)) (\<lambda>blockCount.
           bind_out (rd32 b (off + 8)) (\<lambda>firstTermsOff.
           bind_out (rd32 b (off + 12)) (\<lambda>blockIdxOff.
           bind_out (checkSection ''dictionary first terms'' (length b) firstTermsOff (8 * blockCount) 4) (\<lambda>_.
           bind_out (checkSection ''dictionary block index'' (length b) blockIdxOff (4 * blockCount) 4) (\<lambda>_.
           Ret (mf\<lparr>mf_termCount := termCount, mf_blockCount := blockCount, mf_firstTermsOff := firstTermsOff,
                   mf_blockIdxOff := blockIdxOff\<rparr>))))))
         else if mf_kind mf = dictHash then
           bind_out (rd32 b (off + 4)) (\<lambda>entriesOff.
           bind_out (rd32 b (off + 8)) (\<lambda>slotsOff.
           bind_out (rd32 b (off + 12)) (\<lambda>slotCount.
           bind_out (checkSection ''dictionary entries'' (length b) entriesOff (v2FlatEntrySize * termCount) 8) (\<lambda>_.
           bind_out (checkSection ''dictionary hash slots'' (length b) slotsOff (v2HashSlotSize * slotCount) 8) (\<lambda>_.
           Ret (mf\<lparr>mf_termCount := termCount, mf_entriesOff := entriesOff, mf_slotsOff := slotsOff, mf_slotCount := slotCount\<rparr>))))))
         else
           bind_out (rd32 b (off + 4)) (\<lambda>entriesOff.
           bind_out (checkSection ''dictionary entries'' (length b) entriesOff (v2FlatEntrySize * termCount) 8) (\<lambda>_.
           Ret (mf\<lparr>mf_termCount := termCount, mf_entriesOff := entriesOff\<rparr>))))))"

definition openField :: "byte list \<Rightarrow> byte \<Rightarrow> nat \<Rightarrow> nat \<Rightarrow> mappedField outcome" where
  "openField b kind docCount e =
     bind_out (rd32 b e) (\<lambda>nameOff.
     bind_out (rd16 b (e + 4)) (\<lambda>nameLen.
     bind_out (checkSection ''field name'' (length b) nameOff nameLen 1) (\<lambda>_.
     bind_out (rd32 b (e + 32)) (\<lambda>docLengthsOff.
     bind_out (checkSection ''doc lengths'' (length b) docLengthsOff (4 * docCount) 4) (\<lambda>_.
     bind_out (rd64 b (e + 8)) (\<lambda>boost.
     bind_out (rd64 b (e + 16)) (\<lambda>bparam.
     bind_out (rd64 b (e + 24)) (\<lambda>total.
     bind_out (u32sAt b docLengthsOff docCount) (\<lambda>lengths.
     bind_out (rd32 b (e + 36)) (\<lambda>dict.
     openDict
       \<lparr>mf_config = \<lparr>fc_Name = string_of (take nameLen (drop nameOff b)), fc_Boost = word_of_nat boost, fc_B = word_of_nat bparam\<rparr>,
        mf_totalTokens = int64_of total, mf_blob = b, mf_lengths = lengths, mf_termCount = 0, mf_entriesOff = 0, mf_slotsOff = 0,
        mf_slotCount = 0, mf_blockCount = 0, mf_firstTermsOff = 0, mf_blockIdxOff = 0, mf_kind = kind\<rparr> dict))))))))))"

definition openDocFreqDict :: "byte list \<Rightarrow> unit outcome" where
  "openDocFreqDict b =
     bind_out (rd32 b 20) (\<lambda>off.
     bind_out (checkSection ''docFreq dictionary'' (length b) off 8 8) (\<lambda>_.
     bind_out (rd32 b off) (\<lambda>cnt.
     bind_out (rd32 b (off + 4)) (\<lambda>rows.
     checkSection ''docFreq rows'' (length b) rows (v2DocFreqRowSize * cnt) 8))))"

fun open_fields :: "byte list \<Rightarrow> byte \<Rightarrow> nat \<Rightarrow> nat \<Rightarrow> nat \<Rightarrow> mappedField list outcome" where
  "open_fields b kind docCount e 0 = Ret []"
| "open_fields b kind docCount e (Suc n) =
     bind_out (openField b kind docCount e) (\<lambda>mf.
     bind_out (open_fields b kind docCount (e + v2FieldEntrySize) n) (\<lambda>mfs. Ret (mf # mfs)))"

definition openSegmentV2 :: "byte list \<Rightarrow> mappedSegment outcome" where
  "openSegmentV2 b =
     (if length b < v2HeaderSize then Fail (ErrText ''bm25 open: short blob'')
      else if b ! 0 \<noteq> serialVersion then Fail (ErrText ''bm25 open: unsupported serial version'')
      else
        bind_out (rd32 b 24) (\<lambda>declared.
        if declared \<noteq> length b then Fail (ErrText ''bm25 open: declared length'')
        else let kind = b ! 1 in
          bind_out (rd32 b 4) (\<lambda>docCount.
          if kind > dictHash then Fail (ErrText ''bm25 open: unknown dictionary kind'')
          else
            bind_out (rd16 b 2) (\<lambda>fieldCount.
            bind_out (rd32 b 8) (\<lambda>memberOffsetsOff.
            bind_out (rd32 b 16) (\<lambda>fieldTableOff.
            bind_out (checkSection ''member offsets'' (length b) memberOffsetsOff (4 * (docCount + 1)) 4) (\<lambda>_.
            bind_out (u32sAt b memberOffsetsOff (docCount + 1)) (\<lambda>memberOffsets.
            bind_out (checkSection ''field table'' (length b) fieldTableOff (v2FieldEntrySize * fieldCount) 8) (\<lambda>_.
            bind_out (openDocFreqDict b) (\<lambda>_.
            bind_out (open_fields b kind docCount fieldTableOff fieldCount) (\<lambda>mfs.
            Ret \<lparr>ms_blob = b, ms_kind = kind, ms_docCount = docCount, ms_memberOffsets = memberOffsets, ms_fields = mfs\<rparr>)))))))))))"

section \<open>Members\<close>

text \<open>\<open>&s.blob[lo]\<close> is an index: it panics at the end of the blob, also for an empty span.\<close>

definition mapped_member :: "mappedSegment \<Rightarrow> nat \<Rightarrow> string outcome" where
  "mapped_member s i =
     (let lo = ms_memberOffsets s ! i; hi = ms_memberOffsets s ! (i + 1)
      in if lo > hi \<or> hi > length (ms_blob s) then RaiseCorruptIn (selfSegmentID s) ''bm25: member''
         else if lo < length (ms_blob s) then Ret (string_of (take (hi - lo) (drop lo (ms_blob s))))
         else bounds_panic)"

fun members_from :: "mappedSegment \<Rightarrow> nat \<Rightarrow> nat \<Rightarrow> ExternalID list outcome" where
  "members_from s i 0 = Ret []"
| "members_from s i (Suc n) =
     bind_out (mapped_member s i) (\<lambda>x. bind_out (members_from s (i + 1) n) (\<lambda>xs. Ret (x # xs)))"

definition mapped_IDs :: "mappedSegment \<Rightarrow> ExternalID list outcome" where
  "mapped_IDs s = members_from s 0 (ms_docCount s)"

definition mapped_Encode :: "mappedSegment \<Rightarrow> byte list outcome" where
  "mapped_Encode s = Ret (ms_blob s)"

text \<open>\<open>sizeSegment\<close> and \<open>sizeField\<close> are the platform's \<open>unsafe.Sizeof\<close> of the two structs.\<close>

definition mapped_HeapBytes :: "int \<Rightarrow> int \<Rightarrow> mappedSegment \<Rightarrow> int" where
  "mapped_HeapBytes sizeSegment sizeField s = sizeSegment + int (length (ms_fields s)) * (sizeField + 64)"

section \<open>Document frequencies\<close>

definition docFreqHeader :: "mappedSegment \<Rightarrow> (nat \<times> nat) outcome" where
  "docFreqHeader s =
     bind_out (rd32 (ms_blob s) 20) (\<lambda>off.
     bind_out (rd32 (ms_blob s) off) (\<lambda>cnt.
     bind_out (rd32 (ms_blob s) (off + 4)) (\<lambda>rows. Ret (cnt, rows))))"

definition docFreqRow :: "mappedSegment \<Rightarrow> nat \<Rightarrow> nat \<Rightarrow> (string \<times> int) outcome" where
  "docFreqRow s rows i =
     (let at = rows + v2DocFreqRowSize * i; b = ms_blob s
      in bind_out (rd32 b at) (\<lambda>termOff.
         bind_out (rd32 b (at + 4)) (\<lambda>termLen.
         bind_out (rd64 b (at + 8)) (\<lambda>df.
         if termOff + termLen > length b then RaiseCorruptIn (selfSegmentID s) ''bm25: docFreq term''
         else bind_out (termView (selfSegmentID s) b termOff termLen ''docFreq term'') (\<lambda>t. Ret (t, int64_of df))))))"

fun docFreqRows :: "mappedSegment \<Rightarrow> nat \<Rightarrow> nat \<Rightarrow> nat \<Rightarrow> (string \<times> int) list outcome" where
  "docFreqRows s rows i 0 = Ret []"
| "docFreqRows s rows i (Suc n) =
     bind_out (docFreqRow s rows i) (\<lambda>r. bind_out (docFreqRows s rows (i + 1) n) (\<lambda>rs. Ret (r # rs)))"

definition docFreqEach :: "mappedSegment \<Rightarrow> (string \<times> int) list outcome" where
  "docFreqEach s = bind_out (docFreqHeader s) (\<lambda>(cnt, rows). docFreqRows s rows 0 cnt)"

function df_search :: "mappedSegment \<Rightarrow> nat \<Rightarrow> string \<Rightarrow> nat \<Rightarrow> nat \<Rightarrow> int outcome" where
  "df_search s rows t lo hi =
     (if lo < hi then
        (let mid = (lo + hi) div 2
         in case docFreqRow s rows mid of
              Ret (got, df) \<Rightarrow>
                (if got = t then Ret df
                 else if got < t then df_search s rows t (mid + 1) hi
                 else df_search s rows t lo mid)
            | Fail e \<Rightarrow> Fail e | Raised sid d \<Rightarrow> Raised sid d | Panic m \<Rightarrow> Panic m)
      else Ret 0)"
  by pat_completeness auto
termination
  by (relation "measure (\<lambda>(s, rows, t, lo, hi). hi - lo)") auto

declare df_search.simps [simp del]

definition segmentDocFreq :: "mappedSegment \<Rightarrow> string \<Rightarrow> int outcome" where
  "segmentDocFreq s t = bind_out (docFreqHeader s) (\<lambda>(cnt, rows). df_search s rows t 0 cnt)"

section \<open>Dictionaries\<close>

definition entryAt :: "mappedField \<Rightarrow> nat \<Rightarrow> (string \<times> nat \<times> nat) outcome" where
  "entryAt mf i =
     (let at = mf_entriesOff mf + v2FlatEntrySize * i; b = mf_blob mf
      in bind_out (rd32 b at) (\<lambda>termOff.
         bind_out (rd32 b (at + 4)) (\<lambda>termLen.
         bind_out (rd32 b (at + 8)) (\<lambda>postOff.
         bind_out (rd32 b (at + 12)) (\<lambda>postCount.
         bind_out (termView (segmentID mf) b termOff termLen ''dictionary term'') (\<lambda>t. Ret (t, postOff, postCount)))))))"

definition mapped_postings :: "mappedField \<Rightarrow> nat \<Rightarrow> nat \<Rightarrow> (nat list \<times> nat list) outcome" where
  "mapped_postings mf off cnt =
     (if cnt = 0 then Ret ([], [])
      else if off mod 4 \<noteq> 0 \<or> off + 6 * cnt > length (mf_blob mf) then RaiseCorruptIn (segmentID mf) ''bm25: posting run''
      else bind_out (u32sAt (mf_blob mf) off cnt) (\<lambda>ids.
           bind_out (u16sAt (mf_blob mf) (off + 4 * cnt) cnt) (\<lambda>tfs. Ret (ids, tfs))))"

function flat_search :: "mappedField \<Rightarrow> string \<Rightarrow> nat \<Rightarrow> nat \<Rightarrow> (nat \<times> nat) option outcome" where
  "flat_search mf t lo hi =
     (if lo < hi then
        (let mid = (lo + hi) div 2
         in case entryAt mf mid of
              Ret (got, off, cnt) \<Rightarrow>
                (if got = t then Ret (Some (off, cnt))
                 else if got < t then flat_search mf t (mid + 1) hi
                 else flat_search mf t lo mid)
            | Fail e \<Rightarrow> Fail e | Raised sid d \<Rightarrow> Raised sid d | Panic m \<Rightarrow> Panic m)
      else Ret None)"
  by pat_completeness auto
termination
  by (relation "measure (\<lambda>(mf, t, lo, hi). hi - lo)") auto

declare flat_search.simps [simp del]

definition lookupFlat :: "mappedField \<Rightarrow> string \<Rightarrow> (nat \<times> nat) option outcome" where
  "lookupFlat mf t = flat_search mf t 0 (mf_termCount mf)"

fun hash_search :: "mappedField \<Rightarrow> string \<Rightarrow> nat \<Rightarrow> nat \<Rightarrow> (nat \<times> nat) option outcome" where
  "hash_search mf t slot 0 = Ret None"
| "hash_search mf t slot (Suc n) =
     (let at = mf_slotsOff mf + v2HashSlotSize * slot; b = mf_blob mf;
          next = hash_search mf t (next_slot (mf_slotCount mf) slot) n
      in bind_out (rd32 b (at + 4)) (\<lambda>idx.
         if idx = hashEmptySlot then Ret None
         else bind_out (rd32 b at) (\<lambda>fp.
              if fp = fingerprint (termHash t) \<and> idx < mf_termCount mf then
                bind_out (entryAt mf idx) (\<lambda>(got, off, cnt). if got = t then Ret (Some (off, cnt)) else next)
              else next)))"

definition lookupHash :: "mappedField \<Rightarrow> string \<Rightarrow> (nat \<times> nat) option outcome" where
  "lookupHash mf t =
     (if mf_slotCount mf = 0 then Ret None
      else hash_search mf t (home_slot (mf_slotCount mf) (termHash t)) (mf_slotCount mf))"

definition firstTermAt :: "mappedField \<Rightarrow> nat \<Rightarrow> string outcome" where
  "firstTermAt mf blk =
     (let at = mf_firstTermsOff mf + 8 * blk; b = mf_blob mf
      in bind_out (rd32 b at) (\<lambda>termOff.
         bind_out (rd32 b (at + 4)) (\<lambda>termLen. termView (segmentID mf) b termOff termLen ''block first term'')))"

definition stepFrontCoded :: "SegmentID \<Rightarrow> byte list \<Rightarrow> nat \<Rightarrow> string \<Rightarrow> (string \<times> nat) outcome" where
  "stepFrontCoded sid blob off prev =
     (if off + 4 > length blob then RaiseCorruptIn sid ''bm25: front-coded term header''
      else bind_out (rd16 blob off) (\<lambda>shared.
           bind_out (rd16 blob (off + 2)) (\<lambda>suffixLen.
           if shared > length prev \<or> off + 4 + suffixLen > length blob then RaiseCorruptIn sid ''bm25: front-coded term''
           else Ret (take shared prev @ string_of (take suffixLen (drop (off + 4) blob)), off + 4 + suffixLen))))"

definition blockEntry :: "mappedField \<Rightarrow> nat \<Rightarrow> (nat \<times> nat) outcome" where
  "blockEntry mf at =
     (if at + 8 > length (mf_blob mf) then RaiseCorruptIn (segmentID mf) ''bm25: block entry''
      else bind_out (rd32 (mf_blob mf) at) (\<lambda>off. bind_out (rd32 (mf_blob mf) (at + 4)) (\<lambda>cnt. Ret (off, cnt))))"

fun scan_coded :: "mappedField \<Rightarrow> string \<Rightarrow> string \<Rightarrow> nat \<Rightarrow> nat \<Rightarrow> (nat \<times> nat) option outcome" where
  "scan_coded mf t scratch at 0 = Ret None"
| "scan_coded mf t scratch at (Suc n) =
     bind_out (stepFrontCoded (segmentID mf) (mf_blob mf) at scratch) (\<lambda>(got, at).
       if got = t then bind_out (blockEntry mf at) (\<lambda>e. Ret (Some e))
       else if got > t then Ret None
       else scan_coded mf t got (at + 8) n)"

definition scanBlock :: "mappedField \<Rightarrow> nat \<Rightarrow> string \<Rightarrow> (nat \<times> nat) option outcome" where
  "scanBlock mf blk t =
     bind_out (firstTermAt mf blk) (\<lambda>first.
       let idxAt = mf_blockIdxOff mf + 4 * blk
       in if idxAt + 4 > length (mf_blob mf) then RaiseCorruptIn (segmentID mf) ''bm25: block index''
          else bind_out (rd32 (mf_blob mf) idxAt) (\<lambda>at.
            if first = t then bind_out (blockEntry mf at) (\<lambda>e. Ret (Some e))
            else let start = blk * blockedBlockTerms; end = min (start + blockedBlockTerms) (mf_termCount mf)
                 in scan_coded mf t first (at + 8) (end - start - 1)))"

function block_search :: "mappedField \<Rightarrow> string \<Rightarrow> nat \<Rightarrow> nat \<Rightarrow> nat outcome" where
  "block_search mf t lo hi =
     (if lo < hi then
        (let mid = (lo + hi) div 2
         in case firstTermAt mf mid of
              Ret first \<Rightarrow> if first \<le> t then block_search mf t (mid + 1) hi else block_search mf t lo mid
            | Fail e \<Rightarrow> Fail e | Raised sid d \<Rightarrow> Raised sid d | Panic m \<Rightarrow> Panic m)
      else Ret lo)"
  by pat_completeness auto
termination
  by (relation "measure (\<lambda>(mf, t, lo, hi). hi - lo)") auto

declare block_search.simps [simp del]

definition lookupBlocked :: "mappedField \<Rightarrow> string \<Rightarrow> (nat \<times> nat) option outcome" where
  "lookupBlocked mf t =
     bind_out (block_search mf t 0 (mf_blockCount mf)) (\<lambda>lo. if lo = 0 then Ret None else scanBlock mf (lo - 1) t)"

definition mapped_lookup :: "mappedField \<Rightarrow> string \<Rightarrow> (nat list \<times> nat list) option outcome" where
  "mapped_lookup mf t =
     (if mf_termCount mf = 0 then Ret None
      else bind_out (if mf_kind mf = dictBlocked then lookupBlocked mf t
                     else if mf_kind mf = dictHash then lookupHash mf t
                     else lookupFlat mf t)
             (\<lambda>r. case r of None \<Rightarrow> Ret None
                  | Some (off, cnt) \<Rightarrow> bind_out (mapped_postings mf off cnt) (\<lambda>ps. Ret (Some ps))))"

section \<open>The dictionary iterator\<close>

record dictIter =
  it_idx :: nat
  it_at :: nat
  it_scratch :: string
  it_term :: string
  it_postOff :: nat
  it_count :: nat

definition iter_start :: dictIter where
  "iter_start = \<lparr>it_idx = 0, it_at = 0, it_scratch = [], it_term = [], it_postOff = 0, it_count = 0\<rparr>"

definition openBlock :: "mappedField \<Rightarrow> dictIter \<Rightarrow> dictIter outcome" where
  "openBlock mf it =
     (let block = it_idx it div blockedBlockTerms; at = mf_blockIdxOff mf + 4 * block
      in if block \<ge> mf_blockCount mf \<or> at + 4 > length (mf_blob mf) then RaiseCorruptIn (segmentID mf) ''bm25: dictionary block''
         else bind_out (rd32 (mf_blob mf) at) (\<lambda>pos.
              bind_out (firstTermAt mf block) (\<lambda>first. Ret (it\<lparr>it_at := pos, it_scratch := first\<rparr>))))"

definition extendPreviousTerm :: "mappedField \<Rightarrow> dictIter \<Rightarrow> dictIter outcome" where
  "extendPreviousTerm mf it =
     bind_out (stepFrontCoded (segmentID mf) (mf_blob mf) (it_at it) (it_scratch it)) (\<lambda>(scratch, at).
       Ret (it\<lparr>it_scratch := scratch, it_at := at\<rparr>))"

definition readEntry :: "mappedField \<Rightarrow> dictIter \<Rightarrow> dictIter outcome" where
  "readEntry mf it =
     (if it_at it + 8 > length (mf_blob mf) then RaiseCorruptIn (segmentID mf) ''bm25: dictionary entry''
      else bind_out (rd32 (mf_blob mf) (it_at it)) (\<lambda>off.
           bind_out (rd32 (mf_blob mf) (it_at it + 4)) (\<lambda>cnt.
           Ret (it\<lparr>it_postOff := off, it_count := cnt, it_at := it_at it + 8\<rparr>))))"

definition nextBlocked :: "mappedField \<Rightarrow> dictIter \<Rightarrow> dictIter outcome" where
  "nextBlocked mf it =
     bind_out (if it_idx it mod blockedBlockTerms = 0 then openBlock mf it else extendPreviousTerm mf it) (\<lambda>it.
     bind_out (readEntry mf it) (\<lambda>it. Ret (it\<lparr>it_term := it_scratch it\<rparr>)))"

text \<open>\<open>None\<close> is \<open>next\<close> reporting false.\<close>

definition iter_next :: "mappedField \<Rightarrow> dictIter \<Rightarrow> dictIter option outcome" where
  "iter_next mf it =
     (if it_idx it \<ge> mf_termCount mf then Ret None
      else bind_out
        (if mf_kind mf = dictBlocked then nextBlocked mf it
         else bind_out (entryAt mf (it_idx it)) (\<lambda>(t, off, cnt). Ret (it\<lparr>it_term := t, it_postOff := off, it_count := cnt\<rparr>)))
        (\<lambda>it. Ret (Some (it\<lparr>it_idx := it_idx it + 1\<rparr>))))"

lemma iter_next_idx:
  assumes "iter_next mf it = Ret (Some it')"
  shows "it_idx it' = Suc (it_idx it)" "it_idx it < mf_termCount mf"
  using assms
  by (auto simp: iter_next_def nextBlocked_def openBlock_def extendPreviousTerm_def readEntry_def bind_out_Ret_iff RaiseCorruptIn_def Let_def
      split: if_splits prod.splits)

lemma iter_next_decreases:
  "iter_next mf it = Ret (Some it') \<Longrightarrow> mf_termCount mf - it_idx it' < mf_termCount mf - it_idx it"
  using iter_next_idx[of mf it it'] by simp

text \<open>\<open>eachTerm\<close> with the callback's arguments collected in order.\<close>

function each_from :: "mappedField \<Rightarrow> dictIter \<Rightarrow> (string \<times> nat list \<times> nat list) list outcome" where
  "each_from mf it =
     (case iter_next mf it of
        Ret None \<Rightarrow> Ret []
      | Ret (Some it') \<Rightarrow>
          (case mapped_postings mf (it_postOff it') (it_count it') of
             Ret (ids, tfs) \<Rightarrow>
               (case each_from mf it' of
                  Ret rest \<Rightarrow> Ret ((it_term it', ids, tfs) # rest)
                | Fail e \<Rightarrow> Fail e | Raised sid d \<Rightarrow> Raised sid d | Panic m \<Rightarrow> Panic m)
           | Fail e \<Rightarrow> Fail e | Raised sid d \<Rightarrow> Raised sid d | Panic m \<Rightarrow> Panic m)
      | Fail e \<Rightarrow> Fail e | Raised sid d \<Rightarrow> Raised sid d | Panic m \<Rightarrow> Panic m)"
  by pat_completeness auto
termination
  by (relation "measure (\<lambda>(mf, it). mf_termCount mf - it_idx it)") (auto dest: iter_next_decreases)

declare each_from.simps [simp del]

definition eachTerm :: "mappedField \<Rightarrow> (string \<times> nat list \<times> nat list) list outcome" where
  "eachTerm mf = each_from mf iter_start"

section \<open>Validation\<close>

fun validate_fields :: "mappedField list \<Rightarrow> unit outcome" where
  "validate_fields [] = Ret ()"
| "validate_fields (mf # mfs) = bind_out (eachTerm mf) (\<lambda>_. validate_fields mfs)"

definition validate_body :: "SegmentID \<Rightarrow> byte list \<Rightarrow> unit outcome" where
  "validate_body sid b =
     (case openSegmentV2 b of
        Ret seg \<Rightarrow>
          bind_out (validate_fields (ms_fields seg)) (\<lambda>_.
          bind_out (mapped_IDs seg) (\<lambda>_.
          bind_out (docFreqEach seg) (\<lambda>_. Ret ())))
      | Fail e \<Rightarrow> Fail (Wrap ''bm25: segment does not open'' e)
      | Raised s d \<Rightarrow> Raised s d | Panic m \<Rightarrow> Panic m)"

definition ValidateSegment :: "SegmentID \<Rightarrow> byte list \<Rightarrow> unit outcome" where
  "ValidateSegment sid b = catchCorrupt sid (validate_body sid b)"

section \<open>Reading arbitrary bytes\<close>

text \<open>\<open>safe r\<close>: the call did not end in a runtime panic; a typed corruption is not one.\<close>

definition safe :: "'a outcome \<Rightarrow> bool" where
  "safe r \<longleftrightarrow> (case r of Panic m \<Rightarrow> False | _ \<Rightarrow> True)"

lemma safe_simps [simp]:
  "safe (Ret a)" "safe (Fail e)" "safe (Raised s d)" "\<not> safe (Panic m)" "safe (RaiseCorruptIn s d)"
  by (simp_all add: safe_def RaiseCorruptIn_def)

lemma safe_bind [intro]: "safe m \<Longrightarrow> (\<And>a. m = Ret a \<Longrightarrow> safe (k a)) \<Longrightarrow> safe (bind_out m k)"
  by (cases m) auto

lemma RaiseCorruptIn_neq [simp]: "RaiseCorruptIn s d \<noteq> Ret a" "Ret a \<noteq> RaiseCorruptIn s d"
  by (simp_all add: RaiseCorruptIn_def)

lemma safe_rd [simp]: "safe (rd k b off) \<longleftrightarrow> off + k \<le> length b"
  by (simp add: rd_def bounds_panic_def)

lemma dict_kinds [simp]:
  "dictFlat \<noteq> dictBlocked" "dictBlocked \<noteq> dictFlat" "dictHash \<noteq> dictBlocked" "dictBlocked \<noteq> dictHash" "dictFlat \<noteq> dictHash" "dictHash \<noteq> dictFlat"
  by (simp_all add: dictFlat_def dictBlocked_def dictHash_def)

lemma rd_Ret_iff: "rd k b off = Ret v \<longleftrightarrow> off + k \<le> length b \<and> v = get_le (take k (drop off b))"
  by (auto simp: rd_def bounds_panic_def)

lemma get_le_less: "get_le bs < 256 ^ length bs"
proof (induction bs)
  case (Cons b bs)
  have "unat b < 256" using unsigned_less[of b, where 'a = nat] by simp
  then show ?case using Cons by (simp add: mult.commute)
qed simp

lemma rd32_less: "rd32 b off = Ret v \<Longrightarrow> v < 2 ^ 32"
proof -
  assume v: "rd32 b off = Ret v"
  then have "length (take 4 (drop off b)) = 4" by (auto simp: rd_Ret_iff)
  then show ?thesis using get_le_less[of "take 4 (drop off b)"] v by (simp add: rd_Ret_iff)
qed

lemma checkSection_Ret [simp]: "checkSection name n off sz a = Ret u \<longleftrightarrow> off mod a = 0 \<and> off + sz \<le> n"
  by (auto simp: checkSection_def)

lemma safe_checkSection [simp]: "safe (checkSection name n off sz a)"
  by (simp add: checkSection_def)

lemma safe_termView [simp]: "safe (termView sid b off n what)"
  by (simp add: termView_def)

lemma safe_words_at: "0 < k \<Longrightarrow> off + k * n \<le> length b \<Longrightarrow> safe (words_at k b off n)"
  by (cases n) (auto simp: words_at_def)

lemma words_at_length: "words_at k b off n = Ret ws \<Longrightarrow> length ws = n"
  by (auto simp: words_at_def bounds_panic_def split: if_splits)

definition field_ok :: "byte list \<Rightarrow> nat \<Rightarrow> mappedField \<Rightarrow> bool" where
  "field_ok b docCount mf \<longleftrightarrow>
     mf_blob mf = b \<and> length (mf_lengths mf) = docCount
   \<and> (if mf_kind mf = dictBlocked
      then mf_firstTermsOff mf + 8 * mf_blockCount mf \<le> length b \<and> mf_blockIdxOff mf + 4 * mf_blockCount mf \<le> length b
      else mf_entriesOff mf + 16 * mf_termCount mf \<le> length b
         \<and> (mf_kind mf = dictHash \<longrightarrow> mf_slotsOff mf + 8 * mf_slotCount mf \<le> length b \<and> mf_slotCount mf < 2 ^ 32))"

definition df_ok :: "byte list \<Rightarrow> bool" where
  "df_ok b \<longleftrightarrow> (\<exists>off cnt rows. rd32 b 20 = Ret off \<and> rd32 b off = Ret cnt \<and> rd32 b (off + 4) = Ret rows \<and> rows + 16 * cnt \<le> length b)"

definition segment_ok :: "mappedSegment \<Rightarrow> bool" where
  "segment_ok s \<longleftrightarrow> length (ms_memberOffsets s) = ms_docCount s + 1 \<and> df_ok (ms_blob s)
   \<and> list_all (field_ok (ms_blob s) (ms_docCount s)) (ms_fields s)"

lemma openDict_safe: "safe (openDict mf off)"
  unfolding openDict_def Let_def
  by (intro safe_bind safe_checkSection) (auto split: if_splits intro!: safe_bind)

lemma openDict_ok:
  assumes "openDict mf off = Ret mf'" "mf_blob mf = b" "length (mf_lengths mf) = n"
  shows "field_ok b n mf'"
proof -
  consider "mf_kind mf = dictBlocked" | "mf_kind mf = dictHash" | "mf_kind mf \<noteq> dictBlocked" "mf_kind mf \<noteq> dictHash" by blast
  then show ?thesis
    by cases (use assms in \<open>clarsimp simp: openDict_def Let_def bind_out_Ret_iff field_ok_def dest!: rd32_less\<close>)+
qed

lemma openField_safe: "e + 48 \<le> length b \<Longrightarrow> safe (openField b kind n e)"
  unfolding openField_def by (intro safe_bind safe_checkSection openDict_safe) (auto simp: u32sAt_def intro!: safe_words_at)

lemma openField_ok: "openField b kind n e = Ret mf \<Longrightarrow> field_ok b n mf"
  by (auto simp: openField_def bind_out_Ret_iff u32sAt_def intro!: openDict_ok dest: words_at_length)

lemma open_fields_safe: "e + 48 * m \<le> length b \<Longrightarrow> safe (open_fields b kind n e m)"
  by (induction m arbitrary: e) (auto intro!: safe_bind openField_safe)

lemma open_fields_ok: "open_fields b kind n e m = Ret mfs \<Longrightarrow> list_all (field_ok b n) mfs"
  by (induction m arbitrary: e mfs) (auto simp: bind_out_Ret_iff dest: openField_ok)

lemma openDocFreqDict_safe: "32 \<le> length b \<Longrightarrow> safe (openDocFreqDict b)"
  unfolding openDocFreqDict_def by (intro safe_bind safe_checkSection) auto

lemma openDocFreqDict_ok: "openDocFreqDict b = Ret u \<Longrightarrow> df_ok b"
  unfolding openDocFreqDict_def df_ok_def bind_out_Ret_iff checkSection_Ret by blast

lemma openSegmentV2_safe: "safe (openSegmentV2 b)"
proof (cases "length b < 32")
  case False
  then show ?thesis
    unfolding openSegmentV2_def Let_def
    by (auto intro!: safe_bind openDocFreqDict_safe open_fields_safe safe_words_at simp: u32sAt_def)
qed (simp add: openSegmentV2_def)

lemma openSegmentV2_ok:
  assumes "openSegmentV2 b = Ret s"
  shows "segment_ok s" "ms_blob s = b"
proof -
  show "ms_blob s = b" using assms by (auto simp: openSegmentV2_def Let_def bind_out_Ret_iff split: if_splits)
  show "segment_ok s"
    using assms unfolding segment_ok_def
    by (auto simp: openSegmentV2_def Let_def bind_out_Ret_iff u32sAt_def dest: words_at_length openDocFreqDict_ok open_fields_ok split: if_splits)
qed


lemma firstTermAt_safe: "field_ok b n mf \<Longrightarrow> mf_kind mf = dictBlocked \<Longrightarrow> blk < mf_blockCount mf \<Longrightarrow> safe (firstTermAt mf blk)"
  unfolding firstTermAt_def Let_def by (intro safe_bind safe_termView) (auto simp: field_ok_def)

lemma entryAt_safe: "field_ok b n mf \<Longrightarrow> mf_kind mf \<noteq> dictBlocked \<Longrightarrow> i < mf_termCount mf \<Longrightarrow> safe (entryAt mf i)"
  unfolding entryAt_def Let_def by (intro safe_bind safe_termView) (auto simp: field_ok_def)

lemma mapped_postings_safe: "safe (mapped_postings mf off cnt)"
  unfolding mapped_postings_def u32sAt_def u16sAt_def by (auto intro!: safe_bind safe_words_at)

lemma stepFrontCoded_safe: "safe (stepFrontCoded sid b off prev)"
  unfolding stepFrontCoded_def by (auto intro!: safe_bind)

lemma blockEntry_safe: "safe (blockEntry mf at)"
  unfolding blockEntry_def by (auto intro!: safe_bind)

lemma flat_search_safe:
  "field_ok b n mf \<Longrightarrow> mf_kind mf \<noteq> dictBlocked \<Longrightarrow> hi \<le> mf_termCount mf \<Longrightarrow> safe (flat_search mf t lo hi)"
proof (induction mf t lo hi rule: flat_search.induct)
  case (1 mf t lo hi)
  show ?case
  proof (cases "lo < hi")
    case True
    have e: "safe (entryAt mf ((lo + hi) div 2))" by (rule entryAt_safe) (use 1(3-5) True in auto)
    show ?thesis
    proof (cases "entryAt mf ((lo + hi) div 2)")
      case (Ret r)
      then show ?thesis
        using 1(1,2)[OF True refl Ret] True 1(3-5) by (subst flat_search.simps) (cases r, auto simp: Let_def)
    qed (use e True in \<open>simp_all add: flat_search.simps\<close>)
  qed (simp add: flat_search.simps)
qed

lemma block_search_safe:
  "field_ok b n mf \<Longrightarrow> mf_kind mf = dictBlocked \<Longrightarrow> hi \<le> mf_blockCount mf \<Longrightarrow>
   safe (block_search mf t lo hi) \<and> (\<forall>r. block_search mf t lo hi = Ret r \<longrightarrow> r \<le> max lo hi)"
proof (induction mf t lo hi rule: block_search.induct)
  case (1 mf t lo hi)
  show ?case
  proof (cases "lo < hi")
    case True
    have e: "safe (firstTermAt mf ((lo + hi) div 2))" by (rule firstTermAt_safe) (use 1(3-5) True in auto)
    show ?thesis
    proof (cases "firstTermAt mf ((lo + hi) div 2)")
      case (Ret r)
      then show ?thesis
        using 1(1,2)[OF True refl Ret] True 1(3-5) by (subst (1 2) block_search.simps) (force simp: Let_def)
    qed (use e True in \<open>simp_all add: block_search.simps\<close>)
  qed (simp add: block_search.simps)
qed

lemma scan_coded_safe: "safe (scan_coded mf t scratch at n)"
  by (induction n arbitrary: scratch "at") (auto intro!: safe_bind stepFrontCoded_safe blockEntry_safe split: prod.split)

lemma scanBlock_safe: "field_ok b n mf \<Longrightarrow> mf_kind mf = dictBlocked \<Longrightarrow> blk < mf_blockCount mf \<Longrightarrow> safe (scanBlock mf blk t)"
  unfolding scanBlock_def Let_def by (auto intro!: safe_bind firstTermAt_safe blockEntry_safe scan_coded_safe)

lemma next_slot_lt: "0 < m \<Longrightarrow> m < 2 ^ 64 \<Longrightarrow> next_slot m s < m" "0 < m \<Longrightarrow> m < 2 ^ 64 \<Longrightarrow> home_slot m h < m"
proof -
  assume m: "0 < m" "m < 2 ^ 64"
  have le: "unat (w AND (word_of_nat m - 1)) < m" for w :: "64 word"
  proof -
    have "w AND (word_of_nat m - 1) \<le> (word_of_nat m - 1 :: 64 word)" by (rule word_and_le1)
    then have "unat (w AND (word_of_nat m - 1)) \<le> unat (word_of_nat m - 1 :: 64 word)" by (simp add: word_le_nat_alt)
    also have "unat (word_of_nat m - 1 :: 64 word) = m - 1"
      using m by (subst unat_minus_one) (auto simp: unat_of_nat word_of_nat_eq_0_iff take_bit_nat_eq_self dvd_imp_le leD)
    finally show ?thesis using m by simp
  qed
  show "next_slot m s < m" "home_slot m h < m" unfolding next_slot_def home_slot_def by (rule le)+
qed

lemma hash_search_safe:
  "field_ok b n mf \<Longrightarrow> mf_kind mf = dictHash \<Longrightarrow> slot < mf_slotCount mf \<Longrightarrow> safe (hash_search mf t slot k)"
proof (induction k arbitrary: slot)
  case (Suc k)
  have "safe (hash_search mf t (next_slot (mf_slotCount mf) slot) k)"
    by (rule Suc.IH) (use Suc.prems in \<open>auto simp: field_ok_def intro!: next_slot_lt(1)\<close>)
  then show ?case
    using Suc.prems entryAt_safe[OF Suc.prems(1)] by (auto simp: Let_def field_ok_def intro!: safe_bind split: prod.split)
qed simp

lemma mapped_lookup_safe:
  assumes "field_ok b n mf"
  shows "safe (mapped_lookup mf t)"
proof -
  have "safe (lookupBlocked mf t)" if "mf_kind mf = dictBlocked"
    unfolding lookupBlocked_def
    using block_search_safe[OF assms that order_refl, of t 0] that
    by (auto intro!: safe_bind scanBlock_safe[OF assms])
  moreover have "safe (lookupHash mf t)" if "mf_kind mf = dictHash"
  proof -
    have "mf_slotCount mf < 2 ^ 64" using assms that by (simp add: field_ok_def)
    then show ?thesis
      unfolding lookupHash_def using hash_search_safe[OF assms that] next_slot_lt(2)[of "mf_slotCount mf"] by simp
  qed
  moreover have "safe (lookupFlat mf t)" if "mf_kind mf \<noteq> dictBlocked"
    unfolding lookupFlat_def by (rule flat_search_safe[OF assms that]) simp
  ultimately show ?thesis
    unfolding mapped_lookup_def by (auto intro!: safe_bind mapped_postings_safe split: option.split)
qed

lemma iter_next_safe:
  assumes "field_ok b n mf"
  shows "safe (iter_next mf it)"
proof -
  have "safe (openBlock mf it)" if "mf_kind mf = dictBlocked" for it
    unfolding openBlock_def Let_def using firstTermAt_safe[OF assms that] by (auto intro!: safe_bind)
  moreover have "safe (extendPreviousTerm mf it)" for it
    unfolding extendPreviousTerm_def by (auto intro!: safe_bind stepFrontCoded_safe split: prod.split)
  moreover have "safe (readEntry mf it)" for it
    unfolding readEntry_def by (auto intro!: safe_bind)
  ultimately have "safe (nextBlocked mf it)" if "mf_kind mf = dictBlocked"
    unfolding nextBlocked_def using that by (auto intro!: safe_bind)
  then show ?thesis
    unfolding iter_next_def using entryAt_safe[OF assms] by (auto intro!: safe_bind split: prod.split)
qed

lemma each_from_safe: "field_ok b n mf \<Longrightarrow> safe (each_from mf it)"
proof (induction mf it rule: each_from.induct)
  case (1 mf it)
  have s: "safe (iter_next mf it)" using 1(2) by (rule iter_next_safe)
  show ?case
  proof (cases "iter_next mf it")
    case (Ret r)
    show ?thesis
    proof (cases r)
      case (Some it')
      have p: "safe (mapped_postings mf (it_postOff it') (it_count it'))" by (rule mapped_postings_safe)
      then show ?thesis
        using Ret Some 1(1)[OF Ret Some _ refl] 1(2)
        by (subst each_from.simps) (auto split: outcome.splits simp: safe_def)
    qed (use Ret in \<open>simp add: each_from.simps\<close>)
  qed (use s in \<open>simp_all add: each_from.simps\<close>)
qed

lemma validate_fields_safe: "list_all (field_ok b n) mfs \<Longrightarrow> safe (validate_fields mfs)"
  by (induction mfs) (auto simp: eachTerm_def intro!: safe_bind each_from_safe)

lemma docFreqRow_safe: "rows + 16 * cnt \<le> length (ms_blob s) \<Longrightarrow> i < cnt \<Longrightarrow> safe (docFreqRow s rows i)"
  unfolding docFreqRow_def Let_def by (auto intro!: safe_bind)

lemma docFreqRows_safe: "rows + 16 * cnt \<le> length (ms_blob s) \<Longrightarrow> i + n \<le> cnt \<Longrightarrow> safe (docFreqRows s rows i n)"
  by (induction n arbitrary: i) (auto intro!: safe_bind docFreqRow_safe)

lemma docFreqHeader_ok:
  assumes "df_ok (ms_blob s)"
  obtains cnt rows where "docFreqHeader s = Ret (cnt, rows)" "rows + 16 * cnt \<le> length (ms_blob s)"
  using assms by (auto simp: df_ok_def docFreqHeader_def)

lemma df_search_safe:
  "rows + 16 * cnt \<le> length (ms_blob s) \<Longrightarrow> hi \<le> cnt \<Longrightarrow> safe (df_search s rows t lo hi)"
proof (induction s rows t lo hi rule: df_search.induct)
  case (1 s rows t lo hi)
  show ?case
  proof (cases "lo < hi")
    case True
    have e: "safe (docFreqRow s rows ((lo + hi) div 2))" by (rule docFreqRow_safe[of _ cnt]) (use 1(3,4) True in auto)
    show ?thesis
    proof (cases "docFreqRow s rows ((lo + hi) div 2)")
      case (Ret r)
      then show ?thesis
        using 1(1,2)[OF True refl Ret] True 1(3,4) by (subst df_search.simps) (cases r, auto simp: Let_def)
    qed (use e True in \<open>simp_all add: df_search.simps\<close>)
  qed (simp add: df_search.simps)
qed

lemma segmentDocFreq_safe: "df_ok (ms_blob s) \<Longrightarrow> safe (segmentDocFreq s t)"
  by (erule docFreqHeader_ok) (auto simp: segmentDocFreq_def intro: df_search_safe)

lemma docFreqEach_safe: "df_ok (ms_blob s) \<Longrightarrow> safe (docFreqEach s)"
  by (erule docFreqHeader_ok) (auto simp: docFreqEach_def intro: docFreqRows_safe)

text \<open>A member whose empty span sits at the very end of the blob.\<close>

definition end_member :: "mappedSegment \<Rightarrow> nat \<Rightarrow> bool" where
  "end_member s i \<longleftrightarrow> i < ms_docCount s \<and> ms_memberOffsets s ! i = length (ms_blob s) \<and> ms_memberOffsets s ! (i + 1) = length (ms_blob s)"

lemma members_from_panic: "members_from s i n = Panic m \<Longrightarrow> i + n \<le> ms_docCount s \<Longrightarrow> \<exists>j. end_member s j"
proof (induction n arbitrary: i)
  case (Suc n)
  show ?case
  proof (cases "mapped_member s i")
    case (Ret x)
    then have "members_from s (i + 1) n = Panic m" using Suc.prems(1) by (cases "members_from s (i + 1) n") auto
    then show ?thesis using Suc.IH[of "i + 1"] Suc.prems(2) by simp
  next
    case (Panic m')
    then have "end_member s i" using Suc.prems(2)
      by (auto simp: mapped_member_def Let_def end_member_def RaiseCorruptIn_def split: if_splits)
    then show ?thesis by blast
  qed (use Suc.prems in auto)
qed simp



text \<open>A 48-byte payload with one member, whose span is empty and ends the blob, and no field.\<close>

definition end_member_blob :: "byte list" where
  "end_member_blob =
     [2, 0] @ put_le 2 0 @ put_le 4 1 @ put_le 4 32 @ put_le 4 48 @ put_le 4 40 @ put_le 4 40 @ put_le 4 48 @ put_le 4 0
     @ put_le 4 48 @ put_le 4 48 @ put_le 4 0 @ put_le 4 48"

definition end_member_seg :: mappedSegment where
  "end_member_seg = \<lparr>ms_blob = end_member_blob, ms_kind = 0, ms_docCount = 1, ms_memberOffsets = [48, 48], ms_fields = []\<rparr>"

lemma end_member_opens: "openSegmentV2 end_member_blob = Ret end_member_seg"
  by code_simp


text \<open>
  C35: \<open>ValidateSegment\<close>'s containment has a hole: the payload \<open>end_member_blob\<close> opens, and validating it
  ends in a runtime panic and not in a \<open>CorruptSegmentError\<close>, because \<open>member\<close>'s guard admits an empty
  span at the end of the blob and then indexes there.
\<close>

theorem validate_end_member_panics:
  "(\<exists>s. openSegmentV2 end_member_blob = Ret s) \<and> (\<exists>m. ValidateSegment sid end_member_blob = Panic m)"
proof -
  have "\<exists>m. ValidateSegment sid end_member_blob = Panic m"
    unfolding ValidateSegment_def validate_body_def end_member_opens end_member_seg_def
    by (simp add: mapped_IDs_def mapped_member_def bounds_panic_def end_member_blob_def)
  then show ?thesis using end_member_opens by blast
qed

end
