(* ===== verification/Bm25Roundtrip.thy ===== *)
theory Bm25Roundtrip
  imports Bm25Mapped
begin

text \<open>
  The offset reader over an encoded blob and the accumulator it was encoded from: each of the three
  dictionary encodings answers a lookup with the accumulator's posting list and iterates its terms in
  ascending order, opening recovers members, lengths, configurations and totals, and the
  document-frequency dictionary answers the accumulator's frequencies. The front-coded encoding stores
  16-bit lengths, and the round trip of one entry holds exactly when they fit.
\<close>

section \<open>Reading back a store\<close>

lemma holds_rd:
  assumes "holds b (Put off (put_le k v))" "v < 256 ^ k"
  shows "rd k b off = Ret v"
  using assms by (simp add: holds_def rd_def get_le_put_le_id)

lemma holds_rd32: "holds b (put32 off v) \<Longrightarrow> v < 2 ^ 32 \<Longrightarrow> rd32 b off = Ret v"
  by (rule holds_rd) simp_all

lemma holds_rd16: "holds b (put16 off v) \<Longrightarrow> v < 2 ^ 16 \<Longrightarrow> rd16 b off = Ret v"
  by (rule holds_rd) simp_all

lemma holds_rd64: "holds b (put64 off v) \<Longrightarrow> v < 2 ^ 64 \<Longrightarrow> rd64 b off = Ret v"
  by (rule holds_rd) simp_all

lemma holds_cpy:
  "holds b (cpy off s) \<Longrightarrow> off + length s \<le> length b \<and> string_of (take (length s) (drop off b)) = s"
  by (simp add: holds_def)

lemma holds_termView: "holds b (cpy off s) \<Longrightarrow> termView sid b off (length s) what = Ret s"
  using holds_cpy[of b off s] by (auto simp: termView_def)

lemma holds_words:
  assumes "\<And>i. i < n \<Longrightarrow> holds b (Put (off + k * i) (put_le k (v i)))" "\<And>i. i < n \<Longrightarrow> v i < 256 ^ k" "0 < k"
  shows "words_at k b off n = Ret (map v [0..<n])"
proof (cases "n = 0")
  case False
  have "off < length b" using assms(1)[of 0] assms(3) False by (simp add: holds_def)
  moreover have "get_le (take k (drop (off + k * i) b)) = v i" if "i < n" for i
    using assms(1,2)[OF that] by (simp add: holds_def get_le_put_le_id)
  ultimately show ?thesis using False by (auto simp: words_at_def)
qed (simp add: words_at_def)

section \<open>Strictly ascending entries\<close>

abbreviation ascending :: "dict_entry list \<Rightarrow> bool" where
  "ascending es \<equiv> sorted_wrt (<) (map fst es)"

lemma ascending_nth: "ascending es \<Longrightarrow> i < j \<Longrightarrow> j < length es \<Longrightarrow> fst (es ! i) < fst (es ! j)"
  using sorted_wrt_nth_less[of "(<)" "map fst es" i j] by simp

lemma ascending_map_of:
  assumes "ascending es" "i < length es"
  shows "map_of es (fst (es ! i)) = Some (snd (es ! i))"
proof -
  have "distinct (map fst es)" using assms(1) by (simp add: strict_sorted_iff)
  then show ?thesis using assms(2) by (simp add: map_of_is_SomeI)
qed

lemma map_of_None_index: "(\<And>i. i < length es \<Longrightarrow> fst (es ! i) \<noteq> t) \<Longrightarrow> map_of es t = None"
  by (force simp: map_of_eq_None_iff in_set_conv_nth)

section \<open>The flat encoding\<close>

lemma flat_search_exact:
  assumes "ascending es" "\<And>i. i < length es \<Longrightarrow> entryAt mf i = Ret (es ! i)" "hi \<le> length es"
    and "\<And>i. i < lo \<Longrightarrow> fst (es ! i) < t" "\<And>i. hi \<le> i \<Longrightarrow> i < length es \<Longrightarrow> t < fst (es ! i)"
  shows "flat_search mf t lo hi = Ret (map_of es t)"
  using assms
proof (induction mf t lo hi rule: flat_search.induct)
  case (1 mf t lo hi)
  show ?case
  proof (cases "lo < hi")
    case True
    let ?mid = "(lo + hi) div 2"
    obtain got off cnt where e: "es ! ?mid = (got, off, cnt)" by (cases "es ! ?mid")
    have mid: "?mid < length es" "entryAt mf ?mid = Ret (got, off, cnt)" using True 1(4,5) e by auto
    have below: "fst (es ! i) < t" if "i < ?mid + 1" "got < t" for i
      using ascending_nth[OF 1(3), of i ?mid] that e mid(1) by (cases "i = ?mid") auto
    have above: "t < fst (es ! i)" if "?mid \<le> i" "i < length es" "t < got" for i
      using ascending_nth[OF 1(3), of ?mid i] that e by (cases "i = ?mid") auto
    have eq: "got = t \<Longrightarrow> map_of es t = Some (off, cnt)" using ascending_map_of[OF 1(3) mid(1)] e by simp
    have lt: "flat_search mf t (?mid + 1) hi = Ret (map_of es t)" if "got < t"
      using 1(1)[OF True refl mid(2) refl refl] that 1(3-7) below by auto
    have gt: "flat_search mf t lo ?mid = Ret (map_of es t)" if "got \<noteq> t" "\<not> got < t"
      using 1(2)[OF True refl mid(2) refl refl that] 1(3-7) above that mid(1) by auto
    show ?thesis using True mid eq lt gt by (subst flat_search.simps) (simp add: Let_def)
  next
    case False
    have "fst (es ! i) \<noteq> t" if "i < length es" for i using 1(6)[of i] 1(7)[of i] that False by (cases "i < lo") auto
    then show ?thesis using False by (simp add: flat_search.simps map_of_None_index)
  qed
qed

lemma flat_row_read:
  assumes "holds b (cpy termOff t)" "holds b (put32 row termOff)" "holds b (put32 (row + 4) (length t))"
    "holds b (put32 (row + 8) po)" "holds b (put32 (row + 12) pc)"
    and "row = mf_entriesOff mf + 16 * i" "mf_blob mf = b" "length b < 2 ^ 32" "po < 2 ^ 32" "pc < 2 ^ 32"
  shows "entryAt mf i = Ret (t, po, pc)"
proof -
  have "termOff < 2 ^ 32" "length t < 2 ^ 32" using holds_cpy[OF assms(1)] assms(8) by auto
  then show ?thesis
    using assms holds_termView[OF assms(1)] by (simp add: entryAt_def Let_def holds_rd32 del: power_numeral)
qed

lemma flat_entries_read:
  assumes "\<And>w. w \<in> set (writeFlatEntries d es) \<Longrightarrow> holds b w" "mf_blob mf = b" "mf_entriesOff mf = d_entriesOff d"
    and "length b < 2 ^ 32" "\<And>e. e \<in> set es \<Longrightarrow> fst (snd e) < 2 ^ 32 \<and> snd (snd e) < 2 ^ 32" "i < length es"
  shows "entryAt mf i = Ret (es ! i)"
proof -
  obtain t po pc where e: "es ! i = (t, po, pc)" by (cases "es ! i")
  have "set (flat_entry_stores (d_entriesOff d) i (d_termOff d ! i) (es ! i)) \<subseteq> set (writeFlatEntries d es)"
    using assms(6) by (auto simp: writeFlatEntries_def)
  then have "\<And>w. w \<in> set (flat_entry_stores (d_entriesOff d) i (d_termOff d ! i) (es ! i)) \<Longrightarrow> holds b w" using assms(1) by blast
  moreover have "po < 2 ^ 32" "pc < 2 ^ 32" using assms(5)[OF nth_mem[OF assms(6)]] e by auto
  ultimately have "entryAt mf i = Ret (t, po, pc)"
    using assms(2-4) e
    by (intro flat_row_read[of b "d_termOff d ! i" _ "d_entriesOff d + 16 * i"]) (simp_all add: flat_entry_stores_def Let_def nth_mem)
  then show ?thesis by (simp add: e)
qed

section \<open>The hash encoding\<close>

lemma hash_search_probe:
  assumes "\<And>s. s < length table \<Longrightarrow> rd32 (mf_blob mf) (mf_slotsOff mf + 8 * s) = Ret (fst (table ! s))
             \<and> rd32 (mf_blob mf) (mf_slotsOff mf + 8 * s + 4) = Ret (snd (table ! s))"
    and "\<And>i. i < length es \<Longrightarrow> entryAt mf i = Ret (es ! i)"
    and "mf_slotCount mf = length table" "mf_termCount mf = length es" "0 < length table" "length table < 2 ^ 64"
  shows "slot < length table \<Longrightarrow> hash_search mf t slot n =
     Ret (map_option (\<lambda>i. snd (es ! i)) (probe_slots n table slot (fingerprint (termHash t)) (row_hit (map fst es) t)))"
proof (induction n arbitrary: slot)
  case (Suc n)
  obtain fp idx where s: "table ! slot = (fp, idx)" by (cases "table ! slot")
  have r: "rd32 (mf_blob mf) (mf_slotsOff mf + 8 * slot) = Ret fp" "rd32 (mf_blob mf) (mf_slotsOff mf + 8 * slot + 4) = Ret idx"
    using assms(1)[OF Suc.prems] s by auto
  have IH: "hash_search mf t (next_slot (length table) slot) n =
     Ret (map_option (\<lambda>i. snd (es ! i)) (probe_slots n table (next_slot (length table) slot) (fingerprint (termHash t)) (row_hit (map fst es) t)))"
    by (rule Suc.IH) (use assms(5,6) next_slot_lt(1) in auto)
  show ?case
  proof (cases "idx < length es")
    case True
    obtain g o' c where e: "es ! idx = (g, o', c)" by (cases "es ! idx")
    have "row_hit (map fst es) t idx \<longleftrightarrow> g = t" using True e by (simp add: row_hit_def)
    then show ?thesis using True r s e IH assms(2)[OF True] assms(3,4) by (simp add: Let_def)
  next
    case False
    then have "\<not> row_hit (map fst es) t idx" by (simp add: row_hit_def)
    then show ?thesis using False r s IH assms(3,4) by (simp add: Let_def)
  qed
qed simp

lemma lookupHash_exact:
  assumes "\<And>s. s < length table \<Longrightarrow> rd32 (mf_blob mf) (mf_slotsOff mf + 8 * s) = Ret (fst (table ! s))
             \<and> rd32 (mf_blob mf) (mf_slotsOff mf + 8 * s + 4) = Ret (snd (table ! s))"
    and "\<And>i. i < length es \<Longrightarrow> entryAt mf i = Ret (es ! i)"
    and "mf_slotCount mf = length table" "mf_termCount mf = length es" "0 < length table" "length table < 2 ^ 64"
    and "hashTable (map fst es) = Some table" "ascending es" "length es \<le> hashEmptySlot"
  shows "lookupHash mf t = Ret (map_of es t)"
proof -
  have "lookupHash mf t = Ret (map_option (\<lambda>i. snd (es ! i)) (probeTable table t (row_hit (map fst es) t)))"
    using hash_search_probe[OF assms(1-6), of "home_slot (length table) (termHash t)"] next_slot_lt(2)[OF assms(5,6)] assms(3,5)
    by (simp add: lookupHash_def probeTable_def)
  moreover have "map_option (\<lambda>i. snd (es ! i)) (probeTable table t (row_hit (map fst es) t)) = map_of es t"
  proof (cases "t \<in> set (map fst es)")
    case True
    then obtain i where i: "i < length es" "fst (es ! i) = t" by (auto simp: in_set_conv_nth)
    then show ?thesis
      using probeTable_correct(1)[OF assms(7), of i] ascending_map_of[OF assms(8), of i] assms(8,9) by (simp add: strict_sorted_iff)
  next
    case False
    then show ?thesis
      using probeTable_correct(2)[OF assms(7), of t] assms(8,9) by (simp add: strict_sorted_iff map_of_eq_None_iff[THEN iffD2])
  qed
  ultimately show ?thesis by simp
qed

section \<open>The front-coded encoding\<close>

lemma sharedPrefixLen_le: "sharedPrefixLen a b \<le> length a \<and> sharedPrefixLen a b \<le> length b"
  by (induction a b rule: sharedPrefixLen.induct) auto

lemma take_sharedPrefixLen: "take (sharedPrefixLen a b) a = take (sharedPrefixLen a b) b"
  by (induction a b rule: sharedPrefixLen.induct) auto

lemma front_code_id: "take (sharedPrefixLen prev t) prev @ drop (sharedPrefixLen prev t) t = t"
  by (metis append_take_drop_id take_sharedPrefixLen)

text \<open>The stores of one front-coded entry before its posting pointer.\<close>

definition coded_header :: "nat \<Rightarrow> string \<Rightarrow> string \<Rightarrow> bstore list" where
  "coded_header at prev t =
     [put16 at (sharedPrefixLen prev t), put16 (at + 2) (length (drop (sharedPrefixLen prev t) t)),
      cpy (at + 4) (drop (sharedPrefixLen prev t) t)]"

lemma coded_stores_header:
  "coded_stores at prev ((t, po, pc) # es) =
     coded_header at prev t
     @ [put32 (at + 4 + length (drop (sharedPrefixLen prev t) t)) po, put32 (at + 4 + length (drop (sharedPrefixLen prev t) t) + 4) pc]
     @ coded_stores (at + 4 + length (drop (sharedPrefixLen prev t) t) + 8) t es"
  by (simp add: coded_header_def Let_def)

lemma stepFrontCoded_exact:
  assumes "\<And>w. w \<in> set (coded_header at prev t) \<Longrightarrow> holds b w"
    and "sharedPrefixLen prev t < 65536" "length (drop (sharedPrefixLen prev t) t) < 65536"
  shows "stepFrontCoded sid b at prev = Ret (t, at + 4 + length (drop (sharedPrefixLen prev t) t))"
proof -
  define sh where "sh = sharedPrefixLen prev t"
  define x where "x = drop sh t"
  have r: "rd16 b at = Ret sh" "rd16 b (at + 2) = Ret (length x)"
    by (rule holds_rd16, use assms in \<open>simp_all add: coded_header_def sh_def x_def\<close>)+
  have c: "at + 4 + length x \<le> length b" "string_of (take (length x) (drop (at + 4) b)) = x"
    using holds_cpy[of b "at + 4" x] assms(1)[of "cpy (at + 4) x"] by (auto simp: coded_header_def sh_def x_def)
  have "sh \<le> length prev" "take sh prev @ x = t"
    using sharedPrefixLen_le[of prev t] front_code_id[of prev t] by (simp_all add: sh_def x_def)
  moreover have "at + 4 \<le> length b" using c(1) by (rule add_leD1)
  ultimately have "stepFrontCoded sid b at prev = Ret (t, at + 4 + length x)"
    using r c by (simp add: stepFrontCoded_def)
  then show ?thesis by (simp only: x_def sh_def)
qed

text \<open>
  C34: Where the stores of a front-coded entry survive in the blob, the decoder gives back the term and
  the offset just past it exactly when the shared prefix and the stored suffix are both shorter than
  65,536 bytes; the writer checks neither, so a longer one decodes to something else.
\<close>

theorem front_code_roundtrip_iff:
  assumes "list_all (holds b) (coded_header at prev t)"
  shows "stepFrontCoded sid b at prev = Ret (t, at + 4 + length (drop (sharedPrefixLen prev t) t))
     \<longleftrightarrow> sharedPrefixLen prev t < 65536 \<and> length (drop (sharedPrefixLen prev t) t) < 65536"
proof
  let ?s = "sharedPrefixLen prev t" and ?x = "drop (sharedPrefixLen prev t) t"
  have h: "holds b (put16 at ?s)" "holds b (put16 (at + 2) (length ?x))" using assms by (simp_all add: coded_header_def)
  have r: "rd16 b at = Ret (?s mod 65536)" "rd16 b (at + 2) = Ret (length ?x mod 65536)"
    using h by (simp_all add: holds_def rd_def get_le_put_le)
  assume d: "stepFrontCoded sid b at prev = Ret (t, at + 4 + length ?x)"
  then have n: "length ?x mod 65536 = length ?x" and
    t: "take (?s mod 65536) prev @ string_of (take (length ?x mod 65536) (drop (at + 4) b)) = t" and
    le: "?s mod 65536 \<le> length prev" "at + 4 + length ?x mod 65536 \<le> length b"
    using r by (auto simp: stepFrontCoded_def RaiseCorruptIn_def split: if_splits)
  have "length (take (?s mod 65536) prev) = ?s mod 65536" "length (take (length ?x mod 65536) (drop (at + 4) b)) = length ?x mod 65536"
    using le by (simp_all only: length_take length_drop)
  then have "length t = ?s mod 65536 + length ?x mod 65536"
    using arg_cong[OF t, of length] unfolding length_append string_of_def length_map by linarith
  moreover have "length t = ?s + length ?x" using sharedPrefixLen_le[of prev t] by simp
  ultimately have "?s mod 65536 = ?s" using n by linarith
  then show "?s < 65536 \<and> length ?x < 65536" using n by (metis mod_less_divisor zero_less_numeral)
next
  assume "sharedPrefixLen prev t < 65536 \<and> length (drop (sharedPrefixLen prev t) t) < 65536"
  then show "stepFrontCoded sid b at prev = Ret (t, at + 4 + length (drop (sharedPrefixLen prev t) t))"
    using assms by (intro stepFrontCoded_exact) (auto simp: list_all_iff)
qed

theorem front_code_roundtrip_iff_witness:
  "list_all (holds (put_le 2 0 @ put_le 2 2 @ bytes_of ''ab'')) (coded_header 0 [] ''ab'')
   \<and> stepFrontCoded ''s'' (put_le 2 0 @ put_le 2 2 @ bytes_of ''ab'') 0 [] = Ret (''ab'', 6)"
proof -
  have h: "list_all (holds (put_le 2 0 @ put_le 2 2 @ bytes_of ''ab'')) (coded_header 0 [] ''ab'')" by code_simp
  then show ?thesis using front_code_roundtrip_iff[OF h, of "''s''"] by simp
qed

definition entry_fits :: "dict_entry \<Rightarrow> bool" where
  "entry_fits e \<longleftrightarrow> length (fst e) < 65536 \<and> fst (snd e) < 2 ^ 32 \<and> snd (snd e) < 2 ^ 32"

lemma fits_coded:
  "entry_fits (t, po, pc) \<Longrightarrow> sharedPrefixLen prev t < 65536 \<and> length (drop (sharedPrefixLen prev t) t) < 65536"
  using sharedPrefixLen_le[of prev t] by (auto simp: entry_fits_def)

lemma blockEntry_read:
  "holds (mf_blob mf) (put32 at po) \<Longrightarrow> holds (mf_blob mf) (put32 (at + 4) pc) \<Longrightarrow> po < 2 ^ 32 \<Longrightarrow> pc < 2 ^ 32 \<Longrightarrow> blockEntry mf at = Ret (po, pc)"
  using holds_rd32[of "mf_blob mf" "at" po] holds_rd32[of "mf_blob mf" "at + 4" pc] by (simp add: blockEntry_def holds_def)

lemma scan_coded_exact:
  assumes "\<And>w. w \<in> set (coded_stores at prev es) \<Longrightarrow> holds (mf_blob mf) w" "list_all entry_fits es" "ascending es"
  shows "scan_coded mf t prev at (length es) = Ret (map_of es t)"
  using assms
proof (induction "at" prev es rule: coded_stores.induct)
  case (2 at prev u po pc es)
  let ?at = "at + 4 + length (drop (sharedPrefixLen prev u) u)"
  note h = "2.prems"(1)[unfolded coded_stores_header]
  have f: "sharedPrefixLen prev u < 65536 \<and> length (drop (sharedPrefixLen prev u) u) < 65536" "po < 2 ^ 32" "pc < 2 ^ 32"
    using fits_coded "2.prems"(2) by (auto simp: entry_fits_def)
  have step: "stepFrontCoded (segmentID mf) (mf_blob mf) at prev = Ret (u, ?at)"
    by (rule stepFrontCoded_exact) (use h f in simp_all)
  have e: "blockEntry mf ?at = Ret (po, pc)"
    by (rule blockEntry_read) (use h f in simp_all)
  have IH: "scan_coded mf t u (?at + 8) (length es) = Ret (map_of es t)"
    by (rule "2.IH"[OF refl refl refl]) (use h "2.prems"(2,3) in simp_all)
  have "map_of es t = None" if "u > t"
    using that "2.prems"(3) by (auto simp: map_of_eq_None_iff)
  then show ?case using step e IH by (cases u t rule: linorder_cases) (auto dest: order.asym)
qed simp

section \<open>Finding the block\<close>

lemma block_slice_length: "length (block_slice k es) = min (k * blockedBlockTerms + blockedBlockTerms) (length es) - k * blockedBlockTerms"
  by (auto simp: block_slice_def)

lemma block_slice_nth: "j < blockedBlockTerms \<Longrightarrow> k * blockedBlockTerms + j < length es \<Longrightarrow> block_slice k es ! j = es ! (k * blockedBlockTerms + j)"
  by (simp add: block_slice_def)

lemma block_slice_ascending: "ascending es \<Longrightarrow> ascending (block_slice k es)"
  by (simp add: block_slice_def drop_map[symmetric] take_map[symmetric] sorted_wrt_take sorted_wrt_drop)

lemma block_slice_subset: "set (block_slice k es) \<subseteq> set es"
  unfolding block_slice_def by (meson order_trans set_drop_subset set_take_subset)

lemma block_search_exact:
  assumes "\<And>k. k < n \<Longrightarrow> firstTermAt mf k = Ret (f k)" "\<And>i j. i < j \<Longrightarrow> j < n \<Longrightarrow> f i < f j" "hi \<le> n"
    and "\<And>k. k < lo \<Longrightarrow> f k \<le> t" "\<And>k. hi \<le> k \<Longrightarrow> k < n \<Longrightarrow> t < f k" "lo \<le> hi"
  shows "\<exists>r. block_search mf t lo hi = Ret r \<and> r \<le> n \<and> (\<forall>k < r. f k \<le> t) \<and> (\<forall>k. r \<le> k \<longrightarrow> k < n \<longrightarrow> t < f k)"
  using assms
proof (induction mf t lo hi rule: block_search.induct)
  case (1 mf t lo hi)
  show ?case
  proof (cases "lo < hi")
    case True
    let ?mid = "(lo + hi) div 2"
    have mid: "?mid < n" "firstTermAt mf ?mid = Ret (f ?mid)" using True 1(3,5) by auto
    show ?thesis
    proof (cases "f ?mid \<le> t")
      case le: True
      have "f k \<le> t" if "k < ?mid + 1" for k
        using 1(4)[of k ?mid] that le mid(1) by (cases "k = ?mid") (auto intro: less_imp_le order_trans)
      then have "\<exists>r. block_search mf t (?mid + 1) hi = Ret r \<and> r \<le> n \<and> (\<forall>k < r. f k \<le> t) \<and> (\<forall>k. r \<le> k \<longrightarrow> k < n \<longrightarrow> t < f k)"
        using 1(1)[OF True refl mid(2) le] 1(3-5,7) True by auto
      then show ?thesis using True mid le by (subst block_search.simps) (simp add: Let_def)
    next
      case gt: False
      have "t < f k" if "?mid \<le> k" "k < n" for k
        using 1(4)[of ?mid k] that gt by (cases "k = ?mid") auto
      then have "\<exists>r. block_search mf t lo ?mid = Ret r \<and> r \<le> n \<and> (\<forall>k < r. f k \<le> t) \<and> (\<forall>k. r \<le> k \<longrightarrow> k < n \<longrightarrow> t < f k)"
        using 1(2)[OF True refl mid(2) gt] 1(3,4,6) True mid(1) by auto
      then show ?thesis using True mid gt by (subst block_search.simps) (simp add: Let_def)
    qed
  qed (use 1(5-8) in \<open>auto simp: block_search.simps\<close>)
qed

text \<open>A term of an ascending dictionary lies in the last block whose first term does not exceed it.\<close>

lemma block_of_term:
  assumes "ascending es" "r < blockCountOf (length es)" "fst (es ! (r * blockedBlockTerms)) \<le> t"
    and "\<And>k. r < k \<Longrightarrow> k < blockCountOf (length es) \<Longrightarrow> t < fst (es ! (k * blockedBlockTerms))"
  shows "map_of (block_slice r es) t = map_of es t"
proof (cases "\<exists>i < length es. fst (es ! i) = t")
  case True
  then obtain i where i: "i < length es" "fst (es ! i) = t" by blast
  let ?k = "i div blockedBlockTerms"
  have bt: "0 < blockedBlockTerms" by (simp add: blockedBlockTerms_def)
  have kb: "?k * blockedBlockTerms \<le> i" "i < ?k * blockedBlockTerms + blockedBlockTerms"
    using div_mult_mod_eq[of i blockedBlockTerms] mod_less_divisor[OF bt, of i] by linarith+
  have k: "?k < blockCountOf (length es)"
    using i(1) kb(1) unfolding blockCountOf_def blockedBlockTerms_def by linarith
  have "fst (es ! (?k * blockedBlockTerms)) \<le> t"
    using ascending_nth[OF assms(1), of "?k * blockedBlockTerms" i] kb(1) i by (cases "?k * blockedBlockTerms = i") auto
  then have "\<not> r < ?k" using assms(4)[of ?k] k by auto
  moreover have "\<not> ?k < r"
  proof
    assume "?k < r"
    then have "(?k + 1) * blockedBlockTerms \<le> r * blockedBlockTerms" by (intro mult_right_mono) auto
    then have "i < r * blockedBlockTerms" using kb(2) by simp
    then show False
      using ascending_nth[OF assms(1), of i "r * blockedBlockTerms"] block_start[OF assms(2)] i(2) assms(3) by auto
  qed
  ultimately have kr: "?k = r" by simp
  let ?j = "i mod blockedBlockTerms"
  have j: "block_slice r es ! ?j = es ! i" "?j < length (block_slice r es)"
    using block_slice_nth[of ?j r es] bt i(1) kb kr div_mult_mod_eq[of i blockedBlockTerms] by (simp_all add: block_slice_length)
  have "map_of (block_slice r es) t = Some (snd (es ! i))"
    using ascending_map_of[OF block_slice_ascending[OF assms(1)] j(2)] j(1) i(2) by simp
  then show ?thesis using ascending_map_of[OF assms(1) i(1)] i(2) by simp
next
  case False
  then have "map_of es t = None" by (intro map_of_None_index) auto
  moreover have "map_of (block_slice r es) t = None"
    using calculation block_slice_subset[of r es] by (auto simp: map_of_eq_None_iff)
  ultimately show ?thesis by simp
qed


text \<open>What a field's reader sees of a front-coded dictionary: first terms, block offsets, payloads.\<close>

definition blocked_view :: "mappedField \<Rightarrow> dict_entry list \<Rightarrow> bool" where
  "blocked_view mf es \<longleftrightarrow> mf_kind mf = dictBlocked \<and> mf_termCount mf = length es \<and> mf_blockCount mf = blockCountOf (length es)
   \<and> ascending es \<and> list_all entry_fits es
   \<and> (\<forall>k < blockCountOf (length es).
        firstTermAt mf k = Ret (fst (es ! (k * blockedBlockTerms)))
      \<and> (\<exists>at. rd32 (mf_blob mf) (mf_blockIdxOff mf + 4 * k) = Ret at
           \<and> (\<forall>w \<in> set (writeBlockedPayload at (block_slice k es)). holds (mf_blob mf) w)))"

lemma block_slice_Cons:
  assumes "k < blockCountOf (length es)"
  obtains t po pc rest where "block_slice k es = (t, po, pc) # rest" "es ! (k * blockedBlockTerms) = (t, po, pc)"
    "length rest = min (k * blockedBlockTerms + blockedBlockTerms) (length es) - k * blockedBlockTerms - 1"
proof -
  have lt: "k * blockedBlockTerms < length es" by (rule block_start[OF assms])
  then have "0 < length (block_slice k es)" by (simp add: block_slice_length) (simp add: blockedBlockTerms_def)
  then obtain e rest where e: "block_slice k es = e # rest" by (cases "block_slice k es") auto
  have "e = es ! (k * blockedBlockTerms)" using block_slice_nth[of 0 k es] e lt by (simp add: blockedBlockTerms_def)
  moreover have "length rest = min (k * blockedBlockTerms + blockedBlockTerms) (length es) - k * blockedBlockTerms - 1"
    using arg_cong[OF e, of length] by (simp add: block_slice_length)
  ultimately show ?thesis using that e by (metis prod_cases3)
qed

lemma scanBlock_exact:
  assumes "blocked_view mf es" "k < blockCountOf (length es)"
  shows "scanBlock mf k t = Ret (map_of (block_slice k es) t)"
proof -
  obtain u po pc rest where b: "block_slice k es = (u, po, pc) # rest" "es ! (k * blockedBlockTerms) = (u, po, pc)"
    "length rest = min (k * blockedBlockTerms + blockedBlockTerms) (length es) - k * blockedBlockTerms - 1"
    using block_slice_Cons[OF assms(2)] by blast
  obtain "at" where a: "rd32 (mf_blob mf) (mf_blockIdxOff mf + 4 * k) = Ret at"
    "\<And>w. w \<in> set (writeBlockedPayload at (block_slice k es)) \<Longrightarrow> holds (mf_blob mf) w" and f: "firstTermAt mf k = Ret u"
    using assms b(2) by (auto simp: blocked_view_def)
  have es: "list_all entry_fits (block_slice k es)" "ascending (block_slice k es)" "mf_termCount mf = length es"
    using assms(1) block_slice_subset[of k es] by (auto simp: blocked_view_def list_all_iff block_slice_ascending)
  have pay: "\<And>w. w \<in> set ([put32 at po, put32 (at + 4) pc] @ coded_stores (at + 8) u rest) \<Longrightarrow> holds (mf_blob mf) w"
    using a(2) unfolding b(1) by (simp add: writeBlockedPayload_def)
  have e: "blockEntry mf at = Ret (po, pc)"
    by (rule blockEntry_read) (use pay es(1) b(1) in \<open>simp_all add: entry_fits_def\<close>)
  have s: "scan_coded mf t u (at + 8) (length rest) = Ret (map_of rest t)"
    by (rule scan_coded_exact) (use pay es b(1) in simp_all)
  have i: "mf_blockIdxOff mf + 4 * k + 4 \<le> length (mf_blob mf)" using a(1) by (simp add: rd_Ret_iff)
  show ?thesis using a(1) f e s i es(3) b by (simp add: scanBlock_def Let_def)
qed

lemma lookupBlocked_exact:
  assumes "blocked_view mf es"
  shows "lookupBlocked mf t = Ret (map_of es t)"
proof -
  let ?n = "blockCountOf (length es)" and ?f = "\<lambda>k. fst (es ! (k * blockedBlockTerms))"
  have asc: "ascending es" using assms by (simp add: blocked_view_def)
  have mono: "?f i < ?f j" if "i < j" "j < ?n" for i j
    using that block_start[OF that(2)] by (intro ascending_nth[OF asc]) (auto simp: blockedBlockTerms_def)
  obtain r where r: "block_search mf t 0 ?n = Ret r" "r \<le> ?n" "\<And>k. k < r \<Longrightarrow> ?f k \<le> t" "\<And>k. r \<le> k \<Longrightarrow> k < ?n \<Longrightarrow> t < ?f k"
    using block_search_exact[of ?n mf ?f ?n 0 t] assms mono by (auto simp: blocked_view_def)
  have cnt: "mf_blockCount mf = ?n" using assms by (simp add: blocked_view_def)
  show ?thesis
  proof (cases r)
    case 0
    have "fst (es ! i) \<noteq> t" if i: "i < length es" for i
    proof -
      have "0 < ?n" using i by (simp add: blockCountOf_def blockedBlockTerms_def)
      then have "t < fst (es ! 0)" using r(4)[of 0] 0 by simp
      then show ?thesis using ascending_nth[OF asc, of 0 i] i by (cases "i = 0") auto
    qed
    then have "map_of es t = None" by (intro map_of_None_index)
    then show ?thesis using 0 r(1) cnt by (simp add: lookupBlocked_def)
  next
    case (Suc q)
    then have "q < ?n" "?f q \<le> t" using r(2,3) by auto
    moreover have "map_of (block_slice q es) t = map_of es t"
      by (rule block_of_term[OF asc]) (use calculation Suc r(4) in auto)
    ultimately show ?thesis using scanBlock_exact[OF assms, of q t] Suc r(1) cnt by (simp add: lookupBlocked_def)
  qed
qed

section \<open>Iterating\<close>

definition view_at :: "mappedField \<Rightarrow> dict_entry list \<Rightarrow> dictIter \<Rightarrow> bool" where
  "view_at mf es it \<longleftrightarrow> it_idx it \<le> length es \<and> mf_termCount mf = length es \<and>
     (if mf_kind mf = dictBlocked
      then blocked_view mf es \<and> (it_idx it mod blockedBlockTerms \<noteq> 0 \<longrightarrow>
        it_scratch it = fst (es ! (it_idx it - 1)) \<and> (\<forall>w \<in> set (coded_stores (it_at it) (it_scratch it)
          (drop (it_idx it mod blockedBlockTerms) (block_slice (it_idx it div blockedBlockTerms) es))). holds (mf_blob mf) w))
      else (\<forall>i < length es. entryAt mf i = Ret (es ! i)))"

lemma readEntry_read:
  assumes "holds (mf_blob mf) (put32 (it_at it) po)" "holds (mf_blob mf) (put32 (it_at it + 4) pc)" "po < 2 ^ 32" "pc < 2 ^ 32"
  shows "readEntry mf it = Ret (it\<lparr>it_postOff := po, it_count := pc, it_at := it_at it + 8\<rparr>)"
  using holds_rd32[OF assms(1)] holds_rd32[OF assms(2)] assms by (simp add: readEntry_def holds_def)

lemma drop_block:
  assumes "i < length es"
  shows "drop (i mod blockedBlockTerms) (block_slice (i div blockedBlockTerms) es)
       = es ! i # drop (i mod blockedBlockTerms + 1) (block_slice (i div blockedBlockTerms) es)"
proof -
  let ?j = "i mod blockedBlockTerms" and ?k = "i div blockedBlockTerms"
  have bt: "0 < blockedBlockTerms" by (simp add: blockedBlockTerms_def)
  have i: "?k * blockedBlockTerms + ?j = i" "?j < blockedBlockTerms" using bt by simp_all
  have "?j < length (block_slice ?k es)" unfolding block_slice_length using assms i by linarith
  then show ?thesis using block_slice_nth[of ?j ?k es] i assms by (simp add: Cons_nth_drop_Suc[symmetric])
qed

lemma index_succ:
  "(i + 1) mod blockedBlockTerms \<noteq> 0 \<Longrightarrow> (i + 1) mod blockedBlockTerms = i mod blockedBlockTerms + 1 \<and> (i + 1) div blockedBlockTerms = i div blockedBlockTerms"
  by (auto simp: mod_Suc div_Suc blockedBlockTerms_def split: if_splits)

lemma index_block: "i < length es \<Longrightarrow> i div blockedBlockTerms < blockCountOf (length es)"
  by (simp add: blockCountOf_def blockedBlockTerms_def div_less_iff_less_mult)

lemma nextBlocked_exact:
  assumes "view_at mf es it" "it_idx it < length es" "mf_kind mf = dictBlocked" "es ! it_idx it = (t, po, pc)"
  shows "\<exists>pos. nextBlocked mf it = Ret (it\<lparr>it_scratch := t, it_at := pos, it_postOff := po, it_count := pc, it_term := t\<rparr>)
     \<and> (\<forall>w \<in> set (coded_stores pos t (drop (it_idx it mod blockedBlockTerms + 1) (block_slice (it_idx it div blockedBlockTerms) es))). holds (mf_blob mf) w)"
proof -
  let ?i = "it_idx it" and ?k = "it_idx it div blockedBlockTerms"
  have v: "blocked_view mf es" using assms(1,3) by (simp add: view_at_def)
  have fits: "entry_fits (t, po, pc)" using v assms(2,4) by (metis blocked_view_def list_all_length)
  then have p: "po < 2 ^ 32" "pc < 2 ^ 32" by (simp_all add: entry_fits_def)
  have k: "?k < blockCountOf (length es)" by (rule index_block[OF assms(2)])
  show ?thesis
  proof (cases "?i mod blockedBlockTerms = 0")
    case True
    then have ki: "?k * blockedBlockTerms = ?i" using div_mult_mod_eq[of ?i blockedBlockTerms] by simp
    obtain "at" where a: "rd32 (mf_blob mf) (mf_blockIdxOff mf + 4 * ?k) = Ret at" and f: "firstTermAt mf ?k = Ret t" and
      w: "\<And>w. w \<in> set (writeBlockedPayload at (block_slice ?k es)) \<Longrightarrow> holds (mf_blob mf) w"
      using v k ki assms(4) by (auto simp: blocked_view_def)
    have bs: "block_slice ?k es = (t, po, pc) # drop 1 (block_slice ?k es)" using drop_block[OF assms(2)] True assms(4) by simp
    have pay: "\<And>w. w \<in> set ([put32 at po, put32 (at + 4) pc] @ coded_stores (at + 8) t (drop 1 (block_slice ?k es))) \<Longrightarrow> holds (mf_blob mf) w"
      using w by (subst (asm) bs) (simp add: writeBlockedPayload_def)
    have o: "openBlock mf it = Ret (it\<lparr>it_at := at, it_scratch := t\<rparr>)"
    proof -
      have "mf_blockIdxOff mf + 4 * ?k + 4 \<le> length (mf_blob mf)" using a by (simp add: rd_Ret_iff)
      moreover have "mf_blockCount mf = blockCountOf (length es)" using v by (simp add: blocked_view_def)
      ultimately show ?thesis using a f k by (simp add: openBlock_def Let_def)
    qed
    have "readEntry mf (it\<lparr>it_at := at, it_scratch := t\<rparr>) = Ret (it\<lparr>it_scratch := t, it_postOff := po, it_count := pc, it_at := at + 8\<rparr>)"
      by (subst readEntry_read) (use pay p in simp_all)
    then show ?thesis using o True pay by (intro exI[of _ "at + 8"]) (simp add: nextBlocked_def)
  next
    case False
    define rest where "rest = drop (?i mod blockedBlockTerms + 1) (block_slice ?k es)"
    define pos where "pos = it_at it + 4 + length (drop (sharedPrefixLen (it_scratch it) t) t)"
    have "\<forall>w \<in> set (coded_stores (it_at it) (it_scratch it) ((t, po, pc) # rest)). holds (mf_blob mf) w"
      using assms(1,3) False drop_block[OF assms(2)] assms(4) by (simp add: view_at_def rest_def)
    then have h: "\<And>w. w \<in> set (coded_header (it_at it) (it_scratch it) t @ [put32 pos po, put32 (pos + 4) pc] @ coded_stores (pos + 8) t rest)
        \<Longrightarrow> holds (mf_blob mf) w" unfolding coded_stores_header pos_def by blast
    have "stepFrontCoded (segmentID mf) (mf_blob mf) (it_at it) (it_scratch it) = Ret (t, pos)"
      unfolding pos_def by (rule stepFrontCoded_exact) (use h fits_coded[OF fits] in simp_all)
    then have o: "extendPreviousTerm mf it = Ret (it\<lparr>it_scratch := t, it_at := pos\<rparr>)" by (simp add: extendPreviousTerm_def)
    have "readEntry mf (it\<lparr>it_scratch := t, it_at := pos\<rparr>) = Ret (it\<lparr>it_scratch := t, it_postOff := po, it_count := pc, it_at := pos + 8\<rparr>)"
      by (subst readEntry_read) (use h p in simp_all)
    then show ?thesis using o False h by (intro exI[of _ "pos + 8"]) (simp add: nextBlocked_def rest_def)
  qed
qed

lemma iter_next_exact:
  assumes "view_at mf es it"
  shows "it_idx it = length es \<Longrightarrow> iter_next mf it = Ret None"
    and "it_idx it < length es \<Longrightarrow> \<exists>it'. iter_next mf it = Ret (Some it') \<and> view_at mf es it' \<and> it_idx it' = it_idx it + 1
           \<and> (it_term it', it_postOff it', it_count it') = es ! it_idx it"
proof -
  show "it_idx it = length es \<Longrightarrow> iter_next mf it = Ret None" using assms by (simp add: iter_next_def view_at_def)
  assume i: "it_idx it < length es"
  obtain t po pc where e: "es ! it_idx it = (t, po, pc)" by (cases "es ! it_idx it")
  have n: "mf_termCount mf = length es" using assms by (simp add: view_at_def)
  show "\<exists>it'. iter_next mf it = Ret (Some it') \<and> view_at mf es it' \<and> it_idx it' = it_idx it + 1 \<and> (it_term it', it_postOff it', it_count it') = es ! it_idx it"
  proof (cases "mf_kind mf = dictBlocked")
    case True
    obtain pos where pos: "nextBlocked mf it = Ret (it\<lparr>it_scratch := t, it_at := pos, it_postOff := po, it_count := pc, it_term := t\<rparr>)"
      "\<forall>w \<in> set (coded_stores pos t (drop (it_idx it mod blockedBlockTerms + 1) (block_slice (it_idx it div blockedBlockTerms) es))). holds (mf_blob mf) w"
      using nextBlocked_exact[OF assms i True e] by blast
    let ?it = "it\<lparr>it_scratch := t, it_at := pos, it_postOff := po, it_count := pc, it_term := t, it_idx := it_idx it + 1\<rparr>"
    have "view_at mf es ?it"
      using assms i True e pos(2) index_succ[of "it_idx it"] by (auto simp: view_at_def)
    then show ?thesis using pos(1) i n e True by (intro exI[of _ ?it]) (simp add: iter_next_def)
  next
    case False
    let ?it = "it\<lparr>it_term := t, it_postOff := po, it_count := pc, it_idx := it_idx it + 1\<rparr>"
    have "view_at mf es ?it" "entryAt mf (it_idx it) = Ret (t, po, pc)" using assms i False e by (auto simp: view_at_def)
    then show ?thesis using i n e False by (intro exI[of _ ?it]) (simp add: iter_next_def)
  qed
qed

lemma each_from_exact:
  assumes "\<And>t po pc. (t, po, pc) \<in> set es \<Longrightarrow> mapped_postings mf po pc = Ret (P t)"
  shows "view_at mf es it \<Longrightarrow> each_from mf it = Ret (map (\<lambda>e. (fst e, P (fst e))) (drop (it_idx it) es))"
proof (induction "length es - it_idx it" arbitrary: it)
  case 0
  then have "it_idx it = length es" by (auto simp: view_at_def)
  then show ?case using iter_next_exact(1)[OF "0.prems"] by (simp add: each_from.simps)
next
  case (Suc n)
  then have i: "it_idx it < length es" by simp
  obtain t po pc where e: "es ! it_idx it = (t, po, pc)" by (cases "es ! it_idx it")
  obtain it' where it': "iter_next mf it = Ret (Some it')" "view_at mf es it'" "it_idx it' = it_idx it + 1" "it_term it' = t" "it_postOff it' = po" "it_count it' = pc"
    using iter_next_exact(2)[OF Suc.prems i] e by auto
  have "mapped_postings mf po pc = Ret (P t)" using assms i e by (metis nth_mem)
  moreover have "each_from mf it' = Ret (map (\<lambda>e. (fst e, P (fst e))) (drop (it_idx it') es))"
    by (rule Suc.hyps(1)) (use Suc.hyps(2) it' in auto)
  moreover have "drop (it_idx it) es = (t, po, pc) # drop (it_idx it + 1) es" using i e by (metis Cons_nth_drop_Suc Suc_eq_plus1)
  ultimately show ?case using it' by (subst each_from.simps) (cases "P t", simp)
qed


section \<open>Opening an encoded dictionary\<close>

lemma place_slot_set: "place_slot fuel table slot e = Some table' \<Longrightarrow> set table' \<subseteq> insert e (set table)"
  by (induction fuel arbitrary: slot) (auto split: if_splits dest: set_update_subset_insert[THEN subsetD])

lemma fill_slots_set:
  "fill_slots ts i table = Some table' \<Longrightarrow> e \<in> set table' \<Longrightarrow> e \<in> set table \<or> (\<exists>h j. e = (fingerprint h, j) \<and> j < i + length ts)"
proof (induction ts arbitrary: i table)
  case (Cons t ts)
  obtain tb where tb: "place_slot (length table) table (home_slot (length table) (termHash t)) (fingerprint (termHash t), i) = Some tb"
    "fill_slots ts (i + 1) tb = Some table'" using Cons.prems(1) by (auto simp: Let_def split: option.splits)
  show ?case using Cons.IH[OF tb(2) Cons.prems(2)] place_slot_set[OF tb(1)] by force
qed simp

lemma fingerprint_less: "fingerprint h < 2 ^ 32"
proof -
  have "unat h < 2 ^ 64" using unsigned_less[of h, where 'a = nat] by simp
  then show ?thesis by (simp add: fingerprint_def unat_drop_bit_eq drop_bit_nat_def less_mult_imp_div_less)
qed

lemma hashTable_entries:
  assumes "hashTable terms = Some table" "length terms \<le> hashEmptySlot" "s < length table"
  shows "fst (table ! s) < 2 ^ 32" "snd (table ! s) < 2 ^ 32"
proof -
  have "table ! s \<in> set (replicate (hashSlotCount (length terms)) (0, hashEmptySlot)) \<or> (\<exists>h j. table ! s = (fingerprint h, j) \<and> j < 0 + length terms)"
    by (rule fill_slots_set[OF assms(1)[unfolded hashTable_def]]) (use assms(3) in simp)
  then show "fst (table ! s) < 2 ^ 32" "snd (table ! s) < 2 ^ 32"
    using assms(2) fingerprint_less by (auto simp: hashEmptySlot_def)
qed

definition dict_view :: "mappedField \<Rightarrow> dict_entry list \<Rightarrow> bool" where
  "dict_view mf es \<longleftrightarrow> view_at mf es iter_start \<and> mf_termCount mf = length es
   \<and> (\<forall>t. (if mf_kind mf = dictBlocked then lookupBlocked mf t
           else if mf_kind mf = dictHash then lookupHash mf t else lookupFlat mf t) = Ret (map_of es t))"

definition same_field :: "mappedField \<Rightarrow> mappedField \<Rightarrow> bool" where
  "same_field mf mf' \<longleftrightarrow> mf_config mf' = mf_config mf \<and> mf_totalTokens mf' = mf_totalTokens mf \<and> mf_lengths mf' = mf_lengths mf
     \<and> mf_blob mf' = mf_blob mf \<and> mf_kind mf' = mf_kind mf"

lemma align_mod [simp]: "align off 8 mod 8 = 0" "align off 4 mod 4 = 0" "align off 8 mod 4 = 0"
  "(align off 8 + 16) mod 8 = 0" "(align off 8 + 8) mod 8 = 0" "(align off 8 + 16) mod 4 = 0"
proof -
  have 8: "8 dvd align off 8" and 4: "4 dvd align off 4" by (rule align_dvd)+
  have "(4::nat) dvd 8" by simp
  then have "4 dvd align off 8" using 8 by (rule dvd_trans)
  then show "align off 8 mod 8 = 0" "align off 4 mod 4 = 0" "align off 8 mod 4 = 0"
    "(align off 8 + 16) mod 8 = 0" "(align off 8 + 8) mod 8 = 0" "(align off 8 + 16) mod 4 = 0"
    using 8 4 by (simp_all add: dvd_eq_mod_eq_0[symmetric])
qed

lemma fits_bounds: "list_all entry_fits es \<Longrightarrow> e \<in> set es \<Longrightarrow> fst (snd e) < 2 ^ 32 \<and> snd (snd e) < 2 ^ 32"
  by (auto simp: list_all_iff entry_fits_def)

lemma view_at_start: "view_at mf es iter_start \<longleftrightarrow> mf_termCount mf = length es \<and>
    (if mf_kind mf = dictBlocked then blocked_view mf es else (\<forall>i < length es. entryAt mf i = Ret (es ! i)))"
  by (simp add: view_at_def iter_start_def)

text \<open>
  What the reader needs of where a dictionary of \<open>n\<close> terms lies: aligned sections, one after the other
  and below \<open>hi\<close>. The planner's dictionaries have this shape, and so have those of a merge.
\<close>

definition dict_shape :: "byte \<Rightarrow> v2DictPlan \<Rightarrow> nat \<Rightarrow> nat \<Rightarrow> bool" where
  "dict_shape kind d n hi \<longleftrightarrow> d_off d mod 8 = 0 \<and> n \<le> hi
   \<and> (if kind = dictBlocked then
          d_blockCount d = blockCountOf n \<and> d_blockIdxOff d mod 4 = 0 \<and> d_off d + 16 + 8 * blockCountOf n \<le> d_blockIdxOff d
        \<and> d_blockIdxOff d + 4 * blockCountOf n \<le> hi
      else if kind = dictHash then
          d_entriesOff d = d_off d + 16 \<and> d_slotCount d = hashSlotCount n \<and> d_slotsOff d mod 8 = 0
        \<and> d_entriesOff d + 16 * n \<le> d_slotsOff d \<and> d_slotsOff d + 8 * hashSlotCount n \<le> hi
      else d_entriesOff d = d_off d + 8 \<and> d_entriesOff d + 16 * n \<le> hi)"

lemma dict_shape_mono: "dict_shape kind d n hi \<Longrightarrow> hi \<le> hi' \<Longrightarrow> dict_shape kind d n hi'"
  by (auto simp: dict_shape_def split: if_splits)

lemma mod_8_offsets:
  assumes "off mod 8 = (0::nat)"
  shows "(off + 8) mod 8 = 0" "(off + 16) mod 8 = 0" "off mod 4 = 0" "(off + 16) mod 4 = 0"
proof -
  obtain k where "off = 8 * k" using assms by (auto simp: mod_eq_0_iff_dvd)
  then have "off + 8 = 8 * (k + 1)" "off + 16 = 8 * (k + 2)" "off = 4 * (2 * k)" "off + 16 = 4 * (2 * k + 4)" by simp_all
  then show "(off + 8) mod 8 = 0" "(off + 16) mod 8 = 0" "off mod 4 = 0" "(off + 16) mod 4 = 0" by (metis mod_mult_self1_is_0)+
qed

lemma planDict_shape:
  assumes "planDict kind off terms = (d, end)"
  shows "dict_shape kind d (length terms) end"
proof -
  have n: "length terms \<le> end" using planDict_count[OF assms] by simp
  show ?thesis
  proof (cases "kind = dictBlocked")
    case True
    let ?n = "blockCountOf (length terms)"
    obtain termOff off1 where p: "place 1 off (map length (map (\<lambda>b. terms ! (b * blockedBlockTerms)) [0..<?n])) = (termOff, off1)" by fastforce
    define bidx where "bidx = align (align off1 8 + 16 + 8 * ?n) 4"
    obtain blockOff end' where q: "place 1 (bidx + 4 * ?n) (map (blockedPayloadSize terms) [0..<?n]) = (blockOff, end')" by fastforce
    have d: "d_off d = align off1 8" "d_blockIdxOff d = bidx" "d_blockCount d = ?n" "end = end'"
      using assms p q True by (auto simp: planDict_def planBlockedDict_def Let_def bidx_def[symmetric])
    have "align off1 8 + 16 + 8 * ?n \<le> bidx" "bidx + 4 * ?n \<le> end"
      using align_ge[of 4 "align off1 8 + 16 + 8 * ?n"] place_le[of 1 "bidx + 4 * ?n"] q d(4) by (auto simp: bidx_def) (metis snd_conv zero_less_one)
    then show ?thesis using d n True by (simp add: dict_shape_def bidx_def)
  next
    case nb: False
    obtain termOff off1 where p: "place 1 off (map length terms) = (termOff, off1)" by fastforce
    show ?thesis
    proof (cases "kind = dictHash")
      case True
      have d: "d_off d = align off1 8" "d_entriesOff d = align off1 8 + 16" "d_slotCount d = hashSlotCount (length terms)"
        "d_slotsOff d = align (d_entriesOff d + 16 * length terms) 8" "end = d_slotsOff d + 8 * hashSlotCount (length terms)"
        using assms p nb True by (auto simp: planDict_def planHashDict_def Let_def)
      have "d_entriesOff d + 16 * length terms \<le> d_slotsOff d" using d(4) align_ge[of 8 "d_entriesOff d + 16 * length terms"] by simp
      then show ?thesis using d n nb True by (simp add: dict_shape_def)
    next
      case False
      have "d_off d = align off1 8" "d_entriesOff d = align off1 8 + 8" "end = d_entriesOff d + 16 * length terms"
        using assms p nb False by (auto simp: planDict_def planFlatDict_def Let_def)
      then show ?thesis using n nb False by (simp add: dict_shape_def)
    qed
  qed
qed

lemma openFlat_exact:
  assumes "dict_shape dictFlat d (length es) (length b)" "length b < 2 ^ 32"
    and "\<And>w. w \<in> set (writeFlatDict d es) \<Longrightarrow> holds b w" "ascending es" "list_all entry_fits es"
    and "mf_blob mf = b" "mf_kind mf \<noteq> dictBlocked" "mf_kind mf \<noteq> dictHash" "mf_kind mf = dictFlat"
  shows "\<exists>mf'. openDict mf (d_off d) = Ret mf' \<and> same_field mf mf' \<and> dict_view mf' es"
proof -
  have d: "d_off d mod 8 = 0" "d_entriesOff d = d_off d + 8" "d_entriesOff d + 16 * length es \<le> length b"
    using assms(1) by (simp_all add: dict_shape_def dictFlat_def dictBlocked_def dictHash_def)
  have lt: "length es < 2 ^ 32" "d_entriesOff d < 2 ^ 32" using d assms(2) by auto
  have r: "rd32 b (d_off d) = Ret (length es)" "rd32 b (d_off d + 4) = Ret (d_entriesOff d)"
    by (rule holds_rd32, use assms(3) lt in \<open>simp_all add: writeFlatDict_def\<close>)+
  let ?mf = "mf\<lparr>mf_termCount := length es, mf_entriesOff := d_entriesOff d\<rparr>"
  have rows: "entryAt ?mf i = Ret (es ! i)" if "i < length es" for i
    by (rule flat_entries_read[of d es b]) (use assms(2-6) that fits_bounds in \<open>auto simp: writeFlatDict_def\<close>)
  have "lookupFlat ?mf t = Ret (map_of es t)" for t
    unfolding lookupFlat_def using flat_search_exact[OF assms(4), of ?mf "length es" 0 t] rows by simp
  moreover have "openDict mf (d_off d) = Ret ?mf"
    using r d mod_8_offsets[OF d(1)] assms(6-9) by (simp add: openDict_def Let_def checkSection_def)
  ultimately show ?thesis
    using rows assms(7,8) by (intro exI[of _ ?mf]) (simp add: same_field_def dict_view_def view_at_start)
qed

lemma openHash_exact:
  assumes "dict_shape dictHash d (length es) (length b)" "length b < 2 ^ 32"
    and "\<And>w. w \<in> set (writeHashDict d es) \<Longrightarrow> holds b w" "ascending es" "list_all entry_fits es"
    and "mf_blob mf = b" "mf_kind mf = dictHash"
  shows "\<exists>mf'. openDict mf (d_off d) = Ret mf' \<and> same_field mf mf' \<and> dict_view mf' es"
proof -
  have d: "d_off d mod 8 = 0" "d_entriesOff d = d_off d + 16" "d_slotCount d = hashSlotCount (length es)" "d_slotsOff d mod 8 = 0"
    "d_slotsOff d + 8 * hashSlotCount (length es) \<le> length b" and e: "d_entriesOff d + 16 * length es \<le> d_slotsOff d"
    using assms(1) by (simp_all add: dict_shape_def dictBlocked_def dictHash_def)
  have lt: "length es < 2 ^ 32" "d_entriesOff d < 2 ^ 32" "d_slotsOff d < 2 ^ 32" "d_slotCount d < 2 ^ 32" using d(3,5) e assms(2) by auto
  have n: "length es \<le> hashEmptySlot" using lt by (simp add: hashEmptySlot_def)
  obtain table where t: "hashTable (map fst es) = Some table" "length table = hashSlotCount (length es)"
    using hashTable_placed[of "map fst es"] n by auto
  have r: "rd32 b (d_off d) = Ret (length es)" "rd32 b (d_off d + 4) = Ret (d_entriesOff d)"
    "rd32 b (d_off d + 8) = Ret (d_slotsOff d)" "rd32 b (d_off d + 12) = Ret (d_slotCount d)"
    by (rule holds_rd32, use assms(3) lt in \<open>simp_all add: writeHashDict_def\<close>)+
  let ?mf = "mf\<lparr>mf_termCount := length es, mf_entriesOff := d_entriesOff d, mf_slotsOff := d_slotsOff d, mf_slotCount := d_slotCount d\<rparr>"
  have rows: "entryAt ?mf i = Ret (es ! i)" if "i < length es" for i
    by (rule flat_entries_read[of d es b]) (use assms(2-6) that fits_bounds in \<open>auto simp: writeHashDict_def\<close>)
  have slots: "rd32 b (d_slotsOff d + 8 * s) = Ret (fst (table ! s)) \<and> rd32 b (d_slotsOff d + 8 * s + 4) = Ret (snd (table ! s))" if "s < length table" for s
  proof -
    have "holds b w" if "w \<in> set (slot_stores (d_slotsOff d) table)" for w using that assms(3) t(1) by (simp add: writeHashDict_def)
    moreover have "put32 (d_slotsOff d + 8 * s) (fst (table ! s)) \<in> set (slot_stores (d_slotsOff d) table)"
      "put32 (d_slotsOff d + 8 * s + 4) (snd (table ! s)) \<in> set (slot_stores (d_slotsOff d) table)"
      using that by (force simp: slot_stores_def)+
    ultimately have "holds b (put32 (d_slotsOff d + 8 * s) (fst (table ! s)))" "holds b (put32 (d_slotsOff d + 8 * s + 4) (snd (table ! s)))"
      by blast+
    then show ?thesis using hashTable_entries[OF t(1) _ that] n by (simp add: holds_rd32)
  qed
  have pos: "0 < length table" unfolding t(2) by (rule hashSlotCount_pow[of "length es"]) simp
  have "lookupHash ?mf t' = Ret (map_of es t')" for t'
    by (rule lookupHash_exact[of table]) (use slots rows t pos n d(3) lt(4) assms(4,6) in auto)
  moreover have "openDict mf (d_off d) = Ret ?mf"
    using r d e mod_8_offsets[OF d(1)] assms(6,7) by (simp add: openDict_def Let_def checkSection_def)
  ultimately show ?thesis
    using rows assms(7) by (intro exI[of _ ?mf]) (simp add: same_field_def dict_view_def view_at_start)
qed

lemma firstTermAt_exact:
  assumes "mf_blob mf = b" "mf_firstTermsOff mf = off0" "holds b (put32 (off0 + 8 * k) off)" "holds b (put32 (off0 + 8 * k + 4) (length s))"
    and "off < 2 ^ 32" "length s < 2 ^ 32" "holds b (cpy off s)"
  shows "firstTermAt mf k = Ret s"
  unfolding firstTermAt_def Let_def assms(1,2) holds_rd32[OF assms(3,5)] holds_rd32[OF assms(4,6)] bind_out_simps
  by (rule holds_termView[OF assms(7)])

lemma openBlocked_exact:
  assumes "dict_shape dictBlocked d (length es) (length b)" "length b < 2 ^ 32"
    and "\<And>w. w \<in> set (writeBlockedDict d es) \<Longrightarrow> holds b w" "ascending es" "list_all entry_fits es"
    and "mf_blob mf = b" "mf_kind mf = dictBlocked"
  shows "\<exists>mf'. openDict mf (d_off d) = Ret mf' \<and> same_field mf mf' \<and> dict_view mf' es"
proof -
  let ?n = "blockCountOf (length es)"
  define bidx where "bidx = d_blockIdxOff d"
  have d: "d_off d mod 8 = 0" "d_blockIdxOff d = bidx" "d_blockCount d = ?n" "bidx mod 4 = 0" and le: "d_off d + 16 + 8 * ?n \<le> bidx" "bidx + 4 * ?n \<le> length b"
    using assms(1) by (simp_all add: dict_shape_def bidx_def)
  have lt: "length es < 2 ^ 32" "?n < 2 ^ 32" "d_off d + 16 < 2 ^ 32" "bidx < 2 ^ 32"
    using assms(1,2) le by (auto simp: dict_shape_def)
  have r: "rd32 b (d_off d) = Ret (length es)" "rd32 b (d_off d + 4) = Ret ?n" "rd32 b (d_off d + 8) = Ret (d_off d + 16)"
    "rd32 b (d_off d + 12) = Ret bidx"
    by (rule holds_rd32, use assms(3) lt in \<open>simp_all add: writeBlockedDict_def d\<close>)+
  let ?mf = "mf\<lparr>mf_termCount := length es, mf_blockCount := ?n, mf_firstTermsOff := d_off d + 16, mf_blockIdxOff := bidx\<rparr>"
  have mfs: "mf_blob ?mf = b" "mf_firstTermsOff ?mf = d_off d + 16" using assms(6) by simp_all
  have "blocked_view ?mf es"
    unfolding blocked_view_def
  proof (intro conjI allI impI)
    fix k assume k: "k < ?n"
    let ?first = "fst (es ! (k * blockedBlockTerms))"
    have h: "holds b w" if "w \<in> set (block_stores d es k)" for w
      by (rule assms(3)) (use that k d(3) in \<open>auto simp: writeBlockedDict_def\<close>)
    have c: "holds b (cpy (d_termOff d ! k) ?first)" "holds b (put32 (d_off d + 16 + 8 * k) (d_termOff d ! k))"
      "holds b (put32 (d_off d + 16 + 8 * k + 4) (length ?first))" "holds b (put32 (bidx + 4 * k) (d_blockOff d ! k))"
      by (rule h, simp add: block_stores_def Let_def d)+
    have pay: "holds b w" if "w \<in> set (writeBlockedPayload (d_blockOff d ! k) (block_slice k es))" for w
      by (rule h) (use that in \<open>simp add: block_stores_def Let_def\<close>)
    have fit: "d_termOff d ! k < 2 ^ 32" "length ?first < 2 ^ 32" using holds_cpy[OF c(1)] assms(2) by auto
    show "firstTermAt ?mf k = Ret ?first"
      by (rule firstTermAt_exact[OF mfs, OF c(2,3) fit c(1)])
    obtain t po pc rest where bs: "block_slice k es = (t, po, pc) # rest" by (rule block_slice_Cons[OF k])
    have "d_blockOff d ! k < 2 ^ 32"
      using pay[of "put32 (d_blockOff d ! k) po"] assms(2) by (simp add: bs writeBlockedPayload_def holds_def)
    then show "\<exists>at. rd32 (mf_blob ?mf) (mf_blockIdxOff ?mf + 4 * k) = Ret at
        \<and> (\<forall>w \<in> set (writeBlockedPayload at (block_slice k es)). holds (mf_blob ?mf) w)"
      using c(4) pay assms(6) by (auto simp: holds_rd32)
  qed (use assms(4,5,7) in simp_all)
  moreover have "openDict mf (d_off d) = Ret ?mf"
    using r d le mod_8_offsets[OF d(1)] assms(6,7) by (simp add: openDict_def Let_def checkSection_def)
  ultimately show ?thesis
    using assms(7) lookupBlocked_exact by (intro exI[of _ ?mf]) (simp add: same_field_def dict_view_def view_at_start)
qed

lemma openDict_exact:
  assumes "dict_shape (mf_kind mf) d (length es) (length b)" "length b < 2 ^ 32"
    and "\<And>w. w \<in> set (writeDict (mf_kind mf) d es) \<Longrightarrow> holds b w" "ascending es" "list_all entry_fits es"
    and "mf_blob mf = b" "mf_kind mf \<le> dictHash"
  shows "\<exists>mf'. openDict mf (d_off d) = Ret mf' \<and> same_field mf mf' \<and> dict_view mf' es"
proof -
  consider "mf_kind mf = dictBlocked" | "mf_kind mf = dictHash" | "mf_kind mf = dictFlat"
  proof -
    have "unat (mf_kind mf) \<le> 2" using assms(7) by (simp add: dictHash_def word_le_nat_alt)
    then have "unat (mf_kind mf) = 0 \<or> unat (mf_kind mf) = 1 \<or> unat (mf_kind mf) = 2" by linarith
    then show ?thesis using that by (auto simp: dictBlocked_def dictHash_def dictFlat_def word_unat_eq_iff)
  qed
  then show ?thesis
  proof cases
    case 1
    then show ?thesis using assms openBlocked_exact[of d es b mf] by (simp add: writeDict_def dictBlocked_def dictHash_def dictFlat_def)
  next
    case 2
    then show ?thesis using assms openHash_exact[of d es b mf] by (simp add: writeDict_def dictBlocked_def dictHash_def dictFlat_def)
  next
    case 3
    then show ?thesis using assms openFlat_exact[of d es b mf] by (simp add: writeDict_def dictBlocked_def dictHash_def dictFlat_def)
  qed
qed

end
