(* ===== verification/Bm25Codec.thy ===== *)
theory Bm25Codec
  imports Bm25Roundtrip
begin

text \<open>
  The contract between the writer of \<open>serial_v2.go\<close> and the reader of \<open>mapped.go\<close>: opening what
  \<open>encodeSegmentV2\<close> wrote gives a segment that answers every question of the reader (members, field
  configuration, lengths, posting runs by term, the term sequence, document frequencies) from the same
  accumulator. \<open>segment_wf\<close> lists what the widths of the layout demand of an accumulator.
\<close>

section \<open>Posting runs\<close>

definition run_of :: "posting list \<Rightarrow> nat list \<times> nat list" where
  "run_of ps = (map (\<lambda>p. unat (p_docID p)) ps, map (\<lambda>p. unat (p_tf p)) ps)"

lemma unat_bound32: "unat (w :: 32 word) < 256 ^ 4"
  using unsigned_less[of w, where 'a = nat] by simp

lemma unat_bound16: "unat (w :: 16 word) < 256 ^ 2"
  using unsigned_less[of w, where 'a = nat] by simp

lemma unat_bound64: "unat (w :: 64 word) < 2 ^ 64"
  using unsigned_less[of w, where 'a = nat] by simp

lemma map_over_nth: "map (\<lambda>j. f (xs ! j)) [0..<length xs] = map f xs"
  by (intro nth_equalityI) auto

lemma mapped_postings_exact:
  assumes h: "\<And>w. w \<in> set (posting_stores at ps) \<Longrightarrow> holds b w" and "mf_blob mf = b" "4 dvd at"
  shows "mapped_postings mf at (length ps) = Ret (run_of ps)"
proof (cases "ps = []")
  case False
  let ?n = "length ps"
  have ids: "holds b (put32 (at + 4 * j) (unat (p_docID (ps ! j))))"
    and tfs: "holds b (put16 (at + 4 * ?n + 2 * j) (unat (p_tf (ps ! j))))" if "j < ?n" for j
    by (rule h, use that in \<open>force simp: posting_stores_def\<close>)+
  have "u32sAt b at ?n = Ret (map (\<lambda>j. unat (p_docID (ps ! j))) [0..<?n])"
    unfolding u32sAt_def by (rule holds_words) (use ids unat_bound32 in auto)
  moreover have "u16sAt b (at + 4 * ?n) ?n = Ret (map (\<lambda>j. unat (p_tf (ps ! j))) [0..<?n])"
    unfolding u16sAt_def by (rule holds_words) (use tfs unat_bound16 in auto)
  moreover have "at + 6 * ?n \<le> length b"
    using tfs[of "?n - 1"] False by (cases ps) (auto simp: holds_def)
  ultimately show ?thesis
    using False assms(2,3) map_over_nth[of "\<lambda>p. unat (p_docID p)" ps] map_over_nth[of "\<lambda>p. unat (p_tf p)" ps]
    by (simp add: mapped_postings_def run_of_def mod_eq_0_iff_dvd)
qed (simp add: mapped_postings_def run_of_def)

section \<open>Well-formed accumulators\<close>

definition field_wf :: "nat \<Rightarrow> fieldData \<Rightarrow> bool" where
  "field_wf n fd \<longleftrightarrow>
     gomap_ok (fd_postings fd) \<and> list_all (\<lambda>(t, ps). length t < 65536) (fd_postings fd)
   \<and> length (fc_Name (fd_config fd)) < 2 ^ 16
   \<and> length (fd_docLengths fd) \<le> n \<and> list_all (\<lambda>x. 0 \<le> x \<and> x < 2 ^ 32) (fd_docLengths fd)
   \<and> - (2 ^ 63) \<le> fd_totalTokens fd \<and> fd_totalTokens fd < 2 ^ 63"

definition segment_wf :: "bm25Segment \<Rightarrow> bool" where
  "segment_wf s \<longleftrightarrow>
     length (bs_fields s) < 2 ^ 16 \<and> list_all (field_wf (length (bs_members s))) (bs_fields s)
   \<and> gomap_ok (bs_docFreq s) \<and> list_all (\<lambda>(t, df). - (2 ^ 63) \<le> df \<and> df < 2 ^ 63) (bs_docFreq s)"

text \<open>What the reader must answer for a field, and for a segment.\<close>

definition padded_lengths :: "nat \<Rightarrow> fieldData \<Rightarrow> nat list" where
  "padded_lengths n fd = map (\<lambda>d. nat (if d < length (fd_docLengths fd) then fd_docLengths fd ! d else 0)) [0..<n]"

definition field_view :: "nat \<Rightarrow> fieldData \<Rightarrow> mappedField \<Rightarrow> bool" where
  "field_view n fd mf \<longleftrightarrow>
     mf_config mf = fd_config fd \<and> mf_totalTokens mf = fd_totalTokens fd \<and> mf_lengths mf = padded_lengths n fd
   \<and> (\<forall>t. mapped_lookup mf t = Ret (map_option run_of (map_of (fd_postings fd) t)))
   \<and> eachTerm mf = Ret (map (\<lambda>t. (t, run_of (postings_of fd t))) (sortedKeys (fd_postings fd)))"

definition df_of :: "(string, int) gomap \<Rightarrow> string \<Rightarrow> int" where
  "df_of docFreq t = (case map_of docFreq t of None \<Rightarrow> 0 | Some df \<Rightarrow> df)"

definition segment_view :: "bm25Segment \<Rightarrow> mappedSegment \<Rightarrow> bool" where
  "segment_view s ms \<longleftrightarrow>
     ms_docCount ms = length (bs_members s)
   \<and> (\<forall>i < length (bs_members s). mapped_member ms i = Ret (bs_members s ! i))
   \<and> list_all2 (field_view (length (bs_members s))) (bs_fields s) (ms_fields ms)
   \<and> (\<forall>t. segmentDocFreq ms t = Ret (df_of (bs_docFreq s) t))
   \<and> docFreqEach ms = Ret (map (\<lambda>t. (t, df_of (bs_docFreq s) t)) (sortedKeys (bs_docFreq s)))"

lemma int64_of_u64:
  assumes "- (2 ^ 63) \<le> i" "i < 2 ^ 63"
  shows "int64_of (u64_of_int i) = i"
proof (cases "i < 0")
  case True
  then have "(i + 2 ^ 64) mod 2 ^ 64 = i + 2 ^ 64" using assms(1) by (intro mod_pos_pos_trivial) simp_all
  then have "i mod 2 ^ 64 = i + 2 ^ 64" unfolding mod_add_self2 .
  then show ?thesis using True assms by (simp add: int64_of_def u64_of_int_def)
qed (use assms in \<open>simp add: int64_of_def u64_of_int_def\<close>)

lemma u64_of_int_less: "u64_of_int i < 2 ^ 64"
  by (simp add: u64_of_int_def nat_less_iff)

lemma u32_of_int_id: "0 \<le> i \<Longrightarrow> i < 2 ^ 32 \<Longrightarrow> u32_of_int i = nat i"
  by (simp add: u32_of_int_def)

lemma u32_of_int_0 [simp]: "u32_of_int 0 = 0"
  by (simp add: u32_of_int_def)

lemma u32_of_int_less: "u32_of_int i < 2 ^ 32"
  by (simp add: u32_of_int_def nat_less_iff)

lemma sortedKeys_simps: "set (sortedKeys m) = fst ` set m" "length (sortedKeys m) = length m"
  by (simp_all add: sortedKeys_def)

lemma sortedKeys_ascending: "gomap_ok m \<Longrightarrow> sorted_wrt (<) (sortedKeys m)"
  by (simp add: sortedKeys_def gomap_ok_def strict_sorted_iff)

section \<open>Opening a field\<close>

lemma field_entries_simps:
  "map fst (field_entries fp fd) = fp_terms fp" "length (field_entries fp fd) = length (fp_terms fp)"
  "i < length (fp_terms fp) \<Longrightarrow> field_entries fp fd ! i = (fp_terms fp ! i, fp_postOff fp ! i, length (postings_of fd (fp_terms fp ! i)))"
  by (simp_all add: field_entries_def comp_def map_nth)

lemma field_entries_mem:
  assumes "(t, po, pc) \<in> set (field_entries fp fd)"
  obtains i where "i < length (fp_terms fp)" "t = fp_terms fp ! i" "po = fp_postOff fp ! i" "pc = length (postings_of fd t)"
  using assms by (auto simp: field_entries_def)

lemma field_entries_map_of:
  assumes "fp_terms fp = sortedKeys (fd_postings fd)" "gomap_ok (fd_postings fd)"
  shows "map_of (field_entries fp fd) t = None \<longleftrightarrow> map_of (fd_postings fd) t = None"
    and "map_of (field_entries fp fd) t = Some (po, pc) \<Longrightarrow> map_of (fd_postings fd) t = Some (postings_of fd t)"
proof -
  have "fst ` set (field_entries fp fd) = fst ` set (fd_postings fd)"
    using field_entries_simps(1)[of fp fd] by (metis assms(1) list.set_map sortedKeys_simps(1))
  then show "map_of (field_entries fp fd) t = None \<longleftrightarrow> map_of (fd_postings fd) t = None" by (simp add: map_of_eq_None_iff)
  then show "map_of (field_entries fp fd) t = Some (po, pc) \<Longrightarrow> map_of (fd_postings fd) t = Some (postings_of fd t)"
    by (cases "map_of (fd_postings fd) t") (auto simp: postings_of_def)
qed

text \<open>
  What the reader needs of a field's plan: its terms in order, its dictionary's shape, and aligned
  posting runs inside the blob.
\<close>

definition field_shape :: "byte \<Rightarrow> fieldData \<Rightarrow> v2FieldPlan \<Rightarrow> nat \<Rightarrow> bool" where
  "field_shape kind fd fp hi \<longleftrightarrow> fp_terms fp = sortedKeys (fd_postings fd) \<and> dict_shape kind (fp_dict fp) (length (fp_terms fp)) hi
   \<and> (\<forall>i < length (fp_terms fp). 4 dvd fp_postOff fp ! i \<and> fp_postOff fp ! i + 6 * length (postings_of fd (fp_terms fp ! i)) \<le> hi)"

lemma field_planned_shape:
  assumes "field_planned kind fd fp lo hi"
  shows "field_shape kind fd fp hi"
proof -
  obtain off1 where pd: "planDict kind lo (fp_terms fp) = (fp_dict fp, off1)"
    and pl: "place 4 off1 (map (\<lambda>t. 4 * length (postings_of fd t) + 2 * length (postings_of fd t)) (fp_terms fp)) = (fp_postOff fp, hi)"
    and tm: "fp_terms fp = sortedKeys (fd_postings fd)" using assms by (auto simp: field_planned_def)
  have "off1 \<le> hi" using place_le[of 4 off1] pl by (metis snd_conv zero_less_numeral)
  moreover have "fp_postOff fp ! i + 6 * length (postings_of fd (fp_terms fp ! i)) \<le> hi \<and> 4 dvd fp_postOff fp ! i" if "i < length (fp_terms fp)" for i
    using place_bound[of 4 i "map (\<lambda>t. 4 * length (postings_of fd t) + 2 * length (postings_of fd t)) (fp_terms fp)" off1] pl that by simp
  ultimately show ?thesis using dict_shape_mono[OF planDict_shape[OF pd]] tm by (simp add: field_shape_def)
qed

lemma field_shape_entries:
  assumes "field_shape kind fd fp hi" "hi < 2 ^ 32" "field_wf n fd"
  shows "list_all entry_fits (field_entries fp fd)" "ascending (field_entries fp fd)"
    and "(t, po, pc) \<in> set (field_entries fp fd) \<Longrightarrow> 4 dvd po"
proof -
  have tm: "fp_terms fp = sortedKeys (fd_postings fd)" using assms(1) by (simp add: field_shape_def)
  have bd: "fp_postOff fp ! i + 6 * length (postings_of fd (fp_terms fp ! i)) \<le> hi \<and> 4 dvd fp_postOff fp ! i" if "i < length (fp_terms fp)" for i
    using assms(1) that unfolding field_shape_def by blast
  have short: "length t < 65536" if "t \<in> set (fp_terms fp)" for t
    using that assms(3) tm by (auto simp: sortedKeys_simps field_wf_def list_all_iff)
  have "entry_fits (t, po, pc)" if m: "(t, po, pc) \<in> set (field_entries fp fd)" for t po pc
  proof -
    obtain i where i: "i < length (fp_terms fp)" "t = fp_terms fp ! i" "po = fp_postOff fp ! i" "pc = length (postings_of fd t)"
      using field_entries_mem[OF m] .
    have "length t < 65536" using short i by simp
    then show ?thesis using bd[OF i(1)] i(2-4) assms(2) by (simp add: entry_fits_def)
  qed
  then show "list_all entry_fits (field_entries fp fd)" by (auto simp: list_all_iff)
  show "ascending (field_entries fp fd)"
    using assms(3) tm sortedKeys_ascending[of "fd_postings fd"] by (simp add: field_entries_simps field_wf_def)
  show "(t, po, pc) \<in> set (field_entries fp fd) \<Longrightarrow> 4 dvd po"
    using bd by (metis field_entries_mem)
qed

text \<open>A field whose dictionary reads as the planned entries answers for the accumulator's field.\<close>

lemma dict_view_lookup:
  assumes "dict_view mf es" "\<And>t po pc. (t, po, pc) \<in> set es \<Longrightarrow> mapped_postings mf po pc = Ret (P t)"
  shows "mapped_lookup mf t = Ret (map_option (\<lambda>_. P t) (map_of es t))"
    and "eachTerm mf = Ret (map (\<lambda>t. (t, P t)) (map fst es))"
proof -
  have n: "mf_termCount mf = length es" and v: "view_at mf es iter_start" using assms(1) by (simp_all add: dict_view_def)
  have l: "(if mf_kind mf = dictBlocked then lookupBlocked mf t
            else if mf_kind mf = dictHash then lookupHash mf t else lookupFlat mf t) = Ret (map_of es t)"
    using assms(1) unfolding dict_view_def by blast
  show "mapped_lookup mf t = Ret (map_option (\<lambda>_. P t) (map_of es t))"
    unfolding mapped_lookup_def l
    using n assms(2) by (cases "map_of es t") (auto dest!: map_of_SomeD)
  show "eachTerm mf = Ret (map (\<lambda>t. (t, P t)) (map fst es))"
    using each_from_exact[OF assms(2) v] by (simp add: eachTerm_def iter_start_def comp_def)
qed

lemma field_view_of_dict:
  assumes "dict_view mf (field_entries fp fd)" "mf_blob mf = b"
    and "\<And>w. w \<in> set (term_stores kind fp fd) \<Longrightarrow> holds b w"
    and "field_shape kind fd fp hi" "hi < 2 ^ 32" "field_wf n fd"
    and "mf_config mf = fd_config fd" "mf_totalTokens mf = fd_totalTokens fd" "mf_lengths mf = padded_lengths n fd"
  shows "field_view n fd mf"
proof -
  have tm: "fp_terms fp = sortedKeys (fd_postings fd)" using assms(4) by (simp add: field_shape_def)
  have ok: "gomap_ok (fd_postings fd)" using assms(6) by (simp add: field_wf_def)
  have ps: "mapped_postings mf po pc = Ret (run_of (postings_of fd t))" if m: "(t, po, pc) \<in> set (field_entries fp fd)" for t po pc
  proof -
    obtain i where i: "i < length (fp_terms fp)" "t = fp_terms fp ! i" "po = fp_postOff fp ! i" "pc = length (postings_of fd t)"
      using field_entries_mem[OF m] .
    have "holds b w" if "w \<in> set (posting_stores po (postings_of fd t))" for w
      by (rule assms(3)) (use that i in \<open>auto simp: term_stores_def\<close>)
    then show ?thesis unfolding i(4) by (rule mapped_postings_exact) (use assms(2) field_shape_entries(3)[OF assms(4-6) m] in auto)
  qed
  note dv = dict_view_lookup[OF assms(1), where P = "\<lambda>t. run_of (postings_of fd t)", OF ps]
  have "mapped_lookup mf t = Ret (map_option run_of (map_of (fd_postings fd) t))" for t
  proof (cases "map_of (field_entries fp fd) t")
    case None
    then show ?thesis using dv(1)[of t] field_entries_map_of(1)[OF tm ok, of t] by simp
  next
    case (Some e)
    then show ?thesis using dv(1)[of t] field_entries_map_of(2)[OF tm ok, of t "fst e" "snd e"] by simp
  qed
  then show ?thesis using dv(2) assms(7-9) tm by (simp add: field_view_def field_entries_simps)
qed

lemma openDict_Ret_off: "openDict mf off = Ret mf' \<Longrightarrow> off + 8 \<le> length (mf_blob mf)"
  by (auto simp: openDict_def checkSection_def Let_def bind_out_Ret_iff split: if_splits)

lemma openField_exact:
  assumes h: "\<And>w. w \<in> set (writeFieldV2 p i fd) \<Longrightarrow> holds b w"
    and pl: "field_shape (vp_kind p) fd (vp_fields p ! i) (length b)" "length b < 2 ^ 32"
    and wf: "field_wf n fd" "vp_docCount p = n" "vp_kind p \<le> dictHash"
    and lens: "4 dvd fp_docLengthsOff (vp_fields p ! i)" "fp_docLengthsOff (vp_fields p ! i) + 4 * n \<le> length b"
    and "e = vp_fieldTableOff p + 48 * i"
  shows "\<exists>mf. openField b (vp_kind p) n e = Ret mf \<and> field_view n fd mf"
proof -
  define fp where "fp = vp_fields p ! i"
  define cfg where "cfg = fd_config fd"
  have sp: "set (writeFieldV2 p i fd) = set (entry_stores p i fd) \<union> {cpy (fp_nameOff fp) (fc_Name cfg)} \<union> set (length_stores p i fd)
      \<union> set (term_stores (vp_kind p) fp fd)"
    by (auto simp: writeFieldV2_split fp_def cfg_def)
  have c: "holds b (put32 e (fp_nameOff fp))" "holds b (put16 (e + 4) (length (fc_Name cfg)))" "holds b (put64 (e + 8) (unat (fc_Boost cfg)))"
    "holds b (put64 (e + 16) (unat (fc_B cfg)))" "holds b (put64 (e + 24) (u64_of_int (fd_totalTokens fd)))"
    "holds b (put32 (e + 32) (fp_docLengthsOff fp))" "holds b (put32 (e + 36) (d_off (fp_dict fp)))" "holds b (cpy (fp_nameOff fp) (fc_Name cfg))"
    by (rule h, simp add: sp entry_stores_def Let_def fp_def cfg_def assms(9))+
  have nm: "fp_nameOff fp + length (fc_Name cfg) \<le> length b" "string_of (take (length (fc_Name cfg)) (drop (fp_nameOff fp) b)) = fc_Name cfg"
    using holds_cpy[OF c(8)] by simp_all
  have tsh: "holds b w" if "w \<in> set (term_stores (vp_kind p) fp fd)" for w by (rule h) (use that sp in blast)
  have lengths: "u32sAt b (fp_docLengthsOff fp) n = Ret (padded_lengths n fd)"
  proof -
    have "nat (if d < length (fd_docLengths fd) then fd_docLengths fd ! d else 0) =
        u32_of_int (if d < length (fd_docLengths fd) then fd_docLengths fd ! d else 0)" for d
      using wf(1) by (auto simp: field_wf_def list_all_length intro!: u32_of_int_id[symmetric])
    moreover have "u32sAt b (fp_docLengthsOff fp) n = Ret (map (\<lambda>d. u32_of_int (if d < length (fd_docLengths fd) then fd_docLengths fd ! d else 0)) [0..<n])"
      unfolding u32sAt_def
    proof (rule holds_words)
      fix d assume "d < n"
      then show "holds b (put32 (fp_docLengthsOff fp + 4 * d) (u32_of_int (if d < length (fd_docLengths fd) then fd_docLengths fd ! d else 0)))"
        by (intro h) (auto simp: sp length_stores_def fp_def wf(2))
    qed (use u32_of_int_less in simp_all)
    ultimately show ?thesis by (simp only: padded_lengths_def)
  qed
  let ?mf = "\<lparr>mf_config = cfg, mf_totalTokens = fd_totalTokens fd, mf_blob = b, mf_lengths = padded_lengths n fd, mf_termCount = 0,
    mf_entriesOff = 0, mf_slotsOff = 0, mf_slotCount = 0, mf_blockCount = 0, mf_firstTermsOff = 0, mf_blockIdxOff = 0, mf_kind = vp_kind p\<rparr>"
  note fits = field_shape_entries[OF pl(1)[folded fp_def] pl(2) wf(1)]
  have "\<exists>mf'. openDict ?mf (d_off (fp_dict fp)) = Ret mf' \<and> same_field ?mf mf' \<and> dict_view mf' (field_entries fp fd)"
  proof (rule openDict_exact)
    show "dict_shape (mf_kind ?mf) (fp_dict fp) (length (field_entries fp fd)) (length b)"
      using pl(1)[unfolded field_shape_def] by (auto simp only: field_entries_simps fp_def mappedField.simps)
    show "holds b w" if "w \<in> set (writeDict (mf_kind ?mf) (fp_dict fp) (field_entries fp fd))" for w
      by (rule tsh) (use that in \<open>simp add: term_stores_def\<close>)
  qed (use pl(2) fits(1,2) wf(3) in simp_all)
  then obtain mf' where mf': "openDict ?mf (d_off (fp_dict fp)) = Ret mf'" "same_field ?mf mf'" "dict_view mf' (field_entries fp fd)" by blast
  have "field_view n fd mf'"
    by (rule field_view_of_dict[OF mf'(3) _ tsh pl(1)[folded fp_def] pl(2) wf(1)])
      (use mf'(2) in \<open>simp_all add: same_field_def cfg_def\<close>)
  moreover have "openField b (vp_kind p) n e = Ret mf'"
  proof -
    have dlt: "d_off (fp_dict fp) < 2 ^ 32"
      using openDict_Ret_off[OF mf'(1)] pl(2) by simp
    have r: "rd32 b e = Ret (fp_nameOff fp)" "rd16 b (e + 4) = Ret (length (fc_Name cfg))" "rd64 b (e + 8) = Ret (unat (fc_Boost cfg))"
      "rd64 b (e + 16) = Ret (unat (fc_B cfg))" "rd64 b (e + 24) = Ret (u64_of_int (fd_totalTokens fd))"
      "rd32 b (e + 32) = Ret (fp_docLengthsOff fp)" "rd32 b (e + 36) = Ret (d_off (fp_dict fp))"
      by (rule holds_rd32[OF c(1)] holds_rd16[OF c(2)] holds_rd64[OF c(3)] holds_rd64[OF c(4)] holds_rd64[OF c(5)] holds_rd32[OF c(6)] holds_rd32[OF c(7)],
          use nm(1) pl(2) lens(2) wf(1) unat_bound64 u64_of_int_less dlt in \<open>simp add: field_wf_def fp_def cfg_def\<close>)+
    have "int64_of (u64_of_int (fd_totalTokens fd)) = fd_totalTokens fd" by (rule int64_of_u64) (use wf(1) in \<open>simp_all add: field_wf_def\<close>)
    moreover have "fp_docLengthsOff fp mod 4 = 0" "fp_docLengthsOff fp + 4 * n \<le> length b" using lens by (simp_all add: fp_def mod_eq_0_iff_dvd)
    ultimately show ?thesis unfolding openField_def r bind_out_simps lengths nm(2) using mf'(1) nm(1) by (cases cfg) (simp add: checkSection_def)
  qed
  ultimately show ?thesis by blast
qed

lemma open_fields_exact:
  assumes "\<And>i. i < length fds \<Longrightarrow> \<exists>mf. openField b kind n (e + 48 * i) = Ret mf \<and> V (fds ! i) mf"
  shows "\<exists>mfs. open_fields b kind n e (length fds) = Ret mfs \<and> list_all2 V fds mfs"
  using assms
proof (induction fds arbitrary: e)
  case (Cons fd fds)
  obtain mf where "openField b kind n e = Ret mf" "V fd mf" using Cons.prems[of 0] by auto
  moreover have "\<exists>mf. openField b kind n (e + 48 + 48 * i) = Ret mf \<and> V (fds ! i) mf" if "i < length fds" for i
    using Cons.prems[of "Suc i"] that by (simp add: ac_simps)
  then obtain mfs where "open_fields b kind n (e + 48) (length fds) = Ret mfs" "list_all2 V fds mfs" using Cons.IH[of "e + 48"] by blast
  ultimately show ?case by (intro exI[of _ "mf # mfs"]) simp
qed simp

section \<open>Members\<close>

lemma place_1_next:
  "i < length ns \<Longrightarrow> fst (place 1 off ns) ! i + ns ! i = (fst (place 1 off ns) @ [snd (place 1 off ns)]) ! Suc i"
proof (induction ns arbitrary: off i)
  case (Cons n ns)
  show ?case
  proof (cases i)
    case 0
    then show ?thesis by (cases ns) (simp_all add: nth_append)
  next
    case (Suc k)
    then show ?thesis using Cons.IH[of k "off + n"] Cons.prems by simp
  qed
qed simp

lemma mapped_member_exact:
  assumes "\<And>i. i < length ids \<Longrightarrow> holds (ms_blob ms) (cpy (offs ! i) (ids ! i))" "place 1 off (map length ids) = (offs, end)"
    and "ms_memberOffsets ms = offs @ [end]" "end < length (ms_blob ms)" "i < length ids"
  shows "mapped_member ms i = Ret (ids ! i)"
proof -
  have l: "length offs = length ids" using place_length'[OF assms(2)] by simp
  have n: "ms_memberOffsets ms ! i = offs ! i" "ms_memberOffsets ms ! (i + 1) = offs ! i + length (ids ! i)"
    using place_1_next[of i "map length ids" off] assms(2,3,5) l by (simp_all add: nth_append)
  have "offs ! i + length (ids ! i) \<le> end" using place_bound[of 1 i "map length ids" off] assms(2,5) by simp
  then show ?thesis using n assms(4) holds_cpy[OF assms(1)[OF assms(5)]] by (simp add: mapped_member_def Let_def)
qed

lemma members_from_exact:
  assumes "\<And>i. i < length ids \<Longrightarrow> mapped_member ms i = Ret (ids ! i)"
  shows "i + n = length ids \<Longrightarrow> members_from ms i n = Ret (drop i ids)"
proof (induction n arbitrary: i)
  case (Suc n)
  then show ?case using assms[of i] Suc.IH[of "i + 1"] by (simp add: Cons_nth_drop_Suc)
qed simp

section \<open>Document frequencies\<close>

lemma df_search_exact:
  assumes "sorted_wrt (<) ts" "\<And>i. i < length ts \<Longrightarrow> docFreqRow s rows i = Ret (ts ! i, D (ts ! i))" "hi \<le> length ts"
    and "\<And>i. i < lo \<Longrightarrow> ts ! i < t" "\<And>i. hi \<le> i \<Longrightarrow> i < length ts \<Longrightarrow> t < ts ! i"
  shows "df_search s rows t lo hi = Ret (if t \<in> set ts then D t else 0)"
  using assms
proof (induction s rows t lo hi rule: df_search.induct)
  case (1 s rows t lo hi)
  show ?case
  proof (cases "lo < hi")
    case False
    have "ts ! i \<noteq> t" if "i < length ts" for i using "1.prems"(4)[of i] "1.prems"(5)[of i] that False by (cases "i < lo") auto
    then show ?thesis using False by (subst df_search.simps) (auto simp: in_set_conv_nth)
  next
    case True
    define mid where "mid = (lo + hi) div 2"
    have mid: "lo \<le> mid" "mid < hi" "mid < length ts" using True "1.prems"(3) by (auto simp: mid_def)
    have row: "docFreqRow s rows mid = Ret (ts ! mid, D (ts ! mid))" using "1.prems"(2) mid by blast
    note step = df_search.simps[of s rows t lo hi, folded mid_def]
    have asc: "ts ! i < ts ! j" if "i < j" "j < length ts" for i j using "1.prems"(1) that by (rule sorted_wrt_nth_less)
    consider "ts ! mid = t" | "ts ! mid \<noteq> t" "ts ! mid < t" | "ts ! mid \<noteq> t" "\<not> ts ! mid < t" by blast
    then show ?thesis
    proof cases
      case 1
      then show ?thesis using step True row mid by (auto simp: mid_def[symmetric] Let_def)
    next
      case 2
      have below: "ts ! i < t" if "i < mid + 1" for i
        using that 2(2) asc[of i mid] mid(3) by (cases "i = mid") (auto intro: less_trans)
      have "df_search s rows t (mid + 1) hi = Ret (if t \<in> set ts then D t else 0)"
        by (rule "1.IH"(1)[OF True mid_def row refl 2(1,2)])
          (use "1.prems" below in auto)
      then show ?thesis using step True row 2 by (simp add: mid_def[symmetric] Let_def)
    next
      case 3
      then have gt: "t < ts ! mid" by (metis linorder_less_linear)
      have above: "t < ts ! i" if "mid \<le> i" "i < length ts" for i
        using that gt asc[of mid i] by (cases "i = mid") (auto intro: less_trans)
      have "df_search s rows t lo mid = Ret (if t \<in> set ts then D t else 0)"
        by (rule "1.IH"(2)[OF True mid_def row refl 3(1,2)]) (use "1.prems" above mid in auto)
      then show ?thesis using step True row 3 by (simp add: mid_def[symmetric] Let_def)
    qed
  qed
qed

lemma docFreqRows_exact:
  assumes "\<And>i. i < length ts \<Longrightarrow> docFreqRow s rows i = Ret (f (ts ! i))"
  shows "i + n = length ts \<Longrightarrow> docFreqRows s rows i n = Ret (map f (drop i ts))"
proof (induction n arbitrary: i)
  case (Suc n)
  then show ?case using assms[of i] Suc.IH[of "i + 1"] by (simp add: Cons_nth_drop_Suc[symmetric])
qed simp

section \<open>Opening an encoding\<close>

lemma place_le': "place a off ns = (offs, end) \<Longrightarrow> 0 < a \<Longrightarrow> off \<le> end"
  using place_le[of a off ns] by simp

text \<open>What the reader needs of a whole plan for a blob of \<open>n\<close> bytes: every section inside it and aligned.\<close>

definition plan_shape :: "v2Plan \<Rightarrow> bm25Segment \<Rightarrow> nat \<Rightarrow> bool" where
  "plan_shape p s n \<longleftrightarrow> n < 2 ^ 32 \<and> vp_size p = n \<and> vp_kind p \<le> dictHash \<and> vp_docCount p = length (bs_members s) \<and> vp_memberOffsetsOff p = 32
   \<and> (\<exists>memberOff off1. place 1 (32 + 4 * (length (bs_members s) + 1)) (map length (bs_members s)) = (memberOff, off1)
        \<and> vp_memberOff p = memberOff @ [off1] \<and> off1 < n)
   \<and> vp_fieldTableOff p mod 8 = 0 \<and> vp_fieldTableOff p + 48 * length (bs_fields s) \<le> n
   \<and> (\<forall>i < length (bs_fields s). 4 dvd fp_docLengthsOff (vp_fields p ! i)
        \<and> fp_docLengthsOff (vp_fields p ! i) + 4 * length (bs_members s) \<le> n
        \<and> field_shape (vp_kind p) (bs_fields s ! i) (vp_fields p ! i) n)
   \<and> vp_dfTerms p = sortedKeys (bs_docFreq s) \<and> vp_dfDictOff p mod 8 = 0 \<and> vp_dfEntriesOff p mod 8 = 0 \<and> vp_dfDictOff p + 8 \<le> n
   \<and> vp_dfEntriesOff p + 16 * length (vp_dfTerms p) \<le> n"

lemma field_shape_mono: "field_shape kind fd fp hi \<Longrightarrow> hi \<le> hi' \<Longrightarrow> field_shape kind fd fp hi'"
  using dict_shape_mono by (fastforce simp: field_shape_def)

lemma encoded_layout:
  fixes s kind
  assumes "encodeSegmentV2 s kind = Ret b"
  defines "p \<equiv> layoutV2 s kind"
  shows "plan_shape p s (length b)"
proof -
  let ?nf = "length (bs_fields s)" and ?nm = "length (bs_members s)"
  obtain off1 off2 off3 off4 memberOff nameOff lensOff dfTermOff where l:
    "vp_kind p = kind" "vp_docCount p = ?nm" "vp_memberOffsetsOff p = 32"
    "place 1 (32 + 4 * (?nm + 1)) (map length (bs_members s)) = (memberOff, off1)" "vp_memberOff p = memberOff @ [off1]"
    "vp_fieldTableOff p = align off1 8"
    "place 1 (vp_fieldTableOff p + 48 * ?nf) (map (\<lambda>fd. length (fc_Name (fd_config fd))) (bs_fields s)) = (nameOff, off2)"
    "place 4 off2 (map (\<lambda>_. 4 * ?nm) (bs_fields s)) = (lensOff, off3)"
    "plan_fields kind off3 (bs_fields s) nameOff lensOff = (vp_fields p, off4)"
    "vp_dfTerms p = sortedKeys (bs_docFreq s)" "vp_dfDictOff p = align off4 8" "vp_dfEntriesOff p = align off4 8 + 8"
    "place 1 (vp_dfEntriesOff p + 16 * length (vp_dfTerms p)) (map length (vp_dfTerms p)) = (dfTermOff, vp_size p)"
    unfolding p_def by (rule layoutV2_fields[of s kind])
  have sz: "vp_size p = length b" "length b < 2 ^ 32" "vp_size p \<le> v2MaxBlobBytes"
    using encode_Ret(2,3)[OF assms(1)] by (simp_all add: p_def v2MaxBlobBytes_def)
  have len: "length nameOff = ?nf" "length lensOff = ?nf" using place_length'[OF l(7)] place_length'[OF l(8)] by simp_all
  have ord: "off1 \<le> vp_fieldTableOff p" "vp_fieldTableOff p + 48 * ?nf \<le> off2" "off2 \<le> off3" "off3 \<le> off4"
    "off4 + 8 \<le> vp_dfEntriesOff p" "vp_dfEntriesOff p + 16 * length (vp_dfTerms p) \<le> length b"
    using align_ge[of 8 off1] place_le'[OF l(7)] place_le'[OF l(8)] plan_fields_count[OF l(9)] len align_ge[of 8 off4] l(6,12) place_le'[OF l(13)] sz(1)
    by simp_all
  have cnt: "length (fd_postings fd) \<le> hashEmptySlot" if "fd \<in> set (bs_fields s)" for fd
    using plan_fields_count[OF l(9)] len that sz ord by (fastforce simp: hashEmptySlot_def)
  have "map fp_docLengthsOff (vp_fields p) = lensOff" using plan_fields_spec(1)[OF l(9)] len cnt by simp
  then have fl: "fp_docLengthsOff (vp_fields p ! i) = lensOff ! i" if "i < ?nf" for i using that len(2) by (metis length_map nth_map)
  have "4 dvd lensOff ! i \<and> lensOff ! i + 4 * ?nm \<le> length b" if "i < ?nf" for i
    using place_bound[of 4 i "map (\<lambda>_. 4 * ?nm) (bs_fields s)" off2] l(8) that ord by simp
  moreover have "field_shape kind (bs_fields s ! i) (vp_fields p ! i) (length b)" if "i < ?nf" for i
  proof -
    have "off4 \<le> length b" using ord by simp
    then show ?thesis using plan_fields_spec(2)[OF l(9) len cnt that] field_planned_shape field_shape_mono by (meson le_trans)
  qed
  ultimately show ?thesis
    using sz l(1-6,10-12) ord fl encode_Ret(1)[OF assms(1)] by (simp add: plan_shape_def)
qed

lemma holds_byte: "holds b (Put i [x]) \<Longrightarrow> i < length b \<and> b ! i = x"
  by (auto simp: holds_def take_Suc_conv_app_nth dest!: arg_cong[where f = "\<lambda>xs. xs ! 0"])

lemma shaped_docFreq:
  assumes sh: "plan_shape p s (length b)" and wf: "segment_wf s" and "ms_blob ms = b"
    and h: "\<And>w. w \<in> set (writeDocFreqDict p (bs_docFreq s)) \<or> w \<in> set (header_stores p (length (bs_fields s))) \<Longrightarrow> holds b w"
  shows "openDocFreqDict b = Ret ()"
    and "segmentDocFreq ms t = Ret (df_of (bs_docFreq s) t)"
    and "docFreqEach ms = Ret (map (\<lambda>t. (t, df_of (bs_docFreq s) t)) (sortedKeys (bs_docFreq s)))"
proof -
  have l: "length b < 2 ^ 32" "vp_dfTerms p = sortedKeys (bs_docFreq s)" "vp_dfDictOff p mod 8 = 0" "vp_dfEntriesOff p mod 8 = 0"
    "vp_dfDictOff p + 8 \<le> length b" "vp_dfEntriesOff p + 16 * length (vp_dfTerms p) \<le> length b"
    using sh unfolding plan_shape_def by blast+
  let ?ts = "vp_dfTerms p" and ?D = "df_of (bs_docFreq s)" and ?rows = "vp_dfEntriesOff p"
  have c: "holds b (put32 20 (vp_dfDictOff p))" "holds b (put32 (vp_dfDictOff p) (length ?ts))" "holds b (put32 (vp_dfDictOff p + 4) ?rows)"
    by (rule h, simp add: writeDocFreqDict_def header_stores_def)+
  have r: "rd32 b 20 = Ret (vp_dfDictOff p)" "rd32 b (vp_dfDictOff p) = Ret (length ?ts)" "rd32 b (vp_dfDictOff p + 4) = Ret ?rows"
    by (rule holds_rd32[OF c(1)] holds_rd32[OF c(2)] holds_rd32[OF c(3)], use l in simp)+
  have hdr: "docFreqHeader ms = Ret (length ?ts, ?rows)" unfolding docFreqHeader_def assms(3) r bind_out_simps ..
  have row: "docFreqRow ms ?rows i = Ret (?ts ! i, ?D (?ts ! i))" if i: "i < length ?ts" for i
  proof -
    let ?at = "?rows + 16 * i" and ?t = "?ts ! i" and ?o = "vp_dfTermOff p ! i"
    have k: "holds b (put32 ?at ?o)" "holds b (put32 (?at + 4) (length ?t))" "holds b (put64 (?at + 8) (u64_of_int (?D ?t)))" "holds b (cpy ?o ?t)"
      by (rule h, rule disjI1, use i in \<open>force simp: writeDocFreqDict_def Let_def df_of_def\<close>)+
    have fit: "?o + length ?t \<le> length b" "?o < 2 ^ 32" "length ?t < 2 ^ 32" using holds_cpy[OF k(4)] l(1) by simp_all
    have "- (2 ^ 63) \<le> ?D ?t \<and> ?D ?t < 2 ^ 63"
      using wf by (auto simp: segment_wf_def df_of_def list_all_iff dest!: map_of_SomeD split: option.split)
    then have "int64_of (u64_of_int (?D ?t)) = ?D ?t" by (simp add: int64_of_u64)
    then show ?thesis
      unfolding docFreqRow_def Let_def assms(3) holds_rd32[OF k(1) fit(2)] holds_rd32[OF k(2) fit(3)] holds_rd64[OF k(3) u64_of_int_less] bind_out_simps
      using fit(1) holds_termView[OF k(4)] by simp
  qed
  show "openDocFreqDict b = Ret ()"
    unfolding openDocFreqDict_def r bind_out_simps using l by (simp add: checkSection_def)
  have "t \<in> set ?ts \<longleftrightarrow> map_of (bs_docFreq s) t \<noteq> None" unfolding l(2) by (simp add: sortedKeys_simps map_of_eq_None_iff)
  then have "(if t \<in> set ?ts then ?D t else 0) = ?D t" by (auto simp: df_of_def)
  then show "segmentDocFreq ms t = Ret (?D t)"
    using df_search_exact[of ?ts ms ?rows ?D "length ?ts" 0 t] row sortedKeys_ascending[of "bs_docFreq s"] wf
    by (simp add: segmentDocFreq_def hdr l(2) segment_wf_def)
  show "docFreqEach ms = Ret (map (\<lambda>t. (t, ?D t)) (sortedKeys (bs_docFreq s)))"
    using docFreqRows_exact[of ?ts ms ?rows "\<lambda>t. (t, ?D t)" 0 "length ?ts"] row by (simp add: docFreqEach_def hdr l(2))
qed

lemma shaped_opens:
  assumes sh: "plan_shape p s (length b)" and wf: "segment_wf s" and h: "\<And>w. w \<in> set (segment_stores p s) \<Longrightarrow> holds b w"
  shows "\<exists>ms. openSegmentV2 b = Ret ms \<and> ms_blob ms = b \<and> segment_view s ms"
proof -
  define kind where "kind = vp_kind p"
  let ?nf = "length (bs_fields s)" and ?nm = "length (bs_members s)"
  obtain memberOff off1 where l: "length b < 2 ^ 32" "vp_size p = length b" "vp_kind p = kind" "vp_docCount p = ?nm" "vp_memberOffsetsOff p = 32"
    "place 1 (32 + 4 * (?nm + 1)) (map length (bs_members s)) = (memberOff, off1)" "vp_memberOff p = memberOff @ [off1]"
    "off1 < length b" "vp_fieldTableOff p mod 8 = 0" "vp_fieldTableOff p + 48 * ?nf \<le> length b"
    "\<forall>i < ?nf. 4 dvd fp_docLengthsOff (vp_fields p ! i) \<and> fp_docLengthsOff (vp_fields p ! i) + 4 * ?nm \<le> length b
        \<and> field_shape kind (bs_fields s ! i) (vp_fields p ! i) (length b)"
    using sh unfolding plan_shape_def kind_def by auto
  have hd: "holds b w" if "w \<in> set (header_stores p ?nf)" for w by (rule h) (use that in \<open>simp add: segment_stores_def\<close>)
  have c: "holds b (Put 0 [serialVersion])" "holds b (Put 1 [kind])" "holds b (put16 2 ?nf)" "holds b (put32 4 ?nm)" "holds b (put32 8 32)"
    "holds b (put32 16 (vp_fieldTableOff p))" "holds b (put32 24 (length b))" "holds b (put32 28 0)"
    by (rule hd, simp add: header_stores_def l(2-5))+
  have lo: "length memberOff = ?nm" using place_length'[OF l(6)] by simp
  have ord: "32 + 4 * (?nm + 1) \<le> off1" using place_le'[OF l(6)] by simp
  have r: "rd16 b 2 = Ret ?nf" "rd32 b 4 = Ret ?nm" "rd32 b 8 = Ret 32" "rd32 b 16 = Ret (vp_fieldTableOff p)" "rd32 b 24 = Ret (length b)"
    by (rule holds_rd16[OF c(3)] holds_rd32[OF c(4)] holds_rd32[OF c(5)] holds_rd32[OF c(6)] holds_rd32[OF c(7)],
        use l(1,8,10) ord wf in \<open>simp add: segment_wf_def\<close>)+
  have mo: "u32sAt b 32 (?nm + 1) = Ret (memberOff @ [off1])"
  proof -
    have "u32sAt b 32 (?nm + 1) = Ret (map ((!) (memberOff @ [off1])) [0..<?nm + 1])"
      unfolding u32sAt_def
    proof (rule holds_words)
      fix i assume i: "i < ?nm + 1"
      have "put32 (vp_memberOffsetsOff p + 4 * i) (vp_memberOff p ! i) \<in> set (segment_stores p s)"
        unfolding segment_stores_def set_append set_map by (rule UnI2, rule UnI1, rule imageI) (use i lo l(7) in auto)
      then show "holds b (put32 (32 + 4 * i) ((memberOff @ [off1]) ! i))" unfolding l(5,7) by (rule h)
      show "(memberOff @ [off1]) ! i < 256 ^ 4"
        using i lo l(1,8) place_bound[of 1 i "map length (bs_members s)" "32 + 4 * (?nm + 1)"] l(6) by (cases "i < ?nm") (auto simp: nth_append)
    qed simp
    then show ?thesis using map_nth[of "memberOff @ [off1]"] lo by (metis length_append_singleton Suc_eq_plus1)
  qed
  have kd: "kind \<le> dictHash" using sh by (simp add: plan_shape_def kind_def)
  have "\<exists>mf. openField b kind ?nm (vp_fieldTableOff p + 48 * i) = Ret mf \<and> field_view ?nm (bs_fields s ! i) mf" if i: "i < ?nf" for i
  proof -
    show ?thesis
    proof (rule openField_exact[of p i "bs_fields s ! i" b, unfolded l(3)])
      show "holds b w" if "w \<in> set (writeFieldV2 p i (bs_fields s ! i))" for w by (rule h) (use that i in \<open>auto simp: segment_stores_def\<close>)
    qed (use l(1,4) l(11)[rule_format, OF i] kd wf i in \<open>auto simp: segment_wf_def list_all_length\<close>)
  qed
  then obtain mfs where mfs: "open_fields b kind ?nm (vp_fieldTableOff p) ?nf = Ret mfs" "list_all2 (field_view ?nm) (bs_fields s) mfs"
    using open_fields_exact[of "bs_fields s" b kind ?nm "vp_fieldTableOff p" "field_view ?nm"] by blast
  let ?ms = "\<lparr>ms_blob = b, ms_kind = kind, ms_docCount = ?nm, ms_memberOffsets = memberOff @ [off1], ms_fields = mfs\<rparr>"
  have bytes: "b ! 0 = serialVersion" "b ! 1 = kind" "32 \<le> length b" using c(1,2,8) holds_byte by (auto simp: holds_def)
  have h': "\<And>w. w \<in> set (writeDocFreqDict p (bs_docFreq s)) \<or> w \<in> set (header_stores p (length (bs_fields s))) \<Longrightarrow> holds b w"
    by (rule h) (auto simp: segment_stores_def)
  note df = shaped_docFreq[OF sh wf _ h', of ?ms]
  have "openSegmentV2 b = Ret ?ms"
    unfolding openSegmentV2_def Let_def r bind_out_simps bytes(1,2)
    using bytes(3) kd mo mfs(1) ord l(8-10) df(1) by (simp add: checkSection_def)
  moreover have "mapped_member ?ms i = Ret (bs_members s ! i)" if "i < ?nm" for i
  proof (rule mapped_member_exact[OF _ l(6) _ _ that])
    fix j assume j: "j < ?nm"
    have "holds b (cpy (vp_memberOff p ! j) (bs_members s ! j))" by (rule h) (use j in \<open>auto simp: segment_stores_def\<close>)
    then show "holds (ms_blob ?ms) (cpy (memberOff ! j) (bs_members s ! j))" using j lo by (simp add: l(7) nth_append)
  qed (use l(8) in simp_all)
  ultimately show ?thesis
    using mfs(2) df(2,3) by (intro exI[of _ ?ms]) (simp add: segment_view_def)
qed

lemma encoded_opens:
  assumes e: "encodeSegmentV2 s kind = Ret b" and wf: "segment_wf s"
  shows "\<exists>ms. openSegmentV2 b = Ret ms \<and> ms_blob ms = b \<and> segment_view s ms"
  by (rule shaped_opens[OF encoded_layout[OF e] wf encode_Ret(4)[OF e]])

lemma segment_view_IDs: "segment_view s ms \<Longrightarrow> mapped_IDs ms = Ret (bs_members s)"
  using members_from_exact[of "bs_members s" ms 0 "length (bs_members s)"] by (simp add: mapped_IDs_def segment_view_def)

lemma validate_fields_view: "list_all2 (field_view n) fds mfs \<Longrightarrow> validate_fields mfs = Ret ()"
  by (induction rule: list_all2_induct) (simp_all add: field_view_def)

lemma encoded_validates:
  assumes "encodeSegmentV2 s kind = Ret b" "segment_wf s"
  shows "ValidateSegment sid b = Ret ()"
proof -
  obtain ms where ms: "openSegmentV2 b = Ret ms" "segment_view s ms" using encoded_opens[OF assms] by blast
  then have "validate_body sid b = Ret ()"
    using validate_fields_view segment_view_IDs[OF ms(2)] by (auto simp: validate_body_def segment_view_def)
  then show ?thesis by (simp add: ValidateSegment_def)
qed

text \<open>
  C1: Decoding inverts encoding. Whatever dictionary kind an accumulator was written with, opening the
  blob gives a segment that encodes to the same bytes, lists the same members, and for every field
  answers with the same configuration, totals and lengths, the same posting run for every term and
  for no other, and every term in ascending order; document frequencies agree term by term.
\<close>

theorem codec_roundtrip:
  assumes "segment_wf s" "encodeSegmentV2 s kind = Ret b"
  shows "\<exists>ms. openSegmentV2 b = Ret ms \<and> mapped_Encode ms = Ret b \<and> mapped_IDs ms = Ret (bs_members s)
    \<and> list_all2 (\<lambda>fd mf. mf_config mf = fd_config fd \<and> mf_totalTokens mf = fd_totalTokens fd
         \<and> mf_lengths mf = padded_lengths (length (bs_members s)) fd
         \<and> (\<forall>t. mapped_lookup mf t = Ret (map_option run_of (map_of (fd_postings fd) t)))
         \<and> eachTerm mf = Ret (map (\<lambda>t. (t, run_of (postings_of fd t))) (sortedKeys (fd_postings fd))))
       (bs_fields s) (ms_fields ms)
    \<and> (\<forall>t. segmentDocFreq ms t = Ret (df_of (bs_docFreq s) t))"
proof -
  obtain ms where ms: "openSegmentV2 b = Ret ms" "ms_blob ms = b" "segment_view s ms" using encoded_opens[OF assms(2,1)] by blast
  then show ?thesis
    using segment_view_IDs[OF ms(3)] by (intro exI[of _ ms]) (simp add: mapped_Encode_def segment_view_def field_view_def[abs_def])
qed

text \<open>A small accumulator: one field, two documents, three terms.\<close>

definition demo_segment :: bm25Segment where
  "demo_segment = \<lparr>bs_fields = [\<lparr>fd_config = \<lparr>fc_Name = ''summary'', fc_Boost = 1, fc_B = 0\<rparr>,
       fd_postings = [(''get'', [\<lparr>p_docID = 0, p_tf = 1\<rparr>]), (''user'', [\<lparr>p_docID = 0, p_tf = 1\<rparr>, \<lparr>p_docID = 1, p_tf = 2\<rparr>])],
       fd_docLengths = [2, 2], fd_totalTokens = 4\<rparr>],
     bs_members = [''a'', ''b''], bs_docFreq = [(''get'', 1), (''user'', 2)]\<rparr>"

lemma demo_segment_encodes: "segment_wf demo_segment" "\<exists>b. encodeSegmentV2 demo_segment dictBlocked = Ret b"
proof -
  show "segment_wf demo_segment" by (simp add: segment_wf_def field_wf_def demo_segment_def gomap_ok_def)
  define p where "p = layoutV2 demo_segment dictBlocked"
  let ?s = demo_segment
  obtain off1 off2 off3 off4 memberOff nameOff lensOff dfTermOff where l:
    "place 1 (32 + 4 * (length (bs_members ?s) + 1)) (map length (bs_members ?s)) = (memberOff, off1)" "vp_fieldTableOff p = align off1 8"
    "place 1 (vp_fieldTableOff p + 48 * length (bs_fields ?s)) (map (\<lambda>fd. length (fc_Name (fd_config fd))) (bs_fields ?s)) = (nameOff, off2)"
    "place 4 off2 (map (\<lambda>_. 4 * length (bs_members ?s)) (bs_fields ?s)) = (lensOff, off3)"
    "plan_fields dictBlocked off3 (bs_fields ?s) nameOff lensOff = (vp_fields p, off4)"
    "vp_dfTerms p = sortedKeys (bs_docFreq ?s)" "vp_dfEntriesOff p = align off4 8 + 8"
    "place 1 (vp_dfEntriesOff p + 16 * length (vp_dfTerms p)) (map length (vp_dfTerms p)) = (dfTermOff, vp_size p)"
    by (rule layoutV2_fields[of ?s dictBlocked, folded p_def])
  have 1: "vp_fieldTableOff p = 48" using l(1,2) by (simp add: demo_segment_def place.simps align_def)
  have 2: "off2 = 103" "nameOff = [96]" using l(3) unfolding 1 by (simp_all add: demo_segment_def place.simps)
  have 3: "off3 = 112" "lensOff = [104]" using l(4) unfolding 2 by (simp_all add: demo_segment_def place.simps align_def)
  have 4: "off4 = 192"
    using l(5) unfolding 3 2 by (simp add: demo_segment_def place.simps align_def sortedKeys_def planDict_def planBlockedDict_def
      blockCountOf_def blockedBlockTerms_def Let_def blockedPayloadSize_def block_slice_def postings_of_def)
  have "vp_size p = 239"
    using l(8) unfolding l(7) 4 l(6) by (simp add: demo_segment_def place.simps align_def sortedKeys_def)
  then show "\<exists>b. encodeSegmentV2 demo_segment dictBlocked = Ret b"
    by (intro encode_total) (simp_all add: p_def v2MaxBlobBytes_def dictBlocked_def dictHash_def)
qed

theorem codec_roundtrip_witness:
  "\<exists>b ms. encodeSegmentV2 demo_segment dictBlocked = Ret b \<and> openSegmentV2 b = Ret ms \<and> mapped_Encode ms = Ret b
    \<and> mapped_IDs ms = Ret [''a'', ''b''] \<and> segmentDocFreq ms ''user'' = Ret 2"
proof -
  obtain b where b: "encodeSegmentV2 demo_segment dictBlocked = Ret b" using demo_segment_encodes(2) by blast
  show ?thesis using codec_roundtrip[OF demo_segment_encodes(1) b] b by (auto simp: demo_segment_def df_of_def)
qed

end
