(* ===== verification/Bm25Heap.thy ===== *)
theory Bm25Heap
  imports TopK
begin

text \<open>
  \<open>internal/searchengine/formats/bm25/heap.go\<close> over the standard library's \<open>container/heap\<close>: the
  min-heap of scored documents of one segment's search. \<open>go_up\<close>, \<open>go_down\<close>, \<open>go_Init\<close>, \<open>go_Push\<close>,
  \<open>go_Fix\<close> and \<open>go_Pop\<close> are the library's algorithms over a type's \<open>Less\<close>, the interface they take; the
  locale \<open>keyed_heap\<close> is a \<open>Less\<close> that compares keys, and carries their laws for every heap of the
  package. A min-queue is a locale, and draining one is shown to sort, once, inside it.
\<close>

record 'sc scoredDoc =
  sd_id :: nat
  sd_score :: 'sc

definition sd_Less :: "'sc::linorder scoredDoc list \<Rightarrow> nat \<Rightarrow> nat \<Rightarrow> bool" where
  "sd_Less h i j \<longleftrightarrow> sd_score (h ! i) < sd_score (h ! j)"

section \<open>The library's algorithms\<close>

function go_up :: "('a list \<Rightarrow> nat \<Rightarrow> nat \<Rightarrow> bool) \<Rightarrow> 'a list \<Rightarrow> nat \<Rightarrow> 'a list" where
  "go_up before h j =
     (let i = (j - 1) div 2
      in if i = j \<or> \<not> before h j i then h else go_up before (heap_swap h i j) i)"
  by pat_completeness auto
termination
  by (relation "measure (\<lambda>(before, h, j). j)") auto

text \<open>\<open>down\<close> reports the index it stopped at: it moved when that is above the start.\<close>

function go_down :: "('a list \<Rightarrow> nat \<Rightarrow> nat \<Rightarrow> bool) \<Rightarrow> 'a list \<Rightarrow> nat \<Rightarrow> nat \<Rightarrow> 'a list \<times> nat" where
  "go_down before h i n =
     (let j1 = 2 * i + 1
      in if j1 \<ge> n then (h, i)
         else (let j2 = j1 + 1; j = (if j2 < n \<and> before h j2 j1 then j2 else j1)
               in if \<not> before h j i then (h, i) else go_down before (heap_swap h i j) j n))"
  by pat_completeness auto
termination
  by (relation "measure (\<lambda>(before, h, i, n). n - i)") (auto simp: Let_def)

declare go_up.simps [simp del] go_down.simps [simp del]

definition go_Init :: "('a list \<Rightarrow> nat \<Rightarrow> nat \<Rightarrow> bool) \<Rightarrow> 'a list \<Rightarrow> 'a list" where
  "go_Init before h = fold (\<lambda>i h. fst (go_down before h i (length h))) (rev [0..<length h div 2]) h"

definition go_Push :: "('a list \<Rightarrow> nat \<Rightarrow> nat \<Rightarrow> bool) \<Rightarrow> 'a list \<Rightarrow> 'a \<Rightarrow> 'a list" where
  "go_Push before h x = go_up before (h @ [x]) (length h)"

definition go_Fix :: "('a list \<Rightarrow> nat \<Rightarrow> nat \<Rightarrow> bool) \<Rightarrow> 'a list \<Rightarrow> nat \<Rightarrow> 'a list" where
  "go_Fix before h i = (let (h', stop) = go_down before h i (length h) in if stop > i then h' else go_up before h' i)"

definition go_Pop :: "('a list \<Rightarrow> nat \<Rightarrow> nat \<Rightarrow> bool) \<Rightarrow> 'a list \<Rightarrow> 'a \<times> 'a list" where
  "go_Pop before h =
     (let n = length h - 1; h' = fst (go_down before (heap_swap h 0 n) 0 n)
      in (h' ! n, take n h'))"

definition heap_Push :: "'sc::linorder scoredDoc list \<Rightarrow> 'sc scoredDoc \<Rightarrow> 'sc scoredDoc list" where
  "heap_Push = go_Push sd_Less"

definition heap_Fix :: "'sc::linorder scoredDoc list \<Rightarrow> nat \<Rightarrow> 'sc scoredDoc list" where
  "heap_Fix = go_Fix sd_Less"

definition heap_Pop :: "'sc::linorder scoredDoc list \<Rightarrow> 'sc scoredDoc \<times> 'sc scoredDoc list" where
  "heap_Pop = go_Pop sd_Less"

section \<open>Heaps whose comparison is of keys\<close>

lemma heap_swap_map: "i < length h \<Longrightarrow> j < length h \<Longrightarrow> map f (heap_swap h i j) = heap_swap (map f h) i j"
  by (simp add: heap_swap_def map_update)

lemma heap_swap_commute: "i \<noteq> j \<Longrightarrow> heap_swap h i j = heap_swap h j i"
  by (simp add: heap_swap_def list_update_swap)

lemma go_down_length [simp]: "length (fst (go_down before h i n)) = length h"
  by (induction before h i n rule: go_down.induct) (subst go_down.simps, simp add: Let_def)

lemma mset_go_up [simp]: "j < length h \<Longrightarrow> mset (go_up before h j) = mset h"
proof (induction before h j rule: go_up.induct)
  case (1 before h j)
  then show ?case by (subst go_up.simps) (auto simp: Let_def)
qed

lemma mset_go_down [simp]: "n \<le> length h \<Longrightarrow> mset (fst (go_down before h i n)) = mset h"
proof (induction before h i n rule: go_down.induct)
  case (1 before h i n)
  then show ?case by (subst go_down.simps) (auto simp: Let_def)
qed

lemma mset_go_Push: "mset (go_Push before h x) = add_mset x (mset h)"
  by (simp add: go_Push_def)

lemma mset_go_Fix: "i < length h \<Longrightarrow> mset (go_Fix before h i) = mset h"
proof -
  assume i: "i < length h"
  obtain h' stop where d: "go_down before h i (length h) = (h', stop)" by fastforce
  then have "mset h' = mset h" "length h' = length h" using mset_go_down[of "length h" h before i] go_down_length[of before h i "length h"] by simp_all
  then show ?thesis using i d by (simp add: go_Fix_def)
qed

lemma mset_go_Pop:
  assumes "h \<noteq> []"
  shows "mset h = add_mset (fst (go_Pop before h)) (mset (snd (go_Pop before h)))"
proof -
  define h' where "h' = fst (go_down before (heap_swap h 0 (length h - 1)) 0 (length h - 1))"
  have l: "length h' = length h" "mset h' = mset h" using assms by (simp_all add: h'_def)
  have "h' = take (length h - 1) h' @ [h' ! (length h - 1)]"
    using l(1) assms by (metis Suc_pred' diff_Suc_less length_greater_0_conv take_Suc_conv_app_nth take_all_iff order_refl One_nat_def)
  then have "mset h' = add_mset (h' ! (length h - 1)) (mset (take (length h - 1) h'))" by (metis mset_append mset_single_iff_right add_mset_add_single mset.simps(1,2) append_Nil)
  then show ?thesis using l(2) by (simp add: go_Pop_def Let_def h'_def)
qed

lemma go_up_0 [simp]: "go_up before h 0 = h"
  by (subst go_up.simps) simp

lemma go_Fix_root: "go_Fix before h 0 = fst (go_down before h 0 (length h))"
  by (simp add: go_Fix_def split: prod.split)

lemma mset_go_Init: "mset (go_Init before h) = mset h"
proof -
  have "length (fold (\<lambda>i h. fst (go_down before h i (length h))) is h) = length h \<and> mset (fold (\<lambda>i h. fst (go_down before h i (length h))) is h) = mset h" for "is"
    by (induction "is" arbitrary: h) simp_all
  then show ?thesis by (simp add: go_Init_def)
qed

locale keyed_heap =
  fixes before :: "'a list \<Rightarrow> nat \<Rightarrow> nat \<Rightarrow> bool" and key :: "'a \<Rightarrow> 'k::linorder"
  assumes less_key: "i < length h \<Longrightarrow> j < length h \<Longrightarrow> before h i j \<longleftrightarrow> key (h ! i) < key (h ! j)"
begin

text \<open>Any reading of the elements as hits scored by their keys.\<close>

lemma less_map: "(\<And>d. hit_Score (f d) = key d) \<Longrightarrow> i < length h \<Longrightarrow> j < length h \<Longrightarrow> heap_less (map f h) i j = before h i j"
  by (simp add: heap_less_def less_key)

lemma go_up_siftUp:
  assumes "\<And>d. hit_Score (f d) = key d"
  shows "j < length h \<Longrightarrow> map f (go_up before h j) = siftUp (map f h) j"
proof (induction j arbitrary: h rule: less_induct)
  case (less j)
  let ?i = "(j - 1) div 2"
  have i: "?i < length h" "?i = j \<longleftrightarrow> j = 0" using less.prems by auto
  have l: "heap_less (map f h) j ?i = before h j ?i" by (rule less_map) (use assms less.prems i in auto)
  show ?case
  proof (cases "?i = j \<or> \<not> before h j ?i")
    case True
    then show ?thesis using l i by (subst go_up.simps, subst siftUp.simps) (auto simp: Let_def)
  next
    case False
    have "map f (go_up before (heap_swap h ?i j) ?i) = siftUp (map f (heap_swap h ?i j)) ?i"
      by (rule less.IH) (use False i in auto)
    then show ?thesis
      using False l i heap_swap_commute[of ?i j "map f h"] less.prems by (subst go_up.simps, subst siftUp.simps) (auto simp: Let_def heap_swap_map)
  qed
qed

text \<open>One step of \<open>down\<close>: to the lesser child, when it is less.\<close>

definition least_child :: "'a list \<Rightarrow> nat \<Rightarrow> nat \<Rightarrow> nat" where
  "least_child h i n = (if 2 * i + 2 < n \<and> before h (2 * i + 2) (2 * i + 1) then 2 * i + 2 else 2 * i + 1)"

lemma go_down_step:
  "2 * i + 1 \<ge> n \<Longrightarrow> go_down before h i n = (h, i)"
  "2 * i + 1 < n \<Longrightarrow> go_down before h i n =
     (if \<not> before h (least_child h i n) i then (h, i) else go_down before (heap_swap h i (least_child h i n)) (least_child h i n) n)"
  by (subst go_down.simps, simp add: Let_def least_child_def)+

lemma least_child_bounds: "2 * i + 1 < n \<Longrightarrow> i < least_child h i n \<and> least_child h i n < n \<and> (least_child h i n - 1) div 2 = i"
  by (auto simp: least_child_def)

lemma go_down_siftDown:
  assumes "\<And>d. hit_Score (f d) = key d"
  shows "n = length h \<Longrightarrow> map f (fst (go_down before h i n)) = siftDown (map f h) i"
proof (induction "n - i" arbitrary: h i rule: less_induct)
  case less
  let ?j = "least_child h i n"
  show ?case
  proof (cases "2 * i + 1 \<ge> n")
    case True
    then show ?thesis using less.prems by (simp add: go_down_step) (subst siftDown.simps, simp add: Let_def)
  next
    case False
    have b: "i < length h" "?j < length h" "2 * i + 1 < length h" "i < ?j" using False less.prems least_child_bounds[of i n h] by auto
    have l: "heap_less (map f h) ?j i = before h ?j i"
      "2 * i + 2 < length h \<Longrightarrow> heap_less (map f h) (2 * i + 2) (2 * i + 1) = before h (2 * i + 2) (2 * i + 1)"
      using less_map[OF assms b(2,1)] less_map[OF assms _ b(3), of "2 * i + 2"] by simp_all
    have j: "?j = (if 2 * i + 2 < length (map f h) \<and> heap_less (map f h) (2 * i + 2) (2 * i + 1) then 2 * i + 2 else 2 * i + 1)"
      using l(2) less.prems by (auto simp: least_child_def)
    have IH: "map f (fst (go_down before (heap_swap h i ?j) ?j n)) = siftDown (map f (heap_swap h i ?j)) ?j"
      by (rule less.hyps) (use b less.prems in auto)
    have s: "siftDown (map f h) i = (if \<not> heap_less (map f h) ?j i then map f h else siftDown (heap_swap (map f h) i ?j) ?j)"
      using b(3) unfolding j by (subst siftDown.simps) (simp add: Let_def)
    show ?thesis using IH b l(1) False unfolding s by (simp add: heap_swap_map go_down_step)
  qed
qed

text \<open>The part of the slice past \<open>n\<close> is not touched.\<close>

lemma go_down_take:
  "n \<le> length h \<Longrightarrow> i < n \<or> n = 0 \<Longrightarrow>
   take n (fst (go_down before h i n)) = fst (go_down before (take n h) i n) \<and> drop n (fst (go_down before h i n)) = drop n h"
proof (induction "n - i" arbitrary: h i rule: less_induct)
  case less
  let ?j = "least_child h i n"
  show ?case
  proof (cases "2 * i + 1 \<ge> n")
    case True
    then show ?thesis by (simp add: go_down_step)
  next
    case False
    have b: "i < n" "?j < n" "2 * i + 1 < n" "i < ?j" using False least_child_bounds[of i n h] by auto
    have l: "before (take n h) a c = before h a c" if "a < n" "c < n" for a c using that less.prems by (simp add: less_key)
    have j: "least_child (take n h) i n = ?j" using l[of "2 * i + 2" "2 * i + 1"] by (auto simp: least_child_def)
    have sw: "take n (heap_swap h i ?j) = heap_swap (take n h) i ?j" "drop n (heap_swap h i ?j) = drop n h"
      using b by (simp_all add: heap_swap_def take_update_swap)
    have IH: "take n (fst (go_down before (heap_swap h i ?j) ?j n)) = fst (go_down before (take n (heap_swap h i ?j)) ?j n)
        \<and> drop n (fst (go_down before (heap_swap h i ?j) ?j n)) = drop n (heap_swap h i ?j)"
      by (rule less.hyps) (use b less.prems in auto)
    show ?thesis using IH l[OF b(2,1)] sw b(3) j by (simp add: go_down_step)
  qed
qed

section \<open>Heap order\<close>

text \<open>No child precedes its parent, for the parents from \<open>m\<close> on; \<open>hole m h i\<close> excepts the parent \<open>i\<close>.\<close>

definition ordered_from :: "nat \<Rightarrow> 'a list \<Rightarrow> bool" where
  "ordered_from m h \<longleftrightarrow> (\<forall>j < length h. 0 < j \<longrightarrow> m \<le> (j - 1) div 2 \<longrightarrow> key (h ! ((j - 1) div 2)) \<le> key (h ! j))"

definition hole :: "nat \<Rightarrow> 'a list \<Rightarrow> nat \<Rightarrow> bool" where
  "hole m h i \<longleftrightarrow>
     (\<forall>j < length h. 0 < j \<longrightarrow> m \<le> (j - 1) div 2 \<longrightarrow> (j - 1) div 2 \<noteq> i \<longrightarrow> key (h ! ((j - 1) div 2)) \<le> key (h ! j))
   \<and> (\<forall>j < length h. 0 < j \<longrightarrow> (j - 1) div 2 = i \<longrightarrow> 0 < i \<longrightarrow> m \<le> (i - 1) div 2 \<longrightarrow> key (h ! ((i - 1) div 2)) \<le> key (h ! j))"

lemma children: "0 < j \<Longrightarrow> (j - 1) div 2 = i \<longleftrightarrow> j = 2 * i + 1 \<or> j = 2 * i + 2" for j :: nat
  by linarith

lemma least_child_least:
  assumes "n = length h" "j < n" "0 < j" "(j - 1) div 2 = i"
  shows "key (h ! least_child h i n) \<le> key (h ! j)"
proof -
  have "j = 2 * i + 1 \<or> j = 2 * i + 2" using assms children by blast
  then show ?thesis using assms(1,2) less_key[of "2 * i + 2" h "2 * i + 1"] by (auto simp: least_child_def)
qed

lemma hole_swap:
  assumes h: "hole m h i" and "m \<le> i" and c: "c < length h" "(c - 1) div 2 = i" "0 < c"
    and least: "\<And>j. j < length h \<Longrightarrow> 0 < j \<Longrightarrow> (j - 1) div 2 = i \<Longrightarrow> key (h ! c) \<le> key (h ! j)"
    and lt: "key (h ! c) < key (h ! i)"
  shows "hole m (heap_swap h i c) c"
proof -
  let ?s = "\<lambda>j. key (h ! j)" and ?g = "heap_swap h i c"
  have i: "i < c" "i < length h" using c parent_less[of c] by auto
  have nth: "key (?g ! j) = (if j = c then ?s i else if j = i then ?s c else ?s j)" if "j < length h" for j
    using that i c by (simp add: nth_heap_swap)
  have 1: "key (?g ! ((j - 1) div 2)) \<le> key (?g ! j)"
    if j: "j < length h" "0 < j" "m \<le> (j - 1) div 2" "(j - 1) div 2 \<noteq> c" for j
  proof -
    define q where "q = (j - 1) div 2"
    have q: "q < length h" "m \<le> q" "q \<noteq> c" using j by (simp_all add: q_def)
    have pj: "q < j" using j(2) parent_less by (simp add: q_def)
    consider "q = i" "j = c" | "q = i" "j \<noteq> c" "j \<noteq> i" | "q \<noteq> i" "j = i" | "q \<noteq> i" "j \<noteq> i" "j \<noteq> c"
      using c pj by (cases "j = c"; cases "j = i") (auto simp: q_def)
    then have "key (?g ! q) \<le> key (?g ! j)"
    proof cases
      case 1 then show ?thesis using nth[OF j(1)] nth[OF q(1)] lt i by simp
    next
      case 2 then show ?thesis using nth[OF j(1)] nth[OF q(1)] least[OF j(1,2)] i by (simp add: q_def)
    next
      case 3
      have "0 < i" using pj 3 by simp
      then have "?s q \<le> ?s c" using h c j 3 q(2) by (simp add: hole_def q_def)
      then show ?thesis using 3 nth[OF j(1)] nth[OF q(1)] i q(3) by simp
    next
      case 4
      have "?s q \<le> ?s j" using h j 4 q(2) by (simp add: hole_def q_def)
      then show ?thesis using 4 nth[OF j(1)] nth[OF q(1)] q(3) by simp
    qed
    then show ?thesis by (simp add: q_def)
  qed
  have 2: "key (?g ! ((c - 1) div 2)) \<le> key (?g ! j)" if j: "j < length h" "0 < j" "(j - 1) div 2 = c" for j
  proof -
    have "j \<noteq> c" "j \<noteq> i" using j parent_less[of j] i by auto
    moreover have "?s ((j - 1) div 2) \<le> ?s j"
      using h j(1,2) i assms(2) j(3) unfolding hole_def by (metis less_imp_le nat_neq_iff order_trans)
    ultimately show ?thesis using nth[OF j(1)] nth[OF i(2)] c i j(3) by simp
  qed
  show ?thesis unfolding hole_def using 1 2 by simp
qed

lemma go_down_ordered:
  "hole m h i \<Longrightarrow> m \<le> i \<Longrightarrow> n = length h \<Longrightarrow> ordered_from m (fst (go_down before h i n))"
proof (induction "n - i" arbitrary: h i rule: less_induct)
  case less
  let ?c = "least_child h i n"
  have "ordered_from m h" if "2 * i + 1 \<ge> n \<or> \<not> before h ?c i"
    unfolding ordered_from_def
  proof (intro allI impI)
    fix j assume j: "j < length h" "0 < j" "m \<le> (j - 1) div 2"
    show "key (h ! ((j - 1) div 2)) \<le> key (h ! j)"
    proof (cases "(j - 1) div 2 = i")
      case True
      then have n: "2 * i + 1 < n" using j less.prems(3) children[of j i] by linarith
      then have "key (h ! i) \<le> key (h ! ?c)"
        using that least_child_bounds[OF n, of h] less_key[of ?c h i] less.prems(3) by auto
      then show ?thesis using least_child_least[OF less.prems(3) _ j(2) True] j(1) less.prems(3) True by simp
    qed (use j less.prems(1) in \<open>simp add: hole_def\<close>)
  qed
  moreover have "ordered_from m (fst (go_down before (heap_swap h i ?c) ?c n))" if "2 * i + 1 < n" "before h ?c i"
  proof (rule less.hyps)
    have b: "i < ?c" "?c < n" "(?c - 1) div 2 = i" using least_child_bounds[OF that(1), of h] by simp_all
    show "hole m (heap_swap h i ?c) ?c"
      by (rule hole_swap[OF less.prems(1,2)])
        (use b that less.prems(3) less_key[of ?c h i] least_child_least[OF less.prems(3)] in auto)
  qed (use less.prems least_child_bounds[OF that(1), of h] in auto)
  ultimately show ?case by (cases "2 * i + 1 < n") (simp_all add: go_down_step)
qed

lemma go_Init_ordered: "ordered_from 0 (go_Init before h)"
proof -
  have "ordered_from (length h div 2 - k) (fold (\<lambda>i h. fst (go_down before h i (length h))) (take k (rev [0..<length h div 2])) h)
      \<and> length (fold (\<lambda>i h. fst (go_down before h i (length h))) (take k (rev [0..<length h div 2])) h) = length h" if "k \<le> length h div 2" for k
    using that
  proof (induction k)
    case 0
    have "ordered_from (length h div 2) h" unfolding ordered_from_def by auto
    then show ?case by simp
  next
    case (Suc k)
    define g where "g = fold (\<lambda>i h. fst (go_down before h i (length h))) (take k (rev [0..<length h div 2])) h"
    let ?i = "length h div 2 - Suc k"
    have IH: "ordered_from (Suc ?i) g" "length g = length h" using Suc by (simp_all add: g_def Suc_diff_Suc)
    have "rev [0..<length h div 2] ! k = ?i" using Suc.prems by (simp add: rev_nth)
    then have "take (Suc k) (rev [0..<length h div 2]) = take k (rev [0..<length h div 2]) @ [?i]"
      using Suc.prems by (simp add: take_Suc_conv_app_nth)
    moreover have "hole ?i g ?i"
      unfolding hole_def
    proof (intro conjI allI impI)
      fix j assume "j < length g" "0 < j" "?i \<le> (j - 1) div 2" "(j - 1) div 2 \<noteq> ?i"
      then show "key (g ! ((j - 1) div 2)) \<le> key (g ! j)" using IH(1) unfolding ordered_from_def by simp
    next
      fix j assume "0 < ?i" "?i \<le> (?i - 1) div 2"
      then have False by linarith
      then show "key (g ! ((?i - 1) div 2)) \<le> key (g ! j)" ..
    qed
    ultimately show ?case using go_down_ordered[of ?i g ?i "length g"] IH(2) by (simp add: g_def)
  qed
  from this[of "length h div 2"] show ?thesis by (simp add: go_Init_def)
qed

lemma root_least:
  assumes "ordered_from 0 h" "j < length h"
  shows "key (h ! 0) \<le> key (h ! j)"
  using assms(2)
proof (induction j rule: less_induct)
  case (less j)
  show ?case
  proof (cases "j = 0")
    case False
    then have "key (h ! ((j - 1) div 2)) \<le> key (h ! j)" using assms(1) less.prems by (simp add: ordered_from_def)
    moreover have "key (h ! 0) \<le> key (h ! ((j - 1) div 2))"
      using less.IH[of "(j - 1) div 2"] less.prems False parent_less[of j] by simp
    ultimately show ?thesis by simp
  qed simp
qed

lemma go_Fix_ordered: "ordered_from 0 h \<Longrightarrow> ordered_from 0 (go_Fix before (h[0 := x]) 0)"
  unfolding go_Fix_root by (rule go_down_ordered) (auto simp: ordered_from_def hole_def nth_list_update)

lemma go_Pop_ordered:
  assumes "ordered_from 0 h" "h \<noteq> []"
  shows "fst (go_Pop before h) = h ! 0" "ordered_from 0 (snd (go_Pop before h))"
proof -
  define n where "n = length h - 1"
  have n: "n < length h" "n \<le> length (heap_swap h 0 n)" "0 < n \<or> n = 0" using assms(2) by (auto simp: n_def)
  note ht = go_down_take[OF n(2,3)]
  have pop: "go_Pop before h = (fst (go_down before (heap_swap h 0 n) 0 n) ! n, take n (fst (go_down before (heap_swap h 0 n) 0 n)))"
    unfolding go_Pop_def n_def Let_def ..
  have "fst (go_down before (heap_swap h 0 n) 0 n) ! n = heap_swap h 0 n ! n"
    using arg_cong[OF conjunct2[OF ht], of "\<lambda>xs. xs ! 0"] n(1) by (simp add: nth_drop)
  then show "fst (go_Pop before h) = h ! 0" unfolding pop using n(1) by (simp add: heap_swap_def nth_list_update)
  have "ordered_from 0 (fst (go_down before (take n (heap_swap h 0 n)) 0 n))"
  proof (rule go_down_ordered)
    have sw: "heap_swap h 0 n ! k = h ! k" if "k < n" "0 < k" for k
      using that n(1) by (simp add: heap_swap_def nth_list_update)
    show "hole 0 (take n (heap_swap h 0 n)) 0"
      unfolding hole_def
    proof (intro conjI allI impI)
      fix j assume j: "j < length (take n (heap_swap h 0 n))" "0 < j" "(j - 1) div 2 \<noteq> 0"
      then have b: "j < n" "(j - 1) div 2 < n" "j \<noteq> n" "(j - 1) div 2 \<noteq> n" using n(1) by auto
      have "key (h ! ((j - 1) div 2)) \<le> key (h ! j)" using assms(1) b n(1) j(2) by (simp add: ordered_from_def)
      then show "key (take n (heap_swap h 0 n) ! ((j - 1) div 2)) \<le> key (take n (heap_swap h 0 n) ! j)"
        using b j sw by simp
    qed simp
  qed (use n in auto)
  then show "ordered_from 0 (snd (go_Pop before h))" using ht by (simp add: pop)
qed

end

interpretation scored_heap: keyed_heap "sd_Less :: 'sc::linorder scoredDoc list \<Rightarrow> nat \<Rightarrow> nat \<Rightarrow> bool" sd_score
  by unfold_locales (simp add: sd_Less_def)

lemmas mset_heap_Push = mset_go_Push[where before = sd_Less, folded heap_Push_def]
lemmas mset_heap_Fix = mset_go_Fix[where before = sd_Less, folded heap_Fix_def]
lemmas mset_heap_Pop = mset_go_Pop[where before = sd_Less, folded heap_Pop_def]

lemma set_heap_ops [simp]:
  "set (heap_Push h x) = insert x (set h)" "i < length h \<Longrightarrow> set (heap_Fix h i) = set h"
  using mset_heap_Push[of h x] mset_heap_Fix[of i h] by (metis set_mset_add_mset_insert set_mset_mset)+

section \<open>Draining a min-queue\<close>

primrec drain :: "('h \<Rightarrow> 'a \<times> 'h) \<Rightarrow> nat \<Rightarrow> 'h \<Rightarrow> 'a list" where
  "drain pop 0 h = []"
| "drain pop (Suc n) h = fst (pop h) # drain pop n (snd (pop h))"

locale min_queue =
  fixes inv :: "'h \<Rightarrow> bool" and elems :: "'h \<Rightarrow> 'a multiset" and pop :: "'h \<Rightarrow> 'a \<times> 'h" and key :: "'a \<Rightarrow> 'k::linorder"
  assumes pop_elems: "inv h \<Longrightarrow> elems h \<noteq> {#} \<Longrightarrow> elems h = add_mset (fst (pop h)) (elems (snd (pop h)))"
    and pop_inv: "inv h \<Longrightarrow> elems h \<noteq> {#} \<Longrightarrow> inv (snd (pop h))"
    and pop_least: "inv h \<Longrightarrow> y \<in># elems h \<Longrightarrow> key (fst (pop h)) \<le> key y"
begin

lemma drain_sorts:
  "inv h \<Longrightarrow> size (elems h) = n \<Longrightarrow> mset (drain pop n h) = elems h \<and> sorted (map key (drain pop n h))"
proof (induction n arbitrary: h)
  case (Suc n)
  have ne: "elems h \<noteq> {#}" using Suc.prems(2) by auto
  have e: "elems h = add_mset (fst (pop h)) (elems (snd (pop h)))" by (rule pop_elems[OF Suc.prems(1) ne])
  then have "size (elems (snd (pop h))) = n" using Suc.prems(2) by (metis size_add_mset nat.inject)
  then have IH: "mset (drain pop n (snd (pop h))) = elems (snd (pop h))" "sorted (map key (drain pop n (snd (pop h))))"
    using Suc.IH[OF pop_inv[OF Suc.prems(1) ne]] by auto
  have "key (fst (pop h)) \<le> key y" if "y \<in> set (drain pop n (snd (pop h)))" for y
    using pop_least[OF Suc.prems(1), of y] that IH(1) e by (metis set_mset_mset union_iff add_mset_add_single)
  then show ?case using IH e by simp
qed simp

end

definition hit_of :: "(nat \<Rightarrow> ExternalID) \<Rightarrow> 'sc scoredDoc \<Rightarrow> 'sc Hit" where
  "hit_of m d = \<lparr>hit_ID = m (sd_id d), hit_Score = sd_score d\<rparr>"

lemma hit_of_score [simp]: "hit_Score (hit_of m d) = sd_score d"
  by (simp add: hit_of_def)

lemma heap_Push_sift: "map (hit_of m) (heap_Push h x) = siftUp (map (hit_of m) h @ [hit_of m x]) (length h)"
  using scored_heap.go_up_siftUp[of "hit_of m" "length h" "h @ [x]"] by (simp add: heap_Push_def go_Push_def)

lemma heap_Fix_sift: "map (hit_of m) (heap_Fix h 0) = siftDown (map (hit_of m) h) 0"
  using scored_heap.go_down_siftDown[of "hit_of m" "length h" h 0] by (simp add: heap_Fix_def go_Fix_root)

lemma heap_Pop_sift:
  assumes "h \<noteq> []"
  shows "fst (heap_Pop h) = h ! 0" "length (snd (heap_Pop h)) = length h - 1"
    and "map (hit_of m) (snd (heap_Pop h)) = siftDown ((take (length h - 1) (map (hit_of m) h))[0 := hit_of m (last h)]) 0"
proof -
  define n where "n = length h - 1"
  have n: "n < length h" "n \<le> length (heap_swap h 0 n)" "0 < n \<or> n = 0" using assms by (auto simp: n_def)
  note ht = scored_heap.go_down_take[OF n(2,3)]
  have tk: "take n (heap_swap h 0 n) = (take n h)[0 := last h]"
    using assms by (cases "n = 0") (auto simp: heap_swap_def take_update_swap last_conv_nth n_def list_update_beyond)
  have "fst (go_down sd_Less (heap_swap h 0 n) 0 n) ! n = heap_swap h 0 n ! n"
    using arg_cong[OF conjunct2[OF ht], of "\<lambda>xs. xs ! 0"] n(1) by (simp add: nth_drop)
  moreover have pop: "heap_Pop h = (fst (go_down sd_Less (heap_swap h 0 n) 0 n) ! n, take n (fst (go_down sd_Less (heap_swap h 0 n) 0 n)))"
    unfolding heap_Pop_def go_Pop_def n_def Let_def ..
  ultimately show "fst (heap_Pop h) = h ! 0" using n(1) by (simp add: heap_swap_def nth_list_update)
  have s: "snd (heap_Pop h) = fst (go_down sd_Less ((take n h)[0 := last h]) 0 n)"
    using ht tk pop by simp
  then show "length (snd (heap_Pop h)) = length h - 1" using n(1) by (simp add: n_def)
  show "map (hit_of m) (snd (heap_Pop h)) = siftDown ((take (length h - 1) (map (hit_of m) h))[0 := hit_of m (last h)]) 0"
    unfolding s using scored_heap.go_down_siftDown[of "hit_of m" n "(take n h)[0 := last h]" 0] n(1)
    by (simp add: map_update take_map n_def)
qed

lemma mset_siftDown_root: "mset (siftDown h 0) = mset h"
proof (cases h)
  case Nil
  then show ?thesis by (subst siftDown.simps) simp
qed (simp add: mset_siftDown)

lemma heap_ok_take: "heap_ok h \<Longrightarrow> heap_ok (take n h)"
  using parent_less by (auto simp: heap_ok_def intro: less_trans)

interpretation scored: min_queue "\<lambda>h. heap_ok (map (hit_of m) h)" "\<lambda>h. mset (map (hit_of m) h)"
    "\<lambda>h. (hit_of m (fst (heap_Pop h)), snd (heap_Pop h))" hit_Score
  for m :: "nat \<Rightarrow> ExternalID"
proof unfold_locales
  fix h :: "'a::linorder scoredDoc list"
  assume ok: "heap_ok (map (hit_of m) h)"
  let ?n = "length h - 1"
  show "hit_Score (fst (hit_of m (fst (heap_Pop h)), snd (heap_Pop h))) \<le> hit_Score y" if "y \<in># mset (map (hit_of m) h)" for y
  proof -
    have "y \<in> set (map (hit_of m) h)" using that by simp
    then obtain j where "j < length h" "y = hit_of m (h ! j)" by (metis in_set_conv_nth length_map nth_map)
    moreover from this have "h \<noteq> []" "0 < length h" by auto
    ultimately show ?thesis using heap_root_least[OF ok, of j] heap_Pop_sift(1)[of h] by simp
  qed
  assume "mset (map (hit_of m) h) \<noteq> {#}"
  then have ne: "h \<noteq> []" by auto
  show "heap_ok (map (hit_of m) (snd (hit_of m (fst (heap_Pop h)), snd (heap_Pop h))))"
    using siftDown_heap[OF root_down_hole[OF heap_ok_take[OF ok]]] by (simp add: heap_Pop_sift(3)[OF ne])
  show "mset (map (hit_of m) h) = add_mset (fst (hit_of m (fst (heap_Pop h)), snd (heap_Pop h)))
      (mset (map (hit_of m) (snd (hit_of m (fst (heap_Pop h)), snd (heap_Pop h)))))"
  proof -
    let ?x = "hit_of m (last h)" and ?t = "take ?n (map (hit_of m) h)"
    have sp: "map (hit_of m) h = ?t @ [?x]" using ne by (metis append_butlast_last_id butlast_conv_take last_map length_map map_is_Nil_conv)
    have "mset (map (hit_of m) (snd (heap_Pop h))) = mset (?t[0 := ?x])"
      unfolding heap_Pop_sift(3)[OF ne] by (rule mset_siftDown_root)
    also have "add_mset (hit_of m (h ! 0)) \<dots> = mset (?t @ [?x])"
    proof (cases ?t)
      case Nil
      then have "map (hit_of m) h = [?x]" using sp by (metis append_Nil)
      then have "hit_of m (h ! 0) = ?x" using ne by (metis length_greater_0_conv nth_Cons_0 nth_map)
      then show ?thesis unfolding Nil by simp
    next
      case (Cons a t')
      have "a = hit_of m (h ! 0)" using sp ne unfolding Cons by (metis append_Cons length_greater_0_conv nth_Cons_0 nth_map)
      then show ?thesis unfolding Cons by simp
    qed
    finally show ?thesis using heap_Pop_sift(1)[OF ne] unfolding sp[symmetric] fst_conv snd_conv by simp
  qed
qed

end
