(* ===== verification/Bm25Walk.thy ===== *)
theory Bm25Walk
  imports Bm25Codec Bm25Heap "HOL-Library.Product_Lexorder"
begin

text \<open>
  The k-way merge of \<open>internal/searchengine/formats/bm25/merge_cursor.go\<close>: one cursor per (input,
  field) dictionary, a min-heap over them, and the walk that groups equal terms and fields.

  The two callbacks of \<open>mergeWalk\<close> do not influence the walk, so it returns the list of their calls up
  to where it ends, and how it ends: normally, or in the panic that a corrupt input raises.

  Shown: the walk drains the entries of all dictionaries in the order of (term, field, input), so it
  calls \<open>onField\<close> once per term and field that has a surviving posting, with the runs of the inputs
  concatenated in input order, and \<open>onTerm\<close> once per surviving term with its number of documents.
\<close>

section \<open>Cursors\<close>

record termCursor =
  c_input :: nat
  c_field :: nat
  c_mf :: mappedField
  c_it :: dictIter

abbreviation c_term :: "termCursor \<Rightarrow> string" where "c_term c \<equiv> it_term (c_it c)"

definition cursor_Less :: "termCursor list \<Rightarrow> nat \<Rightarrow> nat \<Rightarrow> bool" where
  "cursor_Less h i j =
     (if c_term (h ! i) \<noteq> c_term (h ! j) then c_term (h ! i) < c_term (h ! j)
      else if c_field (h ! i) \<noteq> c_field (h ! j) then c_field (h ! i) < c_field (h ! j)
      else c_input (h ! i) < c_input (h ! j))"

fun field_cursors :: "nat \<Rightarrow> nat \<Rightarrow> mappedField list \<Rightarrow> termCursor list outcome" where
  "field_cursors i f [] = Ret []"
| "field_cursors i f (mf # mfs) =
     bind_out (iter_next mf iter_start) (\<lambda>r.
     bind_out (field_cursors i (f + 1) mfs) (\<lambda>cs.
     Ret (case r of None \<Rightarrow> cs | Some it \<Rightarrow> \<lparr>c_input = i, c_field = f, c_mf = mf, c_it = it\<rparr> # cs)))"

fun input_cursors :: "nat \<Rightarrow> mappedSegment list \<Rightarrow> termCursor list outcome" where
  "input_cursors i [] = Ret []"
| "input_cursors i (ms # mss) =
     bind_out (field_cursors i 0 (ms_fields ms)) (\<lambda>cs.
     bind_out (input_cursors (i + 1) mss) (\<lambda>cs'. Ret (cs @ cs')))"

text \<open>The surviving postings of a run under the new document ids; \<open>-1\<close> marks a dropped document.\<close>

definition remap_run :: "int list \<Rightarrow> nat list \<times> nat list \<Rightarrow> (nat \<times> nat) list" where
  "remap_run rm run =
     map (\<lambda>(d, tf). (nat (rm ! d), tf)) (filter (\<lambda>(d, tf). d < length rm \<and> rm ! d \<ge> 0) (zip (fst run) (snd run)))"

definition drainCursor :: "int list list \<Rightarrow> termCursor list \<Rightarrow> (nat \<times> nat) list \<Rightarrow> (termCursor list \<times> (nat \<times> nat) list) outcome" where
  "drainCursor remap h buf =
     (let c = h ! 0
      in bind_out (mapped_postings (c_mf c) (it_postOff (c_it c)) (it_count (c_it c))) (\<lambda>run.
         bind_out (iter_next (c_mf c) (c_it c)) (\<lambda>r.
         Ret (case r of
                Some it \<Rightarrow> go_Fix cursor_Less (h[0 := c\<lparr>c_it := it\<rparr>]) 0
              | None \<Rightarrow> snd (go_Pop cursor_Less h),
              buf @ remap_run (remap ! c_input c) run))))"

section \<open>The walk\<close>

datatype merge_event = OnField string nat "(nat \<times> nat) list" | OnTerm string int

definition left_in :: "termCursor \<Rightarrow> nat" where
  "left_in c = Suc (mf_termCount (c_mf c) - it_idx (c_it c))"

definition left_over :: "termCursor list \<Rightarrow> nat" where
  "left_over h = sum_list (map left_in h)"

lemma left_over_mset: "mset h = mset h' \<Longrightarrow> left_over h = left_over h'"
  unfolding left_over_def by (metis mset_map sum_mset_sum_list)

lemma drainCursor_less:
  assumes "drainCursor remap h buf = Ret (h', buf')" "h \<noteq> []"
  shows "left_over h' < left_over h"
proof -
  obtain c cs where h: "h = c # cs" using assms(2) by (cases h) auto
  obtain run r where r: "iter_next (c_mf c) (c_it c) = Ret r"
    "h' = (case r of Some it \<Rightarrow> go_Fix cursor_Less (h[0 := c\<lparr>c_it := it\<rparr>]) 0 | None \<Rightarrow> snd (go_Pop cursor_Less h))"
  proof -
    have hc: "h ! 0 = c" by (simp add: h)
    show ?thesis using assms(1) that unfolding drainCursor_def Let_def hc by (auto simp: bind_out_Ret_iff)
  qed
  show ?thesis
  proof (cases r)
    case None
    have p: "mset h = add_mset (fst (go_Pop cursor_Less h)) (mset (snd (go_Pop cursor_Less h)))" by (rule mset_go_Pop[OF assms(2)])
    have "left_over h = left_over (fst (go_Pop cursor_Less h) # snd (go_Pop cursor_Less h))" by (rule left_over_mset) (simp add: p)
    then show ?thesis using r(2) None by (simp add: left_over_def left_in_def)
  next
    case (Some it)
    have "mset h' = mset (c\<lparr>c_it := it\<rparr> # cs)" using r(2) Some mset_go_Fix[of 0 "c\<lparr>c_it := it\<rparr> # cs" cursor_Less] by (simp add: h)
    then have "left_over h' = left_over (c\<lparr>c_it := it\<rparr> # cs)" by (rule left_over_mset)
    then show ?thesis using iter_next_idx[of "c_mf c" "c_it c" it] r(1) Some by (simp add: h left_over_def left_in_def)
  qed
qed

function walk_field :: "int list list \<Rightarrow> string \<Rightarrow> nat \<Rightarrow> termCursor list \<Rightarrow> (nat \<times> nat) list \<Rightarrow> (termCursor list \<times> (nat \<times> nat) list) outcome" where
  "walk_field remap term f h buf =
     (if h \<noteq> [] \<and> c_term (h ! 0) = term \<and> c_field (h ! 0) = f then
        (case drainCursor remap h buf of
           Ret (h', buf') \<Rightarrow> walk_field remap term f h' buf'
         | Fail e \<Rightarrow> Fail e | Raised sid d \<Rightarrow> Raised sid d | Panic m \<Rightarrow> Panic m)
      else Ret (h, buf))"
  by pat_completeness auto
termination
  by (relation "measure (\<lambda>(remap, term, f, h, buf). left_over h)") (auto dest: drainCursor_less)

declare walk_field.simps [simp del]

lemma walk_field_le: "walk_field remap term f h buf = Ret (h', buf') \<Longrightarrow> left_over h' \<le> left_over h"
proof (induction remap "term" f h buf rule: walk_field.induct)
  case (1 remap "term" f h buf)
  show ?case
  proof (cases "h \<noteq> [] \<and> c_term (h ! 0) = term \<and> c_field (h ! 0) = f")
    case True
    then obtain h1 b1 where d: "drainCursor remap h buf = Ret (h1, b1)" "walk_field remap term f h1 b1 = Ret (h', buf')"
      using 1(2) by (subst (asm) walk_field.simps) (auto split: outcome.splits)
    then show ?thesis using 1(1)[OF True d(1)] drainCursor_less[OF d(1)] True by fastforce
  next
    case False
    then show ?thesis using 1(2) by (subst (asm) walk_field.simps) auto
  qed
qed

lemma walk_field_less:
  assumes "h \<noteq> []" "walk_field remap (c_term (h ! 0)) (c_field (h ! 0)) h buf = Ret (h', buf')"
  shows "left_over h' < left_over h"
proof -
  obtain h1 b1 where d: "drainCursor remap h buf = Ret (h1, b1)" "walk_field remap (c_term (h ! 0)) (c_field (h ! 0)) h1 b1 = Ret (h', buf')"
    using assms by (subst (asm) walk_field.simps) (auto split: outcome.splits)
  then show ?thesis using drainCursor_less[OF d(1) assms(1)] walk_field_le[OF d(2)] by simp
qed

function walk_term :: "int list list \<Rightarrow> string \<Rightarrow> termCursor list \<Rightarrow> nat list \<Rightarrow> merge_event list \<times> (termCursor list \<times> nat list) outcome" where
  "walk_term remap term h df =
     (if h \<noteq> [] \<and> c_term (h ! 0) = term then
        (case walk_field remap term (c_field (h ! 0)) h [] of
           Ret (h', buf) \<Rightarrow>
             (let (evs, r) = walk_term remap term h' (df @ map fst buf)
              in ((if buf = [] then [] else [OnField term (c_field (h ! 0)) buf]) @ evs, r))
         | Fail e \<Rightarrow> ([], Fail e) | Raised sid d \<Rightarrow> ([], Raised sid d) | Panic m \<Rightarrow> ([], Panic m))
      else ([], Ret (h, df)))"
  by pat_completeness auto
termination
  by (relation "measure (\<lambda>(remap, term, h, df). left_over h)") (auto dest: walk_field_less)

declare walk_term.simps [simp del]

lemma walk_term_le: "walk_term remap term h df = (evs, Ret (h', df')) \<Longrightarrow> left_over h' \<le> left_over h"
proof (induction remap "term" h df arbitrary: evs rule: walk_term.induct)
  case (1 remap "term" h df)
  show ?case
  proof (cases "h \<noteq> [] \<and> c_term (h ! 0) = term")
    case True
    then obtain h1 b1 evs1 where d: "walk_field remap term (c_field (h ! 0)) h [] = Ret (h1, b1)"
      "walk_term remap term h1 (df @ map fst b1) = (evs1, Ret (h', df'))"
      using 1(2) by (subst (asm) walk_term.simps) (auto split: outcome.splits prod.splits)
    then show ?thesis using 1(1)[OF True d(1) refl d(2)] walk_field_less[of h remap] True by fastforce
  next
    case False
    then show ?thesis using 1(2) by (subst (asm) walk_term.simps) auto
  qed
qed

lemma walk_term_less:
  assumes "h \<noteq> []" "walk_term remap (c_term (h ! 0)) h df = (evs, Ret (h', df'))"
  shows "left_over h' < left_over h"
proof -
  obtain h1 b1 evs1 where d: "walk_field remap (c_term (h ! 0)) (c_field (h ! 0)) h [] = Ret (h1, b1)"
    "walk_term remap (c_term (h ! 0)) h1 (df @ map fst b1) = (evs1, Ret (h', df'))"
    using assms by (subst (asm) walk_term.simps) (auto split: outcome.splits prod.splits)
  then show ?thesis using walk_field_less[OF assms(1) d(1)] walk_term_le[OF d(2)] by simp
qed

text \<open>\<open>slices.Compact\<close> after \<open>slices.Sort\<close>: the distinct new ids.\<close>

function walk_loop :: "int list list \<Rightarrow> termCursor list \<Rightarrow> merge_event list \<times> unit outcome" where
  "walk_loop remap h =
     (if h = [] then ([], Ret ())
      else
        (case walk_term remap (c_term (h ! 0)) h [] of
           (evs, Ret (h', df)) \<Rightarrow>
             (let (evs', r) = walk_loop remap h'
              in (evs @ (if df = [] then [] else [OnTerm (c_term (h ! 0)) (int (length (remdups_adj (sort df))))]) @ evs', r))
         | (evs, Fail e) \<Rightarrow> (evs, Fail e) | (evs, Raised sid d) \<Rightarrow> (evs, Raised sid d) | (evs, Panic m) \<Rightarrow> (evs, Panic m)))"
  by pat_completeness auto
termination
  by (relation "measure (\<lambda>(remap, h). left_over h)") (auto dest: walk_term_less[OF _ sym])

declare walk_loop.simps [simp del]

definition mergeWalk :: "mappedSegment list \<Rightarrow> int list list \<Rightarrow> merge_event list \<times> unit outcome" where
  "mergeWalk ins remap =
     (case input_cursors 0 ins of
        Ret cs \<Rightarrow> walk_loop remap (go_Init cursor_Less cs)
      | Fail e \<Rightarrow> ([], Fail e) | Raised sid d \<Rightarrow> ([], Raised sid d) | Panic m \<Rightarrow> ([], Panic m))"


section \<open>Draining in key order\<close>

type_synonym wentry = "(string \<times> nat \<times> nat) \<times> nat list \<times> nat list"

definition c_key :: "termCursor \<Rightarrow> string \<times> nat \<times> nat" where
  "c_key c = (c_term c, c_field c, c_input c)"

interpretation cursor_heap: keyed_heap cursor_Less c_key
  by unfold_locales (auto simp: cursor_Less_def c_key_def less_prod_def less_eq_prod_def)

text \<open>What a dictionary still has to give: the entry the cursor is on, then the iterator's remainder.\<close>

definition tag :: "nat \<Rightarrow> nat \<Rightarrow> string \<times> nat list \<times> nat list \<Rightarrow> wentry" where
  "tag i f = (\<lambda>(t, run). ((t, f, i), run))"

definition rest_of :: "termCursor \<Rightarrow> wentry list" where
  "rest_of c =
     (case (mapped_postings (c_mf c) (it_postOff (c_it c)) (it_count (c_it c)), each_from (c_mf c) (c_it c)) of
        (Ret run, Ret es) \<Rightarrow> map (tag (c_input c) (c_field c)) ((c_term c, run) # es)
      | _ \<Rightarrow> [])"

definition cursor_ok :: "termCursor \<Rightarrow> bool" where
  "cursor_ok c \<longleftrightarrow> (\<exists>run es. mapped_postings (c_mf c) (it_postOff (c_it c)) (it_count (c_it c)) = Ret run
     \<and> each_from (c_mf c) (c_it c) = Ret es \<and> sorted_wrt (<) (map fst ((c_term c, run) # es)))"

lemma tag_fst: "fst (tag i f e) = (fst e, f, i)"
  by (simp add: tag_def split: prod.split)

lemma tag_less: "fst (tag i f a) < fst (tag i f b) \<longleftrightarrow> fst a < fst b"
  by (auto simp: tag_fst less_prod_def)

lemma each_from_Ret:
  "each_from mf it = Ret [] \<Longrightarrow> iter_next mf it = Ret None"
  "each_from mf it = Ret (e # es) \<Longrightarrow> \<exists>it' run. iter_next mf it = Ret (Some it') \<and> mapped_postings mf (it_postOff it') (it_count it') = Ret run
     \<and> e = (it_term it', run) \<and> each_from mf it' = Ret es"
  by (subst (asm) each_from.simps, auto split: outcome.splits option.splits prod.splits)+

lemma cursor_okE:
  assumes "cursor_ok c"
  obtains run es where "mapped_postings (c_mf c) (it_postOff (c_it c)) (it_count (c_it c)) = Ret run"
    "each_from (c_mf c) (c_it c) = Ret es" "rest_of c = (c_key c, run) # map (tag (c_input c) (c_field c)) es"
    "sorted_wrt (<) (map fst (rest_of c))"
proof -
  obtain run es where r: "mapped_postings (c_mf c) (it_postOff (c_it c)) (it_count (c_it c)) = Ret run"
    "each_from (c_mf c) (c_it c) = Ret es" "sorted_wrt (<) (map fst ((c_term c, run) # es))"
    using assms by (auto simp: cursor_ok_def)
  have rest: "rest_of c = map (tag (c_input c) (c_field c)) ((c_term c, run) # es)" using r by (simp add: rest_of_def)
  have "sorted_wrt (<) (map fst (rest_of c))"
    unfolding rest list.map_comp sorted_wrt_map comp_def tag_less using r(3) by (simp add: sorted_wrt_map)
  moreover have "rest_of c = (c_key c, run) # map (tag (c_input c) (c_field c)) es" unfolding rest by (simp add: tag_def c_key_def)
  ultimately show ?thesis using that r by blast
qed

text \<open>The cursors of a heap together have the entries \<open>S\<close>, in ascending key order, left.\<close>

definition heap_rest :: "termCursor list \<Rightarrow> wentry list \<Rightarrow> bool" where
  "heap_rest h S \<longleftrightarrow> cursor_heap.ordered_from 0 h \<and> (\<forall>c \<in> set h. cursor_ok c)
     \<and> mset S = (\<Sum>c \<in># mset h. mset (rest_of c)) \<and> sorted_wrt (<) (map fst S)"

lemma heap_rest_Nil: "heap_rest h [] \<Longrightarrow> h = []"
  by (cases h) (auto simp: heap_rest_def elim: cursor_okE)

lemma sorted_wrt_inj:
  assumes "sorted_wrt (<) (map fst (S :: ('k::linorder \<times> 'v) list))" "a \<in> set S" "b \<in> set S" "fst a = fst b"
  shows "a = b"
  using assms by (induction S) auto

lemma heap_rest_head:
  assumes "heap_rest h (e # S)"
  obtains c cs run es where "h = c # cs" "fst e = c_key c" "snd e = run" "rest_of c = e # map (tag (c_input c) (c_field c)) es"
    "mapped_postings (c_mf c) (it_postOff (c_it c)) (it_count (c_it c)) = Ret run" "each_from (c_mf c) (c_it c) = Ret es"
    "sorted_wrt (<) (map fst (rest_of c))"
proof -
  have ord: "cursor_heap.ordered_from 0 h" and ok: "\<forall>c \<in> set h. cursor_ok c" and ms: "mset (e # S) = (\<Sum>c \<in># mset h. mset (rest_of c))"
    and so: "sorted_wrt (<) (map fst (e # S))" using assms by (simp_all add: heap_rest_def)
  have mem: "x \<in> set (e # S) \<longleftrightarrow> (\<exists>c \<in> set h. x \<in> set (rest_of c))" for x
    using arg_cong[OF ms, of set_mset] by (auto simp del: mset.simps)
  obtain c' where c': "c' \<in> set h" "e \<in> set (rest_of c')" using mem[of e] by auto
  then obtain c cs where h: "h = c # cs" by (cases h) auto
  then have "cursor_ok c" using ok by simp
  then obtain run es where r: "mapped_postings (c_mf c) (it_postOff (c_it c)) (it_count (c_it c)) = Ret run"
    "each_from (c_mf c) (c_it c) = Ret es" "rest_of c = (c_key c, run) # map (tag (c_input c) (c_field c)) es"
    "sorted_wrt (<) (map fst (rest_of c))" by (rule cursor_okE)
  have "fst e \<le> c_key c"
  proof -
    have "(c_key c, run) \<in> set (e # S)" unfolding mem using h r(3) by auto
    then show ?thesis using so by (auto simp: less_imp_le)
  qed
  moreover have "c_key c \<le> fst e"
  proof -
    obtain j where j: "j < length h" "c' = h ! j" using c'(1) by (metis in_set_conv_nth)
    have "c_key c \<le> c_key c'" using cursor_heap.root_least[OF ord j(1)] j(2) h by simp
    also have "c_key c' \<le> fst e"
    proof -
      have "cursor_ok c'" using ok c'(1) by simp
      then show ?thesis using c'(2) by (elim cursor_okE) (auto simp: less_imp_le)
    qed
    finally show ?thesis .
  qed
  ultimately have k: "fst e = c_key c" by simp
  have "(c_key c, run) \<in> set (e # S)" unfolding mem using h r(3) by auto
  then have "e = (c_key c, run)" using sorted_wrt_inj[OF so] k by simp
  then show ?thesis using that h r k by simp
qed

lemma drain_step:
  assumes "heap_rest h (e # S)"
  shows "\<exists>h'. drainCursor remap h buf = Ret (h', buf @ remap_run (remap ! snd (snd (fst e))) (snd e)) \<and> heap_rest h' S"
proof -
  obtain c cs run es where c: "h = c # cs" "fst e = c_key c" "snd e = run" "rest_of c = e # map (tag (c_input c) (c_field c)) es"
    "mapped_postings (c_mf c) (it_postOff (c_it c)) (it_count (c_it c)) = Ret run" "each_from (c_mf c) (c_it c) = Ret es"
    "sorted_wrt (<) (map fst (rest_of c))" by (rule heap_rest_head[OF assms])
  have ord: "cursor_heap.ordered_from 0 h" and ok: "\<forall>c \<in> set h. cursor_ok c" and ms: "mset (e # S) = (\<Sum>c \<in># mset h. mset (rest_of c))"
    and so: "sorted_wrt (<) (map fst S)" using assms by (simp_all add: heap_rest_def)
  have ms': "mset S = mset (map (tag (c_input c) (c_field c)) es) + (\<Sum>c \<in># mset cs. mset (rest_of c))" using ms c(1,4) by simp
  have inp: "snd (snd (fst e)) = c_input c" by (simp add: c(2) c_key_def)
  show ?thesis
  proof (cases es)
    case Nil
    have n: "iter_next (c_mf c) (c_it c) = Ret None" using each_from_Ret(1) c(6) Nil by simp
    let ?h' = "snd (go_Pop cursor_Less h)"
    have p: "fst (go_Pop cursor_Less h) = c" "cursor_heap.ordered_from 0 ?h'" using cursor_heap.go_Pop_ordered[OF ord] c(1) by simp_all
    have "mset ?h' = mset cs" using mset_go_Pop[of h cursor_Less] p(1) c(1) by simp
    moreover from this have "set ?h' = set cs" by (metis set_mset_mset)
    ultimately have "heap_rest ?h' S" using p(2) ok ms' so c(1) Nil by (simp add: heap_rest_def)
    moreover have "drainCursor remap h buf = Ret (?h', buf @ remap_run (remap ! c_input c) run)"
      using c(1,5) n by (simp add: drainCursor_def)
    ultimately show ?thesis using inp c(3) by simp
  next
    case (Cons e' es')
    obtain it' run' where n: "iter_next (c_mf c) (c_it c) = Ret (Some it')" "mapped_postings (c_mf c) (it_postOff it') (it_count it') = Ret run'"
      "e' = (it_term it', run')" "each_from (c_mf c) it' = Ret es'" using each_from_Ret(2) c(6) Cons by blast
    let ?c' = "c\<lparr>c_it := it'\<rparr>"
    let ?h' = "go_Fix cursor_Less (h[0 := ?c']) 0"
    have rest: "rest_of ?c' = map (tag (c_input c) (c_field c)) es" using n Cons by (simp add: rest_of_def)
    have "cursor_ok ?c'"
    proof -
      have "sorted_wrt (<) (map fst (map (tag (c_input c) (c_field c)) es))" using c(4,7) by simp
      then have "sorted_wrt (<) (map fst es)" unfolding list.map_comp sorted_wrt_map comp_def tag_less .
      then show ?thesis using n Cons by (simp add: cursor_ok_def)
    qed
    moreover have m: "mset ?h' = add_mset ?c' (mset cs)" using mset_go_Fix[of 0 "?c' # cs" cursor_Less] c(1) by simp
    moreover from m have "set ?h' = insert ?c' (set cs)" by (metis set_mset_mset set_mset_add_mset_insert)
    moreover have "cursor_heap.ordered_from 0 ?h'" by (rule cursor_heap.go_Fix_ordered[OF ord])
    ultimately have "heap_rest ?h' S" using ok ms' so c(1) rest by (simp add: heap_rest_def)
    moreover have "drainCursor remap h buf = Ret (?h', buf @ remap_run (remap ! c_input c) run)"
      using c(1,5) n(1) by (simp add: drainCursor_def)
    ultimately show ?thesis using inp c(3) by simp
  qed
qed


section \<open>The calls of the walk\<close>

abbreviation e_term :: "wentry \<Rightarrow> string" where "e_term e \<equiv> fst (fst e)"
abbreviation e_field :: "wentry \<Rightarrow> nat" where "e_field e \<equiv> fst (snd (fst e))"
abbreviation e_input :: "wentry \<Rightarrow> nat" where "e_input e \<equiv> snd (snd (fst e))"

definition runs :: "int list list \<Rightarrow> wentry list \<Rightarrow> (nat \<times> nat) list" where
  "runs remap S = concat (map (\<lambda>e. remap_run (remap ! e_input e) (snd e)) S)"

fun field_events :: "int list list \<Rightarrow> string \<Rightarrow> wentry list \<Rightarrow> merge_event list" where
  "field_events remap t [] = []"
| "field_events remap t (e # S) =
     (let buf = runs remap (filter (\<lambda>x. e_field x = e_field e) (e # S))
      in (if buf = [] then [] else [OnField t (e_field e) buf]) @ field_events remap t (filter (\<lambda>x. e_field x \<noteq> e_field e) S))"

definition term_event :: "string \<Rightarrow> nat list \<Rightarrow> merge_event list" where
  "term_event t df = (if df = [] then [] else [OnTerm t (int (card (set df)))])"

fun events :: "int list list \<Rightarrow> wentry list \<Rightarrow> merge_event list" where
  "events remap [] = []"
| "events remap (e # S) =
     (let St = filter (\<lambda>x. e_term x = e_term e) (e # S)
      in field_events remap (e_term e) St @ term_event (e_term e) (map fst (runs remap St))
         @ events remap (filter (\<lambda>x. e_term x \<noteq> e_term e) S))"

declare field_events.simps(2) [simp del] events.simps(2) [simp del]

lemma runs_append: "runs remap (xs @ ys) = runs remap xs @ runs remap ys"
  by (simp add: runs_def)

lemma distinct_compact: "sorted (xs :: nat list) \<Longrightarrow> distinct (remdups_adj xs)"
  by (induction xs rule: remdups_adj.induct) auto

lemma card_compact: "length (remdups_adj (sort df)) = card (set (df :: nat list))"
proof -
  have "distinct (remdups_adj (sort df))" by (rule distinct_compact) simp
  then show ?thesis by (metis distinct_card remdups_adj_set set_sort)
qed

text \<open>In an ascending list the entries of a group that starts it come first.\<close>

lemma takeWhile_filter:
  assumes "\<And>xs x ys. S = xs @ x # ys \<Longrightarrow> \<not> P x \<Longrightarrow> \<forall>y \<in> set ys. \<not> P y"
  shows "takeWhile P S = filter P S" "dropWhile P S = filter (\<lambda>x. \<not> P x) S"
proof -
  have "takeWhile P S = filter P S \<and> dropWhile P S = filter (\<lambda>x. \<not> P x) S"
    using assms
  proof (induction S)
    case (Cons a S)
    show ?case
    proof (cases "P a")
      case True
      have "takeWhile P S = filter P S \<and> dropWhile P S = filter (\<lambda>x. \<not> P x) S"
        by (rule Cons.IH) (use Cons.prems[of "a # _"] in simp)
      then show ?thesis using True by simp
    next
      case False
      then have "\<forall>y \<in> set S. \<not> P y" using Cons.prems[of "[]" a S] by simp
      then show ?thesis using False by simp
    qed
  qed simp
  then show "takeWhile P S = filter P S" "dropWhile P S = filter (\<lambda>x. \<not> P x) S" by simp_all
qed

lemma group_first:
  fixes k :: "'e \<Rightarrow> 'k::linorder"
  assumes "sorted_wrt (\<le>) (map k (e # S))" "P = (\<lambda>x. k x = k e)"
  shows "takeWhile P (e # S) = filter P (e # S)" "dropWhile P (e # S) = filter (\<lambda>x. \<not> P x) S"
proof -
  have "\<forall>y \<in> set ys. \<not> P y" if "e # S = xs @ x # ys" "\<not> P x" for xs x ys
  proof (cases xs)
    case Nil
    then show ?thesis using that assms(2) by simp
  next
    case (Cons a as)
    then have "k e \<le> k x" "\<forall>y \<in> set ys. k x \<le> k y" using assms(1) that(1) by (auto simp: sorted_wrt_append)
    have "k x \<noteq> k e" using that(2) assms(2) by simp
    then have "k e < k x" using \<open>k e \<le> k x\<close> by simp
    then have "k e \<noteq> k y" if "y \<in> set ys" for y
      using that \<open>\<forall>y \<in> set ys. k x \<le> k y\<close> by fastforce
    then show ?thesis using assms(2) by fastforce
  qed
  then show "takeWhile P (e # S) = filter P (e # S)" "dropWhile P (e # S) = filter (\<lambda>x. \<not> P x) S"
    using takeWhile_filter[of "e # S" P] assms(2) by simp_all
qed

lemma key_sorted_term: "sorted_wrt (<) (map fst (S :: wentry list)) \<Longrightarrow> sorted_wrt (\<le>) (map e_term S)"
  by (induction S) (auto simp: less_prod_def less_eq_prod_def)

lemma key_sorted_field:
  "sorted_wrt (<) (map fst (S :: wentry list)) \<Longrightarrow> \<forall>x \<in> set S. e_term x = t \<Longrightarrow> sorted_wrt (\<le>) (map e_field S)"
  by (induction S) (auto simp: less_prod_def less_eq_prod_def)

lemma sorted_filter_fst: "sorted_wrt (<) (map fst S) \<Longrightarrow> sorted_wrt (<) (map fst (filter P S))"
  by (simp add: sorted_wrt_map sorted_wrt_filter)

lemma heap_rest_not_Nil: "heap_rest h (e # S) \<Longrightarrow> h \<noteq> [] \<and> c_term (h ! 0) = e_term e \<and> c_field (h ! 0) = e_field e"
  by (elim heap_rest_head) (simp add: c_key_def)

lemma walk_field_drains:
  "heap_rest h S \<Longrightarrow> \<exists>h'. walk_field remap t f h buf = Ret (h', buf @ runs remap (takeWhile (\<lambda>e. e_term e = t \<and> e_field e = f) S))
     \<and> heap_rest h' (dropWhile (\<lambda>e. e_term e = t \<and> e_field e = f) S)"
proof (induction S arbitrary: h buf)
  case Nil
  then have "h = []" by (rule heap_rest_Nil)
  then show ?case using Nil by (subst walk_field.simps) (simp add: runs_def)
next
  case (Cons e S)
  note nn = heap_rest_not_Nil[OF Cons.prems]
  show ?case
  proof (cases "e_term e = t \<and> e_field e = f")
    case True
    obtain h1 where h1: "drainCursor remap h buf = Ret (h1, buf @ remap_run (remap ! e_input e) (snd e))" "heap_rest h1 S"
      using drain_step[OF Cons.prems] by blast
    show ?thesis
      using Cons.IH[OF h1(2), of "buf @ remap_run (remap ! e_input e) (snd e)"] nn True h1(1)
      by (subst walk_field.simps) (simp add: runs_def)
  next
    case False
    then show ?thesis using nn Cons.prems by (subst walk_field.simps) (auto simp: runs_def)
  qed
qed

lemma takeWhile_until:
  assumes "ys = [] \<or> \<not> P (hd ys)"
  shows "takeWhile P (xs @ ys) = takeWhile P xs" "dropWhile P (xs @ ys) = dropWhile P xs @ ys"
proof -
  have "takeWhile P ys = []" "dropWhile P ys = ys" using assms by (cases ys; simp)+
  then show "takeWhile P (xs @ ys) = takeWhile P xs" "dropWhile P (xs @ ys) = dropWhile P xs @ ys"
    by (induction xs) simp_all
qed

lemma walk_term_drains:
  "heap_rest h S \<Longrightarrow> \<exists>h'. walk_term remap t h df =
      (field_events remap t (takeWhile (\<lambda>e. e_term e = t) S), Ret (h', df @ map fst (runs remap (takeWhile (\<lambda>e. e_term e = t) S))))
     \<and> heap_rest h' (dropWhile (\<lambda>e. e_term e = t) S)"
proof (induction "length S" arbitrary: h S df rule: less_induct)
  case less
  let ?T = "\<lambda>x. e_term x = t"
  show ?case
  proof (cases S)
    case Nil
    then have "h = []" using less.prems heap_rest_Nil by simp
    then show ?thesis using Nil less.prems by (subst walk_term.simps) (simp add: runs_def)
  next
    case (Cons e S')
    note nn = heap_rest_not_Nil[OF less.prems[unfolded Cons]]
    show ?thesis
    proof (cases "?T e")
      case False
      then show ?thesis using nn Cons less.prems by (subst walk_term.simps) (simp add: runs_def)
    next
      case True
      let ?P = "\<lambda>x. e_term x = t \<and> e_field x = e_field e" and ?F = "\<lambda>x. e_field x = e_field e"
      define R where "R = dropWhile ?T S"
      obtain St' where St: "takeWhile ?T S = e # St'" using Cons True by simp
      have sp: "S = (e # St') @ R" by (metis R_def St takeWhile_dropWhile_id)
      have inT: "\<forall>x \<in> set (e # St'). ?T x" unfolding St[symmetric] by (auto dest: set_takeWhileD)
      have R: "R = [] \<or> \<not> ?T (hd R)" unfolding R_def using hd_dropWhile by blast
      have so: "sorted_wrt (<) (map fst (e # St'))"
        using less.prems sp by (simp add: heap_rest_def sorted_wrt_append)
      have tF: "takeWhile ?P (e # St') = takeWhile ?F (e # St')" "dropWhile ?P (e # St') = dropWhile ?F (e # St')"
        using inT by (intro takeWhile_cong dropWhile_cong; auto)+
      note gF = group_first[OF key_sorted_field[OF so inT], of ?F]
      define D where "D = filter (\<lambda>x. \<not> ?F x) St'"
      have nR: "R = [] \<or> \<not> ?P (hd R)" using R by auto
      have P: "takeWhile ?P S = filter ?F (e # St')" "dropWhile ?P S = D @ R"
        using takeWhile_until[of R ?P "e # St'", OF nR] tF gF sp by (simp_all only: D_def)
      have DT: "takeWhile ?T (D @ R) = D" "dropWhile ?T (D @ R) = R"
      proof -
        have "\<forall>x \<in> set D. ?T x" using inT by (simp add: D_def)
        then have "takeWhile ?T D = D" "dropWhile ?T D = []" by simp_all
        then show "takeWhile ?T (D @ R) = D" "dropWhile ?T (D @ R) = R" using takeWhile_until[of R ?T D] R by simp_all
      qed
      let ?buf = "runs remap (filter ?F (e # St'))"
      obtain h1 where h1: "walk_field remap t (e_field e) h [] = Ret (h1, ?buf)" "heap_rest h1 (D @ R)"
        using walk_field_drains[OF less.prems, of remap t "e_field e" "[]"] P by auto
      have "length (D @ R) < length S" unfolding sp D_def by (simp add: le_imp_less_Suc)
      from less.hyps[OF this h1(2), of "df @ map fst ?buf"] obtain h2 where
        h2: "walk_term remap t h1 (df @ map fst ?buf) = (field_events remap t D, Ret (h2, (df @ map fst ?buf) @ map fst (runs remap D)))" "heap_rest h2 R"
        unfolding DT by blast
      have sp2: "e # St' = filter ?F (e # St') @ D"
        using gF by (metis D_def takeWhile_dropWhile_id)
      have "runs remap (e # St') = ?buf @ runs remap D" by (subst sp2) (rule runs_append)
      moreover have "field_events remap t (e # St') = (if ?buf = [] then [] else [OnField t (e_field e) ?buf]) @ field_events remap t D"
        by (subst field_events.simps) (simp add: Let_def D_def)
      moreover have "walk_term remap t h df = ((if ?buf = [] then [] else [OnField t (e_field e) ?buf]) @ field_events remap t D,
          Ret (h2, (df @ map fst ?buf) @ map fst (runs remap D)))"
        using nn True h1(1) h2(1) by (subst walk_term.simps) simp
      ultimately show ?thesis using h2(2) St R_def by auto
    qed
  qed
qed

lemma walk_loop_drains: "heap_rest h S \<Longrightarrow> walk_loop remap h = (events remap S, Ret ())"
proof (induction "length S" arbitrary: h S rule: less_induct)
  case less
  show ?case
  proof (cases S)
    case Nil
    then have "h = []" using less.prems heap_rest_Nil by simp
    then show ?thesis using Nil by (subst walk_loop.simps) simp
  next
    case (Cons e S')
    note nn = heap_rest_not_Nil[OF less.prems[unfolded Cons]]
    let ?T = "\<lambda>x. e_term x = e_term e"
    have so: "sorted_wrt (<) (map fst S)" using less.prems by (simp add: heap_rest_def)
    note g = group_first[OF key_sorted_term[OF so[unfolded Cons]], of ?T]
    obtain h1 where h1: "walk_term remap (e_term e) h [] = (field_events remap (e_term e) (filter ?T S), Ret (h1, map fst (runs remap (filter ?T S))))"
      "heap_rest h1 (filter (\<lambda>x. \<not> ?T x) S')"
      using walk_term_drains[OF less.prems, of remap "e_term e" "[]"] g Cons by auto
    have "length (filter (\<lambda>x. \<not> ?T x) S') < length S" unfolding Cons by (simp add: le_imp_less_Suc)
    from less.hyps[OF this h1(2)] show ?thesis
      using nn h1(1) unfolding Cons
      by (subst walk_loop.simps, subst events.simps) (simp add: Let_def term_event_def card_compact)
  qed
qed


section \<open>The entries of the inputs\<close>

definition dict_of :: "mappedField \<Rightarrow> (string \<times> nat list \<times> nat list) list" where
  "dict_of mf = (case eachTerm mf of Ret es \<Rightarrow> es | _ \<Rightarrow> [])"

definition readable :: "mappedSegment \<Rightarrow> bool" where
  "readable ms \<longleftrightarrow> (\<forall>mf \<in> set (ms_fields ms). eachTerm mf = Ret (dict_of mf) \<and> sorted_wrt (<) (map fst (dict_of mf)))"

definition seg_entries :: "nat \<Rightarrow> nat \<Rightarrow> mappedField list \<Rightarrow> wentry list" where
  "seg_entries i f mfs = concat (map (\<lambda>(f, mf). map (tag i f) (dict_of mf)) (enumerate f mfs))"

definition all_entries :: "mappedSegment list \<Rightarrow> wentry list" where
  "all_entries ins = concat (map (\<lambda>(i, ms). seg_entries i 0 (ms_fields ms)) (enumerate 0 ins))"

lemma field_cursors_entries:
  assumes "\<forall>mf \<in> set mfs. eachTerm mf = Ret (dict_of mf) \<and> sorted_wrt (<) (map fst (dict_of mf))"
  shows "\<exists>cs. field_cursors i f mfs = Ret cs \<and> (\<forall>c \<in> set cs. cursor_ok c) \<and> (\<Sum>c \<in># mset cs. mset (rest_of c)) = mset (seg_entries i f mfs)"
  using assms
proof (induction mfs arbitrary: f)
  case (Cons mf mfs)
  obtain cs where cs: "field_cursors i (f + 1) mfs = Ret cs" "\<forall>c \<in> set cs. cursor_ok c"
    "(\<Sum>c \<in># mset cs. mset (rest_of c)) = mset (seg_entries i (f + 1) mfs)" using Cons.IH[of "f + 1"] Cons.prems by auto
  have e: "each_from mf iter_start = Ret (dict_of mf)" "sorted_wrt (<) (map fst (dict_of mf))" using Cons.prems by (simp_all add: eachTerm_def)
  have seg: "seg_entries i f (mf # mfs) = map (tag i f) (dict_of mf) @ seg_entries i (f + 1) mfs" by (simp add: seg_entries_def)
  show ?case
  proof (cases "dict_of mf")
    case Nil
    then show ?thesis using cs each_from_Ret(1)[of mf iter_start] e seg by simp
  next
    case (Cons d ds)
    obtain it run where it: "iter_next mf iter_start = Ret (Some it)" "mapped_postings mf (it_postOff it) (it_count it) = Ret run"
      "d = (it_term it, run)" "each_from mf it = Ret ds" using each_from_Ret(2)[of mf iter_start d ds] e(1) Cons by auto
    let ?c = "\<lparr>c_input = i, c_field = f, c_mf = mf, c_it = it\<rparr>"
    have "cursor_ok ?c" using it e(2) Cons by (simp add: cursor_ok_def)
    moreover have "rest_of ?c = map (tag i f) (dict_of mf)" using it Cons by (simp add: rest_of_def)
    ultimately show ?thesis using cs it(1) seg by simp
  qed
qed (simp add: seg_entries_def)

lemma input_cursors_entries:
  assumes "\<forall>ms \<in> set ins. readable ms"
  shows "\<exists>cs. input_cursors i ins = Ret cs \<and> (\<forall>c \<in> set cs. cursor_ok c)
    \<and> (\<Sum>c \<in># mset cs. mset (rest_of c)) = mset (concat (map (\<lambda>(i, ms). seg_entries i 0 (ms_fields ms)) (enumerate i ins)))"
  using assms
proof (induction ins arbitrary: i)
  case (Cons ms ins)
  obtain cs where "field_cursors i 0 (ms_fields ms) = Ret cs" "\<forall>c \<in> set cs. cursor_ok c"
    "(\<Sum>c \<in># mset cs. mset (rest_of c)) = mset (seg_entries i 0 (ms_fields ms))"
    using field_cursors_entries[of "ms_fields ms" i 0] Cons.prems by (auto simp: readable_def)
  moreover obtain cs' where "input_cursors (i + 1) ins = Ret cs'" "\<forall>c \<in> set cs'. cursor_ok c"
    "(\<Sum>c \<in># mset cs'. mset (rest_of c)) = mset (concat (map (\<lambda>(i, ms). seg_entries i 0 (ms_fields ms)) (enumerate (i + 1) ins)))"
    using Cons.IH[of "i + 1"] Cons.prems by auto
  ultimately show ?case by auto
qed simp

lemma all_entries_iff:
  "((t, f, i), run) \<in> set (all_entries ins) \<longleftrightarrow> i < length ins \<and> f < length (ms_fields (ins ! i)) \<and> (t, run) \<in> set (dict_of (ms_fields (ins ! i) ! f))"
  by (force simp: all_entries_def seg_entries_def tag_def in_set_enumerate_eq)

lemma distinct_tags:
  assumes "\<forall>mf \<in> set mfs. distinct (map fst (dict_of mf))"
  shows "distinct (map fst (seg_entries i f mfs))" "x \<in> set (seg_entries i f mfs) \<Longrightarrow> e_input x = i \<and> f \<le> e_field x"
proof -
  have "distinct (map fst (seg_entries i f mfs)) \<and> (\<forall>x \<in> set (seg_entries i f mfs). e_input x = i \<and> f \<le> e_field x)"
    using assms
  proof (induction mfs arbitrary: f)
    case (Cons mf mfs)
    have seg: "seg_entries i f (mf # mfs) = map (tag i f) (dict_of mf) @ seg_entries i (f + 1) mfs" by (simp add: seg_entries_def)
    have "distinct (map fst (map (tag i f) (dict_of mf)))"
      using Cons.prems by (simp add: distinct_map inj_on_def tag_fst)
    moreover have "\<forall>x \<in> set (seg_entries i (f + 1) mfs). e_input x = i \<and> f + 1 \<le> e_field x"
      "distinct (map fst (seg_entries i (f + 1) mfs))" using Cons by auto
    ultimately show ?case unfolding seg map_append distinct_append set_append by (auto simp: tag_fst)
  qed (simp add: seg_entries_def)
  then show "distinct (map fst (seg_entries i f mfs))" "x \<in> set (seg_entries i f mfs) \<Longrightarrow> e_input x = i \<and> f \<le> e_field x" by blast+
qed

lemma all_entries_distinct:
  assumes "\<forall>ms \<in> set ins. readable ms"
  shows "distinct (map fst (all_entries ins))"
proof -
  have "distinct (map fst (concat (map (\<lambda>(i, ms). seg_entries i 0 (ms_fields ms)) (enumerate i ins))))
      \<and> (\<forall>x \<in> set (concat (map (\<lambda>(i, ms). seg_entries i 0 (ms_fields ms)) (enumerate i ins))). i \<le> e_input x)" for i
    using assms
  proof (induction ins arbitrary: i)
    case (Cons ms ins)
    have d: "\<forall>mf \<in> set (ms_fields ms). distinct (map fst (dict_of mf))"
      using Cons.prems by (auto simp: readable_def strict_sorted_iff)
    have "distinct (map fst (concat (map (\<lambda>(i, ms). seg_entries i 0 (ms_fields ms)) (enumerate (i + 1) ins))))"
      "\<forall>x \<in> set (concat (map (\<lambda>(i, ms). seg_entries i 0 (ms_fields ms)) (enumerate (i + 1) ins))). i + 1 \<le> e_input x"
      using Cons by auto
    then show ?case using distinct_tags[where i = i and f = 0, OF d] by fastforce
  qed simp
  then show ?thesis by (simp add: all_entries_def)
qed

definition sorted_entries :: "mappedSegment list \<Rightarrow> wentry list" where
  "sorted_entries ins = sort_key fst (all_entries ins)"

lemma sorted_entries_simps:
  "set (sorted_entries ins) = set (all_entries ins)"
  "\<forall>ms \<in> set ins. readable ms \<Longrightarrow> sorted_wrt (<) (map fst (sorted_entries ins))"
proof -
  show "set (sorted_entries ins) = set (all_entries ins)" by (simp add: sorted_entries_def)
  assume "\<forall>ms \<in> set ins. readable ms"
  then have "distinct (map fst (all_entries ins))" by (rule all_entries_distinct)
  then have "distinct (map fst (sorted_entries ins))"
    unfolding sorted_entries_def by (metis mset_eq_imp_distinct_iff mset_map mset_sort)
  then show "sorted_wrt (<) (map fst (sorted_entries ins))" by (simp add: strict_sorted_iff sorted_entries_def)
qed

lemma mergeWalk_events:
  assumes "\<forall>ms \<in> set ins. readable ms"
  shows "mergeWalk ins remap = (events remap (sorted_entries ins), Ret ())"
proof -
  obtain cs where cs: "input_cursors 0 ins = Ret cs" "\<forall>c \<in> set cs. cursor_ok c" "(\<Sum>c \<in># mset cs. mset (rest_of c)) = mset (all_entries ins)"
    using input_cursors_entries[OF assms, of 0] by (auto simp: all_entries_def)
  have ms: "mset (go_Init cursor_Less cs) = mset cs" by (rule mset_go_Init)
  then have "set (go_Init cursor_Less cs) = set cs" by (metis set_mset_mset)
  then have "heap_rest (go_Init cursor_Less cs) (sorted_entries ins)"
    unfolding heap_rest_def ms using cs(2,3) cursor_heap.go_Init_ordered sorted_entries_simps(2)[OF assms]
    by (simp add: sorted_entries_def)
  then show ?thesis using walk_loop_drains cs(1) by (simp add: mergeWalk_def)
qed



section \<open>The calls, per term and field\<close>

text \<open>What the merge of the inputs calls, read off their dictionaries: over the terms in ascending
  order, one \<open>onField\<close> per field with a surviving posting, the inputs' runs one after the other, then
  \<open>onTerm\<close> with the number of distinct documents.\<close>

definition input_run :: "mappedSegment \<Rightarrow> string \<Rightarrow> nat \<Rightarrow> nat list \<times> nat list" where
  "input_run ms t f =
     (if f < length (ms_fields ms)
      then (case map_of (dict_of (ms_fields ms ! f)) t of None \<Rightarrow> ([], []) | Some run \<Rightarrow> run) else ([], []))"

definition merged_run :: "mappedSegment list \<Rightarrow> int list list \<Rightarrow> string \<Rightarrow> nat \<Rightarrow> (nat \<times> nat) list" where
  "merged_run ins remap t f = concat (map (\<lambda>i. remap_run (remap ! i) (input_run (ins ! i) t f)) [0..<length ins])"

definition all_terms :: "mappedSegment list \<Rightarrow> string list" where
  "all_terms ins = sort (remdups (concat (map (\<lambda>ms. concat (map (\<lambda>mf. map fst (dict_of mf)) (ms_fields ms))) ins)))"

definition field_bound :: "mappedSegment list \<Rightarrow> nat" where
  "field_bound ins = Max (insert 0 ((\<lambda>ms. length (ms_fields ms)) ` set ins))"

definition onField_call :: "string \<Rightarrow> nat \<Rightarrow> (nat \<times> nat) list \<Rightarrow> merge_event list" where
  "onField_call t f run = (if run = [] then [] else [OnField t f run])"

definition merge_calls :: "mappedSegment list \<Rightarrow> int list list \<Rightarrow> merge_event list" where
  "merge_calls ins remap =
     concat (map (\<lambda>t. concat (map (\<lambda>f. onField_call t f (merged_run ins remap t f)) [0..<field_bound ins])
                   @ term_event t (concat (map (\<lambda>f. map fst (merged_run ins remap t f)) [0..<field_bound ins]))) (all_terms ins))"

lemma no_calls [simp]: "runs remap [] = []" "onField_call t f [] = []" "term_event t [] = []"
  by (simp_all add: runs_def onField_call_def term_event_def)

lemma no_members: "\<forall>x \<in> set S. k x \<in> set [] \<Longrightarrow> S = []"
  by (cases S; simp; blast)

lemma field_events_by_field:
  assumes "sorted_wrt (<) fs" "\<forall>x \<in> set S. e_field x \<in> set fs" "sorted_wrt (\<le>) (map e_field S)"
  shows "field_events remap t S = concat (map (\<lambda>f. onField_call t f (runs remap (filter (\<lambda>x. e_field x = f) S))) fs)"
  using assms
proof (induction fs arbitrary: S)
  case Nil
  then have "S = []" by (metis no_members)
  then show ?case by simp
next
  case (Cons f fs)
  have more: "onField_call t g (runs remap (filter (\<lambda>x. e_field x = g) S)) =
      onField_call t g (runs remap (filter (\<lambda>x. e_field x = g) (filter (\<lambda>x. e_field x \<noteq> f) S)))" if "g \<in> set fs" for g
  proof -
    have "g \<noteq> f" using Cons.prems(1) that by auto
    then have "filter (\<lambda>x. e_field x = g) S = filter (\<lambda>x. e_field x = g) (filter (\<lambda>x. e_field x \<noteq> f) S)"
      by (simp add: filter_filter) (rule filter_cong; auto)
    then show ?thesis by simp
  qed
  have IH: "field_events remap t (filter (\<lambda>x. e_field x \<noteq> f) S) =
      concat (map (\<lambda>g. onField_call t g (runs remap (filter (\<lambda>x. e_field x = g) S))) fs)"
  proof -
    have "field_events remap t (filter (\<lambda>x. e_field x \<noteq> f) S) = concat (map (\<lambda>g. onField_call t g (runs remap (filter (\<lambda>x. e_field x = g) (filter (\<lambda>x. e_field x \<noteq> f) S)))) fs)" by (rule Cons.IH) (use Cons.prems in \<open>auto simp: sorted_wrt_map sorted_wrt_filter\<close>)
    also have "\<dots> = concat (map (\<lambda>g. onField_call t g (runs remap (filter (\<lambda>x. e_field x = g) S))) fs)"
      by (rule arg_cong[where f = concat], rule map_cong[OF refl], rule more[symmetric])
    finally show ?thesis .
  qed
  show ?case
  proof (cases S)
    case Nil
    then show ?thesis using IH by (simp add: onField_call_def runs_def)
  next
    case (Cons e S')
    show ?thesis
    proof (cases "e_field e = f")
      case True
      then show ?thesis using IH Cons by (subst Cons, subst field_events.simps) (simp add: onField_call_def Let_def)
    next
      case False
      then have "f < e_field e" using Cons.prems(1,2) Cons by auto
      then have "\<forall>x \<in> set S. e_field x \<noteq> f" using Cons.prems(3) Cons by fastforce
      then have "filter (\<lambda>x. e_field x \<noteq> f) S = S" "filter (\<lambda>x. e_field x = f) S = []" by (simp_all add: filter_empty_conv)
      then show ?thesis using IH by simp
    qed
  qed
qed

definition term_calls :: "int list list \<Rightarrow> wentry list \<Rightarrow> string \<Rightarrow> merge_event list" where
  "term_calls remap S t =
     (let St = filter (\<lambda>x. e_term x = t) S in field_events remap t St @ term_event t (map fst (runs remap St)))"

lemma events_by_term:
  assumes "sorted_wrt (<) ts" "\<forall>x \<in> set S. e_term x \<in> set ts" "sorted_wrt (\<le>) (map e_term S)"
  shows "events remap S = concat (map (term_calls remap S) ts)"
  using assms
proof (induction ts arbitrary: S)
  case Nil
  then have "S = []" by (metis no_members)
  then show ?case by simp
next
  case (Cons t ts)
  have more: "term_calls remap S g = term_calls remap (filter (\<lambda>x. e_term x \<noteq> t) S) g" if "g \<in> set ts" for g
  proof -
    have "g \<noteq> t" using Cons.prems(1) that by auto
    then have "filter (\<lambda>x. e_term x = g) S = filter (\<lambda>x. e_term x = g) (filter (\<lambda>x. e_term x \<noteq> t) S)"
      by (simp add: filter_filter) (rule filter_cong; auto)
    then show ?thesis by (simp add: term_calls_def)
  qed
  have IH: "events remap (filter (\<lambda>x. e_term x \<noteq> t) S) = concat (map (term_calls remap S) ts)"
  proof -
    have "events remap (filter (\<lambda>x. e_term x \<noteq> t) S) = concat (map (term_calls remap (filter (\<lambda>x. e_term x \<noteq> t) S)) ts)" by (rule Cons.IH) (use Cons.prems in \<open>auto simp: sorted_wrt_map sorted_wrt_filter\<close>)
    also have "\<dots> = concat (map (term_calls remap S) ts)"
      by (rule arg_cong[where f = concat], rule map_cong[OF refl], rule more[symmetric])
    finally show ?thesis .
  qed
  show ?case
  proof (cases S)
    case Nil
    then show ?thesis using IH by (simp add: term_calls_def term_event_def runs_def)
  next
    case (Cons e S')
    show ?thesis
    proof (cases "e_term e = t")
      case True
      then show ?thesis using IH Cons by (subst Cons, subst events.simps) (simp add: term_calls_def Let_def)
    next
      case False
      then have "t < e_term e" using Cons.prems(1,2) Cons by auto
      then have "\<forall>x \<in> set S. e_term x \<noteq> t" using Cons.prems(3) Cons by fastforce
      then have "filter (\<lambda>x. e_term x \<noteq> t) S = S" "filter (\<lambda>x. e_term x = t) S = []" by (simp_all add: filter_empty_conv)
      moreover from this have "term_calls remap S t = []" by (simp add: term_calls_def)
      ultimately show ?thesis using IH by simp
    qed
  qed
qed

lemma strictly_sorted_unique:
  fixes A B :: "('k::linorder \<times> 'v) list"
  assumes "sorted_wrt (<) (map fst A)" "sorted_wrt (<) (map fst B)" "set A = set B"
  shows "A = B"
  using assms
proof (induction A arbitrary: B)
  case (Cons a A)
  then obtain b B' where B: "B = b # B'" by (cases B) auto
  have "a = b"
  proof (rule ccontr)
    assume ne: "a \<noteq> b"
    then have "a \<in> set B'" "b \<in> set A" using Cons.prems(3) B by auto
    then have "fst b < fst a" "fst a < fst b" using Cons.prems(1,2) B by auto
    then show False by simp
  qed
  moreover have "a \<notin> set A" "b \<notin> set B'" using Cons.prems(1,2) B by auto
  ultimately have "set A = set B'" using Cons.prems(3) B by auto
  then show ?case using Cons.IH[of B'] Cons.prems B \<open>a = b\<close> by simp
qed simp

text \<open>The entries of one term and field, the inputs in order.\<close>

definition entry_at :: "mappedSegment list \<Rightarrow> string \<Rightarrow> nat \<Rightarrow> nat \<Rightarrow> wentry list" where
  "entry_at ins t f i =
     (if f < length (ms_fields (ins ! i))
      then (case map_of (dict_of (ms_fields (ins ! i) ! f)) t of None \<Rightarrow> [] | Some run \<Rightarrow> [((t, f, i), run)]) else [])"

lemma entry_at_key: "x \<in> set (entry_at ins t f i) \<Longrightarrow> fst x = (t, f, i)"
  unfolding entry_at_def
  by (cases "f < length (ms_fields (ins ! i))"; cases "map_of (dict_of (ms_fields (ins ! i) ! f)) t"; simp)

lemma entry_at_sorted: "sorted_wrt (<) (map fst (entry_at ins t f i))"
  by (simp add: entry_at_def split: option.split)

lemma entries_at_sorted: "sorted_wrt (<) (map fst (concat (map (entry_at ins t f) [0..<m])))"
proof (induction m)
  case (Suc m)
  have "fst x < fst y" if "x \<in> set (entry_at ins t f i)" "i < m" "y \<in> set (entry_at ins t f m)" for x y i
    using that by (simp add: entry_at_key less_prod_def)
  then have "\<forall>a \<in> set (map fst (concat (map (entry_at ins t f) [0..<m]))). \<forall>b \<in> set (map fst (entry_at ins t f m)). a < b"
    by fastforce
  then show ?case using Suc entry_at_sorted[of ins t f m] by (simp add: sorted_wrt_append)
qed simp

lemma entry_at_iff:
  assumes "\<forall>ms \<in> set ins. readable ms" "i < length ins"
  shows "((t', f', i'), run) \<in> set (entry_at ins t f i) \<longleftrightarrow>
    t' = t \<and> f' = f \<and> i' = i \<and> ((t, f, i), run) \<in> set (all_entries ins)"
proof (cases "f < length (ms_fields (ins ! i))")
  case True
  have "ins ! i \<in> set ins" "ms_fields (ins ! i) ! f \<in> set (ms_fields (ins ! i))" using assms(2) True by simp_all
  then have "distinct (map fst (dict_of (ms_fields (ins ! i) ! f)))"
    using assms(1) unfolding readable_def strict_sorted_iff by blast
  then have "(t, run) \<in> set (dict_of (ms_fields (ins ! i) ! f)) \<longleftrightarrow> map_of (dict_of (ms_fields (ins ! i) ! f)) t = Some run" by simp
  then show ?thesis using assms(2) True by (cases "map_of (dict_of (ms_fields (ins ! i) ! f)) t") (auto simp: entry_at_def all_entries_iff)
qed (simp add: entry_at_def all_entries_iff)

lemma entries_of:
  assumes "\<forall>ms \<in> set ins. readable ms"
  shows "filter (\<lambda>x. e_term x = t \<and> e_field x = f) (sorted_entries ins) = concat (map (entry_at ins t f) [0..<length ins])" (is "?A = ?B")
proof (rule strictly_sorted_unique)
  show "sorted_wrt (<) (map fst ?A)" using sorted_entries_simps(2)[OF assms] by (simp only: sorted_filter_fst)
  show "sorted_wrt (<) (map fst ?B)" by (rule entries_at_sorted)
  show "set ?A = set ?B"
  proof (rule set_eqI)
    fix x :: wentry
    obtain t' f' i run where x: "x = ((t', f', i), run)" by (metis prod.collapse)
    have "x \<in> set ?B \<longleftrightarrow> (\<exists>j < length ins. ((t', f', i), run) \<in> set (entry_at ins t f j))" by (auto simp: x)
    also have "\<dots> \<longleftrightarrow> t' = t \<and> f' = f \<and> ((t, f, i), run) \<in> set (all_entries ins)"
      using entry_at_iff[OF assms] all_entries_iff by metis
    finally show "x \<in> set ?A \<longleftrightarrow> x \<in> set ?B" by (auto simp: x sorted_entries_simps(1))
  qed
qed

lemma runs_of:
  assumes "\<forall>ms \<in> set ins. readable ms"
  shows "runs remap (filter (\<lambda>x. e_term x = t \<and> e_field x = f) (sorted_entries ins)) = merged_run ins remap t f"
proof -
  have nil: "remap_run rm ([], []) = []" for rm by (simp add: remap_run_def)
  have concat_map: "runs remap (concat (map g is)) = concat (map (\<lambda>i. runs remap (g i)) is)" for g and "is" :: "nat list"
    by (induction "is") (simp_all add: runs_append)
  show ?thesis
    unfolding entries_of[OF assms] concat_map merged_run_def
    by (rule arg_cong[where f = concat], rule map_cong[OF refl]) (simp add: entry_at_def input_run_def runs_def nil split: option.split)
qed

lemma upt_sorted: "sorted_wrt (<) [0..<n :: nat]"
  by simp

lemma runs_by_field:
  assumes "sorted_wrt (<) fs" "\<forall>x \<in> set S. e_field x \<in> set fs" "sorted_wrt (\<le>) (map e_field S)"
  shows "runs remap S = concat (map (\<lambda>f. runs remap (filter (\<lambda>x. e_field x = f) S)) fs)"
proof -
  have "S = concat (map (\<lambda>f. filter (\<lambda>x. e_field x = f) S) fs)"
    using assms
  proof (induction fs arbitrary: S)
    case Nil
    then have "S = []" by (metis no_members)
    then show ?case by simp
  next
    case (Cons f fs)
    have split: "S = filter (\<lambda>x. e_field x = f) S @ filter (\<lambda>x. e_field x \<noteq> f) S"
    proof (cases S)
      case (Cons e S')
      show ?thesis
      proof (cases "e_field e = f")
        case True
        have g: "takeWhile (\<lambda>x. e_field x = f) S = filter (\<lambda>x. e_field x = f) S"
          "dropWhile (\<lambda>x. e_field x = f) S = filter (\<lambda>x. e_field x \<noteq> f) S"
          using group_first[of e_field e S' "\<lambda>x. e_field x = f"] \<open>sorted_wrt (\<le>) (map e_field S)\<close> Cons True by simp_all
        show ?thesis unfolding g[symmetric] by (rule takeWhile_dropWhile_id[symmetric])
      next
        case False
        then have "f < e_field e" using Cons.prems(1,2) Cons by auto
        then have "\<forall>x \<in> set S. e_field x \<noteq> f" using Cons.prems(3) Cons by fastforce
        then show ?thesis by (simp add: filter_empty_conv)
      qed
    qed simp
    have "filter (\<lambda>x. e_field x \<noteq> f) S = concat (map (\<lambda>g. filter (\<lambda>x. e_field x = g) (filter (\<lambda>x. e_field x \<noteq> f) S)) fs)"
      by (rule Cons.IH) (use Cons.prems in \<open>auto simp: sorted_wrt_map sorted_wrt_filter\<close>)
    also have "\<dots> = concat (map (\<lambda>g. filter (\<lambda>x. e_field x = g) S) fs)"
    proof (rule arg_cong[where f = concat], rule map_cong[OF refl])
      fix g assume "g \<in> set fs"
      then have "g \<noteq> f" using Cons.prems(1) by auto
      then show "filter (\<lambda>x. e_field x = g) (filter (\<lambda>x. e_field x \<noteq> f) S) = filter (\<lambda>x. e_field x = g) S"
        by (simp add: filter_filter) (rule filter_cong; auto)
    qed
    finally show ?case using split by simp
  qed
  moreover have "runs remap (concat (map g fs)) = concat (map (\<lambda>f. runs remap (g f)) fs)" for g
    by (induction fs) (simp_all add: runs_append)
  ultimately show ?thesis by metis
qed

lemma mergeWalk_eq:
  assumes "\<forall>ms \<in> set ins. readable ms"
  shows "mergeWalk ins remap = (merge_calls ins remap, Ret ())"
proof -
  let ?S = "sorted_entries ins"
  let ?at = "\<lambda>t f. filter (\<lambda>x. e_field x = f) (filter (\<lambda>x. e_term x = t) ?S)"
  have so: "sorted_wrt (<) (map fst ?S)" by (rule sorted_entries_simps(2)[OF assms])
  have terms: "sorted_wrt (<) (all_terms ins)" by (simp add: all_terms_def strict_sorted_iff)
  have in_terms: "\<forall>x \<in> set ?S. e_term x \<in> set (all_terms ins)"
  proof
    fix x assume "x \<in> set ?S"
    then obtain t f i run where x: "x = ((t, f, i), run)" "((t, f, i), run) \<in> set (all_entries ins)"
      using sorted_entries_simps(1)[of ins] by (metis prod.collapse)
    then have "i < length ins" "f < length (ms_fields (ins ! i))" "t \<in> fst ` set (dict_of (ms_fields (ins ! i) ! f))"
      by (force simp: all_entries_iff)+
    then have "ins ! i \<in> set ins" "ms_fields (ins ! i) ! f \<in> set (ms_fields (ins ! i))" by simp_all
    then have "\<exists>ms \<in> set ins. \<exists>mf \<in> set (ms_fields ms). t \<in> fst ` set (dict_of mf)" using \<open>t \<in> _\<close> by blast
    then show "e_term x \<in> set (all_terms ins)" using x(1) by (simp add: all_terms_def)
  qed
  have in_fields: "\<forall>x \<in> set ?S. e_field x \<in> set [0..<field_bound ins]"
  proof
    fix x assume "x \<in> set ?S"
    then obtain t f i run where x: "x = ((t, f, i), run)" "((t, f, i), run) \<in> set (all_entries ins)"
      using sorted_entries_simps(1)[of ins] by (metis prod.collapse)
    then have "f < length (ms_fields (ins ! i))" "ins ! i \<in> set ins" by (simp_all add: all_entries_iff)
    moreover from this have "length (ms_fields (ins ! i)) \<le> field_bound ins" unfolding field_bound_def by (intro Max_ge) auto
    ultimately show "e_field x \<in> set [0..<field_bound ins]" using x(1) by simp
  qed
  have run: "runs remap (?at t f) = merged_run ins remap t f" for t f
    using runs_of[OF assms, of remap t f] by (simp add: filter_filter conj_commute)
  have calls: "term_calls remap ?S t =
      concat (map (\<lambda>f. onField_call t f (merged_run ins remap t f)) [0..<field_bound ins])
      @ term_event t (concat (map (\<lambda>f. map fst (merged_run ins remap t f)) [0..<field_bound ins]))" for t
  proof -
    let ?St = "filter (\<lambda>x. e_term x = t) ?S"
    have f: "\<forall>x \<in> set ?St. e_field x \<in> set [0..<field_bound ins]" using in_fields by simp
    have s: "sorted_wrt (\<le>) (map e_field ?St)" by (rule key_sorted_field[OF sorted_filter_fst[OF so]]) auto
    show ?thesis
      unfolding term_calls_def Let_def field_events_by_field[OF upt_sorted f s] runs_by_field[OF upt_sorted f s] run
      by (simp add: map_concat comp_def)
  qed
  show ?thesis
    unfolding mergeWalk_events[OF assms] events_by_term[OF terms in_terms key_sorted_term[OF so]] merge_calls_def
    by (intro arg_cong2[where f = Pair] arg_cong[where f = concat] map_cong refl calls)
qed

text \<open>C30: The streaming walk over any number of segments whose dictionaries can be read and are sorted
  makes exactly the calls of the reference: over the terms of all inputs in ascending order, for each
  field in order one \<open>onField\<close> with the surviving postings of all inputs under their new ids, the inputs
  one after the other, left out when none survives, then one \<open>onTerm\<close> with the number of distinct
  surviving documents of the term over all fields, left out when there is none.  It ends normally.\<close>
theorem mergeWalk_calls:
  assumes "\<forall>ms \<in> set ins. readable ms"
  shows "mergeWalk ins remap = (merge_calls ins remap, Ret ())"
  by (rule mergeWalk_eq[OF assms])


lemma view_readable:
  assumes "segment_view s ms" "segment_wf s"
  shows "readable ms"
proof -
  have f: "list_all2 (field_view (length (bs_members s))) (bs_fields s) (ms_fields ms)" using assms(1) by (simp add: segment_view_def)
  have "eachTerm mf = Ret (dict_of mf) \<and> sorted_wrt (<) (map fst (dict_of mf))" if "mf \<in> set (ms_fields ms)" for mf
  proof -
    obtain i where i: "i < length (ms_fields ms)" "mf = ms_fields ms ! i" using \<open>mf \<in> _\<close> by (auto simp: in_set_conv_nth)
    then have "i < length (bs_fields s)" using list_all2_lengthD[OF f] by simp
    then have v: "field_view (length (bs_members s)) (bs_fields s ! i) mf" "field_wf (length (bs_members s)) (bs_fields s ! i)"
      using list_all2_nthD[OF f] i assms(2) by (auto simp: segment_wf_def list_all_length)
    then have "eachTerm mf = Ret (map (\<lambda>t. (t, run_of (postings_of (bs_fields s ! i) t))) (sortedKeys (fd_postings (bs_fields s ! i))))"
      "sorted_wrt (<) (sortedKeys (fd_postings (bs_fields s ! i)))"
      using sortedKeys_ascending[of "fd_postings (bs_fields s ! i)"] by (simp_all add: field_view_def field_wf_def)
    then show ?thesis by (simp add: dict_of_def comp_def)
  qed
  then show ?thesis by (simp add: readable_def)
qed

text \<open>One segment of two documents, of which the second is dropped.\<close>

theorem mergeWalk_calls_witness:
  "\<exists>ms. openSegmentV2 (ms_blob ms) = Ret ms
     \<and> mergeWalk [ms] [[0, - 1]] = ([OnField ''get'' 0 [(0, 1)], OnTerm ''get'' 1, OnField ''user'' 0 [(0, 1)], OnTerm ''user'' 1], Ret ())"
proof -
  obtain b where b: "encodeSegmentV2 demo_segment dictBlocked = Ret b" using demo_segment_encodes(2) by blast
  obtain ms where ms: "openSegmentV2 b = Ret ms" "ms_blob ms = b" "segment_view demo_segment ms"
    using encoded_opens[OF b demo_segment_encodes(1)] by blast
  obtain mf where f: "ms_fields ms = [mf]" and v: "field_view 2 (hd (bs_fields demo_segment)) mf"
    using ms(3) by (auto simp: segment_view_def demo_segment_def list_all2_Cons1 numeral_2_eq_2)
  have "dict_of mf = [(''get'', [0], [1]), (''user'', [0, 1], [1, 2])]"
    using v by (simp add: dict_of_def field_view_def demo_segment_def sortedKeys_def run_of_def postings_of_def)
  then have "merge_calls [ms] [[0, - 1]] = [OnField ''get'' 0 [(0, 1)], OnTerm ''get'' 1, OnField ''user'' 0 [(0, 1)], OnTerm ''user'' 1]"
    by (simp add: merge_calls_def all_terms_def field_bound_def merged_run_def input_run_def remap_run_def f onField_call_def term_event_def)
  then show ?thesis
    using mergeWalk_calls[of "[ms]" "[[0, - 1]]"] view_readable[OF ms(3) demo_segment_encodes(1)] ms(1,2) by (intro exI[of _ ms]) simp
qed

end
