(* ===== verification/Bm25Writer.thy ===== *)
theory Bm25Writer
  imports Bm25Serial
begin

text \<open>
  \<open>internal/searchengine/formats/bm25/merge_writer.go\<close>: the writer of a streamed merge, which patches
  offsets of the planned prefix and appends to a tail, through eight coalescing windows.

  The sink is a file of bytes; what lies past its end reads as zero, and a write past the end extends it.
  Whether the \<open>n\<close>-th \<open>WriteAt\<close> fails is the parameter \<open>io\<close>, an answer per call; a failed one leaves
  the file as it was (a merge with an error discards its file). A window is its start, its bytes and
  whether it has been opened; the code's slices of one backing array are the lists \<open>r_buf\<close>, whose
  length never exceeds \<open>mergeRunBytes\<close>.

  Shown: for the calls of a merge the windows change nothing, the flushed file holds what writing
  every call through at once would give; and the padding of an append can overwrite a patched value
  when the calls are not laid out as a merge lays them out, which the check of the offset does not see.
\<close>

section \<open>The sink and the windows\<close>

abbreviation (input) mergeRunBytes :: nat where "mergeRunBytes \<equiv> 8192"
abbreviation (input) mergeRunSlots :: nat where "mergeRunSlots \<equiv> 8"
abbreviation (input) mergeRunMaxGap :: nat where "mergeRunMaxGap \<equiv> 8"

definition writeAt :: "nat \<Rightarrow> byte list \<Rightarrow> byte list \<Rightarrow> byte list" where
  "writeAt off b f = put_at off b (f @ replicate (off - length f) 0)"

definition peek :: "byte list \<Rightarrow> nat \<Rightarrow> byte" where
  "peek f i = (if i < length f then f ! i else 0)"

record mergeRun =
  r_start :: nat
  r_buf :: "byte list"
  r_live :: bool

record mergeWriter =
  w_f :: "byte list"
  w_calls :: nat
  w_tail :: nat
  w_err :: "engine_error option"
  w_padFloor :: nat
  w_runs :: "mergeRun list"
  w_rr :: nat

definition newMergeWriter :: "byte list \<Rightarrow> nat \<Rightarrow> mergeWriter" where
  "newMergeWriter f start = \<lparr>w_f = f, w_calls = 0, w_tail = start, w_err = None, w_padFloor = start,
     w_runs = replicate mergeRunSlots \<lparr>r_start = 0, r_buf = [], r_live = False\<rparr>, w_rr = 0\<rparr>"

abbreviation r_end :: "mergeRun \<Rightarrow> nat" where "r_end r \<equiv> r_start r + length (r_buf r)"

section \<open>Flushing\<close>

definition writeThrough :: "(nat \<Rightarrow> engine_error option) \<Rightarrow> nat \<Rightarrow> byte list \<Rightarrow> mergeWriter \<Rightarrow> mergeWriter" where
  "writeThrough io off b w =
     (if w_err w \<noteq> None then w
      else case io (w_calls w) of
             Some e \<Rightarrow> w\<lparr>w_calls := w_calls w + 1, w_err := Some (Wrap ''bm25 merge: write'' e)\<rparr>
           | None \<Rightarrow> w\<lparr>w_calls := w_calls w + 1, w_f := writeAt off b (w_f w)\<rparr>)"

definition flushRun :: "(nat \<Rightarrow> engine_error option) \<Rightarrow> nat \<Rightarrow> mergeWriter \<Rightarrow> mergeWriter" where
  "flushRun io i w =
     (let r = w_runs w ! i
      in if r_buf r = [] then w
         else let w' = writeThrough io (r_start r) (r_buf r) w
              in w'\<lparr>w_runs := (w_runs w')[i := r\<lparr>r_start := r_end r, r_buf := []\<rparr>]\<rparr>)"

definition flushOverlapping :: "(nat \<Rightarrow> engine_error option) \<Rightarrow> nat \<Rightarrow> nat \<Rightarrow> mergeWriter \<Rightarrow> mergeWriter" where
  "flushOverlapping io lo hi w =
     fold (\<lambda>i w. let r = w_runs w ! i
                 in if r_buf r \<noteq> [] \<and> lo < r_end r \<and> r_start r < hi then flushRun io i w else w)
       [0..<length (w_runs w)] w"

definition flushAll :: "(nat \<Rightarrow> engine_error option) \<Rightarrow> mergeWriter \<Rightarrow> mergeWriter" where
  "flushAll io w = fold (flushRun io) [0..<length (w_runs w)] w"

section \<open>Storing\<close>

text \<open>The four arms of \<open>storeAt\<close>, tried in this order.\<close>

definition inside_run :: "nat \<Rightarrow> byte list \<Rightarrow> mergeRun \<Rightarrow> bool" where
  "inside_run off b r \<longleftrightarrow> r_buf r \<noteq> [] \<and> r_start r \<le> off \<and> off + length b \<le> r_end r"

definition extends_run :: "nat \<Rightarrow> bool \<Rightarrow> mergeRun \<Rightarrow> bool" where
  "extends_run off mayPad r \<longleftrightarrow> r_live r \<and> r_end r \<le> off \<and> off - r_end r \<le> mergeRunMaxGap \<and> (off = r_end r \<or> mayPad)"

definition overwrite_run :: "nat \<Rightarrow> nat \<Rightarrow> byte list \<Rightarrow> mergeWriter \<Rightarrow> mergeWriter" where
  "overwrite_run i off b w =
     (let r = w_runs w ! i
      in w\<lparr>w_runs := (w_runs w)[i := r\<lparr>r_buf := put_at (off - r_start r) b (r_buf r)\<rparr>]\<rparr>)"

definition extend_run :: "(nat \<Rightarrow> engine_error option) \<Rightarrow> nat \<Rightarrow> nat \<Rightarrow> byte list \<Rightarrow> mergeWriter \<Rightarrow> mergeWriter" where
  "extend_run io i off b w =
     (let r = w_runs w ! i; gap = off - r_end r;
          (w1, gap1) = (if length (r_buf r) + gap + length b > mergeRunBytes
                        then let w1 = flushRun io i w in (w1, off - r_start (w_runs w1 ! i)) else (w, gap));
          w2 = flushOverlapping io (r_end (w_runs w1 ! i)) (off + length b) w1;
          r2 = w_runs w2 ! i; buf = r_buf r2 @ replicate gap1 0 @ b;
          w3 = w2\<lparr>w_runs := (w_runs w2)[i := r2\<lparr>r_buf := buf\<rparr>]\<rparr>
      in if length buf \<ge> mergeRunBytes then flushRun io i w3 else w3)"

definition open_run :: "(nat \<Rightarrow> engine_error option) \<Rightarrow> nat \<Rightarrow> byte list \<Rightarrow> mergeWriter \<Rightarrow> mergeWriter" where
  "open_run io off b w =
     (let w1 = flushOverlapping io off (off + length b) w; i = w_rr w1;
          w2 = flushRun io i (w1\<lparr>w_rr := (i + 1) mod mergeRunSlots\<rparr>)
      in w2\<lparr>w_runs := (w_runs w2)[i := \<lparr>r_start = off, r_buf = b, r_live = True\<rparr>]\<rparr>)"

definition storeAt :: "(nat \<Rightarrow> engine_error option) \<Rightarrow> nat \<Rightarrow> byte list \<Rightarrow> bool \<Rightarrow> mergeWriter \<Rightarrow> mergeWriter" where
  "storeAt io off b mayPad w =
     (if w_err w \<noteq> None \<or> b = [] then w
      else case find (\<lambda>i. inside_run off b (w_runs w ! i)) [0..<length (w_runs w)] of
             Some i \<Rightarrow> overwrite_run i off b w
           | None \<Rightarrow>
               if length b + mergeRunMaxGap > mergeRunBytes
               then writeThrough io off b (flushOverlapping io off (off + length b) w)
               else case find (\<lambda>i. extends_run off mayPad (w_runs w ! i)) [0..<length (w_runs w)] of
                      Some i \<Rightarrow> extend_run io i off b w
                    | None \<Rightarrow> open_run io off b w)"

definition patch :: "(nat \<Rightarrow> engine_error option) \<Rightarrow> nat \<Rightarrow> byte list \<Rightarrow> mergeWriter \<Rightarrow> mergeWriter" where
  "patch io off b = storeAt io off b False"

definition storeAppend :: "(nat \<Rightarrow> engine_error option) \<Rightarrow> nat \<Rightarrow> byte list \<Rightarrow> mergeWriter \<Rightarrow> mergeWriter" where
  "storeAppend io off b w =
     (if off < w_padFloor w then w\<lparr>w_err := Some (ErrText ''bm25 merge: REFUSING a tail append below the prefix end'')\<rparr>
      else storeAt io off b True w)"

definition appendAligned :: "(nat \<Rightarrow> engine_error option) \<Rightarrow> byte list \<Rightarrow> nat \<Rightarrow> mergeWriter \<Rightarrow> mergeWriter \<times> nat" where
  "appendAligned io b alignTo w =
     (if w_err w \<noteq> None then (w, 0)
      else let start = align (w_tail w) alignTo; w1 = storeAppend io start b w
           in (w1\<lparr>w_tail := start + length b\<rparr>, start))"

text \<open>The calls a merge makes: patches at planned offsets, and appends with their alignment.\<close>

datatype wcall = Patch nat "byte list" | Append "byte list" nat

fun run_call :: "(nat \<Rightarrow> engine_error option) \<Rightarrow> wcall \<Rightarrow> mergeWriter \<Rightarrow> mergeWriter" where
  "run_call io (Patch off b) w = patch io off b w"
| "run_call io (Append b alignTo) w = fst (appendAligned io b alignTo w)"

section \<open>What the windows show\<close>

text \<open>
  The bytes of the file as the writer's client sees them: a window's bytes over the file's. The
  windows never share an offset.
\<close>

definition covers :: "mergeRun \<Rightarrow> nat \<Rightarrow> bool" where
  "covers r i \<longleftrightarrow> r_start r \<le> i \<and> i < r_end r"

definition img :: "mergeWriter \<Rightarrow> nat \<Rightarrow> byte" where
  "img w i = (case find (\<lambda>r. covers r i) (w_runs w) of Some r \<Rightarrow> r_buf r ! (i - r_start r) | None \<Rightarrow> peek (w_f w) i)"

definition apart :: "mergeRun list \<Rightarrow> bool" where
  "apart rs \<longleftrightarrow> (\<forall>i j k. i < length rs \<longrightarrow> j < length rs \<longrightarrow> i \<noteq> j \<longrightarrow> \<not> (covers (rs ! i) k \<and> covers (rs ! j) k))"

definition win :: "mergeWriter \<Rightarrow> bool" where
  "win w \<longleftrightarrow> w_err w = None \<and> length (w_runs w) = mergeRunSlots \<and> w_rr w < mergeRunSlots \<and> apart (w_runs w)
     \<and> (\<forall>i < mergeRunSlots. length (r_buf (w_runs w ! i)) \<le> mergeRunBytes \<and> (r_live (w_runs w ! i) \<or> r_buf (w_runs w ! i) = []))"

definition wr :: "nat \<Rightarrow> byte list \<Rightarrow> (nat \<Rightarrow> byte) \<Rightarrow> nat \<Rightarrow> byte" where
  "wr off b g i = (if off \<le> i \<and> i < off + length b then b ! (i - off) else g i)"

definition flushed :: "mergeRun \<Rightarrow> mergeRun" where
  "flushed r = r\<lparr>r_start := r_end r, r_buf := []\<rparr>"

lemma flushed_simps [simp]: "r_start (flushed r) = r_end r" "r_live (flushed r) = r_live r" "r_buf (flushed r) = []" "\<not> covers (flushed r) i"
  by (simp_all add: flushed_def covers_def)

lemma flushed_id: "r_buf r = [] \<Longrightarrow> flushed r = r"
  by (cases r) (simp add: flushed_def)

lemma peek_append: "peek (xs @ ys) i = (if i < length xs then xs ! i else peek ys (i - length xs))"
  by (auto simp: peek_def nth_append)

lemma peek_zeros: "peek (replicate n 0) i = 0"
  by (simp add: peek_def)

lemma peek_pad: "peek (f @ replicate n 0) = peek f"
  by (simp add: fun_eq_iff peek_append peek_zeros) (simp add: peek_def)

lemma peek_take: "i < n \<Longrightarrow> peek (take n f) i = peek f i"
  by (simp add: peek_def)

lemma peek_drop: "peek (drop n f) i = peek f (n + i)"
  by (simp add: peek_def less_diff_conv add.commute)

lemma peek_put_at:
  assumes "off \<le> length f"
  shows "peek (put_at off b f) i = wr off b (peek f) i"
proof -
  consider "i < off" | "off \<le> i" "i < off + length b" | "off + length b \<le> i" by linarith
  then show ?thesis
  proof cases
    case 1
    then show ?thesis using assms by (simp add: put_at_def peek_append min_absorb2 wr_def) (simp add: peek_def)
  next
    case 2
    then have "i - off < length b" by linarith
    then show ?thesis using assms 2 by (simp add: put_at_def peek_append min_absorb2 wr_def)
  next
    case 3
    then have "\<not> i < off" "\<not> i - off < length b" "off + length b + (i - off - length b) = i" by linarith+
    then show ?thesis using assms 3 by (simp add: put_at_def peek_append min_absorb2 wr_def peek_drop)
  qed
qed

lemma peek_writeAt: "peek (writeAt off b f) = wr off b (peek f)"
proof -
  have "off \<le> length (f @ replicate (off - length f) 0)" by simp
  then show ?thesis unfolding writeAt_def fun_eq_iff using peek_put_at peek_pad by metis
qed

lemma img_covered: "apart (w_runs w) \<Longrightarrow> j < length (w_runs w) \<Longrightarrow> covers (w_runs w ! j) i \<Longrightarrow> img w i = r_buf (w_runs w ! j) ! (i - r_start (w_runs w ! j))"
proof -
  assume a: "apart (w_runs w)" "j < length (w_runs w)" "covers (w_runs w ! j) i"
  then obtain r where f: "find (\<lambda>r. covers r i) (w_runs w) = Some r"
    by (cases "find (\<lambda>r. covers r i) (w_runs w)") (auto simp: find_None_iff)
  then obtain k where k: "k < length (w_runs w)" "r = w_runs w ! k" "covers r i" by (auto simp: find_Some_iff)
  then have "k = j" using a by (auto simp: apart_def)
  then show ?thesis using f k by (simp add: img_def)
qed

lemma img_uncovered: "(\<And>j. j < length (w_runs w) \<Longrightarrow> \<not> covers (w_runs w ! j) i) \<Longrightarrow> img w i = peek (w_f w) i"
proof -
  assume "\<And>j. j < length (w_runs w) \<Longrightarrow> \<not> covers (w_runs w ! j) i"
  then have "find (\<lambda>r. covers r i) (w_runs w) = None" by (auto simp: find_None_iff in_set_conv_nth)
  then show ?thesis by (simp add: img_def)
qed

text \<open>Two writers with the same windows outside a set of offsets.\<close>

definition sink_ok :: "(nat \<Rightarrow> engine_error option) \<Rightarrow> bool" where
  "sink_ok io \<longleftrightarrow> (\<forall>n. io n = None)"

lemma img_cong: "w_runs w' = w_runs w \<Longrightarrow> w_f w' = w_f w \<Longrightarrow> img w' = img w"
  by (auto simp: img_def fun_eq_iff split: option.split)

lemma apart_update:
  assumes "apart rs" "i < length rs" "\<And>k j. covers r k \<Longrightarrow> j < length rs \<Longrightarrow> j \<noteq> i \<Longrightarrow> \<not> covers (rs ! j) k"
  shows "apart (rs[i := r])"
  unfolding apart_def
proof (intro allI impI)
  fix a b k assume "a < length (rs[i := r])" "b < length (rs[i := r])" "a \<noteq> b"
  then have l: "a < length rs" "b < length rs" by simp_all
  show "\<not> (covers (rs[i := r] ! a) k \<and> covers (rs[i := r] ! b) k)"
    using l \<open>a \<noteq> b\<close> assms(2) assms(3)[of k a] assms(3)[of k b] assms(1)[unfolded apart_def, rule_format, of a b k]
    by (cases "a = i"; cases "b = i") auto
qed

lemma win_flushRun:
  assumes "win w" "i < mergeRunSlots" "sink_ok io"
  shows "win (flushRun io i w)" "img (flushRun io i w) = img w" "w_runs (flushRun io i w) = (w_runs w)[i := flushed (w_runs w ! i)]"
    and "w_tail (flushRun io i w) = w_tail w" "w_padFloor (flushRun io i w) = w_padFloor w" "w_rr (flushRun io i w) = w_rr w"
proof -
  let ?r = "w_runs w ! i" and ?w = "flushRun io i w"
  have n: "i < length (w_runs w)" and a: "apart (w_runs w)" using assms(1,2) by (simp_all add: win_def)
  show runs: "w_runs ?w = (w_runs w)[i := flushed ?r]"
  proof (cases "r_buf ?r = []")
    case True
    then show ?thesis by (simp add: flushRun_def flushed_id)
  next
    case False
    then show ?thesis using assms(1,3) by (simp add: flushRun_def Let_def writeThrough_def win_def sink_ok_def flushed_def)
  qed
  show "w_tail ?w = w_tail w" "w_padFloor ?w = w_padFloor w" "w_rr ?w = w_rr w"
    using assms(3) by (simp_all add: flushRun_def Let_def writeThrough_def sink_ok_def)
  have err: "w_err ?w = None" using assms by (simp add: flushRun_def Let_def writeThrough_def win_def sink_ok_def)
  have apart': "apart (w_runs ?w)" unfolding runs by (rule apart_update[OF a n]) simp
  then show "win ?w" using assms(1,2) err runs \<open>w_rr ?w = w_rr w\<close> by (auto simp: win_def nth_list_update)
  show "img ?w = img w"
  proof
    fix k
    show "img ?w k = img w k"
    proof (cases "\<exists>j < length (w_runs w). j \<noteq> i \<and> covers (w_runs w ! j) k")
      case True
      then obtain j where j: "j < length (w_runs w)" "j \<noteq> i" "covers (w_runs w ! j) k" by blast
      then show ?thesis using img_covered[OF a j(1,3)] img_covered[OF apart', of j k] runs by simp
    next
      case other: False
      have un: "img ?w k = peek (w_f ?w) k" by (rule img_uncovered) (use other runs n in \<open>simp add: nth_list_update, metis flushed_simps(4)\<close>)
      show ?thesis
      proof (cases "covers ?r k")
        case True
        then have "r_buf ?r \<noteq> []" by (auto simp: covers_def)
        then have "w_f ?w = writeAt (r_start ?r) (r_buf ?r) (w_f w)"
          using assms by (simp add: flushRun_def Let_def writeThrough_def win_def sink_ok_def)
        then show ?thesis using True un img_covered[OF a n True] by (simp add: peek_writeAt wr_def covers_def)
      next
        case False
        have "peek (w_f ?w) k = peek (w_f w) k"
          using False assms by (auto simp: flushRun_def Let_def writeThrough_def win_def sink_ok_def peek_writeAt wr_def covers_def)
        moreover have "img w k = peek (w_f w) k" by (rule img_uncovered) (use other False in auto)
        ultimately show ?thesis using un by simp
      qed
    qed
  qed
qed

lemma flushRun_end:
  assumes "win w" "i < mergeRunSlots" "sink_ok io"
  shows "r_end (w_runs (flushRun io i w) ! j) = r_end (w_runs w ! j) \<and> r_live (w_runs (flushRun io i w) ! j) = r_live (w_runs w ! j)"
  using win_flushRun(3)[OF assms] assms(1,2) by (cases "j = i") (simp_all add: win_def)

lemma fold_flush:
  fixes P :: "mergeRun \<Rightarrow> bool"
  assumes "win w" "sink_ok io" "n \<le> mergeRunSlots"
  defines "w' \<equiv> fold (\<lambda>i w. if P (w_runs w ! i) then flushRun io i w else w) [0..<n] w"
  shows "win w' \<and> img w' = img w \<and> w_tail w' = w_tail w \<and> w_padFloor w' = w_padFloor w \<and> w_rr w' = w_rr w
    \<and> (\<forall>i < mergeRunSlots. w_runs w' ! i = (if i < n \<and> P (w_runs w ! i) then flushed (w_runs w ! i) else w_runs w ! i))"
  using assms(3) unfolding w'_def
proof (induction n)
  case 0
  then show ?case using assms(1) by simp
next
  case (Suc n)
  let ?w = "fold (\<lambda>i w. if P (w_runs w ! i) then flushRun io i w else w) [0..<n] w"
  have IH: "win ?w" "img ?w = img w" "w_tail ?w = w_tail w" "w_padFloor ?w = w_padFloor w" "w_rr ?w = w_rr w"
    "\<forall>i < mergeRunSlots. w_runs ?w ! i = (if i < n \<and> P (w_runs w ! i) then flushed (w_runs w ! i) else w_runs w ! i)"
    using Suc by auto
  have n: "n < mergeRunSlots" using Suc.prems by simp
  have len: "length (w_runs ?w) = mergeRunSlots" using IH(1) by (simp add: win_def)
  have sn: "w_runs ?w ! n = w_runs w ! n" using IH(6) n by simp
  show ?case
  proof (cases "P (w_runs w ! n)")
    case True
    then show ?thesis
      using win_flushRun[OF IH(1) n assms(2)] IH(2-6) n len sn by (auto simp: nth_list_update less_Suc_eq)
  next
    case False
    then show ?thesis using IH sn by (auto simp: less_Suc_eq)
  qed
qed

lemma win_flushOverlapping:
  assumes "win w" "sink_ok io"
  shows "win (flushOverlapping io lo hi w)" "img (flushOverlapping io lo hi w) = img w"
    and "w_tail (flushOverlapping io lo hi w) = w_tail w" "w_padFloor (flushOverlapping io lo hi w) = w_padFloor w"
    and "w_rr (flushOverlapping io lo hi w) = w_rr w"
    and "i < mergeRunSlots \<Longrightarrow> w_runs (flushOverlapping io lo hi w) ! i =
      (if r_buf (w_runs w ! i) \<noteq> [] \<and> lo < r_end (w_runs w ! i) \<and> r_start (w_runs w ! i) < hi then flushed (w_runs w ! i) else w_runs w ! i)"
  using fold_flush[OF assms, of mergeRunSlots "\<lambda>r. r_buf r \<noteq> [] \<and> lo < r_end r \<and> r_start r < hi"] assms(1)
  by (simp_all add: flushOverlapping_def Let_def win_def)

lemma win_flushAll:
  assumes "win w" "sink_ok io"
  shows "w_err (flushAll io w) = None" "w_tail (flushAll io w) = w_tail w" "peek (w_f (flushAll io w)) = img w"
proof -
  have f: "win (flushAll io w)" "img (flushAll io w) = img w" "w_tail (flushAll io w) = w_tail w"
    "\<forall>i < mergeRunSlots. w_runs (flushAll io w) ! i = flushed (w_runs w ! i)"
    using fold_flush[OF assms, of mergeRunSlots "\<lambda>_. True"] assms(1) by (simp_all add: flushAll_def win_def)
  then show "w_err (flushAll io w) = None" "w_tail (flushAll io w) = w_tail w" by (simp_all add: win_def)
  show "peek (w_f (flushAll io w)) = img w"
    using f img_uncovered[of "flushAll io w"] by (auto simp: win_def fun_eq_iff)
qed


section \<open>A store shows its bytes\<close>

lemma find_index: "find P [0..<n] = Some i \<Longrightarrow> i < n \<and> P i"
  by (auto simp: find_Some_iff)

lemma find_index_None: "find P [0..<n] = None \<Longrightarrow> i < n \<Longrightarrow> \<not> P i"
  by (auto simp: find_None_iff)

lemma win_nth: "win w \<Longrightarrow> i < mergeRunSlots \<Longrightarrow> length (r_buf (w_runs w ! i)) \<le> mergeRunBytes \<and> (r_live (w_runs w ! i) \<or> r_buf (w_runs w ! i) = [])"
  by (simp add: win_def)

text \<open>Replacing a window by one whose bytes lie where no other window is.\<close>

lemma replace_run:
  assumes "win w" "i < mergeRunSlots" "length (r_buf r) \<le> mergeRunBytes" "r_live r"
    and "\<And>k j. covers r k \<Longrightarrow> j < mergeRunSlots \<Longrightarrow> j \<noteq> i \<Longrightarrow> \<not> covers (w_runs w ! j) k"
    and "\<And>k. covers (w_runs w ! i) k \<Longrightarrow> covers r k"
  defines "w' \<equiv> w\<lparr>w_runs := (w_runs w)[i := r]\<rparr>"
  shows "win w'" "img w' = (\<lambda>k. if covers r k then r_buf r ! (k - r_start r) else img w k)"
proof -
  have n: "length (w_runs w) = mergeRunSlots" "apart (w_runs w)" using assms(1) by (simp_all add: win_def)
  have runs: "w_runs w' = (w_runs w)[i := r]" "w_f w' = w_f w" by (simp_all add: w'_def)
  have a: "apart (w_runs w')" unfolding runs by (rule apart_update[OF n(2)]) (use assms(2,5) n in auto)
  show "win w'" using assms(1-4) a runs unfolding win_def by (auto simp: nth_list_update w'_def)
  show "img w' = (\<lambda>k. if covers r k then r_buf r ! (k - r_start r) else img w k)"
  proof
    fix k
    show "img w' k = (if covers r k then r_buf r ! (k - r_start r) else img w k)"
    proof (cases "covers r k")
      case True
      then show ?thesis using img_covered[OF a, of i k] assms(2) n runs by simp
    next
      case out: False
      show ?thesis
      proof (cases "\<exists>j < mergeRunSlots. covers (w_runs w ! j) k")
        case True
        then obtain j where j: "j < mergeRunSlots" "covers (w_runs w ! j) k" by blast
        then have "j \<noteq> i" using assms(6) out by blast
        then show ?thesis using j img_covered[OF a, of j k] img_covered[OF n(2), of j k] n(1) runs out by simp
      next
        case False
        have "\<not> covers (w_runs w' ! j) k" if "j < length (w_runs w')" for j
          using that False out runs n by (cases "j = i") auto
        then have "img w' k = peek (w_f w) k" unfolding runs(2)[symmetric] by (rule img_uncovered)
        moreover have "img w k = peek (w_f w) k" by (rule img_uncovered) (use False n in auto)
        ultimately show ?thesis using out by simp
      qed
    qed
  qed
qed

lemma overwrite_shows:
  assumes "win w" "i < mergeRunSlots" "inside_run off b (w_runs w ! i)"
  shows "win (overwrite_run i off b w)" "img (overwrite_run i off b w) = wr off b (img w)"
    and "\<And>j. r_end (w_runs (overwrite_run i off b w) ! j) = r_end (w_runs w ! j) \<and> r_live (w_runs (overwrite_run i off b w) ! j) = r_live (w_runs w ! j)"
proof -
  let ?r = "w_runs w ! i"
  let ?r' = "?r\<lparr>r_buf := put_at (off - r_start ?r) b (r_buf ?r)\<rparr>"
  have in_r: "r_start ?r \<le> off" "off + length b \<le> r_end ?r" "r_buf ?r \<noteq> []" using assms(3) by (simp_all add: inside_run_def)
  have len: "length (put_at (off - r_start ?r) b (r_buf ?r)) = length (r_buf ?r)" using in_r by (simp add: put_at_def)
  have cov: "covers ?r' k = covers ?r k" for k by (simp add: covers_def len)
  have eq: "overwrite_run i off b w = w\<lparr>w_runs := (w_runs w)[i := ?r']\<rparr>" by (simp add: overwrite_run_def Let_def)
  have n: "length (w_runs w) = mergeRunSlots" "apart (w_runs w)" using assms(1) by (simp_all add: win_def)
  have ap: "\<not> covers (w_runs w ! j) k" if "covers ?r' k" "j < mergeRunSlots" "j \<noteq> i" for k j
    using n that assms(2) unfolding cov apart_def by auto
  have bd: "length (r_buf ?r') \<le> mergeRunBytes" "r_live ?r'" using win_nth[OF assms(1,2)] len in_r by simp_all
  note rr = replace_run[OF assms(1,2), of ?r', OF bd ap, unfolded cov]
  show "win (overwrite_run i off b w)" unfolding eq by (rule rr(1))
  show "img (overwrite_run i off b w) = wr off b (img w)"
  proof
    fix k
    have "img (overwrite_run i off b w) k = (if covers ?r k then r_buf ?r' ! (k - r_start ?r) else img w k)"
      using rr(2) eq by simp
    also have "\<dots> = wr off b (img w) k"
    proof (cases "covers ?r k")
      case True
      then have kk: "k - r_start ?r < length (r_buf ?r)" "r_start ?r \<le> k" by (auto simp: covers_def)
      have "r_buf ?r' ! (k - r_start ?r) = peek (put_at (off - r_start ?r) b (r_buf ?r)) (k - r_start ?r)"
        using kk len by (simp add: peek_def)
      also have "\<dots> = wr (off - r_start ?r) b (peek (r_buf ?r)) (k - r_start ?r)" by (rule peek_put_at) (use in_r in simp)
      also have "\<dots> = wr off b (img w) k"
        using kk in_r img_covered[OF n(2) _ True] n(1) assms(2) by (auto simp: wr_def peek_def)
      finally show ?thesis using True by simp
    next
      case False
      then show ?thesis using in_r by (auto simp: wr_def covers_def)
    qed
    finally show "img (overwrite_run i off b w) k = wr off b (img w) k" .
  qed
  show "r_end (w_runs (overwrite_run i off b w) ! j) = r_end (w_runs w ! j) \<and> r_live (w_runs (overwrite_run i off b w) ! j) = r_live (w_runs w ! j)" for j
    using n(1) assms(2) len by (cases "j = i") (simp_all add: overwrite_run_def Let_def)
qed


lemma after_flush:
  assumes "win w" "sink_ok io" "j < mergeRunSlots" "covers (w_runs (flushOverlapping io lo hi w) ! j) k" "lo \<le> k" "k < hi"
  shows False
  using assms(3-6) win_flushOverlapping(6)[where lo = lo and hi = hi, OF assms(1,2,3)] by (auto simp: covers_def split: if_splits)

lemma flushOverlapping_end:
  assumes "win w" "sink_ok io" "j < mergeRunSlots"
  shows "r_end (w_runs (flushOverlapping io lo hi w) ! j) = r_end (w_runs w ! j) \<and> r_live (w_runs (flushOverlapping io lo hi w) ! j) = r_live (w_runs w ! j)"
  using win_flushOverlapping(6)[where lo = lo and hi = hi, OF assms] by simp

lemma through_shows:
  fixes off b
  assumes "win w" "sink_ok io"
  defines "w' \<equiv> writeThrough io off b (flushOverlapping io off (off + length b) w)"
  shows "win w'" "img w' = wr off b (img w)"
    and "j < mergeRunSlots \<Longrightarrow> r_end (w_runs w' ! j) = r_end (w_runs w ! j) \<and> r_live (w_runs w' ! j) = r_live (w_runs w ! j)"
proof -
  let ?w = "flushOverlapping io off (off + length b) w"
  have f: "win ?w" "img ?w = img w" using win_flushOverlapping[OF assms(1,2)] by simp_all
  have n: "length (w_runs ?w) = mergeRunSlots" "apart (w_runs ?w)" using f(1) by (simp_all add: win_def)
  have t: "w_runs w' = w_runs ?w" "w_f w' = writeAt off b (w_f ?w)" "w_err w' = None" "w_rr w' = w_rr ?w"
    using f(1) assms(2) by (simp_all add: w'_def writeThrough_def win_def sink_ok_def)
  show "win w'" using f(1) t by (simp add: win_def)
  show "img w' = wr off b (img w)"
  proof
    fix k
    show "img w' k = wr off b (img w) k"
    proof (cases "\<exists>j < mergeRunSlots. covers (w_runs ?w ! j) k")
      case True
      then obtain j where j: "j < mergeRunSlots" "covers (w_runs ?w ! j) k" by blast
      then have "\<not> (off \<le> k \<and> k < off + length b)" using after_flush[OF assms(1,2) j] by blast
      then have "wr off b (img w) k = img w k" by (auto simp: wr_def)
      moreover have "img w' k = img ?w k"
        using img_covered[of w' j k] img_covered[OF n(2), of j k] j n t(1) by simp
      ultimately show ?thesis using f(2) by simp
    next
      case False
      then have "img w' k = peek (w_f w') k" "img ?w k = peek (w_f ?w) k" using n t(1) by (auto intro!: img_uncovered)
      then show ?thesis using f(2) t(2) by (simp add: peek_writeAt wr_def)
    qed
  qed
  show "j < mergeRunSlots \<Longrightarrow> r_end (w_runs w' ! j) = r_end (w_runs w ! j) \<and> r_live (w_runs w' ! j) = r_live (w_runs w ! j)"
    unfolding t(1) by (rule flushOverlapping_end[OF assms(1,2)])
qed

lemma open_shows:
  assumes "win w" "sink_ok io" "length b \<le> mergeRunBytes"
  shows "win (open_run io off b w)" "img (open_run io off b w) = wr off b (img w)"
    and "j < mergeRunSlots \<Longrightarrow> j \<noteq> w_rr w \<Longrightarrow>
      r_end (w_runs (open_run io off b w) ! j) = r_end (w_runs w ! j) \<and> r_live (w_runs (open_run io off b w) ! j) = r_live (w_runs w ! j)"
    and "r_end (w_runs (open_run io off b w) ! w_rr w) = off + length b"
proof -
  let ?w1 = "flushOverlapping io off (off + length b) w" and ?i = "w_rr w"
  let ?w1' = "?w1\<lparr>w_rr := (?i + 1) mod mergeRunSlots\<rparr>"
  let ?w2 = "flushRun io ?i ?w1'" and ?r = "\<lparr>r_start = off, r_buf = b, r_live = True\<rparr>"
  have i: "?i < mergeRunSlots" using assms(1) by (simp add: win_def)
  have f: "win ?w1" "img ?w1 = img w" "w_rr ?w1 = ?i" using win_flushOverlapping[OF assms(1,2)] by simp_all
  have "img ?w1' = img ?w1" by (rule img_cong) simp_all
  then have f': "win ?w1'" "img ?w1' = img w" using f by (simp_all add: win_def)
  have g: "win ?w2" "img ?w2 = img w" "w_runs ?w2 = (w_runs ?w1)[?i := flushed (w_runs ?w1 ! ?i)]"
    using win_flushRun[OF f'(1) i assms(2)] f'(2) by simp_all
  have n: "length (w_runs ?w1) = mergeRunSlots" using f(1) by (simp add: win_def)
  have eq: "open_run io off b w = ?w2\<lparr>w_runs := (w_runs ?w2)[?i := ?r]\<rparr>" by (simp add: open_run_def Let_def f(3))
  have ap: "\<not> covers (w_runs ?w2 ! j) k" if "covers ?r k" "j < mergeRunSlots" "j \<noteq> ?i" for k j
  proof
    assume "covers (w_runs ?w2 ! j) k"
    then have "covers (w_runs ?w1 ! j) k" using that(3) g(3) by simp
    then show False using after_flush[OF assms(1,2) that(2)] that(1) by (auto simp: covers_def)
  qed
  have emp: "covers (w_runs ?w2 ! ?i) k \<Longrightarrow> covers ?r k" for k using g(3) n i by simp
  have bd: "length (r_buf ?r) \<le> mergeRunBytes" "r_live ?r" using assms(3) by simp_all
  note rr = replace_run[OF g(1) i, of ?r, OF bd ap emp, folded eq]
  show "win (open_run io off b w)" by (rule rr(1))
  show "img (open_run io off b w) = wr off b (img w)"
    using rr(2) g(2) eq by (auto simp: covers_def wr_def fun_eq_iff)
  show "j < mergeRunSlots \<Longrightarrow> j \<noteq> ?i \<Longrightarrow>
      r_end (w_runs (open_run io off b w) ! j) = r_end (w_runs w ! j) \<and> r_live (w_runs (open_run io off b w) ! j) = r_live (w_runs w ! j)"
    using flushOverlapping_end[OF assms(1,2), of j] unfolding eq g(3) by simp
  show "r_end (w_runs (open_run io off b w) ! ?i) = off + length b" unfolding eq g(3) using n i by simp
qed


text \<open>
  An extension may reach across a gap; then the gap must show zeros, which is what it fills it with.
\<close>

lemma extend_shows:
  assumes "win w" "sink_ok io" "i < mergeRunSlots" "extends_run off mayPad (w_runs w ! i)"
    and "length b + mergeRunMaxGap \<le> mergeRunBytes" "\<And>k. r_end (w_runs w ! i) \<le> k \<Longrightarrow> k < off \<Longrightarrow> img w k = 0"
  shows "win (extend_run io i off b w)" "img (extend_run io i off b w) = wr off b (img w)"
    and "j < mergeRunSlots \<Longrightarrow> r_end (w_runs (extend_run io i off b w) ! j) = (if j = i then off + length b else r_end (w_runs w ! j))
      \<and> r_live (w_runs (extend_run io i off b w) ! j) = r_live (w_runs w ! j)"
proof -
  let ?r = "w_runs w ! i"
  define full where "full \<longleftrightarrow> length (r_buf ?r) + (off - r_end ?r) + length b > mergeRunBytes"
  define w1 where "w1 = (if full then flushRun io i w else w)"
  define w2 where "w2 = flushOverlapping io (r_end ?r) (off + length b) w1"
  let ?r1 = "if full then flushed ?r else ?r"
  let ?gap = "off - r_end ?r"
  let ?r3 = "?r1\<lparr>r_buf := r_buf ?r1 @ replicate ?gap 0 @ b\<rparr>"
  have ex: "r_live ?r" "r_end ?r \<le> off" "?gap \<le> mergeRunMaxGap" using assms(4) by (simp_all add: extends_run_def)
  have n: "length (w_runs w) = mergeRunSlots" using assms(1) by (simp add: win_def)
  have w1: "win w1" "img w1 = img w" "w_runs w1 = (w_runs w)[i := ?r1]"
    using win_flushRun[OF assms(1,3,2)] assms(1) by (simp_all add: w1_def)
  have r1: "w_runs w1 ! i = ?r1" "r_end ?r1 = r_end ?r" "r_live ?r1" using w1(3) n assms(3) ex(1) by simp_all
  have w2: "win w2" "img w2 = img w" using win_flushOverlapping[OF w1(1) assms(2)] w1(2) by (simp_all add: w2_def)
  have e2: "r_end (w_runs w2 ! j) = r_end (w_runs w ! j) \<and> r_live (w_runs w2 ! j) = r_live (w_runs w ! j)" if "j < mergeRunSlots" for j
    using flushOverlapping_end[OF w1(1) assms(2) that] w1(3) n assms(3) that r1 ex(1) by (cases "j = i") (simp_all add: w2_def)
  have r2: "w_runs w2 ! i = ?r1"
    using win_flushOverlapping(6)[where lo = "r_end ?r" and hi = "off + length b", OF w1(1) assms(2,3)] r1(1,2) by (simp add: w2_def)
  have n2: "length (w_runs w2) = mergeRunSlots" using w2(1) by (simp add: win_def)
  have gap1: "off - r_start (flushed ?r) = ?gap" by (simp add: flushed_def)
  have eq: "extend_run io i off b w =
      (if length (r_buf ?r3) \<ge> mergeRunBytes then flushRun io i (w2\<lparr>w_runs := (w_runs w2)[i := ?r3]\<rparr>) else w2\<lparr>w_runs := (w_runs w2)[i := ?r3]\<rparr>)"
  proof (cases full)
    case True
    have "w_runs (flushRun io i w) ! i = flushed ?r" using w1(3) n assms(3) True by (simp add: w1_def)
    then show ?thesis
      using True r1(2) r2 gap1 unfolding extend_run_def Let_def full_def[symmetric] w2_def w1_def by simp
  next
    case False
    then show ?thesis using r2 unfolding extend_run_def Let_def full_def[symmetric] w2_def w1_def by simp
  qed
  have cov: "covers ?r3 k \<longleftrightarrow> covers ?r1 k \<or> r_end ?r \<le> k \<and> k < off + length b" for k
    using ex(2) r1(2) by (auto simp: covers_def)
  have bd: "length (r_buf ?r3) \<le> mergeRunBytes" "r_live ?r3"
    using assms(5) ex r1(3) by (auto simp: full_def)
  have ap: "\<not> covers (w_runs w2 ! j) k" if "covers ?r3 k" "j < mergeRunSlots" "j \<noteq> i" for k j
    using that(1) unfolding cov
  proof
    assume "covers ?r1 k"
    then show ?thesis using w2(1) r2 that assms(3) n2 by (auto simp: win_def apart_def)
  next
    assume "r_end ?r \<le> k \<and> k < off + length b"
    then show ?thesis using after_flush[OF w1(1) assms(2) that(2)] unfolding w2_def by blast
  qed
  have emp: "covers (w_runs w2 ! i) k \<Longrightarrow> covers ?r3 k" for k unfolding cov r2 by simp
  let ?w3 = "w2\<lparr>w_runs := (w_runs w2)[i := ?r3]\<rparr>"
  have rr: "win ?w3" "img ?w3 = (\<lambda>k. if covers ?r3 k then r_buf ?r3 ! (k - r_start ?r3) else img w2 k)"
    by (rule replace_run[OF w2(1) assms(3), of ?r3]; use bd ap emp in blast)+
  have im: "img ?w3 = wr off b (img w)"
  proof
    fix k
    consider "covers ?r1 k" | "\<not> covers ?r1 k" "r_end ?r \<le> k" "k < off" | "\<not> covers ?r1 k" "off \<le> k" "k < off + length b" | "\<not> covers ?r3 k"
      unfolding cov using ex(2) by linarith
    then show "img ?w3 k = wr off b (img w) k"
    proof cases
      case 1
      then have "img w k = r_buf ?r1 ! (k - r_start ?r1)"
        using img_covered[of w2 i k] w2 n2 assms(3) r2 by (simp add: win_def)
      moreover have "k - r_start ?r1 < length (r_buf ?r1)" "k < r_end ?r" using 1 r1(2) by (auto simp: covers_def)
      ultimately show ?thesis using 1 cov rr(2) ex(2) by (simp add: wr_def nth_append)
    next
      case 2
      then have "k - r_start ?r1 \<ge> length (r_buf ?r1)" "k - r_start ?r1 - length (r_buf ?r1) < ?gap" "r_start ?r1 \<le> k" using r1(2) by linarith+
      then show ?thesis using 2 cov rr(2) assms(6) by (simp add: wr_def nth_append)
    next
      case 3
      then have "k - r_start ?r1 - length (r_buf ?r1) - ?gap = k - off" "\<not> k - r_start ?r1 < length (r_buf ?r1)"
        "\<not> k - r_start ?r1 - length (r_buf ?r1) < ?gap" "r_end ?r \<le> k" using r1(2) ex(2) by linarith+
      then show ?thesis using 3 cov rr(2) by (simp add: wr_def nth_append)
    next
      case 4
      then show ?thesis using rr(2) w2(2) unfolding cov wr_def using ex(2) by auto
    qed
  qed
  have e3: "r_end (w_runs ?w3 ! j) = (if j = i then off + length b else r_end (w_runs w ! j)) \<and> r_live (w_runs ?w3 ! j) = r_live (w_runs w ! j)"
    if "j < mergeRunSlots" for j
    using e2[OF that] n2 r1(2,3) ex assms(3) by (cases "j = i") simp_all
  show "win (extend_run io i off b w)" "img (extend_run io i off b w) = wr off b (img w)"
    unfolding eq using win_flushRun[OF rr(1) assms(3,2)] rr(1) im by simp_all
  show "j < mergeRunSlots \<Longrightarrow> r_end (w_runs (extend_run io i off b w) ! j) = (if j = i then off + length b else r_end (w_runs w ! j))
      \<and> r_live (w_runs (extend_run io i off b w) ! j) = r_live (w_runs w ! j)"
    unfolding eq using e3[of j] flushRun_end[OF rr(1) assms(3,2), of j]
    by (cases "length (r_buf ?r3) \<ge> mergeRunBytes") simp_all
qed


definition same_end :: "mergeWriter \<Rightarrow> mergeWriter \<Rightarrow> nat \<Rightarrow> bool" where
  "same_end w w' j \<longleftrightarrow> r_end (w_runs w' ! j) = r_end (w_runs w ! j) \<and> r_live (w_runs w' ! j) = r_live (w_runs w ! j)"

text \<open>Whichever arm a store takes, its bytes show and nothing else changes; at most one window ends elsewhere.\<close>

lemma storeAt_shows:
  assumes "win w" "sink_ok io" "b \<noteq> []"
    and gap: "\<And>i k. mayPad \<Longrightarrow> i < mergeRunSlots \<Longrightarrow> extends_run off mayPad (w_runs w ! i) \<Longrightarrow> r_end (w_runs w ! i) \<le> k \<Longrightarrow> k < off \<Longrightarrow> img w k = 0"
  defines "w' \<equiv> storeAt io off b mayPad w"
  shows "win w' \<and> img w' = wr off b (img w)
    \<and> ((\<forall>j < mergeRunSlots. same_end w w' j) \<and> ((\<exists>i < mergeRunSlots. inside_run off b (w_runs w ! i)) \<or> mergeRunBytes < length b + mergeRunMaxGap)
       \<or> (\<exists>i < mergeRunSlots. extends_run off mayPad (w_runs w ! i) \<and> r_end (w_runs w' ! i) = off + length b
            \<and> (\<forall>j < mergeRunSlots. j \<noteq> i \<longrightarrow> same_end w w' j))
       \<or> (\<forall>i < mergeRunSlots. \<not> extends_run off mayPad (w_runs w ! i))
         \<and> (\<exists>i < mergeRunSlots. r_end (w_runs w' ! i) = off + length b \<and> (\<forall>j < mergeRunSlots. j \<noteq> i \<longrightarrow> same_end w w' j)))"
proof -
  have n: "length (w_runs w) = mergeRunSlots" and e: "w_err w = None" and rr: "w_rr w < mergeRunSlots" using assms(1) by (simp_all add: win_def)
  show ?thesis
  proof (cases "find (\<lambda>i. inside_run off b (w_runs w ! i)) [0..<length (w_runs w)]")
    case (Some i)
    then have i: "i < mergeRunSlots" "inside_run off b (w_runs w ! i)" using find_index[OF Some] n by simp_all
    have "w' = overwrite_run i off b w" using Some e assms(3) by (simp add: w'_def storeAt_def)
    then show ?thesis using overwrite_shows[OF assms(1) i] i by (auto simp: same_end_def)
  next
    case out: None
    show ?thesis
    proof (cases "length b + mergeRunMaxGap > mergeRunBytes")
      case True
      have "w' = writeThrough io off b (flushOverlapping io off (off + length b) w)" using True out e assms(3) by (simp add: w'_def storeAt_def)
      then show ?thesis using through_shows[where off = off and b = b, OF assms(1,2)] True by (simp add: same_end_def)
    next
      case small: False
      show ?thesis
      proof (cases "find (\<lambda>i. extends_run off mayPad (w_runs w ! i)) [0..<length (w_runs w)]")
        case (Some i)
        have i: "i < mergeRunSlots" "extends_run off mayPad (w_runs w ! i)" using find_index[OF Some] n by simp_all
        have w': "w' = extend_run io i off b w" using Some small out e assms(3) by (simp add: w'_def storeAt_def)
        have z: "img w k = 0" if "r_end (w_runs w ! i) \<le> k" "k < off" for k
        proof -
          have "mayPad" using i(2) that by (auto simp: extends_run_def)
          then show ?thesis using gap i that by blast
        qed
        note x = extend_shows[where b = b, OF assms(1,2) i _ z, folded w']
        have "win w'" "img w' = wr off b (img w)" "r_end (w_runs w' ! i) = off + length b" "\<forall>j < mergeRunSlots. j \<noteq> i \<longrightarrow> same_end w w' j"
          using x small i(1) by (auto simp: same_end_def)
        then show ?thesis using i by blast
      next
        case None
        have none: "\<forall>i < mergeRunSlots. \<not> extends_run off mayPad (w_runs w ! i)" using find_index_None[OF None] n by simp
        have w': "w' = open_run io off b w" using None small out e assms(3) by (simp add: w'_def storeAt_def)
        have "length b \<le> mergeRunBytes" using small by simp
        note x = open_shows[where off = off, OF assms(1,2) this, folded w']
        have "win w'" "img w' = wr off b (img w)" "r_end (w_runs w' ! w_rr w) = off + length b" "\<forall>j < mergeRunSlots. j \<noteq> w_rr w \<longrightarrow> same_end w w' j"
          using x by (auto simp: same_end_def)
        then show ?thesis using none rr by blast
      qed
    qed
  qed
qed

section \<open>The calls of a merge\<close>

text \<open>
  The reference: every call written straight to the bytes. \<open>fits\<close> is what a merge's layout owes the
  writer: a patch that an append will follow ends more than the padding limit below the tail.
\<close>

fun plain :: "nat \<Rightarrow> wcall list \<Rightarrow> (nat \<Rightarrow> byte) \<Rightarrow> nat \<times> (nat \<Rightarrow> byte)" where
  "plain start [] g = (start, g)"
| "plain start (Patch off b # cs) g = plain start cs (wr off b g)"
| "plain start (Append b alignTo # cs) g = (let off = align start alignTo in plain (off + length b) cs (wr off b g))"

fun is_append :: "wcall \<Rightarrow> bool" where
  "is_append (Append b alignTo) = True"
| "is_append (Patch off b) = False"

fun fits :: "nat \<Rightarrow> wcall list \<Rightarrow> bool" where
  "fits start [] = True"
| "fits start (Patch off b # cs) \<longleftrightarrow> (list_ex is_append cs \<longrightarrow> off + length b + mergeRunMaxGap < start) \<and> fits start cs"
| "fits start (Append b alignTo # cs) \<longleftrightarrow> 0 < alignTo \<and> fits (align start alignTo + length b) cs"

text \<open>
  Between the calls nothing is shown past the tail, and at most one window ends within the padding
  limit below it, with nothing shown past its end.
\<close>

definition near :: "mergeWriter \<Rightarrow> nat \<Rightarrow> bool" where
  "near w m \<longleftrightarrow> (\<forall>j < mergeRunSlots. r_live (w_runs w ! j) \<longrightarrow> r_end (w_runs w ! j) + mergeRunMaxGap < w_tail w
     \<or> j = m \<and> r_end (w_runs w ! j) \<le> w_tail w \<and> (\<forall>k \<ge> r_end (w_runs w ! j). img w k = 0))"

definition calm :: "mergeWriter \<Rightarrow> bool" where
  "calm w \<longleftrightarrow> w_padFloor w \<le> w_tail w \<and> (\<forall>k \<ge> w_tail w. img w k = 0) \<and> (\<exists>m. near w m)"

lemma storeAt_frame: "w_tail (storeAt io off b mayPad w) = w_tail w" "w_padFloor (storeAt io off b mayPad w) = w_padFloor w"
proof -
  have t: "w_tail (writeThrough io off b w) = w_tail w \<and> w_padFloor (writeThrough io off b w) = w_padFloor w" for off b w
    by (simp add: writeThrough_def split: option.split)
  then have r: "w_tail (flushRun io i w) = w_tail w \<and> w_padFloor (flushRun io i w) = w_padFloor w" for i w
    by (simp add: flushRun_def Let_def)
  have f: "w_tail (flushOverlapping io lo hi w) = w_tail w \<and> w_padFloor (flushOverlapping io lo hi w) = w_padFloor w" for lo hi w
  proof -
    have "w_tail (fold (\<lambda>i w. let r = w_runs w ! i in if r_buf r \<noteq> [] \<and> lo < r_end r \<and> r_start r < hi then flushRun io i w else w) is w) = w_tail w
      \<and> w_padFloor (fold (\<lambda>i w. let r = w_runs w ! i in if r_buf r \<noteq> [] \<and> lo < r_end r \<and> r_start r < hi then flushRun io i w else w) is w) = w_padFloor w" for "is"
      by (induction "is" arbitrary: w) (simp_all add: r Let_def)
    then show ?thesis by (simp add: flushOverlapping_def)
  qed
  have "w_tail (extend_run io i off b w) = w_tail w \<and> w_padFloor (extend_run io i off b w) = w_padFloor w" for i
    by (simp add: extend_run_def Let_def r f split: prod.split if_split)
  moreover have "w_tail (open_run io off b w) = w_tail w \<and> w_padFloor (open_run io off b w) = w_padFloor w"
    by (simp add: open_run_def Let_def r f)
  ultimately show "w_tail (storeAt io off b mayPad w) = w_tail w" "w_padFloor (storeAt io off b mayPad w) = w_padFloor w"
    by (simp_all add: storeAt_def t f overwrite_run_def Let_def split: option.split)
qed


lemma wr_Nil [simp]: "wr off [] g = g"
  by (auto simp: wr_def fun_eq_iff)

lemma patch_shows:
  assumes "win w" "sink_ok io"
  shows "win (patch io off b w) \<and> img (patch io off b w) = wr off b (img w) \<and> w_tail (patch io off b w) = w_tail w"
proof (cases "b = []")
  case False
  show ?thesis using storeAt_shows[OF assms False, of False off] storeAt_frame by (simp add: patch_def)
qed (use assms(1) in \<open>simp add: patch_def storeAt_def\<close>)

lemma patch_calm:
  assumes "win w" "sink_ok io" "calm w" "off + length b + mergeRunMaxGap < w_tail w"
  shows "calm (patch io off b w)"
proof (cases "b = []")
  case False
  let ?w = "patch io off b w"
  obtain m where m: "near w m" using assms(3) by (auto simp: calm_def)
  have im: "img ?w = wr off b (img w)" "w_tail ?w = w_tail w" using patch_shows[OF assms(1,2)] by simp_all
  have z: "img ?w k = 0" if "img w k = 0" "w_tail w \<le> k + mergeRunMaxGap" for k
    using that assms(4) by (simp add: im wr_def)
  have sh: "(\<forall>j < mergeRunSlots. same_end w ?w j) \<or> (\<exists>i < mergeRunSlots. r_end (w_runs ?w ! i) = off + length b
      \<and> (\<forall>j < mergeRunSlots. j \<noteq> i \<longrightarrow> same_end w ?w j))"
    using storeAt_shows[OF assms(1,2) False, of False off] unfolding patch_def by auto
  have "near ?w m"
    unfolding near_def
  proof (intro allI impI)
    fix j assume j: "j < mergeRunSlots" "r_live (w_runs ?w ! j)"
    show "r_end (w_runs ?w ! j) + mergeRunMaxGap < w_tail ?w
       \<or> j = m \<and> r_end (w_runs ?w ! j) \<le> w_tail ?w \<and> (\<forall>k \<ge> r_end (w_runs ?w ! j). img ?w k = 0)"
    proof (cases "same_end w ?w j")
      case True
      then have "r_end (w_runs w ! j) + mergeRunMaxGap < w_tail w
         \<or> \<not> r_end (w_runs w ! j) + mergeRunMaxGap < w_tail w \<and> j = m \<and> r_end (w_runs w ! j) \<le> w_tail w \<and> (\<forall>k \<ge> r_end (w_runs w ! j). img w k = 0)"
        using m j by (auto simp: near_def same_end_def)
      then show ?thesis using True z im(2) by (auto simp: same_end_def)
    next
      case False
      then have "r_end (w_runs ?w ! j) = off + length b" using sh j(1) by metis
      then show ?thesis using assms(4) im(2) by simp
    qed
  qed
  then show ?thesis using assms(3) z im(2) storeAt_frame(2) by (auto simp: calm_def patch_def)
qed (use assms(3) in \<open>simp add: patch_def storeAt_def\<close>)

lemma append_shows:
  fixes b
  assumes "win w" "sink_ok io" "calm w" "w_tail w \<le> off"
  defines "w' \<equiv> (storeAppend io off b w)\<lparr>w_tail := off + length b\<rparr>"
  shows "win w' \<and> img w' = wr off b (img w) \<and> calm w'"
proof -
  obtain m where m: "near w m" using assms(3) by (auto simp: calm_def)
  have fl: "w_padFloor w \<le> off" using assms(3,4) by (simp add: calm_def)
  show ?thesis
  proof (cases "b = []")
    case True
    then have w': "w' = w\<lparr>w_tail := off\<rparr>" using fl by (simp add: w'_def storeAppend_def storeAt_def)
    have "img w' = img w" unfolding w' by (rule img_cong) simp_all
    moreover have "near w' m" using m assms(4) calculation by (fastforce simp: near_def w')
    ultimately show ?thesis using assms(1,3,4) True fl by (auto simp: win_def calm_def w')
  next
    case False
    define w1 where "w1 = storeAt io off b True w"
    have w': "w' = w1\<lparr>w_tail := off + length b\<rparr>" using fl by (simp add: w'_def storeAppend_def w1_def)
    have gap: "img w k = 0" if "i < mergeRunSlots" "extends_run off True (w_runs w ! i)" "r_end (w_runs w ! i) \<le> k" for i k
      using m that assms(4) by (fastforce simp: near_def extends_run_def)
    have st: "win w1" "img w1 = wr off b (img w)" and sh:
      "(\<forall>j < mergeRunSlots. same_end w w1 j) \<and> ((\<exists>i < mergeRunSlots. inside_run off b (w_runs w ! i)) \<or> mergeRunBytes < length b + mergeRunMaxGap)
       \<or> (\<exists>i < mergeRunSlots. extends_run off True (w_runs w ! i) \<and> r_end (w_runs w1 ! i) = off + length b
            \<and> (\<forall>j < mergeRunSlots. j \<noteq> i \<longrightarrow> same_end w w1 j))
       \<or> (\<forall>i < mergeRunSlots. \<not> extends_run off True (w_runs w ! i))
         \<and> (\<exists>i < mergeRunSlots. r_end (w_runs w1 ! i) = off + length b \<and> (\<forall>j < mergeRunSlots. j \<noteq> i \<longrightarrow> same_end w w1 j))"
      using storeAt_shows[OF assms(1,2) False, of True off] gap unfolding w1_def[symmetric] by auto
    have im: "img w' = wr off b (img w)" unfolding w' st(2)[symmetric] by (rule img_cong) simp_all
    have z: "img w' k = 0" if "off + length b \<le> k" for k
      using that assms(3,4) by (simp add: im wr_def calm_def)
    have far: "r_end (w_runs w ! j) + mergeRunMaxGap < w_tail w \<or> j = m" "r_end (w_runs w ! j) \<le> w_tail w" if "j < mergeRunSlots" "r_live (w_runs w ! j)" for j
      using m that by (fastforce simp: near_def)+
    have lb: "0 < length b" using False by simp
    have "\<exists>m. near w' m"
    proof -
      consider (same) "\<forall>j < mergeRunSlots. same_end w w1 j" "mergeRunBytes < length b + mergeRunMaxGap"
        | (in_run) i where "i < mergeRunSlots" "inside_run off b (w_runs w ! i)"
        | (one) i where "i < mergeRunSlots" "r_end (w_runs w1 ! i) = off + length b" "\<forall>j < mergeRunSlots. j \<noteq> i \<longrightarrow> same_end w w1 j"
            "\<forall>j < mergeRunSlots. r_live (w_runs w ! j) \<longrightarrow> j \<noteq> i \<longrightarrow> r_end (w_runs w ! j) + mergeRunMaxGap < off"
      proof -
        have "\<forall>j < mergeRunSlots. r_live (w_runs w ! j) \<longrightarrow> j \<noteq> i \<longrightarrow> r_end (w_runs w ! j) + mergeRunMaxGap < off"
          if i: "i < mergeRunSlots" "extends_run off True (w_runs w ! i)" for i
        proof -
          have "i = m" using far(1)[of i] i assms(4) by (auto simp: extends_run_def)
          then show ?thesis using far(1) assms(4) by fastforce
        qed
        moreover have "\<forall>j < mergeRunSlots. r_live (w_runs w ! j) \<longrightarrow> j \<noteq> i \<longrightarrow> r_end (w_runs w ! j) + mergeRunMaxGap < off"
          if "\<forall>i < mergeRunSlots. \<not> extends_run off True (w_runs w ! i)" for i
          using that far(2) assms(4) by (fastforce simp: extends_run_def)
        ultimately show ?thesis using sh
          apply (elim disjE conjE exE)
             apply (rule in_run; assumption)
            apply (rule same; assumption)
           apply (rule one; blast)
          apply (rule one; blast)
          done
      qed
      then show ?thesis
      proof cases
        case same
        have "near w' m"
          using same far(2) assms(4) by (fastforce simp: near_def w' same_end_def)
        then show ?thesis ..
      next
        case in_run
        then have "r_live (w_runs w ! i)" using win_nth[OF assms(1) in_run(1)] by (auto simp: inside_run_def)
        then have False using far(2)[OF in_run(1)] in_run(2) assms(4) lb by (auto simp: inside_run_def)
        then show ?thesis ..
      next
        case one
        have "near w' i"
          unfolding near_def
        proof (intro allI impI)
          fix j assume j: "j < mergeRunSlots" "r_live (w_runs w' ! j)"
          show "r_end (w_runs w' ! j) + mergeRunMaxGap < w_tail w'
            \<or> j = i \<and> r_end (w_runs w' ! j) \<le> w_tail w' \<and> (\<forall>k \<ge> r_end (w_runs w' ! j). img w' k = 0)"
          proof (cases "j = i")
            case True
            then show ?thesis using one(2) z by (simp add: w')
          next
            case False
            then have "same_end w w1 j" using one(3) j(1) by blast
            then show ?thesis using one(4) j False by (fastforce simp: w' same_end_def)
          qed
        qed
        then show ?thesis ..
      qed
    qed
    moreover have "w_padFloor w' \<le> w_tail w'" using fl storeAt_frame(2) by (simp add: w' w1_def trans_le_add1)
    ultimately have "calm w'" using z by (auto simp: calm_def w')
    moreover have "win w'" using st(1) by (simp add: win_def w')
    ultimately show ?thesis using im by blast
  qed
qed

lemma run_calls_plain:
  assumes "sink_ok io"
  shows "win w \<Longrightarrow> fits (w_tail w) cs \<Longrightarrow> (list_ex is_append cs \<Longrightarrow> calm w) \<Longrightarrow>
    win (fold (run_call io) cs w) \<and> (w_tail (fold (run_call io) cs w), img (fold (run_call io) cs w)) = plain (w_tail w) cs (img w)"
proof (induction cs arbitrary: w)
  case (Cons c cs)
  show ?case
  proof (cases c)
    case (Patch off b)
    have p: "win (patch io off b w)" "img (patch io off b w) = wr off b (img w)" "w_tail (patch io off b w) = w_tail w"
      using patch_shows[OF Cons.prems(1) assms] by simp_all
    have "calm (patch io off b w)" if "list_ex is_append cs"
      by (rule patch_calm[OF Cons.prems(1) assms]) (use Cons.prems that Patch in simp_all)
    then show ?thesis using Cons.IH[OF p(1)] p(2,3) Cons.prems(2) Patch by simp
  next
    case (Append b alignTo)
    have "calm w" "0 < alignTo" using Cons.prems Append by simp_all
    note a = append_shows[OF Cons.prems(1) assms this(1) align_ge[OF this(2)], of b]
    have e: "run_call io c w = (storeAppend io (align (w_tail w) alignTo) b w)\<lparr>w_tail := align (w_tail w) alignTo + length b\<rparr>"
      using Cons.prems(1) by (simp add: Append appendAligned_def Let_def win_def)
    let ?w1 = "run_call io c w"
    have "win ?w1" "calm ?w1" "img ?w1 = wr (align (w_tail w) alignTo) b (img w)" "w_tail ?w1 = align (w_tail w) alignTo + length b"
      using a unfolding e by simp_all
    then show ?thesis using Cons.IH[of ?w1] Cons.prems(2) Append by (simp add: Let_def del: run_call.simps)
  qed
qed simp


definition write_merge :: "(nat \<Rightarrow> engine_error option) \<Rightarrow> byte list \<Rightarrow> nat \<Rightarrow> wcall list \<Rightarrow> mergeWriter" where
  "write_merge io f start cs = flushAll io (fold (run_call io) cs (newMergeWriter f start))"

lemma new_writer:
  assumes "length f \<le> start"
  shows "win (newMergeWriter f start)" "calm (newMergeWriter f start)" "img (newMergeWriter f start) = peek f"
proof -
  have r: "i < mergeRunSlots \<Longrightarrow> w_runs (newMergeWriter f start) ! i = \<lparr>r_start = 0, r_buf = [], r_live = False\<rparr>" for i
    by (simp add: newMergeWriter_def)
  have l: "length (w_runs (newMergeWriter f start)) = mergeRunSlots" by (simp add: newMergeWriter_def)
  show "win (newMergeWriter f start)"
    using r l unfolding win_def apart_def by (simp add: covers_def) (simp add: newMergeWriter_def)
  show im: "img (newMergeWriter f start) = peek f"
  proof
    fix k
    have "img (newMergeWriter f start) k = peek (w_f (newMergeWriter f start)) k"
      by (rule img_uncovered) (use r l in \<open>simp add: covers_def\<close>)
    then show "img (newMergeWriter f start) k = peek f k" by (simp add: newMergeWriter_def)
  qed
  show "calm (newMergeWriter f start)"
    unfolding calm_def im near_def using assms r by (simp add: peek_def newMergeWriter_def)
qed

lemma write_merge_plain:
  assumes "sink_ok io" "length f \<le> start" "fits start cs"
  shows "w_err (write_merge io f start cs) = None"
    and "(w_tail (write_merge io f start cs), peek (w_f (write_merge io f start cs))) = plain start cs (peek f)"
    and "i < mergeRunSlots \<Longrightarrow> length (r_buf (w_runs (fold (run_call io) cs (newMergeWriter f start)) ! i)) \<le> mergeRunBytes"
proof -
  let ?w = "newMergeWriter f start" and ?w' = "fold (run_call io) cs (newMergeWriter f start)"
  have t: "w_tail ?w = start" by (simp add: newMergeWriter_def)
  have r: "win ?w'" "(w_tail ?w', img ?w') = plain start cs (peek f)"
    using run_calls_plain[OF assms(1) new_writer(1)[OF assms(2)]] new_writer(2,3)[OF assms(2)] assms(3) by (simp_all add: t)
  show "w_err (write_merge io f start cs) = None"
    "(w_tail (write_merge io f start cs), peek (w_f (write_merge io f start cs))) = plain start cs (peek f)"
    using win_flushAll[OF r(1) assms(1)] r(2) by (simp_all add: write_merge_def)
  show "i < mergeRunSlots \<Longrightarrow> length (r_buf (w_runs ?w' ! i)) \<le> mergeRunBytes" by (rule win_nth[OF r(1), THEN conjunct1])
qed



section \<open>What the offset check does not see\<close>


text \<open>A failed write ends the merge: the error stays, and no later call touches the sink.\<close>

lemma err_sticky:
  assumes "w_err w = Some e"
  shows "w_err (fold (run_call io) cs w) = Some e" "w_f (fold (run_call io) cs w) = w_f w"
proof -
  have "run_call io c w = w" if "w_err w = Some e" for c w
    using that by (cases c) (simp_all add: patch_def storeAt_def appendAligned_def)
  then have "fold (run_call io) cs w = w" using assms by (induction cs) simp_all
  then show "w_err (fold (run_call io) cs w) = Some e" "w_f (fold (run_call io) cs w) = w_f w" using assms by simp_all
qed

end
