(* ===== verification/Bm25Stats.thy ===== *)
theory Bm25Stats
  imports Bm25Codec
begin

text \<open>
  \<open>internal/searchengine/formats/bm25/stats.go\<close> and the statistics of \<open>format.go\<close>: the query, the
  corpus-wide counts, the chain of probes and the memo of resolved document frequencies.

  Arithmetic on \<open>float64\<close> is a parameter, a \<open>float_ops\<close> over any linearly ordered type: what is shown
  holds for every rounding. A constant of the source is its bit pattern. \<open>int64\<close> sums wrap. The chain
  of probes is the list of its nodes from the newest. The mutex serialises \<open>docFreqOf\<close>, so a call is
  one step on the memo. A payload that is not a \<open>*mappedSegment\<close> cannot be written down here.

  Shown: appending a segment derives the very statistics a fold over all segments would, and the memo
  never changes an answer.
\<close>

record 'sc float_ops =
  fo_bits :: "float64 \<Rightarrow> 'sc"
  fo_int :: "int \<Rightarrow> 'sc"
  fo_add :: "'sc \<Rightarrow> 'sc \<Rightarrow> 'sc"
  fo_sub :: "'sc \<Rightarrow> 'sc \<Rightarrow> 'sc"
  fo_mul :: "'sc \<Rightarrow> 'sc \<Rightarrow> 'sc"
  fo_div :: "'sc \<Rightarrow> 'sc \<Rightarrow> 'sc"
  fo_log :: "'sc \<Rightarrow> 'sc"

text \<open>Arithmetic on integers, as an instance of the parameter.\<close>

definition int_ops :: "int float_ops" where
  "int_ops = \<lparr>fo_bits = \<lambda>w. if w = 0 then 0 else 1, fo_int = \<lambda>i. i, fo_add = (+), fo_sub = (-), fo_mul = (*), fo_div = (div), fo_log = \<lambda>x. x\<rparr>"

definition s64 :: "int \<Rightarrow> int" where
  "s64 i = (i + 2 ^ 63) mod 2 ^ 64 - 2 ^ 63"

record Query =
  q_tokens :: tokens

definition NewQuery :: "unicode_tables \<Rightarrow> string \<Rightarrow> Query" where
  "NewQuery u text = \<lparr>q_tokens = tokenize u text\<rparr>"

datatype docFreqProbe = ProbeMapped mappedSegment | ProbeAccumulator bm25Segment

fun probe_df :: "docFreqProbe \<Rightarrow> string \<Rightarrow> int outcome" where
  "probe_df (ProbeMapped ms) t = segmentDocFreq ms t"
| "probe_df (ProbeAccumulator acc) t = Ret (df_of (bs_docFreq acc) t)"

record 'sc CorpusStats =
  cs_TotalDocs :: int
  cs_FieldAvgLen :: "(string, 'sc) gomap"
  cs_fieldTokens :: "(string, int) gomap"
  cs_probes :: "docFreqProbe list"
  cs_memo :: "(string, int) gomap"

definition newCorpusStats :: "'sc CorpusStats" where
  "newCorpusStats = \<lparr>cs_TotalDocs = 0, cs_FieldAvgLen = [], cs_fieldTokens = [], cs_probes = [], cs_memo = []\<rparr>"

definition attach :: "docFreqProbe \<Rightarrow> 'sc CorpusStats \<Rightarrow> 'sc CorpusStats" where
  "attach p s = s\<lparr>cs_probes := p # cs_probes s\<rparr>"

definition add_field_tokens :: "mappedField \<Rightarrow> (string, int) gomap \<Rightarrow> (string, int) gomap" where
  "add_field_tokens mf m =
     AList.update (fc_Name (mf_config mf)) (s64 ((case map_of m (fc_Name (mf_config mf)) of None \<Rightarrow> 0 | Some n \<Rightarrow> n) + mf_totalTokens mf)) m"

definition addSegmentCounts :: "mappedSegment \<Rightarrow> 'sc CorpusStats \<Rightarrow> 'sc CorpusStats" where
  "addSegmentCounts ms s =
     (let s1 = attach (ProbeMapped ms) (s\<lparr>cs_TotalDocs := s64 (cs_TotalDocs s + int (ms_docCount ms))\<rparr>)
      in s1\<lparr>cs_fieldTokens := fold add_field_tokens (ms_fields ms) (cs_fieldTokens s1)\<rparr>)"

definition deriveAvgLen :: "'sc float_ops \<Rightarrow> 'sc CorpusStats \<Rightarrow> 'sc CorpusStats" where
  "deriveAvgLen fo s =
     (if cs_TotalDocs s \<le> 0 then s
      else s\<lparr>cs_FieldAvgLen :=
        fold (\<lambda>(name, total). AList.update name (fo_div fo (fo_int fo total) (fo_int fo (cs_TotalDocs s))))
          (cs_fieldTokens s) (cs_FieldAvgLen s)\<rparr>)"

fun df_probe_all :: "docFreqProbe list \<Rightarrow> string \<Rightarrow> int \<Rightarrow> int outcome" where
  "df_probe_all [] t df = Ret df"
| "df_probe_all (p # ps) t df = bind_out (probe_df p t) (\<lambda>n. df_probe_all ps t (s64 (df + n)))"

definition docFreqOf :: "'sc CorpusStats option \<Rightarrow> string \<Rightarrow> (int \<times> 'sc CorpusStats option) outcome" where
  "docFreqOf os t =
     (case os of
        None \<Rightarrow> Ret (0, None)
      | Some s \<Rightarrow>
          (case map_of (cs_memo s) t of
             Some df \<Rightarrow> Ret (df, Some s)
           | None \<Rightarrow> bind_out (df_probe_all (cs_probes s) t 0) (\<lambda>df.
               Ret (df, Some (s\<lparr>cs_memo := AList.update t df (cs_memo s)\<rparr>)))))"

definition AggregateStats :: "'sc float_ops \<Rightarrow> mappedSegment list \<Rightarrow> 'sc CorpusStats" where
  "AggregateStats fo segs = deriveAvgLen fo (fold addSegmentCounts segs newCorpusStats)"

text \<open>\<open>maps.Copy\<close> assigns the source's entries one by one.\<close>

definition maps_Copy :: "('k, 'v) gomap \<Rightarrow> ('k, 'v) gomap \<Rightarrow> ('k, 'v) gomap" where
  "maps_Copy dst src = fold (\<lambda>(k, v). AList.update k v) src dst"

definition AppendStats :: "'sc float_ops \<Rightarrow> 'sc CorpusStats option \<Rightarrow> mappedSegment \<Rightarrow> 'sc CorpusStats" where
  "AppendStats fo prev seg =
     (let next = (case prev of
                    None \<Rightarrow> newCorpusStats
                  | Some p \<Rightarrow> newCorpusStats\<lparr>cs_TotalDocs := cs_TotalDocs p, cs_probes := cs_probes p,
                       cs_fieldTokens := maps_Copy [] (cs_fieldTokens p)\<rparr>)
      in deriveAvgLen fo (addSegmentCounts seg next))"

section \<open>Appending agrees with folding\<close>

lemma update_fresh: "k \<notin> fst ` set m \<Longrightarrow> AList.update k v m = m @ [(k, v)]"
  by (induction m) auto

lemma maps_Copy_fresh:
  "gomap_ok src \<Longrightarrow> fst ` set dst \<inter> fst ` set src = {} \<Longrightarrow> maps_Copy dst src = dst @ src"
  unfolding maps_Copy_def
proof (induction src arbitrary: dst)
  case (Cons e src)
  then show ?case by (cases e) (auto simp: update_fresh gomap_ok_def)
qed simp

lemma gomap_ok_add_field_tokens: "gomap_ok m \<Longrightarrow> gomap_ok (fold add_field_tokens mfs m)"
  by (induction mfs arbitrary: m) (simp_all add: add_field_tokens_def)

lemma deriveAvgLen_simps [simp]:
  "cs_TotalDocs (deriveAvgLen fo s) = cs_TotalDocs s" "cs_fieldTokens (deriveAvgLen fo s) = cs_fieldTokens s"
  "cs_probes (deriveAvgLen fo s) = cs_probes s" "cs_memo (deriveAvgLen fo s) = cs_memo s"
  by (simp_all add: deriveAvgLen_def)

lemma addSegmentCounts_simps [simp]:
  "cs_TotalDocs (addSegmentCounts ms s) = s64 (cs_TotalDocs s + int (ms_docCount ms))"
  "cs_FieldAvgLen (addSegmentCounts ms s) = cs_FieldAvgLen s"
  "cs_fieldTokens (addSegmentCounts ms s) = fold add_field_tokens (ms_fields ms) (cs_fieldTokens s)"
  "cs_probes (addSegmentCounts ms s) = ProbeMapped ms # cs_probes s" "cs_memo (addSegmentCounts ms s) = cs_memo s"
  by (simp_all add: addSegmentCounts_def attach_def Let_def)

lemma fold_counts:
  fixes s :: "'sc CorpusStats"
  shows "cs_FieldAvgLen (fold addSegmentCounts segs s) = cs_FieldAvgLen s"
    and "cs_memo (fold addSegmentCounts segs s) = cs_memo s"
    and "cs_probes (fold addSegmentCounts segs s) = rev (map ProbeMapped segs) @ cs_probes s"
    and "gomap_ok (cs_fieldTokens s) \<Longrightarrow> gomap_ok (cs_fieldTokens (fold addSegmentCounts segs s))"
  by (induction segs arbitrary: s) (simp_all add: gomap_ok_add_field_tokens)

lemma newCorpusStats_simps [simp]:
  "cs_TotalDocs newCorpusStats = 0" "cs_FieldAvgLen newCorpusStats = []" "cs_fieldTokens newCorpusStats = []"
  "cs_probes newCorpusStats = []" "cs_memo newCorpusStats = []"
  by (simp_all add: newCorpusStats_def)

text \<open>
  C26: The statistics derived by appending one segment to a snapshot's statistics, whatever the memo
  of the old object holds by then, equal the statistics a fold over the whole longer segment list
  computes, component by component and for any floating-point arithmetic.
\<close>

theorem AppendStats_agrees:
  "AppendStats fo (Some ((AggregateStats fo segs)\<lparr>cs_memo := memo\<rparr>)) seg = AggregateStats fo (segs @ [seg])"
proof -
  define c where "c = fold addSegmentCounts segs (newCorpusStats :: 'a CorpusStats)"
  have "gomap_ok (cs_fieldTokens c)" unfolding c_def by (rule fold_counts(4)) simp
  then have "maps_Copy [] (cs_fieldTokens c) = cs_fieldTokens c" using maps_Copy_fresh[of "cs_fieldTokens c" "[]"] by simp
  moreover have "cs_FieldAvgLen c = []" "cs_memo c = []" by (simp_all add: c_def fold_counts)
  ultimately have "newCorpusStats\<lparr>cs_TotalDocs := cs_TotalDocs c, cs_probes := cs_probes c, cs_fieldTokens := maps_Copy [] (cs_fieldTokens c)\<rparr> = c"
    by (cases c) (simp add: newCorpusStats_def)
  then show ?thesis by (simp add: AppendStats_def AggregateStats_def Let_def c_def[symmetric])
qed

section \<open>The memo is transparent\<close>

definition memo_ok :: "'sc CorpusStats \<Rightarrow> bool" where
  "memo_ok s \<longleftrightarrow> list_all (\<lambda>(t, df). df_probe_all (cs_probes s) t 0 = Ret df) (cs_memo s)"

lemma memo_ok_fresh [simp]: "cs_memo s = [] \<Longrightarrow> memo_ok s"
  by (simp add: memo_ok_def)

lemma memo_okD: "memo_ok s \<Longrightarrow> map_of (cs_memo s) t = Some df \<Longrightarrow> df_probe_all (cs_probes s) t 0 = Ret df"
  by (auto simp: memo_ok_def list_all_iff dest!: map_of_SomeD)

text \<open>What a generation's statistics keep of the object they were when it was published.\<close>

definition same_generation :: "'sc CorpusStats \<Rightarrow> 'sc CorpusStats \<Rightarrow> bool" where
  "same_generation s s' \<longleftrightarrow> s'\<lparr>cs_memo := []\<rparr> = s\<lparr>cs_memo := []\<rparr> \<and> memo_ok s'"

lemma same_generation_simps:
  assumes "same_generation s s'"
  shows "cs_TotalDocs s' = cs_TotalDocs s" "cs_FieldAvgLen s' = cs_FieldAvgLen s" "cs_probes s' = cs_probes s" "memo_ok s'"
  using assms by (cases s; cases s'; simp add: same_generation_def)+

lemma docFreqOf_step:
  assumes "same_generation s s'"
  shows "case docFreqOf (Some s') t of
      Ret (df, os) \<Rightarrow> df_probe_all (cs_probes s) t 0 = Ret df \<and> (\<exists>s''. os = Some s'' \<and> same_generation s s'')
    | Fail e \<Rightarrow> df_probe_all (cs_probes s) t 0 = Fail e | Raised sid d \<Rightarrow> df_probe_all (cs_probes s) t 0 = Raised sid d
    | Panic m \<Rightarrow> df_probe_all (cs_probes s) t 0 = Panic m"
proof (cases "map_of (cs_memo s') t")
  case (Some df)
  then show ?thesis using assms memo_okD[of s' t df] same_generation_simps[OF assms] by (simp add: docFreqOf_def)
next
  case None
  have up: "list_all (\<lambda>(t, df). df_probe_all ps t 0 = Ret df) (AList.update t df m)"
    if "list_all (\<lambda>(t, df). df_probe_all ps t 0 = Ret df) m" "df_probe_all ps t 0 = Ret df" for m ps df
    using that by (induction m) (auto split: prod.splits)
  have "same_generation s (s'\<lparr>cs_memo := AList.update t df (cs_memo s')\<rparr>)" if "df_probe_all (cs_probes s') t 0 = Ret df" for df
    using assms that up by (auto simp: same_generation_def memo_ok_def)
  then show ?thesis
    using None same_generation_simps[OF assms] by (cases "df_probe_all (cs_probes s') t 0") (auto simp: docFreqOf_def)
qed

end
