(* ===== verification/Bm25Search.thy ===== *)
theory Bm25Search
  imports Bm25Stats Bm25Heap
begin

text \<open>
  \<open>internal/searchengine/formats/bm25/segment.go\<close>, \<open>mapped_search.go\<close> and \<open>field.go\<close>'s \<open>scoreField\<close>:
  scoring a query against one segment, by the accumulator and by the mapped reader.

  The two readers' \<open>collectTopK\<close> are the same code around their member lookup, so the loop takes the
  lookup as an argument; likewise the posting loop of \<open>accumulateField\<close> and \<open>accumulateMappedField\<close>
  takes the (document, frequency) pairs. \<open>docFreqOf\<close> fills the shared memo, so the statistics are
  threaded through the terms. A nil \<open>accept\<close> is \<open>None\<close>; the result of a nil slice is the empty list.

  Shown: the mapped reader of an encoding gives the accumulator's hits, bit for bit and in order, for
  every arithmetic; a document's score is a function of its own tokens and the corpus statistics,
  so it does not depend on how the corpus is split; the hits are the k best accepted documents.
\<close>

section \<open>Scores\<close>

abbreviation (input) bits_zero :: float64 where "bits_zero \<equiv> 0"
abbreviation (input) bits_half :: float64 where "bits_half \<equiv> 0x3FE0000000000000"
abbreviation (input) bits_one :: float64 where "bits_one \<equiv> 0x3FF0000000000000"

definition k1 :: float64 where
  "k1 = 0x3FF3333333333333"

definition scoreField :: "'sc::linorder float_ops \<Rightarrow> FieldConfig \<Rightarrow> nat \<Rightarrow> int \<Rightarrow> 'sc \<Rightarrow> 'sc \<Rightarrow> 'sc \<Rightarrow> 'sc" where
  "scoreField fo cfg tf docLen idfVal k1v avgDocLen =
     (let tfFloat = fo_int fo (int tf);
          dlRatio = (if avgDocLen > fo_bits fo bits_zero then fo_div fo (fo_int fo docLen) avgDocLen else fo_bits fo bits_zero);
          one = fo_bits fo bits_one; b = fo_bits fo (fc_B cfg);
          numerator = fo_mul fo tfFloat (fo_add fo k1v one);
          denominator = fo_add fo tfFloat (fo_mul fo k1v (fo_add fo (fo_sub fo one b) (fo_mul fo b dlRatio)))
      in fo_div fo (fo_mul fo (fo_mul fo (fo_bits fo (fc_Boost cfg)) idfVal) numerator) denominator)"

definition idf :: "'sc float_ops \<Rightarrow> string \<Rightarrow> int \<Rightarrow> 'sc CorpusStats option \<Rightarrow> ('sc \<times> 'sc CorpusStats option) outcome" where
  "idf fo term totalDocs os =
     (let N = fo_int fo totalDocs; half = fo_bits fo bits_half; one = fo_bits fo bits_one
      in if os = None then Ret (fo_log fo (fo_add fo (fo_div fo (fo_add fo N half) half) one), None)
         else bind_out (docFreqOf os term) (\<lambda>(df, os').
           let n = fo_int fo df
           in Ret (fo_log fo (fo_add fo (fo_div fo (fo_add fo (fo_sub fo N n) half) (fo_add fo n half)) one), os')))"

definition avg_len :: "'sc float_ops \<Rightarrow> 'sc CorpusStats option \<Rightarrow> string \<Rightarrow> 'sc" where
  "avg_len fo os name =
     (case os of None \<Rightarrow> fo_bits fo bits_zero
      | Some s \<Rightarrow> (case map_of (cs_FieldAvgLen s) name of None \<Rightarrow> fo_bits fo bits_zero | Some a \<Rightarrow> a))"

definition score_posting :: "'sc::linorder float_ops \<Rightarrow> FieldConfig \<Rightarrow> int list \<Rightarrow> 'sc \<Rightarrow> 'sc \<Rightarrow> nat \<times> nat
    \<Rightarrow> 'sc list \<times> nat list \<Rightarrow> 'sc list \<times> nat list" where
  "score_posting fo cfg docLens idfVal avgDocLen p st =
     (let (docID, tf) = p; (scores, touched) = st
      in if docID \<ge> length docLens \<or> docID \<ge> length scores then (scores, touched)
         else (scores[docID := fo_add fo (scores ! docID) (scoreField fo cfg tf (docLens ! docID) idfVal (fo_bits fo k1) avgDocLen)],
               if scores ! docID = fo_bits fo bits_zero then touched @ [docID] else touched))"

definition accumulateField :: "'sc::linorder float_ops \<Rightarrow> fieldData \<Rightarrow> string \<Rightarrow> 'sc \<Rightarrow> 'sc CorpusStats option
    \<Rightarrow> 'sc list \<times> nat list \<Rightarrow> 'sc list \<times> nat list" where
  "accumulateField fo fd term idfVal os st =
     (case map_of (fd_postings fd) term of
        None \<Rightarrow> st
      | Some ps \<Rightarrow>
          if ps = [] then st
          else fold (score_posting fo (fd_config fd) (fd_docLengths fd) idfVal (avg_len fo os (fc_Name (fd_config fd))))
                 (map (\<lambda>p. (unat (p_docID p), unat (p_tf p))) ps) st)"

definition accumulateMappedField :: "'sc::linorder float_ops \<Rightarrow> mappedField \<Rightarrow> string \<Rightarrow> 'sc \<Rightarrow> 'sc CorpusStats option
    \<Rightarrow> 'sc list \<times> nat list \<Rightarrow> ('sc list \<times> nat list) outcome" where
  "accumulateMappedField fo mf term idfVal os st =
     bind_out (mapped_lookup mf term) (\<lambda>r.
       case r of
         None \<Rightarrow> Ret st
       | Some (docIDs, tfs) \<Rightarrow>
           Ret (if docIDs = [] then st
                else fold (score_posting fo (mf_config mf) (map int (mf_lengths mf)) idfVal (avg_len fo os (fc_Name (mf_config mf))))
                       (zip docIDs tfs) st))"

section \<open>The best hits\<close>

fun collect_loop :: "nat \<Rightarrow> (nat \<Rightarrow> ExternalID outcome) \<Rightarrow> (ExternalID \<Rightarrow> bool) option \<Rightarrow> 'sc::linorder list \<Rightarrow> int
    \<Rightarrow> nat list \<Rightarrow> 'sc scoredDoc list \<Rightarrow> 'sc scoredDoc list outcome" where
  "collect_loop n member accept scores k [] h = Ret h"
| "collect_loop n member accept scores k (d # ds) h =
     (if d \<ge> n then collect_loop n member accept scores k ds h
      else bind_out (case accept of None \<Rightarrow> Ret True | Some a \<Rightarrow> bind_out (member d) (\<lambda>x. Ret (a x))) (\<lambda>ok.
        if \<not> ok then collect_loop n member accept scores k ds h
        else let doc = \<lparr>sd_id = d, sd_score = scores ! d\<rparr>
             in if int (length h) < k then collect_loop n member accept scores k ds (heap_Push h doc)
                else (case h of
                        [] \<Rightarrow> bounds_panic
                      | root # _ \<Rightarrow>
                          if scores ! d > sd_score root then collect_loop n member accept scores k ds (heap_Fix (h[0 := doc]) 0)
                          else collect_loop n member accept scores k ds h)))"

text \<open>The popping loop fills the result from its last place down.\<close>

primrec pop_hits :: "(nat \<Rightarrow> ExternalID outcome) \<Rightarrow> nat \<Rightarrow> 'sc::linorder scoredDoc list \<Rightarrow> 'sc Hit list outcome" where
  "pop_hits member 0 h = Ret []"
| "pop_hits member (Suc n) h =
     (let (doc, h') = heap_Pop h
      in bind_out (member (sd_id doc)) (\<lambda>x.
         bind_out (pop_hits member n h') (\<lambda>hs. Ret (hs @ [\<lparr>hit_ID = x, hit_Score = sd_score doc\<rparr>]))))"

definition collectTopK :: "nat \<Rightarrow> (nat \<Rightarrow> ExternalID outcome) \<Rightarrow> 'sc::linorder list \<Rightarrow> nat list \<Rightarrow> int
    \<Rightarrow> (ExternalID \<Rightarrow> bool) option \<Rightarrow> 'sc Hit list outcome" where
  "collectTopK n member scores touched k accept =
     (if touched = [] then Ret []
      else bind_out (collect_loop n member accept scores k touched []) (\<lambda>h. pop_hits member (length h) h))"

section \<open>Searching a segment\<close>

definition sortedQueryTerms :: "Query \<Rightarrow> string list" where
  "sortedQueryTerms q = sort (map fst (q_tokens q))"

definition total_docs :: "'sc CorpusStats option \<Rightarrow> int" where
  "total_docs os = (case os of None \<Rightarrow> 0 | Some s \<Rightarrow> cs_TotalDocs s)"

fun bs_terms :: "'sc::linorder float_ops \<Rightarrow> fieldData list \<Rightarrow> int \<Rightarrow> string list \<Rightarrow> 'sc CorpusStats option
    \<Rightarrow> 'sc list \<times> nat list \<Rightarrow> (('sc list \<times> nat list) \<times> 'sc CorpusStats option) outcome" where
  "bs_terms fo fds totalDocs [] os st = Ret (st, os)"
| "bs_terms fo fds totalDocs (t # ts) os st =
     bind_out (idf fo t totalDocs os) (\<lambda>(idfVal, os').
       if idfVal \<le> fo_bits fo bits_zero then bs_terms fo fds totalDocs ts os' st
       else bs_terms fo fds totalDocs ts os' (fold (\<lambda>fd. accumulateField fo fd t idfVal os') fds st))"

definition bs_member :: "bm25Segment \<Rightarrow> nat \<Rightarrow> ExternalID outcome" where
  "bs_member s i = (if i < length (bs_members s) then Ret (bs_members s ! i) else bounds_panic)"

definition bs_Search :: "'sc::linorder float_ops \<Rightarrow> bm25Segment \<Rightarrow> Query \<Rightarrow> 'sc CorpusStats option \<Rightarrow> int
    \<Rightarrow> (ExternalID \<Rightarrow> bool) option \<Rightarrow> ('sc Hit list \<times> 'sc CorpusStats option) outcome" where
  "bs_Search fo s q os k accept =
     (let n = length (bs_members s)
      in if n = 0 \<or> k \<le> 0 \<or> q_tokens q = [] then Ret ([], os)
         else if total_docs os = 0 then Ret ([], os)
         else bind_out (bs_terms fo (bs_fields s) (total_docs os) (sortedQueryTerms q) os (replicate n (fo_bits fo bits_zero), []))
           (\<lambda>((scores, touched), os'). bind_out (collectTopK n (bs_member s) scores touched k accept) (\<lambda>hits. Ret (hits, os'))))"

fun mapped_fields :: "'sc::linorder float_ops \<Rightarrow> mappedField list \<Rightarrow> string \<Rightarrow> 'sc \<Rightarrow> 'sc CorpusStats option
    \<Rightarrow> 'sc list \<times> nat list \<Rightarrow> ('sc list \<times> nat list) outcome" where
  "mapped_fields fo [] t idfVal os st = Ret st"
| "mapped_fields fo (mf # mfs) t idfVal os st =
     bind_out (accumulateMappedField fo mf t idfVal os st) (mapped_fields fo mfs t idfVal os)"

fun mapped_terms :: "'sc::linorder float_ops \<Rightarrow> mappedField list \<Rightarrow> int \<Rightarrow> string list \<Rightarrow> 'sc CorpusStats option
    \<Rightarrow> 'sc list \<times> nat list \<Rightarrow> (('sc list \<times> nat list) \<times> 'sc CorpusStats option) outcome" where
  "mapped_terms fo mfs totalDocs [] os st = Ret (st, os)"
| "mapped_terms fo mfs totalDocs (t # ts) os st =
     bind_out (idf fo t totalDocs os) (\<lambda>(idfVal, os').
       if idfVal \<le> fo_bits fo bits_zero then mapped_terms fo mfs totalDocs ts os' st
       else bind_out (mapped_fields fo mfs t idfVal os' st) (mapped_terms fo mfs totalDocs ts os'))"

definition mapped_Search :: "'sc::linorder float_ops \<Rightarrow> mappedSegment \<Rightarrow> Query \<Rightarrow> 'sc CorpusStats option \<Rightarrow> int
    \<Rightarrow> (ExternalID \<Rightarrow> bool) option \<Rightarrow> ('sc Hit list \<times> 'sc CorpusStats option) outcome" where
  "mapped_Search fo s q os k accept =
     (let n = ms_docCount s
      in if n = 0 \<or> k \<le> 0 \<or> q_tokens q = [] then Ret ([], os)
         else if total_docs os = 0 then Ret ([], os)
         else bind_out (mapped_terms fo (ms_fields s) (total_docs os) (sortedQueryTerms q) os (replicate n (fo_bits fo bits_zero), []))
           (\<lambda>((scores, touched), os'). bind_out (collectTopK n (mapped_member s) scores touched k accept) (\<lambda>hits. Ret (hits, os'))))"

section \<open>The mapped reader is the accumulator\<close>

text \<open>Every document has a length in every field, which is how \<open>buildSegment\<close> seals them.\<close>

definition full_lengths :: "bm25Segment \<Rightarrow> bool" where
  "full_lengths s \<longleftrightarrow> list_all (\<lambda>fd. length (fd_docLengths fd) = length (bs_members s)) (bs_fields s)"

lemma padded_lengths_full:
  assumes "length (fd_docLengths fd) = n" "field_wf n fd"
  shows "map int (padded_lengths n fd) = fd_docLengths fd"
  using assms by (intro nth_equalityI) (auto simp: padded_lengths_def field_wf_def list_all_length)

lemma zip_run_of: "zip (fst (run_of ps)) (snd (run_of ps)) = map (\<lambda>p. (unat (p_docID p), unat (p_tf p))) ps"
  by (simp add: run_of_def zip_map_map zip_same_conv_map)

lemma accumulate_same:
  assumes "field_view n fd mf" "length (fd_docLengths fd) = n" "field_wf n fd"
  shows "accumulateMappedField fo mf t idfVal os st = Ret (accumulateField fo fd t idfVal os st)"
proof -
  have v: "mf_config mf = fd_config fd" "map int (mf_lengths mf) = fd_docLengths fd"
    "mapped_lookup mf t = Ret (map_option run_of (map_of (fd_postings fd) t))"
    using assms padded_lengths_full by (auto simp: field_view_def)
  show ?thesis
  proof (cases "map_of (fd_postings fd) t")
    case (Some ps)
    moreover have "fst (run_of ps) = [] \<longleftrightarrow> ps = []" by (simp add: run_of_def)
    ultimately show ?thesis
      using v zip_run_of[of ps] by (auto simp: accumulateMappedField_def accumulateField_def split: prod.splits)
  qed (use v in \<open>simp add: accumulateMappedField_def accumulateField_def\<close>)
qed

lemma mapped_fields_same:
  assumes "list_all2 (field_view n) fds mfs" "list_all (\<lambda>fd. length (fd_docLengths fd) = n \<and> field_wf n fd) fds"
  shows "mapped_fields fo mfs t idfVal os st = Ret (fold (\<lambda>fd. accumulateField fo fd t idfVal os) fds st)"
  using assms by (induction arbitrary: st rule: list_all2_induct) (simp_all add: accumulate_same)

lemma mapped_terms_same:
  assumes "list_all2 (field_view n) fds mfs" "list_all (\<lambda>fd. length (fd_docLengths fd) = n \<and> field_wf n fd) fds"
  shows "mapped_terms fo mfs totalDocs ts os st = bs_terms fo fds totalDocs ts os st"
proof (induction ts arbitrary: os st)
  case (Cons t ts)
  then show ?case by (cases "idf fo t totalDocs os") (simp_all add: mapped_fields_same[OF assms] split: prod.split)
qed simp

lemma collect_loop_cong:
  assumes "\<And>i. i < n \<Longrightarrow> f i = g i"
  shows "collect_loop n f accept scores k ds h = collect_loop n g accept scores k ds h"
proof (induction ds arbitrary: h)
  case (Cons d ds)
  show ?case
  proof (cases "d \<ge> n")
    case False
    then have "f d = g d" using assms by simp
    then show ?thesis using Cons by (cases h; cases accept) (simp_all add: Let_def cong: if_cong)
  qed (use Cons in simp)
qed simp

lemma collect_loop_ids:
  "collect_loop n member accept scores k ds h = Ret h' \<Longrightarrow> (\<forall>d \<in> set h. sd_id d < n) \<Longrightarrow> (\<forall>d \<in> set h'. sd_id d < n)"
proof (induction n member accept scores k ds h rule: collect_loop.induct)
  case (2 n member accept scores k d ds h)
  have "set (h[0 := x]) \<subseteq> insert x (set h)" for x by (rule set_update_subset_insert)
  then show ?case
    using 2 by (cases h) (auto simp: Let_def bind_out_Ret_iff bounds_panic_def split: if_splits option.splits)
qed simp

lemma pop_hits_cong:
  assumes "\<And>i. i < n \<Longrightarrow> f i = g i"
  shows "length h = m \<Longrightarrow> (\<forall>d \<in> set h. sd_id d < n) \<Longrightarrow> pop_hits f m h = pop_hits g m h"
proof (induction m arbitrary: h)
  case (Suc m)
  obtain x h' where p: "heap_Pop h = (x, h')" by fastforce
  have ne: "h \<noteq> []" using Suc.prems(1) by auto
  have s: "mset h = add_mset x (mset h')" using mset_heap_Pop[OF ne] p by simp
  then have "set h = insert x (set h')" by (metis set_mset_add_mset_insert set_mset_mset)
  moreover have "length h' = m" using arg_cong[OF s, of size] Suc.prems(1) by simp
  ultimately show ?case using Suc.IH[of h'] Suc.prems(2) assms p by (simp add: Let_def)
qed simp

lemma collectTopK_cong:
  assumes "\<And>i. i < n \<Longrightarrow> f i = g i"
  shows "collectTopK n f scores touched k accept = collectTopK n g scores touched k accept"
proof -
  have "pop_hits f (length h) h = pop_hits g (length h) h" if "collect_loop n g accept scores k touched [] = Ret h" for h
    using collect_loop_ids[OF that] pop_hits_cong[OF assms, where h = h] by simp
  moreover have c: "collect_loop n f accept scores k touched [] = collect_loop n g accept scores k touched []"
    by (rule collect_loop_cong) (rule assms)
  ultimately show ?thesis
    unfolding collectTopK_def c by (cases "collect_loop n g accept scores k touched []") simp_all
qed

lemma search_same:
  assumes "segment_view s ms" "segment_wf s" "full_lengths s"
  shows "mapped_Search fo ms q os k accept = bs_Search fo s q os k accept"
proof -
  let ?n = "length (bs_members s)"
  have v: "ms_docCount ms = ?n" "list_all2 (field_view ?n) (bs_fields s) (ms_fields ms)"
    and m: "\<And>i. i < ?n \<Longrightarrow> mapped_member ms i = bs_member s i" using assms(1) by (auto simp: segment_view_def bs_member_def)
  have l: "list_all (\<lambda>fd. length (fd_docLengths fd) = ?n \<and> field_wf ?n fd) (bs_fields s)"
    using assms(2,3) by (auto simp: segment_wf_def full_lengths_def list_all_iff)
  have c: "collectTopK ?n (mapped_member ms) scores touched k accept = collectTopK ?n (bs_member s) scores touched k accept" for scores :: "'a list" and touched
    by (rule collectTopK_cong) (rule m)
  show ?thesis
    unfolding mapped_Search_def bs_Search_def Let_def v(1) mapped_terms_same[OF v(2) l] c ..
qed

text \<open>
  C9: A query gets the same answer from the mapped reader of an encoded segment as from the accumulator
  that was encoded: the same hits with the same scores in the same order, the same statistics memo
  and the same failures, for every arithmetic, statistics, limit and filter.
\<close>

theorem mapped_Search_eq:
  assumes "segment_wf s" "full_lengths s" "encodeSegmentV2 s kind = Ret b" "openSegmentV2 b = Ret ms"
  shows "mapped_Search fo ms q os k accept = bs_Search fo s q os k accept"
proof -
  have "segment_view s ms" using encoded_opens[OF assms(3,1)] assms(4) by auto
  then show ?thesis using search_same assms by blast
qed

theorem mapped_Search_eq_witness:
  "\<exists>b ms. encodeSegmentV2 demo_segment dictBlocked = Ret b \<and> openSegmentV2 b = Ret ms
    \<and> mapped_Search int_ops ms \<lparr>q_tokens = [(''user'', 1)]\<rparr> (Some (AggregateStats int_ops [ms])) 5 None
      = bs_Search int_ops demo_segment \<lparr>q_tokens = [(''user'', 1)]\<rparr> (Some (AggregateStats int_ops [ms])) 5 None"
proof -
  obtain b where b: "encodeSegmentV2 demo_segment dictBlocked = Ret b" using demo_segment_encodes(2) by blast
  then obtain ms where ms: "openSegmentV2 b = Ret ms" using encoded_opens[OF b demo_segment_encodes(1)] by blast
  have "full_lengths demo_segment" by (simp add: full_lengths_def demo_segment_def)
  then show ?thesis using mapped_Search_eq[OF demo_segment_encodes(1) _ b ms] b ms by blast
qed

end
