(* ===== verification/Bm25Rank.thy ===== *)
theory Bm25Rank
  imports Bm25Search
begin

text \<open>
  What a search of a sealed segment means. A document's score is defined from its own tokens and the
  corpus statistics alone, in the order the code adds the terms and fields up; the segment's search is
  shown to rank exactly by it, and the statistics are shown not to depend on how the documents are
  distributed over segments.
\<close>

section \<open>The score of a document\<close>

definition idf_val :: "'sc float_ops \<Rightarrow> int \<Rightarrow> int \<Rightarrow> 'sc" where
  "idf_val fo totalDocs df =
     (let N = fo_int fo totalDocs; n = fo_int fo df; half = fo_bits fo 0x3FE0000000000000
      in fo_log fo (fo_add fo (fo_div fo (fo_add fo (fo_sub fo N n) half) (fo_add fo n half)) (fo_bits fo 0x3FF0000000000000)))"

definition doc_len :: "FieldConfig \<Rightarrow> docFieldTokens \<Rightarrow> int" where
  "doc_len cfg r = sum_list (map snd (field_tokens (fc_Name cfg) r))"

definition has_term :: "string \<Rightarrow> docFieldTokens \<Rightarrow> FieldConfig \<Rightarrow> bool" where
  "has_term t r cfg \<longleftrightarrow> map_of (field_tokens (fc_Name cfg) r) t \<noteq> None"

definition field_score :: "'sc::linorder float_ops \<Rightarrow> 'sc CorpusStats \<Rightarrow> docFieldTokens \<Rightarrow> string \<Rightarrow> 'sc \<Rightarrow> FieldConfig \<Rightarrow> 'sc \<Rightarrow> 'sc" where
  "field_score fo st r t w cfg x =
     (case map_of (field_tokens (fc_Name cfg) r) t of
        None \<Rightarrow> x
      | Some n \<Rightarrow> fo_add fo x (scoreField fo cfg (unat (clampTF n)) (doc_len cfg r) w (fo_bits fo k1) (avg_len fo (Some st) (fc_Name cfg))))"

definition term_score :: "'sc::linorder float_ops \<Rightarrow> 'sc CorpusStats \<Rightarrow> (string \<Rightarrow> int) \<Rightarrow> docFieldTokens \<Rightarrow> string \<Rightarrow> 'sc \<Rightarrow> 'sc" where
  "term_score fo st D r t x =
     (let w = idf_val fo (cs_TotalDocs st) (D t)
      in if w \<le> fo_bits fo 0 then x else fold (field_score fo st r t w) defaultFieldConfigs x)"

definition doc_score :: "'sc::linorder float_ops \<Rightarrow> 'sc CorpusStats \<Rightarrow> (string \<Rightarrow> int) \<Rightarrow> string list \<Rightarrow> docFieldTokens \<Rightarrow> 'sc" where
  "doc_score fo st D ts r = fold (term_score fo st D r) ts (fo_bits fo 0)"

definition doc_matches :: "'sc::linorder float_ops \<Rightarrow> 'sc CorpusStats \<Rightarrow> (string \<Rightarrow> int) \<Rightarrow> string list \<Rightarrow> docFieldTokens \<Rightarrow> bool" where
  "doc_matches fo st D ts r \<longleftrightarrow>
     list_ex (\<lambda>t. idf_val fo (cs_TotalDocs st) (D t) > fo_bits fo 0 \<and> doc_has t r) ts"

section \<open>The accumulation loops\<close>

text \<open>The scratch of a search: each slot's score, and the slots a posting has reached.\<close>

definition search_scratch :: "'sc::linorder float_ops \<Rightarrow> nat \<Rightarrow> (nat \<Rightarrow> 'sc) \<Rightarrow> (nat \<Rightarrow> bool) \<Rightarrow> 'sc list \<times> nat list \<Rightarrow> bool" where
  "search_scratch fo n f M st \<longleftrightarrow>
     length (fst st) = n \<and> (\<forall>i < n. fst st ! i = f i) \<and> set (snd st) = {i. i < n \<and> M i} \<and> (\<forall>i < n. f i \<noteq> fo_bits fo 0 \<longrightarrow> M i)"

lemma scratch_posting:
  assumes "search_scratch fo n f M st" "i < n" "length lens = n"
  shows "search_scratch fo n (f(i := fo_add fo (f i) (scoreField fo cfg tf (lens ! i) w (fo_bits fo k1) a))) (M(i := True))
    (score_posting fo cfg lens w a (i, tf) st)"
  using assms by (cases st) (auto simp: search_scratch_def score_posting_def nth_list_update)

lemma scratch_cong: "search_scratch fo n f M st \<Longrightarrow> (\<And>i. i < n \<Longrightarrow> f i = g i \<and> M i = N i) \<Longrightarrow> search_scratch fo n g N st"
  by (auto simp: search_scratch_def)

lemma scratch_field_prefix:
  assumes "search_scratch fo n f M st" "length rs \<le> n" "n \<le> 2 ^ 32" "length lens = n" "\<And>i. i < length rs \<Longrightarrow> lens ! i = doc_len cfg (rs ! i)"
  shows "search_scratch fo n (\<lambda>i. if i < length rs then field_score fo s (rs ! i) t w cfg (f i) else f i)
      (\<lambda>i. M i \<or> i < length rs \<and> has_term t (rs ! i) cfg)
    (fold (score_posting fo cfg lens w (avg_len fo (Some s) (fc_Name cfg)))
      (map (\<lambda>p. (unat (p_docID p), unat (p_tf p))) (spec_postings (fc_Name cfg) t rs)) st)"
  using assms(2,5)
proof (induction rs rule: rev_induct)
  case Nil
  then show ?case using assms(1) by (simp add: spec_postings_def)
next
  case (snoc r rs)
  let ?i = "length rs" and ?a = "avg_len fo (Some s) (fc_Name cfg)"
  let ?fold = "\<lambda>ps. fold (score_posting fo cfg lens w ?a) (map (\<lambda>p. (unat (p_docID p), unat (p_tf p))) ps)"
  let ?st = "?fold (spec_postings (fc_Name cfg) t rs) st"
  let ?f = "\<lambda>i. if i < ?i then field_score fo s (rs ! i) t w cfg (f i) else f i" and ?M = "\<lambda>i. M i \<or> i < ?i \<and> has_term t (rs ! i) cfg"
  have IH: "search_scratch fo n ?f ?M ?st"
    using snoc.IH snoc.prems by (simp add: nth_append)
  have i: "?i < n" using snoc.prems by simp
  have u: "unat (word_of_nat ?i :: 32 word) = ?i" using i assms(3) by (simp add: unat_of_nat take_bit_nat_eq_self)
  have len: "lens ! ?i = doc_len cfg r" using snoc.prems(2)[of ?i] by simp
  have split: "?fold (spec_postings (fc_Name cfg) t (rs @ [r])) st = ?fold (spec_posting (fc_Name cfg) t ?i r) ?st"
    by (simp add: spec_postings_snoc)
  show ?case
  proof (cases "map_of (field_tokens (fc_Name cfg) r) t")
    case None
    then have "search_scratch fo n ?f ?M (?fold (spec_postings (fc_Name cfg) t (rs @ [r])) st)" unfolding split using IH by (simp add: spec_posting_clamp)
    then show ?thesis by (rule scratch_cong) (use None in \<open>auto simp: nth_append field_score_def has_term_def less_Suc_eq\<close>)
  next
    case (Some m)
    have "search_scratch fo n (?f(?i := fo_add fo (?f ?i) (scoreField fo cfg (unat (clampTF m)) (lens ! ?i) w (fo_bits fo k1) ?a))) (?M(?i := True))
        (score_posting fo cfg lens w ?a (?i, unat (clampTF m)) ?st)"
      by (rule scratch_posting[OF IH i assms(4)])
    moreover have "?fold (spec_postings (fc_Name cfg) t (rs @ [r])) st = score_posting fo cfg lens w ?a (?i, unat (clampTF m)) ?st"
      unfolding split using Some u by (simp add: spec_posting_clamp)
    ultimately show ?thesis
      by (simp only:) (erule scratch_cong, use Some len in \<open>auto simp: nth_append field_score_def has_term_def less_Suc_eq\<close>)
  qed
qed

lemma scratch_field:
  assumes "search_scratch fo n f M st" "field_spec rs cfg fd" "length rs = n" "n \<le> 2 ^ 32"
  shows "search_scratch fo n (\<lambda>i. field_score fo s (rs ! i) t w cfg (f i)) (\<lambda>i. M i \<or> has_term t (rs ! i) cfg)
    (accumulateField fo fd t w (Some s) st)"
proof -
  let ?ps = "spec_postings (fc_Name cfg) t rs"
  let ?fold = "fold (score_posting fo cfg (fd_docLengths fd) w (avg_len fo (Some s) (fc_Name cfg)))
      (map (\<lambda>p. (unat (p_docID p), unat (p_tf p))) ?ps) st"
  have c: "fd_config fd = cfg" "map_of (fd_postings fd) t = (if ?ps = [] then None else Some ?ps)"
    and l: "fd_docLengths fd = map (doc_len cfg) rs" using assms(2) by (auto simp: field_spec_def doc_len_def)
  have e: "accumulateField fo fd t w (Some s) st = ?fold"
  proof (cases "?ps = []")
    case True
    have "map_of (fd_postings fd) t = None" using c(2) True by simp
    then show ?thesis using True by (simp add: accumulateField_def)
  next
    case False
    have "map_of (fd_postings fd) t = Some ?ps" using c(2) False by simp
    then show ?thesis using False c(1) by (simp add: accumulateField_def)
  qed
  have "search_scratch fo n (\<lambda>i. if i < length rs then field_score fo s (rs ! i) t w cfg (f i) else f i)
      (\<lambda>i. M i \<or> i < length rs \<and> has_term t (rs ! i) cfg) ?fold"
    by (rule scratch_field_prefix[OF assms(1)]) (use assms(3,4) l in simp_all)
  then show ?thesis unfolding e by (rule scratch_cong) (use assms(3) in simp)
qed

lemma scratch_fields:
  assumes "list_all2 (field_spec rs) cfgs fds" "length rs = n" "n \<le> 2 ^ 32"
  shows "search_scratch fo n f M st \<Longrightarrow>
    search_scratch fo n (\<lambda>i. fold (field_score fo s (rs ! i) t w) cfgs (f i)) (\<lambda>i. M i \<or> list_ex (has_term t (rs ! i)) cfgs)
      (fold (\<lambda>fd. accumulateField fo fd t w (Some s)) fds st)"
  using assms(1)
proof (induction arbitrary: f M st rule: list_all2_induct)
  case (Cons cfg cfgs fd fds)
  show ?case using Cons.IH[OF scratch_field[OF Cons.prems Cons.hyps(1) assms(2,3), of s t w]] by (simp add: disj_assoc)
qed simp

lemma idf_exact:
  assumes "same_generation s s'" "df_probe_all (cs_probes s) t 0 = Ret df"
  shows "\<exists>s''. idf fo t N (Some s') = Ret (idf_val fo N df, Some s'') \<and> same_generation s s''"
proof -
  obtain s'' where "docFreqOf (Some s') t = Ret (df, Some s'')" "same_generation s s''"
    using docFreqOf_step[OF assms(1), of t] assms(2) by (auto split: outcome.splits)
  then show ?thesis by (simp add: idf_def idf_val_def Let_def)
qed

lemma avg_len_generation: "same_generation s s' \<Longrightarrow> avg_len fo (Some s') name = avg_len fo (Some s) name"
  by (simp add: avg_len_def same_generation_simps)

lemma accumulateField_generation:
  "same_generation s s' \<Longrightarrow> accumulateField fo fd t w (Some s') = accumulateField fo fd t w (Some s)"
  by (auto simp: accumulateField_def fun_eq_iff avg_len_generation split: option.split)

lemma scratch_terms:
  assumes "segment_spec rs seg" "length rs = n" "n \<le> 2 ^ 32"
  shows "same_generation s s' \<Longrightarrow> search_scratch fo n f M st \<Longrightarrow> (\<And>t. t \<in> set ts \<Longrightarrow> df_probe_all (cs_probes s) t 0 = Ret (D t)) \<Longrightarrow>
    \<exists>st' s''. bs_terms fo (bs_fields seg) (cs_TotalDocs s) ts (Some s') st = Ret (st', Some s'') \<and> same_generation s s''
      \<and> search_scratch fo n (\<lambda>i. fold (term_score fo s D (rs ! i)) ts (f i)) (\<lambda>i. M i \<or> doc_matches fo s D ts (rs ! i)) st'"
proof (induction ts arbitrary: s' f M st)
  case (Cons t ts)
  let ?w = "idf_val fo (cs_TotalDocs s) (D t)"
  have fs: "list_all2 (field_spec rs) defaultFieldConfigs (bs_fields seg)" using assms(1) by (simp add: segment_spec_def)
  obtain s1 where s1: "idf fo t (cs_TotalDocs s) (Some s') = Ret (?w, Some s1)" "same_generation s s1"
    using idf_exact[OF Cons.prems(1), of t "D t" fo "cs_TotalDocs s"] Cons.prems(3) by auto
  have acc: "(\<lambda>fd. accumulateField fo fd t ?w (Some s1)) = (\<lambda>fd. accumulateField fo fd t ?w (Some s))"
    using accumulateField_generation[OF s1(2)] by (simp add: fun_eq_iff)
  show ?case
  proof (cases "?w \<le> fo_bits fo 0")
    case True
    obtain st' s'' where r: "bs_terms fo (bs_fields seg) (cs_TotalDocs s) ts (Some s1) st = Ret (st', Some s'')" "same_generation s s''"
      "search_scratch fo n (\<lambda>i. fold (term_score fo s D (rs ! i)) ts (f i)) (\<lambda>i. M i \<or> doc_matches fo s D ts (rs ! i)) st'"
      using Cons.IH[OF s1(2) Cons.prems(2)] Cons.prems(3) by auto
    have "search_scratch fo n (\<lambda>i. fold (term_score fo s D (rs ! i)) (t # ts) (f i)) (\<lambda>i. M i \<or> doc_matches fo s D (t # ts) (rs ! i)) st'"
      by (rule scratch_cong[OF r(3)]) (use True in \<open>auto simp: term_score_def doc_matches_def\<close>)
    then show ?thesis using s1(1) True r by auto
  next
    case False
    have sc: "search_scratch fo n (\<lambda>i. term_score fo s D (rs ! i) t (f i)) (\<lambda>i. M i \<or> doc_has t (rs ! i))
        (fold (\<lambda>fd. accumulateField fo fd t ?w (Some s)) (bs_fields seg) st)"
      using scratch_fields[OF fs assms(2,3) Cons.prems(2), of s t ?w] False
      by (simp add: term_score_def Let_def doc_has_def has_term_def[abs_def])
    obtain st' s'' where r: "bs_terms fo (bs_fields seg) (cs_TotalDocs s) ts (Some s1)
          (fold (\<lambda>fd. accumulateField fo fd t ?w (Some s)) (bs_fields seg) st) = Ret (st', Some s'')" "same_generation s s''"
      "search_scratch fo n (\<lambda>i. fold (term_score fo s D (rs ! i)) ts (term_score fo s D (rs ! i) t (f i)))
         (\<lambda>i. (M i \<or> doc_has t (rs ! i)) \<or> doc_matches fo s D ts (rs ! i)) st'"
      using Cons.IH[OF s1(2) sc] Cons.prems(3) by auto
    have "search_scratch fo n (\<lambda>i. fold (term_score fo s D (rs ! i)) (t # ts) (f i)) (\<lambda>i. M i \<or> doc_matches fo s D (t # ts) (rs ! i)) st'"
      by (rule scratch_cong[OF r(3)]) (use False in \<open>auto simp: doc_matches_def\<close>)
    then show ?thesis using s1(1) False acc r by auto
  qed
qed (simp add: doc_matches_def)

section \<open>The hits\<close>

definition accepts :: "(ExternalID \<Rightarrow> bool) option \<Rightarrow> ExternalID \<Rightarrow> bool" where
  "accepts accept x = (case accept of None \<Rightarrow> True | Some a \<Rightarrow> a x)"

abbreviation slot_hit :: "(nat \<Rightarrow> ExternalID) \<Rightarrow> (nat \<Rightarrow> 'sc) \<Rightarrow> nat \<Rightarrow> 'sc Hit" where
  "slot_hit m f d \<equiv> \<lparr>hit_ID = m d, hit_Score = f d\<rparr>"

lemma collect_loop_offers:
  assumes "0 < k" "\<And>d. d < n \<Longrightarrow> member d = Ret (m d)"
  shows "\<exists>h'. collect_loop n member accept scores k ds h = Ret h'
    \<and> map (hit_of m) h' = offer_all (map (hit_of m) h) (map (slot_hit m ((!) scores)) (filter (\<lambda>d. d < n \<and> accepts accept (m d)) ds)) k"
proof (induction ds arbitrary: h)
  case (Cons d ds)
  let ?doc = "\<lparr>sd_id = d, sd_score = scores ! d\<rparr>"
  define h1 where "h1 = (if int (length h) < k then heap_Push h ?doc else if scores ! d > sd_score (h ! 0) then heap_Fix (h[0 := ?doc]) 0 else h)"
  show ?case
  proof (cases "d < n \<and> accepts accept (m d)")
    case False
    then have "collect_loop n member accept scores k (d # ds) h = collect_loop n member accept scores k ds h"
      using assms(2)[of d] by (cases accept) (auto simp: accepts_def)
    then show ?thesis using Cons[of h] False by auto
  next
    case True
    have "collect_loop n member accept scores k (d # ds) h = collect_loop n member accept scores k ds h1"
      using assms True by (cases accept; cases h) (auto simp: accepts_def h1_def Let_def)
    moreover have "map (hit_of m) h1 = Offer (map (hit_of m) h) (slot_hit m ((!) scores) d) k"
    proof -
      have ne: "h \<noteq> []" if "\<not> int (length h) < k" using that assms(1) by auto
      have "hit_of m ?doc = slot_hit m ((!) scores) d" by (simp add: hit_of_def)
      then show ?thesis using assms(1) ne by (auto simp: h1_def Offer_def heap_Push_sift heap_Fix_sift map_update)
    qed
    ultimately show ?thesis using Cons[of h1] True by auto
  qed
qed simp

lemma pop_hits_drain:
  assumes "\<And>d. d < n \<Longrightarrow> member d = Ret (m d)"
  shows "length h = l \<Longrightarrow> (\<forall>d \<in> set h. sd_id d < n) \<Longrightarrow>
    pop_hits member l h = Ret (rev (drain (\<lambda>h. (hit_of m (fst (heap_Pop h)), snd (heap_Pop h))) l h))"
proof (induction l arbitrary: h)
  case (Suc l)
  obtain x h' where p: "heap_Pop h = (x, h')" by fastforce
  have ne: "h \<noteq> []" using Suc.prems(1) by auto
  have s: "mset h = add_mset x (mset h')" using mset_heap_Pop[OF ne] p by simp
  then have "set h = insert x (set h')" by (metis set_mset_add_mset_insert set_mset_mset)
  moreover have "length h' = l" using arg_cong[OF s, of size] Suc.prems(1) by simp
  ultimately show ?case using Suc.IH[of h'] Suc.prems(2) assms p by (simp add: hit_of_def)
qed simp

abbreviation score_desc :: "'sc::linorder Hit list \<Rightarrow> bool" where
  "score_desc \<equiv> sorted_wrt (\<lambda>a b. hit_Score b \<le> hit_Score a)"

lemma collectTopK_best:
  assumes "0 < k" "\<And>d. d < n \<Longrightarrow> member d = Ret (m d)"
  shows "\<exists>hits. collectTopK n member scores touched k accept = Ret hits \<and> score_desc hits
    \<and> best_of (nat k) (mset (map (slot_hit m ((!) scores)) (filter (\<lambda>d. d < n \<and> accepts accept (m d)) touched))) (mset hits)"
proof -
  let ?U = "map (slot_hit m ((!) scores)) (filter (\<lambda>d. d < n \<and> accepts accept (m d)) touched)"
  let ?pop = "\<lambda>h. (hit_of m (fst (heap_Pop h)), snd (heap_Pop h))"
  obtain h where h: "collect_loop n member accept scores k touched [] = Ret h" "map (hit_of m) h = offer_all [] ?U k"
    using collect_loop_offers[where m = m and accept = accept and scores = scores and ds = touched and h = "[]", OF assms] by auto
  have ok: "heap_ok (map (hit_of m) h)" "best_of (nat k) (mset ?U) (mset (map (hit_of m) h))"
    using offer_all_best[OF assms(1), of "[]" "{#}" ?U] h(2) by (simp_all add: heap_ok_def best_of_empty)
  have ids: "\<forall>d \<in> set h. sd_id d < n" using collect_loop_ids[OF h(1)] by simp
  let ?hits = "rev (drain ?pop (length h) h)"
  have d: "mset ?hits = mset (map (hit_of m) h)" "sorted (map hit_Score (rev ?hits))"
    using scored.drain_sorts[OF ok(1), of "length h"] by simp_all
  have "sorted_wrt (\<lambda>a b. hit_Score a \<le> hit_Score b) (rev ?hits)" using d(2) by (simp add: sorted_map)
  then have "score_desc ?hits" by (simp only: sorted_wrt_rev)
  moreover have "collectTopK n member scores touched k accept = Ret ?hits"
  proof (cases "touched = []")
    case True
    then show ?thesis using h(1) by (simp add: collectTopK_def)
  next
    case False
    then show ?thesis using h(1) pop_hits_drain[where m = m and h = h and n = n, OF assms(2) refl ids] by (simp add: collectTopK_def)
  qed
  ultimately show ?thesis using ok(2) d(1) by (intro exI[of _ ?hits]) simp
qed

lemma search_ranks:
  assumes "segment_spec rs seg" "length rs \<le> 2 ^ 32" "memo_ok st" "cs_TotalDocs st \<noteq> 0" "0 < k"
    and "\<And>t. t \<in> set (sortedQueryTerms q) \<Longrightarrow> df_probe_all (cs_probes st) t 0 = Ret (D t)"
  shows "\<exists>hits touched st'. bs_Search fo seg q (Some st) k accept = Ret (hits, Some st') \<and> same_generation st st'
    \<and> set touched = {i. i < length rs \<and> doc_matches fo st D (sortedQueryTerms q) (rs ! i)}
    \<and> score_desc hits
    \<and> best_of (nat k) (mset (map (slot_hit (\<lambda>i. dt_id (rs ! i)) (\<lambda>i. doc_score fo st D (sortedQueryTerms q) (rs ! i)))
         (filter (\<lambda>i. accepts accept (dt_id (rs ! i))) touched))) (mset hits)"
proof -
  let ?n = "length rs" and ?ts = "sortedQueryTerms q" and ?m = "\<lambda>i. dt_id (rs ! i)" and ?z = "fo_bits fo 0"
  have mem: "bs_members seg = map dt_id rs" using assms(1) by (simp add: segment_spec_def)
  have g: "same_generation st st" using assms(3) by (simp add: same_generation_def)
  show ?thesis
  proof (cases "?n = 0 \<or> q_tokens q = []")
    case True
    then have "{i. i < ?n \<and> doc_matches fo st D ?ts (rs ! i)} = {}" by (auto simp: doc_matches_def sortedQueryTerms_def)
    then show ?thesis
      using True mem g by (intro exI[of _ "[]"] exI[of _ st]) (auto simp: bs_Search_def best_of_empty)
  next
    case False
    have "search_scratch fo ?n (\<lambda>i. ?z) (\<lambda>i. False) (replicate ?n ?z, [])" by (simp add: search_scratch_def)
    from scratch_terms[OF assms(1) refl assms(2) g this, of ?ts D] assms(6)
    obtain scores touched s'' where t: "bs_terms fo (bs_fields seg) (cs_TotalDocs st) ?ts (Some st) (replicate ?n ?z, []) = Ret ((scores, touched), Some s'')"
      "same_generation st s''" "search_scratch fo ?n (\<lambda>i. doc_score fo st D ?ts (rs ! i)) (\<lambda>i. doc_matches fo st D ?ts (rs ! i)) (scores, touched)"
      by (auto simp: doc_score_def)
    obtain hits where h: "collectTopK ?n (bs_member seg) scores touched k accept = Ret hits" "score_desc hits"
      "best_of (nat k) (mset (map (slot_hit ?m ((!) scores)) (filter (\<lambda>d. d < ?n \<and> accepts accept (?m d)) touched))) (mset hits)"
      using collectTopK_best[of k ?n "bs_member seg" ?m scores touched accept] assms(5) by (auto simp: bs_member_def mem)
    have set: "set touched = {i. i < ?n \<and> doc_matches fo st D ?ts (rs ! i)}" using t(3) by (simp add: search_scratch_def)
    have "map (slot_hit ?m ((!) scores)) (filter (\<lambda>d. d < ?n \<and> accepts accept (?m d)) touched) =
        map (slot_hit ?m (\<lambda>i. doc_score fo st D ?ts (rs ! i))) (filter (\<lambda>i. accepts accept (?m i)) touched)"
      using t(3) set by (auto simp: search_scratch_def intro!: map_cong filter_cong)
    moreover have "bs_Search fo seg q (Some st) k accept = Ret (hits, Some s'')"
      using False assms(4,5) t(1) h(1) by (simp add: bs_Search_def mem total_docs_def)
    ultimately show ?thesis using t(2) h(2,3) set by (intro exI[of _ hits] exI[of _ touched] exI[of _ s'']) simp
  qed
qed

section \<open>The split of a corpus over segments\<close>

text \<open>\<open>sealed rs ms\<close>: the mapped segment answers for an accumulator built from these tokenized documents.\<close>

definition sealed :: "docFieldTokens list \<Rightarrow> mappedSegment \<Rightarrow> bool" where
  "sealed rs ms \<longleftrightarrow> (\<exists>s. segment_spec rs s \<and> segment_wf s \<and> segment_view s ms)"

lemma s64_add_left [simp]: "s64 (s64 x + y) = s64 (x + y)"
proof -
  have "s64 x + y + 2 ^ 63 = (x + 2 ^ 63) mod 2 ^ 64 + y" by (simp add: s64_def)
  moreover have "((x + 2 ^ 63) mod 2 ^ 64 + y) mod 2 ^ 64 = (x + y + 2 ^ 63) mod 2 ^ 64"
    unfolding mod_add_left_eq by (simp only: ac_simps)
  ultimately show ?thesis unfolding s64_def[of "s64 x + y"] s64_def[of "x + y"] by (simp only:)
qed

lemma s64_0 [simp]: "s64 0 = 0"
  by (simp add: s64_def)

lemma spec_full_lengths: "segment_spec rs s \<Longrightarrow> full_lengths s"
  by (auto simp: segment_spec_def full_lengths_def list_all_length list_all2_conv_all_nth field_spec_def)

lemma sealed_counts:
  assumes "sealed rs ms"
  shows "ms_docCount ms = length rs" "segmentDocFreq ms t = Ret (int (length (filter (doc_has t) rs)))"
    and "list_all2 (\<lambda>cfg mf. mf_config mf = cfg \<and> mf_totalTokens mf = sum_list (map (doc_len cfg) rs)) defaultFieldConfigs (ms_fields ms)"
proof -
  obtain s where s: "segment_spec rs s" "segment_view s ms" using assms by (auto simp: sealed_def)
  show "ms_docCount ms = length rs" using s by (simp add: segment_view_def segment_spec_def)
  show "segmentDocFreq ms t = Ret (int (length (filter (doc_has t) rs)))"
    using s by (simp add: segment_view_def segment_spec_def df_of_def Let_def)
  have f: "list_all2 (field_spec rs) defaultFieldConfigs (bs_fields s)" "list_all2 (field_view (length (bs_members s))) (bs_fields s) (ms_fields ms)"
    using s by (simp_all add: segment_spec_def segment_view_def)
  show "list_all2 (\<lambda>cfg mf. mf_config mf = cfg \<and> mf_totalTokens mf = sum_list (map (doc_len cfg) rs)) defaultFieldConfigs (ms_fields ms)"
    by (rule list_all2_trans[OF _ f]) (auto simp: field_view_def field_spec_def doc_len_def[abs_def])
qed

lemma df_probes_sealed:
  "list_all2 sealed rss segs \<Longrightarrow> df_probe_all (map ProbeMapped segs) t (s64 x) = Ret (s64 (x + int (length (filter (doc_has t) (concat rss)))))"
  by (induction arbitrary: x rule: list_all2_induct) (simp_all add: sealed_counts add.assoc)

lemma list_all2_rev_sealed: "list_all2 sealed rss segs \<Longrightarrow> list_all2 sealed (rev rss) (rev segs)"
  by simp

lemma length_filter_concat_rev: "length (filter P (concat (rev rss))) = length (filter P (concat rss))"
  by (induction rss) simp_all

lemma df_corpus:
  assumes "list_all2 sealed rss segs"
  shows "df_probe_all (cs_probes (AggregateStats fo segs)) t 0 = Ret (s64 (int (length (filter (doc_has t) (concat rss)))))"
  using df_probes_sealed[OF list_all2_rev_sealed[OF assms], of t 0]
  by (simp add: AggregateStats_def fold_counts rev_map length_filter_concat_rev)

lemma total_corpus:
  fixes s :: "'sc CorpusStats"
  assumes "list_all2 sealed rss segs"
  shows "cs_TotalDocs s = s64 x \<Longrightarrow> cs_TotalDocs (fold addSegmentCounts segs s) = s64 (x + int (length (concat rss)))"
  using assms by (induction arbitrary: s x rule: list_all2_induct) (simp_all add: sealed_counts add.assoc)

text \<open>The token totals, by field name.\<close>

definition tokens_of :: "string \<Rightarrow> docFieldTokens list \<Rightarrow> int" where
  "tokens_of name rs = sum_list (map (\<lambda>r. sum_list (map snd (field_tokens name r))) rs)"

definition total_at :: "(string, int) gomap \<Rightarrow> string \<Rightarrow> int" where
  "total_at m name = (case map_of m name of None \<Rightarrow> 0 | Some n \<Rightarrow> n)"

lemma add_field_tokens_at:
  assumes "list_all2 (\<lambda>cfg mf. mf_config mf = cfg \<and> mf_totalTokens mf = sum_list (map (doc_len cfg) rs)) cfgs mfs" "distinct (map fc_Name cfgs)"
  shows "map_of (fold add_field_tokens mfs m) name =
    (if name \<in> fc_Name ` set cfgs then Some (s64 (total_at m name + tokens_of name rs)) else map_of m name)"
  using assms
proof (induction arbitrary: m rule: list_all2_induct)
  case (Cons cfg cfgs mf mfs)
  have "map_of (add_field_tokens mf m) name = (if name = fc_Name cfg then Some (s64 (total_at m name + tokens_of name rs)) else map_of m name)"
    using Cons.hyps(1) by (simp add: add_field_tokens_def update_conv' total_at_def tokens_of_def doc_len_def[abs_def])
  then show ?case using Cons.IH[of "add_field_tokens mf m"] Cons.prems by (auto simp: total_at_def)
qed simp

lemma default_names: "distinct (map fc_Name defaultFieldConfigs)"
  by (simp add: defaultFieldConfigs_def)

lemma tokens_corpus:
  fixes s :: "'sc CorpusStats"
  assumes "list_all2 sealed rss segs" "name \<in> fc_Name ` set defaultFieldConfigs"
  shows "total_at (cs_fieldTokens s) name = s64 x \<Longrightarrow>
    total_at (cs_fieldTokens (fold addSegmentCounts segs s)) name = s64 (x + tokens_of name (concat rss))
    \<and> (segs \<noteq> [] \<longrightarrow> map_of (cs_fieldTokens (fold addSegmentCounts segs s)) name \<noteq> None)"
  using assms(1)
proof (induction arbitrary: s x rule: list_all2_induct)
  case Nil
  then show ?case by (simp add: tokens_of_def)
next
  case (Cons rs rss ms segs)
  have m: "map_of (cs_fieldTokens (addSegmentCounts ms s)) name = Some (s64 (x + tokens_of name rs))"
    using add_field_tokens_at[OF sealed_counts(3)[OF Cons.hyps(1)] default_names, of "cs_fieldTokens s" name] assms(2) Cons.prems by simp
  then have "total_at (cs_fieldTokens (addSegmentCounts ms s)) name = s64 (x + tokens_of name rs)" by (simp add: total_at_def)
  note IH = Cons.IH[OF this]
  have "map_of (cs_fieldTokens (fold addSegmentCounts (ms # segs) s)) name \<noteq> None" using m IH by (cases segs) auto
  then show ?case using IH by (simp add: tokens_of_def add.assoc)
qed

lemma deriveAvgLen_at:
  assumes "gomap_ok (cs_fieldTokens s)" "cs_FieldAvgLen s = []" "cs_TotalDocs s > 0"
  shows "map_of (cs_FieldAvgLen (deriveAvgLen fo s)) name =
    map_option (\<lambda>n. fo_div fo (fo_int fo n) (fo_int fo (cs_TotalDocs s))) (map_of (cs_fieldTokens s) name)"
proof -
  have "gomap_ok toks \<Longrightarrow> map_of (fold (\<lambda>(name, n). AList.update name (F n)) toks m) name =
      (case map_of toks name of None \<Rightarrow> map_of m name | Some n \<Rightarrow> Some (F n))" for F :: "int \<Rightarrow> 'a" and toks m
    by (induction toks arbitrary: m) (auto simp: update_conv' gomap_ok_def map_of_eq_None_iff image_iff split: option.splits)
  from this[OF assms(1), of "\<lambda>n. fo_div fo (fo_int fo n) (fo_int fo (cs_TotalDocs s))" "[]"]
  show ?thesis using assms(2,3) by (simp add: deriveAvgLen_def option.case_eq_if map_option_case)
qed

text \<open>The statistics of a split corpus, in terms of the documents.\<close>

lemma corpus_stats:
  assumes "list_all2 sealed rss segs"
  shows "cs_TotalDocs (AggregateStats fo segs) = s64 (int (length (concat rss)))"
    and "name \<in> fc_Name ` set defaultFieldConfigs \<Longrightarrow> avg_len fo (Some (AggregateStats fo segs)) name =
      (if s64 (int (length (concat rss))) \<le> 0 then fo_bits fo 0
       else fo_div fo (fo_int fo (s64 (tokens_of name (concat rss)))) (fo_int fo (s64 (int (length (concat rss))))))"
proof -
  define c where "c = fold addSegmentCounts segs (newCorpusStats :: 'a CorpusStats)"
  have t: "cs_TotalDocs c = s64 (int (length (concat rss)))"
    using total_corpus[OF assms, of "newCorpusStats :: 'a CorpusStats" 0] by (simp add: c_def)
  then show "cs_TotalDocs (AggregateStats fo segs) = s64 (int (length (concat rss)))" by (simp add: AggregateStats_def c_def)
  assume n: "name \<in> fc_Name ` set defaultFieldConfigs"
  have c: "gomap_ok (cs_fieldTokens c)" "cs_FieldAvgLen c = []" by (simp_all add: c_def fold_counts)
  show "avg_len fo (Some (AggregateStats fo segs)) name =
      (if s64 (int (length (concat rss))) \<le> 0 then fo_bits fo 0
       else fo_div fo (fo_int fo (s64 (tokens_of name (concat rss)))) (fo_int fo (s64 (int (length (concat rss))))))"
  proof (cases "s64 (int (length (concat rss))) \<le> 0")
    case True
    then show ?thesis using t c(2) by (simp add: avg_len_def AggregateStats_def deriveAvgLen_def flip: c_def)
  next
    case False
    then have "segs \<noteq> []" using assms by auto
    then obtain v where "map_of (cs_fieldTokens c) name = Some v" "v = s64 (tokens_of name (concat rss))"
      using tokens_corpus[OF assms n, of "newCorpusStats :: 'a CorpusStats" 0] by (auto simp: c_def total_at_def)
    then show ?thesis
      using deriveAvgLen_at[OF c, of fo name] False t by (simp add: avg_len_def AggregateStats_def flip: c_def)
  qed
qed

lemma df_corpus_small:
  assumes "list_all2 sealed rss segs" "length (concat rss) < 2 ^ 63"
  shows "df_probe_all (cs_probes (AggregateStats fo segs)) t 0 = Ret (int (length (filter (doc_has t) (concat rss))))"
proof -
  have "length (filter (doc_has t) (concat rss)) < 2 ^ 63" using assms(2) length_filter_le[of "doc_has t" "concat rss"] by linarith
  then have "s64 (int (length (filter (doc_has t) (concat rss)))) = int (length (filter (doc_has t) (concat rss)))"
    unfolding s64_def by (subst mod_pos_pos_trivial) simp_all
  then show ?thesis using df_corpus[OF assms(1), of fo t] by (simp only:)
qed

lemma sealed_Search:
  assumes "sealed rs ms"
  obtains s where "segment_spec rs s" "\<And>fo q os k accept. mapped_Search fo ms q os k accept = bs_Search fo s q os k accept"
  using assms spec_full_lengths search_same by (metis sealed_def)

lemma same_generation_trans: "same_generation a b \<Longrightarrow> same_generation b c \<Longrightarrow> same_generation a c"
  by (simp add: same_generation_def)

lemma doc_score_cong:
  assumes "cs_TotalDocs s' = cs_TotalDocs s"
    and "\<And>t w x. fold (field_score fo s' r t w) defaultFieldConfigs x = fold (field_score fo s r t w) defaultFieldConfigs x"
  shows "doc_score fo s' D ts r = doc_score fo s D ts r"
proof -
  have "term_score fo s' D r t x = term_score fo s D r t x" for t x
    unfolding term_score_def assms ..
  then show ?thesis unfolding doc_score_def by (intro fold_cong ext) simp_all
qed

lemma doc_score_generation:
  assumes "same_generation s s'"
  shows "doc_score fo s' D ts r = doc_score fo s D ts r" "doc_matches fo s' D ts r = doc_matches fo s D ts r"
proof -
  have "field_score fo s' = field_score fo s"
    using avg_len_generation[OF assms] by (simp add: fun_eq_iff field_score_def split: option.split)
  then show "doc_score fo s' D ts r = doc_score fo s D ts r"
    by (intro doc_score_cong same_generation_simps(1)[OF assms]) simp
  show "doc_matches fo s' D ts r = doc_matches fo s D ts r" by (simp add: doc_matches_def same_generation_simps[OF assms])
qed

end
