(* ===== verification/Bm25Layout.thy ===== *)
theory Bm25Layout
  imports Bm25Rank
begin

text \<open>
  Which documents a merge keeps and their new ids: \<open>resolveMergeWinners\<close> and \<open>winsSlot\<close> of
  \<open>internal/searchengine/formats/bm25/format.go\<close>, \<open>resolveMergeLayout\<close> and \<open>acceptFor\<close> of
  \<open>merge_stream.go\<close>.

  Shown: one member per accepted external id, its last accepted copy, in the order of the inputs; the
  remap numbers exactly these copies, ascending, and marks every other document dropped.
\<close>

section \<open>Winners\<close>

type_synonym accept_filters = "(ExternalID \<Rightarrow> bool) option list"

definition acceptFor :: "accept_filters \<Rightarrow> nat \<Rightarrow> (ExternalID \<Rightarrow> bool) option" where
  "acceptFor accept i = (if i < length accept then accept ! i else None)"

text \<open>A \<open>mergeSlot\<close> is the pair of a segment's index and a document id in it.\<close>

type_synonym mergeSlot = "nat \<times> nat"

fun input_winners :: "mappedSegment \<Rightarrow> (ExternalID \<Rightarrow> bool) option \<Rightarrow> nat \<Rightarrow> nat list \<Rightarrow> (ExternalID, mergeSlot) gomap
    \<Rightarrow> (ExternalID, mergeSlot) gomap outcome" where
  "input_winners ms keep i [] winner = Ret winner"
| "input_winners ms keep i (oldID # ds) winner =
     bind_out (mapped_member ms oldID) (\<lambda>extID.
     input_winners ms keep i ds (if accepts keep extID then AList.update extID (i, oldID) winner else winner))"

fun winners_from :: "accept_filters \<Rightarrow> nat \<Rightarrow> mappedSegment list \<Rightarrow> (ExternalID, mergeSlot) gomap \<Rightarrow> (ExternalID, mergeSlot) gomap outcome" where
  "winners_from accept i [] winner = Ret winner"
| "winners_from accept i (ms # mss) winner =
     bind_out (input_winners ms (acceptFor accept i) i [0..<ms_docCount ms] winner) (winners_from accept (i + 1) mss)"

definition resolveMergeWinners :: "mappedSegment list \<Rightarrow> accept_filters \<Rightarrow> (ExternalID, mergeSlot) gomap outcome" where
  "resolveMergeWinners ins accept = winners_from accept 0 ins []"

definition winsSlot :: "(ExternalID, mergeSlot) gomap \<Rightarrow> ExternalID \<Rightarrow> nat \<Rightarrow> nat \<Rightarrow> bool" where
  "winsSlot winner extID segIdx docID = (case map_of winner extID of None \<Rightarrow> True | Some w \<Rightarrow> w = (segIdx, docID))"

section \<open>The layout\<close>

definition int32_of :: "nat \<Rightarrow> int" where
  "int32_of n = (int n + 2 ^ 31) mod 2 ^ 32 - 2 ^ 31"

fun input_layout :: "mappedSegment \<Rightarrow> (ExternalID \<Rightarrow> bool) option \<Rightarrow> (ExternalID, mergeSlot) gomap \<Rightarrow> nat \<Rightarrow> nat list \<Rightarrow> ExternalID list
    \<Rightarrow> (ExternalID list \<times> int list) outcome" where
  "input_layout ms keep winner i [] members = Ret (members, [])"
| "input_layout ms keep winner i (oldID # ds) members =
     bind_out (mapped_member ms oldID) (\<lambda>extID.
       if accepts keep extID \<and> winsSlot winner extID i oldID
       then bind_out (input_layout ms keep winner i ds (members @ [extID])) (\<lambda>(members', rm). Ret (members', int32_of (length members) # rm))
       else bind_out (input_layout ms keep winner i ds members) (\<lambda>(members', rm). Ret (members', - 1 # rm)))"

fun layout_from :: "accept_filters \<Rightarrow> (ExternalID, mergeSlot) gomap \<Rightarrow> nat \<Rightarrow> mappedSegment list \<Rightarrow> ExternalID list
    \<Rightarrow> (ExternalID list \<times> int list list) outcome" where
  "layout_from accept winner i [] members = Ret (members, [])"
| "layout_from accept winner i (ms # mss) members =
     bind_out (input_layout ms (acceptFor accept i) winner i [0..<ms_docCount ms] members) (\<lambda>(members', rm).
     bind_out (layout_from accept winner (i + 1) mss members') (\<lambda>(members'', rms). Ret (members'', rm # rms)))"

definition resolveMergeLayout :: "mappedSegment list \<Rightarrow> accept_filters \<Rightarrow> (ExternalID list \<times> int list list) outcome" where
  "resolveMergeLayout ins accept =
     bind_out (resolveMergeWinners ins accept) (\<lambda>winner. layout_from accept winner 0 ins [])"

section \<open>The surviving documents\<close>

text \<open>
  The documents of an input are any items \<open>'a\<close> with their external id \<open>key\<close>. \<open>survivors\<close>: the accepted
  items of all inputs, of those with the same id the last.
\<close>

fun last_per :: "('a \<Rightarrow> 'k) \<Rightarrow> 'a list \<Rightarrow> 'a list" where
  "last_per key [] = []"
| "last_per key (x # xs) = (if list_ex (\<lambda>y. key y = key x) xs then last_per key xs else x # last_per key xs)"

definition survivors :: "('a \<Rightarrow> ExternalID) \<Rightarrow> accept_filters \<Rightarrow> 'a list list \<Rightarrow> 'a list" where
  "survivors key accept xss =
     last_per key (concat (map (\<lambda>(i, xs). filter (\<lambda>x. accepts (acceptFor accept i) (key x)) xs) (enumerate 0 xss)))"

text \<open>The remap of a merge that keeps the items \<open>R\<close>: \<open>-1\<close> or the ids \<open>0, 1, \<dots>\<close> in order.\<close>

definition remaps :: "'a list list \<Rightarrow> 'a list \<Rightarrow> int list list \<Rightarrow> bool" where
  "remaps xss R remap \<longleftrightarrow> list_all2 (\<lambda>xs rm. length rm = length xs) xss remap
     \<and> list_all (list_all (\<lambda>n. - 1 \<le> n)) remap
     \<and> filter (\<lambda>(n, x). 0 \<le> n) (zip (concat remap) (concat xss)) = zip (map int [0..<length R]) R"

definition lists_items :: "('a \<Rightarrow> ExternalID) \<Rightarrow> 'a list \<Rightarrow> mappedSegment \<Rightarrow> bool" where
  "lists_items key xs ms \<longleftrightarrow> ms_docCount ms = length xs \<and> (\<forall>d < length xs. mapped_member ms d = Ret (key (xs ! d)))"

text \<open>The slots of an input and of all inputs, each with its item.\<close>

definition slots_in :: "nat \<Rightarrow> nat \<Rightarrow> 'a list \<Rightarrow> (mergeSlot \<times> 'a) list" where
  "slots_in i d xs = map (\<lambda>(d, x). ((i, d), x)) (enumerate d xs)"

definition slots_of :: "nat \<Rightarrow> 'a list list \<Rightarrow> (mergeSlot \<times> 'a) list" where
  "slots_of i xss = concat (map (\<lambda>(i, xs). slots_in i 0 xs) (enumerate i xss))"

abbreviation slot_ok :: "('a \<Rightarrow> ExternalID) \<Rightarrow> accept_filters \<Rightarrow> mergeSlot \<times> 'a \<Rightarrow> bool" where
  "slot_ok key accept e \<equiv> accepts (acceptFor accept (fst (fst e))) (key (snd e))"

abbreviation note_slot :: "('a \<Rightarrow> ExternalID) \<Rightarrow> mergeSlot \<times> 'a \<Rightarrow> (ExternalID, mergeSlot) gomap \<Rightarrow> (ExternalID, mergeSlot) gomap" where
  "note_slot key e \<equiv> AList.update (key (snd e)) (fst e)"

lemma slots_Cons: "slots_of i (xs # xss) = slots_in i 0 xs @ slots_of (Suc i) xss"
  by (simp add: slots_of_def)

lemma slots_in_Cons: "slots_in i d (x # xs) = ((i, d), x) # slots_in i (Suc d) xs"
  by (simp add: slots_in_def)

lemma upt_first: "[d..<d + length (x # xs)] = d # [Suc d..<Suc d + length xs]"
  using upt_conv_Cons[of d "d + length (x # xs)"] by simp

lemma input_winners_eq:
  assumes "\<forall>j < length xs. mapped_member ms (d + j) = Ret (key (xs ! j))"
  shows "input_winners ms (acceptFor accept i) i [d..<d + length xs] m
       = Ret (fold (note_slot key) (filter (slot_ok key accept) (slots_in i d xs)) m)"
  using assms
proof (induction xs arbitrary: d m)
  case (Cons x xs)
  have "mapped_member ms d = Ret (key x)" using Cons.prems[rule_format, of 0] by simp
  moreover have "\<forall>j < length xs. mapped_member ms (Suc d + j) = Ret (key (xs ! j))"
    using Cons.prems[rule_format, of "Suc _"] by simp
  moreover have "[d..<d + length (x # xs)] = d # [Suc d..<Suc d + length xs]" by (rule upt_first)
  ultimately show ?case using Cons.IH[of "Suc d"] by (simp add: slots_in_Cons)
qed (simp add: slots_in_def)

lemma winners_from_eq:
  assumes "list_all2 (lists_items key) xss ins"
  shows "winners_from accept i ins m = Ret (fold (note_slot key) (filter (slot_ok key accept) (slots_of i xss)) m)"
  using assms
proof (induction xss ins arbitrary: i m rule: list_all2_induct)
  case (Cons xs xss ms ins)
  then show ?case
    using input_winners_eq[of xs ms 0 key accept i m] by (simp add: lists_items_def slots_Cons)
qed (simp add: slots_of_def)

lemma map_of_noted: "map_of (fold (note_slot key) A m) x =
    (case map_of (rev (map (\<lambda>e. (key (snd e), fst e)) A)) x of None \<Rightarrow> map_of m x | Some s \<Rightarrow> Some s)"
proof (induction A arbitrary: m)
  case (Cons e A)
  show ?case by (simp add: Cons.IH update_conv' map_add_def split: option.split)
qed simp

lemma noted_None: "map_of (rev (map (\<lambda>e. (key (snd e), fst e)) A)) x = None \<longleftrightarrow> (\<forall>y \<in> set A. key (snd y) \<noteq> x)"
  unfolding map_of_eq_None_iff by (simp add: image_iff) metis

text \<open>The slots that win are the last of their id.\<close>

lemma winners_last:
  assumes "distinct (map fst A)"
  shows "filter (\<lambda>e. map_of (rev (map (\<lambda>e. (key (snd e), fst e)) A)) (key (snd e)) = Some (fst e)) A = last_per (key \<circ> snd) A"
  using assms
proof (induction A)
  case (Cons e A)
  let ?W = "\<lambda>A. map_of (rev (map (\<lambda>e. (key (snd e), fst e)) A))"
  have W: "?W (e # A) x = (case ?W A x of None \<Rightarrow> if x = key (snd e) then Some (fst e) else None | Some s \<Rightarrow> Some s)" for x
    by (simp add: map_add_def split: option.split)
  note dom = noted_None[of key A]
  have ran: "?W A x = Some s \<Longrightarrow> s \<in> set (map fst A)" for x s
    by (drule map_of_SomeD) auto
  have tl: "filter (\<lambda>y. ?W (e # A) (key (snd y)) = Some (fst y)) A = filter (\<lambda>y. ?W A (key (snd y)) = Some (fst y)) A"
  proof (rule filter_cong[OF refl])
    fix y assume "y \<in> set A"
    then have "?W A (key (snd y)) \<noteq> None" using dom by blast
    then show "(?W (e # A) (key (snd y)) = Some (fst y)) = (?W A (key (snd y)) = Some (fst y))" unfolding W by (auto split: option.split)
  qed
  have "?W (e # A) (key (snd e)) = Some (fst e) \<longleftrightarrow> \<not> list_ex (\<lambda>y. key (snd y) = key (snd e)) A"
  proof (cases "?W A (key (snd e))")
    case None
    then show ?thesis using dom[of "key (snd e)"] unfolding W by (simp add: list_ex_iff)
  next
    case (Some s)
    then have "s \<noteq> fst e" using ran[OF Some] Cons.prems by (metis distinct.simps(2) list.map(2))
    moreover have "\<exists>y \<in> set A. key (snd y) = key (snd e)" using dom[of "key (snd e)"] Some by auto
    ultimately show ?thesis using Some unfolding W by (simp add: list_ex_iff)
  qed
  then show ?case using Cons tl by simp
qed simp

lemma last_per_map: "map g (last_per (key \<circ> g) A) = last_per key (map g A)"
  by (induction A) (simp_all add: list_ex_iff)

section \<open>Numbering\<close>

fun number :: "('e \<Rightarrow> bool) \<Rightarrow> nat \<Rightarrow> 'e list \<Rightarrow> int list" where
  "number P k [] = []"
| "number P k (e # es) = (if P e then int k # number P (Suc k) es else - 1 # number P k es)"

lemma number_length [simp]: "length (number P k es) = length es"
  by (induction es arbitrary: k) simp_all

lemma number_append: "number P k (xs @ ys) = number P k xs @ number P (k + length (filter P xs)) ys"
  by (induction xs arbitrary: k) simp_all

lemma number_ge: "list_all (\<lambda>n. - 1 \<le> n) (number P k es)"
  by (induction es arbitrary: k) simp_all

lemma number_kept:
  "filter (\<lambda>(n, x). 0 \<le> n) (zip (number P k es) (map g es)) = zip (map int [k..<k + length (filter P es)]) (map g (filter P es))"
proof (induction es arbitrary: k)
  case (Cons e es)
  have "[k..<k + Suc n] = k # [Suc k..<Suc k + n]" for n by (simp add: upt_conv_Cons)
  then show ?case using Cons.IH[of "Suc k"] Cons.IH[of k] by simp
qed simp

lemma int32_of_id: "n < 2 ^ 31 \<Longrightarrow> int32_of n = int n"
  by (simp add: int32_of_def)

lemma input_layout_eq:
  assumes "\<forall>j < length xs. mapped_member ms (d + j) = Ret (key (xs ! j))"
    and "length members + length xs < 2 ^ 31"
    and "P = (\<lambda>e. slot_ok key accept e \<and> winsSlot winner (key (snd e)) (fst (fst e)) (snd (fst e)))"
  shows "input_layout ms (acceptFor accept i) winner i [d..<d + length xs] members
       = Ret (members @ map (key \<circ> snd) (filter P (slots_in i d xs)), number P (length members) (slots_in i d xs))"
  using assms(1,2)
proof (induction xs arbitrary: d members)
  case (Cons x xs)
  have "mapped_member ms d = Ret (key x)" using Cons.prems(1)[rule_format, of 0] by simp
  moreover have "\<forall>j < length xs. mapped_member ms (Suc d + j) = Ret (key (xs ! j))"
    using Cons.prems(1)[rule_format, of "Suc _"] by simp
  moreover have "[d..<d + length (x # xs)] = d # [Suc d..<Suc d + length xs]" by (rule upt_first)
  moreover have "int32_of (length members) = int (length members)" using Cons.prems(2) by (intro int32_of_id) simp
  ultimately show ?case
    using Cons.IH[of "Suc d" members] Cons.IH[of "Suc d" "members @ [key x]"] Cons.prems(2) by (simp add: slots_in_Cons assms(3))
qed (simp add: slots_in_def)

fun number_all :: "('e \<Rightarrow> bool) \<Rightarrow> nat \<Rightarrow> 'e list list \<Rightarrow> int list list" where
  "number_all P k [] = []"
| "number_all P k (es # ess) = number P k es # number_all P (k + length (filter P es)) ess"

lemma number_all_concat: "concat (number_all P k ess) = number P k (concat ess)"
  by (induction ess arbitrary: k) (simp_all add: number_append)

lemma layout_from_eq:
  assumes "list_all2 (lists_items key) xss ins"
    and "length members + length (concat xss) < 2 ^ 31"
    and "P = (\<lambda>e. slot_ok key accept e \<and> winsSlot winner (key (snd e)) (fst (fst e)) (snd (fst e)))"
  shows "layout_from accept winner i ins members
       = Ret (members @ map (key \<circ> snd) (filter P (slots_of i xss)),
              number_all P (length members) (map (\<lambda>(i, xs). slots_in i 0 xs) (enumerate i xss)))"
  using assms(1,2)
proof (induction xss ins arbitrary: i members rule: list_all2_induct)
  case (Cons xs xss ms ins)
  let ?m = "members @ map (key \<circ> snd) (filter P (slots_in i 0 xs))"
  have "input_layout ms (acceptFor accept i) winner i [0..<ms_docCount ms] members
      = Ret (?m, number P (length members) (slots_in i 0 xs))"
    using input_layout_eq[of xs ms 0 key members P accept winner i] Cons assms(3) by (simp add: lists_items_def)
  moreover have "length (filter P (slots_in i 0 xs)) \<le> length xs"
    by (rule order_trans[OF length_filter_le]) (simp add: slots_in_def)
  then have "length ?m + length (concat xss) < 2 ^ 31" using Cons.prems by simp
  then have "layout_from accept winner (Suc i) ins ?m = Ret (?m @ map (key \<circ> snd) (filter P (slots_of (Suc i) xss)),
      number_all P (length ?m) (map (\<lambda>(i, xs). slots_in i 0 xs) (enumerate (Suc i) xss)))" by (rule Cons.IH)
  ultimately show ?case by (simp add: slots_Cons)
qed (simp add: slots_of_def)

lemma slots_of_simps: "map snd (slots_of i xss) = concat xss" "distinct (map fst (slots_of i xss))"
  "e \<in> set (slots_of i xss) \<Longrightarrow> i \<le> fst (fst e)"
proof -
  have d: "distinct (map fst (slots_in i d xs))" for i d and xs :: "'a list"
  proof -
    have "map fst (slots_in i d xs) = map (Pair i) [d..<d + length xs]"
    proof (induction xs arbitrary: d)
      case (Cons x xs)
      then show ?case unfolding upt_first slots_in_Cons by simp
    qed (simp add: slots_in_def)
    then show ?thesis by (simp add: distinct_map inj_on_def)
  qed
  have s: "map snd (slots_in i d xs) = xs" for i d and xs :: "'a list"
    by (induction xs arbitrary: d) (simp_all add: slots_in_Cons, simp add: slots_in_def)
  have f: "e \<in> set (slots_in i d xs) \<Longrightarrow> fst (fst e) = i" for e i d and xs :: "'a list"
    by (auto simp: slots_in_def)
  have "map snd (slots_of i xss) = concat xss \<and> distinct (map fst (slots_of i xss)) \<and> (\<forall>e \<in> set (slots_of i xss). i \<le> fst (fst e))"
  proof (induction xss arbitrary: i)
    case (Cons xs xss)
    have "map fst (slots_in i 0 xs) @ map fst (slots_of (Suc i) xss) = map fst (slots_of i (xs # xss))" by (simp add: slots_Cons)
    moreover have "set (map fst (slots_in i 0 xs)) \<inter> set (map fst (slots_of (Suc i) xss)) = {}"
    proof -
      have "fst a \<noteq> fst b" if "a \<in> set (slots_in i 0 xs)" "b \<in> set (slots_of (Suc i) xss)" for a b
        using f[OF that(1)] bspec[OF conjunct2[OF conjunct2[OF Cons.IH[of "Suc i"]]] that(2)] by auto
      then show ?thesis by fastforce
    qed
    ultimately have "distinct (map fst (slots_of i (xs # xss)))" using d Cons.IH[of "Suc i"] by (metis distinct_append)
    moreover have "map snd (slots_of i (xs # xss)) = concat (xs # xss)" using s Cons.IH[of "Suc i"] by (simp add: slots_Cons)
    moreover have "\<forall>e \<in> set (slots_of i (xs # xss)). i \<le> fst (fst e)"
      unfolding slots_Cons set_append using f Cons.IH[of "Suc i"] by (metis Suc_leD Un_iff order_refl)
    ultimately show ?case by blast
  qed (simp add: slots_of_def)
  then show "map snd (slots_of i xss) = concat xss" "distinct (map fst (slots_of i xss))"
    "e \<in> set (slots_of i xss) \<Longrightarrow> i \<le> fst (fst e)" by blast+
qed

lemma accepted_slots:
  "map snd (filter (slot_ok key accept) (slots_of i xss)) =
     concat (map (\<lambda>(i, xs). filter (\<lambda>x. accepts (acceptFor accept i) (key x)) xs) (enumerate i xss))"
proof (induction xss arbitrary: i)
  case (Cons xs xss)
  have "map snd (filter (slot_ok key accept) (slots_in i d xs)) = filter (\<lambda>x. accepts (acceptFor accept i) (key x)) xs" for d
    by (induction xs arbitrary: d) (simp_all add: slots_in_def)
  then show ?case by (simp add: slots_Cons Cons.IH)
qed (simp add: slots_of_def)

lemma slots_lengths: "list_all2 (\<lambda>xs rm. length rm = length xs) xss (number_all P k (map (\<lambda>(i, xs). slots_in i 0 xs) (enumerate i xss)))"
  by (induction xss arbitrary: i k) (simp_all add: slots_in_def)

text \<open>
  A merge keeps one member per accepted external id. Over inputs that list their documents, the
  layout's members are the ids of the surviving documents, pairwise distinct, in the order of the
  inputs, of the accepted copies of an id the last; and its remap gives these copies, and no other
  document, the ids \<open>0, 1, \<dots>\<close> in that order.
\<close>

lemma resolveMergeLayout_exact:
  assumes "list_all2 (lists_items key) xss ins" "length (concat xss) < 2 ^ 31"
  shows "\<exists>remap. resolveMergeLayout ins accept = Ret (map key (survivors key accept xss), remap)
    \<and> remaps xss (survivors key accept xss) remap \<and> distinct (map key (survivors key accept xss))"
proof -
  let ?S = "slots_of 0 xss" and ?W = "\<lambda>A. map_of (rev (map (\<lambda>e. (key (snd e), fst e)) A))"
  define A where "A = filter (slot_ok key accept) ?S"
  define winner where "winner = fold (note_slot key) A []"
  define P where "P = (\<lambda>e. slot_ok key accept e \<and> winsSlot winner (key (snd e)) (fst (fst e)) (snd (fst e)))"
  have "distinct (map fst ?S)" by (rule slots_of_simps(2))
  then have dA: "distinct (map fst A)" by (simp add: A_def distinct_map_filter)
  have win: "winsSlot winner (key (snd e)) (fst (fst e)) (snd (fst e)) \<longleftrightarrow> ?W A (key (snd e)) = Some (fst e)" if "e \<in> set A" for e
  proof -
    have "?W A (key (snd e)) \<noteq> None" unfolding noted_None using that by blast
    then show ?thesis by (auto simp: winsSlot_def winner_def map_of_noted split: option.split)
  qed
  have "filter P ?S = filter (\<lambda>e. winsSlot winner (key (snd e)) (fst (fst e)) (snd (fst e))) A" by (simp add: P_def A_def conj_commute)
  also have "\<dots> = filter (\<lambda>e. ?W A (key (snd e)) = Some (fst e)) A" using win by (intro filter_cong) auto
  also have "\<dots> = last_per (key \<circ> snd) A" by (rule winners_last[OF dA])
  finally have kept: "map snd (filter P ?S) = survivors key accept xss"
    using last_per_map[of snd key A] by (simp add: survivors_def A_def accepted_slots)
  let ?r = "number_all P 0 (map (\<lambda>(i, xs). slots_in i 0 xs) (enumerate 0 xss))"
  have cc: "concat ?r = number P 0 ?S" by (simp add: number_all_concat slots_of_def)
  have lay: "resolveMergeLayout ins accept = Ret (map key (survivors key accept xss), ?r)"
    using layout_from_eq[OF assms(1), of "[]" P accept winner 0] assms(2) winners_from_eq[OF assms(1), of accept 0 "[]"] P_def
    by (simp add: resolveMergeLayout_def resolveMergeWinners_def winner_def A_def kept[symmetric])
  have "filter (\<lambda>(n, x). 0 \<le> n) (zip (concat ?r) (concat xss)) = zip (map int [0..<length (survivors key accept xss)]) (survivors key accept xss)"
    using number_kept[of P 0 ?S snd] unfolding cc slots_of_simps(1) kept by (simp add: kept[symmetric])
  moreover have "list_all (\<lambda>n. - 1 \<le> n) (concat ?r)" unfolding cc by (rule number_ge)
  then have "list_all (list_all (\<lambda>n. - 1 \<le> n)) ?r" by (auto simp: list_all_iff)
  ultimately have "remaps xss (survivors key accept xss) ?r" using slots_lengths by (simp add: remaps_def)
  moreover have "distinct (map key (last_per key zs))" for zs
  proof (induction zs)
    case (Cons z zs)
    have "set (last_per key zs) \<subseteq> set zs" by (induction zs) auto
    then show ?case using Cons by (auto simp: list_ex_iff)
  qed simp
  ultimately show ?thesis using lay by (auto simp: survivors_def)
qed

end
