(* ===== verification/Bm25Merge.thy ===== *)
theory Bm25Merge
  imports Bm25Walk Bm25Writer Bm25Layout
begin

text \<open>
  \<open>internal/searchengine/formats/bm25/merge_stream.go\<close> and \<open>merge_emit.go\<close>: the plan of a merged
  segment's prefix, the emitter that turns the walk's calls into appends and patches, the structural
  check before the header is stamped, and \<open>streamMergeToFile\<close> with \<open>Format.MergeTo\<close> around it.

  The plan's slices with one entry per field are one list of records. Offsets and counts are
  naturals, as in the encoder. The emitter's per-field slices are lists; \<open>termCount[field]++\<close> of the
  counting pass panics for a field the five defaults do not have, so no later step is reached with one.
\<close>

section \<open>The plan of the prefix\<close>

record mergeDict =
  md_dictOff :: nat
  md_entriesOff :: nat
  md_slotsOff :: nat
  md_slotCount :: nat
  md_firstTermsOff :: nat
  md_blockIdxOff :: nat

record mergePlan =
  mp_kind :: byte
  mp_members :: "string list"
  mp_memberOffsetsOff :: nat
  mp_memberOff :: "nat list"
  mp_fieldTableOff :: nat
  mp_nameOff :: "nat list"
  mp_docLengthsOff :: "nat list"
  mp_dicts :: "mergeDict list"
  mp_termCount :: "nat list"
  mp_dfDictOff :: nat
  mp_dfEntriesOff :: nat
  mp_dfCount :: nat
  mp_prefixEnd :: nat

definition planFieldDict :: "byte \<Rightarrow> nat \<Rightarrow> nat \<Rightarrow> mergeDict \<times> nat" where
  "planFieldDict kind n off =
     (let dictOff = align off 8;
          d = \<lparr>md_dictOff = dictOff, md_entriesOff = 0, md_slotsOff = 0, md_slotCount = 0, md_firstTermsOff = 0, md_blockIdxOff = 0\<rparr>
      in if kind = dictBlocked then
           let blocks = blockCountOf n; firstTermsOff = dictOff + 16; blockIdxOff = align (firstTermsOff + 8 * blocks) 4
           in (d\<lparr>md_firstTermsOff := firstTermsOff, md_blockIdxOff := blockIdxOff\<rparr>, blockIdxOff + 4 * blocks)
         else if kind = dictHash then
           let entriesOff = dictOff + 16; slotCount = hashSlotCount n; slotsOff = align (entriesOff + v2FlatEntrySize * n) 8
           in (d\<lparr>md_entriesOff := entriesOff, md_slotCount := slotCount, md_slotsOff := slotsOff\<rparr>, slotsOff + v2HashSlotSize * slotCount)
         else
           let entriesOff = dictOff + 8 in (d\<lparr>md_entriesOff := entriesOff\<rparr>, entriesOff + v2FlatEntrySize * n))"

fun plan_dicts :: "byte \<Rightarrow> nat list \<Rightarrow> nat \<Rightarrow> mergeDict list \<times> nat" where
  "plan_dicts kind [] off = ([], off)"
| "plan_dicts kind (n # ns) off =
     (let (d, off1) = planFieldDict kind n off; (ds, end) = plan_dicts kind ns off1 in (d # ds, end))"

definition planMerge :: "byte \<Rightarrow> string list \<Rightarrow> nat list \<Rightarrow> nat \<Rightarrow> mergePlan" where
  "planMerge kind members termCount dfCount =
     (let memberOffsetsOff = align v2HeaderSize 4;
          (memberOff, off1) = place 1 (memberOffsetsOff + 4 * (length members + 1)) (map length members);
          fieldTableOff = align off1 8;
          (nameOff, off2) = place 1 (fieldTableOff + v2FieldEntrySize * length defaultFieldConfigs)
             (map (\<lambda>cfg. length (fc_Name cfg)) defaultFieldConfigs);
          (docLengthsOff, off3) = place 4 off2 (map (\<lambda>_. 4 * length members) defaultFieldConfigs);
          (dicts, off4) = plan_dicts kind termCount off3;
          dfDictOff = align off4 8;
          dfEntriesOff = align (dfDictOff + 8) 8
      in \<lparr>mp_kind = kind, mp_members = members, mp_memberOffsetsOff = memberOffsetsOff, mp_memberOff = memberOff @ [off1],
          mp_fieldTableOff = fieldTableOff, mp_nameOff = nameOff, mp_docLengthsOff = docLengthsOff, mp_dicts = dicts,
          mp_termCount = termCount, mp_dfDictOff = dfDictOff, mp_dfEntriesOff = dfEntriesOff, mp_dfCount = dfCount,
          mp_prefixEnd = align (dfEntriesOff + v2DocFreqRowSize * dfCount) 8\<rparr>)"

section \<open>The document lengths\<close>

definition fieldSlot :: "string \<Rightarrow> nat option" where
  "fieldSlot name = find (\<lambda>i. fc_Name (defaultFieldConfigs ! i) = name) [0..<length defaultFieldConfigs]"

definition copy_lengths :: "int list \<Rightarrow> nat list \<Rightarrow> nat list \<Rightarrow> nat list" where
  "copy_lengths rm lens out =
     fold (\<lambda>(oldID, newID) out. if newID \<ge> 0 \<and> oldID < length lens then out[nat newID := lens ! oldID] else out) (enumerate 0 rm) out"

definition copy_field :: "int list \<Rightarrow> mappedField \<Rightarrow> nat list list \<Rightarrow> nat list list" where
  "copy_field rm mf out =
     (case fieldSlot (fc_Name (mf_config mf)) of
        None \<Rightarrow> out
      | Some slot \<Rightarrow> out[slot := copy_lengths rm (mf_lengths mf) (out ! slot)])"

definition mergeDocLengths :: "mergePlan \<Rightarrow> mappedSegment list \<Rightarrow> int list list \<Rightarrow> nat list list" where
  "mergeDocLengths p ins remap =
     fold (\<lambda>(ms, rm). fold (copy_field rm) (ms_fields ms)) (zip ins remap)
       (replicate (length defaultFieldConfigs) (replicate (length (mp_members p)) 0))"

section \<open>Writing the prefix\<close>

abbreviation patch16 :: "nat \<Rightarrow> nat \<Rightarrow> wcall" where "patch16 off v \<equiv> Patch off (put_le 2 v)"
abbreviation patch32 :: "nat \<Rightarrow> nat \<Rightarrow> wcall" where "patch32 off v \<equiv> Patch off (put_le 4 v)"
abbreviation patch64 :: "nat \<Rightarrow> nat \<Rightarrow> wcall" where "patch64 off v \<equiv> Patch off (put_le 8 v)"
abbreviation patchStr :: "nat \<Rightarrow> string \<Rightarrow> wcall" where "patchStr off s \<equiv> Patch off (bytes_of s)"

definition empty_slots :: "nat \<Rightarrow> byte list" where
  "empty_slots slots = concat (replicate slots (put_le 4 0 @ put_le 4 hashEmptySlot))"

definition dict_header :: "mergePlan \<Rightarrow> nat \<Rightarrow> wcall list" where
  "dict_header p i =
     (let n = mp_termCount p ! i; d = mp_dicts p ! i
      in [patch32 (md_dictOff d) n] @
         (if mp_kind p = dictBlocked then
            [patch32 (md_dictOff d + 4) (blockCountOf n), patch32 (md_dictOff d + 8) (md_firstTermsOff d),
             patch32 (md_dictOff d + 12) (md_blockIdxOff d)]
          else if mp_kind p = dictHash then
            [patch32 (md_dictOff d + 4) (md_entriesOff d), patch32 (md_dictOff d + 8) (md_slotsOff d),
             patch32 (md_dictOff d + 12) (md_slotCount d), Patch (md_slotsOff d) (empty_slots (md_slotCount d))]
          else [patch32 (md_dictOff d + 4) (md_entriesOff d)]))"

definition header_bytes :: "mergePlan \<Rightarrow> byte list" where
  "header_bytes p =
     [serialVersion, mp_kind p] @ put_le 2 (length defaultFieldConfigs) @ put_le 4 (length (mp_members p))
     @ put_le 4 (mp_memberOffsetsOff p) @ put_le 4 (mp_memberOff p ! 0) @ put_le 4 (mp_fieldTableOff p) @ put_le 4 (mp_dfDictOff p)
     @ put_le 4 0 @ put_le 4 0"

definition prefix_calls :: "mergePlan \<Rightarrow> nat list list \<Rightarrow> wcall list" where
  "prefix_calls p lengths =
     [Patch 0 (header_bytes p)]
     @ map (\<lambda>i. patch32 (mp_memberOffsetsOff p + 4 * i) (mp_memberOff p ! i)) [0..<length (mp_memberOff p)]
     @ map (\<lambda>i. patchStr (mp_memberOff p ! i) (mp_members p ! i)) [0..<length (mp_members p)]
     @ concat (map (\<lambda>i.
         let cfg = defaultFieldConfigs ! i; e = mp_fieldTableOff p + v2FieldEntrySize * i
         in [patch32 e (mp_nameOff p ! i), patch16 (e + 4) (length (fc_Name cfg)), patch64 (e + 8) (unat (fc_Boost cfg)),
             patch64 (e + 16) (unat (fc_B cfg)), patch32 (e + 32) (mp_docLengthsOff p ! i), patch32 (e + 36) (md_dictOff (mp_dicts p ! i)),
             patchStr (mp_nameOff p ! i) (fc_Name cfg), Patch (mp_docLengthsOff p ! i) (concat (map (put_le 4) (lengths ! i))),
             patch64 (e + 24) (sum_list (lengths ! i))]
            @ dict_header p i) [0..<length defaultFieldConfigs])
     @ [patch32 (mp_dfDictOff p) (mp_dfCount p), patch32 (mp_dfDictOff p + 4) (mp_dfEntriesOff p)]"

definition writeMergePrefix :: "(nat \<Rightarrow> engine_error option) \<Rightarrow> mergeWriter \<Rightarrow> mergePlan \<Rightarrow> mappedSegment list \<Rightarrow> int list list \<Rightarrow> mergeWriter" where
  "writeMergePrefix io w p ins remap = fold (run_call io) (prefix_calls p (mergeDocLengths p ins remap)) w"

section \<open>The emitter\<close>

record blockRef =
  br_field :: nat
  br_block :: nat
  br_at :: nat
  br_size :: nat

text \<open>\<open>dr_field\<close> is \<open>-1\<close> for the document-frequency dictionary.\<close>

record dictRef =
  dr_off :: nat
  dr_end :: nat
  dr_field :: int
  dr_term :: string

record mergeEmitter =
  e_w :: mergeWriter
  e_next :: "nat list"
  e_dfNext :: nat
  e_payload :: "byte list list"
  e_prev :: "string list"
  e_inBlock :: "nat list"
  e_hashes :: "64 word list list"
  e_furthest :: dictRef
  e_misaligned :: "dictRef option"
  e_blockOutside :: "blockRef option"
  e_blockFurthest :: blockRef
  e_blocksNoted :: nat

definition newMergeEmitter :: "mergeWriter \<Rightarrow> mergePlan \<Rightarrow> mergeEmitter" where
  "newMergeEmitter w p =
     (let nf = length defaultFieldConfigs; blocked = (mp_kind p = dictBlocked)
      in \<lparr>e_w = w, e_next = replicate nf 0, e_dfNext = 0, e_payload = (if blocked then replicate nf [] else []),
          e_prev = (if blocked then replicate nf [] else []), e_inBlock = (if blocked then replicate nf 0 else []),
          e_hashes = (if mp_kind p = dictHash then replicate nf [] else []),
          e_furthest = \<lparr>dr_off = 0, dr_end = 0, dr_field = 0, dr_term = []\<rparr>, e_misaligned = None, e_blockOutside = None,
          e_blockFurthest = \<lparr>br_field = 0, br_block = 0, br_at = 0, br_size = 0\<rparr>, e_blocksNoted = 0\<rparr>)"

definition noteSpan :: "nat \<Rightarrow> nat \<Rightarrow> int \<Rightarrow> string \<Rightarrow> mergeEmitter \<Rightarrow> mergeEmitter" where
  "noteSpan off len fld term e =
     (if len = 0 then e
      else if off + len > dr_end (e_furthest e)
      then e\<lparr>e_furthest := \<lparr>dr_off = off, dr_end = off + len, dr_field = fld, dr_term = term\<rparr>\<rparr> else e)"

definition noteRun :: "nat \<Rightarrow> nat \<Rightarrow> int \<Rightarrow> string \<Rightarrow> mergeEmitter \<Rightarrow> mergeEmitter" where
  "noteRun off cnt fld term e =
     (if cnt = 0 then e
      else let e1 = noteSpan off (6 * cnt) fld term e
           in if off mod 4 \<noteq> 0 \<and> e_misaligned e1 = None
              then e1\<lparr>e_misaligned := Some \<lparr>dr_off = off, dr_end = off + 6 * cnt, dr_field = fld, dr_term = term\<rparr>\<rparr> else e1)"

definition noteBlock :: "mergePlan \<Rightarrow> nat \<Rightarrow> nat \<Rightarrow> nat \<Rightarrow> nat \<Rightarrow> mergeEmitter \<Rightarrow> mergeEmitter" where
  "noteBlock p fld block at len e =
     (let r = \<lparr>br_field = fld, br_block = block, br_at = at, br_size = len\<rparr>;
          e1 = e\<lparr>e_blocksNoted := e_blocksNoted e + 1\<rparr>;
          e2 = (if at < mp_prefixEnd p \<and> e_blockOutside e1 = None then e1\<lparr>e_blockOutside := Some r\<rparr> else e1)
      in if at + len > br_at (e_blockFurthest e2) + br_size (e_blockFurthest e2) then e2\<lparr>e_blockFurthest := r\<rparr> else e2)"

definition call_w :: "(nat \<Rightarrow> engine_error option) \<Rightarrow> wcall list \<Rightarrow> mergeEmitter \<Rightarrow> mergeEmitter" where
  "call_w io cs e = e\<lparr>e_w := fold (run_call io) cs (e_w e)\<rparr>"

definition append_w :: "(nat \<Rightarrow> engine_error option) \<Rightarrow> byte list \<Rightarrow> nat \<Rightarrow> mergeEmitter \<Rightarrow> mergeEmitter \<times> nat" where
  "append_w io b alignTo e = (let (w, at) = appendAligned io b alignTo (e_w e) in (e\<lparr>e_w := w\<rparr>, at))"

definition posting_bytes :: "(nat \<times> nat) list \<Rightarrow> byte list" where
  "posting_bytes run = concat (map (\<lambda>(d, tf). put_le 4 d) run) @ concat (map (\<lambda>(d, tf). put_le 2 tf) run)"

definition closeBlock :: "(nat \<Rightarrow> engine_error option) \<Rightarrow> mergePlan \<Rightarrow> nat \<Rightarrow> mergeEmitter \<Rightarrow> mergeEmitter" where
  "closeBlock io p fld e =
     (let block = (e_next e ! fld - 1) div blockedBlockTerms;
          (e1, at) = append_w io (e_payload e ! fld) 1 e;
          e2 = call_w io [patch32 (md_blockIdxOff (mp_dicts p ! fld) + 4 * block) at] e1;
          e3 = noteBlock p fld block at (length (e_payload e2 ! fld)) e2
      in e3\<lparr>e_inBlock := (e_inBlock e3)[fld := 0]\<rparr>)"

definition open_entry :: "(nat \<Rightarrow> engine_error option) \<Rightarrow> mergePlan \<Rightarrow> string \<Rightarrow> nat \<Rightarrow> nat \<Rightarrow> nat \<Rightarrow> mergeEmitter \<Rightarrow> mergeEmitter" where
  "open_entry io p term fld postOff cnt e =
     (let block = e_next e ! fld div blockedBlockTerms;
          (e1, termOff) = append_w io (bytes_of term) 1 e;
          e2 = noteSpan termOff (length term) (int fld) term e1;
          row = md_firstTermsOff (mp_dicts p ! fld) + 8 * block;
          e3 = call_w io [patch32 row termOff, patch32 (row + 4) (length term)] e2
      in e3\<lparr>e_payload := (e_payload e3)[fld := put_le 4 postOff @ put_le 4 cnt]\<rparr>)"

definition coded_entry :: "string \<Rightarrow> nat \<Rightarrow> nat \<Rightarrow> nat \<Rightarrow> mergeEmitter \<Rightarrow> mergeEmitter" where
  "coded_entry term fld postOff cnt e =
     (let shared = sharedPrefixLen (e_prev e ! fld) term
      in e\<lparr>e_payload := (e_payload e)[fld := e_payload e ! fld @ put_le 2 shared @ put_le 2 (length term - shared)
             @ bytes_of (drop shared term) @ put_le 4 postOff @ put_le 4 cnt]\<rparr>)"

definition appendBlocked :: "(nat \<Rightarrow> engine_error option) \<Rightarrow> mergePlan \<Rightarrow> string \<Rightarrow> nat \<Rightarrow> nat \<Rightarrow> nat \<Rightarrow> mergeEmitter \<Rightarrow> mergeEmitter" where
  "appendBlocked io p term fld postOff cnt e =
     (let e1 = (if e_inBlock e ! fld = 0 then open_entry io p term fld postOff cnt e else coded_entry term fld postOff cnt e);
          e2 = e1\<lparr>e_prev := (e_prev e1)[fld := term], e_next := (e_next e1)[fld := e_next e1 ! fld + 1],
                  e_inBlock := (e_inBlock e1)[fld := e_inBlock e1 ! fld + 1]\<rparr>
      in if e_inBlock e2 ! fld = blockedBlockTerms then closeBlock io p fld e2 else e2)"

definition emit_field :: "(nat \<Rightarrow> engine_error option) \<Rightarrow> mergePlan \<Rightarrow> string \<Rightarrow> nat \<Rightarrow> (nat \<times> nat) list \<Rightarrow> mergeEmitter \<Rightarrow> mergeEmitter" where
  "emit_field io p term fld run e =
     (let (e1, postOff) = append_w io (posting_bytes run) 4 e;
          e2 = noteRun postOff (length run) (int fld) term e1
      in if mp_kind p = dictBlocked then appendBlocked io p term fld postOff (length run) e2
         else let (e3, termOff) = append_w io (bytes_of term) 1 e2;
                  e4 = noteSpan termOff (length term) (int fld) term e3;
                  i = e_next e4 ! fld; row = md_entriesOff (mp_dicts p ! fld) + v2FlatEntrySize * i;
                  e5 = call_w io [patch32 row termOff, patch32 (row + 4) (length term), patch32 (row + 8) postOff,
                                  patch32 (row + 12) (length run)] e4;
                  e6 = (if mp_kind p = dictHash then e5\<lparr>e_hashes := (e_hashes e5)[fld := e_hashes e5 ! fld @ [termHash term]]\<rparr> else e5)
              in e6\<lparr>e_next := (e_next e6)[fld := i + 1]\<rparr>)"

definition emit_term :: "(nat \<Rightarrow> engine_error option) \<Rightarrow> mergePlan \<Rightarrow> string \<Rightarrow> int \<Rightarrow> mergeEmitter \<Rightarrow> mergeEmitter" where
  "emit_term io p term df e =
     (let (e1, termOff) = append_w io (bytes_of term) 1 e;
          e2 = noteSpan termOff (length term) (- 1) term e1;
          row = mp_dfEntriesOff p + v2DocFreqRowSize * e_dfNext e2;
          e3 = call_w io [patch32 row termOff, patch32 (row + 4) (length term), patch64 (row + 8) (u64_of_int df)] e2
      in e3\<lparr>e_dfNext := e_dfNext e3 + 1\<rparr>)"

fun emit :: "(nat \<Rightarrow> engine_error option) \<Rightarrow> mergePlan \<Rightarrow> merge_event \<Rightarrow> mergeEmitter \<Rightarrow> mergeEmitter" where
  "emit io p (OnField term fld run) e = emit_field io p term fld run e"
| "emit io p (OnTerm term df) e = emit_term io p term df e"

text \<open>The accelerator of one field, filled in ascending term order; the probe ends because the table
  has at least twice as many slots as terms.\<close>

fun fill_hashes :: "64 word list \<Rightarrow> nat \<Rightarrow> slot_table \<Rightarrow> slot_table option" where
  "fill_hashes [] i table = Some table"
| "fill_hashes (h # hs) i table =
     (case place_slot (length table) table (home_slot (length table) h) (fingerprint h, i) of
        None \<Rightarrow> None
      | Some table \<Rightarrow> fill_hashes hs (i + 1) table)"

definition table_bytes :: "slot_table \<Rightarrow> byte list" where
  "table_bytes table = concat (map (\<lambda>(fp, idx). put_le 4 fp @ put_le 4 idx) table)"

definition slot_calls :: "mergePlan \<Rightarrow> nat \<Rightarrow> 64 word list \<Rightarrow> wcall list" where
  "slot_calls p fld hs =
     (let slots = md_slotCount (mp_dicts p ! fld)
      in if slots = 0 then []
         else case fill_hashes hs 0 (replicate slots (0, hashEmptySlot)) of
                None \<Rightarrow> []
              | Some table \<Rightarrow> [Patch (md_slotsOff (mp_dicts p ! fld)) (table_bytes table)])"

definition flushBlocks :: "(nat \<Rightarrow> engine_error option) \<Rightarrow> mergePlan \<Rightarrow> mergeEmitter \<Rightarrow> mergeEmitter" where
  "flushBlocks io p e =
     (if mp_kind p = dictBlocked then
        fold (\<lambda>fld e. if e_inBlock e ! fld > 0 then closeBlock io p fld e else e) [0..<length (e_inBlock e)] e
      else if mp_kind p = dictHash then
        call_w io (concat (map (\<lambda>fld. slot_calls p fld (e_hashes e ! fld)) [0..<length (e_hashes e)])) e
      else e)"

definition verifyWithin :: "mergePlan \<Rightarrow> nat \<Rightarrow> mergeEmitter \<Rightarrow> engine_error option" where
  "verifyWithin p blobLen e =
     (if e_misaligned e \<noteq> None then Some (ErrText ''bm25 merge: posting run is not 4-aligned'')
      else if e_blockOutside e \<noteq> None then Some (ErrText ''bm25 merge: block-index entry below the fixed prefix'')
      else if br_at (e_blockFurthest e) + br_size (e_blockFurthest e) > blobLen then Some (ErrText ''bm25 merge: block payload past the segment'')
      else if dr_end (e_furthest e) > blobLen then Some (ErrText ''bm25 merge: dictionary row past the segment'')
      else None)"

section \<open>The merge\<close>

text \<open>The counting pass: its callbacks up to where the walk ends, then the walk's own outcome.\<close>

fun count_events :: "merge_event list \<Rightarrow> nat list \<Rightarrow> nat \<Rightarrow> (nat list \<times> nat) outcome" where
  "count_events [] termCount dfCount = Ret (termCount, dfCount)"
| "count_events (OnField term fld run # evs) termCount dfCount =
     (if fld < length termCount then count_events evs (termCount[fld := termCount ! fld + 1]) dfCount
      else Panic ''index out of range'')"
| "count_events (OnTerm term df # evs) termCount dfCount = count_events evs termCount (dfCount + 1)"

definition stream_body :: "(nat \<Rightarrow> engine_error option) \<Rightarrow> byte list \<Rightarrow> mappedSegment list \<Rightarrow> accept_filters \<Rightarrow> byte
    \<Rightarrow> (byte list \<times> nat) outcome" where
  "stream_body io f ins accept kind =
     bind_out (resolveMergeLayout ins accept) (\<lambda>(members, remap).
     let (evs, walked) = mergeWalk ins remap
     in bind_out (count_events evs (replicate (length defaultFieldConfigs) 0) 0) (\<lambda>(termCount, dfCount).
        bind_out walked (\<lambda>_.
        let p = planMerge kind members termCount dfCount;
            w = writeMergePrefix io (newMergeWriter f (mp_prefixEnd p)) p ins remap;
            (evs, walked) = mergeWalk ins remap;
            e = fold (emit io p) evs (newMergeEmitter w p)
        in bind_out walked (\<lambda>_.
           let e = flushBlocks io p e; w = e_w e
           in case w_err w of
                Some err \<Rightarrow> Fail err
              | None \<Rightarrow>
                  if w_tail w > v2MaxBlobBytes then Fail (ErrText ''bm25 merge: merged segment past the ceiling'')
                  else case verifyWithin p (w_tail w) e of
                         Some err \<Rightarrow> Fail err
                       | None \<Rightarrow>
                           let w = flushAll io (run_call io (patch32 24 (w_tail w)) w)
                           in case w_err w of Some err \<Rightarrow> Fail err | None \<Rightarrow> Ret (w_f w, w_tail w)))))"

text \<open>The outcome carries the sink's file with the length that is reported.\<close>

definition streamMergeToFile :: "(nat \<Rightarrow> engine_error option) \<Rightarrow> byte list \<Rightarrow> mappedSegment list \<Rightarrow> accept_filters \<Rightarrow> byte
    \<Rightarrow> (byte list \<times> nat) outcome" where
  "streamMergeToFile io f ins accept kind = catchCorrupt [] (stream_body io f ins accept kind)"

definition MergeTo :: "(nat \<Rightarrow> engine_error option) \<Rightarrow> byte list \<Rightarrow> mappedSegment list \<Rightarrow> accept_filters \<Rightarrow> (byte list \<times> nat) outcome" where
  "MergeTo io dst ins accept =
     (if defaultDictKind > dictHash then Fail (ErrText ''bm25 merge: unknown dictionary kind'')
      else streamMergeToFile io dst ins accept defaultDictKind)"

end
