(* ===== verification/Bm25Format.thy ===== *)
theory Bm25Format
  imports Bm25Rank
begin

text \<open>
  \<open>internal/searchengine/formats/bm25/format.go\<close>: the format's \<open>Name\<close>, \<open>Build\<close>, \<open>Decode\<close> and publication
  of an accumulator, composed out of the tokenizer, the builder, the encoder and the mapped reader.
  \<open>numWorkers\<close> is the machine's CPU count, an argument. A token longer than 65535 bytes does not fit the
  layout's length field and is not refused by the code; \<open>results_fit\<close> is the domain on which a
  built segment answers for its documents.

  Shown: \<open>Build\<close> gives a segment sealed over its documents, or refuses a layout past 32-bit offsets.
\<close>

section \<open>The format's operations\<close>

definition formatName :: string where
  "formatName = ''bm25v2''"

definition publishSegment :: "bm25Segment \<Rightarrow> mappedSegment outcome" where
  "publishSegment acc = bind_out (encodeSegmentV2 acc defaultDictKind) openSegmentV2"

definition Build :: "unicode_tables \<Rightarrow> int \<Rightarrow> Document list \<Rightarrow> BuildReport \<times> mappedSegment outcome" where
  "Build u numWorkers docs =
     (let (results, degraded) = tokenizeDocsParallel u docs numWorkers
      in (degraded, publishSegment (buildSegment results)))"

definition Decode :: "byte list \<Rightarrow> mappedSegment outcome" where
  "Decode blob = (case openSegmentV2 blob of Fail e \<Rightarrow> Fail (Wrap ''bm25 decode'' e) | r \<Rightarrow> r)"

section \<open>The documents the layout can hold\<close>

definition results_fit :: "docFieldTokens list \<Rightarrow> bool" where
  "results_fit rs \<longleftrightarrow> length rs < 2 ^ 31
     \<and> list_all (\<lambda>r. list_all (\<lambda>cfg. list_all (\<lambda>(t, n). length t < 65536 \<and> 0 \<le> n) (field_tokens (fc_Name cfg) r)
          \<and> doc_len cfg r < 2 ^ 32) defaultFieldConfigs) rs"

lemma spec_postings_ne: "spec_postings name t rs \<noteq> [] \<Longrightarrow> \<exists>r \<in> set rs. map_of (field_tokens name r) t \<noteq> None"
  by (force simp: spec_postings_def spec_posting_clamp set_zip split: option.splits)

lemma default_name_short: "cfg \<in> set defaultFieldConfigs \<Longrightarrow> length (fc_Name cfg) < 2 ^ 16"
  by (auto simp: defaultFieldConfigs_def)

lemma sum_list_between:
  "list_all (\<lambda>x. 0 \<le> x \<and> x < B) xs \<Longrightarrow> 0 \<le> sum_list xs \<and> sum_list xs \<le> int (length xs) * (B :: int)"
  by (induction xs) (auto simp: algebra_simps)

lemma field_spec_wf:
  assumes "field_spec rs cfg fd" "results_fit rs" "cfg \<in> set defaultFieldConfigs"
  shows "field_wf (length rs) fd"
proof -
  have fit: "list_all (\<lambda>(t, n). length t < 65536 \<and> 0 \<le> n) (field_tokens (fc_Name cfg) r)" "doc_len cfg r < 2 ^ 32" if "r \<in> set rs" for r
    using assms(2,3) that by (auto simp: results_fit_def list_all_iff)
  have "length t < 65536" if m: "(t, ps) \<in> set (fd_postings fd)" for t ps
  proof -
    have "map_of (fd_postings fd) t \<noteq> None" using m by (metis map_of_eq_None_iff fst_conv image_eqI)
    then have "spec_postings (fc_Name cfg) t rs \<noteq> []" using assms(1) by (auto simp: field_spec_def)
    then obtain r where "r \<in> set rs" "map_of (field_tokens (fc_Name cfg) r) t \<noteq> None" using spec_postings_ne by blast
    then show ?thesis using fit(1)[of r] by (auto simp: list_all_iff dest!: map_of_SomeD)
  qed
  moreover have l: "fd_docLengths fd = map (doc_len cfg) rs" using assms(1) by (simp add: field_spec_def doc_len_def)
  have "0 \<le> doc_len cfg r" if "r \<in> set rs" for r
    using fit(1)[OF that] by (fastforce simp: doc_len_def list_all_iff intro!: sum_list_nonneg)
  then have b: "list_all (\<lambda>x. 0 \<le> x \<and> x < 2 ^ 32) (fd_docLengths fd)" using fit(2) by (auto simp: l list_all_iff)
  have "int (length rs) * 2 ^ 32 < 2 ^ 63" using assms(2) by (simp add: results_fit_def)
  then have "- (2 ^ 63) \<le> fd_totalTokens fd \<and> fd_totalTokens fd < 2 ^ 63"
    using sum_list_between[OF b] assms(1) l by (simp add: field_spec_def)
  ultimately show ?thesis
    using assms(1,3) b l default_name_short by (auto simp: field_wf_def field_spec_def list_all_iff)
qed

lemma segment_spec_wf:
  assumes "segment_spec rs s" "results_fit rs"
  shows "segment_wf s"
proof -
  have f: "list_all2 (field_spec rs) defaultFieldConfigs (bs_fields s)" using assms(1) by (simp add: segment_spec_def)
  have "length (bs_fields s) = 5" using list_all2_lengthD[OF f] by (simp add: defaultFieldConfigs_def)
  moreover have "list_all (field_wf (length rs)) (bs_fields s)"
    using f field_spec_wf[OF _ assms(2)] by (auto simp: list_all_length list_all2_conv_all_nth)
  moreover have "- (2 ^ 63) \<le> df \<and> df < 2 ^ 63" if m: "(t, df) \<in> set (bs_docFreq s)" for t df
  proof -
    have "distinct (map fst (bs_docFreq s))" using assms(1) by (simp add: segment_spec_def gomap_ok_def)
    then have "map_of (bs_docFreq s) t = Some df" using m by (rule map_of_is_SomeI)
    then have "df = int (length (filter (doc_has t) rs))" using assms(1) by (auto simp: segment_spec_def Let_def split: if_splits)
    moreover have "length (filter (doc_has t) rs) < 2 ^ 31" using assms(2) by (auto simp: results_fit_def intro: le_less_trans[OF length_filter_le])
    ultimately show ?thesis by simp
  qed
  ultimately show ?thesis using assms(1) by (auto simp: segment_wf_def segment_spec_def list_all_iff)
qed

lemma publish_seals:
  assumes "segment_spec rs s" "results_fit rs"
  shows "if vp_size (layoutV2 s defaultDictKind) > v2MaxBlobBytes
         then publishSegment s = Fail (ErrText ''bm25 encode: segment too large'')
         else \<exists>b ms. encodeSegmentV2 s defaultDictKind = Ret b \<and> openSegmentV2 b = Ret ms \<and> publishSegment s = Ret ms
                \<and> ms_blob ms = b \<and> sealed rs ms"
proof (cases "vp_size (layoutV2 s defaultDictKind) > v2MaxBlobBytes")
  case True
  have "\<not> defaultDictKind > dictHash" by (simp add: defaultDictKind_def dictBlocked_def dictHash_def)
  then show ?thesis using True by (simp add: publishSegment_def encode_unfold)
next
  case False
  obtain b where b: "encodeSegmentV2 s defaultDictKind = Ret b"
    using encode_total[of defaultDictKind s] False by (auto simp: defaultDictKind_def dictBlocked_def dictHash_def)
  obtain ms where "openSegmentV2 b = Ret ms" "ms_blob ms = b" "segment_view s ms"
    using encoded_opens[OF b segment_spec_wf[OF assms]] by blast
  then show ?thesis
    using False b assms segment_spec_wf[OF assms] by (auto simp: publishSegment_def sealed_def)
qed

lemma Build_unfold: "Build u numWorkers docs = ([], publishSegment (buildSegment (map (tokenizeOne u) docs)))"
  by (simp add: Build_def tokenizeDocsParallel_map)

lemma built_spec: "segment_spec (kept_docs (map (tokenizeOne u) docs)) (buildSegment (map (tokenizeOne u) docs))"
  by (rule buildSegment_meets_spec) (simp add: list_all_iff tokenizeOne_wf)

text \<open>
  C10: A build either refuses a layout that 32-bit offsets cannot address, or returns a segment that
  answers, through the mapped bytes alone, for exactly the documents with indexable text: it lists
  them in batch order, and looking a term up in a field gives the documents that hold it
  with their clamped counts. No document is degraded, for any number of workers.
\<close>

theorem Build_exact:
  assumes "results_fit (kept_docs (map (tokenizeOne u) docs))"
  shows "fst (Build u numWorkers docs) = []
    \<and> (if vp_size (layoutV2 (buildSegment (map (tokenizeOne u) docs)) defaultDictKind) > v2MaxBlobBytes
       then snd (Build u numWorkers docs) = Fail (ErrText ''bm25 encode: segment too large'')
       else \<exists>ms. snd (Build u numWorkers docs) = Ret ms \<and> mapped_IDs ms = Ret (map dt_id (kept_docs (map (tokenizeOne u) docs)))
         \<and> list_all2 (\<lambda>cfg mf. \<forall>t. mapped_lookup mf t =
              (let ps = spec_postings (fc_Name cfg) t (kept_docs (map (tokenizeOne u) docs)) in Ret (if ps = [] then None else Some (run_of ps))))
             defaultFieldConfigs (ms_fields ms))"
proof -
  let ?rs = "kept_docs (map (tokenizeOne u) docs)" and ?s = "buildSegment (map (tokenizeOne u) docs)"
  note spec = built_spec[of u docs]
  have "\<exists>ms. snd (Build u numWorkers docs) = Ret ms \<and> mapped_IDs ms = Ret (map dt_id ?rs)
      \<and> list_all2 (\<lambda>cfg mf. \<forall>t. mapped_lookup mf t = (let ps = spec_postings (fc_Name cfg) t ?rs in Ret (if ps = [] then None else Some (run_of ps))))
          defaultFieldConfigs (ms_fields ms)"
    if small: "\<not> vp_size (layoutV2 ?s defaultDictKind) > v2MaxBlobBytes"
  proof -
    obtain b ms where ms: "encodeSegmentV2 ?s defaultDictKind = Ret b" "openSegmentV2 b = Ret ms" "publishSegment ?s = Ret ms"
      using publish_seals[OF spec assms] small by auto
    then have v: "segment_view ?s ms" using encoded_opens[OF ms(1) segment_spec_wf[OF spec assms]] by auto
    have f: "list_all2 (field_spec ?rs) defaultFieldConfigs (bs_fields ?s)" "list_all2 (field_view (length (bs_members ?s))) (bs_fields ?s) (ms_fields ms)"
      using spec v by (simp_all add: segment_spec_def segment_view_def)
    have "list_all2 (\<lambda>cfg mf. \<forall>t. mapped_lookup mf t = (let ps = spec_postings (fc_Name cfg) t ?rs in Ret (if ps = [] then None else Some (run_of ps))))
        defaultFieldConfigs (ms_fields ms)"
      by (rule list_all2_trans[OF _ f]) (simp add: field_view_def field_spec_def Let_def)
    then show ?thesis using ms(3) segment_view_IDs[OF v] spec by (simp add: Build_unfold segment_spec_def)
  qed
  then show ?thesis using publish_seals[OF spec assms] by (simp add: Build_unfold)
qed

section \<open>A built segment\<close>

definition demo_results :: "docFieldTokens list" where
  "demo_results = kept_docs (map (tokenizeOne drift_tables) [demo_doc])"

lemma demo_results_eq:
  "demo_results = [\<lparr>dt_id = ''d1'', dt_fields = Some [(''summary'', [(''getuser'', 1), (''get'', 1), (''user'', 1)])]\<rparr>]"
  by code_simp

lemma demo_results_fit: "results_fit demo_results"
  by (simp add: results_fit_def demo_results_eq defaultFieldConfigs_def field_tokens_def doc_len_def)

lemma demo_built: "buildSegment (map (tokenizeOne drift_tables) [demo_doc]) = buildSegment demo_results"
  by code_simp

definition field_end :: "byte \<Rightarrow> nat \<Rightarrow> fieldData \<Rightarrow> nat" where
  "field_end kind off fd =
     (let terms = sortedKeys (fd_postings fd)
      in snd (place 4 (snd (planDict kind off terms)) (map (\<lambda>t. 4 * length (postings_of fd t) + 2 * length (postings_of fd t)) terms)))"

lemma plan_fields_end:
  "snd (plan_fields kind off (fd # fds) (n # ns) (l # ls)) = snd (plan_fields kind (field_end kind off fd) fds ns ls)"
  by (simp add: field_end_def Let_def split: prod.split)

lemma demo_plan_small: "\<not> vp_size (layoutV2 (buildSegment demo_results) defaultDictKind) > v2MaxBlobBytes"
proof -
  define p where "p = layoutV2 (buildSegment demo_results) dictBlocked"
  let ?s = "buildSegment demo_results"
  have s: "map length (bs_members ?s) = [2]" "map (\<lambda>fd. length (fc_Name (fd_config fd))) (bs_fields ?s) = [11, 7, 8, 11, 7]"
    "length (bs_members ?s) = 1" "length (bs_fields ?s) = 5" "map (\<lambda>_. 4 * 1) (bs_fields ?s) = [4, 4, 4, 4, 4 :: nat]"
    "sortedKeys (bs_docFreq ?s) = [''get'', ''getuser'', ''user'']"
    unfolding demo_results_eq by code_simp+
  obtain off1 off2 off3 off4 memberOff nameOff lensOff dfTermOff where l:
    "place 1 (32 + 4 * (length (bs_members ?s) + 1)) (map length (bs_members ?s)) = (memberOff, off1)" "vp_fieldTableOff p = align off1 8"
    "place 1 (vp_fieldTableOff p + 48 * length (bs_fields ?s)) (map (\<lambda>fd. length (fc_Name (fd_config fd))) (bs_fields ?s)) = (nameOff, off2)"
    "place 4 off2 (map (\<lambda>_. 4 * length (bs_members ?s)) (bs_fields ?s)) = (lensOff, off3)"
    "plan_fields dictBlocked off3 (bs_fields ?s) nameOff lensOff = (vp_fields p, off4)"
    "vp_dfTerms p = sortedKeys (bs_docFreq ?s)" "vp_dfEntriesOff p = align off4 8 + 8"
    "place 1 (vp_dfEntriesOff p + 16 * length (vp_dfTerms p)) (map length (vp_dfTerms p)) = (dfTermOff, vp_size p)"
    by (rule layoutV2_fields[of ?s dictBlocked, folded p_def])
  have 1: "vp_fieldTableOff p = 48" using l(1,2) unfolding s by (simp add: place.simps align_def)
  have 2: "off2 = 332" "nameOff = [288, 299, 306, 314, 325]" using l(3) unfolding 1 s by (simp_all add: place.simps)
  have 3: "off3 = 352" "lensOff = [332, 336, 340, 344, 348]" using l(4) unfolding 2 s by (simp_all add: place.simps align_def)
  obtain f0 f1 f2 f3 f4 where f: "bs_fields ?s = [f0, f1, f2, f3, f4]" "map fd_postings [f0, f1, f2, f3, f4] = map fd_postings (bs_fields ?s)"
    using s(4) by (auto simp: numeral_eq_Suc length_Suc_conv)
  have "map fd_postings (bs_fields ?s) = [[], [(''getuser'', [\<lparr>p_docID = 0, p_tf = 1\<rparr>]), (''get'', [\<lparr>p_docID = 0, p_tf = 1\<rparr>]), (''user'', [\<lparr>p_docID = 0, p_tf = 1\<rparr>])], [], [], []]"
    unfolding demo_results_eq by code_simp
  then have fp: "fd_postings f0 = []" "fd_postings f2 = []" "fd_postings f3 = []" "fd_postings f4 = []"
    "fd_postings f1 = [(''getuser'', [\<lparr>p_docID = 0, p_tf = 1\<rparr>]), (''get'', [\<lparr>p_docID = 0, p_tf = 1\<rparr>]), (''user'', [\<lparr>p_docID = 0, p_tf = 1\<rparr>])]"
    using f(2) by simp_all
  note size = field_end_def planDict_def planBlockedDict_def blockCountOf_def blockedBlockTerms_def Let_def blockedPayloadSize_def
    block_slice_def postings_of_def place.simps align_def
  have t: "sortedKeys (fd_postings f1) = [''get'', ''getuser'', ''user'']" unfolding fp by code_simp
  have e: "field_end dictBlocked 352 f0 = 368" "field_end dictBlocked 368 f1 = 466" "field_end dictBlocked 466 f2 = 488"
    "field_end dictBlocked 488 f3 = 504" "field_end dictBlocked 504 f4 = 520"
    by (simp_all add: size t) (simp_all add: fp sortedKeys_def place.simps)
  have "off4 = 520" using arg_cong[OF l(5), of snd] unfolding 3 2 f(1) plan_fields_end e by simp
  note 4 = this
  have "vp_size p = 590" using l(8) unfolding l(7) 4 l(6) s by (simp add: place.simps align_def)
  then show ?thesis by (simp add: p_def defaultDictKind_def v2MaxBlobBytes_def)
qed

lemma demo_sealed: "\<exists>b ms. encodeSegmentV2 (buildSegment demo_results) defaultDictKind = Ret b \<and> openSegmentV2 b = Ret ms
    \<and> publishSegment (buildSegment demo_results) = Ret ms \<and> sealed demo_results ms"
proof -
  have "segment_spec demo_results (buildSegment demo_results)"
    using built_spec[of drift_tables "[demo_doc]"] unfolding demo_built demo_results_def[symmetric] .
  from publish_seals[OF this demo_results_fit] demo_plan_small show ?thesis by auto
qed

text \<open>The segment of an empty batch.\<close>

lemma empty_sealed: "\<exists>ms. sealed [] ms"
proof -
  define p where "p = layoutV2 (buildSegment []) dictBlocked"
  have s: "map length (bs_members (buildSegment [])) = []" "map (\<lambda>fd. length (fc_Name (fd_config fd))) (bs_fields (buildSegment [])) = [11, 7, 8, 11, 7]"
    "length (bs_members (buildSegment [])) = 0" "length (bs_fields (buildSegment [])) = 5"
    "map (\<lambda>_. 4 * 0) (bs_fields (buildSegment [])) = [0, 0, 0, 0, 0 :: nat]"
    "sortedKeys (bs_docFreq (buildSegment [])) = []" "bs_fields (buildSegment []) = map empty_field defaultFieldConfigs"
    by (simp_all add: buildSegment_def defaultFieldConfigs_def empty_field_def sortedKeys_def)
  obtain off1 off2 off3 off4 memberOff nameOff lensOff dfTermOff where l:
    "place 1 (32 + 4 * (length (bs_members (buildSegment [])) + 1)) (map length (bs_members (buildSegment []))) = (memberOff, off1)" "vp_fieldTableOff p = align off1 8"
    "place 1 (vp_fieldTableOff p + 48 * length (bs_fields (buildSegment []))) (map (\<lambda>fd. length (fc_Name (fd_config fd))) (bs_fields (buildSegment []))) = (nameOff, off2)"
    "place 4 off2 (map (\<lambda>_. 4 * length (bs_members (buildSegment []))) (bs_fields (buildSegment []))) = (lensOff, off3)"
    "plan_fields dictBlocked off3 (bs_fields (buildSegment [])) nameOff lensOff = (vp_fields p, off4)"
    "vp_dfTerms p = sortedKeys (bs_docFreq (buildSegment []))" "vp_dfEntriesOff p = align off4 8 + 8"
    "place 1 (vp_dfEntriesOff p + 16 * length (vp_dfTerms p)) (map length (vp_dfTerms p)) = (dfTermOff, vp_size p)"
    by (rule layoutV2_fields[of "buildSegment []" dictBlocked, folded p_def])
  have 1: "vp_fieldTableOff p = 40" using l(1,2) unfolding s(1-6) by (simp add: place.simps align_def)
  have 2: "off2 = 324" "nameOff = [280, 291, 298, 306, 317]" using l(3) unfolding 1 s(1-6) by (simp_all add: place.simps)
  have 3: "off3 = 324" "lensOff = [324, 324, 324, 324, 324]" using l(4) unfolding 2 s(1-6) by (simp_all add: place.simps align_def)
  have e: "field_end dictBlocked off (empty_field cfg) = align (align off 8 + 16) 4" for off cfg
    by (simp add: field_end_def empty_field_def planDict_def planBlockedDict_def blockCountOf_def blockedBlockTerms_def Let_def sortedKeys_def place.simps)
  have "off4 = 408"
    using arg_cong[OF l(5), of snd] unfolding 3 2 s(7) defaultFieldConfigs_def list.map plan_fields_end e by (simp add: align_def)
  then have "vp_size p = 416" using l(8) unfolding l(7) l(6) s(1-6) by (simp add: place.simps align_def)
  then have "\<not> vp_size (layoutV2 (buildSegment []) defaultDictKind) > v2MaxBlobBytes" by (simp add: p_def defaultDictKind_def v2MaxBlobBytes_def)
  moreover have "segment_spec [] (buildSegment [])" using built_spec[of drift_tables "[]"] by (simp add: kept_docs_def)
  moreover have "results_fit []" by (simp add: results_fit_def)
  ultimately show ?thesis using publish_seals[of "[]" "buildSegment []"] by auto
qed

theorem Build_exact_witness:
  "fst (Build drift_tables 4 [demo_doc]) = [] \<and> (\<exists>ms. snd (Build drift_tables 4 [demo_doc]) = Ret ms \<and> mapped_IDs ms = Ret [''d1''])"
  using Build_exact[of drift_tables "[demo_doc]" 4] demo_results_fit demo_plan_small
  unfolding demo_built demo_results_def[symmetric] by (auto simp: demo_results_eq)

section \<open>Searching built segments\<close>



text \<open>
  C18: How the documents of a corpus are spread over segments does not show in the scores. Two sets of
  segments that hold the same documents, in any grouping and order, fold to statistics under which
  every document has the same score for every query, and every term the same document frequency.
\<close>

theorem corpus_split_irrelevant:
  assumes "list_all2 sealed rss segs" "list_all2 sealed rss' segs'" "mset (concat rss) = mset (concat rss')"
  shows "doc_score fo (AggregateStats fo segs) D ts r = doc_score fo (AggregateStats fo segs') D ts r
    \<and> (\<exists>df st st'. docFreqOf (Some (AggregateStats fo segs)) t = Ret (df, st) \<and> docFreqOf (Some (AggregateStats fo segs')) t = Ret (df, st'))"
proof -
  have n: "length (concat rss) = length (concat rss')" using assms(3) by (rule mset_eq_length)
  have tok: "tokens_of name (concat rss) = tokens_of name (concat rss')" for name
    unfolding tokens_of_def sum_mset_sum_list[symmetric] mset_map assms(3) ..
  have f: "length (filter (doc_has t) (concat rss)) = length (filter (doc_has t) (concat rss'))" for t
    using assms(3) by (metis (no_types) mset_filter size_mset)
  have T: "cs_TotalDocs (AggregateStats fo segs) = cs_TotalDocs (AggregateStats fo segs')"
    unfolding corpus_stats(1)[OF assms(1)] corpus_stats(1)[OF assms(2)] n ..
  have "avg_len fo (Some (AggregateStats fo segs)) (fc_Name cfg) = avg_len fo (Some (AggregateStats fo segs')) (fc_Name cfg)"
    if "cfg \<in> set defaultFieldConfigs" for cfg
    using corpus_stats(2)[OF assms(1), of "fc_Name cfg" fo] corpus_stats(2)[OF assms(2), of "fc_Name cfg" fo] that n tok by simp
  then have "fold (field_score fo (AggregateStats fo segs) r t w) defaultFieldConfigs x = fold (field_score fo (AggregateStats fo segs') r t w) defaultFieldConfigs x" for t w x
    by (intro fold_cong) (auto simp: field_score_def split: option.split)
  then have "doc_score fo (AggregateStats fo segs) D ts r = doc_score fo (AggregateStats fo segs') D ts r"
    by (intro doc_score_cong T)
  moreover have p: "df_probe_all (cs_probes (AggregateStats fo segs)) t 0 = df_probe_all (cs_probes (AggregateStats fo segs')) t 0"
    unfolding df_corpus[OF assms(1)] df_corpus[OF assms(2)] f ..
  moreover have m: "cs_memo (AggregateStats fo segs) = []" "cs_memo (AggregateStats fo segs') = []" by (simp_all add: AggregateStats_def fold_counts)
  have "\<exists>df st st'. docFreqOf (Some (AggregateStats fo segs)) t = Ret (df, st) \<and> docFreqOf (Some (AggregateStats fo segs')) t = Ret (df, st')"
    using df_corpus[OF assms(2), of fo t] by (simp add: docFreqOf_def m p)
  ultimately show ?thesis by blast
qed

theorem corpus_split_irrelevant_witness:
  "\<exists>ms0 ms. sealed [] ms0 \<and> sealed demo_results ms
     \<and> (\<forall>D ts r. doc_score int_ops (AggregateStats int_ops [ms, ms0, ms]) D ts r = doc_score int_ops (AggregateStats int_ops [ms, ms]) D ts r)"
proof -
  obtain ms where ms: "sealed demo_results ms" using demo_sealed by blast
  obtain ms0 where ms0: "sealed [] ms0" using empty_sealed by blast
  have "doc_score int_ops (AggregateStats int_ops [ms, ms0, ms]) D ts r = doc_score int_ops (AggregateStats int_ops [ms, ms]) D ts r" for D ts r
    using corpus_split_irrelevant[of "[demo_results, [], demo_results]" "[ms, ms0, ms]" "[demo_results, demo_results]" "[ms, ms]" int_ops D ts r] ms ms0 by simp
  then show ?thesis using ms ms0 by blast
qed

end
