(* ===== verification/Bm25Splice.thy ===== *)
theory Bm25Splice
  imports Bm25Merge Bm25Format
begin

text \<open>
  The walk of a merge over segments sealed over documents, and the document lengths the merge carries
  over: both are those of the surviving documents, as if a segment had been built of these alone.
\<close>

section \<open>Runs of documents\<close>

definition pairs_of :: "posting list \<Rightarrow> (nat \<times> nat) list" where
  "pairs_of ps = map (\<lambda>p. (unat (p_docID p), unat (p_tf p))) ps"

definition doc_posting :: "string \<Rightarrow> string \<Rightarrow> nat \<Rightarrow> docFieldTokens \<Rightarrow> (nat \<times> nat) list" where
  "doc_posting name t j r = (case map_of (field_tokens name r) t of None \<Rightarrow> [] | Some n \<Rightarrow> [(j, unat (clampTF n))])"

lemma pairs_run: "zip (fst (run_of ps)) (snd (run_of ps)) = pairs_of ps"
  by (simp add: run_of_def pairs_of_def zip_map1 zip_map2 zip_same_conv_map comp_def)

lemma pairs_concat: "pairs_of (concat pss) = concat (map pairs_of pss)"
  by (simp add: pairs_of_def[abs_def] map_concat)

lemma pairs_spec:
  assumes "length rs \<le> 2 ^ 32"
  shows "pairs_of (spec_postings name t rs) = concat (map2 (doc_posting name t) [0..<length rs] rs)"
proof -
  have "map pairs_of (map2 (spec_posting name t) [0..<length rs] rs) = map2 (doc_posting name t) [0..<length rs] rs"
  proof (rule nth_equalityI)
    fix i assume "i < length (map pairs_of (map2 (spec_posting name t) [0..<length rs] rs))"
    then have "i < length rs" by simp
    then show "map pairs_of (map2 (spec_posting name t) [0..<length rs] rs) ! i = map2 (doc_posting name t) [0..<length rs] rs ! i"
      using assms by (simp add: pairs_of_def spec_posting_clamp doc_posting_def unat_of_nat split: option.split)
  qed simp
  then show ?thesis by (simp only: spec_postings_def pairs_concat)
qed

abbreviation moved :: "string \<Rightarrow> string \<Rightarrow> int \<times> docFieldTokens \<Rightarrow> (nat \<times> nat) list" where
  "moved name t e \<equiv> (if 0 \<le> fst e then doc_posting name t (nat (fst e)) (snd e) else [])"

lemma remap_run_spec:
  assumes "length rm = length rs" "length rs \<le> 2 ^ 32"
  shows "remap_run rm (run_of (spec_postings name t rs)) = concat (map (moved name t) (zip rm rs))"
proof -
  let ?k = "\<lambda>(d, tf). d < length rm \<and> rm ! d \<ge> 0" and ?m = "\<lambda>(d, tf :: nat). (nat (rm ! d), tf)"
  have mc: "map ?m (filter ?k (concat xss)) = concat (map (\<lambda>xs. map ?m (filter ?k xs)) xss)" for xss
    by (induction xss) simp_all
  have "map (\<lambda>xs. map ?m (filter ?k xs)) (map2 (doc_posting name t) [0..<length rs] rs) = map (moved name t) (zip rm rs)"
  proof (rule nth_equalityI)
    fix i assume "i < length (map (\<lambda>xs. map ?m (filter ?k xs)) (map2 (doc_posting name t) [0..<length rs] rs))"
    then have "i < length rs" by simp
    then show "map (\<lambda>xs. map ?m (filter ?k xs)) (map2 (doc_posting name t) [0..<length rs] rs) ! i = map (moved name t) (zip rm rs) ! i"
      using assms(1) by (simp add: doc_posting_def split: option.split)
  qed (use assms(1) in simp)
  then show ?thesis by (simp add: remap_run_def pairs_run pairs_spec[OF assms(2)] mc)
qed

lemma concat_zip:
  "list_all2 (\<lambda>xs rm. length rm = length xs) xss remap \<Longrightarrow>
    concat (map (\<lambda>i. concat (map h (zip (remap ! i) (xss ! i)))) [0..<length xss]) = concat (map h (zip (concat remap) (concat xss)))"
proof (induction xss remap rule: list_all2_induct)
  case (Cons xs xss rm remap)
  have "[0..<length (xs # xss)] = 0 # map Suc [0..<length xss]" by (simp add: upt_conv_Cons map_Suc_upt del: upt_Suc)
  then show ?case using Cons by (simp add: comp_def)
qed simp

lemma concat_map_filter: "(\<And>x. \<not> P x \<Longrightarrow> h x = []) \<Longrightarrow> concat (map h xs) = concat (map h (filter P xs))"
  by (induction xs) auto

lemma moved_survivors:
  assumes "remaps rss R remap"
  shows "concat (map (moved name t) (zip (concat remap) (concat rss))) = concat (map2 (doc_posting name t) [0..<length R] R)"
proof -
  let ?P = "\<lambda>(n, x :: docFieldTokens). (0::int) \<le> n"
  have "concat (map (moved name t) (zip (concat remap) (concat rss))) = concat (map (moved name t) (filter ?P (zip (concat remap) (concat rss))))"
    by (rule concat_map_filter) auto
  also have "filter ?P (zip (concat remap) (concat rss)) = zip (map int [0..<length R]) R" using assms by (simp add: remaps_def)
  finally show ?thesis by (simp add: zip_map1 comp_def case_prod_unfold)
qed

section \<open>Sealed inputs\<close>

abbreviation field_name :: "nat \<Rightarrow> string" where "field_name f \<equiv> fc_Name (defaultFieldConfigs ! f)"

lemma five_fields [simp]: "length defaultFieldConfigs = 5"
  by (simp add: defaultFieldConfigs_def)

lemma sealed_field:
  assumes "sealed rs ms" "f < 5"
  shows "length (ms_fields ms) = 5"
    and "\<exists>fd. field_spec rs (defaultFieldConfigs ! f) fd \<and> field_view (length rs) fd (ms_fields ms ! f)"
proof -
  obtain s where s: "segment_spec rs s" "segment_view s ms" using assms by (auto simp: sealed_def)
  then have f: "list_all2 (field_spec rs) defaultFieldConfigs (bs_fields s)" "list_all2 (field_view (length rs)) (bs_fields s) (ms_fields ms)"
    by (simp_all add: segment_spec_def segment_view_def)
  show "length (ms_fields ms) = 5" using list_all2_lengthD[OF f(1)] list_all2_lengthD[OF f(2)] by simp
  show "\<exists>fd. field_spec rs (defaultFieldConfigs ! f) fd \<and> field_view (length rs) fd (ms_fields ms ! f)"
    using f assms(2) by (intro exI[of _ "bs_fields s ! f"]) (auto simp: list_all2_conv_all_nth)
qed

lemma sealed_dict:
  assumes "sealed rs ms" "f < 5"
  shows "eachTerm (ms_fields ms ! f) = Ret (dict_of (ms_fields ms ! f))" "sorted_wrt (<) (map fst (dict_of (ms_fields ms ! f)))"
    and "map_of (dict_of (ms_fields ms ! f)) t =
      (if spec_postings (field_name f) t rs = [] then None else Some (run_of (spec_postings (field_name f) t rs)))"
proof -
  let ?mf = "ms_fields ms ! f" and ?ps = "spec_postings (field_name f) t rs"
  obtain fd where fd: "field_spec rs (defaultFieldConfigs ! f) fd" "field_view (length rs) fd ?mf"
    using sealed_field(2)[OF assms] by blast
  have d: "eachTerm ?mf = Ret (map (\<lambda>t. (t, run_of (postings_of fd t))) (sortedKeys (fd_postings fd)))"
    using fd(2) by (simp add: field_view_def)
  then have e: "dict_of ?mf = map (\<lambda>t. (t, run_of (postings_of fd t))) (sortedKeys (fd_postings fd))" by (simp add: dict_of_def)
  have ok: "gomap_ok (fd_postings fd)" and m: "map_of (fd_postings fd) t = (if ?ps = [] then None else Some ?ps)"
    using fd(1) by (simp_all add: field_spec_def)
  show "eachTerm ?mf = Ret (dict_of ?mf)" using d e by simp
  show "sorted_wrt (<) (map fst (dict_of ?mf))" using sortedKeys_ascending[OF ok] by (simp add: e comp_def)
  have k: "t \<in> set (sortedKeys (fd_postings fd)) \<longleftrightarrow> ?ps \<noteq> []"
    using m map_of_eq_None_iff[of "fd_postings fd" t] by (auto simp: sortedKeys_simps split: if_splits)
  have mm: "map_of (map (\<lambda>t. (t, g t)) ks) t = (if t \<in> set ks then Some (g t) else None)" for g and ks :: "string list"
    by (induction ks) auto
  show "map_of (dict_of ?mf) t = (if ?ps = [] then None else Some (run_of ?ps))" unfolding e mm k using m by (simp add: postings_of_def)
qed

lemma sealed_readable: "sealed rs ms \<Longrightarrow> readable ms"
  using sealed_dict(1,2)[of rs ms] sealed_field(1)[of rs ms 0] by (auto simp: readable_def in_set_conv_nth)

lemma sealed_run:
  assumes "sealed rs ms"
  shows "input_run ms t f = (if f < 5 then run_of (spec_postings (field_name f) t rs) else ([], []))"
  using sealed_dict(3)[OF assms, of f t] sealed_field(1)[OF assms, of 0] by (auto simp: input_run_def run_of_def)

lemma merged_run_survivors:
  assumes "list_all2 sealed rss ins" "remaps rss R remap" "length (concat rss) < 2 ^ 31" "length R < 2 ^ 31" "f < 5"
  shows "merged_run ins remap t f = pairs_of (spec_postings (field_name f) t R)"
proof -
  have n: "length ins = length rss" using list_all2_lengthD[OF assms(1)] by simp
  have r: "list_all2 (\<lambda>xs rm. length rm = length xs) rss remap" using assms(2) by (simp add: remaps_def)
  have "remap_run (remap ! i) (input_run (ins ! i) t f) = concat (map (moved (field_name f) t) (zip (remap ! i) (rss ! i)))" if i: "i < length rss" for i
  proof -
    have "sealed (rss ! i) (ins ! i)" by (rule list_all2_nthD[OF assms(1) i])
    moreover have "length (rss ! i) \<le> length (concat rss)" using i by (simp add: length_concat member_le_sum_list)
    moreover have "length (remap ! i) = length (rss ! i)" by (rule list_all2_nthD[OF r i])
    ultimately show ?thesis using assms(3,5) by (simp add: sealed_run remap_run_spec)
  qed
  then have "merged_run ins remap t f = concat (map (\<lambda>i. concat (map (moved (field_name f) t) (zip (remap ! i) (rss ! i)))) [0..<length rss])"
    unfolding merged_run_def n by (intro arg_cong[where f = concat] map_cong) auto
  also have "\<dots> = concat (map2 (doc_posting (field_name f) t) [0..<length R] R)"
    unfolding concat_zip[OF r] by (rule moved_survivors[OF assms(2)])
  finally show ?thesis using assms(4) by (simp add: pairs_spec)
qed

section \<open>The calls of a merge, by document\<close>

definition terms_of :: "docFieldTokens list \<Rightarrow> string list" where
  "terms_of R = sort (remdups (concat (map (\<lambda>r. concat (map (\<lambda>cfg. map fst (field_tokens (fc_Name cfg) r)) defaultFieldConfigs)) R)))"

definition doc_freq :: "docFieldTokens list \<Rightarrow> string \<Rightarrow> int" where
  "doc_freq R t = int (length (filter (doc_has t) R))"

definition survivor_calls :: "docFieldTokens list \<Rightarrow> merge_event list" where
  "survivor_calls R =
     concat (map (\<lambda>t. concat (map (\<lambda>f. onField_call t f (pairs_of (spec_postings (field_name f) t R))) [0..<5]) @ [OnTerm t (doc_freq R t)])
       (terms_of R))"

lemma terms_of_iff: "t \<in> set (terms_of R) \<longleftrightarrow> (\<exists>r \<in> set R. doc_has t r)"
  by (simp add: terms_of_def doc_has_def list_ex_iff map_of_eq_None_iff)

lemma terms_of_sorted: "sorted_wrt (<) (terms_of R)"
  by (simp add: terms_of_def strict_sorted_iff)

lemma doc_posting_Nil: "doc_posting name t j r = [] \<longleftrightarrow> map_of (field_tokens name r) t = None"
  by (simp add: doc_posting_def split: option.split)

lemma postings_docs:
  assumes "length R < 2 ^ 32"
  shows "fst ` set (pairs_of (spec_postings name t R)) = {j. j < length R \<and> map_of (field_tokens name (R ! j)) t \<noteq> None}"
proof -
  have "map2 (doc_posting name t) [0..<length R] R = map (\<lambda>j. doc_posting name t j (R ! j)) [0..<length R]"
    by (intro nth_equalityI) auto
  then have "fst ` set (pairs_of (spec_postings name t R)) = (\<Union>j < length R. fst ` set (doc_posting name t j (R ! j)))"
    using assms by (simp add: pairs_spec image_Union image_image atLeast0LessThan image_UN)
  also have "\<dots> = (\<Union>j < length R. if map_of (field_tokens name (R ! j)) t = None then {} else {j})"
    by (intro SUP_cong) (auto simp: doc_posting_def split: option.split)
  also have "\<dots> = {j. j < length R \<and> map_of (field_tokens name (R ! j)) t \<noteq> None}" by (auto split: if_splits)
  finally show ?thesis .
qed

lemma doc_has_field: "doc_has t r \<longleftrightarrow> (\<exists>f < 5. map_of (field_tokens (field_name f) r) t \<noteq> None)"
  unfolding doc_has_def list_ex_iff by (metis five_fields in_set_conv_nth)

lemma pairs_of_Nil [simp]: "pairs_of ps = [] \<longleftrightarrow> ps = []"
  by (simp add: pairs_of_def)

lemma term_call:
  assumes "length R < 2 ^ 32"
  shows "term_event t (concat (map (\<lambda>f. map fst (pairs_of (spec_postings (field_name f) t R))) [0..<5])) =
    (if t \<in> set (terms_of R) then [OnTerm t (doc_freq R t)] else [])"
proof -
  let ?ds = "concat (map (\<lambda>f. map fst (pairs_of (spec_postings (field_name f) t R))) [0..<5])"
  have "set ?ds = (\<Union>f \<in> {0..<5}. fst ` set (pairs_of (spec_postings (field_name f) t R)))" by simp
  also have "\<dots> = {j. j < length R \<and> doc_has t (R ! j)}" unfolding postings_docs[OF assms] doc_has_field by auto
  finally have d: "set ?ds = {j. j < length R \<and> doc_has t (R ! j)}" .
  then have "int (card (set ?ds)) = doc_freq R t" by (simp add: doc_freq_def length_filter_conv_card)
  moreover have "?ds = [] \<longleftrightarrow> t \<notin> set (terms_of R)"
    unfolding terms_of_iff set_empty[symmetric] d by (simp add: Collect_empty_eq) (metis in_set_conv_nth)
  ultimately show ?thesis unfolding term_event_def by simp
qed

lemma no_field_calls:
  assumes "t \<notin> set (terms_of R)"
  shows "spec_postings (field_name f) t R = [] \<or> 5 \<le> f"
proof (rule ccontr)
  assume "\<not> (spec_postings (field_name f) t R = [] \<or> 5 \<le> f)"
  then obtain r where "r \<in> set R" "map_of (field_tokens (field_name f) r) t \<noteq> None" "f < 5" using spec_postings_ne by fastforce
  then show False using assms by (auto simp: terms_of_iff doc_has_field)
qed

lemma spec_postings_has:
  assumes "r \<in> set rs" "map_of (field_tokens name r) t \<noteq> None"
  shows "spec_postings name t rs \<noteq> []"
proof -
  obtain j where "j < length rs" "r = rs ! j" using assms(1) by (auto simp: in_set_conv_nth)
  then have "spec_posting name t j r \<in> set (map2 (spec_posting name t) [0..<length rs] rs)" by (force simp: set_zip)
  moreover have "spec_posting name t j r \<noteq> []" using assms(2) by (auto simp: spec_posting_clamp)
  ultimately show ?thesis by (auto simp: spec_postings_def simp del: set_map)
qed

lemma remaps_subset: "remaps rss R remap \<Longrightarrow> set R \<subseteq> set (concat rss)"
proof -
  assume "remaps rss R remap"
  then have f: "filter (\<lambda>(n, x). 0 \<le> n) (zip (concat remap) (concat rss)) = zip (map int [0..<length R]) R" by (simp add: remaps_def)
  have "R = map snd (zip (map int [0..<length R]) R)" by simp
  also have "set \<dots> \<subseteq> set (map snd (zip (concat remap) (concat rss)))" unfolding f[symmetric] by auto
  also have "\<dots> \<subseteq> set (concat rss)" by (metis image_subsetI list.set_map prod.collapse set_zip_rightD)
  finally show ?thesis .
qed

text \<open>
  The walk over segments sealed over documents makes the calls of the surviving documents: over
  their terms in ascending order, per field the posting run a segment built of them alone has, and
  per term the number of surviving documents that hold it in any field.
\<close>

lemma mergeWalk_survivors:
  assumes "list_all2 sealed rss ins" "remaps rss R remap" "length (concat rss) < 2 ^ 31" "length R < 2 ^ 31"
  shows "mergeWalk ins remap = (survivor_calls R, Ret ())"
proof -
  have R: "length R < 2 ^ 32" using assms(4) by simp
  let ?g = "\<lambda>t. concat (map (\<lambda>f. onField_call t f (merged_run ins remap t f)) [0..<field_bound ins])
      @ term_event t (concat (map (\<lambda>f. map fst (merged_run ins remap t f)) [0..<field_bound ins]))"
  let ?c = "\<lambda>t. concat (map (\<lambda>f. onField_call t f (pairs_of (spec_postings (field_name f) t R))) [0..<5])"
  note run = merged_run_survivors[OF assms]
  have fb: "field_bound ins = (if ins = [] then 0 else 5)"
  proof (cases ins)
    case (Cons ms mss)
    have "length (ms_fields x) = 5" if "x \<in> set ins" for x
      using that assms(1) sealed_field(1)[of _ x 0] by (auto simp: list_all2_conv_all_nth in_set_conv_nth)
    then have "(\<lambda>ms. length (ms_fields ms)) ` set ins = {5}" using Cons by fastforce
    then have "field_bound ins = Max {0, 5}" by (simp only: field_bound_def)
    then show ?thesis using Cons by simp
  qed (simp add: field_bound_def)
  show ?thesis
  proof (cases "ins = []")
    case True
    then have "rss = []" using assms(1) by simp
    then have "R = []" using assms(2) by (simp add: remaps_def)
    then show ?thesis using True mergeWalk_eq[of "[]" remap] by (simp add: merge_calls_def all_terms_def survivor_calls_def terms_of_def)
  next
    case False
    have fields: "map h [0..<field_bound ins] = map k [0..<5]" if "\<And>f. f < 5 \<Longrightarrow> h f = k f" for h k :: "nat \<Rightarrow> 'y"
      using False that by (simp add: fb)
    have c: "map (\<lambda>f. onField_call t f (merged_run ins remap t f)) [0..<field_bound ins] = map (\<lambda>f. onField_call t f (pairs_of (spec_postings (field_name f) t R))) [0..<5]" for t
      by (rule fields) (simp add: run)
    have d: "map (\<lambda>f. map fst (merged_run ins remap t f)) [0..<field_bound ins] = map (\<lambda>f. map fst (pairs_of (spec_postings (field_name f) t R))) [0..<5]" for t
      by (rule fields) (simp add: run)
    let ?h = "\<lambda>t. ?c t @ (if t \<in> set (terms_of R) then [OnTerm t (doc_freq R t)] else [])"
    have g: "?g t = ?h t" for t unfolding c d term_call[OF R] ..
    have none: "?h t = []" if "\<not> t \<in> set (terms_of R)" for t
    proof -
      have "onField_call t f (pairs_of (spec_postings (field_name f) t R)) = []" if "f < 5" for f
        using no_field_calls[OF \<open>\<not> t \<in> set (terms_of R)\<close>, of f] that by (auto simp: onField_call_def)
      then show ?thesis using that by simp
    qed
    have sub: "set (terms_of R) \<subseteq> set (all_terms ins)"
    proof
      fix t assume "t \<in> set (terms_of R)"
      then obtain r where r: "r \<in> set R" "doc_has t r" unfolding terms_of_iff by blast
      obtain f where f: "f < 5" "map_of (field_tokens (field_name f) r) t \<noteq> None" using r(2) doc_has_field by blast
      have "r \<in> set (concat rss)" using r(1) remaps_subset[OF assms(2)] by blast
      then obtain rs where "rs \<in> set rss" "r \<in> set rs" by auto
      then obtain i where i: "i < length rss" "r \<in> set (rss ! i)" by (metis in_set_conv_nth)
      have s: "sealed (rss ! i) (ins ! i)" by (rule list_all2_nthD[OF assms(1) i(1)])
      have "spec_postings (field_name f) t (rss ! i) \<noteq> []" using i(2) f(2) spec_postings_has by blast
      then have "map_of (dict_of (ms_fields (ins ! i) ! f)) t \<noteq> None" using sealed_dict(3)[OF s f(1), of t] by simp
      then have "t \<in> fst ` set (dict_of (ms_fields (ins ! i) ! f))" by (simp add: map_of_eq_None_iff)
      moreover have "ins ! i \<in> set ins" using i(1) list_all2_lengthD[OF assms(1)] by simp
      moreover have "ms_fields (ins ! i) ! f \<in> set (ms_fields (ins ! i))" using sealed_field(1)[OF s f(1)] f(1) by simp
      ultimately have "\<exists>ms \<in> set ins. \<exists>mf \<in> set (ms_fields ms). t \<in> fst ` set (dict_of mf)" by blast
      then show "t \<in> set (all_terms ins)" by (simp add: all_terms_def)
    qed
    have "sorted_wrt (<) (all_terms ins)" by (simp add: all_terms_def strict_sorted_iff)
    then have keep: "filter (\<lambda>t. t \<in> set (terms_of R)) (all_terms ins) = terms_of R"
      using sub by (intro strict_sorted_equal[OF terms_of_sorted]) (auto simp: sorted_wrt_filter)
    have "merge_calls ins remap = concat (map ?h (all_terms ins))"
      unfolding merge_calls_def g ..
    also have "\<dots> = concat (map ?h (terms_of R))"
      using concat_map_filter[of "\<lambda>t. t \<in> set (terms_of R)" ?h "all_terms ins", OF none] unfolding keep by simp
    also have "\<dots> = survivor_calls R"
      unfolding survivor_calls_def by (intro arg_cong[where f = concat] map_cong) auto
    finally have calls: "merge_calls ins remap = survivor_calls R" .
    have "\<forall>ms \<in> set ins. readable ms" using assms(1) sealed_readable by (metis in_set_conv_nth list_all2_conv_all_nth)
    then show ?thesis using mergeWalk_eq[of ins remap] calls by simp
  qed
qed


section \<open>The document lengths of a merge\<close>

definition set_length :: "(docFieldTokens \<Rightarrow> nat) \<Rightarrow> int \<times> docFieldTokens \<Rightarrow> nat list \<Rightarrow> nat list" where
  "set_length g = (\<lambda>(n, r) out. if 0 \<le> n then out[nat n := g r] else out)"

lemma copy_lengths_docs:
  assumes "length rm = length rs"
  shows "copy_lengths rm (map g rs) out = fold (set_length g) (zip rm rs) out"
proof -
  have "drop d L = map g rs \<Longrightarrow> fold (\<lambda>(oldID, newID) out. if newID \<ge> 0 \<and> oldID < length L then out[nat newID := L ! oldID] else out)
      (enumerate d rm) out = fold (set_length g) (zip rm rs) out" for d L
    using assms
  proof (induction rm rs arbitrary: d out rule: list_induct2)
    case (Cons n rm r rs)
    have l: "d < length L" using Cons.prems by (metis drop_eq_Nil list.map_disc_iff list.distinct(1) not_le_imp_less)
    then have "L ! d = g r" "drop (Suc d) L = map g rs" using Cons.prems by (metis Cons_nth_drop_Suc list.inject list.simps(9))+
    then show ?case using Cons.IH[of "Suc d"] l by (simp add: set_length_def)
  qed simp
  from this[of 0 "map g rs"] show ?thesis by (simp add: copy_lengths_def)
qed

lemma set_length_skip: "fold (set_length g) xs out = fold (set_length g) (filter (\<lambda>(n, r). 0 \<le> n) xs) out"
  by (induction xs arbitrary: out) (auto simp: set_length_def)

lemma set_length_all:
  "length pre + length R = length out \<Longrightarrow> take (length pre) out = pre \<Longrightarrow>
    fold (set_length g) (zip (map int [length pre..<length out]) R) out = pre @ map g R"
proof (induction R arbitrary: pre out)
  case (Cons r R)
  let ?out = "out[length pre := g r]"
  have "[length pre..<length out] = length pre # [Suc (length pre)..<length out]" using Cons.prems(1) by (simp add: upt_conv_Cons)
  moreover have "take (length (pre @ [g r])) ?out = pre @ [g r]" using Cons.prems by (simp add: take_Suc_conv_app_nth)
  then have "fold (set_length g) (zip (map int [length (pre @ [g r])..<length ?out]) R) ?out = (pre @ [g r]) @ map g R"
    by (intro Cons.IH) (use Cons.prems in simp_all)
  ultimately show ?case by (simp add: set_length_def)
qed simp

lemma fieldSlot_default: "f < 5 \<Longrightarrow> fieldSlot (field_name f) = Some f"
proof -
  assume "f < 5"
  then have "f = 0 \<or> f = 1 \<or> f = 2 \<or> f = 3 \<or> f = 4" by linarith
  then show ?thesis by (auto simp: fieldSlot_def defaultFieldConfigs_def upt_rec)
qed

abbreviation doc_length :: "nat \<Rightarrow> docFieldTokens \<Rightarrow> nat" where "doc_length f r \<equiv> nat (doc_len (defaultFieldConfigs ! f) r)"

lemma sealed_lengths:
  assumes "sealed rs ms" "f < 5"
  shows "mf_lengths (ms_fields ms ! f) = map (doc_length f) rs" "fc_Name (mf_config (ms_fields ms ! f)) = field_name f"
proof -
  obtain fd where fd: "field_spec rs (defaultFieldConfigs ! f) fd" "field_view (length rs) fd (ms_fields ms ! f)"
    using sealed_field(2)[OF assms] by blast
  have "fd_docLengths fd = map (doc_len (defaultFieldConfigs ! f)) rs" using fd(1) by (simp add: field_spec_def doc_len_def)
  then show "mf_lengths (ms_fields ms ! f) = map (doc_length f) rs"
    using fd(2) by (auto simp: field_view_def padded_lengths_def intro!: nth_equalityI)
  show "fc_Name (mf_config (ms_fields ms ! f)) = field_name f" using fd by (simp add: field_view_def field_spec_def)
qed

lemma copy_field_sealed:
  assumes "sealed rs ms" "f < 5" "length rm = length rs"
  shows "copy_field rm (ms_fields ms ! f) out = out[f := fold (set_length (doc_length f)) (zip rm rs) (out ! f)]"
  using sealed_lengths[OF assms(1,2)] fieldSlot_default[OF assms(2)] by (simp add: copy_field_def copy_lengths_docs[OF assms(3)])

lemma copy_fields:
  assumes "sealed rs ms" "length rm = length rs" "length outs = 5"
  shows "fold (copy_field rm) (ms_fields ms) outs = map (\<lambda>f. fold (set_length (doc_length f)) (zip rm rs) (outs ! f)) [0..<5]"
proof -
  let ?c = "\<lambda>f. fold (set_length (doc_length f)) (zip rm rs) (outs ! f)"
  have len: "length (ms_fields ms) = 5" using sealed_field(1)[OF assms(1), of 0] by simp
  have "k \<le> 5 \<Longrightarrow> fold (copy_field rm) (take k (ms_fields ms)) outs = map (\<lambda>f. if f < k then ?c f else outs ! f) [0..<5]" for k
  proof (induction k)
    case 0
    show ?case using map_nth[of outs] assms(3) by simp
  next
    case (Suc k)
    then have k: "k < 5" by simp
    have "fold (copy_field rm) (take (Suc k) (ms_fields ms)) outs = copy_field rm (ms_fields ms ! k) (map (\<lambda>f. if f < k then ?c f else outs ! f) [0..<5])"
      using Suc k len by (simp add: take_Suc_conv_app_nth)
    also have "\<dots> = (map (\<lambda>f. if f < k then ?c f else outs ! f) [0..<5])[k := ?c k]"
      using k by (simp add: copy_field_sealed[OF assms(1) k assms(2)])
    also have "\<dots> = map (\<lambda>f. if f < Suc k then ?c f else outs ! f) [0..<5]"
      by (rule nth_equalityI) (auto simp: nth_list_update less_Suc_eq)
    finally show ?case .
  qed
  from this[of 5] show ?thesis using len by (simp cong: map_cong)
qed

lemma copy_inputs:
  assumes "list_all2 sealed rss ins" "list_all2 (\<lambda>xs rm. length rm = length xs) rss remap" "length outs = 5"
  shows "fold (\<lambda>(ms, rm). fold (copy_field rm) (ms_fields ms)) (zip ins remap) outs
      = map (\<lambda>f. fold (set_length (doc_length f)) (zip (concat remap) (concat rss)) (outs ! f)) [0..<5]"
  using assms
proof (induction rss arbitrary: ins remap outs)
  case Nil
  then show ?case using map_nth[of outs] by simp
next
  case (Cons rs rss)
  obtain ms ins' rm remap' where c: "ins = ms # ins'" "remap = rm # remap'" "sealed rs ms" "length rm = length rs"
    "list_all2 sealed rss ins'" "list_all2 (\<lambda>xs rm. length rm = length xs) rss remap'"
    using Cons.prems(1,2) by (auto simp: list_all2_Cons1)
  show ?case
    using Cons.IH[OF c(5,6), of "map (\<lambda>f. fold (set_length (doc_length f)) (zip rm rs) (outs ! f)) [0..<5]"] copy_fields[OF c(3,4) Cons.prems(3)] c(4)
    by (simp add: c(1,2) cong: map_cong)
qed

lemma mergeDocLengths_survivors:
  assumes "list_all2 sealed rss ins" "remaps rss R remap" "length (mp_members p) = length R"
  shows "mergeDocLengths p ins remap = map (\<lambda>f. map (doc_length f) R) [0..<5]"
proof -
  let ?outs = "replicate 5 (replicate (length R) 0)"
  have r: "list_all2 (\<lambda>xs rm. length rm = length xs) rss remap"
    and f: "filter (\<lambda>(n, x). 0 \<le> n) (zip (concat remap) (concat rss)) = zip (map int [0..<length R]) R"
    using assms(2) by (simp_all add: remaps_def)
  have "mergeDocLengths p ins remap = map (\<lambda>f. fold (set_length (doc_length f)) (zip (concat remap) (concat rss)) (?outs ! f)) [0..<5]"
    using copy_inputs[OF assms(1) r, of ?outs] assms(3) by (simp add: mergeDocLengths_def)
  also have "\<dots> = map (\<lambda>f. map (doc_length f) R) [0..<5]"
  proof (rule map_cong[OF refl])
    fix k assume "k \<in> set [0..<5 :: nat]"
    then show "fold (set_length (doc_length k)) (zip (concat remap) (concat rss)) (?outs ! k) = map (doc_length k) R"
      using set_length_all[of "[]" R "replicate (length R) 0" "doc_length k"] by (subst set_length_skip) (simp add: f)
  qed
  finally show ?thesis .
qed

end
