(* ===== verification/Bm25Emit.thy ===== *)
theory Bm25Emit
  imports Bm25Splice
begin

text \<open>
  The emitter of a merge with the front-coded dictionary, which is what \<open>MergeTo\<close> writes: for the calls
  of a walk the file ends up holding every store of a segment's layout, at the offsets the appends
  landed on. Every store made so far is shown by the writer and lies in a part of the file that no
  later call writes to: below the next row of its section, or below the tail.
\<close>

section \<open>Bytes that are shown\<close>

definition shown :: "(nat \<Rightarrow> byte) \<Rightarrow> bstore \<Rightarrow> bool" where
  "shown g w \<longleftrightarrow> (\<forall>k < length (st_bytes w). g (st_off w + k) = st_bytes w ! k)"

lemma shown_Cpy [simp]: "shown g (Cpy off b) = shown g (Put off b)"
  by (simp add: shown_def)

lemma shown_wr: "shown (wr off b g) (Put off b)"
  by (simp add: shown_def wr_def)

lemma shown_wr_disj: "shown g v \<Longrightarrow> disj v (Put off b) \<Longrightarrow> shown (wr off b g) v"
  by (auto simp: shown_def wr_def disj_def st_end_def)

lemma shown_Nil [simp]: "shown g (Put off [])"
  by (simp add: shown_def)

lemma shown_append: "shown g (Put off (a @ b)) \<longleftrightarrow> shown g (Put off a) \<and> shown g (Put (off + length a) b)"
proof
  assume s: "shown g (Put off (a @ b))"
  have "g (off + k) = a ! k" if "k < length a" for k using s that by (simp add: shown_def nth_append)
  moreover have "g (off + length a + k) = b ! k" if "k < length b" for k
    using s that by (simp add: shown_def nth_append add.assoc)
  ultimately show "shown g (Put off a) \<and> shown g (Put (off + length a) b)" by (simp add: shown_def)
next
  assume s: "shown g (Put off a) \<and> shown g (Put (off + length a) b)"
  show "shown g (Put off (a @ b))"
    unfolding shown_def
  proof (intro allI impI)
    fix k assume k: "k < length (st_bytes (Put off (a @ b)))"
    show "g (st_off (Put off (a @ b)) + k) = st_bytes (Put off (a @ b)) ! k"
    proof (cases "k < length a")
      case False
      then have "k - length a < length b" "off + length a + (k - length a) = off + k" using k by simp_all
      moreover have "\<forall>j < length b. g (off + length a + j) = b ! j" using s by (simp add: shown_def)
      ultimately have "g (off + k) = b ! (k - length a)" by metis
      then show ?thesis using False by (simp add: nth_append)
    qed (use s in \<open>simp add: shown_def nth_append\<close>)
  qed
qed

lemma shown_rows:
  assumes "\<And>i. i < length bss \<Longrightarrow> length (bss ! i) = n" "shown g (Put off (concat bss))" "i < length bss"
  shows "shown g (Put (off + n * i) (bss ! i))"
  using assms
proof (induction bss arbitrary: off i)
  case (Cons b bss)
  have b: "length b = n" using Cons.prems(1)[of 0] by simp
  have s: "shown g (Put off b)" "shown g (Put (off + n) (concat bss))" using Cons.prems(2) b by (simp_all add: shown_append)
  show ?case
  proof (cases i)
    case (Suc j)
    then show ?thesis using Cons.IH[of "off + n" j] Cons.prems(1)[of "Suc _"] Cons.prems(3) s(2) by (simp add: algebra_simps)
  qed (use s in simp)
qed simp

lemma shown_holds: "shown g w \<Longrightarrow> st_end w \<le> n \<Longrightarrow> holds (map g [0..<n]) w"
  by (auto simp: shown_def holds_def st_end_def intro!: nth_equalityI)

section \<open>The bytes of a front-coded block and of a posting run\<close>

fun coded_bytes :: "string \<Rightarrow> dict_entry list \<Rightarrow> byte list" where
  "coded_bytes prev [] = []"
| "coded_bytes prev ((t, po, pc) # es) =
     put_le 2 (sharedPrefixLen prev t) @ put_le 2 (length t - sharedPrefixLen prev t) @ bytes_of (drop (sharedPrefixLen prev t) t)
     @ put_le 4 po @ put_le 4 pc @ coded_bytes t es"

fun payload_bytes :: "dict_entry list \<Rightarrow> byte list" where
  "payload_bytes [] = []"
| "payload_bytes ((t, po, pc) # es) = put_le 4 po @ put_le 4 pc @ coded_bytes t es"

lemma coded_bytes_snoc: "coded_bytes prev (es @ [e]) = coded_bytes prev es @ coded_bytes (last (prev # map fst es)) [e]"
proof (induction prev es rule: coded_bytes.induct)
  case (2 prev t po pc es)
  show ?case unfolding append_Cons coded_bytes.simps(2)[of prev t po pc "es @ [e]"] coded_bytes.simps(2)[of prev t po pc es] 2 by simp
qed simp

lemma payload_bytes_snoc: "es \<noteq> [] \<Longrightarrow> payload_bytes (es @ [e]) = payload_bytes es @ coded_bytes (fst (last es)) [e]"
  by (cases es rule: payload_bytes.cases) (auto simp: coded_bytes_snoc last_map)

lemma shown_coded: "shown g (Put at (coded_bytes prev es)) \<Longrightarrow> w \<in> set (coded_stores at prev es) \<Longrightarrow> shown g w"
proof (induction "at" prev es arbitrary: w rule: coded_stores.induct)
  case (2 at prev t po pc es w)
  let ?s = "sharedPrefixLen prev t"
  let ?at = "at + 4 + length (drop ?s t)"
  have h: "shown g (put16 at ?s)" "shown g (put16 (at + 2) (length (drop ?s t)))" "shown g (cpy (at + 4) (drop ?s t))"
    "shown g (put32 ?at po)" "shown g (put32 (?at + 4) pc)" "shown g (Put (?at + 8) (coded_bytes t es))"
  proof -
    have a: "at + 2 + 2 = at + 4" "at + 4 + (length t - ?s) + 4 + 4 = at + 4 + (length t - ?s) + 8" by simp_all
    show "shown g (put16 at ?s)" "shown g (put16 (at + 2) (length (drop ?s t)))" "shown g (cpy (at + 4) (drop ?s t))"
      "shown g (put32 ?at po)" "shown g (put32 (?at + 4) pc)" "shown g (Put (?at + 8) (coded_bytes t es))"
      using "2.prems"(1) unfolding coded_bytes.simps shown_append length_put_le length_bytes_of a shown_Cpy length_drop by blast+
  qed
  have "shown g v" if "v \<in> set (coded_stores (?at + 8) t es)" for v
    by (rule "2.IH"[OF refl refl refl h(6) that])
  then show ?case using "2.prems"(2) h(1-5) by (auto simp: Let_def)
qed simp

lemma shown_payload: "shown g (Put at (payload_bytes es)) \<Longrightarrow> w \<in> set (writeBlockedPayload at es) \<Longrightarrow> shown g w"
  by (cases es rule: payload_bytes.cases) (auto simp: writeBlockedPayload_def shown_append add.assoc dest: shown_coded)

lemma length_posting_bytes: "length (posting_bytes run) = 6 * length run"
proof -
  have "length (concat (map (\<lambda>(d, tf). put_le k (h d tf)) run)) = k * length run" for k and h :: "nat \<Rightarrow> nat \<Rightarrow> nat"
    by (induction run) auto
  from this[of 4 "\<lambda>d tf. d"] this[of 2 "\<lambda>d tf. tf"] show ?thesis by (simp add: posting_bytes_def)
qed

lemma shown_postings:
  assumes "shown g (Put at (posting_bytes (pairs_of ps)))" "w \<in> set (posting_stores at ps)"
  shows "shown g w"
proof -
  let ?n = "length ps" and ?ids = "map (\<lambda>p. put_le 4 (unat (p_docID p))) ps" and ?tfs = "map (\<lambda>p. put_le 2 (unat (p_tf p))) ps"
  have b: "posting_bytes (pairs_of ps) = concat ?ids @ concat ?tfs" by (simp add: posting_bytes_def pairs_of_def comp_def)
  have "length (concat ?ids) = 4 * ?n" by (induction ps) auto
  then have s: "shown g (Put at (concat ?ids))" "shown g (Put (at + 4 * ?n) (concat ?tfs))"
    using assms(1) unfolding b shown_append by simp_all
  have "shown g (put32 (at + 4 * j) (unat (p_docID (ps ! j))))" "shown g (put16 (at + 4 * ?n + 2 * j) (unat (p_tf (ps ! j))))" if "j < ?n" for j
    using shown_rows[OF _ s(1), of 4 j] shown_rows[OF _ s(2), of 2 j] that by simp_all
  then show ?thesis using assms(2) by (auto simp: posting_stores_def)
qed

section \<open>Patches\<close>

abbreviation patches :: "(nat \<times> byte list) list \<Rightarrow> wcall list" where "patches ps \<equiv> map (\<lambda>(off, b). Patch off b) ps"
abbreviation puts :: "(nat \<times> byte list) list \<Rightarrow> bstore list" where "puts ps \<equiv> map (\<lambda>(off, b). Put off b) ps"

lemma patches_shown:
  assumes "sink_ok io"
  shows "win w \<Longrightarrow> sorted_wrt disj (puts ps) \<Longrightarrow> w' = fold (run_call io) (patches ps) w \<Longrightarrow>
    win w' \<and> w_tail w' = w_tail w
    \<and> (calm w \<longrightarrow> (\<forall>(off, b) \<in> set ps. off + length b + mergeRunMaxGap < w_tail w) \<longrightarrow> calm w')
    \<and> (\<forall>v. shown (img w) v \<longrightarrow> (\<forall>u \<in> set (puts ps). disj v u) \<longrightarrow> shown (img w') v)
    \<and> (\<forall>v \<in> set (puts ps). shown (img w') v)"
proof (induction ps arbitrary: w)
  case (Cons x ps)
  obtain off b where x: "x = (off, b)" by (cases x)
  let ?w = "patch io off b w"
  have p: "win ?w" "img ?w = wr off b (img w)" "w_tail ?w = w_tail w" using patch_shows[OF Cons.prems(1) assms] by simp_all
  have IH: "win w' \<and> w_tail w' = w_tail ?w
    \<and> (calm ?w \<longrightarrow> (\<forall>(off, b) \<in> set ps. off + length b + mergeRunMaxGap < w_tail ?w) \<longrightarrow> calm w')
    \<and> (\<forall>v. shown (img ?w) v \<longrightarrow> (\<forall>u \<in> set (puts ps). disj v u) \<longrightarrow> shown (img w') v)
    \<and> (\<forall>v \<in> set (puts ps). shown (img w') v)"
    by (rule Cons.IH[OF p(1)]) (use Cons.prems x in simp_all)
  have "shown (img ?w) (Put off b)" unfolding p(2) by (rule shown_wr)
  moreover have "\<forall>u \<in> set (puts ps). disj (Put off b) u" using Cons.prems(2) by (simp add: x)
  ultimately have "shown (img w') (Put off b)" using IH by blast
  moreover have "shown (img ?w) v" if "shown (img w) v" "disj v (Put off b)" for v
    unfolding p(2) by (rule shown_wr_disj[OF that])
  moreover have "calm ?w" if "calm w" "off + length b + mergeRunMaxGap < w_tail w"
    by (rule patch_calm[OF Cons.prems(1) assms that])
  ultimately show ?case using IH p(3) by (auto simp: x)
qed auto


section \<open>The parts of the file\<close>

abbreviation first_rows :: "mergePlan \<Rightarrow> nat \<Rightarrow> nat" where "first_rows p f \<equiv> md_firstTermsOff (mp_dicts p ! f)"
abbreviation block_rows :: "mergePlan \<Rightarrow> nat \<Rightarrow> nat" where "block_rows p f \<equiv> md_blockIdxOff (mp_dicts p ! f)"
abbreviation blocks_of :: "mergePlan \<Rightarrow> nat \<Rightarrow> nat" where "blocks_of p f \<equiv> blockCountOf (mp_termCount p ! f)"

definition plan_ok :: "mergePlan \<Rightarrow> bool" where
  "plan_ok p \<longleftrightarrow> mp_kind p = dictBlocked
     \<and> (\<forall>f < 5. 28 \<le> first_rows p f \<and> first_rows p f + 8 * blocks_of p f \<le> block_rows p f \<and> block_rows p f + 4 * blocks_of p f + 8 \<le> mp_dfEntriesOff p)
     \<and> (\<forall>f < 5. \<forall>f' < 5. f < f' \<longrightarrow> block_rows p f + 4 * blocks_of p f + 16 \<le> first_rows p f')
     \<and> mp_dfEntriesOff p + 16 * mp_dfCount p \<le> mp_prefixEnd p"

text \<open>
  Where stores lie when \<open>S f\<close> first-term rows and \<open>C f\<close> block-index rows of field \<open>f\<close>, \<open>dn\<close>
  document-frequency rows and the tail up to \<open>t\<close> have been written: the last case is the fixed prefix,
  less the length of the blob at 24.
\<close>

definition zone :: "mergePlan \<Rightarrow> (nat \<Rightarrow> nat) \<Rightarrow> (nat \<Rightarrow> nat) \<Rightarrow> nat \<Rightarrow> nat \<Rightarrow> bstore \<Rightarrow> bool" where
  "zone p S C dn t v \<longleftrightarrow>
     mp_prefixEnd p \<le> st_off v \<and> st_end v \<le> t
   \<or> (\<exists>f < 5. first_rows p f \<le> st_off v \<and> st_end v \<le> first_rows p f + 8 * S f)
   \<or> (\<exists>f < 5. block_rows p f \<le> st_off v \<and> st_end v \<le> block_rows p f + 4 * C f)
   \<or> mp_dfEntriesOff p \<le> st_off v \<and> st_end v \<le> mp_dfEntriesOff p + 16 * dn
   \<or> st_end v \<le> mp_dfEntriesOff p \<and> (st_end v \<le> 24 \<or> 28 \<le> st_off v)
     \<and> (\<forall>f < 5. st_end v \<le> first_rows p f \<or> block_rows p f + 4 * blocks_of p f \<le> st_off v)"

definition counts_ok :: "mergePlan \<Rightarrow> (nat \<Rightarrow> nat) \<Rightarrow> (nat \<Rightarrow> nat) \<Rightarrow> nat \<Rightarrow> bool" where
  "counts_ok p S C dn \<longleftrightarrow> (\<forall>f < 5. S f \<le> blocks_of p f \<and> C f \<le> blocks_of p f) \<and> dn \<le> mp_dfCount p"

lemma zone_mono:
  "zone p S C dn t v \<Longrightarrow> (\<And>f. S f \<le> S' f) \<Longrightarrow> (\<And>f. C f \<le> C' f) \<Longrightarrow> dn \<le> dn' \<Longrightarrow> t \<le> t' \<Longrightarrow> zone p S' C' dn' t' v"
proof -
  assume z: "zone p S C dn t v" and S: "\<And>f. S f \<le> S' f" and C: "\<And>f. C f \<le> C' f" and d: "dn \<le> dn'" "t \<le> t'"
  have "first_rows p f + 8 * S f \<le> first_rows p f + 8 * S' f" "block_rows p f + 4 * C f \<le> block_rows p f + 4 * C' f" for f
    using S C by simp_all
  then show ?thesis using z d unfolding zone_def by (meson add_left_mono le_trans mult_le_mono2)
qed

lemma plan_field:
  assumes "plan_ok p" "f < 5"
  shows "28 \<le> first_rows p f" "first_rows p f + 8 * blocks_of p f \<le> block_rows p f" "block_rows p f + 4 * blocks_of p f + 8 \<le> mp_dfEntriesOff p"
    "mp_dfEntriesOff p + 16 * mp_dfCount p \<le> mp_prefixEnd p"
    and "f' < 5 \<Longrightarrow> f' < f \<Longrightarrow> block_rows p f' + 4 * blocks_of p f' + 16 \<le> first_rows p f"
    and "f' < 5 \<Longrightarrow> f < f' \<Longrightarrow> block_rows p f + 4 * blocks_of p f + 16 \<le> first_rows p f'"
  using assms unfolding plan_ok_def by blast+

text \<open>What is done avoids the tail, the next rows of a field and the next document-frequency row.\<close>

lemma zone_field:
  assumes "zone p S C dn t v" "plan_ok p" "counts_ok p S C dn" "f < 5"
  shows "st_end v \<le> first_rows p f \<or> first_rows p f \<le> st_off v \<and> st_end v \<le> first_rows p f + 8 * S f
    \<or> block_rows p f \<le> st_off v \<and> st_end v \<le> block_rows p f + 4 * C f \<or> block_rows p f + 4 * blocks_of p f \<le> st_off v"
proof -
  note pf = plan_field[OF assms(2,4)]
  have c: "S f' \<le> blocks_of p f'" "C f' \<le> blocks_of p f'" if "f' < 5" for f' using assms(3) that by (simp_all add: counts_ok_def)
  consider (tail) "mp_prefixEnd p \<le> st_off v" | (first) f' where "f' < 5" "first_rows p f' \<le> st_off v" "st_end v \<le> first_rows p f' + 8 * S f'"
    | (index) f' where "f' < 5" "block_rows p f' \<le> st_off v" "st_end v \<le> block_rows p f' + 4 * C f'"
    | (df) "mp_dfEntriesOff p \<le> st_off v" | (fixed) "st_end v \<le> first_rows p f \<or> block_rows p f + 4 * blocks_of p f \<le> st_off v"
    using assms(1,4) unfolding zone_def by blast
  then show ?thesis
  proof cases
    case first
    note f' = plan_field[OF assms(2) first(1)]
    consider "f' < f" | "f' = f" | "f < f'" by linarith
    then show ?thesis
    proof cases
      case 1
      then show ?thesis using pf(5)[OF first(1)] first f'(2) c(1)[OF first(1)] by linarith
    next
      case 3
      then show ?thesis using pf(6)[OF first(1)] first by linarith
    qed (use first in simp)
  next
    case index
    note f' = plan_field[OF assms(2) index(1)]
    consider "f' < f" | "f' = f" | "f < f'" by linarith
    then show ?thesis
    proof cases
      case 1
      then show ?thesis using pf(5)[OF index(1)] index c(2)[OF index(1)] by linarith
    next
      case 3
      then show ?thesis using pf(6)[OF index(1)] index f'(2) by linarith
    qed (use index in simp)
  qed (use pf(3,4) in linarith)+
qed

lemma zone_prefix:
  assumes "zone p S C dn t v" "plan_ok p" "counts_ok p S C dn"
  shows "mp_prefixEnd p \<le> st_off v \<and> st_end v \<le> t \<or> mp_dfEntriesOff p \<le> st_off v \<and> st_end v \<le> mp_dfEntriesOff p + 16 * dn \<or> st_end v \<le> mp_dfEntriesOff p"
proof -
  have c: "S f \<le> blocks_of p f \<and> C f \<le> blocks_of p f" if "f < 5" for f using assms(3) that by (simp add: counts_ok_def)
  have "st_end v \<le> mp_dfEntriesOff p" if "f < 5" "st_end v \<le> first_rows p f + 8 * S f" for f
    using plan_field(2,3)[OF assms(2) that(1)] c[OF that(1)] that(2) by linarith
  moreover have "st_end v \<le> mp_dfEntriesOff p" if "f < 5" "st_end v \<le> block_rows p f + 4 * C f" for f
    using plan_field(2,3)[OF assms(2) that(1)] c[OF that(1)] that(2) by linarith
  ultimately show ?thesis using assms(1) unfolding zone_def by blast
qed

lemma zone_hole:
  assumes "zone p S C dn t v" "plan_ok p"
  shows "st_end v \<le> 24 \<or> 28 \<le> st_off v"
proof -
  note pf = plan_field[OF assms(2)]
  have "28 \<le> mp_dfEntriesOff p" "mp_dfEntriesOff p \<le> mp_prefixEnd p" using pf(1-4)[of 0] by linarith+
  moreover have "28 \<le> first_rows p f" "28 \<le> block_rows p f" if "f < 5" for f using pf(1,2)[OF that] by linarith+
  ultimately show ?thesis using assms(1) unfolding zone_def by (meson order_trans)
qed

section \<open>One step of the writer\<close>

definition kept :: "mergePlan \<Rightarrow> mergeWriter \<Rightarrow> (nat \<Rightarrow> nat) \<Rightarrow> (nat \<Rightarrow> nat) \<Rightarrow> nat \<Rightarrow> bstore set \<Rightarrow> bool" where
  "kept p w S C dn K \<longleftrightarrow> win w \<and> (0 < mp_dfCount p \<longrightarrow> calm w) \<and> mp_prefixEnd p \<le> w_tail w \<and> counts_ok p S C dn
     \<and> (\<forall>v \<in> K. shown (img w) v \<and> zone p S C dn (w_tail w) v)"

lemma kept_append:
  assumes "kept p w S C dn K" "plan_ok p" "sink_ok io" "0 < mp_dfCount p" "0 < a" "appendAligned io b a w = (w', off)"
  shows "off = align (w_tail w) a" "w_tail w' = off + length b" "kept p w' S C dn (insert (Put off b) K)"
proof -
  have k: "win w" "calm w" "mp_prefixEnd p \<le> w_tail w" "counts_ok p S C dn"
    "\<And>v. v \<in> K \<Longrightarrow> shown (img w) v" "\<And>v. v \<in> K \<Longrightarrow> zone p S C dn (w_tail w) v" using assms(1,4) by (simp_all add: kept_def)
  have w': "w' = (storeAppend io off b w)\<lparr>w_tail := off + length b\<rparr>" and off: "off = align (w_tail w) a"
    using assms(6) k(1) by (auto simp: appendAligned_def Let_def win_def)
  have le: "w_tail w \<le> off" using align_ge[OF assms(5)] off by simp
  show "off = align (w_tail w) a" and t: "w_tail w' = off + length b" using off w' by simp_all
  have a: "win w'" "img w' = wr off b (img w)" "calm w'" using append_shows[OF k(1) assms(3) k(2) le, of b] w' by simp_all
  have d: "disj v (Put off b)" if "v \<in> K" for v
  proof -
    have "st_end v \<le> off"
      using zone_prefix[OF k(6)[OF that] assms(2) k(4)] plan_field(4)[OF assms(2), of 0] k(3,4) le by (auto simp: counts_ok_def)
    then show ?thesis by (simp add: disj_def)
  qed
  have "shown (img w') v" if "v \<in> K" for v
    unfolding a(2) by (rule shown_wr_disj[OF k(5)[OF that] d[OF that]])
  moreover have "zone p S C dn (w_tail w') v" if "v \<in> K" for v
    by (rule zone_mono[OF k(6)[OF that]]) (use le in \<open>simp_all add: t\<close>)
  moreover have "zone p S C dn (w_tail w') (Put off b)" using k(3) le by (simp add: zone_def t)
  moreover have "shown (img w') (Put off b)" unfolding a(2) by (rule shown_wr)
  ultimately show "kept p w' S C dn (insert (Put off b) K)" using a(1,3) k(3,4) le t by (simp add: kept_def)
qed

text \<open>Patches of disjoint rows that no store lies on.\<close>

lemma kept_patches:
  assumes "kept p w S C dn K" "sink_ok io" "w' = fold (run_call io) (patches ps) w" "sorted_wrt disj (puts ps)"
    and "\<And>v u. v \<in> K \<Longrightarrow> u \<in> set (puts ps) \<Longrightarrow> disj v u"
    and "\<And>off b. 0 < mp_dfCount p \<Longrightarrow> (off, b) \<in> set ps \<Longrightarrow> off + length b + mergeRunMaxGap < w_tail w"
    and "counts_ok p S' C' dn'" "\<And>f. S f \<le> S' f" "\<And>f. C f \<le> C' f" "dn \<le> dn'"
    and "\<And>u. u \<in> set (puts ps) \<Longrightarrow> zone p S' C' dn' (w_tail w) u"
  shows "w_tail w' = w_tail w" "kept p w' S' C' dn' (set (puts ps) \<union> K)"
proof -
  have k: "win w" "0 < mp_dfCount p \<Longrightarrow> calm w" "mp_prefixEnd p \<le> w_tail w" "\<And>v. v \<in> K \<Longrightarrow> shown (img w) v \<and> zone p S C dn (w_tail w) v"
    using assms(1) by (simp_all add: kept_def)
  note s = patches_shown[OF assms(2) k(1) assms(4,3)]
  show t: "w_tail w' = w_tail w" using s by blast
  have "win w'" using s by blast
  moreover have "0 < mp_dfCount p \<longrightarrow> calm w'" using s k(2) assms(6) by blast
  moreover have "shown (img w') v" if "v \<in> set (puts ps) \<union> K" for v using that s k(4) assms(5) by blast
  moreover have "zone p S' C' dn' (w_tail w') v" if "v \<in> set (puts ps)" for v unfolding t by (rule assms(11)[OF that])
  moreover have "zone p S' C' dn' (w_tail w') v" if "v \<in> K" for v
    by (rule zone_mono[OF k(4)[OF that, THEN conjunct2] assms(8-10)]) (simp add: t)
  moreover have "mp_prefixEnd p \<le> w_tail w'" using k(3) t by simp
  ultimately show "kept p w' S' C' dn' (set (puts ps) \<union> K)" using assms(7) unfolding kept_def by (meson UnE)
qed

lemma kept_first:
  fixes x y :: nat
  assumes "kept p w S C dn K" "plan_ok p" "sink_ok io" "0 < mp_dfCount p" "f < 5" "S f < blocks_of p f" "row = first_rows p f + 8 * S f"
  defines "w' \<equiv> fold (run_call io) [patch32 row x, patch32 (row + 4) y] w"
  shows "w_tail w' = w_tail w" "kept p w' (S(f := Suc (S f))) C dn ({put32 row x, put32 (row + 4) y} \<union> K)"
proof -
  let ?ps = "[(row, put_le 4 x), (row + 4, put_le 4 y)]"
  have w': "w' = fold (run_call io) (patches ?ps) w" by (simp add: w'_def)
  have k: "counts_ok p S C dn" "mp_prefixEnd p \<le> w_tail w" "\<And>v. v \<in> K \<Longrightarrow> zone p S C dn (w_tail w) v" using assms(1) by (simp_all add: kept_def)
  note pf = plan_field[OF assms(2,5)]
  have le: "row + 8 \<le> block_rows p f" using pf(2) assms(6,7) by linarith
  have d: "disj v u" if "v \<in> K" "u \<in> set (puts ?ps)" for v u
    using zone_field[OF k(3)[OF that(1)] assms(2) k(1) assms(5)] that(2) pf(2) assms(6,7) by (auto simp: disj_def)
  have z: "zone p (S(f := Suc (S f))) C dn (w_tail w) u" if "u \<in> set (puts ?ps)" for u
    using that assms(5,7) by (auto simp: zone_def)
  have c: "counts_ok p (S(f := Suc (S f))) C dn" using k(1) assms(6) by (auto simp: counts_ok_def)
  have b: "off + length b + mergeRunMaxGap < w_tail w" if "(off, b) \<in> set ?ps" for off b
    using that le pf(3,4) assms(4) k(2) by auto
  note r = kept_patches[where S' = "S(f := Suc (S f))" and C' = C, OF assms(1,3) w' _ d b c _ _ _ z]
  show "w_tail w' = w_tail w" "kept p w' (S(f := Suc (S f))) C dn ({put32 row x, put32 (row + 4) y} \<union> K)"
    using r by (simp_all add: disj_def)
qed

lemma kept_index:
  fixes x :: nat
  assumes "kept p w S C dn K" "plan_ok p" "sink_ok io" "0 < mp_dfCount p" "f < 5" "C f < blocks_of p f" "row = block_rows p f + 4 * C f"
  defines "w' \<equiv> fold (run_call io) [patch32 row x] w"
  shows "w_tail w' = w_tail w" "kept p w' S (C(f := Suc (C f))) dn (insert (put32 row x) K)"
proof -
  let ?ps = "[(row, put_le 4 x)]"
  have w': "w' = fold (run_call io) (patches ?ps) w" by (simp add: w'_def)
  have k: "counts_ok p S C dn" "mp_prefixEnd p \<le> w_tail w" "\<And>v. v \<in> K \<Longrightarrow> zone p S C dn (w_tail w) v" using assms(1) by (simp_all add: kept_def)
  note pf = plan_field[OF assms(2,5)]
  have "S f \<le> blocks_of p f" using k(1) assms(5) by (simp add: counts_ok_def)
  then have d: "disj v u" if "v \<in> K" "u \<in> set (puts ?ps)" for v u
    using zone_field[OF k(3)[OF that(1)] assms(2) k(1) assms(5)] that(2) pf(2) assms(6,7) by (auto simp: disj_def)
  have z: "zone p S (C(f := Suc (C f))) dn (w_tail w) u" if "u \<in> set (puts ?ps)" for u
    using that assms(5,7) by (auto simp: zone_def)
  have c: "counts_ok p S (C(f := Suc (C f))) dn" using k(1) assms(6) by (auto simp: counts_ok_def)
  have b: "off + length b + mergeRunMaxGap < w_tail w" if "(off, b) \<in> set ?ps" for off b
    using that pf(3,4) assms(4,6,7) k(2) by auto
  note r = kept_patches[where S' = S and C' = "C(f := Suc (C f))", OF assms(1,3) w' _ d b c _ _ _ z]
  show "w_tail w' = w_tail w" "kept p w' S (C(f := Suc (C f))) dn (insert (put32 row x) K)"
    using r by simp_all
qed

lemma kept_df:
  fixes x y z :: nat
  assumes "kept p w S C dn K" "plan_ok p" "sink_ok io" "dn < mp_dfCount p" "row = mp_dfEntriesOff p + 16 * dn"
    and "mp_prefixEnd p + mergeRunMaxGap < w_tail w"
  defines "w' \<equiv> fold (run_call io) [patch32 row x, patch32 (row + 4) y, patch64 (row + 8) z] w"
  shows "w_tail w' = w_tail w" "kept p w' S C (Suc dn) ({put32 row x, put32 (row + 4) y, put64 (row + 8) z} \<union> K)"
proof -
  let ?ps = "[(row, put_le 4 x), (row + 4, put_le 4 y), (row + 8, put_le 8 z)]"
  have w': "w' = fold (run_call io) (patches ?ps) w" by (simp add: w'_def)
  have k: "counts_ok p S C dn" "\<And>v. v \<in> K \<Longrightarrow> zone p S C dn (w_tail w) v" using assms(1) by (simp_all add: kept_def)
  have le: "row + 16 \<le> mp_prefixEnd p" using plan_field(4)[OF assms(2), of 0] assms(4,5) by simp
  have d: "disj v u" if "v \<in> K" "u \<in> set (puts ?ps)" for v u
    using zone_prefix[OF k(2)[OF that(1)] assms(2) k(1)] that(2) le assms(5) by (auto simp: disj_def)
  have z: "zone p S C (Suc dn) (w_tail w) u" if "u \<in> set (puts ?ps)" for u
    using that assms(5) by (auto simp: zone_def)
  have c: "counts_ok p S C (Suc dn)" using k(1) assms(4) by (auto simp: counts_ok_def)
  have b: "off + length b + mergeRunMaxGap < w_tail w" if "(off, b) \<in> set ?ps" for off b
    using that le assms(6) by auto
  note r = kept_patches[where S' = S and C' = C and dn' = "Suc dn", OF assms(1,3) w' _ d b c _ _ _ z]
  show "w_tail w' = w_tail w" "kept p w' S C (Suc dn) ({put32 row x, put32 (row + 4) y, put64 (row + 8) z} \<union> K)"
    using r by (simp_all add: disj_def)
qed

end
