(* ===== verification/Bm25Emitted.thy ===== *)
theory Bm25Emitted
  imports Bm25Emit
begin

text \<open>
  What the emitter of a merge has stored after a number of calls: the posting run of every entry, the
  first term and the two rows of every block begun, payload and index row of every block closed, and the
  rows of the document frequencies; and what it still holds back, the payload of a field's open block.
\<close>

section \<open>What has been stored\<close>

type_synonym runs = "nat \<Rightarrow> string \<Rightarrow> (nat \<times> nat) list"

definition entry_done :: "runs \<Rightarrow> bstore set \<Rightarrow> nat \<Rightarrow> dict_entry \<Rightarrow> bool" where
  "entry_done run K f = (\<lambda>(t, po, pc). pc = length (run f t) \<and> 4 dvd po \<and> Put po (posting_bytes (run f t)) \<in> K)"

definition first_done :: "mergePlan \<Rightarrow> bstore set \<Rightarrow> nat \<Rightarrow> dict_entry list \<Rightarrow> nat \<Rightarrow> bool" where
  "first_done p K f es b \<longleftrightarrow> (let t = fst (es ! (b * blockedBlockTerms)); row = first_rows p f + 8 * b
     in \<exists>to. Put to (bytes_of t) \<in> K \<and> put32 row to \<in> K \<and> put32 (row + 4) (length t) \<in> K)"

definition block_done :: "mergePlan \<Rightarrow> bstore set \<Rightarrow> nat \<Rightarrow> dict_entry list \<Rightarrow> nat \<Rightarrow> bool" where
  "block_done p K f es b \<longleftrightarrow> (\<exists>at. Put at (payload_bytes (block_slice b es)) \<in> K \<and> put32 (block_rows p f + 4 * b) at \<in> K)"

definition field_done :: "runs \<Rightarrow> mergePlan \<Rightarrow> bstore set \<Rightarrow> nat \<Rightarrow> dict_entry list \<Rightarrow> nat \<Rightarrow> bool" where
  "field_done run p K f es c \<longleftrightarrow> (\<forall>x \<in> set es. entry_done run K f x) \<and> (\<forall>b < blockCountOf (length es). first_done p K f es b)
     \<and> (\<forall>b < c. block_done p K f es b)"

definition df_done :: "mergePlan \<Rightarrow> bstore set \<Rightarrow> (string \<times> int) list \<Rightarrow> bool" where
  "df_done p K ds \<longleftrightarrow> (\<forall>i < length ds. let (t, df) = ds ! i; row = mp_dfEntriesOff p + 16 * i
     in \<exists>to. Put to (bytes_of t) \<in> K \<and> put32 row to \<in> K \<and> put32 (row + 4) (length t) \<in> K \<and> put64 (row + 8) (u64_of_int df) \<in> K)"

text \<open>The open block of a field: its first \<open>c\<close> blocks are closed.\<close>

definition cursor_ok :: "mergeEmitter \<Rightarrow> nat \<Rightarrow> dict_entry list \<Rightarrow> nat \<Rightarrow> bool" where
  "cursor_ok e f es c \<longleftrightarrow> e_next e ! f = length es \<and> e_inBlock e ! f = length es - c * blockedBlockTerms
     \<and> (c * blockedBlockTerms < length es \<longrightarrow>
          e_payload e ! f = payload_bytes (drop (c * blockedBlockTerms) es) \<and> e_prev e ! f = fst (last es))"

definition checks_ok :: "mergeEmitter \<Rightarrow> bool" where
  "checks_ok e \<longleftrightarrow> e_misaligned e = None \<and> e_blockOutside e = None \<and> dr_end (e_furthest e) \<le> w_tail (e_w e)
     \<and> br_at (e_blockFurthest e) + br_size (e_blockFurthest e) \<le> w_tail (e_w e)"

definition five :: "mergeEmitter \<Rightarrow> bool" where
  "five e \<longleftrightarrow> length (e_next e) = 5 \<and> length (e_inBlock e) = 5 \<and> length (e_payload e) = 5 \<and> length (e_prev e) = 5"

abbreviation begun :: "(nat \<Rightarrow> dict_entry list) \<Rightarrow> nat \<Rightarrow> nat" where "begun E \<equiv> \<lambda>f. blockCountOf (length (E f))"

definition emitted :: "runs \<Rightarrow> mergePlan \<Rightarrow> mergeEmitter \<Rightarrow> bstore set \<Rightarrow> (nat \<Rightarrow> dict_entry list) \<Rightarrow> (nat \<Rightarrow> nat) \<Rightarrow> (string \<times> int) list \<Rightarrow> bool" where
  "emitted run p e K E C ds \<longleftrightarrow> kept p (e_w e) (begun E) C (length ds) K \<and> five e \<and> checks_ok e
     \<and> (\<forall>f < 5. field_done run p K f (E f) (C f) \<and> cursor_ok e f (E f) (C f)) \<and> e_dfNext e = length ds \<and> df_done p K ds"

lemma done_mono:
  assumes "K \<subseteq> K'"
  shows "entry_done run K f x \<Longrightarrow> entry_done run K' f x" "first_done p K f es b \<Longrightarrow> first_done p K' f es b"
    "block_done p K f es b \<Longrightarrow> block_done p K' f es b" "field_done run p K f es c \<Longrightarrow> field_done run p K' f es c"
    "df_done p K ds \<Longrightarrow> df_done p K' ds"
proof -
  show 1: "entry_done run K f x \<Longrightarrow> entry_done run K' f x" for x using assms by (auto simp: entry_done_def)
  show 2: "first_done p K f es b \<Longrightarrow> first_done p K' f es b" for b using assms by (auto simp: first_done_def Let_def)
  show 3: "block_done p K f es b \<Longrightarrow> block_done p K' f es b" for b using assms by (auto simp: block_done_def)
  show "field_done run p K f es c \<Longrightarrow> field_done run p K' f es c" using 1 2 3 by (auto simp: field_done_def)
  show "df_done p K ds \<Longrightarrow> df_done p K' ds" using assms by (fastforce simp: df_done_def Let_def split: prod.splits)
qed

section \<open>Notes\<close>

lemma noteSpan_eq:
  assumes "dr_end (e_furthest e) \<le> n" "off + len \<le> n"
  shows "\<exists>fu. noteSpan off len fld t e = e\<lparr>e_furthest := fu\<rparr> \<and> dr_end fu \<le> n"
proof (cases "len = 0 \<or> off + len \<le> dr_end (e_furthest e)")
  case True
  then show ?thesis using assms(1) by (intro exI[of _ "e_furthest e"]) (auto simp: noteSpan_def)
next
  case False
  then show ?thesis using assms(2) by (auto simp: noteSpan_def)
qed

lemma noteRun_eq:
  assumes "dr_end (e_furthest e) \<le> n" "off + 6 * c \<le> n" "4 dvd off"
  shows "\<exists>fu. noteRun off c fld t e = e\<lparr>e_furthest := fu\<rparr> \<and> dr_end fu \<le> n"
proof (cases "c = 0")
  case True
  then show ?thesis using assms(1) by (intro exI[of _ "e_furthest e"]) (simp add: noteRun_def)
next
  case False
  then have "noteRun off c fld t e = noteSpan off (6 * c) fld t e" using assms(3) by (simp add: noteRun_def Let_def dvd_eq_mod_eq_0)
  then show ?thesis using noteSpan_eq[OF assms(1,2)] by simp
qed

lemma noteBlock_eq:
  assumes "br_at (e_blockFurthest e) + br_size (e_blockFurthest e) \<le> n" "at + len \<le> n" "mp_prefixEnd p \<le> at"
  shows "\<exists>bf k. noteBlock p fld b at len e = e\<lparr>e_blocksNoted := k, e_blockFurthest := bf\<rparr> \<and> br_at bf + br_size bf \<le> n"
proof (cases "at + len > br_at (e_blockFurthest e) + br_size (e_blockFurthest e)")
  case True
  then show ?thesis using assms(2,3)
    by (intro exI[of _ "\<lparr>br_field = fld, br_block = b, br_at = at, br_size = len\<rparr>"] exI[of _ "e_blocksNoted e + 1"]) (simp add: noteBlock_def Let_def)
next
  case False
  then show ?thesis using assms(1,3)
    by (intro exI[of _ "e_blockFurthest e"] exI[of _ "e_blocksNoted e + 1"]) (simp add: noteBlock_def Let_def)
qed

section \<open>The steps of an entry\<close>

lemma append_eq:
  assumes "kept p (e_w e) S C dn K" "plan_ok p" "sink_ok io" "0 < mp_dfCount p" "0 < a"
  shows "\<exists>w'. append_w io b a e = (e\<lparr>e_w := w'\<rparr>, align (w_tail (e_w e)) a) \<and> w_tail w' = align (w_tail (e_w e)) a + length b
    \<and> kept p w' S C dn (insert (Put (align (w_tail (e_w e)) a) b) K)"
proof -
  obtain w' off where a: "appendAligned io b a (e_w e) = (w', off)" by fastforce
  show ?thesis using kept_append[OF assms a] a by (auto simp: append_w_def)
qed

lemma closeBlock_eq:
  assumes "kept p (e_w e) S C dn K" "plan_ok p" "sink_ok io" "0 < mp_dfCount p" "f < 5" "C f < blocks_of p f"
    and "(e_next e ! f - 1) div blockedBlockTerms = C f" "checks_ok e"
  shows "\<exists>at w' bf k. closeBlock io p f e = e\<lparr>e_w := w', e_blocksNoted := k, e_blockFurthest := bf, e_inBlock := (e_inBlock e)[f := 0]\<rparr>
    \<and> kept p w' S (C(f := Suc (C f))) dn ({put32 (block_rows p f + 4 * C f) at, Put at (e_payload e ! f)} \<union> K)
    \<and> checks_ok (closeBlock io p f e) \<and> w_tail w' = w_tail (e_w e) + length (e_payload e ! f)"
proof -
  let ?at = "w_tail (e_w e)"
  obtain w1 where w1: "append_w io (e_payload e ! f) 1 e = (e\<lparr>e_w := w1\<rparr>, ?at)" "w_tail w1 = ?at + length (e_payload e ! f)"
    "kept p w1 S C dn (insert (Put ?at (e_payload e ! f)) K)" using append_eq[OF assms(1-4), of 1 "e_payload e ! f"] by auto
  define w2 where "w2 = fold (run_call io) [patch32 (block_rows p f + 4 * C f) ?at] w1"
  have w2: "w_tail w2 = w_tail w1" "kept p w2 S (C(f := Suc (C f))) dn (insert (put32 (block_rows p f + 4 * C f) ?at) (insert (Put ?at (e_payload e ! f)) K))"
    unfolding w2_def by (rule kept_index[OF w1(3) assms(2-6) refl])+
  have pe: "mp_prefixEnd p \<le> ?at" using assms(1) by (simp add: kept_def)
  have c: "dr_end (e_furthest e) \<le> ?at" "br_at (e_blockFurthest e) + br_size (e_blockFurthest e) \<le> w_tail w2" "e_misaligned e = None" "e_blockOutside e = None"
    using assms(8) w1(2) w2(1) by (simp_all add: checks_ok_def)
  obtain bf k where n: "noteBlock p f (C f) ?at (length (e_payload e ! f)) (e\<lparr>e_w := w2\<rparr>) = e\<lparr>e_w := w2, e_blocksNoted := k, e_blockFurthest := bf\<rparr>"
    "br_at bf + br_size bf \<le> w_tail w2"
    using noteBlock_eq[of "e\<lparr>e_w := w2\<rparr>" "w_tail w2" ?at "length (e_payload e ! f)" p f "C f"] c(2) w1(2) w2(1) pe by auto
  have "closeBlock io p f e = e\<lparr>e_w := w2, e_blocksNoted := k, e_blockFurthest := bf, e_inBlock := (e_inBlock e)[f := 0]\<rparr>"
  proof -
    have "call_w io [patch32 (block_rows p f + 4 * C f) ?at] (e\<lparr>e_w := w1\<rparr>) = e\<lparr>e_w := w2\<rparr>" by (simp add: call_w_def w2_def)
    then show ?thesis using n(1) unfolding closeBlock_def Let_def assms(7) w1(1) by simp
  qed
  moreover from this have "checks_ok (closeBlock io p f e)" using c n(2) w1(2) w2(1) by (simp add: checks_ok_def)
  moreover have "kept p w2 S (C(f := Suc (C f))) dn ({put32 (block_rows p f + 4 * C f) ?at, Put ?at (e_payload e ! f)} \<union> K)" using w2(2) by simp
  moreover have "w_tail w2 = ?at + length (e_payload e ! f)" using w2(1) w1(2) by simp
  ultimately show ?thesis by blast
qed

lemma open_entry_eq:
  assumes "kept p (e_w e) S C dn K" "plan_ok p" "sink_ok io" "0 < mp_dfCount p" "f < 5" "S f < blocks_of p f"
    and "e_next e ! f div blockedBlockTerms = S f" "checks_ok e"
  defines "row \<equiv> first_rows p f + 8 * S f"
  shows "\<exists>to w' fu. open_entry io p t f po c e = e\<lparr>e_w := w', e_furthest := fu, e_payload := (e_payload e)[f := put_le 4 po @ put_le 4 c]\<rparr>
    \<and> kept p w' (S(f := Suc (S f))) C dn ({put32 row to, put32 (row + 4) (length t), Put to (bytes_of t)} \<union> K)
    \<and> checks_ok (open_entry io p t f po c e) \<and> w_tail w' = w_tail (e_w e) + length t"
proof -
  let ?to = "w_tail (e_w e)"
  obtain w1 where w1: "append_w io (bytes_of t) 1 e = (e\<lparr>e_w := w1\<rparr>, ?to)" "w_tail w1 = ?to + length t"
    "kept p w1 S C dn (insert (Put ?to (bytes_of t)) K)" using append_eq[OF assms(1-4), of 1 "bytes_of t"] by auto
  define w2 where "w2 = fold (run_call io) [patch32 row ?to, patch32 (row + 4) (length t)] w1"
  have w2: "w_tail w2 = w_tail w1"
    "kept p w2 (S(f := Suc (S f))) C dn ({put32 row ?to, put32 (row + 4) (length t)} \<union> insert (Put ?to (bytes_of t)) K)"
    unfolding w2_def by (rule kept_first[OF w1(3) assms(2-6)], simp add: row_def)+
  have c: "dr_end (e_furthest e) \<le> w_tail w2" "br_at (e_blockFurthest e) + br_size (e_blockFurthest e) \<le> w_tail w2" "e_misaligned e = None" "e_blockOutside e = None"
    using assms(8) w1(2) w2(1) by (simp_all add: checks_ok_def)
  obtain fu where n: "noteSpan ?to (length t) (int f) t (e\<lparr>e_w := w1\<rparr>) = e\<lparr>e_w := w1, e_furthest := fu\<rparr>" "dr_end fu \<le> w_tail w2"
    using noteSpan_eq[of "e\<lparr>e_w := w1\<rparr>" "w_tail w2" ?to "length t" "int f" t] c(1) w1(2) w2(1) by auto
  have "open_entry io p t f po c e = e\<lparr>e_w := w2, e_furthest := fu, e_payload := (e_payload e)[f := put_le 4 po @ put_le 4 c]\<rparr>"
    using w1(1) n(1) by (simp add: open_entry_def Let_def call_w_def assms(7) row_def w2_def)
  moreover from this have "checks_ok (open_entry io p t f po c e)" using c n(2) by (simp add: checks_ok_def)
  moreover have "kept p w2 (S(f := Suc (S f))) C dn ({put32 row ?to, put32 (row + 4) (length t), Put ?to (bytes_of t)} \<union> K)" using w2(2) by (simp add: insert_commute)
  moreover have "w_tail w2 = ?to + length t" using w2(1) w1(2) by simp
  ultimately show ?thesis by blast
qed


section \<open>An entry\<close>

text \<open>The bytes a field holds back.\<close>

definition plen :: "dict_entry list \<Rightarrow> nat \<Rightarrow> nat" where
  "plen es c = length (payload_bytes (drop (c * blockedBlockTerms) es))"

lemma plen_snoc: "plen (es @ [(t, po, pc)]) c \<le> plen es c + 12 + length t"
proof (cases "c * blockedBlockTerms < length es")
  case True
  then have "drop (c * blockedBlockTerms) es \<noteq> []" by simp
  from payload_bytes_snoc[OF this, of "(t, po, pc)"] True show ?thesis by (simp add: plen_def)
next
  case False
  then show ?thesis by (cases "c * blockedBlockTerms - length es") (simp_all add: plen_def)
qed

lemma plen_closed: "length es \<le> c * blockedBlockTerms \<Longrightarrow> plen es c = 0"
  by (simp add: plen_def)

lemma blockCountOf_eq: "blockCountOf n = n div blockedBlockTerms + (if n mod blockedBlockTerms = 0 then 0 else 1)"
proof -
  have "(n mod 32 + 31) div 32 = (if n mod 32 = 0 then 0 else 1)"
    using mod_less_divisor[of 32 n] by (auto intro: div_nat_eqI)
  moreover have "(n + 31) div 32 = n div 32 + (n mod 32 + 31) div 32"
    using div_mult_self3[of 32 "n div 32" "n mod 32 + 31"] by simp
  ultimately show ?thesis by (simp add: blockCountOf_def blockedBlockTerms_def)
qed

lemma block_counts:
  "n mod blockedBlockTerms = 0 \<Longrightarrow> blockCountOf n = n div blockedBlockTerms \<and> blockCountOf (Suc n) = Suc (n div blockedBlockTerms)
     \<and> n div blockedBlockTerms * blockedBlockTerms = n"
  "n mod blockedBlockTerms \<noteq> 0 \<Longrightarrow> blockCountOf n = Suc (n div blockedBlockTerms) \<and> blockCountOf (Suc n) = Suc (n div blockedBlockTerms)"
  "blockCountOf n \<le> Suc (n div blockedBlockTerms)" "n div blockedBlockTerms \<le> blockCountOf n"
proof -
  show "n mod blockedBlockTerms = 0 \<Longrightarrow> blockCountOf n = n div blockedBlockTerms \<and> blockCountOf (Suc n) = Suc (n div blockedBlockTerms)
     \<and> n div blockedBlockTerms * blockedBlockTerms = n"
    using mod_mult_div_eq[of n blockedBlockTerms] by (simp add: blockCountOf_eq div_Suc mod_Suc mult.commute)
  show "n mod blockedBlockTerms \<noteq> 0 \<Longrightarrow> blockCountOf n = Suc (n div blockedBlockTerms) \<and> blockCountOf (Suc n) = Suc (n div blockedBlockTerms)"
    by (auto simp: blockCountOf_eq div_Suc mod_Suc)
qed (simp_all add: blockCountOf_eq)

lemma blockCountOf_mono: "n \<le> m \<Longrightarrow> blockCountOf n \<le> blockCountOf m"
  unfolding blockCountOf_def blockedBlockTerms_def by (intro div_le_mono) simp

lemma begun_upd: "begun (E(f := es)) = (begun E)(f := blockCountOf (length es))"
  by (simp add: fun_eq_iff)

lemma first_done_append: "b < blockCountOf (length es) \<Longrightarrow> first_done p K f (es @ xs) b = first_done p K f es b"
  using block_start[of b "length es"] by (simp add: first_done_def nth_append)

lemma payload_snoc:
  assumes "c * blockedBlockTerms < length es" "e_payload e ! f = payload_bytes (drop (c * blockedBlockTerms) es)" "e_prev e ! f = fst (last es)"
    and "f < length (e_payload e)"
  shows "coded_entry t f po pc e = e\<lparr>e_payload := (e_payload e)[f := payload_bytes (drop (c * blockedBlockTerms) (es @ [(t, po, pc)]))]\<rparr>"
proof -
  have "drop (c * blockedBlockTerms) es \<noteq> []" "last (drop (c * blockedBlockTerms) es) = last es" using assms(1) by simp_all
  then have "payload_bytes (drop (c * blockedBlockTerms) (es @ [(t, po, pc)])) = e_payload e ! f @ coded_bytes (e_prev e ! f) [(t, po, pc)]"
    using assms(1-3) payload_bytes_snoc by simp
  then show ?thesis by (simp add: coded_entry_def Let_def)
qed

lemma entry_begins:
  fixes t :: string and po pc :: nat
  assumes k: "kept p (e_w e) (begun E) C dn K" and ok: "plan_ok p" "sink_ok io" "0 < mp_dfCount p" "f < 5"
    and es: "E f = es" "C f = length es div blockedBlockTerms" "length es < mp_termCount p ! f"
    and c: "cursor_ok e f es (C f)" "five e" "checks_ok e" "\<forall>b < blockCountOf (length es). first_done p K f es b"
  defines "e1 \<equiv> (if e_inBlock e ! f = 0 then open_entry io p t f po pc e else coded_entry t f po pc e)"
    and "es' \<equiv> es @ [(t, po, pc)]"
  shows "\<exists>K1 w1 fu. e1 = e\<lparr>e_w := w1, e_furthest := fu, e_payload := (e_payload e)[f := payload_bytes (drop (C f * blockedBlockTerms) es')]\<rparr>
    \<and> kept p w1 (begun (E(f := es'))) C dn K1 \<and> K \<subseteq> K1 \<and> checks_ok e1 \<and> (\<forall>b < blockCountOf (length es'). first_done p K1 f es' b)
    \<and> w_tail (e_w e) + (if es = [] then length t else 0) \<le> w_tail w1 \<and> w_tail w1 \<le> w_tail (e_w e) + length t"
proof (cases "length es mod blockedBlockTerms = 0")
  case True
  note b = block_counts(1)[OF True]
  have n: "e_inBlock e ! f = 0" "begun E f = C f" "e_next e ! f div blockedBlockTerms = C f" "C f * blockedBlockTerms = length es"
    using c(1) es(1,2) b by (simp_all add: cursor_ok_def)
  have "blockCountOf (Suc (length es)) \<le> blocks_of p f" by (rule blockCountOf_mono) (use es(3) in simp)
  then have lt: "begun E f < blocks_of p f" using b n(2) es(2) by simp
  let ?row = "first_rows p f + 8 * C f"
  obtain to w' fu where o: "open_entry io p t f po pc e = e\<lparr>e_w := w', e_furthest := fu, e_payload := (e_payload e)[f := put_le 4 po @ put_le 4 pc]\<rparr>"
    "kept p w' ((begun E)(f := Suc (C f))) C dn ({put32 ?row to, put32 (?row + 4) (length t), Put to (bytes_of t)} \<union> K)"
    "checks_ok (open_entry io p t f po pc e)" "w_tail w' = w_tail (e_w e) + length t"
    using open_entry_eq[OF k ok lt, of t po pc] n(2,3) c(3) by auto
  let ?K = "{put32 ?row to, put32 (?row + 4) (length t), Put to (bytes_of t)} \<union> K"
  have "(begun E)(f := Suc (C f)) = begun (E(f := es'))" by (rule ext) (use b es(2) in \<open>simp add: es'_def\<close>)
  then have "kept p w' (begun (E(f := es'))) C dn ?K" using o(2) by simp
  moreover have "first_done p ?K f es' i" if "i < blockCountOf (length es')" for i
  proof (cases "i < blockCountOf (length es)")
    case True
    have "first_done p ?K f es i" by (rule done_mono(2)[of K]) (use True c(4) in auto)
    then show ?thesis by (simp add: es'_def first_done_append[OF True])
  next
    case False
    then have "i = C f" using that b es(2) by (simp add: es'_def)
    then show ?thesis using n(4) by (auto simp: first_done_def es'_def Let_def)
  qed
  moreover have "payload_bytes (drop (C f * blockedBlockTerms) es') = put_le 4 po @ put_le 4 pc" using n(4) by (simp add: es'_def)
  moreover have "e1 = open_entry io p t f po pc e" using n(1) by (simp add: e1_def)
  ultimately show ?thesis using o(1,3,4) by (intro exI[of _ ?K] exI[of _ w'] exI[of _ fu]) auto
next
  case False
  note b = block_counts(2)[OF False]
  have "C f * blockedBlockTerms < length es" using False es(2) by (metis div_times_less_eq_dividend le_neq_implies_less mod_mult_self2_is_0 mult.commute)
  then have n: "e_inBlock e ! f \<noteq> 0" "C f * blockedBlockTerms < length es" using c(1) by (simp_all add: cursor_ok_def)
  then have e1: "e1 = e\<lparr>e_payload := (e_payload e)[f := payload_bytes (drop (C f * blockedBlockTerms) es')]\<rparr>"
    using payload_snoc[OF n(2), of e f] c(1,2) ok(4) by (simp add: e1_def es'_def cursor_ok_def five_def)
  moreover have "begun (E(f := es')) = begun E" using b es(1) by (simp add: begun_upd es'_def fun_eq_iff)
  moreover have "first_done p K f es' i" if "i < blockCountOf (length es')" for i
  proof -
    have "i < blockCountOf (length es)" using that b by (simp add: es'_def)
    then show ?thesis using c(4) by (simp add: es'_def first_done_append)
  qed
  moreover have "es \<noteq> []" using False by auto
  moreover have "checks_ok e1" using c(3) by (simp add: e1 checks_ok_def)
  ultimately show ?thesis using k by (intro exI[of _ K] exI[of _ "e_w e"] exI[of _ "e_furthest e"]) simp
qed


text \<open>Closing a block that has begun.\<close>

lemma emitted_close:
  assumes m: "emitted run p e K E C ds" and ok: "plan_ok p" "sink_ok io" "0 < mp_dfCount p" "f < 5"
    and n: "C f * blockedBlockTerms < length (E f)" "length (E f) \<le> C f * blockedBlockTerms + blockedBlockTerms"
  shows "\<exists>K'. K \<subseteq> K' \<and> emitted run p (closeBlock io p f e) K' E (C(f := Suc (C f))) ds
    \<and> w_tail (e_w (closeBlock io p f e)) = w_tail (e_w e) + plen (E f) (C f)"
proof -
  let ?n = "length (E f)" and ?c = "C f"
  have k: "kept p (e_w e) (begun E) C (length ds) K" "five e" "checks_ok e" "e_dfNext e = length ds" "df_done p K ds"
    and f: "\<And>g. g < 5 \<Longrightarrow> field_done run p K g (E g) (C g)" "\<And>g. g < 5 \<Longrightarrow> cursor_ok e g (E g) (C g)" using m by (simp_all add: emitted_def)
  have "?c \<le> (?n - 1) div blockedBlockTerms" using n(1) by (simp add: blockedBlockTerms_def less_eq_div_iff_mult_less_eq)
  moreover have "(?n - 1) div blockedBlockTerms < Suc ?c" using n by (simp add: blockedBlockTerms_def div_less_iff_less_mult)
  ultimately have idx: "(?n - 1) div blockedBlockTerms = ?c" by simp
  have "?c < blockCountOf ?n" using n(1) unfolding blockCountOf_def blockedBlockTerms_def by simp
  moreover have "begun E f \<le> blocks_of p f" using k(1) ok(4) by (simp add: kept_def counts_ok_def)
  ultimately have lt: "?c < blocks_of p f" by simp
  have cur: "e_next e ! f = ?n" "e_payload e ! f = payload_bytes (drop (?c * blockedBlockTerms) (E f))"
    using f(2)[OF ok(4)] n(1) by (simp_all add: cursor_ok_def)
  obtain "at" w' bf j where c: "closeBlock io p f e = e\<lparr>e_w := w', e_blocksNoted := j, e_blockFurthest := bf, e_inBlock := (e_inBlock e)[f := 0]\<rparr>"
    "kept p w' (begun E) (C(f := Suc ?c)) (length ds) ({put32 (block_rows p f + 4 * ?c) at, Put at (e_payload e ! f)} \<union> K)"
    "checks_ok (closeBlock io p f e)" "w_tail w' = w_tail (e_w e) + length (e_payload e ! f)"
    using closeBlock_eq[OF k(1) ok lt, unfolded cur(1), OF idx k(3)] by blast
  let ?K = "{put32 (block_rows p f + 4 * ?c) at, Put at (e_payload e ! f)} \<union> K"
  have mono: "K \<subseteq> ?K" by blast
  have "block_slice ?c (E f) = drop (?c * blockedBlockTerms) (E f)" using n(2) by (simp add: block_slice_def)
  then have "block_done p ?K f (E f) ?c" using cur(2) by (auto simp: block_done_def)
  then have fd: "field_done run p ?K g (E g) ((C(f := Suc ?c)) g)" if "g < 5" for g
    using done_mono(4)[OF mono f(1)[OF that]] by (auto simp: field_done_def less_Suc_eq)
  have "cursor_ok (closeBlock io p f e) g (E g) ((C(f := Suc ?c)) g)" if "g < 5" for g
    using f(2)[OF that] n k(2) ok(4) by (cases "g = f") (simp_all add: c(1) cursor_ok_def five_def)
  moreover have "five (closeBlock io p f e)" using k(2) by (simp add: c(1) five_def)
  ultimately have "emitted run p (closeBlock io p f e) ?K E (C(f := Suc ?c)) ds"
    using c(2,3) fd k(4) done_mono(5)[OF mono k(5)] unfolding emitted_def by (simp add: c(1) del: Un_insert_left)
  then show ?thesis using mono c(1,4) cur(2) by (intro exI[of _ ?K]) (simp add: plen_def)
qed

lemma emitted_entry:
  assumes m: "emitted run p e K E C ds" and ok: "plan_ok p" "sink_ok io" "0 < mp_dfCount p" "f < 5"
    and es: "C f = length (E f) div blockedBlockTerms" "length (E f) < mp_termCount p ! f" and x: "entry_done run K f (t, po, pc)"
  shows "\<exists>K'. K \<subseteq> K' \<and> emitted run p (appendBlocked io p t f po pc e) K' (E(f := E f @ [(t, po, pc)])) (C(f := Suc (length (E f)) div blockedBlockTerms)) ds
    \<and> w_tail (e_w e) + (if E f = [] then length t else 0) \<le> w_tail (e_w (appendBlocked io p t f po pc e))
    \<and> w_tail (e_w (appendBlocked io p t f po pc e)) + plen (E f @ [(t, po, pc)]) (Suc (length (E f)) div blockedBlockTerms)
        \<le> w_tail (e_w e) + plen (E f) (C f) + 12 + 2 * length t"
proof -
  let ?es = "E f @ [(t, po, pc)]" and ?c = "C f"
  have k: "kept p (e_w e) (begun E) C (length ds) K" "five e" "checks_ok e" "e_dfNext e = length ds" "df_done p K ds"
    and f: "\<And>g. g < 5 \<Longrightarrow> field_done run p K g (E g) (C g)" "\<And>g. g < 5 \<Longrightarrow> cursor_ok e g (E g) (C g)" using m by (simp_all add: emitted_def)
  have "\<forall>b < blockCountOf (length (E f)). first_done p K f (E f) b" using f(1)[OF ok(4)] by (simp add: field_done_def)
  from entry_begins[OF k(1) ok refl es f(2)[OF ok(4)] k(2,3) this, of t po pc]
  obtain K1 w1 fu where b: "(if e_inBlock e ! f = 0 then open_entry io p t f po pc e else coded_entry t f po pc e)
      = e\<lparr>e_w := w1, e_furthest := fu, e_payload := (e_payload e)[f := payload_bytes (drop (?c * blockedBlockTerms) ?es)]\<rparr>"
    "kept p w1 (begun (E(f := ?es))) C (length ds) K1" "K \<subseteq> K1"
    "checks_ok (if e_inBlock e ! f = 0 then open_entry io p t f po pc e else coded_entry t f po pc e)"
    "\<forall>b < blockCountOf (length ?es). first_done p K1 f ?es b" "w_tail (e_w e) + (if E f = [] then length t else 0) \<le> w_tail w1"
    "w_tail w1 \<le> w_tail (e_w e) + length t"
    by blast
  note pl = plen_snoc[of "E f" t po pc ?c]
  define e2 where "e2 = e\<lparr>e_w := w1, e_furthest := fu, e_payload := (e_payload e)[f := payload_bytes (drop (?c * blockedBlockTerms) ?es)],
    e_prev := (e_prev e)[f := t], e_next := (e_next e)[f := e_next e ! f + 1], e_inBlock := (e_inBlock e)[f := e_inBlock e ! f + 1]\<rparr>"
  have a: "appendBlocked io p t f po pc e = (if e_inBlock e2 ! f = blockedBlockTerms then closeBlock io p f e2 else e2)"
    unfolding appendBlocked_def Let_def b(1) by (simp add: e2_def)
  have cle: "?c * blockedBlockTerms \<le> length (E f)" using es(1) by simp
  have len: "length (E f) < ?c * blockedBlockTerms + blockedBlockTerms"
    using es(1) div_mult_mod_eq[of "length (E f)" blockedBlockTerms] mod_less_divisor[of blockedBlockTerms "length (E f)"] by (simp add: blockedBlockTerms_def)
  have bd: "block_done p K f ?es i = block_done p K f (E f) i" if "i < ?c" for i
  proof -
    have "i * blockedBlockTerms + blockedBlockTerms \<le> ?c * blockedBlockTerms" using that by (metis Suc_leI add.commute mult_Suc mult_le_mono1)
    then have "block_slice i ?es = block_slice i (E f)" using cle by (simp add: block_slice_def)
    then show ?thesis by (simp add: block_done_def)
  qed
  have "field_done run p K1 f ?es ?c"
    using done_mono(1)[OF b(3) x] done_mono(4)[OF b(3) f(1)[OF ok(4)]] b(5) bd f(1)[OF ok(4)] done_mono(3)[OF b(3)]
    unfolding field_done_def by simp
  then have fd: "field_done run p K1 g ((E(f := ?es)) g) (C g)" if "g < 5" for g
    using done_mono(4)[OF b(3) f(1)[OF that]] by (cases "g = f") simp_all
  have cu: "cursor_ok e2 g ((E(f := ?es)) g) (C g)" if "g < 5" for g
    using f(2)[OF that] cle k(2) ok(4) by (cases "g = f") (simp_all add: e2_def cursor_ok_def five_def Suc_diff_le)
  have "five e2" "checks_ok e2" using k(2) b(4) unfolding b(1) by (simp_all add: e2_def five_def checks_ok_def)
  then have e2: "emitted run p e2 K1 (E(f := ?es)) C ds"
    using b(2) fd cu k(4) done_mono(5)[OF b(3) k(5)] unfolding emitted_def by (simp add: e2_def)
  have inb: "e_inBlock e2 ! f = Suc (length (E f)) - ?c * blockedBlockTerms" using cu[OF ok(4)] by (simp add: cursor_ok_def)
  show ?thesis
  proof (cases "e_inBlock e2 ! f = blockedBlockTerms")
    case True
    then have "Suc (length (E f)) = Suc ?c * blockedBlockTerms" using inb cle by simp
    then have s: "Suc (length (E f)) div blockedBlockTerms = Suc ?c" "?c * blockedBlockTerms < Suc (length (E f))"
      "Suc (length (E f)) \<le> ?c * blockedBlockTerms + blockedBlockTerms" using cle by (simp_all add: blockedBlockTerms_def)
    have "length ((E(f := ?es)) f) = Suc (length (E f))" by simp
    from emitted_close[OF e2 ok, unfolded this, OF s(2,3)] obtain K' where "K1 \<subseteq> K'" "emitted run p (closeBlock io p f e2) K' (E(f := ?es)) (C(f := Suc ?c)) ds"
      "w_tail (e_w (closeBlock io p f e2)) = w_tail (e_w e2) + plen ((E(f := ?es)) f) ?c" by blast
    moreover have "plen ?es (Suc ?c) = 0" by (rule plen_closed) (use s(3) in simp)
    moreover have "w_tail (e_w e2) = w_tail w1" by (simp add: e2_def)
    ultimately show ?thesis using a True b(3,6,7) s(1) pl by (intro exI[of _ K']) auto
  next
    case False
    then have "Suc (length (E f)) < ?c * blockedBlockTerms + blockedBlockTerms" using inb len cle by linarith
    then have "Suc (length (E f)) div blockedBlockTerms = ?c" using cle by (intro div_nat_eqI) (simp_all add: mult.commute)
    moreover from this have "C(f := Suc (length (E f)) div blockedBlockTerms) = C" by (simp add: fun_eq_iff)
    moreover have "w_tail (e_w e2) = w_tail w1" by (simp add: e2_def)
    ultimately show ?thesis using a False e2 b(3,6,7) pl by (intro exI[of _ K1]) auto
  qed
qed


section \<open>The calls\<close>

lemma emitted_frame:
  assumes "emitted run p e K E C ds" "kept p w (begun E) C (length ds) K'" "K \<subseteq> K'" "w_tail (e_w e) \<le> w_tail w" "dr_end fu \<le> w_tail w"
  shows "emitted run p (e\<lparr>e_w := w, e_furthest := fu\<rparr>) K' E C ds"
proof -
  have "field_done run p K' f (E f) (C f)" if "f < 5" for f using done_mono(4)[OF assms(3)] assms(1) that by (simp add: emitted_def)
  moreover have "df_done p K' ds" using done_mono(5)[OF assms(3)] assms(1) by (simp add: emitted_def)
  moreover have "checks_ok (e\<lparr>e_w := w, e_furthest := fu\<rparr>)" using assms(1,4,5) by (simp add: emitted_def checks_ok_def)
  ultimately show ?thesis using assms(1,2) by (simp add: emitted_def five_def cursor_ok_def)
qed

lemma emitted_field:
  assumes m: "emitted run p e K E C ds" and ok: "plan_ok p" "sink_ok io" "0 < mp_dfCount p" "f < 5"
    and es: "C f = length (E f) div blockedBlockTerms" "length (E f) < mp_termCount p ! f"
  shows "\<exists>K' po. K \<subseteq> K' \<and> emitted run p (emit_field io p t f (run f t) e) K' (E(f := E f @ [(t, po, length (run f t))]))
      (C(f := Suc (length (E f)) div blockedBlockTerms)) ds
    \<and> w_tail (e_w e) + 6 * length (run f t) + (if E f = [] then length t else 0) \<le> w_tail (e_w (emit_field io p t f (run f t) e))
    \<and> w_tail (e_w (emit_field io p t f (run f t) e)) + plen (E f @ [(t, po, length (run f t))]) (Suc (length (E f)) div blockedBlockTerms)
        \<le> w_tail (e_w e) + plen (E f) (C f) + 15 + 6 * length (run f t) + 2 * length t"
proof -
  let ?po = "align (w_tail (e_w e)) 4" and ?r = "run f t"
  have k: "kept p (e_w e) (begun E) C (length ds) K" "checks_ok e" using m by (simp_all add: emitted_def)
  obtain w1 where w1: "append_w io (posting_bytes ?r) 4 e = (e\<lparr>e_w := w1\<rparr>, ?po)" "w_tail w1 = ?po + 6 * length ?r"
    "kept p w1 (begun E) C (length ds) (insert (Put ?po (posting_bytes ?r)) K)"
    using append_eq[OF k(1) ok(1-3), of 4 "posting_bytes ?r"] by (auto simp: length_posting_bytes)
  have le: "w_tail (e_w e) \<le> ?po" "?po \<le> w_tail (e_w e) + 3" by (simp_all add: align_ge) (simp add: align_def)
  have c: "dr_end (e_furthest e) \<le> w_tail w1" using k(2) w1(2) le by (simp add: checks_ok_def)
  obtain fu where n: "noteRun ?po (length ?r) (int f) t (e\<lparr>e_w := w1\<rparr>) = e\<lparr>e_w := w1, e_furthest := fu\<rparr>" "dr_end fu \<le> w_tail w1"
    using noteRun_eq[of "e\<lparr>e_w := w1\<rparr>" "w_tail w1" ?po "length ?r" "int f" t] c w1(2) by auto
  let ?e = "e\<lparr>e_w := w1, e_furthest := fu\<rparr>"
  have a: "emitted run p ?e (insert (Put ?po (posting_bytes ?r)) K) E C ds"
    by (rule emitted_frame[OF m w1(3)]) (use w1(2) le n(2) in auto)
  have "entry_done run (insert (Put ?po (posting_bytes ?r)) K) f (t, ?po, length ?r)" by (simp add: entry_done_def)
  from emitted_entry[OF a ok es this] obtain K' where "insert (Put ?po (posting_bytes ?r)) K \<subseteq> K'"
    "emitted run p (appendBlocked io p t f ?po (length ?r) ?e) K' (E(f := E f @ [(t, ?po, length ?r)])) (C(f := Suc (length (E f)) div blockedBlockTerms)) ds"
    "w_tail (e_w ?e) + (if E f = [] then length t else 0) \<le> w_tail (e_w (appendBlocked io p t f ?po (length ?r) ?e))"
    "w_tail (e_w (appendBlocked io p t f ?po (length ?r) ?e)) + plen (E f @ [(t, ?po, length ?r)]) (Suc (length (E f)) div blockedBlockTerms)
        \<le> w_tail (e_w ?e) + plen (E f) (C f) + 12 + 2 * length t"
    by blast
  moreover have "emit_field io p t f ?r e = appendBlocked io p t f ?po (length ?r) ?e"
    using w1(1) n(1) ok(1) by (simp add: emit_field_def Let_def plan_ok_def)
  ultimately show ?thesis using w1(2) le by (intro exI[of _ K'] exI[of _ ?po]) auto
qed

lemma emitted_term:
  assumes m: "emitted run p e K E C ds" and ok: "plan_ok p" "sink_ok io" "length ds < mp_dfCount p" "t \<noteq> []"
    and tl: "mp_prefixEnd p + mergeRunMaxGap \<le> w_tail (e_w e)"
  shows "\<exists>K'. K \<subseteq> K' \<and> emitted run p (emit_term io p t df e) K' E C (ds @ [(t, df)]) \<and> w_tail (e_w (emit_term io p t df e)) = w_tail (e_w e) + length t"
proof -
  let ?to = "w_tail (e_w e)" and ?row = "mp_dfEntriesOff p + 16 * length ds"
  have k: "kept p (e_w e) (begun E) C (length ds) K" "checks_ok e" "e_dfNext e = length ds" using m by (simp_all add: emitted_def)
  obtain w1 where w1: "append_w io (bytes_of t) 1 e = (e\<lparr>e_w := w1\<rparr>, ?to)" "w_tail w1 = ?to + length t"
    "kept p w1 (begun E) C (length ds) (insert (Put ?to (bytes_of t)) K)" using append_eq[OF k(1) ok(1,2), of 1 "bytes_of t"] ok(3) by auto
  define w2 where "w2 = fold (run_call io) [patch32 ?row ?to, patch32 (?row + 4) (length t), patch64 (?row + 8) (u64_of_int df)] w1"
  let ?K = "{put32 ?row ?to, put32 (?row + 4) (length t), put64 (?row + 8) (u64_of_int df)} \<union> insert (Put ?to (bytes_of t)) K"
  have "0 < length t" using ok(4) by simp
  then have pe: "mp_prefixEnd p + mergeRunMaxGap < w_tail w1" using tl w1(2) by linarith
  have w2: "w_tail w2 = w_tail w1" "kept p w2 (begun E) C (Suc (length ds)) ?K"
    unfolding w2_def by (rule kept_df[OF w1(3) ok(1-3) refl pe])+
  have c: "dr_end (e_furthest e) \<le> w_tail w2" using k(2) w1(2) w2(1) by (simp add: checks_ok_def)
  obtain fu where n: "noteSpan ?to (length t) (- 1) t (e\<lparr>e_w := w1\<rparr>) = e\<lparr>e_w := w1, e_furthest := fu\<rparr>" "dr_end fu \<le> w_tail w2"
    using noteSpan_eq[of "e\<lparr>e_w := w1\<rparr>" "w_tail w2" ?to "length t" "- 1" t] c w1(2) w2(1) by auto
  have e': "emit_term io p t df e = e\<lparr>e_w := w2, e_furthest := fu, e_dfNext := Suc (length ds)\<rparr>"
    unfolding emit_term_def Let_def w1(1) prod.case n(1) using k(3) by (simp add: call_w_def w2_def)
  have mono: "K \<subseteq> ?K" by blast
  have "df_done p ?K (ds @ [(t, df)])"
    unfolding df_done_def
  proof (intro allI impI)
    fix i assume i: "i < length (ds @ [(t, df)])"
    show "let (t, df) = (ds @ [(t, df)]) ! i; row = mp_dfEntriesOff p + 16 * i
     in \<exists>to. Put to (bytes_of t) \<in> ?K \<and> put32 row to \<in> ?K \<and> put32 (row + 4) (length t) \<in> ?K \<and> put64 (row + 8) (u64_of_int df) \<in> ?K"
    proof (cases "i < length ds")
      case True
      have "df_done p ?K ds" using done_mono(5)[OF mono] m by (simp add: emitted_def)
      then show ?thesis using True unfolding df_done_def by (simp add: nth_append)
    next
      case False
      then have "i = length ds" using i by simp
      then show ?thesis by (auto simp: Let_def)
    qed
  qed
  moreover have "field_done run p ?K f (E f) (C f)" if "f < 5" for f using done_mono(4)[OF mono] m that by (simp add: emitted_def)
  moreover have "checks_ok (emit_term io p t df e)" using k(2) n(2) w2(1) w1(2) by (simp add: e' checks_ok_def)
  ultimately have "emitted run p (emit_term io p t df e) ?K E C (ds @ [(t, df)])"
    using m w2(2) unfolding emitted_def by (simp add: e' five_def cursor_ok_def del: Un_insert_left Un_insert_right)
  then show ?thesis using mono w1(2) w2(1) by (intro exI[of _ ?K]) (simp add: e')
qed



section \<open>The calls of a walk\<close>

text \<open>What a call may add to the tail, held-back bytes and padding included.\<close>

fun event_cost :: "merge_event \<Rightarrow> nat" where
  "event_cost (OnField t f r) = 15 + 6 * length r + 2 * length t"
| "event_cost (OnTerm t df) = length t"

definition pending :: "(nat \<Rightarrow> dict_entry list) \<Rightarrow> (nat \<Rightarrow> nat) \<Rightarrow> nat" where
  "pending E C = (\<Sum>f < 5. plen (E f) (C f))"

lemma pending_upd:
  assumes "f < 5"
  shows "pending (E(f := es)) (C(f := c)) + plen (E f) (C f) = pending E C + plen es c"
proof -
  have "pending X Y = plen (X f) (Y f) + (\<Sum>g \<in> {..<5} - {f}. plen (X g) (Y g))" for X Y
    unfolding pending_def by (rule sum.remove) (use assms in auto)
  moreover have "(\<Sum>g \<in> {..<5} - {f}. plen ((E(f := es)) g) ((C(f := c)) g)) = (\<Sum>g \<in> {..<5} - {f}. plen (E g) (C g))"
    by (rule sum.cong) auto
  ultimately show ?thesis by simp
qed

text \<open>After the terms \<open>ts\<close>: per field the entries of those that have a run in it, and a row each.\<close>

definition emitting :: "runs \<Rightarrow> (string \<Rightarrow> int) \<Rightarrow> mergePlan \<Rightarrow> nat \<Rightarrow> bstore set \<Rightarrow> (nat \<Rightarrow> string list) \<Rightarrow> string list \<Rightarrow> mergeEmitter \<Rightarrow> bool" where
  "emitting run df p U K0 T ts e \<longleftrightarrow> (\<exists>K E C. K0 \<subseteq> K \<and> emitted run p e K E C (map (\<lambda>t. (t, df t)) ts)
     \<and> (\<forall>f < 5. C f = length (E f) div blockedBlockTerms \<and> map fst (E f) = T f)
     \<and> ((\<exists>f < 5. E f \<noteq> []) \<longrightarrow> mp_prefixEnd p + mergeRunMaxGap \<le> w_tail (e_w e))
     \<and> w_tail (e_w e) + pending E C \<le> mp_prefixEnd p + U)"

lemma emitting_cong:
  assumes "\<And>f. f < 5 \<Longrightarrow> T f = T' f"
  shows "emitting run df p U K0 T ts e = emitting run df p U K0 T' ts e"
proof -
  have "(\<forall>f < 5. A f \<and> g f = T f) = (\<forall>f < 5. A f \<and> g f = T' f)" for A and g :: "nat \<Rightarrow> string list" using assms by auto
  then show ?thesis unfolding emitting_def by simp
qed

lemma emitting_field:
  assumes "emitting run df p U K0 T ts e" "plan_ok p" "sink_ok io" "0 < mp_dfCount p" "f < 5"
    and "length (T f) < mp_termCount p ! f" "run f t \<noteq> []" "2 \<le> length t"
  shows "emitting run df p (U + event_cost (OnField t f (run f t))) K0 (T(f := T f @ [t])) ts (emit_field io p t f (run f t) e)"
proof -
  obtain K E C where m: "K0 \<subseteq> K" "emitted run p e K E C (map (\<lambda>t. (t, df t)) ts)"
    "\<And>g. g < 5 \<Longrightarrow> C g = length (E g) div blockedBlockTerms" "\<And>g. g < 5 \<Longrightarrow> map fst (E g) = T g"
    "(\<exists>f < 5. E f \<noteq> []) \<longrightarrow> mp_prefixEnd p + mergeRunMaxGap \<le> w_tail (e_w e)"
    "w_tail (e_w e) + pending E C \<le> mp_prefixEnd p + U"
    using assms(1) unfolding emitting_def by blast
  have "length (E f) < mp_termCount p ! f" using assms(6) m(4)[OF assms(5)] by (metis length_map)
  from emitted_field[OF m(2) assms(2-5) m(3)[OF assms(5)] this, of t] obtain K' po where s: "K \<subseteq> K'"
    "emitted run p (emit_field io p t f (run f t) e) K' (E(f := E f @ [(t, po, length (run f t))]))
      (C(f := Suc (length (E f)) div blockedBlockTerms)) (map (\<lambda>t. (t, df t)) ts)"
    "w_tail (e_w e) + 6 * length (run f t) + (if E f = [] then length t else 0) \<le> w_tail (e_w (emit_field io p t f (run f t) e))"
    "w_tail (e_w (emit_field io p t f (run f t) e)) + plen (E f @ [(t, po, length (run f t))]) (Suc (length (E f)) div blockedBlockTerms)
        \<le> w_tail (e_w e) + plen (E f) (C f) + 15 + 6 * length (run f t) + 2 * length t" by blast
  have r: "0 < length (run f t)" using assms(7) by simp
  have pe: "mp_prefixEnd p \<le> w_tail (e_w e)" using m(2) by (simp add: emitted_def kept_def)
  have "mp_prefixEnd p + mergeRunMaxGap \<le> w_tail (e_w (emit_field io p t f (run f t) e))"
  proof (cases "E f = []")
    case True
    then have "w_tail (e_w e) + 6 * length (run f t) + length t \<le> w_tail (e_w (emit_field io p t f (run f t) e))" using s(3) by simp
    then show ?thesis using pe r assms(8) by linarith
  next
    case False
    then have "mp_prefixEnd p + mergeRunMaxGap \<le> w_tail (e_w e)" using m(5) assms(5) by blast
    then show ?thesis using s(3) by linarith
  qed
  moreover have "(C(f := Suc (length (E f)) div blockedBlockTerms)) g = length ((E(f := E f @ [(t, po, length (run f t))])) g) div blockedBlockTerms
      \<and> map fst ((E(f := E f @ [(t, po, length (run f t))])) g) = (T(f := T f @ [t])) g" if "g < 5" for g
    using m(3,4)[OF that] by (cases "g = f") simp_all
  moreover have "w_tail (e_w (emit_field io p t f (run f t) e)) + pending (E(f := E f @ [(t, po, length (run f t))])) (C(f := Suc (length (E f)) div blockedBlockTerms))
      \<le> mp_prefixEnd p + (U + event_cost (OnField t f (run f t)))"
    using s(4) m(6) pending_upd[OF assms(5), of E "E f @ [(t, po, length (run f t))]" C "Suc (length (E f)) div blockedBlockTerms"] by simp
  ultimately show ?thesis using m(1) s(1,2) unfolding emitting_def by blast
qed

lemma emitting_fields:
  assumes "emitting run df p U K0 T ts e" "plan_ok p" "sink_ok io" "0 < mp_dfCount p" "2 \<le> length t"
    and "\<And>f. f < 5 \<Longrightarrow> run f t \<noteq> [] \<Longrightarrow> length (T f) < mp_termCount p ! f"
  shows "k \<le> 5 \<Longrightarrow> emitting run df p (U + sum_list (map event_cost (concat (map (\<lambda>f. onField_call t f (run f t)) [0..<k])))) K0 (\<lambda>f. if f < k \<and> run f t \<noteq> [] then T f @ [t] else T f) ts
    (fold (emit io p) (concat (map (\<lambda>f. onField_call t f (run f t)) [0..<k])) e)"
proof (induction k)
  case 0
  then show ?case using assms(1) by simp
next
  case (Suc k)
  let ?T = "\<lambda>f. if f < k \<and> run f t \<noteq> [] then T f @ [t] else T f"
  let ?e = "fold (emit io p) (concat (map (\<lambda>f. onField_call t f (run f t)) [0..<k])) e"
  let ?U = "U + sum_list (map event_cost (concat (map (\<lambda>f. onField_call t f (run f t)) [0..<k])))"
  have IH: "emitting run df p ?U K0 ?T ts ?e" using Suc by simp
  show ?case
  proof (cases "run k t = []")
    case True
    then have "(\<lambda>f. if f < Suc k \<and> run f t \<noteq> [] then T f @ [t] else T f) = ?T" by (auto simp: fun_eq_iff less_Suc_eq)
    then show ?thesis using IH True by (simp add: onField_call_def)
  next
    case False
    have "(\<lambda>f. if f < Suc k \<and> run f t \<noteq> [] then T f @ [t] else T f) = ?T(k := ?T k @ [t])"
      using False by (auto simp: fun_eq_iff less_Suc_eq)
    then show ?thesis
      using emitting_field[OF IH assms(2-4), of k t] Suc.prems False assms(5,6) by (simp add: onField_call_def add.assoc)
  qed
qed

lemma emitting_term:
  assumes "emitting run df p U K0 T ts e" "plan_ok p" "sink_ok io" "length ts < mp_dfCount p" "2 \<le> length t" "\<exists>f < 5. T f \<noteq> []"
  shows "emitting run df p (U + length t) K0 T (ts @ [t]) (emit_term io p t (df t) e)"
proof -
  obtain K E C where m: "K0 \<subseteq> K" "emitted run p e K E C (map (\<lambda>t. (t, df t)) ts)"
    "\<forall>f < 5. C f = length (E f) div blockedBlockTerms \<and> map fst (E f) = T f"
    "(\<exists>f < 5. E f \<noteq> []) \<longrightarrow> mp_prefixEnd p + mergeRunMaxGap \<le> w_tail (e_w e)"
    "w_tail (e_w e) + pending E C \<le> mp_prefixEnd p + U"
    using assms(1) unfolding emitting_def by blast
  have "\<exists>f < 5. E f \<noteq> []" using m(3) assms(6) by force
  then have tl: "mp_prefixEnd p + mergeRunMaxGap \<le> w_tail (e_w e)" using m(4) by blast
  have n: "length (map (\<lambda>t. (t, df t)) ts) < mp_dfCount p" "t \<noteq> []" using assms(4,5) by auto
  from emitted_term[OF m(2) assms(2,3) n tl, of "df t"] obtain K' where "K \<subseteq> K'"
    "emitted run p (emit_term io p t (df t) e) K' E C (map (\<lambda>t. (t, df t)) (ts @ [t]))"
    and w: "w_tail (e_w (emit_term io p t (df t) e)) = w_tail (e_w e) + length t" by auto
  moreover have "mp_prefixEnd p + mergeRunMaxGap \<le> w_tail (e_w (emit_term io p t (df t) e))"
    "w_tail (e_w (emit_term io p t (df t) e)) + pending E C \<le> mp_prefixEnd p + (U + length t)" using w tl m(5) by simp_all
  moreover have "K0 \<subseteq> K'" using m(1) calculation(1) by blast
  ultimately show ?thesis using m(3) unfolding emitting_def by blast
qed

text \<open>The calls of a list of terms, each with a run in some field.\<close>

definition calls_of :: "runs \<Rightarrow> (string \<Rightarrow> int) \<Rightarrow> string list \<Rightarrow> merge_event list" where
  "calls_of run df ts = concat (map (\<lambda>t. concat (map (\<lambda>f. onField_call t f (run f t)) [0..<5]) @ [OnTerm t (df t)]) ts)"

abbreviation terms_in :: "runs \<Rightarrow> string list \<Rightarrow> nat \<Rightarrow> string list" where
  "terms_in run ts f \<equiv> filter (\<lambda>t. run f t \<noteq> []) ts"

abbreviation calls_cost :: "merge_event list \<Rightarrow> nat" where "calls_cost evs \<equiv> sum_list (map event_cost evs)"

lemma emitting_calls:
  assumes "emitting run df p 0 K0 (\<lambda>f. []) [] e" "plan_ok p" "sink_ok io" "mp_dfCount p = length ts"
    and "\<And>f. f < 5 \<Longrightarrow> mp_termCount p ! f = length (terms_in run ts f)"
    and "\<And>t. t \<in> set ts \<Longrightarrow> 2 \<le> length t \<and> (\<exists>f < 5. run f t \<noteq> [])"
  shows "emitting run df p (calls_cost (calls_of run df ts)) K0 (terms_in run ts) ts (fold (emit io p) (calls_of run df ts) e)"
proof -
  have "emitting run df p (calls_cost (calls_of run df us)) K0 (terms_in run us) us (fold (emit io p) (calls_of run df us) e)" if "ts = us @ vs" for us vs
    using that
  proof (induction us arbitrary: vs rule: rev_induct)
    case Nil
    then show ?case using assms(1) by (simp add: calls_of_def)
  next
    case (snoc t us)
    let ?e = "fold (emit io p) (calls_of run df us) e"
    let ?T = "\<lambda>f. if f < 5 \<and> run f t \<noteq> [] then terms_in run us f @ [t] else terms_in run us f"
    have IH: "emitting run df p (calls_cost (calls_of run df us)) K0 (terms_in run us) us ?e" by (rule snoc.IH[of "t # vs"]) (simp add: snoc.prems)
    have t: "2 \<le> length t" "\<exists>f < 5. run f t \<noteq> []" using assms(6)[of t] snoc.prems by simp_all
    have n: "length us < mp_dfCount p" "0 < mp_dfCount p" using assms(4) snoc.prems by simp_all
    have c: "length (terms_in run us f) < mp_termCount p ! f" if "f < 5" "run f t \<noteq> []" for f
      using assms(5)[OF that(1)] that(2) snoc.prems by simp
    obtain g where g: "g < 5" "run g t \<noteq> []" using t(2) by blast
    then have "?T g \<noteq> []" by simp
    then have ne: "\<exists>f < 5. ?T f \<noteq> []" using g(1) by blast
    have "emitting run df p (calls_cost (calls_of run df us) + calls_cost (concat (map (\<lambda>f. onField_call t f (run f t)) [0..<5]))) K0 ?T us (fold (emit io p) (concat (map (\<lambda>f. onField_call t f (run f t)) [0..<5])) ?e)"
      by (rule emitting_fields[OF IH assms(2,3) n(2) t(1) c order_refl])
    from emitting_term[OF this assms(2,3) n(1) t(1) ne]
    have "emitting run df p (calls_cost (calls_of run df (us @ [t]))) K0 ?T (us @ [t]) (fold (emit io p) (calls_of run df (us @ [t])) e)" by (simp add: calls_of_def add.assoc)
    then show ?case using emitting_cong[of ?T "terms_in run (us @ [t])"] by simp
  qed
  from this[of ts "[]"] show ?thesis by simp
qed

section \<open>The end of a walk\<close>

lemma flush_closes:
  assumes "emitted run p e K E (\<lambda>f. length (E f) div blockedBlockTerms) ds" "plan_ok p" "sink_ok io" "0 < mp_dfCount p \<or> (\<forall>f < 5. E f = [])"
  shows "k \<le> 5 \<Longrightarrow> \<exists>K'. K \<subseteq> K' \<and> emitted run p (fold (\<lambda>f e. if e_inBlock e ! f > 0 then closeBlock io p f e else e) [0..<k] e) K' E
    (\<lambda>f. if f < k then blockCountOf (length (E f)) else length (E f) div blockedBlockTerms) ds
    \<and> w_tail (e_w (fold (\<lambda>f e. if e_inBlock e ! f > 0 then closeBlock io p f e else e) [0..<k] e))
        \<le> w_tail (e_w e) + (\<Sum>f < k. plen (E f) (length (E f) div blockedBlockTerms))"
proof (induction k)
  case 0
  then show ?case using assms(1) by auto
next
  case (Suc k)
  let ?e = "fold (\<lambda>f e. if e_inBlock e ! f > 0 then closeBlock io p f e else e) [0..<k] e"
  let ?C = "\<lambda>k f. if f < k then blockCountOf (length (E f)) else length (E f) div blockedBlockTerms"
  let ?n = "length (E k)" and ?c = "length (E k) div blockedBlockTerms"
  obtain K' where IH: "K \<subseteq> K'" "emitted run p ?e K' E (?C k) ds"
    "w_tail (e_w ?e) \<le> w_tail (e_w e) + (\<Sum>f < k. plen (E f) (length (E f) div blockedBlockTerms))" using Suc by auto
  have k: "k < 5" using Suc.prems by simp
  have "\<forall>f < 5. cursor_ok ?e f (E f) (?C k f)" using IH(2) unfolding emitted_def by blast
  then have "cursor_ok ?e k (E k) (?C k k)" using k by blast
  then have "cursor_ok ?e k (E k) ?c" by simp
  then have inb: "e_inBlock ?e ! k = ?n mod blockedBlockTerms" by (simp add: cursor_ok_def minus_div_mult_eq_mod)
  show ?case
  proof (cases "?n mod blockedBlockTerms = 0")
    case True
    then have "?C (Suc k) = ?C k" by (auto simp: fun_eq_iff less_Suc_eq blockCountOf_eq)
    then show ?thesis using IH inb True by auto
  next
    case False
    then have df: "0 < mp_dfCount p" using assms(4) Suc.prems by (metis Suc_le_lessD list.size(3) mod_0)
    have bt: "0 < blockedBlockTerms" by (simp add: blockedBlockTerms_def)
    have "?c * blockedBlockTerms < ?n" "?n \<le> ?c * blockedBlockTerms + blockedBlockTerms"
      using False div_mult_mod_eq[of ?n blockedBlockTerms] mod_less_divisor[OF bt, of ?n] by linarith+
    then have n: "?C k k * blockedBlockTerms < ?n" "?n \<le> ?C k k * blockedBlockTerms + blockedBlockTerms" by simp_all
    have "(?C k)(k := Suc (?C k k)) = ?C (Suc k)" using block_counts(2)[OF False] by (auto simp: fun_eq_iff less_Suc_eq)
    with emitted_close[OF IH(2) assms(2,3) df k n] obtain K2 where "K' \<subseteq> K2" "emitted run p (closeBlock io p k ?e) K2 E (?C (Suc k)) ds"
      "w_tail (e_w (closeBlock io p k ?e)) = w_tail (e_w ?e) + plen (E k) ?c" by auto
    moreover have "fold (\<lambda>f e. if e_inBlock e ! f > 0 then closeBlock io p f e else e) [0..<Suc k] e = closeBlock io p k ?e"
      using inb False by simp
    ultimately show ?thesis using IH(1,3) by (intro exI[of _ K2]) simp
  qed
qed

lemma flushed_calls:
  assumes "emitting run df p U K0 T ts e" "plan_ok p" "sink_ok io" "0 < mp_dfCount p \<or> (\<forall>f < 5. T f = [])"
  shows "\<exists>K E. K0 \<subseteq> K \<and> emitted run p (flushBlocks io p e) K E (begun E) (map (\<lambda>t. (t, df t)) ts) \<and> (\<forall>f < 5. map fst (E f) = T f)
    \<and> w_tail (e_w (flushBlocks io p e)) \<le> mp_prefixEnd p + U"
proof -
  obtain K E C where m: "K0 \<subseteq> K" "emitted run p e K E C (map (\<lambda>t. (t, df t)) ts)"
    "\<forall>f < 5. C f = length (E f) div blockedBlockTerms \<and> map fst (E f) = T f" "w_tail (e_w e) + pending E C \<le> mp_prefixEnd p + U"
    using assms(1) unfolding emitting_def by blast
  let ?C = "\<lambda>f. length (E f) div blockedBlockTerms" and ?C5 = "\<lambda>f. if f < 5 then blockCountOf (length (E f)) else length (E f) div blockedBlockTerms"
  have cong: "emitted run p e' K' E C1 ds \<longleftrightarrow> emitted run p e' K' E C2 ds" if "\<And>f. f < 5 \<Longrightarrow> C1 f = C2 f" for e' K' C1 C2 ds
  proof -
    have "(\<exists>f < 5. block_rows p f \<le> a \<and> b \<le> block_rows p f + 4 * C1 f) = (\<exists>f < 5. block_rows p f \<le> a \<and> b \<le> block_rows p f + 4 * C2 f)" for a b
      using that by auto
    then have "zone p S C1 dn t v = zone p S C2 dn t v" for S dn t v unfolding zone_def by simp
    moreover have "counts_ok p S C1 dn = counts_ok p S C2 dn" for S dn using that by (auto simp: counts_ok_def)
    ultimately show ?thesis using that by (simp add: emitted_def kept_def)
  qed
  have e: "emitted run p e K E ?C (map (\<lambda>t. (t, df t)) ts)" using m(2,3) cong[of C ?C] by simp
  have z: "0 < mp_dfCount p \<or> (\<forall>f < 5. E f = [])" using assms(4) m(3) by (metis list.map_disc_iff)
  from flush_closes[OF e assms(2,3) z order_refl] obtain K' where f: "K \<subseteq> K'"
    "emitted run p (fold (\<lambda>f e. if e_inBlock e ! f > 0 then closeBlock io p f e else e) [0..<5] e) K' E ?C5 (map (\<lambda>t. (t, df t)) ts)"
    "w_tail (e_w (fold (\<lambda>f e. if e_inBlock e ! f > 0 then closeBlock io p f e else e) [0..<5] e)) \<le> w_tail (e_w e) + (\<Sum>f < 5. plen (E f) (?C f))" by blast
  have "(\<Sum>f < 5. plen (E f) (?C f)) = pending E C" unfolding pending_def by (rule sum.cong) (use m(3) in auto)
  moreover have "mp_kind p = dictBlocked" "length (e_inBlock e) = 5" using assms(2) m(2) by (simp_all add: plan_ok_def emitted_def five_def)
  then have "flushBlocks io p e = fold (\<lambda>f e. if e_inBlock e ! f > 0 then closeBlock io p f e else e) [0..<5] e" by (simp add: flushBlocks_def)
  ultimately show ?thesis using m f cong[of ?C5 "begun E"] by (intro exI[of _ K'] exI[of _ E]) auto
qed

end
