(* ===== verification/Bm25Sealed.thy ===== *)
theory Bm25Sealed
  imports Bm25Emitted
begin

text \<open>
  The file of a merge: the planned prefix and the emitted tail together hold every store of a segment
  layout over the surviving documents, so the file opens to a segment sealed over them. The size of
  the file is bounded by the plan and the calls, so a merge below that bound is never refused.
\<close>

section \<open>The plan\<close>

lemma plan_dicts_blocked:
  "plan_dicts dictBlocked ns off = (ds, end) \<Longrightarrow> length ds = length ns \<and> off \<le> end
   \<and> (\<forall>i < length ns. 8 dvd md_dictOff (ds ! i) \<and> off \<le> md_dictOff (ds ! i) \<and> md_firstTermsOff (ds ! i) = md_dictOff (ds ! i) + 16
        \<and> 4 dvd md_blockIdxOff (ds ! i) \<and> md_firstTermsOff (ds ! i) + 8 * blockCountOf (ns ! i) \<le> md_blockIdxOff (ds ! i)
        \<and> md_blockIdxOff (ds ! i) + 4 * blockCountOf (ns ! i) \<le> end)
   \<and> (\<forall>i < length ns. \<forall>j < i. md_blockIdxOff (ds ! j) + 4 * blockCountOf (ns ! j) \<le> md_dictOff (ds ! i))"
proof (induction ns arbitrary: off ds)
  case (Cons n ns)
  let ?o = "align off 8" and ?b = "align (align off 8 + 16 + 8 * blockCountOf n) 4"
  obtain ds' where d: "plan_dicts dictBlocked ns (?b + 4 * blockCountOf n) = (ds', end)"
    "ds = \<lparr>md_dictOff = ?o, md_entriesOff = 0, md_slotsOff = 0, md_slotCount = 0, md_firstTermsOff = ?o + 16, md_blockIdxOff = ?b\<rparr> # ds'"
    using Cons.prems by (auto simp: planFieldDict_def Let_def split: prod.splits)
  have a: "off \<le> ?o" "?o + 16 + 8 * blockCountOf n \<le> ?b" by (simp_all add: align_ge)
  note IH = Cons.IH[OF d(1)]
  have "md_blockIdxOff (ds ! j) + 4 * blockCountOf ((n # ns) ! j) \<le> md_dictOff (ds ! i)" if "i < length (n # ns)" "j < i" for i j
    using that IH d(2) by (cases i; cases j) auto
  moreover have "8 dvd md_dictOff (ds ! i) \<and> off \<le> md_dictOff (ds ! i) \<and> md_firstTermsOff (ds ! i) = md_dictOff (ds ! i) + 16
        \<and> 4 dvd md_blockIdxOff (ds ! i) \<and> md_firstTermsOff (ds ! i) + 8 * blockCountOf ((n # ns) ! i) \<le> md_blockIdxOff (ds ! i)
        \<and> md_blockIdxOff (ds ! i) + 4 * blockCountOf ((n # ns) ! i) \<le> end" if "i < length (n # ns)" for i
    using that IH d(2) a by (cases i) auto
  moreover have "length ds = length (n # ns)" "off \<le> end" using IH d(2) a by simp_all
  ultimately show ?case by blast
qed simp

lemma planMerge_fields:
  fixes members tc dc
  defines "p \<equiv> planMerge dictBlocked members tc dc"
  obtains off1 off2 off3 off4 memberOff where
    "mp_kind p = dictBlocked" "mp_members p = members" "mp_memberOffsetsOff p = 32"
    "place 1 (32 + 4 * (length members + 1)) (map length members) = (memberOff, off1)" "mp_memberOff p = memberOff @ [off1]"
    "mp_fieldTableOff p = align off1 8"
    "place 1 (mp_fieldTableOff p + 48 * 5) (map (\<lambda>cfg. length (fc_Name cfg)) defaultFieldConfigs) = (mp_nameOff p, off2)"
    "place 4 off2 (map (\<lambda>_. 4 * length members) defaultFieldConfigs) = (mp_docLengthsOff p, off3)"
    "plan_dicts dictBlocked tc off3 = (mp_dicts p, off4)" "mp_termCount p = tc"
    "mp_dfDictOff p = align off4 8" "mp_dfEntriesOff p = align off4 8 + 8" "mp_dfCount p = dc" "mp_prefixEnd p = align off4 8 + 8 + 16 * dc"
proof -
  have a: "align 32 4 = 32" "align (align x 8 + 8) 8 = align x 8 + 8" "align (align x 8 + 8 + 16 * k) 8 = align x 8 + 8 + 16 * k" for x k
    by (simp_all add: align_def[of 32 4] align_id)
  obtain memberOff off1 where 1: "place 1 (32 + 4 * (length members + 1)) (map length members) = (memberOff, off1)" by fastforce
  obtain nameOff off2 where 2: "place 1 (align off1 8 + 48 * 5) (map (\<lambda>cfg. length (fc_Name cfg)) defaultFieldConfigs) = (nameOff, off2)" by fastforce
  obtain lensOff off3 where 3: "place 4 off2 (map (\<lambda>_. 4 * length members) defaultFieldConfigs) = (lensOff, off3)" by fastforce
  obtain ds off4 where 4: "plan_dicts dictBlocked tc off3 = (ds, off4)" by fastforce
  have p: "p = \<lparr>mp_kind = dictBlocked, mp_members = members, mp_memberOffsetsOff = 32, mp_memberOff = memberOff @ [off1],
      mp_fieldTableOff = align off1 8, mp_nameOff = nameOff, mp_docLengthsOff = lensOff, mp_dicts = ds, mp_termCount = tc,
      mp_dfDictOff = align off4 8, mp_dfEntriesOff = align off4 8 + 8, mp_dfCount = dc, mp_prefixEnd = align off4 8 + 8 + 16 * dc\<rparr>"
    unfolding p_def planMerge_def Let_def a five_fields 1 prod.case 2 3 4 ..
  show thesis by (rule that[of memberOff off1 off2 off3 off4]) (simp_all only: p mergePlan.simps 1 2 3 4)
qed

text \<open>The sections of the prefix before the dictionaries end at \<open>off3\<close>, the dictionaries at \<open>off4\<close>.\<close>

lemma planMerge_ok:
  assumes "length tc = 5"
  shows "plan_ok (planMerge dictBlocked members tc dc)"
proof -
  define p where "p = planMerge dictBlocked members tc dc"
  obtain off1 off2 off3 off4 memberOff where l: "mp_kind p = dictBlocked"
    "place 1 (32 + 4 * (length members + 1)) (map length members) = (memberOff, off1)" "mp_fieldTableOff p = align off1 8"
    "place 1 (mp_fieldTableOff p + 48 * 5) (map (\<lambda>cfg. length (fc_Name cfg)) defaultFieldConfigs) = (mp_nameOff p, off2)"
    "place 4 off2 (map (\<lambda>_. 4 * length members) defaultFieldConfigs) = (mp_docLengthsOff p, off3)"
    "plan_dicts dictBlocked tc off3 = (mp_dicts p, off4)" "mp_termCount p = tc"
    "mp_dfDictOff p = align off4 8" "mp_dfEntriesOff p = align off4 8 + 8" "mp_dfCount p = dc" "mp_prefixEnd p = align off4 8 + 8 + 16 * dc"
    unfolding p_def by (rule planMerge_fields)
  note d = plan_dicts_blocked[OF l(6), unfolded assms]
  have "32 \<le> off3" using place_le'[OF l(2)] place_le'[OF l(4)] place_le'[OF l(5)] align_ge[of 8 off1] l(3) by simp
  moreover have "off4 \<le> mp_dfDictOff p" using align_ge[of 8 off4] l(8) by simp
  ultimately show ?thesis
    unfolding p_def[symmetric] plan_ok_def l(1,7,9-11) using d l(8) by fastforce
qed

section \<open>The stores of the prefix\<close>

fun call_put :: "wcall \<Rightarrow> bstore" where
  "call_put (Patch off b) = Put off b"
| "call_put (Append b alignTo) = Put 0 b"

lemma patch_pairs: "list_all (\<lambda>c. \<not> is_append c) cs \<Longrightarrow> \<exists>ps. cs = patches ps \<and> map call_put cs = puts ps"
proof (induction cs)
  case (Cons c cs)
  then obtain off b ps where "c = Patch off b" "cs = patches ps" "map call_put cs = puts ps" by (cases c) auto
  then show ?case by (intro exI[of _ "(off, b) # ps"]) simp
qed simp

lemma sections_laid:
  "(\<And>i. i < n \<Longrightarrow> laid (g i) (f i) (g (Suc i))) \<Longrightarrow> laid (g 0) (concat (map f [0..<n])) (g n)"
proof (induction n)
  case (Suc n)
  then show ?case using laid_append[of "g 0" "concat (map f [0..<n])" "g n" "f n" "g (Suc n)"] by simp
qed simp

lemma mset_concat_cong: "(\<And>x. mset (f x) = mset (g x)) \<Longrightarrow> mset (concat (map f xs)) = mset (concat (map g xs))"
  by (induction xs) simp_all

definition entry_puts :: "mergePlan \<Rightarrow> nat list list \<Rightarrow> nat \<Rightarrow> bstore list" where
  "entry_puts p L i = (let cfg = defaultFieldConfigs ! i; e = mp_fieldTableOff p + 48 * i
     in [put32 e (mp_nameOff p ! i), put16 (e + 4) (length (fc_Name cfg)), put64 (e + 8) (unat (fc_Boost cfg)), put64 (e + 16) (unat (fc_B cfg)),
         put64 (e + 24) (sum_list (L ! i)), put32 (e + 32) (mp_docLengthsOff p ! i), put32 (e + 36) (md_dictOff (mp_dicts p ! i))])"

definition head_puts :: "mergePlan \<Rightarrow> nat \<Rightarrow> bstore list" where
  "head_puts p i = (let d = mp_dicts p ! i; n = mp_termCount p ! i
     in [put32 (md_dictOff d) n, put32 (md_dictOff d + 4) (blockCountOf n), put32 (md_dictOff d + 8) (md_firstTermsOff d),
         put32 (md_dictOff d + 12) (md_blockIdxOff d)])"

definition early_puts :: "mergePlan \<Rightarrow> nat list list \<Rightarrow> bstore list" where
  "early_puts p L =
     map (\<lambda>i. put32 (mp_memberOffsetsOff p + 4 * i) (mp_memberOff p ! i)) [0..<length (mp_memberOff p)]
     @ map (\<lambda>i. Put (mp_memberOff p ! i) (bytes_of (mp_members p ! i))) [0..<length (mp_members p)]
     @ concat (map (entry_puts p L) [0..<5])
     @ concat (map (\<lambda>i. [Put (mp_nameOff p ! i) (bytes_of (field_name i))]) [0..<5])
     @ concat (map (\<lambda>i. [Put (mp_docLengthsOff p ! i) (concat (map (put_le 4) (L ! i)))]) [0..<5])"

definition late_puts :: "mergePlan \<Rightarrow> bstore list" where
  "late_puts p = concat (map (head_puts p) [0..<5]) @ [put32 (mp_dfDictOff p) (mp_dfCount p), put32 (mp_dfDictOff p + 4) (mp_dfEntriesOff p)]"

lemma prefix_puts:
  assumes "mp_kind p = dictBlocked"
  shows "mset (map call_put (prefix_calls p L)) = mset (Put 0 (header_bytes p) # early_puts p L @ late_puts p)"
    and "list_all (\<lambda>c. \<not> is_append c) (prefix_calls p L)"
proof -
  let ?X = "\<lambda>i. map call_put (let cfg = defaultFieldConfigs ! i; e = mp_fieldTableOff p + 48 * i
         in [patch32 e (mp_nameOff p ! i), patch16 (e + 4) (length (fc_Name cfg)), patch64 (e + 8) (unat (fc_Boost cfg)),
             patch64 (e + 16) (unat (fc_B cfg)), patch32 (e + 32) (mp_docLengthsOff p ! i), patch32 (e + 36) (md_dictOff (mp_dicts p ! i)),
             patchStr (mp_nameOff p ! i) (fc_Name cfg), Patch (mp_docLengthsOff p ! i) (concat (map (put_le 4) (L ! i))),
             patch64 (e + 24) (sum_list (L ! i))] @ dict_header p i)"
  have X: "mset (?X i) = mset (entry_puts p L i @ [Put (mp_nameOff p ! i) (bytes_of (field_name i))]
      @ [Put (mp_docLengthsOff p ! i) (concat (map (put_le 4) (L ! i)))] @ head_puts p i)" for i
    by (simp add: Let_def entry_puts_def head_puts_def dict_header_def assms)
  have "mset (concat (map ?X [0..<5])) = mset (concat (map (entry_puts p L) [0..<5])) + (mset (concat (map (\<lambda>i. [Put (mp_nameOff p ! i) (bytes_of (field_name i))]) [0..<5]))
      + (mset (concat (map (\<lambda>i. [Put (mp_docLengthsOff p ! i) (concat (map (put_le 4) (L ! i)))]) [0..<5])) + mset (concat (map (head_puts p) [0..<5]))))"
    unfolding mset_concat_cong[of ?X, OF X] mset_concat_split ..
  then show "mset (map call_put (prefix_calls p L)) = mset (Put 0 (header_bytes p) # early_puts p L @ late_puts p)"
    unfolding prefix_calls_def map_append map_concat map_map comp_def five_fields mset_append early_puts_def late_puts_def
    by (simp add: comp_def)
  show "list_all (\<lambda>c. \<not> is_append c) (prefix_calls p L)"
    by (auto simp: prefix_calls_def list_all_iff dict_header_def Let_def assms)
qed


lemma puts_placed:
  assumes "place a off ns = (offs, end)" "0 < a" "\<And>i. i < length ns \<Longrightarrow> length (b i) = ns ! i"
  shows "laid off (concat (map (\<lambda>i. [Put (offs ! i) (b i)]) [0..<length ns])) end"
  using place_laid[of a ns off "\<lambda>i. [Put (offs ! i) (b i)]"] assms by (simp add: laid_asc)

definition plan_marks :: "mergePlan \<Rightarrow> nat \<Rightarrow> nat \<Rightarrow> bool" where
  "plan_marks p off3 off4 \<longleftrightarrow> off3 \<le> off4 \<and> mp_dfDictOff p = align off4 8 \<and> mp_dfEntriesOff p = mp_dfDictOff p + 8
     \<and> (\<forall>f < 5. off3 \<le> md_dictOff (mp_dicts p ! f) \<and> first_rows p f = md_dictOff (mp_dicts p ! f) + 16
          \<and> first_rows p f + 8 * blocks_of p f \<le> block_rows p f \<and> block_rows p f + 4 * blocks_of p f \<le> off4)
     \<and> (\<forall>f < 5. \<forall>g < f. block_rows p g + 4 * blocks_of p g \<le> md_dictOff (mp_dicts p ! f))"

lemma early_laid:
  fixes members tc dc L
  defines "p \<equiv> planMerge dictBlocked members tc dc"
  assumes "length tc = 5" "\<And>i. i < 5 \<Longrightarrow> length (L ! i) = length members"
  obtains off3 off4 where "laid 32 (early_puts p L) off3" "laid off3 (late_puts p) (mp_dfEntriesOff p)" "plan_marks p off3 off4"
proof -
  obtain off1 off2 off3 off4 memberOff where l: "mp_members p = members" "mp_memberOffsetsOff p = 32"
    "place 1 (32 + 4 * (length members + 1)) (map length members) = (memberOff, off1)" "mp_memberOff p = memberOff @ [off1]" "mp_fieldTableOff p = align off1 8"
    "place 1 (mp_fieldTableOff p + 48 * 5) (map (\<lambda>cfg. length (fc_Name cfg)) defaultFieldConfigs) = (mp_nameOff p, off2)"
    "place 4 off2 (map (\<lambda>_. 4 * length members) defaultFieldConfigs) = (mp_docLengthsOff p, off3)"
    "plan_dicts dictBlocked tc off3 = (mp_dicts p, off4)" "mp_termCount p = tc"
    "mp_dfDictOff p = align off4 8" "mp_dfEntriesOff p = align off4 8 + 8"
    unfolding p_def by (rule planMerge_fields)
  let ?nm = "length members"
  note d = plan_dicts_blocked[OF l(8), unfolded assms(2)]
  have lo: "length memberOff = ?nm" using place_length'[OF l(3)] by simp
  have mo: "laid 32 (map (\<lambda>i. put32 (mp_memberOffsetsOff p + 4 * i) (mp_memberOff p ! i)) [0..<length (mp_memberOff p)]) (32 + 4 * (?nm + 1))"
    using rows_laid[of "?nm + 1" 32 4 "\<lambda>i. [put32 (mp_memberOffsetsOff p + 4 * i) (mp_memberOff p ! i)]"]
    by (subst map_rows) (simp add: l lo laid_asc)
  have mc: "laid (32 + 4 * (?nm + 1)) (map (\<lambda>i. Put (mp_memberOff p ! i) (bytes_of (mp_members p ! i))) [0..<length (mp_members p)]) off1"
  proof -
    have "map (\<lambda>i. Put (mp_memberOff p ! i) (bytes_of (mp_members p ! i))) [0..<length (mp_members p)]
        = concat (map (\<lambda>i. [Put (memberOff ! i) (bytes_of (members ! i))]) [0..<?nm])"
      unfolding map_rows[symmetric] using lo l(1,4) by (simp add: nth_append)
    then show ?thesis using puts_placed[OF l(3), of "\<lambda>i. bytes_of (members ! i)"] by simp
  qed
  have en: "laid off1 (concat (map (entry_puts p L) [0..<5])) (mp_fieldTableOff p + 48 * 5)"
    using laid_mono[OF rows_laid[of 5 "mp_fieldTableOff p" 48 "entry_puts p L"], of off1] align_ge[of 8 off1]
    by (simp add: entry_puts_def Let_def l(5) laid_asc)
  have nm: "laid (mp_fieldTableOff p + 48 * 5) (concat (map (\<lambda>i. [Put (mp_nameOff p ! i) (bytes_of (field_name i))]) [0..<5])) off2"
    using puts_placed[OF l(6), of "\<lambda>i. bytes_of (field_name i)"] by simp
  have ln: "laid off2 (concat (map (\<lambda>i. [Put (mp_docLengthsOff p ! i) (concat (map (put_le 4) (L ! i)))]) [0..<5])) off3"
  proof -
    have "length (concat (map (put_le 4) xs)) = 4 * length xs" for xs by (induction xs) simp_all
    then show ?thesis using puts_placed[OF l(7), of "\<lambda>i. concat (map (put_le 4) (L ! i))"] assms(3) by simp
  qed
  let ?g = "\<lambda>i. if i = 0 then off3 else if i < 5 then md_dictOff (mp_dicts p ! i) else off4"
  have "laid (?g i) (head_puts p i) (?g (Suc i))" if i: "i < 5" for i
  proof -
    have "laid (md_dictOff (mp_dicts p ! i)) (head_puts p i) (md_dictOff (mp_dicts p ! i) + 16)" by (intro laid_asc) (simp add: head_puts_def Let_def)
    moreover have "md_dictOff (mp_dicts p ! i) + 16 \<le> md_blockIdxOff (mp_dicts p ! i) + 4 * blockCountOf (tc ! i)"
      using conjunct1[OF conjunct2[OF conjunct2[OF d]]] i by fastforce
    moreover have "md_blockIdxOff (mp_dicts p ! i) + 4 * blockCountOf (tc ! i) \<le> ?g (Suc i)" using d i by (cases "Suc i < 5") auto
    moreover have "?g i \<le> md_dictOff (mp_dicts p ! i)" using d i by auto
    ultimately show ?thesis using laid_mono by (meson order_trans)
  qed
  from sections_laid[of 5 ?g "head_puts p", OF this] have hd: "laid off3 (concat (map (head_puts p) [0..<5])) off4" by simp
  have df: "laid off4 [put32 (mp_dfDictOff p) (mp_dfCount p), put32 (mp_dfDictOff p + 4) (mp_dfEntriesOff p)] (mp_dfEntriesOff p)"
    using align_ge[of 8 off4] by (intro laid_asc) (simp add: l)
  have "laid 32 (early_puts p L) off3"
    unfolding early_puts_def by (intro laid_append[OF mo] laid_append[OF mc] laid_append[OF en] laid_append[OF nm] ln)
  moreover have "laid off3 (late_puts p) (mp_dfEntriesOff p)" unfolding late_puts_def by (intro laid_append[OF hd] df)
  moreover have "plan_marks p off3 off4" unfolding plan_marks_def l(9-11) using d by fastforce
  ultimately show thesis by (rule that)
qed

lemma late_zone:
  assumes "v \<in> set (late_puts p)" "plan_marks p off3 off4" "f < 5"
  shows "st_end v \<le> first_rows p f \<or> block_rows p f + 4 * blocks_of p f \<le> st_off v"
proof -
  have m: "\<And>f. f < 5 \<Longrightarrow> first_rows p f = md_dictOff (mp_dicts p ! f) + 16 \<and> first_rows p f + 8 * blocks_of p f \<le> block_rows p f \<and> block_rows p f + 4 * blocks_of p f \<le> off4"
    "\<And>f g. f < 5 \<Longrightarrow> g < f \<Longrightarrow> block_rows p g + 4 * blocks_of p g \<le> md_dictOff (mp_dicts p ! f)" "off4 \<le> mp_dfDictOff p"
    using assms(2) align_ge[of 8 off4] by (auto simp: plan_marks_def)
  consider (head) i where "i < 5" "v \<in> set (head_puts p i)" | (df) "mp_dfDictOff p \<le> st_off v" using assms(1) by (auto simp: late_puts_def)
  then show ?thesis
  proof cases
    case head
    then have v: "md_dictOff (mp_dicts p ! i) \<le> st_off v" "st_end v \<le> md_dictOff (mp_dicts p ! i) + 16" by (auto simp: head_puts_def Let_def)
    consider "i < f" | "i = f" | "f < i" by linarith
    then show ?thesis
    proof cases
      case 1
      then show ?thesis using v m(1)[OF head(1)] m(1)[OF assms(3)] m(2)[OF assms(3), of i] by linarith
    next
      case 3
      then show ?thesis using v m(2)[OF head(1), of f] by linarith
    qed (use v m(1)[OF assms(3)] in simp)
  qed (use m(1)[OF assms(3)] m(3) in linarith)
qed

text \<open>The stores of the prefix that the tail leaves alone: the header without the blob's length, and the rest.\<close>

definition fixed_puts :: "mergePlan \<Rightarrow> nat list list \<Rightarrow> bstore list" where
  "fixed_puts p L = [Put 0 (take 24 (header_bytes p)), put32 28 0] @ early_puts p L @ late_puts p"

lemma length_header_bytes [simp]: "length (header_bytes p) = 32"
  by (simp add: header_bytes_def)

lemma fixed_zone:
  fixes members tc dc L
  defines "p \<equiv> planMerge dictBlocked members tc dc"
  assumes "length tc = 5" "\<And>i. i < 5 \<Longrightarrow> length (L ! i) = length members" "v \<in> set (fixed_puts p L)"
  shows "zone p S C dn t v"
proof -
  obtain off3 off4 where l: "laid 32 (early_puts p L) off3" "laid off3 (late_puts p) (mp_dfEntriesOff p)" "plan_marks p off3 off4"
    using early_laid[of tc L members dc] assms(2,3) unfolding p_def by blast
  have o: "32 \<le> off3" "off3 \<le> mp_dfEntriesOff p" using laid_le l by blast+
  have fr: "off3 \<le> first_rows p f" if "f < 5" for f using l(3) that by (auto simp: plan_marks_def intro: trans_le_add1)
  consider "v = Put 0 (take 24 (header_bytes p))" | "v = put32 28 0" | "v \<in> set (early_puts p L)" | "v \<in> set (late_puts p)"
    using assms(4) by (auto simp: fixed_puts_def)
  then show ?thesis
  proof cases
    case 3
    then have "32 \<le> st_off v" "st_end v \<le> off3" using laid_within[OF l(1)] by blast+
    then show ?thesis using o fr unfolding zone_def by (meson order_trans numeral_le_iff semiring_norm)
  next
    case 4
    then have "off3 \<le> st_off v" "st_end v \<le> mp_dfEntriesOff p" using laid_within[OF l(2)] by blast+
    moreover have "28 \<le> st_off v" using calculation(1) o by linarith
    ultimately show ?thesis using late_zone[OF 4 l(3)] unfolding zone_def by blast
  qed (use o fr in \<open>fastforce simp: zone_def\<close>)+
qed


section \<open>The prefix is written\<close>

lemma prefix_kept:
  fixes members tc dc L f io
  defines "p \<equiv> planMerge dictBlocked members tc dc"
  defines "w \<equiv> fold (run_call io) (prefix_calls p L) (newMergeWriter f (mp_prefixEnd p))"
  assumes "length tc = 5" "\<And>i. i < 5 \<Longrightarrow> length (L ! i) = length members" "sink_ok io" "length f \<le> mp_prefixEnd p"
  shows "kept p w (\<lambda>_. 0) (\<lambda>_. 0) 0 (set (fixed_puts p L))" "w_tail w = mp_prefixEnd p"
proof -
  let ?w = "newMergeWriter f (mp_prefixEnd p)"
  have ok: "plan_ok p" unfolding p_def by (rule planMerge_ok[OF assms(3)])
  have kd: "mp_kind p = dictBlocked" using ok by (simp add: plan_ok_def)
  note nw = new_writer[OF assms(6)]
  have t: "w_tail ?w = mp_prefixEnd p" by (simp add: newMergeWriter_def)
  obtain off3 off4 where l: "laid 32 (early_puts p L) off3" "laid off3 (late_puts p) (mp_dfEntriesOff p)"
    using early_laid[of tc L members dc] assms(3,4) unfolding p_def by blast
  obtain ps where ps: "prefix_calls p L = patches ps" "map call_put (prefix_calls p L) = puts ps"
    using patch_pairs[OF prefix_puts(2)[OF kd]] by blast
  have "laid 0 ([Put 0 (header_bytes p)] @ early_puts p L @ late_puts p) (mp_dfEntriesOff p)"
    by (intro laid_append[OF _ laid_append[OF l]] laid_asc) simp
  then have ld: "laid 0 (puts ps) (mp_dfEntriesOff p)" by (rule laid_perm) (simp only: ps(2)[symmetric] prefix_puts(1)[OF kd] append_Cons append_Nil)
  have "w = fold (run_call io) (patches ps) ?w" by (simp add: w_def ps(1))
  note s = patches_shown[OF assms(5) nw(1) laid_disj[OF ld] this]
  show tw: "w_tail w = mp_prefixEnd p" using s t by simp
  have cl: "calm w" if "0 < mp_dfCount p"
  proof -
    have "off + length b + mergeRunMaxGap < w_tail ?w" if "(off, b) \<in> set ps" for off b
    proof -
      have "Put off b \<in> set (puts ps)" using that by force
      then have "off + length b \<le> mp_dfEntriesOff p" using laid_within[OF ld] by fastforce
      then show ?thesis using t plan_field(4)[OF ok, of 0] \<open>0 < mp_dfCount p\<close> by simp
    qed
    then show ?thesis using s nw(2) by blast
  qed
  have sh: "shown (img w) v" if "v \<in> set (Put 0 (header_bytes p) # early_puts p L @ late_puts p)" for v
  proof -
    have "v \<in> set (puts ps)" using that mset_eq_setD[OF prefix_puts(1)[OF kd, of L]] ps(2) by simp
    then show ?thesis using s by blast
  qed
  have "header_bytes p = take 24 (header_bytes p) @ put_le 4 0 @ put_le 4 0" by (simp add: header_bytes_def)
  then have "shown (img w) (Put 0 (take 24 (header_bytes p) @ put_le 4 0 @ put_le 4 0))" using sh[of "Put 0 (header_bytes p)"] by simp
  then have "shown (img w) (Put 0 (take 24 (header_bytes p)))" "shown (img w) (put32 28 0)" unfolding shown_append by simp_all
  then have "shown (img w) v" if "v \<in> set (fixed_puts p L)" for v using that sh by (auto simp: fixed_puts_def)
  moreover have "zone p (\<lambda>_. 0) (\<lambda>_. 0) 0 (w_tail w) v" if "v \<in> set (fixed_puts p L)" for v
    using fixed_zone[of tc L members v dc] assms(3,4) that unfolding p_def by blast
  moreover have "win w" using s by blast
  ultimately show "kept p w (\<lambda>_. 0) (\<lambda>_. 0) 0 (set (fixed_puts p L))" using cl tw by (simp add: kept_def counts_ok_def)
qed

lemma emitting_starts:
  assumes "kept p w (\<lambda>_. 0) (\<lambda>_. 0) 0 K" "w_tail w = mp_prefixEnd p" "plan_ok p"
  shows "emitting run df p 0 K (\<lambda>_. []) [] (newMergeEmitter w p)"
proof -
  let ?e = "newMergeEmitter w p"
  have e: "e_w ?e = w" "e_next ?e = replicate 5 0" "e_inBlock ?e = replicate 5 0" "e_payload ?e = replicate 5 []" "e_prev ?e = replicate 5 []"
    "e_dfNext ?e = 0" "checks_ok ?e"
    using assms(3) by (simp_all add: newMergeEmitter_def Let_def plan_ok_def checks_ok_def)
  have b: "blockCountOf 0 = 0" by (simp add: blockCountOf_def blockedBlockTerms_def)
  have "emitted run p ?e K (\<lambda>_. []) (\<lambda>_. 0) []"
    using assms(1) e b by (simp add: emitted_def five_def field_done_def cursor_ok_def df_done_def)
  moreover have "pending (\<lambda>_. []) (\<lambda>_. 0) = 0" by (simp add: pending_def plen_def)
  ultimately show ?thesis
    unfolding emitting_def using e(1) assms(2) by (intro exI[of _ K] exI[of _ "\<lambda>_. []"] exI[of _ "\<lambda>_. 0"]) simp
qed

section \<open>The file\<close>

text \<open>\<open>Truncate\<close>, which the caller does with the length that the merge reports.\<close>

definition sized :: "byte list \<Rightarrow> nat \<Rightarrow> byte list" where
  "sized f n = take n (f @ replicate (n - length f) 0)"

lemma sized_peek: "sized f n = map (peek f) [0..<n]"
  by (rule nth_equalityI) (auto simp: sized_def peek_def nth_append)

lemma kept_stamped:
  assumes "kept p w S C dn K" "plan_ok p" "sink_ok io"
  defines "w' \<equiv> flushAll io (run_call io (patch32 24 (w_tail w)) w)"
  shows "w_err w' = None" "v \<in> insert (put32 24 (w_tail w)) K \<Longrightarrow> holds (sized (w_f w') (w_tail w)) v" "length (sized (w_f w') (w_tail w)) = w_tail w"
proof -
  let ?n = "w_tail w" and ?w = "run_call io (patch32 24 (w_tail w)) w"
  have k: "win w" "mp_prefixEnd p \<le> ?n" "counts_ok p S C dn" "\<And>v. v \<in> K \<Longrightarrow> shown (img w) v \<and> zone p S C dn ?n v"
    using assms(1) by (simp_all add: kept_def)
  have p: "win ?w" "img ?w = wr 24 (put_le 4 ?n) (img w)" using patch_shows[OF k(1) assms(3)] by simp_all
  note f = win_flushAll[OF p(1) assms(3), folded w'_def]
  show "w_err w' = None" by (rule f(1))
  show "length (sized (w_f w') ?n) = ?n" by (simp add: sized_def)
  have "28 \<le> mp_prefixEnd p" using plan_field(1-4)[OF assms(2), of 0] by linarith
  then have n: "28 \<le> ?n" using k(2) by simp
  have "shown (peek (w_f w')) v \<and> st_end v \<le> ?n" if v: "v \<in> insert (put32 24 ?n) K"
  proof (cases "v = put32 24 ?n")
    case True
    then show ?thesis using n shown_wr[of 24 "put_le 4 ?n"] f(3) p(2) by simp
  next
    case False
    then have K: "shown (img w) v" "zone p S C dn ?n v" using k(4) v by simp_all
    have "disj v (put32 24 ?n)" using zone_hole[OF K(2) assms(2)] by (simp add: disj_def)
    then have "shown (peek (w_f w')) v" unfolding f(3) p(2) by (rule shown_wr_disj[OF K(1)])
    moreover have "st_end v \<le> ?n"
      using zone_prefix[OF K(2) assms(2) k(3)] plan_field(4)[OF assms(2), of 0] k(2,3) by (auto simp: counts_ok_def)
    ultimately show ?thesis by blast
  qed
  then show "v \<in> insert (put32 24 ?n) K \<Longrightarrow> holds (sized (w_f w') ?n) v" unfolding sized_peek using shown_holds by blast
qed


end
