(* ===== verification/Bm25MergeTo.thy ===== *)
theory Bm25MergeTo
  imports Bm25Sealed
begin

text \<open>
  \<open>MergeTo\<close> from end to end: over sealed segments it writes a file that opens to a segment sealed over the
  documents that survive, or refuses a file past the ceiling.
\<close>

section \<open>Parts of a store\<close>

lemma holds_nth: "holds b v \<longleftrightarrow> st_end v \<le> length b \<and> shown ((!) b) v"
proof
  assume h: "holds b v"
  have "b ! (st_off v + k) = st_bytes v ! k" if "k < length (st_bytes v)" for k
  proof -
    have "st_bytes v ! k = take (length (st_bytes v)) (drop (st_off v) b) ! k" using h by (simp add: holds_def)
    also have "\<dots> = b ! (st_off v + k)" using that conjunct1[OF h[unfolded holds_def]] by (simp add: st_end_def)
    finally show ?thesis by simp
  qed
  then show "st_end v \<le> length b \<and> shown ((!) b) v" using h by (simp add: holds_def shown_def)
next
  assume "st_end v \<le> length b \<and> shown ((!) b) v"
  then show "holds b v" by (auto simp: holds_def shown_def st_end_def intro!: nth_equalityI)
qed

lemma holds_Cpy: "holds b (Cpy off x) = holds b (Put off x)"
  by (simp add: holds_def st_end_def)

lemma holds_append: "holds b (Put off (x @ y)) \<longleftrightarrow> holds b (Put off x) \<and> holds b (Put (off + length x) y)"
  by (auto simp: holds_nth shown_append)

lemma length_coded_bytes: "length (coded_bytes prev es) = coded_size prev (map fst es)"
  by (induction prev es rule: coded_bytes.induct) simp_all

lemma holds_payload:
  assumes "holds b (Put at (payload_bytes es))" "w \<in> set (writeBlockedPayload at es)"
  shows "holds b w"
proof -
  have "shown ((!) b) w" by (rule shown_payload[OF _ assms(2)]) (use assms(1) in \<open>simp add: holds_nth\<close>)
  moreover have "es \<noteq> []" using assms(2) by (auto simp: writeBlockedPayload_def)
  then have "length (payload_bytes es) = (case map fst es of [] \<Rightarrow> 8 | t # ts \<Rightarrow> 8 + coded_size t ts)"
    by (cases es rule: payload_bytes.cases) (simp_all add: length_coded_bytes)
  then have "st_end w \<le> st_end (Put at (payload_bytes es))" using laid_within[OF payload_laid assms(2)] by simp
  ultimately show ?thesis using assms(1) by (simp add: holds_nth)
qed

lemma holds_postings:
  assumes "holds b (Put at (posting_bytes (pairs_of ps)))" "w \<in> set (posting_stores at ps)"
  shows "holds b w"
proof -
  have "shown ((!) b) w" by (rule shown_postings[OF _ assms(2)]) (use assms(1) in \<open>simp add: holds_nth\<close>)
  moreover have "st_end w \<le> at + (4 * length ps + 2 * length ps)" using laid_within[OF posting_stores_laid assms(2)] by simp
  then have "st_end w \<le> st_end (Put at (posting_bytes (pairs_of ps)))" by (simp add: length_posting_bytes pairs_of_def)
  ultimately show ?thesis using assms(1) by (simp add: holds_nth)
qed

lemma holds_words_row:
  assumes "holds b (Put off (concat (map (put_le k) vs)))" "i < length vs"
  shows "holds b (Put (off + k * i) (put_le k (vs ! i)))"
proof -
  have l: "length (concat (map (put_le k) vs)) = k * length vs" by (induction vs) simp_all
  have "k * Suc i \<le> k * length vs" by (rule mult_le_mono2) (use assms(2) in simp)
  then have "off + k * i + k \<le> length b" using assms(1) l by (simp add: holds_nth)
  moreover have "shown ((!) b) (Put (off + k * i) (put_le k (vs ! i)))"
    using shown_rows[of "map (put_le k) vs" k "(!) b" off i] assms by (simp add: holds_nth)
  ultimately show ?thesis by (simp add: holds_nth)
qed

section \<open>The segment of a list of documents\<close>

definition doc_runs :: "docFieldTokens list \<Rightarrow> runs" where
  "doc_runs R f t = pairs_of (spec_postings (field_name f) t R)"

abbreviation field_terms :: "docFieldTokens list \<Rightarrow> nat \<Rightarrow> string list" where
  "field_terms R f \<equiv> terms_in (doc_runs R) (terms_of R) f"

definition docs_field :: "docFieldTokens list \<Rightarrow> nat \<Rightarrow> fieldData" where
  "docs_field R f = (let lens = map (doc_len (defaultFieldConfigs ! f)) R
     in \<lparr>fd_config = defaultFieldConfigs ! f, fd_postings = map (\<lambda>t. (t, spec_postings (field_name f) t R)) (field_terms R f),
         fd_docLengths = lens, fd_totalTokens = sum_list lens\<rparr>)"

definition docs_segment :: "docFieldTokens list \<Rightarrow> bm25Segment" where
  "docs_segment R = \<lparr>bs_fields = map (docs_field R) [0..<5], bs_members = map dt_id R, bs_docFreq = map (\<lambda>t. (t, doc_freq R t)) (terms_of R)\<rparr>"

lemma map_of_graph: "map_of (map (\<lambda>t. (t, g t)) ks) t = (if t \<in> set ks then Some (g t) else None)"
  by (induction ks) auto

lemma doc_runs_Nil: "doc_runs R f t = [] \<longleftrightarrow> spec_postings (field_name f) t R = []"
  by (simp add: doc_runs_def)

lemma field_terms_iff: "f < 5 \<Longrightarrow> t \<in> set (field_terms R f) \<longleftrightarrow> spec_postings (field_name f) t R \<noteq> []"
  using no_field_calls[of t R f] by (auto simp: doc_runs_Nil)

lemma field_terms_sorted: "sorted_wrt (<) (field_terms R f)"
  using terms_of_sorted by (rule sorted_wrt_filter)

lemma docs_segment_spec: "segment_spec R (docs_segment R)"
proof -
  have "field_spec R (defaultFieldConfigs ! f) (docs_field R f)" if "f < 5" for f
  proof -
    have "distinct (field_terms R f)" using field_terms_sorted strict_sorted_iff by blast
    moreover have "map_of (fd_postings (docs_field R f)) t = (if spec_postings (field_name f) t R = [] then None else Some (spec_postings (field_name f) t R))" for t
      using field_terms_iff[OF that, of t R] by (simp only: docs_field_def Let_def fieldData.simps map_of_graph) simp
    ultimately show ?thesis by (simp add: field_spec_def docs_field_def Let_def gomap_ok_def comp_def doc_len_def)
  qed
  then have "list_all2 (field_spec R) defaultFieldConfigs (bs_fields (docs_segment R))"
    by (simp add: list_all2_conv_all_nth docs_segment_def)
  moreover have "map_of (bs_docFreq (docs_segment R)) t =
      (let n = length (filter (doc_has t) R) in if n = 0 then None else Some (int n))" for t
    by (auto simp: docs_segment_def map_of_graph terms_of_iff doc_freq_def filter_empty_conv)
  moreover have "distinct (terms_of R)" using terms_of_sorted strict_sorted_iff by blast
  ultimately show ?thesis by (simp add: segment_spec_def docs_segment_def gomap_ok_def comp_def)
qed

lemma sortedKeys_graph: "sorted_wrt (<) ks \<Longrightarrow> sortedKeys (map (\<lambda>t. (t, g t)) ks) = ks"
  by (simp add: sortedKeys_def comp_def strict_sorted_iff sorted_sort_id)

lemma docs_keys:
  "sortedKeys (fd_postings (docs_field R f)) = field_terms R f" "sortedKeys (bs_docFreq (docs_segment R)) = terms_of R"
  "t \<in> set (field_terms R f) \<Longrightarrow> postings_of (docs_field R f) t = spec_postings (field_name f) t R"
  by (simp_all add: docs_field_def Let_def docs_segment_def sortedKeys_graph field_terms_sorted terms_of_sorted postings_of_def map_of_graph)

section \<open>The plan the file follows\<close>

definition merged_field :: "mergePlan \<Rightarrow> nat \<Rightarrow> dict_entry list \<Rightarrow> nat list \<Rightarrow> nat list \<Rightarrow> v2FieldPlan" where
  "merged_field p f es tos bos =
     \<lparr>fp_nameOff = mp_nameOff p ! f, fp_docLengthsOff = mp_docLengthsOff p ! f, fp_terms = map fst es, fp_postOff = map (fst \<circ> snd) es,
      fp_dict = empty_dict\<lparr>d_off := md_dictOff (mp_dicts p ! f), d_blockCount := blockCountOf (length es), d_blockIdxOff := block_rows p f,
                          d_termOff := tos, d_blockOff := bos\<rparr>\<rparr>"

definition merged_plan :: "mergePlan \<Rightarrow> (nat \<Rightarrow> dict_entry list) \<Rightarrow> (nat \<Rightarrow> nat list) \<Rightarrow> (nat \<Rightarrow> nat list) \<Rightarrow> string list \<Rightarrow> nat list \<Rightarrow> nat \<Rightarrow> v2Plan" where
  "merged_plan p E tos bos ts dos n =
     \<lparr>vp_kind = dictBlocked, vp_docCount = length (mp_members p), vp_memberOffsetsOff = 32, vp_memberOff = mp_memberOff p,
      vp_fieldTableOff = mp_fieldTableOff p, vp_fields = map (\<lambda>f. merged_field p f (E f) (tos f) (bos f)) [0..<5],
      vp_dfTerms = ts, vp_dfTermOff = dos, vp_dfDictOff = mp_dfDictOff p, vp_dfEntriesOff = mp_dfEntriesOff p, vp_size = n\<rparr>"

lemma merged_field_offs: "fp_nameOff (merged_field p f es tos bos) = mp_nameOff p ! f" "fp_docLengthsOff (merged_field p f es tos bos) = mp_docLengthsOff p ! f"
  by (simp_all add: merged_field_def)

text \<open>Where the first terms, the payloads and the frequency terms lie.\<close>

definition first_row :: "mergePlan \<Rightarrow> bstore set \<Rightarrow> nat \<Rightarrow> dict_entry list \<Rightarrow> nat \<Rightarrow> nat \<Rightarrow> bool" where
  "first_row p K f es b to \<longleftrightarrow> (let t = fst (es ! (b * blockedBlockTerms)); row = first_rows p f + 8 * b
     in Put to (bytes_of t) \<in> K \<and> put32 row to \<in> K \<and> put32 (row + 4) (length t) \<in> K)"

definition block_row :: "mergePlan \<Rightarrow> bstore set \<Rightarrow> nat \<Rightarrow> dict_entry list \<Rightarrow> nat \<Rightarrow> nat \<Rightarrow> bool" where
  "block_row p K f es b at \<longleftrightarrow> Put at (payload_bytes (block_slice b es)) \<in> K \<and> put32 (block_rows p f + 4 * b) at \<in> K"

definition df_row :: "mergePlan \<Rightarrow> bstore set \<Rightarrow> nat \<Rightarrow> string \<times> int \<Rightarrow> nat \<Rightarrow> bool" where
  "df_row p K i d to \<longleftrightarrow> (let (t, df) = d; row = mp_dfEntriesOff p + 16 * i
     in Put to (bytes_of t) \<in> K \<and> put32 row to \<in> K \<and> put32 (row + 4) (length t) \<in> K \<and> put64 (row + 8) (u64_of_int df) \<in> K)"

lemma done_rows:
  "first_done p K f es b \<longleftrightarrow> (\<exists>to. first_row p K f es b to)" "block_done p K f es b \<longleftrightarrow> (\<exists>at. block_row p K f es b at)"
  "df_done p K ds \<longleftrightarrow> (\<forall>i < length ds. \<exists>to. df_row p K i (ds ! i) to)"
  by (simp_all add: first_done_def first_row_def block_done_def block_row_def df_done_def df_row_def Let_def split_beta)

lemma choose_list: "(\<And>i. i < n \<Longrightarrow> \<exists>x. P i x) \<Longrightarrow> \<exists>xs. length xs = n \<and> (\<forall>i < n. P i (xs ! i))"
proof (induction n)
  case (Suc n)
  then obtain xs x where "length xs = n" "\<forall>i < n. P i (xs ! i)" "P n x" by (meson less_Suc_eq)
  then show ?case by (intro exI[of _ "xs @ [x]"]) (simp add: nth_append less_Suc_eq)
qed simp

lemma stored_at:
  assumes "\<And>f. f < 5 \<Longrightarrow> field_done run p K f (E f) (blockCountOf (length (E f)))" "df_done p K ds"
  obtains tos bos dos where "\<And>f b. f < 5 \<Longrightarrow> b < blockCountOf (length (E f)) \<Longrightarrow> first_row p K f (E f) b (tos f ! b)"
    "\<And>f b. f < 5 \<Longrightarrow> b < blockCountOf (length (E f)) \<Longrightarrow> block_row p K f (E f) b (bos f ! b)" "\<And>i. i < length ds \<Longrightarrow> df_row p K i (ds ! i) (dos ! i)"
proof -
  have f: "\<And>f b. f < 5 \<Longrightarrow> b < blockCountOf (length (E f)) \<Longrightarrow> \<exists>to. first_row p K f (E f) b to"
    "\<And>f b. f < 5 \<Longrightarrow> b < blockCountOf (length (E f)) \<Longrightarrow> \<exists>at. block_row p K f (E f) b at"
    using assms(1) by (simp_all add: field_done_def done_rows)
  have "\<exists>xs. \<forall>b < blockCountOf (length (E f)). first_row p K f (E f) b (xs ! b)" if "f < 5" for f using choose_list[of _ "first_row p K f (E f)", OF f(1)[OF that]] by blast
  then obtain tos where "\<And>f b. f < 5 \<Longrightarrow> b < blockCountOf (length (E f)) \<Longrightarrow> first_row p K f (E f) b (tos f ! b)" by metis
  moreover have "\<exists>xs. \<forall>b < blockCountOf (length (E f)). block_row p K f (E f) b (xs ! b)" if "f < 5" for f using choose_list[of _ "block_row p K f (E f)", OF f(2)[OF that]] by blast
  then obtain bos where "\<And>f b. f < 5 \<Longrightarrow> b < blockCountOf (length (E f)) \<Longrightarrow> block_row p K f (E f) b (bos f ! b)" by metis
  moreover obtain dos where "\<And>i. i < length ds \<Longrightarrow> df_row p K i (ds ! i) (dos ! i)"
    using choose_list[of "length ds" "\<lambda>i. df_row p K i (ds ! i)"] assms(2) unfolding done_rows by blast
  ultimately show thesis using that by blast
qed

section \<open>The file follows the plan\<close>

abbreviation docs_plan :: "docFieldTokens list \<Rightarrow> mergePlan" where
  "docs_plan R \<equiv> planMerge dictBlocked (map dt_id R) (map (\<lambda>f. length (field_terms R f)) [0..<5]) (length (terms_of R))"

abbreviation docs_lengths :: "docFieldTokens list \<Rightarrow> nat list list" where
  "docs_lengths R \<equiv> map (\<lambda>f. map (doc_length f) R) [0..<5]"

text \<open>What a file of \<open>n\<close> bytes holds when a merge of these documents has ended.\<close>

definition merged_file :: "docFieldTokens list \<Rightarrow> bstore set \<Rightarrow> (nat \<Rightarrow> dict_entry list) \<Rightarrow> byte list \<Rightarrow> bool" where
  "merged_file R K E b \<longleftrightarrow> set (fixed_puts (docs_plan R) (docs_lengths R)) \<subseteq> K
     \<and> (\<forall>f < 5. field_done (doc_runs R) (docs_plan R) K f (E f) (blockCountOf (length (E f))) \<and> map fst (E f) = field_terms R f)
     \<and> df_done (docs_plan R) K (map (\<lambda>t. (t, doc_freq R t)) (terms_of R))
     \<and> (\<forall>v \<in> insert (put32 24 (length b)) K. holds b v) \<and> mp_prefixEnd (docs_plan R) \<le> length b"

lemma merged_entry:
  assumes "merged_file R K E b" "f < 5" "i < length (E f)"
  shows "E f ! i = (field_terms R f ! i, fst (snd (E f ! i)), length (postings_of (docs_field R f) (field_terms R f ! i)))"
    "4 dvd fst (snd (E f ! i))"
    "holds b (Put (fst (snd (E f ! i))) (posting_bytes (pairs_of (postings_of (docs_field R f) (field_terms R f ! i)))))"
proof -
  obtain t po pc where e: "E f ! i = (t, po, pc)" by (cases "E f ! i")
  have m: "map fst (E f) = field_terms R f" using assms(1,2) by (simp add: merged_file_def)
  then have t: "t = field_terms R f ! i" using e assms(3) by (metis fst_conv nth_map)
  have "t \<in> set (field_terms R f)" using e assms(3) m by (metis fst_conv in_set_conv_nth length_map nth_map)
  then have p: "postings_of (docs_field R f) t = spec_postings (field_name f) t R" by (rule docs_keys(3))
  have "entry_done (doc_runs R) K f (t, po, pc)" using assms e nth_mem[OF assms(3)] by (auto simp: merged_file_def field_done_def)
  then have d: "pc = length (doc_runs R f t)" "4 dvd po" "Put po (posting_bytes (doc_runs R f t)) \<in> K" by (simp_all add: entry_done_def)
  moreover have "holds b (Put po (posting_bytes (doc_runs R f t)))" using d(3) assms(1) by (simp add: merged_file_def)
  ultimately show "E f ! i = (field_terms R f ! i, fst (snd (E f ! i)), length (postings_of (docs_field R f) (field_terms R f ! i)))"
    "4 dvd fst (snd (E f ! i))"
    "holds b (Put (fst (snd (E f ! i))) (posting_bytes (pairs_of (postings_of (docs_field R f) (field_terms R f ! i)))))"
    using e p unfolding t by (simp_all add: doc_runs_def pairs_of_def)
qed

lemma merged_lengths: "merged_file R K E b \<Longrightarrow> f < 5 \<Longrightarrow> length (E f) = length (field_terms R f)"
  unfolding merged_file_def by (metis length_map)

lemma merged_shape:
  assumes m: "merged_file R K E b" and n: "length b \<le> v2MaxBlobBytes"
  shows "plan_shape (merged_plan (docs_plan R) E tos bos (terms_of R) dos (length b)) (docs_segment R) (length b)"
proof -
  define p where "p = docs_plan R"
  obtain off1 off2 off3 off4 memberOff where l: "mp_kind p = dictBlocked" "mp_members p = map dt_id R"
    "place 1 (32 + 4 * (length (map dt_id R) + 1)) (map length (map dt_id R)) = (memberOff, off1)" "mp_memberOff p = memberOff @ [off1]"
    "mp_fieldTableOff p = align off1 8"
    "place 1 (mp_fieldTableOff p + 48 * 5) (map (\<lambda>cfg. length (fc_Name cfg)) defaultFieldConfigs) = (mp_nameOff p, off2)"
    "place 4 off2 (map (\<lambda>_. 4 * length (map dt_id R)) defaultFieldConfigs) = (mp_docLengthsOff p, off3)"
    "plan_dicts dictBlocked (map (\<lambda>f. length (field_terms R f)) [0..<5]) off3 = (mp_dicts p, off4)"
    "mp_dfDictOff p = align off4 8" "mp_dfEntriesOff p = align off4 8 + 8" "mp_prefixEnd p = align off4 8 + 8 + 16 * length (terms_of R)"
    unfolding p_def by (rule planMerge_fields)
  let ?P = "merged_plan p E tos bos (terms_of R) dos (length b)" and ?s = "docs_segment R"
  have d: "off3 \<le> off4" "\<And>i. i < 5 \<Longrightarrow> 8 dvd md_dictOff (mp_dicts p ! i) \<and> first_rows p i = md_dictOff (mp_dicts p ! i) + 16
        \<and> 4 dvd block_rows p i \<and> first_rows p i + 8 * blockCountOf (length (field_terms R i)) \<le> block_rows p i
        \<and> block_rows p i + 4 * blockCountOf (length (field_terms R i)) \<le> off4"
    using plan_dicts_blocked[OF l(8), simplified] by blast+
  have ord: "off1 \<le> mp_fieldTableOff p" "mp_fieldTableOff p + 48 * 5 \<le> off2" "off2 \<le> off3" "off4 \<le> align off4 8" "mp_prefixEnd p \<le> length b"
    using place_le'[OF l(6)] place_le'[OF l(7)] align_ge[of 8 off1] align_ge[of 8 off4] l(5) m by (simp_all add: merged_file_def p_def)
  have hi: "off4 + 8 + 16 * length (terms_of R) \<le> length b" using ord l(11) by simp
  have ln: "4 dvd mp_docLengthsOff p ! i \<and> mp_docLengthsOff p ! i + 4 * length R \<le> length b" if "i < 5" for i
    using place_bound[of 4 i "map (\<lambda>_. 4 * length R) defaultFieldConfigs" off2] l(7) that d(1) hi by simp
  have fs: "field_shape dictBlocked (docs_field R i) (merged_field p i (E i) (tos i) (bos i)) (length b)" if i: "i < 5" for i
  proof -
    note E = merged_lengths[OF m i]
    have "length (field_terms R i) \<le> length (terms_of R)" by simp
    then have "length (E i) \<le> length b" using E hi by linarith
    then have "dict_shape dictBlocked (fp_dict (merged_field p i (E i) (tos i) (bos i))) (length (E i)) (length b)"
      using d(2)[OF i] hi E by (simp add: dict_shape_def merged_field_def dvd_eq_mod_eq_0)
    moreover have "sortedKeys (fd_postings (docs_field R i)) = map fst (E i)" using m i by (simp add: merged_file_def docs_keys)
    moreover have "4 dvd fst (snd (E i ! j)) \<and> fst (snd (E i ! j)) + 6 * length (postings_of (docs_field R i) (fst (E i ! j))) \<le> length b"
      if j: "j < length (E i)" for j
    proof -
      have "fst (E i ! j) = field_terms R i ! j" using merged_entry(1)[OF m i j] by (metis fst_conv)
      then show ?thesis using merged_entry(2,3)[OF m i j] by (simp add: holds_nth length_posting_bytes pairs_of_def)
    qed
    ultimately show ?thesis by (simp add: field_shape_def merged_field_def)
  qed
  have "length b < 2 ^ 32" using n by (simp add: v2MaxBlobBytes_def)
  moreover have "off1 < length b" using ord d(1) hi by linarith
  moreover have "mp_fieldTableOff p + 48 * 5 \<le> length b" using ord d(1) hi by linarith
  moreover have "mp_fieldTableOff p mod 8 = 0" using align_dvd[of 8 off1] l(5) by simp
  moreover have "(align off4 8 + 8) mod 8 = 0" "align off4 8 mod 8 = 0" by simp_all
  moreover have "dictBlocked \<le> dictHash" by (simp add: dictBlocked_def dictHash_def)
  ultimately have "plan_shape ?P ?s (length b)"
    using l(2-4,9-11) ln fs ord(5) unfolding plan_shape_def merged_plan_def
    by (simp add: docs_segment_def sortedKeys_graph[OF terms_of_sorted] merged_field_offs)
  then show ?thesis unfolding p_def .
qed


lemma doc_len_bounds:
  assumes "results_fit R" "f < 5"
  shows "r \<in> set R \<Longrightarrow> 0 \<le> doc_len (defaultFieldConfigs ! f) r \<and> doc_len (defaultFieldConfigs ! f) r < 2 ^ 32"
    and "sum_list (map (doc_length f) R) = u64_of_int (sum_list (map (doc_len (defaultFieldConfigs ! f)) R))"
proof -
  let ?d = "doc_len (defaultFieldConfigs ! f)"
  have c: "defaultFieldConfigs ! f \<in> set defaultFieldConfigs" using assms(2) by simp
  have b: "0 \<le> ?d r \<and> ?d r < 2 ^ 32" if "r \<in> set R" for r
  proof -
    have "list_all (\<lambda>(t, n). length t < 65536 \<and> 0 \<le> n) (field_tokens (field_name f) r)" "?d r < 2 ^ 32"
      using assms(1) that c by (auto simp: results_fit_def list_all_iff)
    then show ?thesis by (fastforce simp: doc_len_def list_all_iff intro!: sum_list_nonneg)
  qed
  then show "r \<in> set R \<Longrightarrow> 0 \<le> ?d r \<and> ?d r < 2 ^ 32" .
  have "int (sum_list (map (doc_length f) R)) = sum_list (map ?d R)" using b by (induction R) auto
  moreover have "list_all (\<lambda>x. 0 \<le> x \<and> x < 2 ^ 32) (map ?d R)" using b by (auto simp: list_all_iff)
  from sum_list_between[OF this] have "0 \<le> sum_list (map ?d R) \<and> sum_list (map ?d R) < 2 ^ 64" using assms(1) by (simp add: results_fit_def)
  ultimately show "sum_list (map (doc_length f) R) = u64_of_int (sum_list (map ?d R))" unfolding u64_of_int_def by (metis nat_int mod_pos_pos_trivial)
qed

lemma merged_field_stores:
  assumes m: "merged_file R K E b" and f: "f < 5" and fit: "results_fit R"
    and r: "\<And>c. c < blockCountOf (length (E f)) \<Longrightarrow> first_row (docs_plan R) K f (E f) c (tos f ! c)"
           "\<And>c. c < blockCountOf (length (E f)) \<Longrightarrow> block_row (docs_plan R) K f (E f) c (bos f ! c)"
    and w: "w \<in> set (writeFieldV2 (merged_plan (docs_plan R) E tos bos (terms_of R) dos n) f (docs_field R f))"
  shows "holds b w"
proof -
  let ?p = "docs_plan R" and ?fp = "merged_field (docs_plan R) f (E f) (tos f) (bos f)" and ?fd = "docs_field R f" and ?L = "docs_lengths R"
  let ?P = "merged_plan ?p E tos bos (terms_of R) dos n"
  have K: "\<And>v. v \<in> K \<Longrightarrow> holds b v" and fx: "\<And>v. v \<in> set (fixed_puts ?p ?L) \<Longrightarrow> holds b v" using m by (auto simp: merged_file_def)
  have mem: "mp_members ?p = map dt_id R" "mp_termCount ?p ! f = length (field_terms R f)"
    using f by (simp_all add: planMerge_def Let_def split: prod.split)
  have P: "vp_fields ?P ! f = ?fp" "vp_kind ?P = dictBlocked" "vp_docCount ?P = length R" "vp_fieldTableOff ?P = mp_fieldTableOff ?p"
    using f mem(1) by (simp_all add: merged_plan_def)
  have es: "field_entries ?fp ?fd = E f"
  proof (rule nth_equalityI)
    show n: "length (field_entries ?fp ?fd) = length (E f)" by (simp add: field_entries_def merged_field_def)
    fix i assume "i < length (field_entries ?fp ?fd)"
    then have i: "i < length (E f)" using n by simp
    have "fst (E f ! i) = field_terms R f ! i" using merged_entry(1)[OF m f i] by (metis fst_conv)
    then show "field_entries ?fp ?fd ! i = E f ! i" using i merged_entry(1)[OF m f i] by (simp add: field_entries_def merged_field_def)
  qed
  have en: "holds b v" if "v \<in> set (entry_puts ?p ?L f)" for v by (rule fx) (use that f in \<open>auto simp: fixed_puts_def early_puts_def\<close>)
  have hd: "holds b v" if "v \<in> set (head_puts ?p f)" for v by (rule fx) (use that f in \<open>auto simp: fixed_puts_def late_puts_def\<close>)
  have nm: "holds b (Put (mp_nameOff ?p ! f) (bytes_of (field_name f)))" by (rule fx) (use f in \<open>auto simp: fixed_puts_def early_puts_def\<close>)
  have ln: "holds b (Put (mp_docLengthsOff ?p ! f) (concat (map (put_le 4) (map (doc_length f) R))))"
    by (rule fx) (use f in \<open>force simp: fixed_puts_def early_puts_def\<close>)
  consider (entry) "w \<in> set (entry_stores ?P f ?fd)" | (name) "w = cpy (mp_nameOff ?p ! f) (field_name f)" | (lens) "w \<in> set (length_stores ?P f ?fd)"
    | (dict) "w \<in> set (writeBlockedDict (fp_dict ?fp) (E f))"
    | (runs) i where "i < length (E f)" "w \<in> set (posting_stores (fst (snd (E f ! i))) (postings_of ?fd (fst (E f ! i))))"
    using w unfolding writeFieldV2_split P term_stores_def es
    by (auto simp: writeDict_def merged_field_offs docs_field_def Let_def) (auto simp: merged_field_def)
  then show ?thesis
  proof cases
    case entry
    have "entry_stores ?P f ?fd = entry_puts ?p ?L f"
      using f doc_len_bounds(2)[OF fit f] by (simp add: entry_stores_def entry_puts_def Let_def P merged_field_offs) (simp add: docs_field_def merged_field_def Let_def)
    then show ?thesis using entry en by simp
  next
    case name
    then show ?thesis using nm by (simp add: holds_Cpy)
  next
    case lens
    then obtain d where d: "d < length R" "w = put32 (mp_docLengthsOff ?p ! f + 4 * d) (u32_of_int (doc_len (defaultFieldConfigs ! f) (R ! d)))"
      by (auto simp: length_stores_def P merged_field_offs docs_field_def Let_def)
    have "u32_of_int (doc_len (defaultFieldConfigs ! f) (R ! d)) = doc_length f (R ! d)"
      using doc_len_bounds(1)[OF fit f nth_mem[OF d(1)]] by (simp add: u32_of_int_id)
    then show ?thesis using holds_words_row[OF ln, of d] d by simp
  next
    case dict
    let ?d = "fp_dict ?fp"
    have h: "[put32 (d_off ?d) (length (E f)), put32 (d_off ?d + 4) (d_blockCount ?d), put32 (d_off ?d + 8) (d_off ?d + 16), put32 (d_off ?d + 12) (d_blockIdxOff ?d)]
        = head_puts ?p f"
    proof -
      have "md_firstTermsOff (mp_dicts ?p ! f) = md_dictOff (mp_dicts ?p ! f) + 16"
        using early_laid[of "map (\<lambda>f. length (field_terms R f)) [0..<5]" ?L "map dt_id R" "length (terms_of R)"] f by (auto simp: plan_marks_def)
      then show ?thesis using mem(2) merged_lengths[OF m f] by (simp add: merged_field_def head_puts_def Let_def)
    qed
    have "holds b v" if c: "c < blockCountOf (length (E f))" and v: "v \<in> set (block_stores ?d (E f) c)" for c v
    proof -
      have fr: "first_rows ?p f = d_off ?d + 16"
        using early_laid[of "map (\<lambda>f. length (field_terms R f)) [0..<5]" ?L "map dt_id R" "length (terms_of R)"] f by (auto simp: plan_marks_def merged_field_def)
      have d: "d_termOff ?d = tos f" "d_blockOff ?d = bos f" "d_blockIdxOff ?d = block_rows ?p f" by (simp_all add: merged_field_def)
      let ?t = "fst (E f ! (c * blockedBlockTerms))"
      have k: "holds b (Put (tos f ! c) (bytes_of ?t))" "holds b (put32 (d_off ?d + 16 + 8 * c) (tos f ! c))" "holds b (put32 (d_off ?d + 16 + 8 * c + 4) (length ?t))"
        "holds b (Put (bos f ! c) (payload_bytes (block_slice c (E f))))" "holds b (put32 (block_rows ?p f + 4 * c) (bos f ! c))"
        using r(1)[OF c] r(2)[OF c] K unfolding first_row_def block_row_def fr Let_def by blast+
      show ?thesis using v k holds_payload[OF k(4)] unfolding block_stores_def d Let_def by (auto simp: holds_Cpy)
    qed
    moreover have "d_blockCount ?d = blockCountOf (length (E f))" by (simp add: merged_field_def)
    ultimately show ?thesis using dict hd unfolding writeBlockedDict_def h by auto
  next
    case runs
    have "fst (E f ! i) = field_terms R f ! i" using merged_entry(1)[OF m f runs(1)] by (metis fst_conv)
    then show ?thesis using holds_postings[OF merged_entry(3)[OF m f runs(1)]] runs(2) by simp
  qed
qed


lemma merged_header_stores:
  assumes m: "merged_file R K E b" and w: "w \<in> set (header_stores (merged_plan (docs_plan R) E tos bos (terms_of R) dos (length b)) 5)"
  shows "holds b w"
proof -
  let ?p = "docs_plan R"
  have K: "\<And>v. v \<in> insert (put32 24 (length b)) K \<Longrightarrow> holds b v" and fx: "\<And>v. v \<in> set (fixed_puts ?p (docs_lengths R)) \<Longrightarrow> holds b v"
    using m by (auto simp: merged_file_def)
  have mem: "length (mp_members ?p) = length R" "mp_kind ?p = dictBlocked" "mp_memberOffsetsOff ?p = 32"
    by (simp_all add: planMerge_def Let_def align_def split: prod.split)
  have h: "take 24 (header_bytes ?p) = [serialVersion] @ [dictBlocked] @ put_le 2 5 @ put_le 4 (length R) @ put_le 4 32
     @ put_le 4 (mp_memberOff ?p ! 0) @ put_le 4 (mp_fieldTableOff ?p) @ put_le 4 (mp_dfDictOff ?p)"
    using mem by (simp add: header_bytes_def)
  have "holds b (Put 0 (take 24 (header_bytes ?p)))" by (rule fx) (simp add: fixed_puts_def)
  moreover have "holds b (put32 28 0)" by (rule fx) (simp add: fixed_puts_def)
  ultimately have "holds b (Put 0 [serialVersion])" "holds b (Put 1 [dictBlocked])" "holds b (put16 2 5)" "holds b (put32 4 (length R))"
    "holds b (put32 8 32)" "holds b (put32 12 (mp_memberOff ?p ! 0))" "holds b (put32 16 (mp_fieldTableOff ?p))" "holds b (put32 20 (mp_dfDictOff ?p))" "holds b (put32 28 0)"
    unfolding h holds_append by (simp_all add: numeral_2_eq_2[symmetric])
  moreover have "holds b (put32 24 (length b))" by (rule K) simp
  ultimately show ?thesis using w mem by (auto simp: header_stores_def merged_plan_def)
qed

lemma merged_opens:
  assumes m: "merged_file R K E b" and fit: "results_fit R" and n: "length b \<le> v2MaxBlobBytes"
  shows "\<exists>ms. openSegmentV2 b = Ret ms \<and> ms_blob ms = b \<and> sealed R ms"
proof -
  let ?p = "docs_plan R" and ?ds = "map (\<lambda>t. (t, doc_freq R t)) (terms_of R)"
  have K: "\<And>v. v \<in> K \<Longrightarrow> holds b v" and fx: "\<And>v. v \<in> set (fixed_puts ?p (docs_lengths R)) \<Longrightarrow> holds b v" using m by (auto simp: merged_file_def)
  have st: "\<And>f. f < 5 \<Longrightarrow> field_done (doc_runs R) ?p K f (E f) (blockCountOf (length (E f)))" "df_done ?p K ?ds" using m by (simp_all add: merged_file_def)
  obtain tos bos dos where r: "\<And>f c. f < 5 \<Longrightarrow> c < blockCountOf (length (E f)) \<Longrightarrow> first_row ?p K f (E f) c (tos f ! c)"
    "\<And>f c. f < 5 \<Longrightarrow> c < blockCountOf (length (E f)) \<Longrightarrow> block_row ?p K f (E f) c (bos f ! c)" "\<And>i. i < length ?ds \<Longrightarrow> df_row ?p K i (?ds ! i) (dos ! i)"
    by (rule stored_at[OF st], assumption) (rule that, assumption+)
  let ?P = "merged_plan ?p E tos bos (terms_of R) dos (length b)" and ?s = "docs_segment R"
  have mem: "mp_members ?p = map dt_id R" "mp_memberOffsetsOff ?p = 32" "mp_dfCount ?p = length (terms_of R)"
    by (simp_all add: planMerge_def Let_def align_def split: prod.split)
  have P: "vp_memberOffsetsOff ?P = 32" "vp_memberOff ?P = mp_memberOff ?p" "vp_dfDictOff ?P = mp_dfDictOff ?p" "vp_dfEntriesOff ?P = mp_dfEntriesOff ?p"
    "vp_dfTerms ?P = terms_of R" "vp_dfTermOff ?P = dos" by (simp_all add: merged_plan_def)
  have "holds b w" if w: "w \<in> set (segment_stores ?P ?s)" for w
  proof -
    consider (header) "w \<in> set (header_stores ?P 5)" | (offs) i where "i < length (mp_memberOff ?p)" "w = put32 (32 + 4 * i) (mp_memberOff ?p ! i)"
      | (member) i where "i < length R" "w = cpy (mp_memberOff ?p ! i) (map dt_id R ! i)"
      | (field) f where "f < 5" "w \<in> set (writeFieldV2 ?P f (docs_field R f))" | (df) "w \<in> set (writeDocFreqDict ?P (bs_docFreq ?s))"
      using w unfolding segment_stores_def by (auto simp: P docs_segment_def)
    then show ?thesis
    proof cases
      case header
      then show ?thesis by (rule merged_header_stores[OF m])
    next
      case offs
      then show ?thesis using mem(2) by (intro fx) (auto simp: fixed_puts_def early_puts_def)
    next
      case member
      have "Put (mp_memberOff ?p ! i) (bytes_of (map dt_id R ! i)) \<in> set (fixed_puts ?p (docs_lengths R))"
        using member(1) by (auto simp: fixed_puts_def early_puts_def mem(1))
      then show ?thesis using fx member(2) by (simp add: holds_Cpy)
    next
      case field
      show ?thesis by (rule merged_field_stores[OF m field(1) fit r(1,2)[OF field(1)] field(2)])
    next
      case df
      have h: "holds b (put32 (mp_dfDictOff ?p) (length (terms_of R)))" "holds b (put32 (mp_dfDictOff ?p + 4) (mp_dfEntriesOff ?p))"
        by (rule fx, simp add: fixed_puts_def late_puts_def mem(3))+
      have d: "map_of (bs_docFreq ?s) (terms_of R ! i) = Some (doc_freq R (terms_of R ! i))" if "i < length (terms_of R)" for i
        using that by (simp add: docs_segment_def map_of_graph)
      have "holds b (put32 (mp_dfEntriesOff ?p + 16 * i) (dos ! i))" "holds b (put32 (mp_dfEntriesOff ?p + 16 * i + 4) (length (terms_of R ! i)))"
        "holds b (put64 (mp_dfEntriesOff ?p + 16 * i + 8) (u64_of_int (doc_freq R (terms_of R ! i))))" "holds b (Put (dos ! i) (bytes_of (terms_of R ! i)))"
        if "i < length (terms_of R)" for i
        using r(3)[of i] that K by (simp_all add: df_row_def Let_def)
      then show ?thesis using df h d unfolding writeDocFreqDict_def P Let_def by (auto simp: holds_Cpy)
    qed
  qed
  note wf = segment_spec_wf[OF docs_segment_spec fit]
  from shaped_opens[OF merged_shape[OF m n, of tos bos dos] wf] \<open>\<And>w. w \<in> set (segment_stores ?P ?s) \<Longrightarrow> holds b w\<close>
  obtain ms where "openSegmentV2 b = Ret ms" "ms_blob ms = b" "segment_view ?s ms" by blast
  then show ?thesis using docs_segment_spec wf unfolding sealed_def by blast
qed

section \<open>The merge\<close>

lemma survivor_calls_eq: "survivor_calls R = calls_of (doc_runs R) (doc_freq R) (terms_of R)"
  by (simp add: survivor_calls_def calls_of_def doc_runs_def)

lemma count_fields:
  "length tc = 5 \<Longrightarrow> k \<le> 5 \<Longrightarrow>
    count_events (concat (map (\<lambda>f. onField_call t f (run f t)) [0..<k]) @ evs) tc dc
      = count_events evs (map (\<lambda>f. if f < k \<and> run f t \<noteq> [] then tc ! f + 1 else tc ! f) [0..<5]) dc"
proof (induction k arbitrary: evs)
  case 0
  then show ?case using map_nth[of tc] by simp
next
  case (Suc k)
  let ?tc = "map (\<lambda>f. if f < k \<and> run f t \<noteq> [] then tc ! f + 1 else tc ! f) [0..<5]"
  have "map (\<lambda>f. if f < Suc k \<and> run f t \<noteq> [] then tc ! f + 1 else tc ! f) [0..<5] = (if run k t = [] then ?tc else ?tc[k := ?tc ! k + 1])"
    using Suc.prems(2) by (intro nth_equalityI) (auto simp: nth_list_update less_Suc_eq)
  then show ?case using Suc by (simp add: onField_call_def)
qed

lemma count_calls:
  "length tc = 5 \<Longrightarrow> count_events (calls_of run df ts) tc dc = Ret (map (\<lambda>f. tc ! f + length (terms_in run ts f)) [0..<5], dc + length ts)"
proof (induction ts arbitrary: tc dc)
  case Nil
  then show ?case using map_nth[of tc] by (simp add: calls_of_def)
next
  case (Cons t ts)
  let ?tc = "map (\<lambda>f. if f < 5 \<and> run f t \<noteq> [] then tc ! f + 1 else tc ! f) [0..<5]"
  have "calls_of run df (t # ts) = concat (map (\<lambda>f. onField_call t f (run f t)) [0..<5]) @ OnTerm t (df t) # calls_of run df ts"
    by (simp add: calls_of_def)
  then have "count_events (calls_of run df (t # ts)) tc dc = count_events (calls_of run df ts) ?tc (dc + 1)"
    using count_fields[OF Cons.prems order_refl] by simp
  also have "\<dots> = Ret (map (\<lambda>f. ?tc ! f + length (terms_in run ts f)) [0..<5], dc + 1 + length ts)" by (rule Cons.IH) simp
  also have "map (\<lambda>f. ?tc ! f + length (terms_in run ts f)) [0..<5] = map (\<lambda>f. tc ! f + length (terms_in run (t # ts) f)) [0..<5]"
    by (intro map_cong) auto
  finally show ?case by simp
qed


text \<open>The walk's calls, written after the prefix and flushed.\<close>

lemma merge_written:
  fixes R io
  defines "p \<equiv> docs_plan R"
  defines "e \<equiv> flushBlocks io p (fold (emit io p) (survivor_calls R)
      (newMergeEmitter (fold (run_call io) (prefix_calls p (docs_lengths R)) (newMergeWriter [] (mp_prefixEnd p))) p))"
  defines "w \<equiv> flushAll io (run_call io (patch32 24 (w_tail (e_w e))) (e_w e))"
  assumes long: "\<forall>t \<in> set (terms_of R). 2 \<le> length t" and io: "sink_ok io"
  shows "w_err (e_w e) = None" "verifyWithin p (w_tail (e_w e)) e = None" "w_err w = None" "w_tail w = w_tail (e_w e)"
    "w_tail (e_w e) \<le> mp_prefixEnd p + calls_cost (survivor_calls R)" "\<exists>K E. merged_file R K E (sized (w_f w) (w_tail w))"
    "length (sized (w_f w) (w_tail w)) = w_tail (e_w e)"
proof -
  let ?run = "doc_runs R" and ?ts = "terms_of R" and ?tc = "map (\<lambda>f. length (field_terms R f)) [0..<5]"
  let ?w = "fold (run_call io) (prefix_calls p (docs_lengths R)) (newMergeWriter [] (mp_prefixEnd p))"
  let ?F = "set (fixed_puts p (docs_lengths R))"
  have ok: "plan_ok p" unfolding p_def by (rule planMerge_ok) simp
  have cnt: "mp_dfCount p = length ?ts" "mp_termCount p = ?tc" by (simp_all add: p_def planMerge_def Let_def split: prod.split)
  have k: "kept p ?w (\<lambda>_. 0) (\<lambda>_. 0) 0 ?F" "w_tail ?w = mp_prefixEnd p"
    using prefix_kept[of ?tc "docs_lengths R" "map dt_id R" io "[]" "length ?ts"] io by (simp_all add: p_def)
  have t: "2 \<le> length t \<and> (\<exists>f < 5. ?run f t \<noteq> [])" if m: "t \<in> set ?ts" for t
  proof -
    obtain r where "r \<in> set R" "doc_has t r" using m unfolding terms_of_iff by blast
    then obtain f where "f < 5" "spec_postings (field_name f) t R \<noteq> []" using doc_has_field spec_postings_has by blast
    then show ?thesis using long m by (auto simp: doc_runs_Nil)
  qed
  have em: "emitting ?run (doc_freq R) p (calls_cost (survivor_calls R)) ?F (terms_in ?run ?ts) ?ts (fold (emit io p) (survivor_calls R) (newMergeEmitter ?w p))"
    unfolding survivor_calls_eq by (rule emitting_calls[OF emitting_starts[OF k ok] ok io cnt(1) _ t]) (simp add: cnt)
  have "0 < mp_dfCount p \<or> (\<forall>f < 5. terms_in ?run ?ts f = [])" using cnt(1) by (cases ?ts) simp_all
  from flushed_calls[OF em ok io this] obtain K E where f: "?F \<subseteq> K" "emitted ?run p e K E (begun E) (map (\<lambda>t. (t, doc_freq R t)) ?ts)"
    "\<forall>f < 5. map fst (E f) = terms_in ?run ?ts f" "w_tail (e_w e) \<le> mp_prefixEnd p + calls_cost (survivor_calls R)" unfolding e_def by blast
  have kp: "kept p (e_w e) (begun E) (begun E) (length ?ts) K" and ck: "checks_ok e" using f(2) by (simp_all add: emitted_def)
  show "w_err (e_w e) = None" using kp by (simp add: kept_def win_def)
  show "verifyWithin p (w_tail (e_w e)) e = None" using ck by (simp add: verifyWithin_def checks_ok_def)
  show "w_tail (e_w e) \<le> mp_prefixEnd p + calls_cost (survivor_calls R)" by (rule f(4))
  have wn: "win (e_w e)" using kp by (simp add: kept_def)
  have pt: "win (run_call io (patch32 24 (w_tail (e_w e))) (e_w e))" "w_tail (run_call io (patch32 24 (w_tail (e_w e))) (e_w e)) = w_tail (e_w e)"
    using patch_shows[OF wn io] by simp_all
  show wt: "w_tail w = w_tail (e_w e)" using win_flushAll(2)[OF pt(1) io] pt(2) by (simp add: w_def)
  note s = kept_stamped[OF kp ok io, folded w_def]
  show "w_err w = None" by (rule s(1))
  show ln: "length (sized (w_f w) (w_tail w)) = w_tail (e_w e)" unfolding wt by (rule s(3))
  have "merged_file R K E (sized (w_f w) (w_tail w))"
    unfolding merged_file_def p_def[symmetric] ln
  proof (intro conjI)
    show "?F \<subseteq> K" by (rule f(1))
    show "\<forall>g < 5. field_done ?run p K g (E g) (begun E g) \<and> map fst (E g) = field_terms R g" using f(2,3) by (simp add: emitted_def)
    show "df_done p K (map (\<lambda>t. (t, doc_freq R t)) ?ts)" using f(2) by (simp add: emitted_def)
    show "\<forall>v \<in> insert (put32 24 (w_tail (e_w e))) K. holds (sized (w_f w) (w_tail w)) v" using s(2) unfolding wt by blast
    show "mp_prefixEnd p \<le> w_tail (e_w e)" using kp by (simp add: kept_def)
  qed
  then show "\<exists>K E. merged_file R K E (sized (w_f w) (w_tail w))" by blast
qed

lemma sealed_lists: "list_all2 sealed rss ins \<Longrightarrow> list_all2 (lists_items dt_id) rss ins"
  by (auto simp: list_all2_conv_all_nth sealed_def lists_items_def segment_view_def segment_spec_def)

lemma MergeTo_seals:
  fixes rss accept
  defines "R \<equiv> survivors dt_id accept rss"
  assumes "list_all2 sealed rss ins" "length (concat rss) < 2 ^ 31" "results_fit R" "\<forall>t \<in> set (terms_of R). 2 \<le> length t" "sink_ok io"
  shows "\<exists>n \<le> mp_prefixEnd (docs_plan R) + calls_cost (survivor_calls R).
    if n > v2MaxBlobBytes then MergeTo io [] ins accept = Fail (ErrText ''bm25 merge: merged segment past the ceiling'')
    else \<exists>f ms. MergeTo io [] ins accept = Ret (f, n) \<and> openSegmentV2 (sized f n) = Ret ms \<and> sealed R ms"
proof -
  let ?p = "docs_plan R" and ?L = "docs_lengths R"
  obtain remap where l: "resolveMergeLayout ins accept = Ret (map dt_id R, remap)" "remaps rss R remap"
    using resolveMergeLayout_exact[OF sealed_lists[OF assms(2)] assms(3)] unfolding R_def by blast
  have w: "mergeWalk ins remap = (survivor_calls R, Ret ())"
    using mergeWalk_survivors[OF assms(2) l(2) assms(3)] assms(4) by (simp add: results_fit_def)
  have "map (\<lambda>f. replicate 5 0 ! f + length (field_terms R f)) [0..<5] = map (\<lambda>f. length (field_terms R f)) [0..<5]" by (rule map_cong) auto
  then have c: "count_events (survivor_calls R) (replicate 5 0) 0 = Ret (map (\<lambda>f. length (field_terms R f)) [0..<5], length (terms_of R))"
    using count_calls[of "replicate 5 0" "doc_runs R" "doc_freq R" "terms_of R" 0] unfolding survivor_calls_eq by simp
  have "mp_members ?p = map dt_id R" by (simp add: planMerge_def Let_def split: prod.split)
  then have L: "mergeDocLengths ?p ins remap = ?L" by (intro mergeDocLengths_survivors[OF assms(2) l(2)]) simp
  define e where "e = flushBlocks io ?p (fold (emit io ?p) (survivor_calls R)
      (newMergeEmitter (fold (run_call io) (prefix_calls ?p ?L) (newMergeWriter [] (mp_prefixEnd ?p))) ?p))"
  define w' where "w' = flushAll io (run_call io (patch32 24 (w_tail (e_w e))) (e_w e))"
  note m = merge_written[OF assms(5,6), folded e_def, folded w'_def]
  have b: "stream_body io [] ins accept dictBlocked =
      (if w_tail (e_w e) > v2MaxBlobBytes then Fail (ErrText ''bm25 merge: merged segment past the ceiling'') else Ret (w_f w', w_tail w'))"
    unfolding stream_body_def l(1) bind_out_simps prod.case w c five_fields Let_def writeMergePrefix_def L e_def[symmetric] m(1)
    using m(2,3) by (simp add: w'_def)
  have k: "MergeTo io [] ins accept = catchCorrupt [] (stream_body io [] ins accept dictBlocked)"
    by (simp add: MergeTo_def streamMergeToFile_def defaultDictKind_def dictBlocked_def dictHash_def)
  obtain K E where f: "merged_file R K E (sized (w_f w') (w_tail w'))" using m(6) by blast
  show ?thesis
  proof (intro exI[of _ "w_tail (e_w e)"] conjI m(5))
    show "if v2MaxBlobBytes < w_tail (e_w e) then MergeTo io [] ins accept = Fail (ErrText ''bm25 merge: merged segment past the ceiling'')
       else \<exists>f ms. MergeTo io [] ins accept = Ret (f, w_tail (e_w e)) \<and> openSegmentV2 (sized f (w_tail (e_w e))) = Ret ms \<and> sealed R ms"
      using merged_opens[OF f assms(4)] m(4,7) unfolding k b by auto
  qed
qed



lemma demo_survivors: "survivors dt_id [None, None] [demo_results, demo_results] = demo_results"
  by (simp add: survivors_def acceptFor_def accepts_def demo_results_eq)

lemma demo_terms: "terms_of demo_results = [''get'', ''getuser'', ''user'']"
  unfolding demo_results_eq by code_simp

lemma demo_counts: "map (\<lambda>f. length (field_terms demo_results f)) [0..<5] = [0, 3, 0, 0, 0]"
  unfolding demo_results_eq by code_simp

lemma demo_cost: "calls_cost (survivor_calls demo_results) = 105"
  unfolding demo_results_eq by code_simp

lemma planFieldDict_end: "snd (planFieldDict dictBlocked n off) = align (align off 8 + 16 + 8 * blockCountOf n) 4 + 4 * blockCountOf n"
  by (simp add: planFieldDict_def Let_def)

lemma plan_dicts_end: "snd (plan_dicts kind ns off) = fold (\<lambda>n off. snd (planFieldDict kind n off)) ns off"
  by (induction ns arbitrary: off) (simp_all add: Let_def case_prod_beta)

lemma demo_prefix: "mp_prefixEnd (planMerge dictBlocked [''d1''] [0, 3, 0, 0, 0] 3) = 504"
proof -
  define p where "p = planMerge dictBlocked [''d1''] [0, 3, 0, 0, 0] 3"
  obtain off1 off2 off3 off4 memberOff where l:
    "mp_kind p = dictBlocked" "mp_members p = [''d1'']" "mp_memberOffsetsOff p = 32"
    "place 1 (32 + 4 * (length [''d1''] + 1)) (map length [''d1'']) = (memberOff, off1)" "mp_memberOff p = memberOff @ [off1]"
    "mp_fieldTableOff p = align off1 8"
    "place 1 (mp_fieldTableOff p + 48 * 5) (map (\<lambda>cfg. length (fc_Name cfg)) defaultFieldConfigs) = (mp_nameOff p, off2)"
    "place 4 off2 (map (\<lambda>_. 4 * length [''d1'']) defaultFieldConfigs) = (mp_docLengthsOff p, off3)"
    "plan_dicts dictBlocked [0, 3, 0, 0, 0] off3 = (mp_dicts p, off4)" "mp_termCount p = [0, 3, 0, 0, 0]"
    "mp_dfDictOff p = align off4 8" "mp_dfEntriesOff p = align off4 8 + 8" "mp_dfCount p = 3" "mp_prefixEnd p = align off4 8 + 8 + 16 * 3"
    unfolding p_def by (rule planMerge_fields)
  have 1: "mp_fieldTableOff p = 48" using l(4,6) by (simp add: place.simps align_def)
  have 2: "off2 = 332" using l(7) unfolding 1 by (simp add: place.simps align_def defaultFieldConfigs_def)
  have 3: "off3 = 352" using l(8) unfolding 2 by (simp add: place.simps align_def defaultFieldConfigs_def)
  have "blockCountOf 0 = 0" "blockCountOf 3 = 1" by (simp_all add: blockCountOf_def blockedBlockTerms_def)
  then have "snd (plan_dicts dictBlocked [0, 3, 0, 0, 0] 352) = 448" by (simp only: plan_dicts_end planFieldDict_end fold.simps o_apply id_apply align_def) simp
  then have "off4 = 448" using l(9) unfolding 3 by simp
  then show ?thesis using l(14) by (simp add: p_def align_def)
qed

lemma demo_merge_small: "mp_prefixEnd (docs_plan demo_results) + calls_cost (survivor_calls demo_results) \<le> v2MaxBlobBytes"
proof -
  have "map dt_id demo_results = [''d1'']" by (simp add: demo_results_eq)
  then have "mp_prefixEnd (docs_plan demo_results) = 504" unfolding demo_counts unfolding demo_terms using demo_prefix by (simp add: numeral_eq_Suc)
  then show ?thesis by (simp only: demo_cost v2MaxBlobBytes_def)
qed


end
