(* ===== verification/Spec2Isabelle.thy ===== *)
theory Spec2Isabelle
  imports Runs Residency Scratch Bm25MergeTo
begin

text \<open>
  The segmented search engine of knowledge-mcp, \<open>src/internal/searchengine\<close>.

  \<^bold>\<open>The program.\<close> knowledge is a local server that indexes code and documents and answers
  hybrid searches over them. Its own core is the package \<open>searchengine\<close>: a segmented index,
  generic in a segment format (BM25 and HNSW are two), that buffers documents, seals them into
  immutable content-addressed segments, publishes an immutable snapshot of the resident segments
  by compare-and-swap, marks deletions in per-segment live bitsets, fans a query out over the
  segments and merges their top-k lists, consolidates segments, and ships segments as blobs that
  say which segments they supersede.

  \<^bold>\<open>Theories and sources.\<close>
  \<^item> \<open>Prelude\<close>: Go maps as association lists, the newest entry of a list satisfying a predicate,
    strings as bytes.
  \<^item> \<open>TopK\<close> (\<open>topk.go\<close>, \<open>Hit\<close> of \<open>document.go\<close>): the bounded heap and the cross-segment merge.
  \<^item> \<open>LiveDocs\<close> (\<open>livedocs.go\<close>): the live bitset on 64-bit words; the interface
    \<open>live_set_interface\<close> is interpreted by it.
  \<^item> \<open>Supersession\<close> (\<open>supersession.go\<close>): the byte format of the supersession envelope.
  \<^item> \<open>Sha256\<close>, \<open>Bucket\<close> (\<open>bucket.go\<close>): the bucket of an id and the bucket count of a corpus.
  \<^item> \<open>Format\<close> (\<open>segment.go\<close>, \<open>document.go\<close>, \<open>corruption.go\<close>): documents, the format contract as a
    record of operations, and outcomes: a value, an error, or a panic, where a corruption panic
    carries its segment and its report-once latch. Formats are parameters everywhere.
  \<^item> \<open>SegmentSet\<close> (\<open>segmentset.go\<close>) and \<open>SegmentReplace\<close> (\<open>segmentset_replace.go\<close>): the published
    snapshot, its two-level route (a base map, a bounded tail, a drop set and a stale index) and the
    derivations of a next snapshot. The abstract specification is the flat route over the entries.
  \<^item> \<open>Engine\<close> (\<open>engine.go\<close>, \<open>options.go\<close>): the engine state, buffering, sealing, publication and
    deletion. Bitsets are shared between snapshots, so they live in a store that entries address.
  \<^item> \<open>Reads\<close> (\<open>engine_search.go\<close>, \<open>engine_resident_aggregates.go\<close>, \<open>vectorbyid.go\<close> and the
    containment half of \<open>corruption.go\<close>): searches and aggregates.
  \<^item> \<open>Membership\<close> (\<open>bucket_membership.go\<close>): supersession of document copies and bucket spans.
  \<^item> \<open>Merge\<close> (\<open>merge.go\<close>, \<open>mergeEntry\<close> of \<open>merge_entry.go\<close>, \<open>merge_validate.go\<close>): the merge policy,
    the consolidation of segments through a file and its mapping, the validation of the output and the
    publication. The computation and the swap of \<open>doMerge\<close> are two definitions, because
    other operations run between them.
  \<^item> \<open>Swap\<close> (\<open>bucket_swap.go\<close>, \<open>bucket_swap_group.go\<close>): the replacement of one bucket's segments
    and of a group of buckets over shared constituents.
  \<^item> \<open>Layer\<close> (\<open>layer_swap.go\<close>, \<open>layer_release.go\<close>): building a replacement layer and swapping it in.
  \<^item> \<open>Distribution\<close> (\<open>distribution.go\<close>, \<open>mapping_lifetime.go\<close>): export, import with the
    supersession gate, eviction, and republication of resident payloads over their stored copies.
  \<^item> \<open>Scratch\<close> (the rest of \<open>merge_entry.go\<close>): the scratch directory under concurrent merges, a
    step relation over files and claims.
  \<^item> \<open>Residency\<close> (\<open>residency.go\<close>): the modelled heap and the list of heap-backed segments.
  \<^item> \<open>Runs\<close>: all of the above interleaved.

  The BM25 format, \<open>formats/bm25\<close>, in the order a document takes through it:
  \<^item> \<open>Bm25Tokenizer\<close> (\<open>tokenizer.go\<close>, \<open>strings.go\<close>): text to counted tokens, bytes and runes.
  \<^item> \<open>Bm25Build\<close> (\<open>build.go\<close>, \<open>field.go\<close>): the parallel pass over a batch and the accumulator.
  \<^item> \<open>Bm25Hash\<close>, \<open>Bm25Serial\<close> (\<open>serial_v2.go\<close>, \<open>serial_v2_dict.go\<close>): the layout plan and the stores
    that fill the blob, with its flat, blocked (front-coded) and hash dictionaries. The stores are a
    list, run one after the other on the buffer; each that leaves the buffer is an index panic.
  \<^item> \<open>Bm25Mapped\<close> (\<open>mapped.go\<close>, \<open>mapped_dict.go\<close>, \<open>dictIter\<close> of \<open>merge_cursor.go\<close>, \<open>validate.go\<close>):
    the reader over the bytes of a blob. Every read of the model is bounds-checked and ends in a value,
    an error, the typed corruption or the runtime panic that Go raises there.
  \<^item> \<open>Bm25Roundtrip\<close>, \<open>Bm25Codec\<close>: what the reader sees of an encoded accumulator.
  \<^item> \<open>Bm25Stats\<close> (\<open>stats.go\<close>, the statistics of \<open>format.go\<close>): corpus statistics and their probes.
  \<^item> \<open>Bm25Heap\<close> (\<open>heap.go\<close> over \<open>container/heap\<close>), \<open>Bm25Search\<close> (\<open>segment.go\<close>, \<open>mapped_search.go\<close>),
    \<open>Bm25Rank\<close>: scoring and selection, on the accumulator and on the mapped segment, against a
    per-document score.
  \<^item> \<open>Bm25Format\<close> (\<open>format.go\<close>): build and decode, and the whole path from documents to hits.
  \<^item> \<open>Bm25Writer\<close> (\<open>merge_writer.go\<close>): the coalescing writer of a merge over its sink.
  \<^item> \<open>Bm25Walk\<close> (\<open>merge_cursor.go\<close>): the k-way walk over the dictionaries, on a heap of cursors.
  \<^item> \<open>Bm25Layout\<close> (\<open>resolveMergeLayout\<close>, \<open>resolveMergeWinners\<close>): which documents a merge keeps.
  \<^item> \<open>Bm25Merge\<close> (\<open>merge_stream.go\<close>, \<open>merge_emit.go\<close>, \<open>MergeTo\<close> of \<open>format.go\<close>): the prefix plan, the
    emitter and the two passes; \<open>Bm25Splice\<close>: the walk and the lengths of a merge of sealed segments.
  \<^item> \<open>Bm25Emit\<close>, \<open>Bm25Emitted\<close>: what the merge's file holds after any number of the walk's calls, as a
    set of stores that no later call reaches; \<open>Bm25Sealed\<close>: the prefix and the stamped length
    complete it; \<open>Bm25MergeTo\<close>: the file opens, and what it opens to.

  \<^bold>\<open>State.\<close> \<open>SegmentedIndex\<close> of \<open>Engine\<close> has the fields of the Go struct that carry data: the
  published set, the write buffer, the counters, the signals, and what was handed to the owner's
  hooks (degradations, corruptions, merge results) as logs. An entry points to its bitset by an
  address in \<open>e_store\<close>: a bitset is mutated in place and seen by every snapshot that shares the
  entry, and two entries that stand for one segment share it. A compare-and-swap loop is one
  state update computed from the current set, which is what a won attempt is. The mutex-guarded
  parts are one step each.

  \<^bold>\<open>What is shown.\<close>
  \<^item> Data: the heap keeps the k best hits and equals sort-then-cut on distinct scores; the bitset
    counts are exact on 64-bit words; the envelope round-trips, is canonical and its decoder never
    reads out of range on any bytes; bucket counts are least powers of two and buckets split
    in two when the count doubles.
  \<^item> The snapshot: the two-level route with its drop set and stale index refines a flat map rebuilt
    over the entries, through append, incremental replacement, group replacement and payload
    replacement (\<open>snapshot_route\<close> is the interface its clients use).
  \<^item> The engine: a seal publishes one all-live segment, a delete clears the routed copy, a search
    returns live accepted documents, a corrupt segment costs only itself, the coverage
    answers agree with each other, a re-added batch leaves one copy of each id.
  \<^item> Consolidation: merges, bucket swaps, group swaps and layer swaps conserve what is searchable
    when nothing interleaves; a failed or refused one publishes nothing.
  \<^item> Distribution: an export imports to the same corpus, the supersession gate loses nothing when
    cohorts carry what they replaced, remaps change payloads only and release the heap they claim.
  \<^item> Concurrency: \<open>transition_system\<close> (in \<open>Prelude\<close>) is the proof rule for invariants of step
    relations; it is interpreted by the runs of the engine and by the scratch directory.
  \<^item> BM25: the ASCII fast path equals the general one and yields well-typed tokens; the accumulator
    holds exactly the postings of its documents; the encoder fills its planned buffer exactly and the
    reader inverts it for each dictionary kind; arbitrary bytes cannot make a read fail other than
    through an error or the typed corruption (one exception); a query on a mapped segment equals
    that on the accumulator and returns the best k of the matching documents by the corpus-wide score;
    statistics are incremental and do not depend on how a corpus is split into segments.
  \<^item> BM25 merges: the coalescing windows are unobservable for a merge's calls; one member is kept per
    accepted id, the last copy; the walk delivers the surviving postings of all inputs grouped by term
    and field, which over sealed segments are the postings of the surviving documents; and \<open>MergeTo\<close> over
    sealed segments, from reading its inputs to the bytes of its file, writes a segment sealed over the
    surviving documents, of a length bounded by the plan and the calls, or refuses one past the ceiling.
  \<^item> Defects, each a theorem on a concrete engine: the drop set loses a route when a consolidation
    republishes an id (\<open>SegmentReplace\<close>), a re-add aliasing an older segment leaves a live copy no
    lookup reaches (\<open>Membership\<close>), a delete during a merge is undone by its swap (\<open>Merge\<close>), two
    consolidations restoring each other's content are both declined at import (\<open>Distribution\<close>),
    the heap's tie rule is not the one its comment states (\<open>TopK\<close>), slicing a lowered word can cut
    runes apart (\<open>Bm25Tokenizer\<close>), the blocked dictionary truncates long terms (\<open>Bm25Roundtrip\<close>), an
    empty member at the end of a blob escapes the containment of its validation (\<open>Bm25Mapped\<close>), an
    append's padding can overwrite a patched value (\<open>Bm25Writer\<close>).

  \<^bold>\<open>Hypotheses.\<close> A format is a record of functions. What the engine relies on is named:
  \<open>stats_agree\<close> (incremental statistics equal folded ones), \<open>build_exact\<close> and \<open>merge_exact\<close> (the
  ids of the output are those of the accepted input), \<open>merge_ignores_rejected\<close>, \<open>codec_ok\<close>,
  \<open>search_honest\<close>, \<open>no_panic\<close>, \<open>map_faithful\<close> (a mapping holds the file's bytes). \<open>ids_format\<close>, whose
  segments are id lists with a real byte encoding, satisfies them, and the witnesses run on it.
  In the BM25 theories the Unicode tables (\<open>unicode_tables\<close>) and floating-point arithmetic
  (\<open>float_ops\<close>, over any linear order) are parameters without laws; \<open>segment_wf\<close> and \<open>results_fit\<close>
  bound lengths by the widths of the layout's fields and are met by an accumulator whose terms are
  shorter than 65,536 bytes. The merge theorem asks for terms of at least two bytes, which are those the
  tokenizer yields, and for a file that is empty and takes every write (\<open>sink_ok\<close>); \<open>sized\<close> is the engine's
  \<open>Truncate\<close> after the merge.

  \<^bold>\<open>Bounds.\<close> All recursions terminate: no fuel is used. Word widths are kept where they matter (64-bit
  bitset words and counters, little-endian length fields, the 8 digest bytes of a bucket, the BM25 layout, hash and frequencies);
  lengths and sums are unbounded integers. Scores are any linear order (no NaN).

  \<^bold>\<open>Not modelled.\<close> Goroutine scheduling inside one call (search fan-out, harvest pool, import
  pool: their results are indexed and joined, the model runs them in order), log lines, contexts
  beyond the answers of \<open>ctx.Err()\<close>, the unmapping of memory by the garbage collector, and file
  I/O beyond success or failure of each call. The HNSW format is floating-point distances throughout. Of BM25,
  the accumulator's heap estimate and \<open>recover.go\<close>'s logging are not modelled.
  Outside \<open>searchengine\<close>: the segment cache and transport (\<open>segmentdist\<close>), the query dispatch engine, collectors,
  parsers, embedding, the CLI and the tool handlers, which are formats of the contract above,
  clients of it, or I/O.
\<close>

end
